(* ===== verification/Prelude.thy ===== *)
theory Prelude
  imports Main "HOL-Library.Word" "HOL-Library.Monad_Syntax"
begin

section \<open>Machine model shared by every component\<close>

text \<open>
  The vocabulary of the model: machine integers as words, raw memory as byte lists with
  checked accesses, C strings, byte order, and the oracle queues through which the results
  of system calls enter.

  Conventions.
  \<^item> A computation has type \<open>'a option\<close>. \<open>None\<close> is an execution that has no C result:
    it dereferences NULL, reads or writes out of the bounds of an object, or never returns.
    A returned error code is an ordinary value (\<open>Some (-1, s)\<close>), never \<open>None\<close>.
  \<^item> Pointers are 64-bit words, \<open>NULL\<close> is 0. The host is little-endian, as the ARM and x86
    targets of the program are; \<open>htons\<close>/\<open>ntohs\<close> therefore swap bytes.
  \<^item> An oracle queue holds the results the environment will give to successive calls; when
    it is exhausted the call has its default result.
\<close>

unbundle bit_operations_syntax

named_theorems mem_simps "evaluation of checked memory accesses"
named_theorems order_simps "byte-order conversions"

type_synonym u8 = "8 word"
type_synonym u16 = "16 word"
type_synonym u32 = "32 word"
type_synonym ptr = "64 word"
type_synonym bytes = "u8 list"

abbreviation NULL :: ptr where
  "NULL \<equiv> 0"

subsection \<open>Assertions of the C semantics\<close>

text \<open>\<open>check b\<close> is defined behaviour only where \<open>b\<close> holds.\<close>

definition check :: "bool \<Rightarrow> unit option" where
  "check b = (if b then Some () else None)"

lemma check_bind [simp]: "(check b \<bind> f) = (if b then f () else None)"
  by (simp add: check_def)

lemma check_eq_Some [simp]: "check b = Some u \<longleftrightarrow> b"
  by (simp add: check_def)

subsection \<open>Raw memory\<close>

text \<open>
  An object in memory is the list of its bytes. \<open>rd m off n\<close> reads \<open>n\<close> bytes at offset
  \<open>off\<close>, \<open>wr m off bs\<close> overwrites; both fail outside the object.
\<close>

definition splice_at :: "'a list \<Rightarrow> nat \<Rightarrow> 'a list \<Rightarrow> 'a list" where
  "splice_at d b xs = take b d @ xs @ drop (b + length xs) d"

lemma length_splice_at [simp]: "b + length xs \<le> length d \<Longrightarrow> length (splice_at d b xs) = length d"
  by (simp add: splice_at_def)

lemma nth_splice_at:
  "b + length xs \<le> length d \<Longrightarrow> p < length d \<Longrightarrow>
    splice_at d b xs ! p = (if b \<le> p \<and> p < b + length xs then xs ! (p - b) else d ! p)"
  by (auto simp: splice_at_def nth_append min_def)

definition rd :: "bytes \<Rightarrow> nat \<Rightarrow> nat \<Rightarrow> bytes option" where
  "rd m off n = (if off + n \<le> length m then Some (take n (drop off m)) else None)"

definition rd8 :: "bytes \<Rightarrow> nat \<Rightarrow> u8 option" where
  "rd8 m off = (if off < length m then Some (m ! off) else None)"

definition wr :: "bytes \<Rightarrow> nat \<Rightarrow> bytes \<Rightarrow> bytes option" where
  "wr m off bs = (if off + length bs \<le> length m
     then Some (splice_at m off bs) else None)"

lemma rd_Some [mem_simps]: "off + n \<le> length m \<Longrightarrow> rd m off n = Some (take n (drop off m))"
  by (simp add: rd_def)

lemma rd8_Some [mem_simps]: "off < length m \<Longrightarrow> rd8 m off = Some (m ! off)"
  by (simp add: rd8_def)

lemma wr_Some [mem_simps]: "off + length bs \<le> length m \<Longrightarrow>
    wr m off bs = Some (splice_at m off bs)"
  by (simp add: wr_def)

lemma length_wr: "wr m off bs = Some m' \<Longrightarrow> length m' = length m"
  by (auto simp: wr_def split: if_splits)

lemma length_rd: "rd m off n = Some bs \<Longrightarrow> length bs = n"
  by (auto simp: rd_def split: if_splits)

lemma rd_wr_same: "wr m off bs = Some m' \<Longrightarrow> rd m' off (length bs) = Some bs"
  by (auto simp: wr_def rd_def splice_at_def split: if_splits)

lemma rd_append_left [mem_simps]: "off + n \<le> length m \<Longrightarrow> rd (m @ r) off n = rd m off n"
  by (simp add: rd_def)

lemma rd8_append_left [mem_simps]: "off < length m \<Longrightarrow> rd8 (m @ r) off = rd8 m off"
  by (simp add: rd8_def nth_append)

subsection \<open>C strings\<close>

text \<open>\<open>cstring m\<close> is the string that starts at the first byte of \<open>m\<close>; \<open>None\<close> when no NUL
  byte ends it inside \<open>m\<close>, where \<open>strlen\<close> would read out of bounds.\<close>

fun cstring :: "bytes \<Rightarrow> bytes option" where
  "cstring [] = None"
| "cstring (b # bs) = (if b = 0 then Some [] else map_option (Cons b) (cstring bs))"

lemma cstring_append [simp]: "0 \<notin> set s \<Longrightarrow> cstring (s @ 0 # r) = Some s"
  by (induction s) auto

lemma cstring_Some_iff: "cstring m = Some s \<longleftrightarrow> 0 \<notin> set s \<and> (\<exists>r. m = s @ 0 # r)"
proof (induction m arbitrary: s)
  case Nil
  then show ?case by simp
next
  case (Cons b m)
  then show ?case by (cases s) auto
qed

lemma cstring_no_nul: "cstring m = Some s \<Longrightarrow> 0 \<notin> set s"
  by (simp add: cstring_Some_iff)

text \<open>The bytes \<open>strncpy (dst, s, n)\<close> writes: at most \<open>n\<close> bytes of \<open>s\<close>, then NUL padding.\<close>

definition strncpy_bytes :: "nat \<Rightarrow> bytes \<Rightarrow> bytes" where
  "strncpy_bytes n s = take n s @ replicate (n - length s) 0"

lemma length_strncpy_bytes [simp]: "length (strncpy_bytes n s) = n"
  by (simp add: strncpy_bytes_def)

lemma strncpy_bytes_short: "length s < n \<Longrightarrow> strncpy_bytes n s = s @ 0 # replicate (n - Suc (length s)) 0"
  by (simp add: strncpy_bytes_def replicate_Suc[symmetric] Suc_diff_Suc del: replicate_Suc)

lemma strncpy_bytes_long: "n \<le> length s \<Longrightarrow> strncpy_bytes n s = take n s"
  by (simp add: strncpy_bytes_def)

subsection \<open>Byte order\<close>

text \<open>
  \<open>store16\<close>/\<open>load16\<close> are the in-memory representation of a 16-bit integer on the
  little-endian host, \<open>htons\<close> its byte swap; \<open>be16\<close> is the network representation.
\<close>

definition store16 :: "u16 \<Rightarrow> bytes" where
  "store16 x = [ucast x, ucast (drop_bit 8 x)]"

definition load16 :: "bytes \<Rightarrow> u16" where
  "load16 bs = (case bs of [a, b] \<Rightarrow> ucast a OR push_bit 8 (ucast b) | _ \<Rightarrow> 0)"

definition htons :: "u16 \<Rightarrow> u16" where
  "htons x = push_bit 8 x OR drop_bit 8 x"

abbreviation ntohs :: "u16 \<Rightarrow> u16" where
  "ntohs \<equiv> htons"

definition be16 :: "u16 \<Rightarrow> bytes" where
  "be16 x = [ucast (drop_bit 8 x), ucast x]"

definition store32 :: "u32 \<Rightarrow> bytes" where
  "store32 x = [ucast x, ucast (drop_bit 8 x), ucast (drop_bit 16 x), ucast (drop_bit 24 x)]"

definition load32 :: "bytes \<Rightarrow> u32" where
  "load32 bs = (case bs of [a, b, c, d] \<Rightarrow>
     ucast a OR push_bit 8 (ucast b) OR push_bit 16 (ucast c) OR push_bit 24 (ucast d) | _ \<Rightarrow> 0)"

definition ntohl :: "u32 \<Rightarrow> u32" where
  "ntohl x = push_bit 24 x OR (push_bit 8 x AND 0xff0000) OR (drop_bit 8 x AND 0xff00) OR drop_bit 24 x"

definition be32 :: "u32 \<Rightarrow> bytes" where
  "be32 x = [ucast (drop_bit 24 x), ucast (drop_bit 16 x), ucast (drop_bit 8 x), ucast x]"

lemma length_store16 [simp]: "length (store16 x) = 2"
  by (simp add: store16_def)

lemma length_be16 [simp]: "length (be16 x) = 2"
  by (simp add: be16_def)

lemma htons_htons [order_simps, simp]: "htons (htons x) = x"
  unfolding htons_def by (rule bit_word_eqI) (auto simp: bit_simps)

lemma store16_htons [order_simps]: "store16 (htons x) = be16 x"
proof -
  have "ucast (push_bit 8 x OR drop_bit 8 x) = (ucast (drop_bit 8 x) :: u8)"
    by (rule bit_word_eqI) (auto simp: bit_simps)
  moreover have "ucast (drop_bit 8 (push_bit 8 x OR drop_bit 8 x)) = (ucast x :: u8)"
    by (rule bit_word_eqI) (auto simp: bit_simps)
  ultimately show ?thesis
    by (simp add: store16_def htons_def be16_def)
qed

lemma load16_store16 [order_simps, simp]: "load16 (store16 x) = x"
  unfolding load16_def store16_def
  by simp (rule bit_word_eqI, auto simp: bit_simps)

lemma store16_load16 [order_simps]: "length bs = 2 \<Longrightarrow> store16 (load16 bs) = bs"
proof -
  assume "length bs = 2"
  then obtain a b where bs: "bs = [a, b]"
    by (auto simp: length_Suc_conv numeral_2_eq_2)
  have "ucast ((ucast a :: u16) OR push_bit 8 (ucast b)) = (a :: u8)"
    by (rule bit_word_eqI) (auto simp: bit_simps)
  moreover have "ucast (drop_bit 8 ((ucast a :: u16) OR push_bit 8 (ucast b))) = (b :: u8)"
    by (rule bit_word_eqI) (auto simp: bit_simps dest: bit_imp_le_length)
  ultimately show ?thesis
    by (simp add: bs store16_def load16_def)
qed

lemma load16_be16 [order_simps, simp]: "load16 (be16 x) = htons x"
  by (simp flip: store16_htons)

lemma be16_inject [simp]: "be16 x = be16 y \<longleftrightarrow> x = y"
  by (metis htons_htons load16_be16)

subsection \<open>Unsigned size arithmetic\<close>

text \<open>\<open>size_t\<close> is unsigned and 64 bits wide; its sums and differences wrap around.\<close>

definition sz_add :: "nat \<Rightarrow> nat \<Rightarrow> nat" where
  "sz_add a b = (a + b) mod 2 ^ 64"

definition sz_sub :: "nat \<Rightarrow> nat \<Rightarrow> nat" where
  "sz_sub a b = (a + (2 ^ 64 - b mod 2 ^ 64)) mod 2 ^ 64"

lemma sz_add_exact [simp]: "a + b < 2 ^ 64 \<Longrightarrow> sz_add a b = a + b"
  by (simp add: sz_add_def)

lemma sz_sub_exact [simp]: "b \<le> a \<Longrightarrow> a < 2 ^ 64 \<Longrightarrow> sz_sub a b = a - b"
proof -
  assume le: "b \<le> a" and lt: "a < 2 ^ 64"
  then have "a + (2 ^ 64 - b mod 2 ^ 64) = (a - b) + 2 ^ 64" by simp
  then have "sz_sub a b = ((a - b) + 2 ^ 64) mod 2 ^ 64" by (simp only: sz_sub_def)
  also have "\<dots> = a - b" using lt by simp
  finally show ?thesis .
qed

text \<open>Reducing an index that exceeds the modulus at most once.\<close>

lemma mod_wrap: "(x::nat) < 2 * m \<Longrightarrow> x mod m = (if x < m then x else x - m)"
  by (simp add: mod_if)

lemma mod_add_diff: "n \<le> k \<Longrightarrow> ((a + n) mod m + (k - n)) mod m = (a + k) mod (m::nat)"
  by (simp only: mod_add_left_eq) simp

lemma unat_u8_less [simp]: "unat (x :: u8) < 256"
proof -
  have "unat x < 2 ^ LENGTH(8)" by (rule unsigned_less)
  then show ?thesis by simp
qed

subsection \<open>Oracle queues\<close>

definition pop :: "'a \<Rightarrow> 'a list \<Rightarrow> 'a \<times> 'a list" where
  "pop d q = (case q of [] \<Rightarrow> (d, []) | x # xs \<Rightarrow> (x, xs))"

lemma pop_Nil [simp]: "pop d [] = (d, [])"
  by (simp add: pop_def)

lemma pop_Cons [simp]: "pop d (x # xs) = (x, xs)"
  by (simp add: pop_def)

subsection \<open>Generic list facts\<close>

lemma take_append_exact: "length xs = n \<Longrightarrow> take n (xs @ ys) = xs"
  by simp

lemma drop_append_exact: "length xs = n \<Longrightarrow> drop n (xs @ ys) = ys"
  by simp

lemma bind_case_prod [simp]: "(Some (a, b) \<bind> (\<lambda>(x, y). f x y)) = f a b"
  by simp

subsection \<open>Weakest preconditions\<close>

text \<open>\<open>wlp m P\<close>: if the computation \<open>m\<close> has a result, it satisfies \<open>P\<close>. \<open>wp m P\<close>: the computation
  is defined and its result satisfies \<open>P\<close>. The rules in \<open>wp_simps\<close> decompose \<open>do\<close> blocks.\<close>

named_theorems wp_simps "decomposition of wp and wlp"

definition wlp :: "'a option \<Rightarrow> ('a \<Rightarrow> bool) \<Rightarrow> bool" where
  "wlp m P \<longleftrightarrow> (\<forall>x. m = Some x \<longrightarrow> P x)"

definition wp :: "'a option \<Rightarrow> ('a \<Rightarrow> bool) \<Rightarrow> bool" where
  "wp m P \<longleftrightarrow> (\<exists>x. m = Some x \<and> P x)"

lemma wlpD: "wlp m P \<Longrightarrow> m = Some x \<Longrightarrow> P x"
  by (simp add: wlp_def)

lemma wlpI: "(\<And>x. m = Some x \<Longrightarrow> P x) \<Longrightarrow> wlp m P"
  by (simp add: wlp_def)

lemma wlp_weaken: "wlp m Q \<Longrightarrow> (\<And>x. m = Some x \<Longrightarrow> Q x \<Longrightarrow> P x) \<Longrightarrow> wlp m P"
  by (simp add: wlp_def)

lemma wp_weaken: "wp m Q \<Longrightarrow> (\<And>x. m = Some x \<Longrightarrow> Q x \<Longrightarrow> P x) \<Longrightarrow> wp m P"
  by (auto simp: wp_def)

lemma wp_wlp: "wp m P \<Longrightarrow> wlp m Q \<Longrightarrow> wp m (\<lambda>x. P x \<and> Q x)"
  by (auto simp: wp_def wlp_def)

lemma wlp_simps [wp_simps]:
  "wlp (k \<bind> f) P \<longleftrightarrow> wlp k (\<lambda>x. wlp (f x) P)"
  "wlp (Some x) P \<longleftrightarrow> P x" "wlp None P"
  "wlp (if b then m else m') P \<longleftrightarrow> (if b then wlp m P else wlp m' P)"
  "wlp (Let v g) P \<longleftrightarrow> wlp (g v) P"
  "wlp (case p of (x, y) \<Rightarrow> h x y) P \<longleftrightarrow> (case p of (x, y) \<Rightarrow> wlp (h x y) P)"
  by (auto simp: wlp_def Option.bind_eq_Some_conv split: prod.splits)

lemma wp_simps' [wp_simps]:
  "wp (k \<bind> f) P \<longleftrightarrow> wp k (\<lambda>x. wp (f x) P)"
  "wp (Some x) P \<longleftrightarrow> P x" "\<not> wp None P"
  "wp (if b then m else m') P \<longleftrightarrow> (if b then wp m P else wp m' P)"
  "wp (Let v g) P \<longleftrightarrow> wp (g v) P"
  "wp (case p of (x, y) \<Rightarrow> h x y) P \<longleftrightarrow> (case p of (x, y) \<Rightarrow> wp (h x y) P)"
  by (auto simp: wp_def Option.bind_eq_Some_conv split: prod.splits)

subsection \<open>Runs and simulation\<close>

text \<open>\<open>run_ops step s ops\<close> performs a sequence of operations; it is undefined as soon as one
  of them is. A step relation that simulates an abstract machine operation by operation
  simulates its runs.\<close>

fun run_ops :: "('s \<Rightarrow> 'op \<Rightarrow> 's option) \<Rightarrow> 's \<Rightarrow> 'op list \<Rightarrow> 's option" where
  "run_ops step s [] = Some s"
| "run_ops step s (x # xs) = step s x \<bind> (\<lambda>s'. run_ops step s' xs)"

lemma run_ops_sim:
  assumes step: "\<And>s a x a'. R s a \<Longrightarrow> astep a x = Some a' \<Longrightarrow> \<exists>s'. cstep s x = Some s' \<and> R s' a'"
    and R: "R s a" and run: "run_ops astep a xs = Some a'"
  shows "\<exists>s'. run_ops cstep s xs = Some s' \<and> R s' a'"
  using R run
proof (induction xs arbitrary: s a)
  case Nil
  then show ?case by auto
next
  case (Cons x xs)
  then obtain b where b: "astep a x = Some b" "run_ops astep b xs = Some a'"
    by (auto simp: Option.bind_eq_Some_conv)
  with step[OF Cons.prems(1)] obtain t where "cstep s x = Some t" "R t b" by blast
  with Cons.IH[of t b] b show ?case by simp
qed

lemma run_ops_append: "run_ops f s (xs @ ys) = run_ops f s xs \<bind> (\<lambda>t. run_ops f t ys)"
  by (induction xs arbitrary: s) (simp_all add: Option.bind_assoc del: bind_assoc split: bind_splits)

end
