(* ===== verification/HevList.thy ===== *)
theory HevList
  imports Prelude
begin

section \<open>Intrusive doubly-linked list (misc/hev-list.c, misc/hev-list.h)\<close>

text \<open>
  \<open>HevListNode\<close> is embedded in the objects a list links, so a node is its address, and the
  two pointer fields of all nodes are two functions on addresses (one function per field,
  as in a Burstall heap). \<open>HevList\<close> is the pair of its end pointers. Every access through
  NULL makes the operation undefined.

  \<open>list_rep l h xs\<close> says that in the heap \<open>h\<close> the list \<open>l\<close> links exactly the nodes \<open>xs\<close>, in
  this order, in both directions. The locale \<open>intrusive_list\<close> is the contract the clients
  (the session set, the LRU list of the mapped DNS, the frame queue of a UDP session) rely
  on; the operations of the code are its interpretation.
\<close>

subsection \<open>State and operations\<close>

record listheap =
  lnext :: "ptr \<Rightarrow> ptr"
  lprev :: "ptr \<Rightarrow> ptr"

record hevlist =
  head :: ptr
  tail :: ptr

definition hev_list_empty :: hevlist where
  "hev_list_empty = \<lparr>head = NULL, tail = NULL\<rparr>"

definition hev_list_node_prev :: "listheap \<Rightarrow> ptr \<Rightarrow> ptr option" where
  "hev_list_node_prev h node = (if node = NULL then None else Some (lprev h node))"

definition hev_list_node_next :: "listheap \<Rightarrow> ptr \<Rightarrow> ptr option" where
  "hev_list_node_next h node = (if node = NULL then None else Some (lnext h node))"

definition hev_list_first :: "hevlist \<Rightarrow> ptr" where
  "hev_list_first self = head self"

definition hev_list_last :: "hevlist \<Rightarrow> ptr" where
  "hev_list_last self = tail self"

definition hev_list_add_tail :: "hevlist \<Rightarrow> listheap \<Rightarrow> ptr \<Rightarrow> (hevlist \<times> listheap) option" where
  "hev_list_add_tail self h new = do {
     check (new \<noteq> NULL);
     let h1 = h\<lparr>lprev := (lprev h)(new := tail self)\<rparr>;
     let h2 = h1\<lparr>lnext := (lnext h1)(new := NULL)\<rparr>;
     Some (if tail self \<noteq> NULL
       then (self\<lparr>tail := new\<rparr>, h2\<lparr>lnext := (lnext h2)(tail self := new)\<rparr>)
       else (self\<lparr>head := new, tail := new\<rparr>, h2))
   }"

definition hev_list_del :: "hevlist \<Rightarrow> listheap \<Rightarrow> ptr \<Rightarrow> (hevlist \<times> listheap) option" where
  "hev_list_del self h node = do {
     check (node \<noteq> NULL);
     let (self1, h1) =
       (if lprev h node \<noteq> NULL
        then (self, h\<lparr>lnext := (lnext h)(lprev h node := lnext h node)\<rparr>)
        else (self\<lparr>head := lnext h node\<rparr>, h));
     Some (if lnext h1 node \<noteq> NULL
       then (self1, h1\<lparr>lprev := (lprev h1)(lnext h1 node := lprev h1 node)\<rparr>)
       else (self1\<lparr>tail := lprev h1 node\<rparr>, h1))
   }"

subsection \<open>Abstraction to a list of nodes\<close>

definition first_of :: "ptr \<Rightarrow> ptr list \<Rightarrow> ptr" where
  "first_of q xs = (case xs of [] \<Rightarrow> q | x # _ \<Rightarrow> x)"

definition last_of :: "ptr \<Rightarrow> ptr list \<Rightarrow> ptr" where
  "last_of p xs = (if xs = [] then p else last xs)"

lemma first_of_simps [simp]: "first_of q [] = q" "first_of q (x # xs) = x"
    "first_of q (xs @ ys) = first_of (first_of q ys) xs"
  by (auto simp: first_of_def split: list.splits)

lemma last_of_simps [simp]: "last_of p [] = p" "last_of p (x # xs) = last_of x xs"
    "last_of p (xs @ ys) = last_of (last_of p xs) ys"
  by (auto simp: last_of_def)

text \<open>\<open>seg h p xs q\<close>: the nodes \<open>xs\<close> are linked in order; the first has predecessor \<open>p\<close>, the
  last has successor \<open>q\<close>.\<close>

fun seg :: "listheap \<Rightarrow> ptr \<Rightarrow> ptr list \<Rightarrow> ptr \<Rightarrow> bool" where
  "seg h p [] q \<longleftrightarrow> True"
| "seg h p (x # xs) q \<longleftrightarrow>
     x \<noteq> NULL \<and> lprev h x = p \<and> lnext h x = first_of q xs \<and> seg h x xs q"

definition list_rep :: "hevlist \<Rightarrow> listheap \<Rightarrow> ptr list \<Rightarrow> bool" where
  "list_rep l h xs \<longleftrightarrow> seg h NULL xs NULL \<and> distinct xs \<and>
     head l = first_of NULL xs \<and> tail l = last_of NULL xs"

lemma seg_append: "seg h p (xs @ ys) q \<longleftrightarrow>
    seg h p xs (first_of q ys) \<and> seg h (last_of p xs) ys q"
  by (induction xs arbitrary: p) auto

lemma seg_nonnull: "seg h p xs q \<Longrightarrow> x \<in> set xs \<Longrightarrow> x \<noteq> NULL"
  by (induction xs arbitrary: p) auto

lemma seg_cong: "(\<And>x. x \<in> set xs \<Longrightarrow> lnext h' x = lnext h x \<and> lprev h' x = lprev h x) \<Longrightarrow>
    seg h' p xs q = seg h p xs q"
  by (induction xs arbitrary: p) auto

lemma seg_lnext_other [simp]: "a \<notin> set xs \<Longrightarrow>
    seg (h\<lparr>lnext := (lnext h)(a := v)\<rparr>) p xs q = seg h p xs q"
  by (rule seg_cong) auto

lemma seg_lprev_other [simp]: "a \<notin> set xs \<Longrightarrow>
    seg (h\<lparr>lprev := (lprev h)(a := v)\<rparr>) p xs q = seg h p xs q"
  by (rule seg_cong) auto

lemma seg_last_nonnull: "seg h p xs q \<Longrightarrow> xs \<noteq> [] \<Longrightarrow> last xs \<noteq> NULL"
  by (rule seg_nonnull) auto

text \<open>Redirecting one end of a segment.\<close>

lemma seg_lnext_last: "seg h p xs q \<Longrightarrow> distinct xs \<Longrightarrow> xs \<noteq> [] \<Longrightarrow>
    seg (h\<lparr>lnext := (lnext h)(last xs := q')\<rparr>) p xs q'"
proof (induction xs arbitrary: p)
  case Nil
  then show ?case by simp
next
  case (Cons x xs)
  then show ?case
    by (cases xs) (auto simp: last_ConsR)
qed

lemma seg_lprev_hd: "seg h p xs q \<Longrightarrow> distinct xs \<Longrightarrow> xs \<noteq> [] \<Longrightarrow>
    seg (h\<lparr>lprev := (lprev h)(hd xs := p')\<rparr>) p' xs q"
proof (cases xs)
  case (Cons x ys)
  assume "seg h p xs q" "distinct xs"
  with Cons have "seg h x ys q" "x \<notin> set ys" by auto
  then have "seg (h\<lparr>lprev := (lprev h)(x := p')\<rparr>) x ys q"
    by (subst seg_cong[where h = h]) auto
  with Cons \<open>seg h p xs q\<close> show ?thesis by simp
qed simp

lemma first_of_null_iff: "seg h p xs q \<Longrightarrow> first_of NULL xs = NULL \<longleftrightarrow> xs = []"
  by (cases xs) auto

lemma last_of_null_iff: "seg h p xs q \<Longrightarrow> last_of NULL xs = NULL \<longleftrightarrow> xs = []"
  by (auto simp: last_of_def dest: seg_last_nonnull)

lemma list_rep_empty: "list_rep hev_list_empty h []"
  by (simp add: list_rep_def hev_list_empty_def)

lemma list_rep_nonnull: "list_rep l h xs \<Longrightarrow> x \<in> set xs \<Longrightarrow> x \<noteq> NULL"
  by (auto simp: list_rep_def dest: seg_nonnull)

lemma list_rep_distinct: "list_rep l h xs \<Longrightarrow> distinct xs"
  by (simp add: list_rep_def)

subsection \<open>The operations implement snoc and removal\<close>

lemma hev_list_add_tail_rep:
  assumes rep: "list_rep l h xs" and new: "n \<noteq> NULL" "n \<notin> set xs"
  shows "\<exists>l' h'. hev_list_add_tail l h n = Some (l', h') \<and> list_rep l' h' (xs @ [n])"
proof -
  let ?h2 = "h\<lparr>lprev := (lprev h)(n := tail l), lnext := (lnext h)(n := NULL)\<rparr>"
  from rep have seg: "seg h NULL xs NULL" and dist: "distinct xs"
    and hd: "head l = first_of NULL xs" and tl: "tail l = last_of NULL xs"
    by (auto simp: list_rep_def)
  have seg2: "seg ?h2 NULL xs NULL"
    using seg new by (subst seg_cong[where h = h]) auto
  show ?thesis
  proof (cases "xs = []")
    case True
    with hd tl new show ?thesis
      by (simp add: hev_list_add_tail_def list_rep_def)
  next
    case False
    then have last: "last_of NULL xs = last xs" and ne: "last xs \<noteq> NULL" "last xs \<noteq> n"
      using seg new False seg_last_nonnull[OF seg False] last_in_set[OF False] by (auto simp: last_of_def)
    let ?h3 = "?h2\<lparr>lnext := (lnext ?h2)(last xs := n)\<rparr>"
    have "seg ?h3 NULL xs n"
      using seg_lnext_last[OF seg2 dist False] .
    moreover have "seg ?h3 (last xs) [n] NULL"
      using new ne tl last by simp
    ultimately have "seg ?h3 NULL (xs @ [n]) NULL"
      using last by (simp add: seg_append)
    moreover have "first_of n xs = first_of NULL xs"
      using False by (cases xs) auto
    ultimately show ?thesis
      using new ne last tl hd dist
      by (simp add: hev_list_add_tail_def list_rep_def)
  qed
qed

lemma hev_list_del_rep:
  assumes rep: "list_rep l h xs" and mem: "n \<in> set xs"
  shows "\<exists>l' h'. hev_list_del l h n = Some (l', h') \<and> list_rep l' h' (remove1 n xs)"
proof -
  from mem obtain ys zs where xs: "xs = ys @ n # zs" by (auto simp: in_set_conv_decomp)
  from rep have dist: "distinct xs" and hd: "head l = first_of NULL xs"
    and tl: "tail l = last_of NULL xs" by (auto simp: list_rep_def)
  from rep xs have sy: "seg h NULL ys n" and sz: "seg h n zs NULL" and n: "n \<noteq> NULL"
    and pn: "lprev h n = last_of NULL ys" and nn: "lnext h n = first_of NULL zs"
    by (auto simp: list_rep_def seg_append)
  from dist xs have d: "distinct ys" "distinct zs" "n \<notin> set ys" "n \<notin> set zs" "set ys \<inter> set zs = {}"
    by auto
  from d have rem: "remove1 n xs = ys @ zs" by (simp add: xs remove1_append)
  let ?h1 = "if ys = [] then h else h\<lparr>lnext := (lnext h)(last ys := first_of NULL zs)\<rparr>"
  let ?h2 = "if zs = [] then ?h1 else ?h1\<lparr>lprev := (lprev ?h1)(hd zs := last_of NULL ys)\<rparr>"
  have y1: "seg ?h1 NULL ys (first_of NULL zs)"
    using sy d seg_lnext_last[OF sy d(1)] by auto
  have z1: "seg ?h1 n zs NULL"
  proof (cases "ys = []")
    case False
    then have "last ys \<notin> set zs" using d(5) last_in_set[OF False] by blast
    with False sz show ?thesis by simp
  qed (use sz in simp)
  have z2: "seg ?h2 (last_of NULL ys) zs NULL"
    using seg_lprev_hd[OF z1 d(2)] by (cases "zs = []") auto
  have y2: "seg ?h2 NULL ys (first_of NULL zs)"
  proof (cases "zs = []")
    case False
    then have "hd zs \<notin> set ys" using d(5) hd_in_set[OF False] by blast
    with False y1 show ?thesis by (simp only: if_False seg_lprev_other not_False_eq_True)
  qed (use y1 in simp)
  have seg: "seg ?h2 NULL (ys @ zs) NULL"
    using y2 z2 by (simp add: seg_append)
  have e: "last_of NULL ys = NULL \<longleftrightarrow> ys = []" "first_of NULL zs = NULL \<longleftrightarrow> zs = []"
    using sy sz by (auto dest: last_of_null_iff first_of_null_iff)
  have last: "ys \<noteq> [] \<Longrightarrow> last_of NULL ys = last ys" and first: "zs \<noteq> [] \<Longrightarrow> first_of NULL zs = hd zs"
    by (auto simp: last_of_def first_of_def split: list.splits)
  have ln: "last ys \<noteq> n" if "ys \<noteq> []" using that d by auto
  define l1 where "l1 = (if ys = [] then l\<lparr>head := first_of NULL zs\<rparr> else l)"
  define l2 where "l2 = (if zs = [] then l1\<lparr>tail := last_of NULL ys\<rparr> else l1)"
  have run: "hev_list_del l h n = Some (l2, ?h2)"
    using n e last first ln pn nn
    by (cases "ys = []"; cases "zs = []") (simp_all add: hev_list_del_def l1_def l2_def)
  have "head l2 = first_of NULL (ys @ zs)" "tail l2 = last_of NULL (ys @ zs)"
    using hd tl xs e
    by (auto simp: l1_def l2_def last_of_def first_of_def split: list.splits)
  with run seg d rem show ?thesis
    by (auto simp: list_rep_def)
qed

lemma hev_list_first_rep: "list_rep l h xs \<Longrightarrow> hev_list_first l = first_of NULL xs"
  by (simp add: hev_list_first_def list_rep_def)

lemma hev_list_last_rep: "list_rep l h xs \<Longrightarrow> hev_list_last l = last_of NULL xs"
  by (simp add: hev_list_last_def list_rep_def)

lemma hev_list_node_next_rep:
  assumes "list_rep l h (ys @ n # zs)"
  shows "hev_list_node_next h n = Some (first_of NULL zs)"
  using assms by (auto simp: hev_list_node_next_def list_rep_def seg_append)

subsection \<open>The contract of the clients\<close>

text \<open>A list with insertion at the tail and removal of a given node.\<close>

locale intrusive_list =
  fixes add_tail :: "'l \<Rightarrow> 'h \<Rightarrow> ptr \<Rightarrow> ('l \<times> 'h) option"
    and del :: "'l \<Rightarrow> 'h \<Rightarrow> ptr \<Rightarrow> ('l \<times> 'h) option"
    and first :: "'l \<Rightarrow> ptr"
    and rep :: "'l \<Rightarrow> 'h \<Rightarrow> ptr list \<Rightarrow> bool"
  assumes add_tail_rep: "rep l h xs \<Longrightarrow> n \<noteq> NULL \<Longrightarrow> n \<notin> set xs \<Longrightarrow>
        \<exists>l' h'. add_tail l h n = Some (l', h') \<and> rep l' h' (xs @ [n])"
    and del_rep: "rep l h xs \<Longrightarrow> n \<in> set xs \<Longrightarrow>
        \<exists>l' h'. del l h n = Some (l', h') \<and> rep l' h' (remove1 n xs)"
    and first_rep: "rep l h xs \<Longrightarrow> first l = (case xs of [] \<Rightarrow> NULL | x # _ \<Rightarrow> x)"
    and rep_distinct: "rep l h xs \<Longrightarrow> distinct xs"
    and rep_nonnull: "rep l h xs \<Longrightarrow> NULL \<notin> set xs"
begin

text \<open>Removing a node and adding it again moves it to the tail: the "most recently used"
  step of both LRU clients.\<close>

lemma move_to_tail:
  assumes "rep l h xs" "n \<in> set xs"
  shows "\<exists>l1 h1 l2 h2. del l h n = Some (l1, h1) \<and> add_tail l1 h1 n = Some (l2, h2) \<and>
    rep l2 h2 (remove1 n xs @ [n])"
proof -
  from del_rep[OF assms] obtain l1 h1
    where del: "del l h n = Some (l1, h1)" and r1: "rep l1 h1 (remove1 n xs)" by blast
  have "n \<notin> set (remove1 n xs)" using rep_distinct[OF assms(1)] by simp
  moreover have "n \<noteq> NULL" using rep_nonnull[OF assms(1)] assms(2) by auto
  ultimately show ?thesis using add_tail_rep[OF r1] del by blast
qed

text \<open>Popping the first node of a nonempty list.\<close>

lemma pop_first:
  assumes "rep l h (x # xs)"
  shows "first l = x \<and> (\<exists>l' h'. del l h (first l) = Some (l', h') \<and> rep l' h' xs)"
  using del_rep[OF assms, of x] first_rep[OF assms] by simp

text \<open>The eviction step of a bounded list: add a node, drop the oldest.\<close>

lemma add_then_pop:
  assumes "rep l h (x # xs)" "n \<noteq> NULL" "n \<notin> set (x # xs)"
  shows "\<exists>l1 h1 l2 h2. add_tail l h n = Some (l1, h1) \<and> first l1 = x \<and>
    del l1 h1 x = Some (l2, h2) \<and> rep l2 h2 (xs @ [n])"
proof -
  from add_tail_rep[OF assms] obtain l1 h1
    where add: "add_tail l h n = Some (l1, h1)" and r: "rep l1 h1 (x # xs @ [n])" by auto
  with pop_first[OF r] show ?thesis by auto
qed

end

interpretation hl: intrusive_list hev_list_add_tail hev_list_del hev_list_first list_rep
proof
  show "hev_list_first l = (case xs of [] \<Rightarrow> NULL | x # _ \<Rightarrow> x)" if "list_rep l h xs" for l h xs
    using that by (simp add: hev_list_first_rep first_of_def)
  show "NULL \<notin> set xs" if "list_rep l h xs" for l h xs
    using list_rep_nonnull[OF that] by blast
qed (simp_all add: hev_list_add_tail_rep hev_list_del_rep list_rep_distinct)

subsection \<open>Properties\<close>

datatype list_op = AddTail ptr | Del ptr

fun list_step :: "hevlist \<times> listheap \<Rightarrow> list_op \<Rightarrow> (hevlist \<times> listheap) option" where
  "list_step (l, h) (AddTail n) = hev_list_add_tail l h n"
| "list_step (l, h) (Del n) = hev_list_del l h n"

text \<open>The abstract machine: sequences without repetition, where only a new node may be added
  and only a linked node may be removed.\<close>

fun seq_step :: "ptr list \<Rightarrow> list_op \<Rightarrow> ptr list option" where
  "seq_step xs (AddTail n) = (if n \<noteq> NULL \<and> n \<notin> set xs then Some (xs @ [n]) else None)"
| "seq_step xs (Del n) = (if n \<in> set xs then Some (remove1 n xs) else None)"

lemma list_step_sim:
  "case_prod list_rep s xs \<Longrightarrow> seq_step xs x = Some ys \<Longrightarrow>
    \<exists>s'. list_step s x = Some s' \<and> case_prod list_rep s' ys"
  by (cases s; cases x)
    (auto split: if_splits dest: hl.add_tail_rep hl.del_rep)

text \<open>C21: the intrusive list implements sequences. Starting from the empty list in any heap,
  every run of insertions of new nodes and removals of linked nodes performs no access
  through NULL, and the list ends up linking, in both directions, exactly the nodes of the
  abstract sequence in their order of insertion.\<close>

theorem hev_list_implements_sequence:
  assumes "run_ops seq_step [] ops = Some xs"
  shows "\<exists>l h'. run_ops list_step (hev_list_empty, h) ops = Some (l, h') \<and> list_rep l h' xs"
  using run_ops_sim[where R = "case_prod list_rep" and s = "(hev_list_empty, h)", OF list_step_sim _ assms]
    list_rep_empty by auto

theorem hev_list_implements_sequence_witness:
  "\<exists>l h'. run_ops list_step (hev_list_empty, \<lparr>lnext = \<lambda>_. 7, lprev = \<lambda>_. 9\<rparr>)
      [AddTail 16, AddTail 32, AddTail 48, Del 32, AddTail 32] = Some (l, h') \<and>
    list_rep l h' [16, 48, 32]"
  by (rule hev_list_implements_sequence) simp

text \<open>Deleting a linked node and adding it again, the touch of the LRU clients, moves it to
  the tail and keeps the order of the others.\<close>

theorem hev_list_touch:
  assumes "list_rep l h xs" "n \<in> set xs"
  shows "\<exists>l1 h1 l2 h2. hev_list_del l h n = Some (l1, h1) \<and>
    hev_list_add_tail l1 h1 n = Some (l2, h2) \<and> list_rep l2 h2 (remove1 n xs @ [n])"
  using hl.move_to_tail[OF assms] .

theorem hev_list_touch_witness:
  "\<exists>l1 h1 l2 h2.
    hev_list_del \<lparr>head = 16, tail = 32\<rparr>
      \<lparr>lnext = (\<lambda>_. NULL)(16 := 32), lprev = (\<lambda>_. NULL)(32 := 16)\<rparr> 16 = Some (l1, h1) \<and>
    hev_list_add_tail l1 h1 16 = Some (l2, h2) \<and> list_rep l2 h2 [32, 16]"
  using hev_list_touch[of "\<lparr>head = 16, tail = 32\<rparr>"
      "\<lparr>lnext = (\<lambda>_. NULL)(16 := 32), lprev = (\<lambda>_. NULL)(32 := 16)\<rparr>" "[16, 32]" 16]
  by (simp add: list_rep_def)

end
