(* ===== verification/RingBuffer.thy ===== *)
theory RingBuffer
  imports Prelude
begin

section \<open>Ring buffer of a TCP session (misc/hev-ring-buffer.c)\<close>

text \<open>
  The buffer between the proxy socket and lwIP. \<open>use_size\<close> bytes are held: the oldest
  \<open>use_size - rda_size\<close> of them have been passed to \<open>tcp_write\<close> by reference and wait for
  their acknowledgement (\<open>read_release\<close>), the newest \<open>rda_size\<close> are still to be passed.
  Offsets into \<open>data\<close> stand for the pointers of the \<open>iovec\<close>s; an operation that fills an
  \<open>iovec\<close> array and returns its length returns the list of the filled entries.

  The abstraction is a pair of byte queues, \<open>inflight\<close> and \<open>unread\<close>. The lemmas show that
  the five operations implement the queue operations, that the two regions offered to
  \<open>readv\<close> never overlap bytes lwIP may still read, and that the index arithmetic neither
  leaves \<open>data\<close> nor wraps.
\<close>

subsection \<open>State and operations\<close>

record iovec =
  iov_base :: nat
  iov_len :: nat

record ring_buffer =
  rp :: nat
  wp :: nat
  rda_size :: nat
  use_size :: nat
  max_size :: nat
  rdata :: bytes

definition hev_ring_buffer_alloca :: "nat \<Rightarrow> bytes \<Rightarrow> ring_buffer" where
  "hev_ring_buffer_alloca s garbage =
     \<lparr>rp = 0, wp = 0, rda_size = 0, use_size = 0, max_size = s, rdata = garbage\<rparr>"

definition hev_ring_buffer_get_max_size :: "ring_buffer \<Rightarrow> nat" where
  "hev_ring_buffer_get_max_size self = max_size self"

definition hev_ring_buffer_get_use_size :: "ring_buffer \<Rightarrow> nat" where
  "hev_ring_buffer_get_use_size self = use_size self"

definition hev_ring_buffer_reading :: "ring_buffer \<Rightarrow> iovec list" where
  "hev_ring_buffer_reading self =
     (if 0 = rda_size self then []
      else let upper_size = sz_sub (max_size self) (rp self) in
        if rda_size self \<le> upper_size
        then [\<lparr>iov_base = rp self, iov_len = rda_size self\<rparr>]
        else [\<lparr>iov_base = rp self, iov_len = upper_size\<rparr>,
              \<lparr>iov_base = 0, iov_len = sz_sub (rda_size self) upper_size\<rparr>])"

definition hev_ring_buffer_read_finish :: "ring_buffer \<Rightarrow> nat \<Rightarrow> ring_buffer" where
  "hev_ring_buffer_read_finish self n =
     self\<lparr>rp := sz_add (rp self) n mod max_size self,
          rda_size := sz_sub (rda_size self) n\<rparr>"

definition hev_ring_buffer_read_release :: "ring_buffer \<Rightarrow> nat \<Rightarrow> ring_buffer" where
  "hev_ring_buffer_read_release self n =
     (let self' = self\<lparr>use_size := sz_sub (use_size self) n\<rparr>
      in if use_size self' = 0 then self'\<lparr>rp := 0, wp := 0\<rparr> else self')"

definition hev_ring_buffer_writing :: "ring_buffer \<Rightarrow> iovec list" where
  "hev_ring_buffer_writing self =
     (if use_size self = max_size self then []
      else let upper_size = sz_sub (max_size self) (wp self);
               spc_size = sz_sub (max_size self) (use_size self) in
        if spc_size \<le> upper_size
        then [\<lparr>iov_base = wp self, iov_len = spc_size\<rparr>]
        else [\<lparr>iov_base = wp self, iov_len = upper_size\<rparr>,
              \<lparr>iov_base = 0, iov_len = sz_sub spc_size upper_size\<rparr>])"

definition hev_ring_buffer_write_finish :: "ring_buffer \<Rightarrow> nat \<Rightarrow> ring_buffer" where
  "hev_ring_buffer_write_finish self n =
     self\<lparr>wp := sz_add (wp self) n mod max_size self,
          use_size := sz_add (use_size self) n,
          rda_size := sz_add (rda_size self) n\<rparr>"

text \<open>What \<open>readv\<close> does to the memory behind an \<open>iovec\<close> array when it delivers \<open>bs\<close>, and
  what \<open>writev\<close> or a sequence of \<open>tcp_write\<close>s takes from it.\<close>

fun scatter :: "bytes \<Rightarrow> iovec list \<Rightarrow> bytes \<Rightarrow> bytes" where
  "scatter d [] bs = d"
| "scatter d (v # vs) bs =
     scatter (splice_at d (iov_base v) (take (iov_len v) bs)) vs (drop (iov_len v) bs)"

definition gather :: "bytes \<Rightarrow> iovec list \<Rightarrow> bytes" where
  "gather d vs = concat (map (\<lambda>v. take (iov_len v) (drop (iov_base v) d)) vs)"

definition iov_total :: "iovec list \<Rightarrow> nat" where
  "iov_total vs = sum_list (map iov_len vs)"

definition iov_cells :: "iovec list \<Rightarrow> nat set" where
  "iov_cells vs = (\<Union>v \<in> set vs. {iov_base v ..< iov_base v + iov_len v})"

subsection \<open>Invariant and abstraction\<close>

definition ring_ok :: "ring_buffer \<Rightarrow> bool" where
  "ring_ok r \<longleftrightarrow> 0 < max_size r \<and> max_size r < 2 ^ 63 \<and> length (rdata r) = max_size r \<and>
     rp r < max_size r \<and> rda_size r \<le> use_size r \<and> use_size r \<le> max_size r \<and>
     wp r = (rp r + rda_size r) mod max_size r"

lemma ring_okD:
  assumes "ring_ok r"
  shows "0 < max_size r" "max_size r < 2 ^ 63" "length (rdata r) = max_size r"
    "rp r < max_size r" "rda_size r \<le> use_size r" "use_size r \<le> max_size r"
    "wp r < max_size r"
  using assms by (auto simp: ring_ok_def)

lemma ring_ok_wp_eq: "ring_ok r \<Longrightarrow> wp r = (rp r + rda_size r) mod max_size r"
  by (simp add: ring_ok_def)

definition cells :: "bytes \<Rightarrow> nat \<Rightarrow> nat \<Rightarrow> bytes" where
  "cells d s n = map (\<lambda>i. d ! ((s + i) mod length d)) [0..<n]"

definition ring_start :: "ring_buffer \<Rightarrow> nat" where
  "ring_start r = (rp r + max_size r - (use_size r - rda_size r)) mod max_size r"

definition unread :: "ring_buffer \<Rightarrow> bytes" where
  "unread r = cells (rdata r) (rp r) (rda_size r)"

definition inflight :: "ring_buffer \<Rightarrow> bytes" where
  "inflight r = cells (rdata r) (ring_start r) (use_size r - rda_size r)"

text \<open>The positions of the bytes lwIP or the next \<open>tcp_write\<close> may still read.\<close>

definition held_cells :: "ring_buffer \<Rightarrow> nat set" where
  "held_cells r = {(ring_start r + i) mod max_size r | i. i < use_size r}"

lemma length_cells [simp]: "length (cells d s n) = n"
  by (simp add: cells_def)

lemma cells_0 [simp]: "cells d s 0 = []"
  by (simp add: cells_def)

lemma ring_ok_start: "ring_ok r \<Longrightarrow> ring_start r < max_size r"
  by (simp add: ring_start_def ring_ok_def)

lemma cells_split: "n \<le> m \<Longrightarrow> cells d s m = cells d s n @ cells d (s + n) (m - n)"
proof -
  assume "n \<le> m"
  then have "[0..<m] = [0..<n] @ map (\<lambda>i. i + n) [0..<m - n]"
    using upt_add_eq_append[of 0 n "m - n"] by (simp add: map_add_upt)
  then show ?thesis
    by (simp add: cells_def comp_def add.commute add.left_commute)
qed

lemma cells_mod: "cells d (s mod length d) n = cells d s n"
  by (simp add: cells_def mod_add_left_eq)

lemma cells_straight: "s + n \<le> length d \<Longrightarrow> cells d s n = take n (drop s d)"
  by (rule nth_equalityI) (auto simp: cells_def)

text \<open>What is held is in flight first, then unread.\<close>

lemma start_plus_inflight:
  assumes "ring_ok r"
  shows "(ring_start r + (use_size r - rda_size r)) mod max_size r = rp r"
proof -
  have "(ring_start r + (use_size r - rda_size r)) mod max_size r
      = (rp r + max_size r - (use_size r - rda_size r) + (use_size r - rda_size r)) mod max_size r"
    by (simp only: ring_start_def mod_add_left_eq)
  also have "\<dots> = (rp r + max_size r) mod max_size r"
    using assms by (simp add: ring_ok_def)
  also have "\<dots> = rp r"
    using assms by (simp add: ring_ok_def)
  finally show ?thesis .
qed

lemma held_eq:
  assumes "ring_ok r"
  shows "inflight r @ unread r = cells (rdata r) (ring_start r) (use_size r)"
proof -
  let ?k = "use_size r - rda_size r"
  have "cells (rdata r) (ring_start r) (use_size r)
      = cells (rdata r) (ring_start r) ?k @ cells (rdata r) (ring_start r + ?k) (rda_size r)"
    using assms by (subst cells_split[of ?k]) (auto simp: ring_ok_def)
  also have "cells (rdata r) (ring_start r + ?k) (rda_size r) = unread r"
    using assms start_plus_inflight[OF assms] cells_mod[of "rdata r" "ring_start r + ?k"]
    by (simp add: unread_def ring_ok_def)
  finally show ?thesis by (simp add: inflight_def)
qed

subsection \<open>Reading\<close>

lemma hev_ring_buffer_alloca_ok:
  "0 < s \<Longrightarrow> s < 2 ^ 63 \<Longrightarrow> length g = s \<Longrightarrow>
    ring_ok (hev_ring_buffer_alloca s g) \<and> unread (hev_ring_buffer_alloca s g) = [] \<and>
    inflight (hev_ring_buffer_alloca s g) = []"
  by (simp add: ring_ok_def hev_ring_buffer_alloca_def unread_def inflight_def cells_def)

lemma hev_ring_buffer_reading_unread:
  assumes "ring_ok r"
  shows "gather (rdata r) (hev_ring_buffer_reading r) = unread r"
proof -
  note ok = ring_okD[OF assms]
  have up: "sz_sub (max_size r) (rp r) = max_size r - rp r" using ok by simp
  show ?thesis
  proof (cases "rda_size r \<le> max_size r - rp r")
    case True
    with ok up show ?thesis
      by (auto simp: hev_ring_buffer_reading_def gather_def unread_def cells_straight)
  next
    case False
    then have "cells (rdata r) (rp r) (rda_size r) =
        cells (rdata r) (rp r) (max_size r - rp r) @
        cells (rdata r) 0 (rda_size r - (max_size r - rp r))"
      using ok cells_mod[of "rdata r" "max_size r"]
      by (subst cells_split[of "max_size r - rp r"]) auto
    with False ok up show ?thesis
      by (auto simp: hev_ring_buffer_reading_def gather_def unread_def cells_straight)
  qed
qed

lemma hev_ring_buffer_read_finish_ok:
  assumes ok: "ring_ok r" and n: "n \<le> rda_size r"
  defines "r' \<equiv> hev_ring_buffer_read_finish r n"
  shows "ring_ok r'" "unread r' = drop n (unread r)" "inflight r' = inflight r @ take n (unread r)"
proof -
  note o = ring_okD[OF ok]
  have r': "r' = r\<lparr>rp := (rp r + n) mod max_size r, rda_size := rda_size r - n\<rparr>"
    using o n by (simp add: r'_def hev_ring_buffer_read_finish_def)
  have "(rp r + rda_size r) mod max_size r = ((rp r + n) mod max_size r + (rda_size r - n)) mod max_size r"
    using mod_add_diff[OF n] by simp
  then show ok': "ring_ok r'"
    using o n ring_ok_wp_eq[OF ok] by (simp add: r' ring_ok_def)
  have un: "unread r = cells (rdata r) (rp r) n @ cells (rdata r) (rp r + n) (rda_size r - n)"
    using n by (simp add: unread_def cells_split)
  have un': "unread r' = cells (rdata r) (rp r + n) (rda_size r - n)"
    using o cells_mod[of "rdata r" "rp r + n"] by (simp add: r' unread_def)
  with un show d: "unread r' = drop n (unread r)" by simp
  have st: "ring_start r' = ring_start r"
  proof -
    have "ring_start r' = ((rp r + n) mod max_size r + (max_size r - (use_size r - rda_size r + n))) mod max_size r"
      unfolding ring_start_def r' by simp (rule arg_cong[where f = "\<lambda>x. x mod max_size r"], use o n in arith)
    also have "\<dots> = (rp r + n + (max_size r - (use_size r - rda_size r + n))) mod max_size r"
      by (simp only: mod_add_left_eq)
    also have "\<dots> = ring_start r"
      unfolding ring_start_def by (rule arg_cong[where f = "\<lambda>x. x mod max_size r"], use o n in arith)
    finally show ?thesis .
  qed
  have "inflight r' @ unread r' = inflight r @ unread r"
    unfolding held_eq[OF ok] held_eq[OF ok'] st by (simp add: r')
  with d have "inflight r' @ drop n (unread r) = (inflight r @ take n (unread r)) @ drop n (unread r)"
    by simp
  then show "inflight r' = inflight r @ take n (unread r)" by blast
qed

lemma hev_ring_buffer_read_release_ok:
  assumes ok: "ring_ok r" and n: "n \<le> use_size r - rda_size r"
  defines "r' \<equiv> hev_ring_buffer_read_release r n"
  shows "ring_ok r'" "unread r' = unread r" "inflight r' = drop n (inflight r)"
proof -
  note o = ring_okD[OF ok]
  have u: "sz_sub (use_size r) n = use_size r - n" using o n by simp
  show "ring_ok r'" "unread r' = unread r"
    using o n u ring_ok_wp_eq[OF ok] by (auto simp: r'_def hev_ring_buffer_read_release_def ring_ok_def unread_def Let_def cells_def)
  show "inflight r' = drop n (inflight r)"
  proof (cases "use_size r = n")
    case True
    with o n show ?thesis
      by (simp add: r'_def hev_ring_buffer_read_release_def inflight_def u cells_def)
  next
    case False
    with n o have "use_size r - n \<noteq> 0" by simp
    then have r': "r' = r\<lparr>use_size := use_size r - n\<rparr>"
      by (simp add: r'_def hev_ring_buffer_read_release_def u Let_def)
    let ?k = "use_size r - rda_size r"
    have "ring_start r' = (rp r + max_size r - ?k + n) mod max_size r"
      unfolding ring_start_def r' by simp (rule arg_cong[where f = "\<lambda>x. x mod max_size r"], use o n in arith)
    also have "\<dots> = (ring_start r + n) mod max_size r"
      by (simp add: ring_start_def mod_add_left_eq)
    finally have "cells (rdata r) (ring_start r') (?k - n) = cells (rdata r) (ring_start r + n) (?k - n)"
      using o cells_mod[of "rdata r"] by simp
    moreover have "inflight r = cells (rdata r) (ring_start r) n @ cells (rdata r) (ring_start r + n) (?k - n)"
      using n by (simp add: inflight_def cells_split)
    moreover have "use_size r - n - rda_size r = ?k - n" by arith
    then have "inflight r' = cells (rdata r) (ring_start r') (?k - n)"
      unfolding inflight_def r' by simp
    ultimately show ?thesis by simp
  qed
qed

subsection \<open>Writing\<close>

lemma writing_cases:
  assumes "ring_ok r"
  shows "hev_ring_buffer_writing r =
    (if use_size r = max_size r then []
     else if max_size r - use_size r \<le> max_size r - wp r
     then [\<lparr>iov_base = wp r, iov_len = max_size r - use_size r\<rparr>]
     else [\<lparr>iov_base = wp r, iov_len = max_size r - wp r\<rparr>,
           \<lparr>iov_base = 0, iov_len = wp r - use_size r\<rparr>])"
  using ring_okD[OF assms] by (simp add: hev_ring_buffer_writing_def)

lemma hev_ring_buffer_writing_total:
  "ring_ok r \<Longrightarrow> iov_total (hev_ring_buffer_writing r) = max_size r - use_size r"
  using ring_okD[of r] by (simp add: writing_cases iov_total_def)

lemma hev_ring_buffer_writing_bounds:
  "ring_ok r \<Longrightarrow> v \<in> set (hev_ring_buffer_writing r) \<Longrightarrow> iov_base v + iov_len v \<le> max_size r"
  using ring_okD[of r] by (auto simp: writing_cases split: if_splits)

text \<open>\<open>woff r p\<close> is the distance of position \<open>p\<close> from the write pointer.\<close>

definition woff :: "ring_buffer \<Rightarrow> nat \<Rightarrow> nat" where
  "woff r p = (if wp r \<le> p then p - wp r else max_size r + p - wp r)"

lemma writing_cells_iff:
  assumes "ring_ok r" "p < max_size r"
  shows "p \<in> iov_cells (hev_ring_buffer_writing r) \<longleftrightarrow> woff r p < max_size r - use_size r"
  using ring_okD[OF assms(1)] assms by (auto simp: writing_cases iov_cells_def woff_def)

lemma scatter_writing_nth:
  assumes ok: "ring_ok r" and len: "length bs \<le> max_size r - use_size r" and p: "p < max_size r"
  shows "scatter (rdata r) (hev_ring_buffer_writing r) bs ! p =
      (if woff r p < length bs then bs ! woff r p else rdata r ! p)"
proof -
  note o = ring_okD[OF ok]
  show ?thesis
  proof (cases "max_size r - use_size r \<le> max_size r - wp r")
    case True
    with o len p show ?thesis
      by (auto simp: writing_cases[OF ok] nth_splice_at woff_def)
  next
    case False
    let ?u = "max_size r - wp r"
    let ?a = "take ?u bs" and ?b = "drop ?u bs"
    have "use_size r < wp r" using False o by arith
    then have "scatter (rdata r) (hev_ring_buffer_writing r) bs = splice_at (splice_at (rdata r) (wp r) ?a) 0 ?b"
      using False o len by (simp add: writing_cases[OF ok])
    moreover have "wp r + length ?a \<le> length (rdata r)" "0 + length ?b \<le> length (rdata r)"
      using o len False by auto
    moreover have "wp r \<le> p \<Longrightarrow> p - wp r < ?u" using p by simp
    ultimately show ?thesis
      using o p len False by (auto simp: nth_splice_at woff_def)
  qed
qed

lemma length_scatter:
  "(\<And>v. v \<in> set vs \<Longrightarrow> iov_base v + iov_len v \<le> length d) \<Longrightarrow> length (scatter d vs bs) = length d"
proof (induction d vs bs rule: scatter.induct)
  case (2 d v vs bs)
  have "iov_base v + iov_len v \<le> length d"
    by (rule "2.prems") simp
  then have "iov_base v + length (take (iov_len v) bs) \<le> length d"
    by simp
  then have "length (splice_at d (iov_base v) (take (iov_len v) bs)) = length d"
    by simp
  with 2 show ?case by simp
qed simp

lemma length_scatter_writing:
  "ring_ok r \<Longrightarrow> length (scatter (rdata r) (hev_ring_buffer_writing r) bs) = max_size r"
  using hev_ring_buffer_writing_bounds[of r] ring_okD(3)[of r] by (simp add: length_scatter)

lemma held_end:
  assumes "ring_ok r"
  shows "(ring_start r + use_size r) mod max_size r = wp r mod max_size r"
proof -
  note o = ring_okD[OF assms]
  have "(ring_start r + use_size r) mod max_size r
      = ((ring_start r + (use_size r - rda_size r)) mod max_size r + rda_size r) mod max_size r"
    using o by (simp add: mod_add_left_eq)
  then show ?thesis
    using start_plus_inflight[OF assms] ring_ok_wp_eq[OF assms] by simp
qed

lemma held_not_writable:
  assumes ok: "ring_ok r" and i: "i < use_size r"
  shows "\<not> woff r ((ring_start r + i) mod max_size r) < max_size r - use_size r"
proof -
  note o = ring_okD[OF ok] and st = ring_ok_start[OF ok]
  have "ring_start r + use_size r = wp r \<or> ring_start r + use_size r = wp r + max_size r"
    using held_end[OF ok] o st by (simp add: mod_wrap split: if_splits)
  then show ?thesis
    using i o st by (auto simp: woff_def mod_wrap split: if_splits)
qed

lemma hev_ring_buffer_write_finish_ok:
  assumes ok: "ring_ok r" and n: "length bs \<le> max_size r - use_size r"
  defines "r' \<equiv> hev_ring_buffer_write_finish
      (r\<lparr>rdata := scatter (rdata r) (hev_ring_buffer_writing r) bs\<rparr>) (length bs)"
  shows "ring_ok r'" "unread r' = unread r @ bs" "inflight r' = inflight r"
proof -
  note o = ring_okD[OF ok]
  let ?d = "scatter (rdata r) (hev_ring_buffer_writing r) bs"
  let ?m = "max_size r"
  have r': "r' = r\<lparr>rdata := ?d, wp := (wp r + length bs) mod ?m,
      use_size := use_size r + length bs, rda_size := rda_size r + length bs\<rparr>"
    using o n by (simp add: r'_def hev_ring_buffer_write_finish_def)
  have ld: "length ?d = ?m" using length_scatter_writing[OF ok] .
  have "(wp r + length bs) mod ?m = (rp r + (rda_size r + length bs)) mod ?m"
    by (simp add: ring_ok_wp_eq[OF ok] mod_add_left_eq add.assoc)
  then show "ring_ok r'"
    using o n ld by (simp add: r' ring_ok_def)
  have st: "ring_start r' = ring_start r" by (simp add: r' ring_start_def)
  have same: "cells ?d s k = cells (rdata r) s k"
    if "\<And>i. i < k \<Longrightarrow> \<not> woff r ((s + i) mod ?m) < length bs" for s k
    using that o scatter_writing_nth[OF ok n] ld by (auto simp: cells_def)
  have old: "\<not> woff r ((ring_start r + i) mod ?m) < length bs" if "i < use_size r" for i
    using held_not_writable[OF ok that] n by simp
  show "inflight r' = inflight r"
    unfolding inflight_def st using same[of "use_size r - rda_size r" "ring_start r"] old
    by (simp add: r')
  have held: "cells ?d (ring_start r) (use_size r) = cells (rdata r) (ring_start r) (use_size r)"
    using same[of "use_size r" "ring_start r"] old by simp
  have new: "cells ?d (ring_start r + use_size r) (length bs) = bs"
  proof (rule nth_equalityI)
    fix i assume "i < length (cells ?d (ring_start r + use_size r) (length bs))"
    then have i: "i < length bs" by simp
    have "(ring_start r + use_size r + i) mod ?m = (wp r + i) mod ?m"
      using mod_add_cong[OF held_end[OF ok] refl] .
    moreover have "woff r ((wp r + i) mod ?m) = i"
      using i n o by (auto simp: mod_wrap woff_def)
    ultimately have "woff r ((ring_start r + use_size r + i) mod ?m) = i" by simp
    then show "cells ?d (ring_start r + use_size r) (length bs) ! i = bs ! i"
      using i o ld scatter_writing_nth[OF ok n, of "(ring_start r + use_size r + i) mod ?m"]
      by (simp add: cells_def)
  qed simp
  have "inflight r' @ unread r' = cells ?d (ring_start r) (use_size r + length bs)"
    using held_eq[OF \<open>ring_ok r'\<close>] unfolding st by (simp add: r')
  also have "\<dots> = inflight r @ unread r @ bs"
    using held new held_eq[OF ok] by (subst cells_split[of "use_size r"]) auto
  finally show "unread r' = unread r @ bs"
    using \<open>inflight r' = inflight r\<close> by simp
qed

text \<open>The space offered to \<open>readv\<close> is exactly the space not held: bytes \<open>tcp_write\<close> took by
  reference are never overwritten before they are released.\<close>

lemma hev_ring_buffer_writing_disjoint:
  assumes ok: "ring_ok r"
  shows "iov_cells (hev_ring_buffer_writing r) \<inter> held_cells r = {}"
proof -
  note o = ring_okD[OF ok]
  show ?thesis
    using o writing_cells_iff[OF ok] held_not_writable[OF ok] by (auto simp: held_cells_def)
qed

subsection \<open>The contract of the session\<close>

text \<open>What the TCP session relies on: bytes are appended to the unread queue, passed on from
  its head and released from the head of the bytes in flight.\<close>

locale byte_ring =
  fixes ok :: "'r \<Rightarrow> bool"
    and cap :: "'r \<Rightarrow> nat"
    and queued :: "'r \<Rightarrow> bytes"
    and flight :: "'r \<Rightarrow> bytes"
    and store :: "'r \<Rightarrow> bytes \<Rightarrow> 'r"
    and pass :: "'r \<Rightarrow> nat \<Rightarrow> 'r"
    and release :: "'r \<Rightarrow> nat \<Rightarrow> 'r"
  assumes store_ok: "ok r \<Longrightarrow> length (flight r) + length (queued r) + length bs \<le> cap r \<Longrightarrow>
        ok (store r bs) \<and> cap (store r bs) = cap r \<and>
        queued (store r bs) = queued r @ bs \<and> flight (store r bs) = flight r"
    and pass_ok: "ok r \<Longrightarrow> n \<le> length (queued r) \<Longrightarrow>
        ok (pass r n) \<and> cap (pass r n) = cap r \<and>
        queued (pass r n) = drop n (queued r) \<and> flight (pass r n) = flight r @ take n (queued r)"
    and release_ok: "ok r \<Longrightarrow> n \<le> length (flight r) \<Longrightarrow>
        ok (release r n) \<and> cap (release r n) = cap r \<and>
        queued (release r n) = queued r \<and> flight (release r n) = drop n (flight r)"
begin

text \<open>Storing and passing on everything at once hands over exactly the bytes stored.\<close>

lemma store_pass:
  assumes "ok r" "queued r = []" "length (flight r) + length bs \<le> cap r"
  shows "flight (pass (store r bs) (length bs)) = flight r @ bs \<and>
    queued (pass (store r bs) (length bs)) = []"
  using assms store_ok[of r bs] pass_ok[of "store r bs" "length bs"] by simp

end

definition ring_store :: "ring_buffer \<Rightarrow> bytes \<Rightarrow> ring_buffer" where
  "ring_store r bs = hev_ring_buffer_write_finish
     (r\<lparr>rdata := scatter (rdata r) (hev_ring_buffer_writing r) bs\<rparr>) (length bs)"

lemma length_unread [simp]: "length (unread r) = rda_size r"
  by (simp add: unread_def)

lemma length_inflight [simp]: "length (inflight r) = use_size r - rda_size r"
  by (simp add: inflight_def)

lemma ring_max_size [simp]:
  "max_size (ring_store r bs) = max_size r"
  "max_size (hev_ring_buffer_read_finish r n) = max_size r"
  "max_size (hev_ring_buffer_read_release r n) = max_size r"
  by (simp_all add: ring_store_def hev_ring_buffer_write_finish_def
      hev_ring_buffer_read_finish_def hev_ring_buffer_read_release_def Let_def)

interpretation rb: byte_ring ring_ok max_size unread inflight ring_store
    hev_ring_buffer_read_finish hev_ring_buffer_read_release
proof
  fix r and bs :: bytes
  assume ok: "ring_ok r" and fit: "length (inflight r) + length (unread r) + length bs \<le> max_size r"
  have "length bs \<le> max_size r - use_size r" using fit ring_okD[OF ok] by simp
  from hev_ring_buffer_write_finish_ok[OF ok this]
  show "ring_ok (ring_store r bs) \<and> max_size (ring_store r bs) = max_size r \<and>
      unread (ring_store r bs) = unread r @ bs \<and> inflight (ring_store r bs) = inflight r"
    by (simp add: ring_store_def hev_ring_buffer_write_finish_def)
qed (use hev_ring_buffer_read_finish_ok hev_ring_buffer_read_release_ok in simp_all)

subsection \<open>Properties\<close>

datatype ring_op = RStore bytes | RPass nat | RRelease nat

fun ring_step :: "ring_buffer \<Rightarrow> ring_op \<Rightarrow> ring_buffer option" where
  "ring_step r (RStore bs) = Some (hev_ring_buffer_write_finish
     (r\<lparr>rdata := scatter (rdata r) (hev_ring_buffer_writing r) bs\<rparr>) (length bs))"
| "ring_step r (RPass n) = Some (hev_ring_buffer_read_finish r n)"
| "ring_step r (RRelease n) = Some (hev_ring_buffer_read_release r n)"

text \<open>The abstract machine: the bytes in flight and the unread bytes, of bounded total.\<close>

fun queue_step :: "nat \<Rightarrow> bytes \<times> bytes \<Rightarrow> ring_op \<Rightarrow> (bytes \<times> bytes) option" where
  "queue_step m (f, u) (RStore bs) = (if length f + length u + length bs \<le> m then Some (f, u @ bs) else None)"
| "queue_step m (f, u) (RPass n) = (if n \<le> length u then Some (f @ take n u, drop n u) else None)"
| "queue_step m (f, u) (RRelease n) = (if n \<le> length f then Some (drop n f, u) else None)"

definition ring_sim :: "nat \<Rightarrow> ring_buffer \<Rightarrow> bytes \<times> bytes \<Rightarrow> bool" where
  "ring_sim m r q \<longleftrightarrow> ring_ok r \<and> max_size r = m \<and> q = (inflight r, unread r)"

lemma ring_step_sim:
  "ring_sim m r q \<Longrightarrow> queue_step m q x = Some q' \<Longrightarrow> \<exists>r'. ring_step r x = Some r' \<and> ring_sim m r' q'"
  using rb.store_ok[of r] rb.pass_ok[of r] rb.release_ok[of r]
  by (cases x) (auto simp: ring_sim_def ring_store_def split: if_splits)

text \<open>C20: the ring buffer is a bounded FIFO of bytes in two stages. For a buffer of any size and
  any uninitialised contents, every run of stores that fit, passes of unread bytes and
  releases of bytes in flight ends in a well-formed buffer that holds exactly the bytes of
  the abstract queue; what \<open>hev_ring_buffer_reading\<close> offers next is the whole unread part, in
  order, wherever it wraps around.\<close>

theorem ring_buffer_implements_queue:
  assumes "0 < m" "m < 2 ^ 63" "length garbage = m"
    and "run_ops (queue_step m) ([], []) ops = Some (f, u)"
  shows "\<exists>r. run_ops ring_step (hev_ring_buffer_alloca m garbage) ops = Some r \<and> ring_ok r \<and>
    inflight r = f \<and> unread r = u \<and> gather (rdata r) (hev_ring_buffer_reading r) = u \<and>
    hev_ring_buffer_get_use_size r = length f + length u"
proof -
  have start: "ring_sim m (hev_ring_buffer_alloca m garbage) ([], [])"
    using hev_ring_buffer_alloca_ok[OF assms(1-3)]
    by (simp add: ring_sim_def hev_ring_buffer_alloca_def)
  have "\<exists>r. run_ops ring_step (hev_ring_buffer_alloca m garbage) ops = Some r \<and> ring_sim m r (f, u)"
    by (rule run_ops_sim[where R = "ring_sim m" and astep = "queue_step m"])
      (erule (1) ring_step_sim, fact start, fact assms(4))
  then obtain r where "run_ops ring_step (hev_ring_buffer_alloca m garbage) ops = Some r" "ring_sim m r (f, u)"
    by blast
  moreover from this have "rda_size r \<le> use_size r" by (simp add: ring_sim_def ring_okD)
  ultimately show ?thesis
    by (auto simp: ring_sim_def hev_ring_buffer_reading_unread hev_ring_buffer_get_use_size_def)
qed

theorem ring_buffer_implements_queue_witness:
  "\<exists>r. run_ops ring_step (hev_ring_buffer_alloca 4 [9, 9, 9, 9])
      [RStore [1, 2, 3], RPass 2, RRelease 1, RStore [4, 5]] = Some r \<and> ring_ok r \<and>
    inflight r = [2] \<and> unread r = [3, 4, 5] \<and>
    gather (rdata r) (hev_ring_buffer_reading r) = [3, 4, 5] \<and>
    hev_ring_buffer_get_use_size r = length [2 :: u8] + length [3, 4, 5 :: u8]"
  by (rule ring_buffer_implements_queue) simp_all

text \<open>The memory handed to \<open>readv\<close> lies inside the buffer, is all the free space, and never
  touches a byte that lwIP still references or that is still to be passed on.\<close>

theorem ring_writing_safe:
  assumes "ring_ok r"
  shows "iov_total (hev_ring_buffer_writing r) = max_size r - use_size r \<and>
    iov_cells (hev_ring_buffer_writing r) \<subseteq> {..<length (rdata r)} - held_cells r"
  using hev_ring_buffer_writing_total[OF assms] hev_ring_buffer_writing_bounds[OF assms]
    hev_ring_buffer_writing_disjoint[OF assms] ring_okD(3)[OF assms]
  by (fastforce simp: iov_cells_def)

definition ring_example :: ring_buffer where
  "ring_example = \<lparr>rp = 2, wp = 1, rda_size = 3, use_size = 3, max_size = 4, rdata = [7, 0, 5, 6]\<rparr>"

theorem ring_writing_safe_witness:
  "iov_total (hev_ring_buffer_writing ring_example) = 1 \<and>
    iov_cells (hev_ring_buffer_writing ring_example) \<subseteq>
      {..<length (rdata ring_example)} - held_cells ring_example"
  using ring_writing_safe[of ring_example] by (simp add: ring_ok_def ring_example_def)

end
