(* ===== verification/TaskIO.thy ===== *)
theory TaskIO
  imports Prelude
begin

section \<open>Cooperative socket I/O (hev-task-system, lib/io/socket/hev-task-io-socket.c)\<close>

text \<open>
  The retry loops around the non-blocking socket calls, over an explicit environment. A
  connected stream socket is the trace of what its next \<open>recv\<close> calls will find (\<open>rxq\<close>), the
  trace of how its next \<open>send\<close> calls will fare (\<open>txq\<close>) and everything accepted for sending
  (\<open>sent\<close>). \<open>RxAgain w\<close> and \<open>TxAgain w\<close> are an \<open>EAGAIN\<close> after which the yielder suspends the
  task; \<open>w\<close> is what \<open>hev_task_sleep\<close> will return there (the milliseconds that remain, 0 when
  the whole timeout has passed). After the last event of \<open>rxq\<close> the peer is silent for ever:
  the sleep returns 0. After the last event of \<open>txq\<close> the kernel takes whatever is offered.

  A yielder is given as the predicate "returns nonzero for the sleep result \<open>w\<close>". The loops
  return \<open>None\<close> where they would wait for ever. \<open>stream y q\<close> is the byte sequence the trace
  \<open>q\<close> delivers to a reader that uses the yielder \<open>y\<close>: the lemmas at the end say that the
  loops read from and write to byte streams, however the bytes are cut into segments.
\<close>

subsection \<open>Environment\<close>

datatype rx_ev = RxData bytes | RxAgain int | RxErr | RxEof

datatype tx_ev = TxRoom nat | TxAgain int | TxErr

datatype errno = EOK | EAGAIN | EOTHER

record sock =
  rxq :: "rx_ev list"
  txq :: "tx_ev list"
  sent :: bytes
  errno :: errno

datatype 'a sys_ret = SysOk 'a | SysAgain int | SysErr

text \<open>One \<open>recv (fd, buf, n, 0)\<close> on a non-blocking stream socket.\<close>

definition sys_recv :: "nat \<Rightarrow> sock \<Rightarrow> bytes sys_ret \<times> sock" where
  "sys_recv n s = (case rxq s of
     [] \<Rightarrow> (SysAgain 0, s\<lparr>errno := EAGAIN\<rparr>)
   | RxAgain w # q \<Rightarrow> (SysAgain w, s\<lparr>rxq := q, errno := EAGAIN\<rparr>)
   | RxErr # q \<Rightarrow> (SysErr, s\<lparr>rxq := q, errno := EOTHER\<rparr>)
   | RxEof # q \<Rightarrow> (SysOk [], s)
   | RxData bs # q \<Rightarrow> (SysOk (take n bs),
       s\<lparr>rxq := (if length bs \<le> n then q else RxData (drop n bs) # q)\<rparr>))"

text \<open>One \<open>send (fd, buf, len, 0)\<close>.\<close>

definition sys_send :: "bytes \<Rightarrow> sock \<Rightarrow> nat sys_ret \<times> sock" where
  "sys_send bs s = (case txq s of
     [] \<Rightarrow> (SysOk (length bs), s\<lparr>sent := sent s @ bs\<rparr>)
   | TxAgain w # q \<Rightarrow> (SysAgain w, s\<lparr>txq := q, errno := EAGAIN\<rparr>)
   | TxErr # q \<Rightarrow> (SysErr, s\<lparr>txq := q, errno := EOTHER\<rparr>)
   | TxRoom k # q \<Rightarrow> (SysOk (min k (length bs)), s\<lparr>txq := q, sent := sent s @ take k bs\<rparr>))"

subsection \<open>The yielder of the SOCKS5 objects (core hev-socks5-misc.c)\<close>

datatype yield_type = HEV_TASK_YIELD | HEV_TASK_WAITIO

text \<open>\<open>timeout\<close> is the field of the object, \<open>w\<close> the result of \<open>hev_task_sleep (timeout)\<close>.\<close>

definition hev_socks5_task_io_yielder :: "yield_type \<Rightarrow> int \<Rightarrow> int \<Rightarrow> int" where
  "hev_socks5_task_io_yielder type timeout w =
     (if type = HEV_TASK_YIELD then 0
      else if timeout < 0 then 0
      else if w \<le> 0 then -1
      else 0)"

abbreviation io_wait :: "int \<Rightarrow> int \<Rightarrow> bool" where
  "io_wait timeout w \<equiv> hev_socks5_task_io_yielder HEV_TASK_WAITIO timeout w \<noteq> 0"

lemma io_wait_iff [simp]: "io_wait timeout w \<longleftrightarrow> 0 \<le> timeout \<and> w \<le> 0"
  by (simp add: hev_socks5_task_io_yielder_def)

subsection \<open>recv\<close>

text \<open>\<open>got\<close> are the bytes already stored at \<open>buf\<close>; \<open>size\<close> is its length.\<close>

function task_recv_loop ::
  "(int \<Rightarrow> bool) \<Rightarrow> nat \<Rightarrow> bool \<Rightarrow> bool \<Rightarrow> bytes \<Rightarrow> sock \<Rightarrow> (int \<times> bytes \<times> sock) option" where
  "task_recv_loop yielder len waitall dontwait got s =
     (let size = length got;
          or_size = (\<lambda>e. if size \<noteq> 0 then int size else e)
      in case sys_recv (len - size) s of
           (SysAgain w, s') \<Rightarrow>
             if \<not> dontwait then
               (if yielder w then Some (or_size (-2), got, s')
                else if rxq s = [] then None
                else task_recv_loop yielder len waitall dontwait got s')
             else if \<not> waitall then Some (-1, got, s')
             else Some (or_size (-1), got, s')
         | (SysErr, s') \<Rightarrow>
             if \<not> waitall then Some (-1, got, s') else Some (or_size (-1), got, s')
         | (SysOk bs, s') \<Rightarrow>
             if \<not> waitall then Some (int (length bs), got @ bs, s')
             else if bs = [] then Some (or_size 0, got, s')
             else if size + length bs < len
             then task_recv_loop yielder len waitall dontwait (got @ bs) s'
             else Some (int (size + length bs), got @ bs, s'))"
  by pat_completeness auto

lemma sys_recv_again_shrinks:
  "sys_recv n s = (SysAgain w, s') \<Longrightarrow> rxq s \<noteq> [] \<Longrightarrow> length (rxq s') < length (rxq s)"
  by (auto simp: sys_recv_def split: list.splits rx_ev.splits)

lemma sys_recv_ok_shrinks:
  "sys_recv n s = (SysOk bs, s') \<Longrightarrow> bs \<noteq> [] \<Longrightarrow> length bs < n \<Longrightarrow> length (rxq s') < length (rxq s)"
  by (auto simp: sys_recv_def split: list.splits rx_ev.splits if_splits)

termination task_recv_loop
  by (relation "measure (\<lambda>(y, len, wa, dw, got, s). length (rxq s))")
    (auto dest!: sym[THEN sys_recv_again_shrinks] sym[THEN sys_recv_ok_shrinks] simp: less_diff_conv)

declare task_recv_loop.simps [simp del]

definition hev_task_io_socket_recv ::
  "(int \<Rightarrow> bool) \<Rightarrow> nat \<Rightarrow> bool \<Rightarrow> bool \<Rightarrow> sock \<Rightarrow> (int \<times> bytes \<times> sock) option" where
  "hev_task_io_socket_recv yielder len waitall dontwait s =
     task_recv_loop yielder len waitall dontwait [] s"

subsection \<open>send and sendmsg\<close>

text \<open>\<open>size\<close> bytes of \<open>buf\<close> have been accepted. A \<open>txq\<close> event is spent by every retry.\<close>

function task_send_loop ::
  "(int \<Rightarrow> bool) \<Rightarrow> bytes \<Rightarrow> bool \<Rightarrow> bool \<Rightarrow> nat \<Rightarrow> sock \<Rightarrow> (int \<times> sock) option" where
  "task_send_loop yielder buf waitall dontwait cnt s =
     (let or_size = (\<lambda>e. if cnt \<noteq> 0 then int cnt else e)
      in case sys_send (drop cnt buf) s of
           (SysAgain w, s') \<Rightarrow>
             if \<not> dontwait then
               (if yielder w then Some (or_size (-2), s')
                else task_send_loop yielder buf waitall dontwait cnt s')
             else if \<not> waitall then Some (-1, s') else Some (or_size (-1), s')
         | (SysErr, s') \<Rightarrow> if \<not> waitall then Some (-1, s') else Some (or_size (-1), s')
         | (SysOk n, s') \<Rightarrow>
             if \<not> waitall then Some (int n, s')
             else if n = 0 then Some (or_size 0, s')
             else if cnt + n < length buf
             then task_send_loop yielder buf waitall dontwait (cnt + n) s'
             else Some (int (cnt + n), s'))"
  by pat_completeness auto

lemma sys_send_again_shrinks:
  "sys_send bs s = (SysAgain w, s') \<Longrightarrow> length (txq s') < length (txq s)"
  by (auto simp: sys_send_def split: list.splits tx_ev.splits)

lemma sys_send_ok_shrinks:
  "sys_send bs s = (SysOk n, s') \<Longrightarrow> n < length bs \<Longrightarrow> length (txq s') < length (txq s)"
  by (auto simp: sys_send_def split: list.splits tx_ev.splits)

termination task_send_loop
  by (relation "measure (\<lambda>(y, buf, wa, dw, cnt, s). length (txq s))")
    (auto dest!: sym[THEN sys_send_again_shrinks] sym[THEN sys_send_ok_shrinks] simp: less_diff_conv)

declare task_send_loop.simps [simp del]

definition hev_task_io_socket_send ::
  "(int \<Rightarrow> bool) \<Rightarrow> bytes \<Rightarrow> bool \<Rightarrow> bool \<Rightarrow> sock \<Rightarrow> (int \<times> sock) option" where
  "hev_task_io_socket_send yielder buf waitall dontwait s =
     task_send_loop yielder buf waitall dontwait 0 s"

text \<open>The \<open>iovec\<close> array of \<open>sendmsg\<close> as the list of the buffers' contents. After a partial
  send the completed entries are skipped and the first incomplete one is shortened.\<close>

fun iov_advance :: "nat \<Rightarrow> bytes list \<Rightarrow> bytes list" where
  "iov_advance n [] = []"
| "iov_advance n (v # vs) = (if n < length v then drop n v # vs else iov_advance (n - length v) vs)"

lemma concat_iov_advance [simp]: "concat (iov_advance n vs) = drop n (concat vs)"
  by (induction n vs rule: iov_advance.induct) auto

function task_sendmsg_loop ::
  "(int \<Rightarrow> bool) \<Rightarrow> nat \<Rightarrow> bytes list \<Rightarrow> bool \<Rightarrow> bool \<Rightarrow> nat \<Rightarrow> sock \<Rightarrow> (int \<times> sock) option" where
  "task_sendmsg_loop yielder len iov waitall dontwait cnt s =
     (let or_size = (\<lambda>e. if cnt \<noteq> 0 then int cnt else e)
      in case sys_send (concat iov) s of
           (SysAgain w, s') \<Rightarrow>
             if \<not> dontwait then
               (if yielder w then Some (or_size (-2), s')
                else task_sendmsg_loop yielder len iov waitall dontwait cnt s')
             else if \<not> waitall then Some (-1, s') else Some (or_size (-1), s')
         | (SysErr, s') \<Rightarrow> if \<not> waitall then Some (-1, s') else Some (or_size (-1), s')
         | (SysOk n, s') \<Rightarrow>
             if \<not> waitall then Some (int n, s')
             else if n = 0 then Some (or_size 0, s')
             else if cnt + n < len
             then task_sendmsg_loop yielder len (iov_advance n iov) waitall dontwait (cnt + n) s'
             else Some (int (cnt + n), s'))"
  by pat_completeness auto

lemma sys_send_ok_shrinks2:
  "sys_send bs s = (SysOk n, s') \<Longrightarrow> 0 < n \<Longrightarrow>
    length (txq s') < length (txq s) \<or> length (txq s') = length (txq s) \<and> length bs - n < length bs"
  by (auto simp: sys_send_def split: list.splits tx_ev.splits)

termination task_sendmsg_loop
  by (relation "measures [\<lambda>(y, len, iov, wa, dw, cnt, s). length (txq s),
      \<lambda>(y, len, iov, wa, dw, cnt, s). length (concat iov)]")
    (auto dest!: sym[THEN sys_send_again_shrinks] sym[THEN sys_send_ok_shrinks2])

declare task_sendmsg_loop.simps [simp del]

definition hev_task_io_socket_sendmsg ::
  "(int \<Rightarrow> bool) \<Rightarrow> bytes list \<Rightarrow> bool \<Rightarrow> bool \<Rightarrow> sock \<Rightarrow> (int \<times> sock) option" where
  "hev_task_io_socket_sendmsg yielder iov waitall dontwait s =
     task_sendmsg_loop yielder (sum_list (map length iov)) iov waitall dontwait 0 s"

subsection \<open>connect\<close>

datatype conn_ev = ConnOk | ConnProgress int | ConnIsConn | ConnErr

text \<open>The results of successive \<open>connect\<close> calls on one descriptor; the last event is repeated
  by silence: an empty trace is a connection that stays in progress.\<close>

fun hev_task_io_socket_connect ::
  "(int \<Rightarrow> bool) \<Rightarrow> conn_ev list \<Rightarrow> (int \<times> conn_ev list) option" where
  "hev_task_io_socket_connect yielder [] = (if yielder 0 then Some (-2, []) else None)"
| "hev_task_io_socket_connect yielder (ConnOk # q) = Some (0, q)"
| "hev_task_io_socket_connect yielder (ConnIsConn # q) = Some (0, q)"
| "hev_task_io_socket_connect yielder (ConnErr # q) = Some (-1, q)"
| "hev_task_io_socket_connect yielder (ConnProgress w # q) =
     (if yielder w then Some (-2, q) else hev_task_io_socket_connect yielder q)"

subsection \<open>The loops read from a byte stream\<close>

fun stream :: "(int \<Rightarrow> bool) \<Rightarrow> rx_ev list \<Rightarrow> bytes" where
  "stream y [] = []"
| "stream y (RxData bs # q) = (if bs = [] then [] else bs @ stream y q)"
| "stream y (RxAgain w # q) = (if y w then [] else stream y q)"
| "stream y (RxErr # q) = []"
| "stream y (RxEof # q) = []"

abbreviation input :: "(int \<Rightarrow> bool) \<Rightarrow> sock \<Rightarrow> bytes" where
  "input y s \<equiv> stream y (rxq s)"

lemma sys_recv_input:
  "sys_recv n s = (SysOk bs, s') \<Longrightarrow> bs \<noteq> [] \<Longrightarrow> input y s = bs @ input y s'"
  by (auto simp: sys_recv_def split: list.splits rx_ev.splits if_splits)

lemma sys_recv_again_input:
  "sys_recv n s = (SysAgain w, s') \<Longrightarrow> rxq s \<noteq> [] \<Longrightarrow> \<not> y w \<Longrightarrow> input y s' = input y s"
  by (auto simp: sys_recv_def split: list.splits rx_ev.splits)

lemma sys_recv_some:
  assumes "input y s \<noteq> []" "0 < n"
  shows "(\<exists>bs s'. sys_recv n s = (SysOk bs, s') \<and> bs \<noteq> [] \<and> length bs \<le> n) \<or>
    (\<exists>w s'. sys_recv n s = (SysAgain w, s') \<and> rxq s \<noteq> [] \<and> \<not> y w)"
proof (cases "rxq s")
  case (Cons e q)
  with assms show ?thesis by (cases e) (auto simp: sys_recv_def split: if_splits)
qed (use assms in simp)

lemma sys_recv_frame: "sys_recv n s = (r, s') \<Longrightarrow> txq s' = txq s \<and> sent s' = sent s"
  by (auto simp: sys_recv_def split: list.splits rx_ev.splits)

lemma task_recv_loop_all:
  "length got < len \<Longrightarrow> len \<le> length got + length (input y s) \<Longrightarrow>
   \<exists>s'. task_recv_loop y len True False got s
        = Some (int len, got @ take (len - length got) (input y s), s') \<and>
      input y s' = drop (len - length got) (input y s) \<and> txq s' = txq s \<and> sent s' = sent s"
proof (induction y len True False got s rule: task_recv_loop.induct)
  case (1 y len got s)
  let ?n = "len - length got"
  have "input y s \<noteq> []" "0 < ?n" using "1.prems" by auto
  from sys_recv_some[OF this] show ?case
  proof
    assume "\<exists>bs s'. sys_recv ?n s = (SysOk bs, s') \<and> bs \<noteq> [] \<and> length bs \<le> ?n"
    then obtain bs s' where r: "sys_recv ?n s = (SysOk bs, s')" "bs \<noteq> []" "length bs \<le> ?n" by blast
    note inp = sys_recv_input[OF r(1,2), of y] and fr = sys_recv_frame[OF r(1)]
    show ?case
    proof (cases "length got + length bs < len")
      case True
      with "1.prems" inp have "length (got @ bs) < len" "len \<le> length (got @ bs) + length (input y s')"
        by auto
      from "1.hyps"(1)[OF refl refl r(1)[symmetric] refl _ r(2) True this] obtain s2
        where "task_recv_loop y len True False (got @ bs) s'
            = Some (int len, (got @ bs) @ take (len - length (got @ bs)) (input y s'), s2)"
          "input y s2 = drop (len - length (got @ bs)) (input y s')" "txq s2 = txq s'" "sent s2 = sent s'"
        by auto
      with True r inp fr show ?thesis
        by (simp add: task_recv_loop.simps[of y len True False got s])
    next
      case False
      then have "length got + length bs = len" using r(3) "1.prems" by simp
      with r inp fr show ?thesis
        by (simp add: task_recv_loop.simps[of y len True False got s])
    qed
  next
    assume "\<exists>w s'. sys_recv ?n s = (SysAgain w, s') \<and> rxq s \<noteq> [] \<and> \<not> y w"
    then obtain w s' where r: "sys_recv ?n s = (SysAgain w, s')" "rxq s \<noteq> []" "\<not> y w" by blast
    note inp = sys_recv_again_input[OF r(1,2), of y, OF r(3)] and fr = sys_recv_frame[OF r(1)]
    from "1.hyps"(2)[OF refl refl r(1)[symmetric] refl _ r(3) r(2)] "1.prems" inp fr r show ?case
      by (simp add: task_recv_loop.simps[of y len True False got s])
  qed
qed

lemma recv_exact:
  assumes "input y s = bs @ rest" "length bs = len" "0 < len"
  shows "\<exists>s'. hev_task_io_socket_recv y len True False s = Some (int len, bs, s') \<and>
    input y s' = rest \<and> txq s' = txq s \<and> sent s' = sent s"
  using task_recv_loop_all[of "[]" len y s] assms by (simp add: hev_task_io_socket_recv_def)

lemma task_recv_loop_sound:
  "task_recv_loop y len True False got s = Some (r, bs, s') \<Longrightarrow> length got < len \<Longrightarrow>
   txq s' = txq s \<and> sent s' = sent s \<and>
   (r = int len \<longrightarrow> length bs = len \<and> (\<exists>d. bs = got @ d \<and> input y s = d @ input y s'))"
proof (induction y len True False got s rule: task_recv_loop.induct)
  case (1 y len got s)
  obtain q s1 where q: "sys_recv (len - length got) s = (q, s1)" by fastforce
  note fr = sys_recv_frame[OF q]
  have run: "task_recv_loop y len True False got s = Some (r, bs, s')" by (fact "1.prems")
  show ?case
  proof (cases q)
    case (SysOk d)
    show ?thesis
    proof (cases "d \<noteq> [] \<and> length got + length d < len")
      case True
      with run q SysOk have rec: "task_recv_loop y len True False (got @ d) s1 = Some (r, bs, s')"
        by (simp add: task_recv_loop.simps[of y len True False got s])
      from "1.hyps"(1)[OF refl refl q[symmetric] SysOk _ _ _ rec] True fr
        sys_recv_input[OF q[unfolded SysOk], of y] show ?thesis by auto
    next
      case False
      then have "d = [] \<or> d \<noteq> [] \<and> \<not> length got + length d < len" by auto
      moreover have "length d \<le> len - length got"
        using q SysOk by (auto simp: sys_recv_def split: list.splits rx_ev.splits)
      ultimately show ?thesis
        using run q SysOk fr "1.prems"(2) sys_recv_input[OF q[unfolded SysOk], of y]
        by (auto simp: task_recv_loop.simps[of y len True False got s] split: if_splits)
    qed
  next
    case (SysAgain w)
    show ?thesis
    proof (cases "y w \<or> rxq s = []")
      case True
      with run q SysAgain fr "1.prems"(2) show ?thesis
        by (auto simp: task_recv_loop.simps[of y len True False got s] split: if_splits)
    next
      case False
      with run q SysAgain have rec: "task_recv_loop y len True False got s1 = Some (r, bs, s')"
        by (simp add: task_recv_loop.simps[of y len True False got s])
      from "1.hyps"(2)[OF refl refl q[symmetric] SysAgain _ _ _ rec] False fr "1.prems"(2)
        sys_recv_again_input[OF q[unfolded SysAgain], of y] show ?thesis by auto
    qed
  next
    case SysErr
    with run q fr "1.prems"(2) show ?thesis
      by (auto simp: task_recv_loop.simps[of y len True False got s] split: if_splits)
  qed
qed

text \<open>The converse: a full read consumed exactly these bytes of the stream.\<close>

lemma recv_sound:
  assumes "hev_task_io_socket_recv y len True False s = Some (r, bs, s')" "0 < len"
  shows "txq s' = txq s" "sent s' = sent s"
    "r = int len \<Longrightarrow> length bs = len \<and> input y s = bs @ input y s'"
  using task_recv_loop_sound[of y len "[]" s r bs s'] assms
  by (auto simp: hev_task_io_socket_recv_def)

lemma recv_short:
  assumes "hev_task_io_socket_recv y len True False s = Some (r, bs, s')"
    and "length (input y s) < len"
  shows "r \<noteq> int len"
  using recv_sound[OF assms(1)] assms(2) by fastforce

text \<open>A read without \<open>MSG_WAITALL\<close> takes some of the next bytes, or, if it must not wait, reports
  that there are none yet.\<close>

lemma task_recv_loop_some:
  "input y s \<noteq> [] \<Longrightarrow> 0 < len \<Longrightarrow>
   (\<exists>j s'. task_recv_loop y len False dw [] s = Some (int j, take j (input y s), s') \<and> 0 < j \<and> j \<le> len \<and>
      j \<le> length (input y s) \<and> input y s' = drop j (input y s) \<and> txq s' = txq s \<and> sent s' = sent s) \<or>
   dw \<and> (\<exists>s'. task_recv_loop y len False dw [] s = Some (-1, [], s') \<and> input y s' = input y s \<and>
      txq s' = txq s \<and> sent s' = sent s \<and> errno s' = EAGAIN)"
proof (induction y len False dw "[] :: bytes" s rule: task_recv_loop.induct)
  case (1 y len dw s)
  note unf = task_recv_loop.simps[of y len False dw "[]" s]
  from sys_recv_some[OF "1.prems"] show ?case
  proof
    assume "\<exists>bs s'. sys_recv len s = (SysOk bs, s') \<and> bs \<noteq> [] \<and> length bs \<le> len"
    then obtain bs s' where r: "sys_recv len s = (SysOk bs, s')" "bs \<noteq> []" "length bs \<le> len" by blast
    with sys_recv_input[OF r(1,2), of y] sys_recv_frame[OF r(1)] show ?case
      by (intro disjI1 exI[of _ "length bs"] exI[of _ s']) (simp add: unf)
  next
    assume "\<exists>w s'. sys_recv len s = (SysAgain w, s') \<and> rxq s \<noteq> [] \<and> \<not> y w"
    then obtain w s' where r: "sys_recv len s = (SysAgain w, s')" "rxq s \<noteq> []" "\<not> y w" by blast
    have e: "errno s' = EAGAIN"
      using r(1) by (auto simp: sys_recv_def split: list.splits rx_ev.splits)
    note inp = sys_recv_again_input[OF r(1,2), of y, OF r(3)] and fr = sys_recv_frame[OF r(1)] e
    have r0: "sys_recv (len - length ([] :: bytes)) s = (SysAgain w, s')" using r(1) by simp
    show ?case
    proof (cases dw)
      case True
      with r inp fr show ?thesis
        by (simp add: task_recv_loop.simps[of y len False True "[]" s] Let_def)
    next
      case False
      with "1.hyps"(2)[OF refl refl r0[symmetric] refl _ r(3,2) ] "1.prems" r inp fr show ?thesis
        by (simp add: task_recv_loop.simps[of y len False False "[]" s] Let_def)
    qed
  qed
qed

lemma recv_partial:
  assumes "input y s \<noteq> []" "0 < len"
  shows "(\<exists>j s'. hev_task_io_socket_recv y len False dw s = Some (int j, take j (input y s), s') \<and> 0 < j \<and> j \<le> len \<and>
      j \<le> length (input y s) \<and> input y s' = drop j (input y s) \<and> txq s' = txq s \<and> sent s' = sent s) \<or>
   dw \<and> (\<exists>s'. hev_task_io_socket_recv y len False dw s = Some (-1, [], s') \<and> input y s' = input y s \<and>
      txq s' = txq s \<and> sent s' = sent s \<and> errno s' = EAGAIN)"
  using task_recv_loop_some[OF assms] by (simp add: hev_task_io_socket_recv_def)

text \<open>A yielder that ever gives up makes the read return.\<close>

lemma task_recv_loop_returns: "y 0 \<Longrightarrow> \<exists>r bs s'. task_recv_loop y len wa dw got s = Some (r, bs, s')"
proof (induction y len wa dw got s rule: task_recv_loop.induct)
  case (1 y len wa dw got s)
  obtain q s1 where q: "sys_recv (len - length got) s = (q, s1)" by fastforce
  have nil: "rxq s = [] \<Longrightarrow> q = SysAgain 0"
    using q by (auto simp: sys_recv_def)
  show ?case
    using 1 q nil
    by (cases q) (auto simp: task_recv_loop.simps[of y len wa dw got s] Let_def)
qed

lemma recv_returns: "y 0 \<Longrightarrow> \<exists>r bs s'. hev_task_io_socket_recv y len wa dw s = Some (r, bs, s')"
  by (simp add: hev_task_io_socket_recv_def task_recv_loop_returns)

subsection \<open>The loops write to a byte stream\<close>

text \<open>\<open>tx_fine y q\<close>: no error, no give-up and no zero-length send lies ahead.\<close>

fun tx_fine :: "(int \<Rightarrow> bool) \<Rightarrow> tx_ev list \<Rightarrow> bool" where
  "tx_fine y [] = True"
| "tx_fine y (TxRoom k # q) = (0 < k \<and> tx_fine y q)"
| "tx_fine y (TxAgain w # q) = (\<not> y w \<and> tx_fine y q)"
| "tx_fine y (TxErr # q) = False"

lemma sys_send_fine:
  assumes "tx_fine y (txq s)" "bs \<noteq> []"
  shows "(\<exists>n s'. sys_send bs s = (SysOk n, s') \<and> 0 < n \<and> n \<le> length bs \<and>
      sent s' = sent s @ take n bs \<and> rxq s' = rxq s \<and> tx_fine y (txq s')) \<or>
    (\<exists>w s'. sys_send bs s = (SysAgain w, s') \<and> \<not> y w \<and> sent s' = sent s \<and>
      rxq s' = rxq s \<and> tx_fine y (txq s'))"
proof (cases "txq s")
  case Nil
  with assms show ?thesis by (simp add: sys_send_def)
next
  case (Cons e q)
  with assms show ?thesis
    by (cases e) (auto simp: sys_send_def min_def)
qed

lemma task_send_loop_all:
  "cnt < length buf \<Longrightarrow> tx_fine y (txq s) \<Longrightarrow>
   \<exists>s'. task_send_loop y buf True False cnt s = Some (int (length buf), s') \<and>
     sent s' = sent s @ drop cnt buf \<and> rxq s' = rxq s \<and> tx_fine y (txq s')"
proof (induction y buf True False cnt s rule: task_send_loop.induct)
  case (1 y buf cnt s)
  have "drop cnt buf \<noteq> []" using "1.prems" by simp
  from sys_send_fine[OF "1.prems"(2) this] show ?case
  proof
    assume "\<exists>n s'. sys_send (drop cnt buf) s = (SysOk n, s') \<and> 0 < n \<and> n \<le> length (drop cnt buf) \<and>
      sent s' = sent s @ take n (drop cnt buf) \<and> rxq s' = rxq s \<and> tx_fine y (txq s')"
    then obtain n s' where r: "sys_send (drop cnt buf) s = (SysOk n, s')" "0 < n"
        "n \<le> length buf - cnt" "sent s' = sent s @ take n (drop cnt buf)" "rxq s' = rxq s"
        "tx_fine y (txq s')" by auto
    have split: "take n (drop cnt buf) @ drop (cnt + n) buf = drop cnt buf"
      by (metis append_take_drop_id drop_drop add.commute)
    show ?case
    proof (cases "cnt + n < length buf")
      case True
      from "1.hyps"(1)[OF refl r(1)[symmetric] refl _ _ True True r(6)] r True show ?thesis
        by (auto simp: task_send_loop.simps[of y buf True False cnt s] split)
    next
      case False
      then have "cnt + n = length buf" using r(3) "1.prems"(1) by simp
      with r show ?thesis
        by (simp add: task_send_loop.simps[of y buf True False cnt s])
    qed
  next
    assume "\<exists>w s'. sys_send (drop cnt buf) s = (SysAgain w, s') \<and> \<not> y w \<and> sent s' = sent s \<and>
      rxq s' = rxq s \<and> tx_fine y (txq s')"
    then obtain w s' where r: "sys_send (drop cnt buf) s = (SysAgain w, s')" "\<not> y w"
        "sent s' = sent s" "rxq s' = rxq s" "tx_fine y (txq s')" by blast
    from "1.hyps"(2)[OF refl r(1)[symmetric] refl _ r(2) "1.prems"(1) r(5)] r show ?case
      by (simp add: task_send_loop.simps[of y buf True False cnt s])
  qed
qed

lemma send_all:
  assumes "tx_fine y (txq s)" "buf \<noteq> []"
  shows "\<exists>s'. hev_task_io_socket_send y buf True False s = Some (int (length buf), s') \<and>
    sent s' = sent s @ buf \<and> rxq s' = rxq s \<and> tx_fine y (txq s')"
  using task_send_loop_all[of 0 buf y s] assms by (simp add: hev_task_io_socket_send_def)

text \<open>Whatever happens, what was sent is a prefix of the data, and a send never touches the
  receiving direction.\<close>

lemma sys_send_prefix:
  "sys_send bs s = (r, s') \<Longrightarrow> rxq s' = rxq s \<and>
    (case r of SysOk n \<Rightarrow> n \<le> length bs \<and> sent s' = sent s @ take n bs | _ \<Rightarrow> sent s' = sent s)"
  by (auto simp: sys_send_def min_def split: list.splits tx_ev.splits)

lemma task_send_loop_prefix:
  "task_send_loop y buf wa dw cnt s = Some (r, s') \<Longrightarrow> rxq s' = rxq s \<and>
    (\<exists>k \<le> length buf - cnt. sent s' = sent s @ take k (drop cnt buf))"
proof (induction y buf wa dw cnt s rule: task_send_loop.induct)
  case (1 y buf wa dw cnt s)
  obtain q s1 where q: "sys_send (drop cnt buf) s = (q, s1)" by fastforce
  note pre = sys_send_prefix[OF q] and run = "1.prems"[unfolded task_send_loop.simps[of y buf wa dw cnt s]]
  show ?case
  proof (cases q)
    case (SysOk n)
    then have n: "n \<le> length buf - cnt" "sent s1 = sent s @ take n (drop cnt buf)" "rxq s1 = rxq s"
      using pre by auto
    show ?thesis
    proof (cases "wa \<and> n \<noteq> 0 \<and> cnt + n < length buf")
      case True
      with run q SysOk have rec: "task_send_loop y buf wa dw (cnt + n) s1 = Some (r, s')" by simp
      with "1.IH"(1)[OF refl q[symmetric] SysOk] True obtain k
        where k: "k \<le> length buf - (cnt + n)" "sent s' = sent s1 @ take k (drop (cnt + n) buf)" "rxq s' = rxq s1"
        by auto
      have "sent s' = sent s @ take (n + k) (drop cnt buf)"
      proof -
        have "drop (cnt + n) buf = drop n (drop cnt buf)" by (simp add: add.commute)
        then show ?thesis by (simp only: k(2) n(2) take_add append_assoc)
      qed
      with k n True show ?thesis by (intro conjI exI[of _ "n + k"]) auto
    next
      case False
      with run q SysOk n show ?thesis by (auto split: if_splits)
    qed
  next
    case (SysAgain w)
    with pre have e: "sent s1 = sent s" "rxq s1 = rxq s" by auto
    show ?thesis
    proof (cases "\<not> dw \<and> \<not> y w")
      case True
      with run q SysAgain have rec: "task_send_loop y buf wa dw cnt s1 = Some (r, s')" by simp
      with "1.IH"(2)[OF refl q[symmetric] SysAgain] True e show ?thesis by auto
    next
      case False
      with run q SysAgain e show ?thesis by (auto simp: Let_def split: if_splits)
    qed
  next
    case SysErr
    with run q pre show ?thesis by (auto split: if_splits)
  qed
qed

lemma send_prefix:
  assumes "hev_task_io_socket_send y buf wa dw s = Some (r, s')"
  shows "rxq s' = rxq s" "\<exists>k. sent s' = sent s @ take k buf"
  using task_send_loop_prefix[of y buf wa dw 0 s r s'] assms
  by (auto simp: hev_task_io_socket_send_def)

lemma task_send_loop_returns: "\<exists>r s'. task_send_loop y buf wa dw cnt s = Some (r, s')"
proof (induction y buf wa dw cnt s rule: task_send_loop.induct)
  case (1 y buf wa dw cnt s)
  obtain q s1 where q: "sys_send (drop cnt buf) s = (q, s1)" by fastforce
  show ?case
    using 1 q by (cases q) (auto simp: task_send_loop.simps[of y buf wa dw cnt s] Let_def)
qed

lemma send_returns: "\<exists>r s'. hev_task_io_socket_send y buf wa dw s = Some (r, s')"
  by (simp add: hev_task_io_socket_send_def task_send_loop_returns)

text \<open>Scatter/gather sending is sending the concatenation, whatever the sizes of the partial
  sends: the \<open>iovec\<close> arithmetic after a partial send is right.\<close>

lemma task_sendmsg_loop_eq:
  "concat iov = drop cnt buf \<Longrightarrow>
    task_sendmsg_loop y (length buf) iov wa dw cnt s = task_send_loop y buf wa dw cnt s"
proof (induction y "length buf" iov wa dw cnt s rule: task_sendmsg_loop.induct)
  case (1 y iov wa dw cnt s)
  obtain q s1 where q: "sys_send (drop cnt buf) s = (q, s1)" by fastforce
  note q' = q[folded "1.prems"]
  note unf = task_sendmsg_loop.simps[of y "length buf" iov wa dw cnt s] task_send_loop.simps[of y buf wa dw cnt s]
  show ?case
  proof (cases q)
    case (SysOk n)
    have "concat (iov_advance n iov) = drop (cnt + n) buf"
      using "1.prems" by (simp add: add.commute)
    with "1.hyps"(1)[OF refl q'[symmetric] SysOk] q q' SysOk show ?thesis
      by (auto simp: unf)
  next
    case (SysAgain w)
    with "1.hyps"(2)[OF refl q'[symmetric] SysAgain] q q' "1.prems" show ?thesis
      by (auto simp: unf Let_def)
  next
    case SysErr
    with q q' show ?thesis by (auto simp: unf)
  qed
qed

lemma sendmsg_eq_send:
  "hev_task_io_socket_sendmsg y iov wa dw s = hev_task_io_socket_send y (concat iov) wa dw s"
  using task_sendmsg_loop_eq[of iov 0 "concat iov"]
  by (simp add: hev_task_io_socket_sendmsg_def hev_task_io_socket_send_def length_concat)

subsection \<open>Properties\<close>

text \<open>C28: a blocking read with \<open>MSG_WAITALL\<close> is insensitive to segmentation. However the bytes
  are cut into segments and however many \<open>EAGAIN\<close> rounds lie between them, if the byte stream
  ahead begins with \<open>len\<close> bytes the call returns exactly those, leaves exactly the rest
  unread and does not touch the sending direction.\<close>

theorem recv_any_segmentation:
  assumes "input y s = bs @ rest" "length bs = len" "0 < len"
  shows "\<exists>s'. hev_task_io_socket_recv y len True False s = Some (int len, bs, s') \<and>
    input y s' = rest \<and> txq s' = txq s \<and> sent s' = sent s"
  using recv_exact[OF assms] .

definition sock_example :: sock where
  "sock_example = \<lparr>rxq = [RxData [5], RxAgain 80, RxData [0, 1, 2], RxEof], txq = [],
     sent = [], errno = EOK\<rparr>"

theorem recv_any_segmentation_witness:
  "\<exists>s'. hev_task_io_socket_recv (io_wait 100) 3 True False sock_example = Some (3, [5, 0, 1], s') \<and>
    input (io_wait 100) s' = [2] \<and> txq s' = txq sock_example \<and> sent s' = sent sock_example"
  using recv_any_segmentation[of "io_wait 100" sock_example "[5, 0, 1]" "[2]" 3]
  by (simp add: sock_example_def)

text \<open>Sending a scatter/gather array is sending the concatenation of its buffers. For every
  environment, flags and sizes of partial sends, \<open>hev_task_io_socket_sendmsg\<close> and
  \<open>hev_task_io_socket_send\<close> on the joined buffer return the same result and leave the same
  socket; the adjustment of the \<open>iovec\<close> array after a partial send loses or repeats no byte.\<close>

theorem sendmsg_is_send_of_concat:
  "hev_task_io_socket_sendmsg y iov wa dw s = hev_task_io_socket_send y (concat iov) wa dw s"
  by (rule sendmsg_eq_send)

text \<open>With a finite timeout no call waits for ever: a read by a SOCKS5 object whose
  \<open>timeout\<close> is not negative returns in every environment.\<close>

theorem recv_with_timeout_returns:
  assumes "0 \<le> timeout"
  shows "\<exists>r bs s'. hev_task_io_socket_recv (io_wait timeout) len wa dw s = Some (r, bs, s')"
  using recv_returns[of "io_wait timeout"] assms by simp

theorem recv_with_timeout_returns_witness:
  "\<exists>r bs s'. hev_task_io_socket_recv (io_wait 0) 4 True False sock_example = Some (r, bs, s')"
  using recv_with_timeout_returns[of 0 4 True False sock_example] by simp

end
