(* ===== verification/Socks5Addr.thy ===== *)
theory Socks5Addr
  imports Prelude
begin

section \<open>SOCKS5 addresses (core hev-socks5-proto.h, hev-socks5-misc.c)\<close>

text \<open>
  \<open>HevSocks5Addr\<close> is a packed union that the code also overlays on raw message buffers, so it
  is modelled as the bytes in memory from its first byte on: \<open>atype\<close> at offset 0, an IPv4 or
  IPv6 address at offset 1 with its port behind, a domain length at offset 1 and the name and
  port behind. The whole object has 260 bytes; a view into a received datagram has those that
  follow in the buffer. Ports are in memory in network byte order.

  \<open>socks_addr\<close> with \<open>encode_addr\<close> and \<open>decode_addr\<close> is the abstract specification, the address
  format of RFC 1928; the lemmas show that the code's routines compute it.

  \<open>inet_pton\<close> and \<open>getaddrinfo\<close> are library calls; they are the fields of a \<open>resolver\<close> that
  the definitions take as an argument.
\<close>

subsection \<open>Constants\<close>

abbreviation (input) HEV_SOCKS5_ADDR_TYPE_IPV4 :: u8 where "HEV_SOCKS5_ADDR_TYPE_IPV4 \<equiv> 1"
abbreviation (input) HEV_SOCKS5_ADDR_TYPE_NAME :: u8 where "HEV_SOCKS5_ADDR_TYPE_NAME \<equiv> 3"
abbreviation (input) HEV_SOCKS5_ADDR_TYPE_IPV6 :: u8 where "HEV_SOCKS5_ADDR_TYPE_IPV6 \<equiv> 4"

datatype addr_family = AF_UNSPEC | AF_INET | AF_INET6

text \<open>\<open>sizeof (HevSocks5Addr)\<close>: the type byte, the length byte and 258 bytes of name and port.\<close>

abbreviation (input) addr_size :: nat where "addr_size \<equiv> 260"

record sockaddr6 =
  sin6_family :: addr_family
  sin6_port :: u16
  sin6_addr :: bytes

definition sockaddr6_zero :: sockaddr6 where
  "sockaddr6_zero = \<lparr>sin6_family = AF_UNSPEC, sin6_port = 0, sin6_addr = replicate 16 0\<rparr>"

datatype addrinfo = AI_INET bytes | AI_INET6 bytes | AI_OTHER

text \<open>\<open>res_pton4\<close> and \<open>res_pton6\<close> are \<open>inet_pton\<close> for the two families (\<open>None\<close> where it returns
  0), \<open>res_getaddrinfo\<close> the first result of the DNS query for a family hint.\<close>

record resolver =
  res_pton4 :: "bytes \<Rightarrow> bytes option"
  res_pton6 :: "bytes \<Rightarrow> bytes option"
  res_getaddrinfo :: "addr_family \<Rightarrow> bytes \<Rightarrow> addrinfo option"

text \<open>What the library documents: a parsed address has the length of its family.\<close>

definition resolver_ok :: "resolver \<Rightarrow> bool" where
  "resolver_ok R \<longleftrightarrow>
     (\<forall>n a. res_pton4 R n = Some a \<longrightarrow> length a = 4) \<and>
     (\<forall>n a. res_pton6 R n = Some a \<longrightarrow> length a = 16) \<and>
     (\<forall>f n a. res_getaddrinfo R f n = Some (AI_INET a) \<longrightarrow> length a = 4) \<and>
     (\<forall>f n a. res_getaddrinfo R f n = Some (AI_INET6 a) \<longrightarrow> length a = 16)"

subsection \<open>Length and construction of addresses\<close>

definition hev_socks5_addr_len :: "bytes \<Rightarrow> int option" where
  "hev_socks5_addr_len addr = do {
     atype \<leftarrow> rd8 addr 0;
     if atype = HEV_SOCKS5_ADDR_TYPE_IPV4 then Some 7
     else if atype = HEV_SOCKS5_ADDR_TYPE_IPV6 then Some 19
     else if atype = HEV_SOCKS5_ADDR_TYPE_NAME then do {
       len \<leftarrow> rd8 addr 1;
       Some (4 + uint len)
     } else Some (-1)
   }"

definition hev_socks5_addr_from_name :: "bytes \<Rightarrow> bytes \<Rightarrow> int \<Rightarrow> (int \<times> bytes) option" where
  "hev_socks5_addr_from_name addr name port = do {
     a1 \<leftarrow> wr addr 0 [HEV_SOCKS5_ADDR_TYPE_NAME];
     a2 \<leftarrow> wr a1 2 (strncpy_bytes 256 name);
     str \<leftarrow> cstring (drop 2 a2);
     let len = (word_of_nat (length str) :: u8);
     a3 \<leftarrow> wr a2 1 [len];
     a4 \<leftarrow> wr a3 (2 + unat len) (store16 (word_of_int port));
     Some (4 + uint len, a4)
   }"

definition hev_socks5_addr_from_ipv4 :: "bytes \<Rightarrow> bytes \<Rightarrow> int \<Rightarrow> (int \<times> bytes) option" where
  "hev_socks5_addr_from_ipv4 addr ipv4 port = do {
     a1 \<leftarrow> wr addr 0 [HEV_SOCKS5_ADDR_TYPE_IPV4];
     ip \<leftarrow> rd ipv4 0 4;
     a2 \<leftarrow> wr a1 1 ip;
     a3 \<leftarrow> wr a2 5 (store16 (word_of_int port));
     Some (7, a3)
   }"

definition hev_socks5_addr_from_ipv6 :: "bytes \<Rightarrow> bytes \<Rightarrow> int \<Rightarrow> (int \<times> bytes) option" where
  "hev_socks5_addr_from_ipv6 addr ipv6 port = do {
     a1 \<leftarrow> wr addr 0 [HEV_SOCKS5_ADDR_TYPE_IPV6];
     ip \<leftarrow> rd ipv6 0 16;
     a2 \<leftarrow> wr a1 1 ip;
     a3 \<leftarrow> wr a2 17 (store16 (word_of_int port));
     Some (19, a3)
   }"

definition in6_is_addr_v4mapped :: "bytes \<Rightarrow> bool" where
  "in6_is_addr_v4mapped a \<longleftrightarrow> take 12 a = replicate 10 0 @ [0xff, 0xff]"

definition hev_socks5_addr_from_sockaddr6 :: "bytes \<Rightarrow> sockaddr6 \<Rightarrow> (int \<times> bytes) option" where
  "hev_socks5_addr_from_sockaddr6 addr saddr =
     (if in6_is_addr_v4mapped (sin6_addr saddr) then do {
        a1 \<leftarrow> wr addr 0 [HEV_SOCKS5_ADDR_TYPE_IPV4];
        a2 \<leftarrow> wr a1 5 (store16 (sin6_port saddr));
        ip \<leftarrow> rd (sin6_addr saddr) 12 4;
        a3 \<leftarrow> wr a2 1 ip;
        Some (7, a3)
      } else do {
        a1 \<leftarrow> wr addr 0 [HEV_SOCKS5_ADDR_TYPE_IPV6];
        a2 \<leftarrow> wr a1 17 (store16 (sin6_port saddr));
        ip \<leftarrow> rd (sin6_addr saddr) 0 16;
        a3 \<leftarrow> wr a2 1 ip;
        Some (19, a3)
      })"

subsection \<open>Resolution into socket addresses\<close>

definition hev_socks5_ipv4_into_sockaddr6 :: "bytes \<Rightarrow> sockaddr6 \<Rightarrow> sockaddr6 option" where
  "hev_socks5_ipv4_into_sockaddr6 addr saddr = do {
     port \<leftarrow> rd addr 5 2;
     ip \<leftarrow> rd addr 1 4;
     a1 \<leftarrow> wr (sin6_addr saddr) 0 (replicate 10 0);
     a2 \<leftarrow> wr a1 10 [0xff, 0xff];
     a3 \<leftarrow> wr a2 12 ip;
     Some \<lparr>sin6_family = AF_INET6, sin6_port = load16 port, sin6_addr = a3\<rparr>
   }"

definition hev_socks5_ipv6_into_sockaddr6 :: "bytes \<Rightarrow> sockaddr6 \<Rightarrow> sockaddr6 option" where
  "hev_socks5_ipv6_into_sockaddr6 addr saddr = do {
     port \<leftarrow> rd addr 17 2;
     ip \<leftarrow> rd addr 1 16;
     a1 \<leftarrow> wr (sin6_addr saddr) 0 ip;
     Some \<lparr>sin6_family = AF_INET6, sin6_port = load16 port, sin6_addr = a1\<rparr>
   }"

definition hev_socks5_name_resolve_ipv4 ::
  "resolver \<Rightarrow> bytes \<Rightarrow> sockaddr6 \<Rightarrow> (int \<times> sockaddr6) option" where
  "hev_socks5_name_resolve_ipv4 R name saddr = do {
     a1 \<leftarrow> wr (sin6_addr saddr) 0 (replicate 10 0);
     case res_pton4 R name of
       None \<Rightarrow> Some (-1, saddr\<lparr>sin6_addr := a1\<rparr>)
     | Some ip \<Rightarrow> do {
         a2 \<leftarrow> wr a1 12 ip;
         a3 \<leftarrow> wr a2 10 [0xff, 0xff];
         Some (0, saddr\<lparr>sin6_addr := a3\<rparr>)
       }
   }"

definition hev_socks5_name_resolve_ipv6 ::
  "resolver \<Rightarrow> bytes \<Rightarrow> sockaddr6 \<Rightarrow> (int \<times> sockaddr6) option" where
  "hev_socks5_name_resolve_ipv6 R name saddr =
     (case res_pton6 R name of
       None \<Rightarrow> Some (-1, saddr)
     | Some ip \<Rightarrow> do {
         a1 \<leftarrow> wr (sin6_addr saddr) 0 ip;
         Some (0, saddr\<lparr>sin6_addr := a1\<rparr>)
       })"

definition hev_socks5_name_resolve_name ::
  "resolver \<Rightarrow> bytes \<Rightarrow> sockaddr6 \<Rightarrow> addr_family \<Rightarrow> (int \<times> sockaddr6 \<times> addr_family) option" where
  "hev_socks5_name_resolve_name R name saddr family =
     (case res_getaddrinfo R family name of
       None \<Rightarrow> Some (-1, saddr, family)
     | Some (AI_INET ip) \<Rightarrow> do {
         a1 \<leftarrow> wr (sin6_addr saddr) 0 (replicate 10 0);
         a2 \<leftarrow> wr a1 10 [0xff, 0xff];
         src \<leftarrow> rd ip 0 4;
         a3 \<leftarrow> wr a2 12 src;
         Some (0, saddr\<lparr>sin6_addr := a3\<rparr>, AF_INET)
       }
     | Some (AI_INET6 ip) \<Rightarrow> do {
         src \<leftarrow> rd ip 0 16;
         a1 \<leftarrow> wr (sin6_addr saddr) 0 src;
         Some (0, saddr\<lparr>sin6_addr := a1\<rparr>, AF_INET6)
       }
     | Some AI_OTHER \<Rightarrow> Some (-1, saddr, family))"

definition hev_socks5_name_into_sockaddr6 ::
  "resolver \<Rightarrow> bytes \<Rightarrow> int \<Rightarrow> sockaddr6 \<Rightarrow> addr_family \<Rightarrow> (int \<times> sockaddr6 \<times> addr_family) option" where
  "hev_socks5_name_into_sockaddr6 R name port saddr family = do {
     let saddr = saddr\<lparr>sin6_family := AF_INET6, sin6_port := htons (word_of_int port)\<rparr>;
     (res, saddr) \<leftarrow> hev_socks5_name_resolve_ipv4 R name saddr;
     if res = 0 then Some (0, saddr, AF_INET)
     else do {
       (res, saddr) \<leftarrow> hev_socks5_name_resolve_ipv6 R name saddr;
       if res = 0 then Some (0, saddr, AF_INET6)
       else hev_socks5_name_resolve_name R name saddr family
     }
   }"

text \<open>The local \<open>char name[256]\<close> holds the domain and its NUL; the library sees the C string,
  which ends at the first NUL.\<close>

definition hev_socks5_addr_into_sockaddr6 ::
  "resolver \<Rightarrow> bytes \<Rightarrow> sockaddr6 \<Rightarrow> addr_family \<Rightarrow> (int \<times> sockaddr6 \<times> addr_family) option" where
  "hev_socks5_addr_into_sockaddr6 R addr saddr family = do {
     atype \<leftarrow> rd8 addr 0;
     if atype = HEV_SOCKS5_ADDR_TYPE_IPV4 then do {
       saddr \<leftarrow> hev_socks5_ipv4_into_sockaddr6 addr saddr;
       Some (0, saddr, AF_INET)
     } else if atype = HEV_SOCKS5_ADDR_TYPE_IPV6 then do {
       saddr \<leftarrow> hev_socks5_ipv6_into_sockaddr6 addr saddr;
       Some (0, saddr, AF_INET6)
     } else if atype = HEV_SOCKS5_ADDR_TYPE_NAME then do {
       len \<leftarrow> rd8 addr 1;
       dom \<leftarrow> rd addr 2 (unat len);
       name \<leftarrow> cstring (dom @ [0]);
       port \<leftarrow> rd addr (2 + unat len) 2;
       hev_socks5_name_into_sockaddr6 R name (uint (ntohs (load16 port))) saddr family
     } else Some (-1, saddr, family)
   }"

subsection \<open>Specification: the address format of RFC 1928\<close>

datatype socks_addr = SA_IPv4 bytes u16 | SA_IPv6 bytes u16 | SA_Name bytes u16

fun wf_addr :: "socks_addr \<Rightarrow> bool" where
  "wf_addr (SA_IPv4 ip p) = (length ip = 4)"
| "wf_addr (SA_IPv6 ip p) = (length ip = 16)"
| "wf_addr (SA_Name n p) = (length n < 256)"

fun encode_addr :: "socks_addr \<Rightarrow> bytes" where
  "encode_addr (SA_IPv4 ip p) = HEV_SOCKS5_ADDR_TYPE_IPV4 # ip @ be16 p"
| "encode_addr (SA_IPv6 ip p) = HEV_SOCKS5_ADDR_TYPE_IPV6 # ip @ be16 p"
| "encode_addr (SA_Name n p) = HEV_SOCKS5_ADDR_TYPE_NAME # word_of_nat (length n) # n @ be16 p"

definition decode_addr :: "bytes \<Rightarrow> (socks_addr \<times> bytes) option" where
  "decode_addr bs = do {
     t \<leftarrow> rd8 bs 0;
     if t = HEV_SOCKS5_ADDR_TYPE_IPV4 then do {
       ip \<leftarrow> rd bs 1 4; p \<leftarrow> rd bs 5 2;
       Some (SA_IPv4 ip (ntohs (load16 p)), drop 7 bs)
     } else if t = HEV_SOCKS5_ADDR_TYPE_IPV6 then do {
       ip \<leftarrow> rd bs 1 16; p \<leftarrow> rd bs 17 2;
       Some (SA_IPv6 ip (ntohs (load16 p)), drop 19 bs)
     } else if t = HEV_SOCKS5_ADDR_TYPE_NAME then do {
       len \<leftarrow> rd8 bs 1; n \<leftarrow> rd bs 2 (unat len); p \<leftarrow> rd bs (2 + unat len) 2;
       Some (SA_Name n (ntohs (load16 p)), drop (4 + unat len) bs)
     } else None
   }"

lemma unat_len_byte: "n < 256 \<Longrightarrow> unat (word_of_nat n :: u8) = n"
  by (simp add: unat_of_nat)

lemma uint_len_byte: "n < 256 \<Longrightarrow> uint (word_of_nat n :: u8) = int n"
  by (metis of_nat_unat unat_len_byte)

lemma length_encode_addr: "wf_addr a \<Longrightarrow> length (encode_addr a) =
    (case a of SA_IPv4 _ _ \<Rightarrow> 7 | SA_IPv6 _ _ \<Rightarrow> 19 | SA_Name n _ \<Rightarrow> 4 + length n)"
  by (cases a) auto

text \<open>Encoding and decoding are inverse.\<close>

lemma list_2: "length bs = 2 \<Longrightarrow> \<exists>a b. bs = [a, b]"
  by (auto simp: length_Suc_conv numeral_2_eq_2)

lemma drop_4 [simp]: "drop (4 + n) (a # b # xs) = drop (Suc (Suc n)) xs"
  by (simp add: numeral_eq_Suc)

lemma decode_encode_addr: "wf_addr a \<Longrightarrow> decode_addr (encode_addr a @ r) = Some (a, r)"
proof (cases a)
  case (SA_Name n p)
  assume "wf_addr a"
  with SA_Name have n: "length n < 256" by simp
  let ?bs = "encode_addr a @ r"
  have "?bs = [3, word_of_nat (length n)] @ n @ be16 p @ r" by (simp add: SA_Name)
  moreover have "rd ?bs 2 (length n) = Some n" "rd ?bs (2 + length n) 2 = Some (be16 p)"
      "drop (4 + length n) ?bs = r"
    by (simp_all add: SA_Name rd_def)
  ultimately show ?thesis
    by (simp add: decode_addr_def rd8_def unat_len_byte[OF n] SA_Name)
qed (auto simp: decode_addr_def rd8_def rd_def)

lemma be16_load16: "length p = 2 \<Longrightarrow> be16 (ntohs (load16 p)) = p"
  by (simp add: store16_load16 flip: store16_htons)

lemma take_drop_split: "i + n \<le> length xs \<Longrightarrow> take n (drop i xs) @ drop (i + n) xs = drop i xs"
  by (metis append_take_drop_id drop_drop add.commute)

lemma encode_decode_addr:
  assumes "decode_addr bs = Some (a, r)"
  shows "wf_addr a \<and> bs = encode_addr a @ r"
proof -
  have two: "take 2 (drop i bs) @ drop (i + 2) bs = drop i bs" "length (take 2 (drop i bs)) = 2"
    if "i + 2 \<le> length bs" for i
    using take_drop_split[OF that] that by auto
  from assms obtain t ts where bs: "bs = t # ts"
    by (cases bs) (auto simp: decode_addr_def rd8_def)
  consider "t = 1" | "t = 4" | "t = 3"
    using assms bs by (auto simp: decode_addr_def rd8_def split: if_splits)
  then show ?thesis
  proof cases
    case 1
    with assms bs have len: "7 \<le> length bs"
      and a: "a = SA_IPv4 (take 4 (drop 1 bs)) (ntohs (load16 (take 2 (drop 5 bs))))" "r = drop 7 bs"
      by (auto simp: decode_addr_def rd8_def rd_def Option.bind_eq_Some_conv split: if_splits)
    have "bs = 1 # take 4 (drop 1 bs) @ take 2 (drop 5 bs) @ drop 7 bs"
      using two[of 5] take_drop_split[of 1 4 bs] len bs 1 by simp
    with a len two[of 5] show ?thesis by (simp add: be16_load16)
  next
    case 2
    with assms bs have len: "19 \<le> length bs"
      and a: "a = SA_IPv6 (take 16 (drop 1 bs)) (ntohs (load16 (take 2 (drop 17 bs))))" "r = drop 19 bs"
      by (auto simp: decode_addr_def rd8_def rd_def Option.bind_eq_Some_conv split: if_splits)
    have "bs = 4 # take 16 (drop 1 bs) @ take 2 (drop 17 bs) @ drop 19 bs"
      using two[of 17] take_drop_split[of 1 16 bs] len bs 2 by simp
    with a len two[of 17] show ?thesis by (simp add: be16_load16)
  next
    case 3
    then obtain l us where ts: "ts = l # us"
      using assms bs by (cases ts) (auto simp: decode_addr_def rd8_def)
    let ?n = "unat l"
    from assms bs 3 ts have len: "4 + ?n \<le> length bs"
      and a: "a = SA_Name (take ?n (drop 2 bs)) (ntohs (load16 (take 2 (drop (2 + ?n) bs))))"
        "r = drop (4 + ?n) bs"
      by (auto simp: decode_addr_def rd8_def rd_def Option.bind_eq_Some_conv split: if_splits)
    have "bs = 3 # l # take ?n (drop 2 bs) @ take 2 (drop (2 + ?n) bs) @ drop (4 + ?n) bs"
      using two[of "2 + ?n"] take_drop_split[of 2 ?n bs] len bs ts 3 by simp
    with a len two[of "2 + ?n"] show ?thesis by (simp add: be16_load16)
  qed
qed

subsection \<open>The code computes the format\<close>

lemma addr_len_encode:
  "wf_addr a \<Longrightarrow> hev_socks5_addr_len (encode_addr a @ r) = Some (int (length (encode_addr a)))"
  by (cases a) (auto simp: hev_socks5_addr_len_def rd8_def uint_len_byte)

lemma addr_len_decode:
  "decode_addr bs = Some (a, r) \<Longrightarrow> hev_socks5_addr_len bs = Some (int (length bs) - int (length r))"
  using encode_decode_addr[of bs a r] addr_len_encode[of a r] by auto

lemma splice_at_0: "length xs \<le> length m \<Longrightarrow> splice_at m 0 xs = xs @ drop (length xs) m"
  by (simp add: splice_at_def)

lemma splice_at_append: "n = length a \<Longrightarrow> length xs \<le> length m \<Longrightarrow>
    splice_at (a @ m) n xs = a @ xs @ drop (length xs) m"
  by (simp add: splice_at_def)

lemma addr_from_ipv4_encode:
  assumes "length addr = addr_size" "4 \<le> length ip"
  shows "hev_socks5_addr_from_ipv4 addr ip (uint (htons p)) =
    Some (7, encode_addr (SA_IPv4 (take 4 ip) p) @ drop 7 addr)"
  using assms
  by (simp add: hev_socks5_addr_from_ipv4_def wr_def rd_def splice_at_def store16_htons)

lemma addr_from_ipv6_encode:
  assumes "length addr = addr_size" "16 \<le> length ip"
  shows "hev_socks5_addr_from_ipv6 addr ip (uint (htons p)) =
    Some (19, encode_addr (SA_IPv6 (take 16 ip) p) @ drop 19 addr)"
  using assms
  by (simp add: hev_socks5_addr_from_ipv6_def wr_def rd_def splice_at_def store16_htons)

lemma addr_from_name_encode:
  assumes len: "length addr = addr_size" and name: "0 \<notin> set name" "length name \<le> 255"
  shows "\<exists>r. hev_socks5_addr_from_name addr name (uint (htons p)) =
    Some (int (length (encode_addr (SA_Name name p))), encode_addr (SA_Name name p) @ r) \<and>
    length (encode_addr (SA_Name name p) @ r) = addr_size"
proof -
  obtain t l rest where addr: "addr = t # l # rest" and rest: "length rest = 258"
    using len by (cases addr; cases "tl addr") auto
  let ?z = "replicate (256 - Suc (length name)) 0 @ drop 256 rest"
  have s: "strncpy_bytes 256 name = name @ 0 # replicate (256 - Suc (length name)) 0"
    using name by (intro strncpy_bytes_short) simp
  have "length ?z = 257 - length name" using rest name by simp
  then have z: "1 \<le> length ?z" using name by linarith
  have "hev_socks5_addr_from_name addr name (uint (htons p)) =
      Some (4 + int (length name), [3, word_of_nat (length name)] @ name @ be16 p @ drop 1 ?z)"
    using rest name z
    by (simp add: hev_socks5_addr_from_name_def addr wr_def splice_at_def s unat_len_byte
        uint_len_byte store16_htons drop_Cons' numeral_2_eq_2 min_def)
  then show ?thesis using rest name z by (intro exI[of _ "drop 1 ?z"]) simp
qed

text \<open>A name of 256 bytes or more fills the 256 bytes \<open>strncpy\<close> writes without a NUL, so
  \<open>strlen\<close> runs on into the two port bytes of the object; if the first of them is 0 the length
  wraps to 0 and the port overwrites the name.\<close>

lemma addr_from_name_overlong:
  assumes len: "length addr = addr_size" "addr ! 258 = 0" and name: "0 \<notin> set name" "256 \<le> length name"
  shows "\<exists>r. hev_socks5_addr_from_name addr name (uint (htons p)) =
    Some (4, encode_addr (SA_Name [] p) @ r)"
proof -
  obtain t l rest where addr: "addr = t # l # rest" and rest: "length rest = 258"
    using len(1) by (cases addr; cases "tl addr") auto
  have r0: "rest ! 256 = 0" using len(2) by (simp add: addr)
  have d: "drop 256 rest = 0 # drop 257 rest"
    using rest r0 by (simp add: Cons_nth_drop_Suc[symmetric, of 256])
  obtain x y q where q: "take 256 name = x # y # q"
    using name by (cases name; cases "tl name") auto
  have "length (take 256 name) = 256" using name(2) by simp
  then have lq: "length q = 254" by (simp add: q)
  have "set (take 256 name) \<subseteq> set name" by (rule set_take_subset)
  with name(1) have nz: "0 \<notin> set (x # y # q)" unfolding q by blast
  have s: "strncpy_bytes 256 name = x # y # q"
    using name by (simp add: strncpy_bytes_long q)
  have str: "cstring (x # y # q @ 0 # drop 257 rest) = Some (x # y # q)"
    using cstring_append[OF nz, of "drop 257 rest"] by simp
  show ?thesis
    using rest lq by (simp add: hev_socks5_addr_from_name_def addr wr_def splice_at_def store16_htons
        s d str del: cstring.simps)
qed

text \<open>Socket addresses: an IPv4 address travels as its IPv4-mapped IPv6 address.\<close>

fun sockaddr6_of :: "socks_addr \<Rightarrow> sockaddr6" where
  "sockaddr6_of (SA_IPv4 ip p) = \<lparr>sin6_family = AF_INET6, sin6_port = htons p,
     sin6_addr = replicate 10 0 @ [0xff, 0xff] @ ip\<rparr>"
| "sockaddr6_of (SA_IPv6 ip p) = \<lparr>sin6_family = AF_INET6, sin6_port = htons p, sin6_addr = ip\<rparr>"
| "sockaddr6_of (SA_Name n p) = sockaddr6_zero"

lemma addr_into_sockaddr6_ipv4:
  assumes "length ip = 4" "length (sin6_addr sa) = 16"
  shows "hev_socks5_addr_into_sockaddr6 R (encode_addr (SA_IPv4 ip p) @ r) sa f =
    Some (0, sockaddr6_of (SA_IPv4 ip p), AF_INET)"
  using assms
  by (simp add: hev_socks5_addr_into_sockaddr6_def hev_socks5_ipv4_into_sockaddr6_def rd8_def rd_def
      wr_def splice_at_def)

lemma addr_into_sockaddr6_ipv6:
  assumes "length ip = 16" "length (sin6_addr sa) = 16"
  shows "hev_socks5_addr_into_sockaddr6 R (encode_addr (SA_IPv6 ip p) @ r) sa f =
    Some (0, sockaddr6_of (SA_IPv6 ip p), AF_INET6)"
  using assms
  by (simp add: hev_socks5_addr_into_sockaddr6_def hev_socks5_ipv6_into_sockaddr6_def rd8_def rd_def
      wr_def splice_at_def)

lemma cstring_snoc_nul [simp]: "0 \<notin> set n \<Longrightarrow> cstring (n @ [0]) = Some n"
  using cstring_append[of n "[]"] by simp

lemma addr_into_sockaddr6_name:
  assumes n: "length n < 256" "0 \<notin> set n"
  shows "hev_socks5_addr_into_sockaddr6 R (encode_addr (SA_Name n p) @ r) sa f =
    hev_socks5_name_into_sockaddr6 R n (uint p) sa f"
proof -
  let ?bs = "encode_addr (SA_Name n p) @ r"
  have "rd ?bs 2 (length n) = Some n" "rd ?bs (2 + length n) 2 = Some (be16 p)"
    by (simp_all add: rd_def)
  then show ?thesis using n
    by (simp add: hev_socks5_addr_into_sockaddr6_def rd8_def unat_len_byte[OF n(1)])
qed

text \<open>Going to a socket address and back is the identity on IP addresses that are not
  themselves IPv4-mapped.\<close>

lemma addr_from_sockaddr6_of:
  assumes "length addr = n" "19 \<le> n" "wf_addr a" "\<forall>nm p. a \<noteq> SA_Name nm p"
    and "\<forall>ip p. a = SA_IPv6 ip p \<longrightarrow> \<not> in6_is_addr_v4mapped ip"
  shows "hev_socks5_addr_from_sockaddr6 addr (sockaddr6_of a) =
    Some (int (length (encode_addr a)), encode_addr a @ drop (length (encode_addr a)) addr)"
  using assms
  by (cases a)
    (auto simp: hev_socks5_addr_from_sockaddr6_def in6_is_addr_v4mapped_def wr_def rd_def
      splice_at_def store16_htons min_def)

text \<open>A resolution that succeeds yields a usable family and a 16-byte address; the only
  families are the two of the callers.\<close>

lemma name_into_sockaddr6_family:
  assumes "hev_socks5_name_into_sockaddr6 R n p sa f = Some (0, sa', f')"
  shows "f' = AF_INET \<or> f' = AF_INET6"
proof -
  have "g' = AF_INET \<or> g' = AF_INET6"
    if "hev_socks5_name_resolve_name R n s g = Some (0, s', g')" for s g s' g'
  proof (cases "res_getaddrinfo R g n")
    case (Some ai)
    with that show ?thesis
      by (cases ai) (auto simp: hev_socks5_name_resolve_name_def Option.bind_eq_Some_conv)
  qed (use that in \<open>simp add: hev_socks5_name_resolve_name_def\<close>)
  with assms show ?thesis
    by (fastforce simp: hev_socks5_name_into_sockaddr6_def Let_def Option.bind_eq_Some_conv
        split: if_splits)
qed

lemma name_into_sockaddr6_defined:
  assumes R: "resolver_ok R" and len: "length (sin6_addr sa) = 16"
  shows "\<exists>res sa' f'. hev_socks5_name_into_sockaddr6 R n p sa f = Some (res, sa', f') \<and>
    (res = 0 \<or> res = -1) \<and> length (sin6_addr sa') = 16"
proof -
  obtain a where r4: "res_pton4 R n = None \<or> res_pton4 R n = Some a \<and> length a = 4"
    using R by (cases "res_pton4 R n") (auto simp: resolver_ok_def)
  obtain b where r6: "res_pton6 R n = None \<or> res_pton6 R n = Some b \<and> length b = 16"
    using R by (cases "res_pton6 R n") (auto simp: resolver_ok_def)
  have g: "res_getaddrinfo R f n = Some (AI_INET c) \<Longrightarrow> length c = 4"
    "res_getaddrinfo R f n = Some (AI_INET6 c) \<Longrightarrow> length c = 16" for c
    using R by (auto simp: resolver_ok_def)
  show ?thesis
    using r4 r6 g len
    by (auto simp: hev_socks5_name_into_sockaddr6_def hev_socks5_name_resolve_ipv4_def
        hev_socks5_name_resolve_ipv6_def hev_socks5_name_resolve_name_def wr_def rd_def Let_def
        split: option.splits addrinfo.splits)
qed

subsection \<open>Properties\<close>

text \<open>The three constructors as one function of the abstract address.\<close>

fun addr_from :: "bytes \<Rightarrow> socks_addr \<Rightarrow> (int \<times> bytes) option" where
  "addr_from m (SA_IPv4 ip p) = hev_socks5_addr_from_ipv4 m ip (uint (htons p))"
| "addr_from m (SA_IPv6 ip p) = hev_socks5_addr_from_ipv6 m ip (uint (htons p))"
| "addr_from m (SA_Name n p) = hev_socks5_addr_from_name m n (uint (htons p))"

lemma addr_from_encode:
  assumes "length m = addr_size" "wf_addr a" "\<forall>n p. a = SA_Name n p \<longrightarrow> 0 \<notin> set n"
  shows "\<exists>r. addr_from m a = Some (int (length (encode_addr a)), encode_addr a @ r)"
proof (cases a)
  case (SA_Name n p)
  with assms addr_from_name_encode[of m n p] show ?thesis by auto
qed (use assms in \<open>auto simp: addr_from_ipv4_encode addr_from_ipv6_encode\<close>)

text \<open>The three constructors write the RFC 1928 encoding. On an uninitialised address
  object, each of \<open>hev_socks5_addr_from_name\<close>, \<open>hev_socks5_addr_from_ipv4\<close> and
  \<open>hev_socks5_addr_from_ipv6\<close>, given the port in network byte order, returns the length of the
  encoding, which is also what \<open>hev_socks5_addr_len\<close> computes from the object, and decoding
  the object gives back the address. For names this holds up to 255 bytes.\<close>

theorem addr_constructors_roundtrip:
  assumes "length m = addr_size" "wf_addr a" "\<forall>n p. a = SA_Name n p \<longrightarrow> 0 \<notin> set n"
  shows "\<exists>m' r. addr_from m a = Some (int (length (encode_addr a)), m') \<and>
    hev_socks5_addr_len m' = Some (int (length (encode_addr a))) \<and> decode_addr m' = Some (a, r)"
  using addr_from_encode[OF assms] addr_len_encode[OF assms(2)] decode_encode_addr[OF assms(2)] by blast

theorem addr_constructors_roundtrip_witness:
  "\<exists>m' r. addr_from (replicate addr_size 0xaa) (SA_Name [0x61, 0x2e, 0x62] 443) =
      Some (int (length (encode_addr (SA_Name [0x61, 0x2e, 0x62] 443))), m') \<and>
    hev_socks5_addr_len m' = Some (int (length (encode_addr (SA_Name [0x61, 0x2e, 0x62] 443)))) \<and>
    decode_addr m' = Some (SA_Name [0x61, 0x2e, 0x62] 443, r)"
  by (rule addr_constructors_roundtrip) simp_all

text \<open>The names beyond that bound are not rejected. A name of 256 bytes or more fills the
  256 bytes \<open>strncpy\<close> writes without a NUL, so \<open>strlen\<close> runs into the two uninitialised port
  bytes; when the first of them is 0 the length wraps to 0 and the object holds the empty
  name instead.\<close>

theorem addr_from_name_long_becomes_empty:
  assumes "length m = addr_size" "m ! 258 = 0" "0 \<notin> set name" "256 \<le> length name"
  shows "\<exists>m' r. addr_from m (SA_Name name p) = Some (4, m') \<and> decode_addr m' = Some (SA_Name [] p, r)"
  using addr_from_name_overlong[OF assms] decode_encode_addr[of "SA_Name [] p"] by fastforce

theorem addr_from_name_long_becomes_empty_witness:
  "\<exists>m' r. addr_from (replicate addr_size 0) (SA_Name (replicate 300 0x61) 80) = Some (4, m') \<and>
    decode_addr m' = Some (SA_Name [] 80, r)"
  by (rule addr_from_name_long_becomes_empty) simp_all

text \<open>IP addresses survive the way through a \<open>sockaddr_in6\<close> and back: what
  \<open>hev_socks5_addr_into_sockaddr6\<close> stores for an encoded address, IPv4 as an IPv4-mapped
  address, \<open>hev_socks5_addr_from_sockaddr6\<close> turns into the same encoding, for every address
  except an IPv6 address that is itself IPv4-mapped.\<close>

theorem sockaddr6_roundtrip:
  assumes "wf_addr a" "\<forall>nm p. a \<noteq> SA_Name nm p"
    and "\<forall>ip p. a = SA_IPv6 ip p \<longrightarrow> \<not> in6_is_addr_v4mapped ip"
    and "length (sin6_addr sa) = 16" "length m = addr_size"
  shows "\<exists>sa' f'. hev_socks5_addr_into_sockaddr6 R (encode_addr a @ r) sa f = Some (0, sa', f') \<and>
    f' \<noteq> AF_UNSPEC \<and>
    hev_socks5_addr_from_sockaddr6 m sa' =
      Some (int (length (encode_addr a)), encode_addr a @ drop (length (encode_addr a)) m)"
  using assms addr_from_sockaddr6_of[OF assms(5) _ assms(1-3)]
  by (cases a) (auto simp del: encode_addr.simps simp: addr_into_sockaddr6_ipv4 addr_into_sockaddr6_ipv6)

definition no_resolver :: resolver where
  "no_resolver = \<lparr>res_pton4 = \<lambda>_. None, res_pton6 = \<lambda>_. None, res_getaddrinfo = \<lambda>_ _. None\<rparr>"

theorem sockaddr6_roundtrip_witness:
  "\<exists>sa' f'. hev_socks5_addr_into_sockaddr6 no_resolver (encode_addr (SA_IPv4 [192, 0, 2, 1] 53) @ [7])
      sockaddr6_zero AF_UNSPEC = Some (0, sa', f') \<and> f' \<noteq> AF_UNSPEC \<and>
    hev_socks5_addr_from_sockaddr6 (replicate addr_size 0) sa' =
      Some (int (length (encode_addr (SA_IPv4 [192, 0, 2, 1] 53))),
        encode_addr (SA_IPv4 [192, 0, 2, 1] 53) @
        drop (length (encode_addr (SA_IPv4 [192, 0, 2, 1] 53))) (replicate addr_size 0))"
  by (rule sockaddr6_roundtrip) (simp_all add: sockaddr6_zero_def)

end
