(* ===== verification/DatagramIO.thy ===== *)
theory DatagramIO
  imports TaskIO
begin

section \<open>Gathering reads and datagrams (hev-task-io-socket.c: recvmsg, recvmmsg, sendmmsg)\<close>

text \<open>
  \<open>hev_task_io_socket_recvmsg\<close> fills an array of buffers from a stream; its argument here is the
  list of the buffers' sizes and its result the bytes received, in order. A datagram socket is
  the trace of what arrives and from where (\<open>dg_rxq\<close>), of how many messages successive \<open>sendmmsg\<close> calls accept
  (\<open>dg_txq\<close>) and the datagrams sent, each with its destination (none on a connected socket).

  The yielder of a UDP object looks at the control connection while it waits and may change the
  object; so it is a function on a state \<open>'e\<close> that the loops thread through.
\<close>

subsection \<open>recvmsg\<close>

fun iov_len_advance :: "nat \<Rightarrow> nat list \<Rightarrow> nat list" where
  "iov_len_advance n [] = []"
| "iov_len_advance n (v # vs) = (if n < v then (v - n) # vs else iov_len_advance (n - v) vs)"

lemma sum_iov_len_advance [simp]: "sum_list (iov_len_advance n vs) = sum_list vs - n"
  by (induction n vs rule: iov_len_advance.induct) auto

function task_recvmsg_loop ::
  "(int \<Rightarrow> bool) \<Rightarrow> nat \<Rightarrow> nat list \<Rightarrow> bool \<Rightarrow> bool \<Rightarrow> bytes \<Rightarrow> sock \<Rightarrow> (int \<times> bytes \<times> sock) option" where
  "task_recvmsg_loop yielder len iov waitall dontwait got s =
     (let size = length got;
          or_size = (\<lambda>e. if size \<noteq> 0 then int size else e)
      in case sys_recv (sum_list iov) s of
           (SysAgain w, s') \<Rightarrow>
             if \<not> dontwait then
               (if yielder w then Some (or_size (-2), got, s')
                else if rxq s = [] then None
                else task_recvmsg_loop yielder len iov waitall dontwait got s')
             else if \<not> waitall then Some (-1, got, s')
             else Some (or_size (-1), got, s')
         | (SysErr, s') \<Rightarrow>
             if \<not> waitall then Some (-1, got, s') else Some (or_size (-1), got, s')
         | (SysOk bs, s') \<Rightarrow>
             if \<not> waitall then Some (int (length bs), got @ bs, s')
             else if bs = [] then Some (or_size 0, got, s')
             else if size + length bs < len
             then task_recvmsg_loop yielder len (iov_len_advance (length bs) iov) waitall dontwait (got @ bs) s'
             else Some (int (size + length bs), got @ bs, s'))"
  by pat_completeness auto

lemma sys_recv_ok_shrinks2:
  "sys_recv n s = (SysOk bs, s') \<Longrightarrow> bs \<noteq> [] \<Longrightarrow>
    length (rxq s') < length (rxq s) \<or> length (rxq s') = length (rxq s) \<and> n - length bs < n"
  by (auto simp: sys_recv_def split: list.splits rx_ev.splits if_splits)

termination task_recvmsg_loop
  by (relation "measures [\<lambda>(y, len, iov, wa, dw, got, s). length (rxq s),
      \<lambda>(y, len, iov, wa, dw, got, s). sum_list iov]")
    (auto dest!: sym[THEN sys_recv_again_shrinks] sym[THEN sys_recv_ok_shrinks2])

declare task_recvmsg_loop.simps [simp del]

definition hev_task_io_socket_recvmsg ::
  "(int \<Rightarrow> bool) \<Rightarrow> nat list \<Rightarrow> bool \<Rightarrow> bool \<Rightarrow> sock \<Rightarrow> (int \<times> bytes \<times> sock) option" where
  "hev_task_io_socket_recvmsg yielder iov waitall dontwait s =
     task_recvmsg_loop yielder (sum_list iov) iov waitall dontwait [] s"

text \<open>Scattered reading is reading into one buffer of the total size.\<close>

lemma task_recvmsg_loop_eq:
  "sum_list iov = len - length got \<Longrightarrow>
    task_recvmsg_loop y len iov wa dw got s = task_recv_loop y len wa dw got s"
proof (induction y len iov wa dw got s rule: task_recvmsg_loop.induct)
  case (1 y len iov wa dw got s)
  obtain q s1 where q: "sys_recv (len - length got) s = (q, s1)" by fastforce
  note q' = q[folded "1.prems"]
  note unf = task_recvmsg_loop.simps[of y len iov wa dw got s] task_recv_loop.simps[of y len wa dw got s]
  show ?case
  proof (cases q)
    case (SysOk bs)
    with "1.IH"(1)[OF refl refl q'[symmetric] SysOk] "1.prems" q q' show ?thesis
      by (auto simp: unf Let_def)
  next
    case (SysAgain w)
    with "1.IH"(2)[OF refl refl q'[symmetric] SysAgain] q q' "1.prems" show ?thesis
      by (auto simp: unf Let_def)
  next
    case SysErr
    with q q' show ?thesis by (auto simp: unf)
  qed
qed

lemma recvmsg_eq_recv:
  "hev_task_io_socket_recvmsg y iov wa dw s = hev_task_io_socket_recv y (sum_list iov) wa dw s"
  by (simp add: hev_task_io_socket_recvmsg_def hev_task_io_socket_recv_def task_recvmsg_loop_eq)

subsection \<open>Datagram sockets\<close>

datatype 'a dg_ev = DgData 'a bytes | DgAgain int | DgErr

record 'a dsock =
  dg_rxq :: "'a dg_ev list"
  dg_txq :: "tx_ev list"
  dg_sent :: "('a option \<times> bytes) list"

fun take_dgs :: "nat list \<Rightarrow> 'a dg_ev list \<Rightarrow> ('a \<times> bytes) list \<times> 'a dg_ev list" where
  "take_dgs (n # ns) (DgData src bs # q) = (let (ds, q') = take_dgs ns q in ((src, take n bs) # ds, q'))"
| "take_dgs ns q = ([], q)"

text \<open>\<open>recvmmsg\<close> into buffers of the sizes \<open>lens\<close>: the datagrams that are there, cut to size.\<close>

definition sys_recvmmsg :: "nat list \<Rightarrow> 'a dsock \<Rightarrow> ('a \<times> bytes) list sys_ret \<times> 'a dsock" where
  "sys_recvmmsg lens s = (case dg_rxq s of
     [] \<Rightarrow> (SysAgain 0, s)
   | DgAgain w # q \<Rightarrow> (SysAgain w, s\<lparr>dg_rxq := q\<rparr>)
   | DgErr # q \<Rightarrow> (SysErr, s\<lparr>dg_rxq := q\<rparr>)
   | _ \<Rightarrow> (let (ds, q) = take_dgs lens (dg_rxq s) in (SysOk ds, s\<lparr>dg_rxq := q\<rparr>)))"

definition sys_sendmmsg :: "('a option \<times> bytes) list \<Rightarrow> 'a dsock \<Rightarrow> nat sys_ret \<times> 'a dsock" where
  "sys_sendmmsg ms s = (case dg_txq s of
     [] \<Rightarrow> (SysOk (length ms), s\<lparr>dg_sent := dg_sent s @ ms\<rparr>)
   | TxAgain w # q \<Rightarrow> (SysAgain w, s\<lparr>dg_txq := q\<rparr>)
   | TxErr # q \<Rightarrow> (SysErr, s\<lparr>dg_txq := q\<rparr>)
   | TxRoom k # q \<Rightarrow> (SysOk (min k (length ms)), s\<lparr>dg_txq := q, dg_sent := dg_sent s @ take k ms\<rparr>))"

lemma take_dgs_length: "take_dgs ns q = (ds, q') \<Longrightarrow> length q' = length q - length ds \<and> length ds \<le> length q \<and>
    length ds \<le> length ns"
  by (induction ns q arbitrary: ds q' rule: take_dgs.induct) (auto split: prod.splits)

text \<open>The loop of \<open>hev_task_io_socket_recvmmsg\<close>; \<open>c\<close> messages have been received into the first
  buffers, \<open>lens\<close> are the sizes of the others.\<close>

function task_recvmmsg_loop ::
  "(int \<Rightarrow> 'e \<Rightarrow> bool \<times> 'e) \<Rightarrow> bool \<Rightarrow> bool \<Rightarrow> nat list \<Rightarrow> ('a \<times> bytes) list \<Rightarrow> 'e \<Rightarrow> 'a dsock \<Rightarrow>
    (int \<times> ('a \<times> bytes) list \<times> 'e \<times> 'a dsock) option" where
  "task_recvmmsg_loop yielder waitall dontwait lens got e s =
     (let c = length got;
          or_c = (\<lambda>x. if c \<noteq> 0 then int c else x)
      in case sys_recvmmsg lens s of
           (SysAgain w, s') \<Rightarrow>
             if \<not> dontwait then
               (case yielder w e of (stop, e') \<Rightarrow>
                  if stop then Some (or_c (-2), got, e', s')
                  else if dg_rxq s = [] then None
                  else task_recvmmsg_loop yielder waitall dontwait lens got e' s')
             else if \<not> waitall then Some (-1, got, e, s')
             else Some (or_c (-1), got, e, s')
         | (SysErr, s') \<Rightarrow>
             if \<not> waitall then Some (-1, got, e, s') else Some (or_c (-1), got, e, s')
         | (SysOk ds, s') \<Rightarrow>
             if \<not> waitall then Some (int (length ds), got @ ds, e, s')
             else if ds = [] then Some (or_c 0, got, e, s')
             else if length ds < length lens
             then task_recvmmsg_loop yielder waitall dontwait (drop (length ds) lens) (got @ ds) e s'
             else Some (int (c + length ds), got @ ds, e, s'))"
  by pat_completeness auto

lemma sys_recvmmsg_again_shrinks:
  "sys_recvmmsg n s = (SysAgain w, s') \<Longrightarrow> dg_rxq s \<noteq> [] \<Longrightarrow> length (dg_rxq s') < length (dg_rxq s)"
  by (auto simp: sys_recvmmsg_def split: list.splits dg_ev.splits prod.splits)

lemma sys_recvmmsg_ok_shrinks:
  "sys_recvmmsg n s = (SysOk ds, s') \<Longrightarrow> ds \<noteq> [] \<Longrightarrow> length (dg_rxq s') < length (dg_rxq s)"
  by (auto simp: sys_recvmmsg_def split: list.splits dg_ev.splits prod.splits dest: take_dgs_length)

termination task_recvmmsg_loop
  by (relation "measure (\<lambda>(y, wa, dw, lens, got, e, s). length (dg_rxq s))")
    (auto dest!: sym[THEN sys_recvmmsg_again_shrinks] sym[THEN sys_recvmmsg_ok_shrinks])

declare task_recvmmsg_loop.simps [simp del]

definition hev_task_io_socket_recvmmsg ::
  "(int \<Rightarrow> 'e \<Rightarrow> bool \<times> 'e) \<Rightarrow> nat list \<Rightarrow> bool \<Rightarrow> bool \<Rightarrow> 'e \<Rightarrow> 'a dsock \<Rightarrow>
    (int \<times> ('a \<times> bytes) list \<times> 'e \<times> 'a dsock) option" where
  "hev_task_io_socket_recvmmsg yielder lens waitall dontwait e s =
     task_recvmmsg_loop yielder waitall dontwait lens [] e s"

function task_sendmmsg_loop ::
  "(int \<Rightarrow> 'e \<Rightarrow> bool \<times> 'e) \<Rightarrow> bool \<Rightarrow> bool \<Rightarrow> ('a option \<times> bytes) list \<Rightarrow> nat \<Rightarrow> 'e \<Rightarrow> 'a dsock \<Rightarrow>
    (int \<times> 'e \<times> 'a dsock) option" where
  "task_sendmmsg_loop yielder waitall dontwait ms c e s =
     (let or_c = (\<lambda>x. if c \<noteq> 0 then int c else x)
      in case sys_sendmmsg (drop c ms) s of
           (SysAgain w, s') \<Rightarrow>
             if \<not> dontwait then
               (case yielder w e of (stop, e') \<Rightarrow>
                  if stop then Some (or_c (-2), e', s')
                  else task_sendmmsg_loop yielder waitall dontwait ms c e' s')
             else if \<not> waitall then Some (-1, e, s') else Some (or_c (-1), e, s')
         | (SysErr, s') \<Rightarrow> if \<not> waitall then Some (-1, e, s') else Some (or_c (-1), e, s')
         | (SysOk r, s') \<Rightarrow>
             if \<not> waitall then Some (int r, e, s')
             else if r = 0 then Some (or_c 0, e, s')
             else if c + r < length ms
             then task_sendmmsg_loop yielder waitall dontwait ms (c + r) e s'
             else Some (int (c + r), e, s'))"
  by pat_completeness auto

lemma sys_sendmmsg_again_shrinks:
  "sys_sendmmsg ms s = (SysAgain w, s') \<Longrightarrow> length (dg_txq s') < length (dg_txq s)"
  by (auto simp: sys_sendmmsg_def split: list.splits tx_ev.splits)

lemma sys_sendmmsg_ok_shrinks:
  "sys_sendmmsg ms s = (SysOk r, s') \<Longrightarrow> r < length ms \<Longrightarrow> length (dg_txq s') < length (dg_txq s)"
  by (auto simp: sys_sendmmsg_def split: list.splits tx_ev.splits)

termination task_sendmmsg_loop
  by (relation "measure (\<lambda>(y, wa, dw, ms, c, e, s). length (dg_txq s))")
    (auto dest!: sym[THEN sys_sendmmsg_again_shrinks] sym[THEN sys_sendmmsg_ok_shrinks] simp: less_diff_conv)

declare task_sendmmsg_loop.simps [simp del]

definition hev_task_io_socket_sendmmsg ::
  "(int \<Rightarrow> 'e \<Rightarrow> bool \<times> 'e) \<Rightarrow> ('a option \<times> bytes) list \<Rightarrow> bool \<Rightarrow> bool \<Rightarrow> 'e \<Rightarrow> 'a dsock \<Rightarrow>
    (int \<times> 'e \<times> 'a dsock) option" where
  "hev_task_io_socket_sendmmsg yielder ms waitall dontwait e s =
     task_sendmmsg_loop yielder waitall dontwait ms 0 e s"

subsection \<open>What they send and receive\<close>

lemma sys_recvmmsg_bound:
  "sys_recvmmsg lens s = (SysOk ds, s') \<Longrightarrow> length ds \<le> length lens"
  by (auto simp: sys_recvmmsg_def split: list.splits dg_ev.splits prod.splits dest: take_dgs_length)

lemma take_dgs_fit: "take_dgs ns q = (ds, q') \<Longrightarrow> list_all2 (\<lambda>d n. length (snd d) \<le> n) ds (take (length ds) ns)"
  by (induction ns q arbitrary: ds q' rule: take_dgs.induct) (auto split: prod.splits)

lemma task_recvmmsg_loop_count:
  "task_recvmmsg_loop y False dw lens [] e s = Some (r, ds, e', s') \<Longrightarrow>
    r = int (length ds) \<and> length ds \<le> length lens \<and>
      list_all2 (\<lambda>d n. length (snd d) \<le> n) ds (take (length ds) lens) \<or> r < 0 \<and> ds = []"
proof (induction y False dw lens "[] :: ('a \<times> bytes) list" e s rule: task_recvmmsg_loop.induct)
  case (1 y dw lens e s)
  obtain q s1 where q: "sys_recvmmsg lens s = (q, s1)" by fastforce
  note unf = task_recvmmsg_loop.simps[of y False dw lens "[]" e s]
  show ?case
  proof (cases q)
    case (SysOk bs)
    from q SysOk have "list_all2 (\<lambda>d n. length (snd d) \<le> n) bs (take (length bs) lens)"
      by (auto simp: sys_recvmmsg_def split: list.splits dg_ev.splits prod.splits dest!: take_dgs_fit)
    with "1.prems" q SysOk sys_recvmmsg_bound[of lens s bs s1] show ?thesis
      by (auto simp: unf)
  next
    case (SysAgain w)
    obtain b e1 where ye: "y w e = (b, e1)" by fastforce
    show ?thesis
    proof (cases "dw \<or> b \<or> dg_rxq s = []")
      case True
      with "1.prems" q SysAgain ye show ?thesis
        by (auto simp: unf Let_def split: if_splits)
    next
      case False
      with "1.prems" q SysAgain ye have "task_recvmmsg_loop y False dw lens [] e1 s1 = Some (r, ds, e', s')"
        by (simp add: unf Let_def)
      with "1.hyps"(2)[OF refl refl q[symmetric] SysAgain _ ye[symmetric]] False show ?thesis by auto
    qed
  next
    case SysErr
    with "1.prems" q show ?thesis by (simp add: unf)
  qed
qed

lemma recvmmsg_count:
  assumes "hev_task_io_socket_recvmmsg y lens False dw e s = Some (r, ds, e', s')"
  shows "r = int (length ds) \<and> length ds \<le> length lens \<and>
      list_all2 (\<lambda>d n. length (snd d) \<le> n) ds (take (length ds) lens) \<or> r < 0 \<and> ds = []"
  using task_recvmmsg_loop_count assms unfolding hev_task_io_socket_recvmmsg_def .

end
