(* ===== verification/Socks5.thy ===== *)
theory Socks5
  imports DatagramIO Socks5Addr
begin

section \<open>Descriptors, settings and the base object (core hev-socks5.c, hev-socks5-misc.c)\<close>

text \<open>
  The operating-system state a SOCKS5 object works on, the settings of the library (the
  file-level variables of hev-socks5-misc.c with their setters and getters) and the base class
  \<open>HevSocks5\<close>. Subclasses extend the record, as the C structs embed their base.

  \<open>net\<close> holds the open descriptors, those registered with the task's poller, the stream or
  datagram state of each, the targets of the connections made, and the oracle queues for \<open>socket\<close>,
  \<open>setsockopt (IPV6_V6ONLY)\<close>, \<open>connect\<close> and \<open>malloc\<close>. \<open>socket\<close> returns the lowest unused
  descriptor, as POSIX requires. \<open>close\<close> on a descriptor that is not open is undefined here, so
  that a double close cannot go unnoticed. \<open>blocks\<close> counts the live heap blocks.
\<close>

subsection \<open>Descriptors\<close>

record net =
  fds :: "int list"
  polled :: "int list"
  sk :: "int \<Rightarrow> sock"
  dsk :: "int \<Rightarrow> sockaddr6 dsock"
  rcvbuf :: "int \<Rightarrow> int"
  conns :: "(int \<times> sockaddr6) list"
  socketq :: "bool list"
  sockoptq :: "bool list"
  connq :: "conn_ev list list"
  mallocq :: "bool list"
  blocks :: nat

datatype sock_type = SOCK_STREAM | SOCK_DGRAM

definition lowest_free :: "int list \<Rightarrow> int" where
  "lowest_free ds = hd (filter (\<lambda>n. n \<notin> set ds) (map int [0..<Suc (length ds)]))"

definition hev_task_io_socket_socket :: "net \<Rightarrow> int \<times> net" where
  "hev_task_io_socket_socket w =
     (let (ok, q) = pop True (socketq w);
          fd = lowest_free (fds w)
      in if ok then (fd, w\<lparr>socketq := q, fds := fd # fds w\<rparr>) else (-1, w\<lparr>socketq := q\<rparr>))"

definition sys_close :: "int \<Rightarrow> net \<Rightarrow> net option" where
  "sys_close fd w = (if fd \<in> set (fds w) then Some (w\<lparr>fds := remove1 fd (fds w)\<rparr>) else None)"

definition sys_setsockopt :: "net \<Rightarrow> bool \<times> net" where
  "sys_setsockopt w = (let (ok, q) = pop True (sockoptq w) in (ok, w\<lparr>sockoptq := q\<rparr>))"

definition hev_task_add_fd :: "int \<Rightarrow> net \<Rightarrow> int \<times> net" where
  "hev_task_add_fd fd w = (if fd \<in> set (polled w) then (-1, w) else (0, w\<lparr>polled := fd # polled w\<rparr>))"

definition hev_task_del_fd :: "int \<Rightarrow> net \<Rightarrow> net" where
  "hev_task_del_fd fd w = w\<lparr>polled := removeAll fd (polled w)\<rparr>"

definition sys_malloc :: "net \<Rightarrow> bool \<times> net" where
  "sys_malloc w = (let (ok, q) = pop True (mallocq w);
     w' = w\<lparr>mallocq := q\<rparr> in (ok, if ok then w'\<lparr>blocks := Suc (blocks w')\<rparr> else w'))"

definition hev_free :: "net \<Rightarrow> net option" where
  "hev_free w = (if blocks w = 0 then None else Some (w\<lparr>blocks := blocks w - 1\<rparr>))"

text \<open>The socket calls on a descriptor; on one that is not open they fail.\<close>

definition net_recv :: "int \<Rightarrow> int \<Rightarrow> nat \<Rightarrow> bool \<Rightarrow> bool \<Rightarrow> net \<Rightarrow> (int \<times> bytes \<times> net) option" where
  "net_recv timeout fd len waitall dontwait w =
     (if fd \<in> set (fds w) then do {
        (r, bs, s) \<leftarrow> hev_task_io_socket_recv (io_wait timeout) len waitall dontwait (sk w fd);
        Some (r, bs, w\<lparr>sk := (sk w)(fd := s)\<rparr>)
      } else Some (-1, [], w))"

definition net_send :: "int \<Rightarrow> int \<Rightarrow> bytes \<Rightarrow> net \<Rightarrow> (int \<times> net) option" where
  "net_send timeout fd buf w =
     (if fd \<in> set (fds w) then do {
        (r, s) \<leftarrow> hev_task_io_socket_send (io_wait timeout) buf True False (sk w fd);
        Some (r, w\<lparr>sk := (sk w)(fd := s)\<rparr>)
      } else Some (-1, w))"

definition net_sendmsg :: "int \<Rightarrow> int \<Rightarrow> bytes list \<Rightarrow> net \<Rightarrow> (int \<times> net) option" where
  "net_sendmsg timeout fd iov w =
     (if fd \<in> set (fds w) then do {
        (r, s) \<leftarrow> hev_task_io_socket_sendmsg (io_wait timeout) iov True False (sk w fd);
        Some (r, w\<lparr>sk := (sk w)(fd := s)\<rparr>)
      } else Some (-1, w))"

text \<open>A connection attempt consumes one trace of \<open>connect\<close> results; silence stays in progress.\<close>

definition net_connect :: "int \<Rightarrow> int \<Rightarrow> sockaddr6 \<Rightarrow> net \<Rightarrow> (int \<times> net) option" where
  "net_connect timeout fd sa w = do {
     let (ev, q) = pop [ConnOk] (connq w);
     (r, _) \<leftarrow> hev_task_io_socket_connect (io_wait timeout) ev;
     Some (r, w\<lparr>connq := q, conns := (if r < 0 then conns w else conns w @ [(fd, sa)])\<rparr>)
   }"

subsection \<open>Settings (hev-socks5-misc.c)\<close>

record socks5_conf =
  connect_timeout :: int
  tcp_timeout :: int
  udp_timeout :: int
  task_stack_size :: int
  udp_recv_buffer_size :: int
  udp_copy_buffer_nums :: int

definition socks5_conf_default :: socks5_conf where
  "socks5_conf_default = \<lparr>connect_timeout = 10000, tcp_timeout = 300000, udp_timeout = 60000,
     task_stack_size = 8192, udp_recv_buffer_size = 512 * 1024, udp_copy_buffer_nums = 10\<rparr>"

definition hev_socks5_set_connect_timeout :: "int \<Rightarrow> socks5_conf \<Rightarrow> socks5_conf" where
  "hev_socks5_set_connect_timeout t c = c\<lparr>connect_timeout := t\<rparr>"

definition hev_socks5_get_connect_timeout :: "socks5_conf \<Rightarrow> int" where
  "hev_socks5_get_connect_timeout c = connect_timeout c"

definition hev_socks5_set_tcp_timeout :: "int \<Rightarrow> socks5_conf \<Rightarrow> socks5_conf" where
  "hev_socks5_set_tcp_timeout t c = c\<lparr>tcp_timeout := t\<rparr>"

definition hev_socks5_get_tcp_timeout :: "socks5_conf \<Rightarrow> int" where
  "hev_socks5_get_tcp_timeout c = tcp_timeout c"

definition hev_socks5_set_udp_timeout :: "int \<Rightarrow> socks5_conf \<Rightarrow> socks5_conf" where
  "hev_socks5_set_udp_timeout t c = c\<lparr>udp_timeout := t\<rparr>"

definition hev_socks5_get_udp_timeout :: "socks5_conf \<Rightarrow> int" where
  "hev_socks5_get_udp_timeout c = udp_timeout c"

definition hev_socks5_set_task_stack_size :: "int \<Rightarrow> socks5_conf \<Rightarrow> socks5_conf" where
  "hev_socks5_set_task_stack_size n c = c\<lparr>task_stack_size := n\<rparr>"

definition hev_socks5_get_task_stack_size :: "socks5_conf \<Rightarrow> int" where
  "hev_socks5_get_task_stack_size c = task_stack_size c"

definition hev_socks5_set_udp_recv_buffer_size :: "int \<Rightarrow> socks5_conf \<Rightarrow> socks5_conf" where
  "hev_socks5_set_udp_recv_buffer_size n c = c\<lparr>udp_recv_buffer_size := n\<rparr>"

definition hev_socks5_set_udp_copy_buffer_nums :: "int \<Rightarrow> socks5_conf \<Rightarrow> socks5_conf" where
  "hev_socks5_set_udp_copy_buffer_nums n c = c\<lparr>udp_copy_buffer_nums := n\<rparr>"

definition hev_socks5_get_udp_copy_buffer_nums :: "socks5_conf \<Rightarrow> int" where
  "hev_socks5_get_udp_copy_buffer_nums c = udp_copy_buffer_nums c"

text \<open>\<open>hev_socks5_socket\<close>: a dual-stack socket of the task.\<close>

definition hev_socks5_socket :: "socks5_conf \<Rightarrow> sock_type \<Rightarrow> net \<Rightarrow> (int \<times> net) option" where
  "hev_socks5_socket conf type w = do {
     let (fd, w) = hev_task_io_socket_socket w;
     if fd < 0 then Some (-1, w)
     else do {
       let (ok, w) = sys_setsockopt w;
       if \<not> ok then do {
         w \<leftarrow> sys_close fd w;
         Some (-1, w)
       } else do {
         let (res, w) = hev_task_add_fd fd w;
         Some (fd, if type = SOCK_DGRAM
                   then w\<lparr>rcvbuf := (rcvbuf w)(fd := udp_recv_buffer_size conf)\<rparr> else w)
       }
     }
   }"

subsection \<open>The base object\<close>

datatype socks5_type =
  HEV_SOCKS5_TYPE_NONE | HEV_SOCKS5_TYPE_TCP | HEV_SOCKS5_TYPE_UDP_IN_TCP | HEV_SOCKS5_TYPE_UDP_IN_UDP

record hev_socks5 =
  s5_fd :: int
  s5_timeout :: int
  s5_udp_associated :: bool
  s5_type :: socks5_type
  s5_family :: addr_family

definition hev_socks5_get_timeout :: "'a hev_socks5_scheme \<Rightarrow> int" where
  "hev_socks5_get_timeout self = s5_timeout self"

definition hev_socks5_set_timeout :: "int \<Rightarrow> 'a hev_socks5_scheme \<Rightarrow> 'a hev_socks5_scheme" where
  "hev_socks5_set_timeout timeout self = self\<lparr>s5_timeout := timeout\<rparr>"

definition hev_socks5_get_addr_family :: "'a hev_socks5_scheme \<Rightarrow> addr_family" where
  "hev_socks5_get_addr_family self = s5_family self"

definition hev_socks5_set_addr_family :: "addr_family \<Rightarrow> 'a hev_socks5_scheme \<Rightarrow> 'a hev_socks5_scheme" where
  "hev_socks5_set_addr_family family self = self\<lparr>s5_family := family\<rparr>"

definition hev_socks5_bind :: "'a hev_socks5_scheme \<Rightarrow> int \<Rightarrow> sockaddr6 \<Rightarrow> int" where
  "hev_socks5_bind self sock dest = 0"

definition hev_socks5_construct :: "socks5_type \<Rightarrow> 'a hev_socks5_scheme \<Rightarrow> int \<times> 'a hev_socks5_scheme" where
  "hev_socks5_construct type self =
     (0, self\<lparr>s5_fd := -1, s5_timeout := -1, s5_type := type, s5_family := AF_UNSPEC\<rparr>)"

definition hev_socks5_destruct :: "'a hev_socks5_scheme \<Rightarrow> net \<Rightarrow> net option" where
  "hev_socks5_destruct self w = do {
     w \<leftarrow> (if 0 \<le> s5_fd self then sys_close (s5_fd self) (hev_task_del_fd (s5_fd self) w) else Some w);
     hev_free w
   }"

subsection \<open>Descriptor discipline\<close>

text \<open>\<open>net_ok\<close>: descriptors are open at most once and only open ones are polled.\<close>

definition net_ok :: "net \<Rightarrow> bool" where
  "net_ok w \<longleftrightarrow> distinct (fds w) \<and> (\<forall>d \<in> set (fds w). 0 \<le> d) \<and> set (polled w) \<subseteq> set (fds w)"

lemma lowest_free:
  shows "lowest_free ds \<notin> set ds" "0 \<le> lowest_free ds"
proof -
  let ?c = "map int [0..<Suc (length ds)]"
  have "\<exists>n \<in> set ?c. n \<notin> set ds"
  proof (rule ccontr)
    assume "\<not> ?thesis"
    then have "set ?c \<subseteq> set ds" by blast
    then have "card (set ?c) \<le> card (set ds)" by (intro card_mono) auto
    also have "card (set ds) \<le> length ds" by (rule card_length)
    also have "card (set ?c) = Suc (length ds)"
      by (subst distinct_card) (simp_all add: distinct_map del: upt_Suc)
    finally show False by simp
  qed
  then have "filter (\<lambda>n. n \<notin> set ds) ?c \<noteq> []" by (auto simp: filter_empty_conv)
  then have "lowest_free ds \<in> set (filter (\<lambda>n. n \<notin> set ds) ?c)"
    unfolding lowest_free_def by (rule hd_in_set)
  then show "lowest_free ds \<notin> set ds" "0 \<le> lowest_free ds" by (auto simp del: upt_Suc)
qed

lemma net_ok_fresh: "net_ok w \<Longrightarrow> lowest_free (fds w) \<notin> set (polled w)"
  using lowest_free[of "fds w"] by (auto simp: net_ok_def)

text \<open>The frame of an operation that works on descriptors: the streams, and what of the state
  differs.\<close>

definition fd_frame :: "net \<Rightarrow> net \<Rightarrow> bool" where
  "fd_frame w w' \<longleftrightarrow> sk w' = sk w \<and> conns w' = conns w \<and> connq w' = connq w \<and>
     mallocq w' = mallocq w \<and> blocks w' = blocks w"

lemma fd_frame_refl [simp]: "fd_frame w w"
  by (simp add: fd_frame_def)

text \<open>\<open>hev_socks5_socket\<close> either opens exactly one new descriptor, registered with the task, or
  leaves the descriptors as they were; it never faults.\<close>

lemma hev_socks5_socket_cases:
  assumes ok: "net_ok w"
  obtains (failed) w' where "hev_socks5_socket conf type w = Some (-1, w')"
      "fds w' = fds w" "polled w' = polled w" "fd_frame w w'"
  | (opened) fd w' where "hev_socks5_socket conf type w = Some (fd, w')" "0 \<le> fd" "fd \<notin> set (fds w)"
      "fds w' = fd # fds w" "polled w' = fd # polled w" "net_ok w'" "fd_frame w w'"
proof -
  note fresh = lowest_free[of "fds w"] and np = net_ok_fresh[OF ok]
  let ?fd = "lowest_free (fds w)"
  obtain b q where q: "pop True (socketq w) = (b, q)" by fastforce
  obtain c r where r: "pop True (sockoptq w) = (c, r)" by fastforce
  show thesis
  proof (cases "b \<and> c")
    case True
    let ?w1 = "w\<lparr>socketq := q, fds := ?fd # fds w, sockoptq := r, polled := ?fd # polled w\<rparr>"
    let ?w' = "if type = SOCK_DGRAM then ?w1\<lparr>rcvbuf := (rcvbuf ?w1)(?fd := udp_recv_buffer_size conf)\<rparr> else ?w1"
    show thesis
    proof (rule opened[of ?fd ?w'])
      show "hev_socks5_socket conf type w = Some (?fd, ?w')"
        using True q r fresh np by (simp add: hev_socks5_socket_def hev_task_io_socket_socket_def sys_setsockopt_def
            hev_task_add_fd_def Let_def)
    qed (use ok fresh np in \<open>auto simp: net_ok_def fd_frame_def\<close>)
  next
    case False
    show thesis
    proof (cases b)
      case True
      with False q r fresh show thesis
        by (intro failed[of "w\<lparr>socketq := q, sockoptq := r\<rparr>"])
          (simp_all add: hev_socks5_socket_def hev_task_io_socket_socket_def sys_setsockopt_def
            sys_close_def fd_frame_def Let_def)
    next
      case False
      with q show thesis
        by (intro failed[of "w\<lparr>socketq := q\<rparr>"])
          (simp_all add: hev_socks5_socket_def hev_task_io_socket_socket_def fd_frame_def Let_def)
    qed
  qed
qed

lemma close_opened:
  assumes "fds w = fd # D" "polled w = fd # P" "fd \<notin> set P"
  shows "\<exists>w'. sys_close fd (hev_task_del_fd fd w) = Some w' \<and> fds w' = D \<and> polled w' = P \<and> fd_frame w w'"
  using assms by (simp add: sys_close_def hev_task_del_fd_def fd_frame_def)

subsection \<open>Steps on the byte streams of a connection\<close>

abbreviation net_in :: "int \<Rightarrow> int \<Rightarrow> net \<Rightarrow> bytes" where
  "net_in t fd w \<equiv> input (io_wait t) (sk w fd)"

abbreviation net_out :: "int \<Rightarrow> net \<Rightarrow> bytes" where
  "net_out fd w \<equiv> sent (sk w fd)"

abbreviation net_tx_fine :: "int \<Rightarrow> int \<Rightarrow> net \<Rightarrow> bool" where
  "net_tx_fine t fd w \<equiv> tx_fine (io_wait t) (txq (sk w fd))"

text \<open>\<open>io_step t fd out inp w w'\<close>: on the descriptor \<open>fd\<close> the bytes \<open>out\<close> were sent and the
  bytes \<open>inp\<close> were read, and nothing else changed.\<close>

definition io_step :: "int \<Rightarrow> int \<Rightarrow> bytes \<Rightarrow> bytes \<Rightarrow> net \<Rightarrow> net \<Rightarrow> bool" where
  "io_step t fd out inp w w' \<longleftrightarrow> (\<exists>s'. w' = w\<lparr>sk := (sk w)(fd := s')\<rparr> \<and>
     sent s' = net_out fd w @ out \<and> net_in t fd w = inp @ input (io_wait t) s' \<and>
     (net_tx_fine t fd w \<longrightarrow> tx_fine (io_wait t) (txq s')))"

lemma io_step_refl [simp]: "io_step t fd [] [] w w"
  unfolding io_step_def by (rule exI[of _ "sk w fd"]) simp

lemma io_step_trans [trans]:
  "io_step t fd o1 i1 w w1 \<Longrightarrow> io_step t fd o2 i2 w1 w2 \<Longrightarrow> io_step t fd (o1 @ o2) (i1 @ i2) w w2"
  unfolding io_step_def by auto

lemma io_stepD:
  assumes "io_step t fd out inp w w'"
  shows "net_out fd w' = net_out fd w @ out" "net_in t fd w = inp @ net_in t fd w'"
    "net_tx_fine t fd w \<Longrightarrow> net_tx_fine t fd w'" "fds w' = fds w" "polled w' = polled w"
    "blocks w' = blocks w" "mallocq w' = mallocq w" "fd' \<noteq> fd \<Longrightarrow> sk w' fd' = sk w fd'"
    "\<exists>f. w' = w\<lparr>sk := f\<rparr>"
  using assms by (auto simp: io_step_def)

lemma io_step_rest: "io_step t fd out inp w w' \<Longrightarrow> net_in t fd w = inp @ rest \<Longrightarrow> net_in t fd w' = rest"
  by (auto simp: io_step_def)

lemma net_recv_step:
  assumes "fd \<in> set (fds w)" "net_in t fd w = bs @ rest" "length bs = len" "0 < len"
  shows "\<exists>w'. net_recv t fd len True False w = Some (int len, bs, w') \<and>
    io_step t fd [] bs w w' \<and> net_in t fd w' = rest"
proof -
  from recv_exact[OF assms(2-4)] obtain s'
    where r: "hev_task_io_socket_recv (io_wait t) len True False (sk w fd) = Some (int len, bs, s')"
      "input (io_wait t) s' = rest" "txq s' = txq (sk w fd)" "sent s' = sent (sk w fd)" by blast
  have "io_step t fd [] bs w (w\<lparr>sk := (sk w)(fd := s')\<rparr>)"
    unfolding io_step_def by (rule exI[of _ s']) (use assms(2) r in simp)
  with r assms(1) show ?thesis by (simp add: net_recv_def)
qed

lemma net_send_step:
  assumes "fd \<in> set (fds w)" "net_tx_fine t fd w" "buf \<noteq> []"
  shows "\<exists>w'. net_send t fd buf w = Some (int (length buf), w') \<and> io_step t fd buf [] w w'"
proof -
  from send_all[OF assms(2,3)] obtain s'
    where r: "hev_task_io_socket_send (io_wait t) buf True False (sk w fd) = Some (int (length buf), s')"
      "sent s' = sent (sk w fd) @ buf" "rxq s' = rxq (sk w fd)" "tx_fine (io_wait t) (txq s')" by blast
  have "io_step t fd buf [] w (w\<lparr>sk := (sk w)(fd := s')\<rparr>)"
    unfolding io_step_def by (rule exI[of _ s']) (use r in simp)
  with r assms(1) show ?thesis by (simp add: net_send_def)
qed

lemma net_sendmsg_eq: "net_sendmsg t fd iov w = net_send t fd (concat iov) w"
  by (simp add: net_sendmsg_def net_send_def sendmsg_eq_send)

text \<open>What holds of every environment: a write sends a prefix and leaves the input alone, a full
  read takes exactly the next bytes.\<close>

lemma net_send_any:
  assumes "net_send t fd buf w = Some (r, w')"
  shows "\<exists>f. w' = w\<lparr>sk := f\<rparr>" "net_in t fd w' = net_in t fd w"
    "\<exists>k. net_out fd w' = net_out fd w @ take k buf"
  using assms send_prefix[of "io_wait t" buf True False "sk w fd" r]
  by (auto simp: net_send_def Option.bind_eq_Some_conv split: if_splits intro: exI[of _ "sk w"])

lemma net_recv_any:
  assumes "net_recv t fd len True False w = Some (r, bs, w')" "0 < len"
  shows "\<exists>f. w' = w\<lparr>sk := f\<rparr>" "net_out fd w' = net_out fd w"
    "r = int len \<Longrightarrow> length bs = len \<and> net_in t fd w = bs @ net_in t fd w'"
  using assms recv_sound[of "io_wait t" len "sk w fd" r bs]
  by (auto simp: net_recv_def Option.bind_eq_Some_conv split: if_splits intro: exI[of _ "sk w"])

end
