(* ===== verification/Socks5Client.thy ===== *)
theory Socks5Client
  imports Socks5
begin

section \<open>SOCKS5 client (core hev-socks5-client.c, -client-tcp.c, -client-udp.c)\<close>

text \<open>
  The client side of the protocol: connecting to the proxy, the greeting, the user/password
  sub-negotiation of RFC 1929, the request and the reply, in the order "standard" (wait for
  each answer) or "pipeline" (write everything, then read). The classes \<open>HevSocks5ClientTCP\<close>
  and \<open>HevSocks5ClientUDP\<close> supply the address of the request and consume the address of the
  reply; their methods are the fields of \<open>client_class\<close>.

  The locale \<open>upstream_class\<close> is the contract between the handshake and those methods. Its
  lemmas say which bytes a handshake writes, which it reads, and conversely what a successful
  handshake proves about what the proxy sent.
\<close>

subsection \<open>State\<close>

record hev_socks5_client = hev_socks5 +
  auth_user :: "bytes option"
  auth_pass :: "bytes option"

record 'c client_class =
  cl_binder :: "'c \<Rightarrow> int \<Rightarrow> sockaddr6 \<Rightarrow> int"
  cl_get_upstream_addr :: "'c \<Rightarrow> net \<Rightarrow> bytes option \<times> 'c \<times> net"
  cl_set_upstream_addr :: "'c \<Rightarrow> bytes \<Rightarrow> net \<Rightarrow> (int \<times> 'c \<times> net) option"

abbreviation (input) HEV_SOCKS5_VERSION_5 :: u8 where "HEV_SOCKS5_VERSION_5 \<equiv> 5"
abbreviation (input) HEV_SOCKS5_AUTH_METHOD_NONE :: u8 where "HEV_SOCKS5_AUTH_METHOD_NONE \<equiv> 0"
abbreviation (input) HEV_SOCKS5_AUTH_METHOD_USER :: u8 where "HEV_SOCKS5_AUTH_METHOD_USER \<equiv> 2"
abbreviation (input) HEV_SOCKS5_AUTH_VERSION_1 :: u8 where "HEV_SOCKS5_AUTH_VERSION_1 \<equiv> 1"
abbreviation (input) HEV_SOCKS5_REQ_CMD_CONNECT :: u8 where "HEV_SOCKS5_REQ_CMD_CONNECT \<equiv> 1"
abbreviation (input) HEV_SOCKS5_REQ_CMD_UDP_ASC :: u8 where "HEV_SOCKS5_REQ_CMD_UDP_ASC \<equiv> 3"
abbreviation (input) HEV_SOCKS5_REQ_CMD_FWD_UDP :: u8 where "HEV_SOCKS5_REQ_CMD_FWD_UDP \<equiv> 5"
abbreviation (input) HEV_SOCKS5_RES_REP_SUCC :: u8 where "HEV_SOCKS5_RES_REP_SUCC \<equiv> 0"

subsection \<open>Writing\<close>

definition hev_socks5_client_write_auth_methods ::
  "'a hev_socks5_client_scheme \<Rightarrow> net \<Rightarrow> (int \<times> net) option" where
  "hev_socks5_client_write_auth_methods self w = do {
     let method = (if auth_user self = None \<or> auth_pass self = None
                   then HEV_SOCKS5_AUTH_METHOD_NONE else HEV_SOCKS5_AUTH_METHOD_USER);
     (res, w) \<leftarrow> net_send (s5_timeout self) (s5_fd self) [HEV_SOCKS5_VERSION_5, 1, method] w;
     if res \<le> 0 then Some (-1, w) else Some (0, w)
   }"

definition hev_socks5_client_write_auth_creds ::
  "'a hev_socks5_client_scheme \<Rightarrow> net \<Rightarrow> (int \<times> net) option" where
  "hev_socks5_client_write_auth_creds self w =
     (case (auth_user self, auth_pass self) of
        (Some user, Some pass) \<Rightarrow> do {
          let ub1 = (word_of_nat (length user) :: u8);
          let ub2 = (word_of_nat (length pass) :: u8);
          (res, w) \<leftarrow> net_sendmsg (s5_timeout self) (s5_fd self)
            [[HEV_SOCKS5_AUTH_VERSION_1, ub1], take (unat ub1) user, [ub2], take (unat ub2) pass] w;
          if res \<le> 0 then Some (-1, w) else Some (0, w)
        }
      | _ \<Rightarrow> Some (0, w))"

fun request_cmd :: "socks5_type \<Rightarrow> u8 option" where
  "request_cmd HEV_SOCKS5_TYPE_TCP = Some HEV_SOCKS5_REQ_CMD_CONNECT"
| "request_cmd HEV_SOCKS5_TYPE_UDP_IN_TCP = Some HEV_SOCKS5_REQ_CMD_FWD_UDP"
| "request_cmd HEV_SOCKS5_TYPE_UDP_IN_UDP = Some HEV_SOCKS5_REQ_CMD_UDP_ASC"
| "request_cmd HEV_SOCKS5_TYPE_NONE = None"

text \<open>A NULL upstream address is dereferenced. The address is freed only on success.\<close>

definition hev_socks5_client_write_request ::
  "('a hev_socks5_client_scheme) client_class \<Rightarrow> 'a hev_socks5_client_scheme \<Rightarrow> net \<Rightarrow>
    (int \<times> 'a hev_socks5_client_scheme \<times> net) option" where
  "hev_socks5_client_write_request klass self w =
     (case request_cmd (s5_type self) of
        None \<Rightarrow> Some (-1, self, w)
      | Some cmd \<Rightarrow> do {
          let (addr, self, w) = cl_get_upstream_addr klass self w;
          addr \<leftarrow> addr;
          addrlen \<leftarrow> hev_socks5_addr_len addr;
          if addrlen < 0 then Some (-1, self, w)
          else do {
            body \<leftarrow> rd addr 0 (nat addrlen);
            (ret, w) \<leftarrow> net_sendmsg (s5_timeout self) (s5_fd self)
              [[HEV_SOCKS5_VERSION_5, cmd, 0], body] w;
            if ret \<le> 0 then Some (-1, self, w)
            else do {
              w \<leftarrow> hev_free w;
              Some (0, self, w)
            }
          }
        })"

subsection \<open>Reading\<close>

definition hev_socks5_client_read_auth_method ::
  "'a hev_socks5_client_scheme \<Rightarrow> net \<Rightarrow> (int \<times> net) option" where
  "hev_socks5_client_read_auth_method self w = do {
     (res, auth, w) \<leftarrow> net_recv (s5_timeout self) (s5_fd self) 2 True False w;
     if res \<noteq> 2 then Some (-1, w)
     else if auth ! 0 \<noteq> HEV_SOCKS5_VERSION_5 then Some (-1, w)
     else Some (uint (auth ! 1), w)
   }"

definition hev_socks5_client_read_auth_creds ::
  "'a hev_socks5_client_scheme \<Rightarrow> net \<Rightarrow> (int \<times> net) option" where
  "hev_socks5_client_read_auth_creds self w = do {
     (ret, res, w) \<leftarrow> net_recv (s5_timeout self) (s5_fd self) 2 True False w;
     if ret \<noteq> 2 then Some (-1, w)
     else if res ! 0 \<noteq> HEV_SOCKS5_AUTH_VERSION_1 then Some (-1, w)
     else if res ! 1 \<noteq> HEV_SOCKS5_RES_REP_SUCC then Some (-1, w)
     else Some (0, w)
   }"

text \<open>The reply is read in two pieces; only IP addresses are accepted. What the second piece
  stores behind the type byte is handed to the class as an address.\<close>

definition hev_socks5_client_read_response ::
  "('a hev_socks5_client_scheme) client_class \<Rightarrow> 'a hev_socks5_client_scheme \<Rightarrow> net \<Rightarrow>
    (int \<times> 'a hev_socks5_client_scheme \<times> net) option" where
  "hev_socks5_client_read_response klass self w = do {
     (ret, res, w) \<leftarrow> net_recv (s5_timeout self) (s5_fd self) 4 True False w;
     if ret \<noteq> 4 then Some (-1, self, w)
     else if res ! 0 \<noteq> HEV_SOCKS5_VERSION_5 then Some (-1, self, w)
     else if res ! 1 \<noteq> HEV_SOCKS5_RES_REP_SUCC then Some (-1, self, w)
     else let atype = res ! 3 in
       if atype \<noteq> HEV_SOCKS5_ADDR_TYPE_IPV4 \<and> atype \<noteq> HEV_SOCKS5_ADDR_TYPE_IPV6
       then Some (-1, self, w)
       else do {
         let addrlen = (if atype = HEV_SOCKS5_ADDR_TYPE_IPV4 then 6 else 18);
         (ret, rest, w) \<leftarrow> net_recv (s5_timeout self) (s5_fd self) addrlen True False w;
         if ret \<noteq> int addrlen then Some (-1, self, w)
         else do {
           (ret, self, w) \<leftarrow> cl_set_upstream_addr klass self (atype # rest) w;
           if ret < 0 then Some (-1, self, w) else Some (0, self, w)
         }
       }
   }"

subsection \<open>Connect and handshake\<close>

definition hev_socks5_client_connect ::
  "resolver \<Rightarrow> socks5_conf \<Rightarrow> ('a hev_socks5_client_scheme) client_class \<Rightarrow> bytes \<Rightarrow> int \<Rightarrow>
    'a hev_socks5_client_scheme \<Rightarrow> net \<Rightarrow> (int \<times> 'a hev_socks5_client_scheme \<times> net) option" where
  "hev_socks5_client_connect R conf klass addr port self w = do {
     let self = hev_socks5_set_timeout (hev_socks5_get_connect_timeout conf) self;
     let addr_family = hev_socks5_get_addr_family self;
     (res, saddr, addr_family) \<leftarrow> hev_socks5_name_into_sockaddr6 R addr port sockaddr6_zero addr_family;
     if res < 0 then Some (-1, self, w)
     else do {
       (fd, w) \<leftarrow> hev_socks5_socket conf SOCK_STREAM w;
       if fd < 0 then Some (-1, self, w)
       else if cl_binder klass self fd saddr < 0 then do {
         w \<leftarrow> sys_close fd (hev_task_del_fd fd w);
         Some (-1, self, w)
       } else do {
         (res, w) \<leftarrow> net_connect (s5_timeout self) fd saddr w;
         if res < 0 then do {
           w \<leftarrow> sys_close fd (hev_task_del_fd fd w);
           Some (-1, self, w)
         } else Some (0, hev_socks5_set_addr_family addr_family (self\<lparr>s5_fd := fd\<rparr>), w)
       }
     }
   }"

definition hev_socks5_client_handshake_standard ::
  "('a hev_socks5_client_scheme) client_class \<Rightarrow> 'a hev_socks5_client_scheme \<Rightarrow> net \<Rightarrow>
    (int \<times> 'a hev_socks5_client_scheme \<times> net) option" where
  "hev_socks5_client_handshake_standard klass self w = do {
     (res, w) \<leftarrow> hev_socks5_client_write_auth_methods self w;
     if res < 0 then Some (-1, self, w) else do {
     (res, w) \<leftarrow> hev_socks5_client_read_auth_method self w;
     if res < 0 then Some (-1, self, w) else do {
     (res, w) \<leftarrow>
       (if res = uint (HEV_SOCKS5_AUTH_METHOD_USER :: u8) then do {
          (res, w) \<leftarrow> hev_socks5_client_write_auth_creds self w;
          if res < 0 then Some (-1, w) else hev_socks5_client_read_auth_creds self w
        } else if res \<noteq> uint (HEV_SOCKS5_AUTH_METHOD_NONE :: u8) then Some (-1, w)
        else Some (0, w));
     if res < 0 then Some (-1, self, w) else do {
     (res, self, w) \<leftarrow> hev_socks5_client_write_request klass self w;
     if res < 0 then Some (-1, self, w) else do {
     (res, self, w) \<leftarrow> hev_socks5_client_read_response klass self w;
     if res < 0 then Some (-1, self, w) else Some (0, self, w) }}}}
   }"

definition hev_socks5_client_handshake_pipeline ::
  "('a hev_socks5_client_scheme) client_class \<Rightarrow> 'a hev_socks5_client_scheme \<Rightarrow> net \<Rightarrow>
    (int \<times> 'a hev_socks5_client_scheme \<times> net) option" where
  "hev_socks5_client_handshake_pipeline klass self w = do {
     (res, w) \<leftarrow> hev_socks5_client_write_auth_methods self w;
     if res < 0 then Some (-1, self, w) else do {
     (res, w) \<leftarrow> hev_socks5_client_write_auth_creds self w;
     if res < 0 then Some (-1, self, w) else do {
     (res, self, w) \<leftarrow> hev_socks5_client_write_request klass self w;
     if res < 0 then Some (-1, self, w) else do {
     (res, w) \<leftarrow> hev_socks5_client_read_auth_method self w;
     if res < 0 then Some (-1, self, w) else do {
     (res, w) \<leftarrow>
       (if res = uint (HEV_SOCKS5_AUTH_METHOD_USER :: u8) then hev_socks5_client_read_auth_creds self w
        else if res \<noteq> uint (HEV_SOCKS5_AUTH_METHOD_NONE :: u8) then Some (-1, w)
        else Some (0, w));
     if res < 0 then Some (-1, self, w) else do {
     (res, self, w) \<leftarrow> hev_socks5_client_read_response klass self w;
     if res < 0 then Some (-1, self, w) else Some (0, self, w) }}}}}
   }"

definition hev_socks5_client_handshake ::
  "socks5_conf \<Rightarrow> ('a hev_socks5_client_scheme) client_class \<Rightarrow> bool \<Rightarrow>
    'a hev_socks5_client_scheme \<Rightarrow> net \<Rightarrow> (int \<times> 'a hev_socks5_client_scheme \<times> net) option" where
  "hev_socks5_client_handshake conf klass pipeline self w = do {
     let self = hev_socks5_set_timeout (hev_socks5_get_tcp_timeout conf) self;
     (res, self, w) \<leftarrow>
       (if pipeline then hev_socks5_client_handshake_pipeline klass self w
        else hev_socks5_client_handshake_standard klass self w);
     Some (res,
       if s5_type self = HEV_SOCKS5_TYPE_UDP_IN_TCP \<or> s5_type self = HEV_SOCKS5_TYPE_UDP_IN_UDP
       then hev_socks5_set_timeout (hev_socks5_get_udp_timeout conf) self else self, w)
   }"

definition hev_socks5_client_set_auth ::
  "bytes option \<Rightarrow> bytes option \<Rightarrow> 'a hev_socks5_client_scheme \<Rightarrow> 'a hev_socks5_client_scheme" where
  "hev_socks5_client_set_auth user pass self = self\<lparr>auth_user := user, auth_pass := pass\<rparr>"

definition hev_socks5_client_construct ::
  "socks5_type \<Rightarrow> 'a hev_socks5_client_scheme \<Rightarrow> int \<times> 'a hev_socks5_client_scheme" where
  "hev_socks5_client_construct type self =
     (let (res, self) = hev_socks5_construct type self
      in if res < 0 then (res, self) else (0, self))"

definition hev_socks5_client_destruct :: "'a hev_socks5_client_scheme \<Rightarrow> net \<Rightarrow> net option" where
  "hev_socks5_client_destruct self w = hev_socks5_destruct self w"

subsection \<open>The TCP client (hev-socks5-client-tcp.c)\<close>

record hev_socks5_client_tcp = hev_socks5_client +
  tcp_addr :: "bytes option"

definition client_tcp_zero :: hev_socks5_client_tcp where
  "client_tcp_zero = \<lparr>s5_fd = 0, s5_timeout = 0, s5_udp_associated = False,
     s5_type = HEV_SOCKS5_TYPE_NONE, s5_family = AF_UNSPEC, auth_user = None, auth_pass = None,
     tcp_addr = None\<rparr>"

definition hev_socks5_client_tcp_get_upstream_addr ::
  "'a hev_socks5_client_tcp_scheme \<Rightarrow> net \<Rightarrow> bytes option \<times> 'a hev_socks5_client_tcp_scheme \<times> net" where
  "hev_socks5_client_tcp_get_upstream_addr self w = (tcp_addr self, self\<lparr>tcp_addr := None\<rparr>, w)"

definition hev_socks5_client_tcp_set_upstream_addr ::
  "'a hev_socks5_client_tcp_scheme \<Rightarrow> bytes \<Rightarrow> net \<Rightarrow> (int \<times> 'a hev_socks5_client_tcp_scheme \<times> net) option" where
  "hev_socks5_client_tcp_set_upstream_addr self addr w = Some (0, self, w)"

text \<open>\<open>malloc (-1)\<close>, the request for an address of unknown type, fails.\<close>

definition hev_socks5_client_tcp_construct ::
  "'a hev_socks5_client_tcp_scheme \<Rightarrow> bytes \<Rightarrow> net \<Rightarrow> (int \<times> 'a hev_socks5_client_tcp_scheme \<times> net) option" where
  "hev_socks5_client_tcp_construct self addr w = do {
     let (res, self) = hev_socks5_client_construct HEV_SOCKS5_TYPE_TCP self;
     if res < 0 then Some (res, self, w)
     else do {
       res \<leftarrow> hev_socks5_addr_len addr;
       let (ok, w) = (if res < 0 then (False, w) else sys_malloc w);
       if \<not> ok then Some (-1, self\<lparr>tcp_addr := None\<rparr>, w)
       else do {
         copy \<leftarrow> rd addr 0 (nat res);
         Some (0, self\<lparr>tcp_addr := Some copy\<rparr>, w)
       }
     }
   }"

text \<open>The common part of the three constructors: \<open>addr\<close> is the local address object filled by
  one of the \<open>hev_socks5_addr_from\<close> functions.\<close>

definition client_tcp_new ::
  "(int \<times> bytes) option \<Rightarrow> net \<Rightarrow> (hev_socks5_client_tcp option \<times> net) option" where
  "client_tcp_new addr w = do {
     let (ok, w) = sys_malloc w;
     if \<not> ok then Some (None, w)
     else do {
       (_, addr) \<leftarrow> addr;
       (res, self, w) \<leftarrow> hev_socks5_client_tcp_construct client_tcp_zero addr w;
       if res < 0 then do {
         w \<leftarrow> hev_free w;
         Some (None, w)
       } else Some (Some self, w)
     }
   }"

definition hev_socks5_client_tcp_new_name ::
  "bytes \<Rightarrow> bytes \<Rightarrow> int \<Rightarrow> net \<Rightarrow> (hev_socks5_client_tcp option \<times> net) option" where
  "hev_socks5_client_tcp_new_name stack name port = client_tcp_new (hev_socks5_addr_from_name stack name port)"

definition hev_socks5_client_tcp_new_ipv4 ::
  "bytes \<Rightarrow> bytes \<Rightarrow> int \<Rightarrow> net \<Rightarrow> (hev_socks5_client_tcp option \<times> net) option" where
  "hev_socks5_client_tcp_new_ipv4 stack ipv4 port = client_tcp_new (hev_socks5_addr_from_ipv4 stack ipv4 port)"

definition hev_socks5_client_tcp_new_ipv6 ::
  "bytes \<Rightarrow> bytes \<Rightarrow> int \<Rightarrow> net \<Rightarrow> (hev_socks5_client_tcp option \<times> net) option" where
  "hev_socks5_client_tcp_new_ipv6 stack ipv6 port = client_tcp_new (hev_socks5_addr_from_ipv6 stack ipv6 port)"

definition hev_socks5_client_tcp_destruct :: "'a hev_socks5_client_tcp_scheme \<Rightarrow> net \<Rightarrow> net option" where
  "hev_socks5_client_tcp_destruct self w = do {
     w \<leftarrow> (case tcp_addr self of Some _ \<Rightarrow> hev_free w | None \<Rightarrow> Some w);
     hev_socks5_client_destruct self w
   }"

definition hev_socks5_client_tcp_class :: "('a hev_socks5_client_tcp_scheme) client_class" where
  "hev_socks5_client_tcp_class = \<lparr>cl_binder = hev_socks5_bind,
     cl_get_upstream_addr = hev_socks5_client_tcp_get_upstream_addr,
     cl_set_upstream_addr = hev_socks5_client_tcp_set_upstream_addr\<rparr>"

subsection \<open>The UDP client (hev-socks5-client-udp.c)\<close>

record hev_socks5_client_udp = hev_socks5_client +
  udp_fd :: int

definition client_udp_zero :: hev_socks5_client_udp where
  "client_udp_zero = \<lparr>s5_fd = 0, s5_timeout = 0, s5_udp_associated = False,
     s5_type = HEV_SOCKS5_TYPE_NONE, s5_family = AF_UNSPEC, auth_user = None, auth_pass = None,
     udp_fd = 0\<rparr>"

text \<open>The request of a UDP client carries the unspecified address of the family of the
  connection to the proxy; without a family there is no address.\<close>

definition hev_socks5_client_udp_get_upstream_addr ::
  "'a hev_socks5_client_udp_scheme \<Rightarrow> net \<Rightarrow> bytes option \<times> 'a hev_socks5_client_udp_scheme \<times> net" where
  "hev_socks5_client_udp_get_upstream_addr self w =
     (case hev_socks5_get_addr_family self of
        AF_INET \<Rightarrow> (let (ok, w) = sys_malloc w
          in (if ok then Some (HEV_SOCKS5_ADDR_TYPE_IPV4 # replicate 6 0) else None, self, w))
      | AF_INET6 \<Rightarrow> (let (ok, w) = sys_malloc w
          in (if ok then Some (HEV_SOCKS5_ADDR_TYPE_IPV6 # replicate 18 0) else None, self, w))
      | AF_UNSPEC \<Rightarrow> (None, self, w))"

definition hev_socks5_client_udp_set_upstream_addr ::
  "resolver \<Rightarrow> socks5_conf \<Rightarrow> ('a hev_socks5_client_udp_scheme \<Rightarrow> int \<Rightarrow> sockaddr6 \<Rightarrow> int) \<Rightarrow>
    'a hev_socks5_client_udp_scheme \<Rightarrow> bytes \<Rightarrow> net \<Rightarrow> (int \<times> 'a hev_socks5_client_udp_scheme \<times> net) option" where
  "hev_socks5_client_udp_set_upstream_addr R conf binder self addr w =
     (if s5_type self \<noteq> HEV_SOCKS5_TYPE_UDP_IN_UDP then Some (0, self, w)
      else do {
        let addr_family = hev_socks5_get_addr_family self;
        (res, saddr, addr_family) \<leftarrow> hev_socks5_addr_into_sockaddr6 R addr sockaddr6_zero addr_family;
        if res < 0 then Some (-1, self, w)
        else do {
          (fd, w) \<leftarrow> hev_socks5_socket conf SOCK_DGRAM w;
          if fd < 0 then Some (-1, self, w)
          else if binder self fd saddr < 0 then do {
            w \<leftarrow> sys_close fd (hev_task_del_fd fd w);
            Some (-1, self, w)
          } else do {
            (res, w) \<leftarrow> net_connect (s5_timeout self) fd saddr w;
            if res < 0 then do {
              w \<leftarrow> sys_close fd (hev_task_del_fd fd w);
              Some (-1, self, w)
            } else Some (0, self\<lparr>s5_udp_associated := True, udp_fd := fd\<rparr>, w)
          }
        }
      })"

definition hev_socks5_client_udp_get_fd :: "'a hev_socks5_client_udp_scheme \<Rightarrow> int" where
  "hev_socks5_client_udp_get_fd self =
     (case s5_type self of
        HEV_SOCKS5_TYPE_UDP_IN_TCP \<Rightarrow> s5_fd self
      | HEV_SOCKS5_TYPE_UDP_IN_UDP \<Rightarrow> udp_fd self
      | _ \<Rightarrow> -1)"

definition hev_socks5_client_udp_construct ::
  "socks5_type \<Rightarrow> 'a hev_socks5_client_udp_scheme \<Rightarrow> int \<times> 'a hev_socks5_client_udp_scheme" where
  "hev_socks5_client_udp_construct type self =
     (let (res, self) = hev_socks5_client_construct type self
      in if res < 0 then (res, self) else (0, self\<lparr>udp_fd := -1\<rparr>))"

definition hev_socks5_client_udp_new :: "socks5_type \<Rightarrow> net \<Rightarrow> (hev_socks5_client_udp option \<times> net) option" where
  "hev_socks5_client_udp_new type w = do {
     let (ok, w) = sys_malloc w;
     if \<not> ok then Some (None, w)
     else do {
       let (res, self) = hev_socks5_client_udp_construct type client_udp_zero;
       if res < 0 then do {
         w \<leftarrow> hev_free w;
         Some (None, w)
       } else Some (Some self, w)
     }
   }"

definition hev_socks5_client_udp_destruct :: "'a hev_socks5_client_udp_scheme \<Rightarrow> net \<Rightarrow> net option" where
  "hev_socks5_client_udp_destruct self w = do {
     w \<leftarrow> (if 0 \<le> udp_fd self then sys_close (udp_fd self) (hev_task_del_fd (udp_fd self) w) else Some w);
     hev_socks5_client_destruct self w
   }"

definition hev_socks5_client_udp_class ::
  "resolver \<Rightarrow> socks5_conf \<Rightarrow> ('a hev_socks5_client_udp_scheme \<Rightarrow> int \<Rightarrow> sockaddr6 \<Rightarrow> int) \<Rightarrow>
    ('a hev_socks5_client_udp_scheme) client_class" where
  "hev_socks5_client_udp_class R conf binder = \<lparr>cl_binder = binder,
     cl_get_upstream_addr = hev_socks5_client_udp_get_upstream_addr,
     cl_set_upstream_addr = hev_socks5_client_udp_set_upstream_addr R conf binder\<rparr>"

subsection \<open>Messages of the protocol\<close>

definition has_creds :: "'a hev_socks5_client_scheme \<Rightarrow> bool" where
  "has_creds c \<longleftrightarrow> auth_user c \<noteq> None \<and> auth_pass c \<noteq> None"

definition creds_ok :: "'a hev_socks5_client_scheme \<Rightarrow> bool" where
  "creds_ok c \<longleftrightarrow> (\<forall>u. auth_user c = Some u \<longrightarrow> length u < 256) \<and>
     (\<forall>p. auth_pass c = Some p \<longrightarrow> length p < 256)"

definition greeting_msg :: "'a hev_socks5_client_scheme \<Rightarrow> bytes" where
  "greeting_msg c = [5, 1, if has_creds c then 2 else 0]"

definition creds_msg :: "'a hev_socks5_client_scheme \<Rightarrow> bytes" where
  "creds_msg c = (case (auth_user c, auth_pass c) of
     (Some u, Some p) \<Rightarrow> 1 # word_of_nat (length u) # u @ word_of_nat (length p) # p
   | _ \<Rightarrow> [])"

definition request_msg :: "u8 \<Rightarrow> socks_addr \<Rightarrow> bytes" where
  "request_msg cmd a = [5, cmd, 0] @ encode_addr a"

text \<open>What a proxy answers to a greeting it accepts with method \<open>m\<close>, and to a request.\<close>

definition auth_reply :: "u8 \<Rightarrow> bytes" where
  "auth_reply m = [5, m] @ (if m = 2 then [1, 0] else [])"

definition request_reply :: "u8 \<Rightarrow> socks_addr \<Rightarrow> bytes" where
  "request_reply z b = [5, 0, z] @ encode_addr b"

fun is_ip :: "socks_addr \<Rightarrow> bool" where
  "is_ip (SA_Name n p) = False"
| "is_ip a = wf_addr a"

definition same_conn :: "'a hev_socks5_client_scheme \<Rightarrow> 'a hev_socks5_client_scheme \<Rightarrow> bool" where
  "same_conn c c' \<longleftrightarrow> s5_fd c' = s5_fd c \<and> s5_timeout c' = s5_timeout c \<and> s5_type c' = s5_type c \<and>
     auth_user c' = auth_user c \<and> auth_pass c' = auth_pass c \<and> s5_family c' = s5_family c"

lemma same_conn_refl [simp]: "same_conn c c"
  by (simp add: same_conn_def)

text \<open>Like \<open>io_step\<close>, for steps that may also allocate.\<close>

definition conn_step :: "int \<Rightarrow> int \<Rightarrow> bytes \<Rightarrow> bytes \<Rightarrow> net \<Rightarrow> net \<Rightarrow> bool" where
  "conn_step t fd out inp w w' \<longleftrightarrow> net_out fd w' = net_out fd w @ out \<and>
     net_in t fd w = inp @ net_in t fd w' \<and> (net_tx_fine t fd w \<longrightarrow> net_tx_fine t fd w') \<and>
     fds w' = fds w \<and> polled w' = polled w \<and> (\<forall>d. d \<noteq> fd \<longrightarrow> sk w' d = sk w d)"

lemma io_step_conn: "io_step t fd out inp w w' \<Longrightarrow> conn_step t fd out inp w w'"
  by (auto simp: io_step_def conn_step_def)

lemma conn_step_trans [trans]:
  "conn_step t fd o1 i1 w w1 \<Longrightarrow> conn_step t fd o2 i2 w1 w2 \<Longrightarrow> conn_step t fd (o1 @ o2) (i1 @ i2) w w2"
  unfolding conn_step_def by auto

subsection \<open>The steps of the handshake\<close>

lemma write_auth_methods_step:
  assumes "s5_fd c \<in> set (fds w)" "net_tx_fine (s5_timeout c) (s5_fd c) w"
  shows "\<exists>w'. hev_socks5_client_write_auth_methods c w = Some (0, w') \<and>
    io_step (s5_timeout c) (s5_fd c) (greeting_msg c) [] w w'"
proof -
  have "\<exists>w'. net_send (s5_timeout c) (s5_fd c) (greeting_msg c) w
      = Some (int (length (greeting_msg c)), w') \<and> io_step (s5_timeout c) (s5_fd c) (greeting_msg c) [] w w'"
    using assms by (intro net_send_step) (simp_all add: greeting_msg_def)
  then show ?thesis
    by (auto simp: hev_socks5_client_write_auth_methods_def greeting_msg_def has_creds_def)
qed

lemma write_auth_creds_step:
  assumes "s5_fd c \<in> set (fds w)" "net_tx_fine (s5_timeout c) (s5_fd c) w" "creds_ok c"
  shows "\<exists>w'. hev_socks5_client_write_auth_creds c w = Some (0, w') \<and>
    io_step (s5_timeout c) (s5_fd c) (creds_msg c) [] w w'"
proof (cases "auth_user c")
  case (Some u)
  show ?thesis
  proof (cases "auth_pass c")
    case (Some p)
    with \<open>auth_user c = Some u\<close> assms(3) have len: "length u < 256" "length p < 256"
      by (auto simp: creds_ok_def)
    have "creds_msg c = concat [[1, word_of_nat (length u)], u, [word_of_nat (length p)], p]"
      using Some \<open>auth_user c = Some u\<close> by (simp add: creds_msg_def)
    with net_send_step[OF assms(1,2), of "creds_msg c"] Some \<open>auth_user c = Some u\<close> show ?thesis
      by (auto simp: hev_socks5_client_write_auth_creds_def net_sendmsg_eq unat_len_byte[OF len(1)]
          unat_len_byte[OF len(2)])
  next
    case None
    with \<open>auth_user c = Some u\<close> show ?thesis
      by (auto simp: hev_socks5_client_write_auth_creds_def creds_msg_def)
  qed
qed (auto simp: hev_socks5_client_write_auth_creds_def creds_msg_def)

lemma read_auth_method_step:
  assumes "s5_fd c \<in> set (fds w)" "net_in (s5_timeout c) (s5_fd c) w = [5, m] @ rest"
  shows "\<exists>w'. hev_socks5_client_read_auth_method c w = Some (uint m, w') \<and>
    io_step (s5_timeout c) (s5_fd c) [] [5, m] w w'"
  using net_recv_step[OF assms, of 2]
  by (auto simp: hev_socks5_client_read_auth_method_def)

lemma read_auth_creds_step:
  assumes "s5_fd c \<in> set (fds w)" "net_in (s5_timeout c) (s5_fd c) w = [1, 0] @ rest"
  shows "\<exists>w'. hev_socks5_client_read_auth_creds c w = Some (0, w') \<and>
    io_step (s5_timeout c) (s5_fd c) [] [1, 0] w w'"
  using net_recv_step[OF assms, of 2]
  by (auto simp: hev_socks5_client_read_auth_creds_def)

text \<open>The sub-negotiation part of either handshake, for the value \<open>m\<close> of the method the proxy chose.\<close>

definition subneg_standard ::
  "int \<Rightarrow> 'a hev_socks5_client_scheme \<Rightarrow> net \<Rightarrow> (int \<times> net) option" where
  "subneg_standard m c w =
     (if m = uint (HEV_SOCKS5_AUTH_METHOD_USER :: u8) then do {
        (res, w) \<leftarrow> hev_socks5_client_write_auth_creds c w;
        if res < 0 then Some (-1, w) else hev_socks5_client_read_auth_creds c w
      } else if m \<noteq> uint (HEV_SOCKS5_AUTH_METHOD_NONE :: u8) then Some (-1, w)
      else Some (0, w))"

definition subneg_pipeline ::
  "int \<Rightarrow> 'a hev_socks5_client_scheme \<Rightarrow> net \<Rightarrow> (int \<times> net) option" where
  "subneg_pipeline m c w =
     (if m = uint (HEV_SOCKS5_AUTH_METHOD_USER :: u8) then hev_socks5_client_read_auth_creds c w
      else if m \<noteq> uint (HEV_SOCKS5_AUTH_METHOD_NONE :: u8) then Some (-1, w)
      else Some (0, w))"

definition subneg_reply :: "u8 \<Rightarrow> bytes" where
  "subneg_reply m = (if m = 2 then [1, 0] else [])"

lemma auth_reply_split: "auth_reply m = [5, m] @ subneg_reply m"
  by (simp add: auth_reply_def subneg_reply_def)

lemma subneg_standard_step:
  assumes fd: "s5_fd c \<in> set (fds w)" "net_tx_fine (s5_timeout c) (s5_fd c) w"
    and m: "m = 0 \<or> m = 2 \<and> creds_ok c"
    and inp: "net_in (s5_timeout c) (s5_fd c) w = subneg_reply m @ rest"
  shows "\<exists>w'. subneg_standard (uint m) c w = Some (0, w') \<and>
    io_step (s5_timeout c) (s5_fd c) (if m = 2 then creds_msg c else []) (subneg_reply m) w w'"
proof (cases "m = 2")
  case True
  with m have "creds_ok c" by simp
  from write_auth_creds_step[OF fd this] obtain v
    where v: "hev_socks5_client_write_auth_creds c w = Some (0, v)"
      "io_step (s5_timeout c) (s5_fd c) (creds_msg c) [] w v" by blast
  have "net_in (s5_timeout c) (s5_fd c) v = [1, 0] @ rest"
    using io_step_rest[OF v(2), of "[1, 0] @ rest"] inp True by (simp add: subneg_reply_def)
  with read_auth_creds_step[of c v rest] fd io_stepD(4)[OF v(2)] obtain v'
    where v': "hev_socks5_client_read_auth_creds c v = Some (0, v')"
      "io_step (s5_timeout c) (s5_fd c) [] [1, 0] v v'" by auto
  with v(1) io_step_trans[OF v(2) v'(2)] True show ?thesis by (simp add: subneg_reply_def subneg_standard_def)
next
  case False
  with m show ?thesis by (simp add: subneg_reply_def subneg_standard_def)
qed

lemma subneg_pipeline_step:
  assumes fd: "s5_fd c \<in> set (fds w)" and m: "m = 0 \<or> m = 2"
    and inp: "net_in (s5_timeout c) (s5_fd c) w = subneg_reply m @ rest"
  shows "\<exists>w'. subneg_pipeline (uint m) c w = Some (0, w') \<and>
    io_step (s5_timeout c) (s5_fd c) [] (subneg_reply m) w w'"
  using read_auth_creds_step[OF fd, of rest] m inp by (auto simp: subneg_reply_def subneg_pipeline_def)

definition finish :: "int \<times> 'c \<times> net \<Rightarrow> (int \<times> 'c \<times> net) option" where
  "finish = (\<lambda>(r, c, w). if r < 0 then Some (-1, c, w) else Some (0, c, w))"

lemma finish_simp [simp]: "finish (r, c, w) = Some (if r < 0 then -1 else 0, c, w)"
  by (simp add: finish_def)

lemma handshake_standard_alt:
  "hev_socks5_client_handshake_standard klass c w = do {
     (res, w) \<leftarrow> hev_socks5_client_write_auth_methods c w;
     if res < 0 then Some (-1, c, w) else do {
     (res, w) \<leftarrow> hev_socks5_client_read_auth_method c w;
     if res < 0 then Some (-1, c, w) else do {
     (res, w) \<leftarrow> subneg_standard res c w;
     if res < 0 then Some (-1, c, w) else do {
     (res, c, w) \<leftarrow> hev_socks5_client_write_request klass c w;
     if res < 0 then Some (-1, c, w) else
     hev_socks5_client_read_response klass c w \<bind> finish }}}}"
  by (simp only: hev_socks5_client_handshake_standard_def subneg_standard_def finish_def)

lemma handshake_pipeline_alt:
  "hev_socks5_client_handshake_pipeline klass c w = do {
     (res, w) \<leftarrow> hev_socks5_client_write_auth_methods c w;
     if res < 0 then Some (-1, c, w) else do {
     (res, w) \<leftarrow> hev_socks5_client_write_auth_creds c w;
     if res < 0 then Some (-1, c, w) else do {
     (res, c, w) \<leftarrow> hev_socks5_client_write_request klass c w;
     if res < 0 then Some (-1, c, w) else do {
     (res, w) \<leftarrow> hev_socks5_client_read_auth_method c w;
     if res < 0 then Some (-1, c, w) else do {
     (res, w) \<leftarrow> subneg_pipeline res c w;
     if res < 0 then Some (-1, c, w) else
     hev_socks5_client_read_response klass c w \<bind> finish }}}}}"
  by (simp only: hev_socks5_client_handshake_pipeline_def subneg_pipeline_def finish_def)

text \<open>Peeling off the steps of a run that returned 0.\<close>

lemma step2_ok:
  "(m \<bind> (\<lambda>(r, w). if r < 0 then Some (-1, c, w) else f r w)) = Some (0, c', w') \<Longrightarrow>
    \<exists>r w1. m = Some (r :: int, w1) \<and> 0 \<le> r \<and> f r w1 = Some (0 :: int, c', w')"
  by (auto simp: Option.bind_eq_Some_conv split: if_splits)

lemma step3_ok:
  "(m \<bind> (\<lambda>(r, c, w). if r < 0 then Some (-1, c, w) else f c w)) = Some (0, c', w') \<Longrightarrow>
    \<exists>r c1 w1. m = Some (r :: int, c1, w1) \<and> f c1 w1 = Some (0 :: int, c', w')"
  by (auto simp: Option.bind_eq_Some_conv split: if_splits)

lemma finish_finish [simp]: "(m \<bind> finish) \<bind> finish = m \<bind> finish"
  by (cases m) auto

lemma read_response_step:
  assumes fd: "s5_fd c \<in> set (fds w)"
    and inp: "net_in (s5_timeout c) (s5_fd c) w = request_reply z b @ rest" and b: "is_ip b"
  shows "\<exists>w'. hev_socks5_client_read_response klass c w
      = cl_set_upstream_addr klass c (encode_addr b) w' \<bind> finish \<and>
    io_step (s5_timeout c) (s5_fd c) [] (request_reply z b) w w'"
proof -
  let ?t = "s5_timeout c" and ?fd = "s5_fd c"
  obtain a body where enc: "encode_addr b = a # body"
    and a: "a = 1 \<and> length body = 6 \<or> a = 4 \<and> length body = 18"
    using b by (cases b) auto
  have inp': "net_in ?t ?fd w = [5, 0, z, a] @ body @ rest"
    using inp by (simp add: request_reply_def enc)
  from net_recv_step[OF fd inp', of 4] obtain w1
    where r1: "net_recv ?t ?fd 4 True False w = Some (4, [5, 0, z, a], w1)"
      "io_step ?t ?fd [] [5, 0, z, a] w w1" "net_in ?t ?fd w1 = body @ rest" by auto
  have "?fd \<in> set (fds w1)" using fd io_stepD(4)[OF r1(2)] by simp
  moreover have "0 < length body" using a by auto
  ultimately obtain w2
    where r2: "net_recv ?t ?fd (length body) True False w1 = Some (int (length body), body, w2)"
      "io_step ?t ?fd [] body w1 w2"
    using net_recv_step[OF _ r1(3) refl] by blast
  have "io_step ?t ?fd [] (request_reply z b) w w2"
    using io_step_trans[OF r1(2) r2(2)] by (simp add: request_reply_def enc)
  moreover have "hev_socks5_client_read_response klass c w
      = cl_set_upstream_addr klass c (encode_addr b) w2 \<bind> finish"
    using r1(1) r2(1) a by (auto simp: hev_socks5_client_read_response_def enc finish_def)
  ultimately show ?thesis by blast
qed

subsection \<open>What a result proves about the input\<close>

text \<open>In every environment, whatever the partial writes and errors.\<close>

abbreviation conn_in :: "'a hev_socks5_client_scheme \<Rightarrow> net \<Rightarrow> bytes" where
  "conn_in c w \<equiv> net_in (s5_timeout c) (s5_fd c) w"

lemma write_auth_methods_any:
  assumes "hev_socks5_client_write_auth_methods c w = Some (r, w')"
  shows "conn_in c w' = conn_in c w"
  using assms by (auto simp: hev_socks5_client_write_auth_methods_def Option.bind_eq_Some_conv Let_def
      simp del: io_wait_iff split: if_splits dest!: net_send_any(2))

lemma write_auth_creds_any:
  assumes "hev_socks5_client_write_auth_creds c w = Some (r, w')"
  shows "conn_in c w' = conn_in c w"
  using assms by (auto simp: hev_socks5_client_write_auth_creds_def Option.bind_eq_Some_conv Let_def
      net_sendmsg_eq simp del: io_wait_iff split: if_splits option.splits dest!: net_send_any(2))

lemma read_auth_method_any:
  assumes "hev_socks5_client_read_auth_method c w = Some (r, w')" "0 \<le> r"
  shows "\<exists>m. r = uint m \<and> conn_in c w = [5, m] @ conn_in c w'"
proof -
  from assms obtain k bs w1 where k: "net_recv (s5_timeout c) (s5_fd c) 2 True False w = Some (k, bs, w1)"
    by (auto simp: hev_socks5_client_read_auth_method_def Option.bind_eq_Some_conv)
  with assms have "k = int 2" and r: "bs ! 0 = 5" "r = uint (bs ! 1)" "w' = w1"
    by (auto simp: hev_socks5_client_read_auth_method_def split: if_splits)
  with net_recv_any(3)[OF k] have bs: "length bs = 2" "conn_in c w = bs @ conn_in c w1" by auto
  from list_2[OF bs(1)] obtain x y where "bs = [x, y]" by blast
  with bs(2) r show ?thesis by (intro exI[of _ y]) simp
qed

lemma read_auth_creds_any:
  assumes "hev_socks5_client_read_auth_creds c w = Some (r, w')" "0 \<le> r"
  shows "conn_in c w = [1, 0] @ conn_in c w'"
proof -
  from assms obtain k bs w1 where k: "net_recv (s5_timeout c) (s5_fd c) 2 True False w = Some (k, bs, w1)"
    by (auto simp: hev_socks5_client_read_auth_creds_def Option.bind_eq_Some_conv)
  with assms have "k = int 2" and r: "bs ! 0 = 1" "bs ! 1 = 0" "w' = w1"
    by (auto simp: hev_socks5_client_read_auth_creds_def split: if_splits)
  with net_recv_any(3)[OF k] have bs: "length bs = 2" "conn_in c w = bs @ conn_in c w1" by auto
  from list_2[OF bs(1)] obtain x y where "bs = [x, y]" by blast
  with bs(2) r show ?thesis by simp
qed

lemma ip_of_bytes:
  assumes "(a = 1 \<and> length body = 6) \<or> (a = 4 \<and> length body = 18)"
  shows "\<exists>b. is_ip b \<and> a # body = encode_addr b"
proof -
  have ex: "\<exists>ip p. length ip = n \<and> body = ip @ be16 p" if "length body = n + 2" for n
    using that be16_load16[of "drop n body"]
    by (intro exI[of _ "take n body"] exI[of _ "ntohs (load16 (drop n body))"]) simp
  from assms show ?thesis
  proof
    assume a: "a = 1 \<and> length body = 6"
    with ex[of 4] obtain ip p where "length ip = 4" "body = ip @ be16 p" by auto
    with a show ?thesis by (intro exI[of _ "SA_IPv4 ip p"]) simp
  next
    assume a: "a = 4 \<and> length body = 18"
    with ex[of 16] obtain ip p where "length ip = 16" "body = ip @ be16 p" by auto
    with a show ?thesis by (intro exI[of _ "SA_IPv6 ip p"]) simp
  qed
qed

lemma uint_u8_eq [simp]: "uint (m :: u8) = 2 \<longleftrightarrow> m = 2" "uint m = 0 \<longleftrightarrow> m = 0"
  by (simp_all add: word_uint_eq_iff)

lemma subneg_standard_any:
  assumes "subneg_standard (uint m) c w = Some (r, w')" "0 \<le> r"
  shows "(m = 0 \<or> m = 2) \<and> conn_in c w = subneg_reply m @ conn_in c w'"
proof (cases "m = 2")
  case True
  with assms obtain q v where "hev_socks5_client_write_auth_creds c w = Some (q, v)" "0 \<le> q"
      "hev_socks5_client_read_auth_creds c v = Some (r, w')"
    by (auto simp: subneg_standard_def Option.bind_eq_Some_conv split: if_splits)
  with write_auth_creds_any[of c w] read_auth_creds_any[of c v] True assms(2) show ?thesis
    by (auto simp: subneg_reply_def)
next
  case False
  with assms show ?thesis
    by (auto simp: subneg_standard_def subneg_reply_def split: if_splits)
qed

lemma subneg_pipeline_any:
  assumes "subneg_pipeline (uint m) c w = Some (r, w')" "0 \<le> r"
  shows "(m = 0 \<or> m = 2) \<and> conn_in c w = subneg_reply m @ conn_in c w'"
proof (cases "m = 2")
  case True
  with assms read_auth_creds_any[OF _ assms(2)] show ?thesis
    by (simp add: subneg_reply_def subneg_pipeline_def)
next
  case False
  with assms show ?thesis
    by (auto simp: subneg_pipeline_def subneg_reply_def split: if_splits)
qed

subsection \<open>The contract of the upstream address\<close>

text \<open>What the handshake needs of a client class. \<open>dest c w\<close> is the address the next request
  will carry, when one can be produced in the state \<open>w\<close>.\<close>

locale upstream_class =
  fixes klass :: "('a hev_socks5_client_scheme) client_class"
    and dest :: "'a hev_socks5_client_scheme \<Rightarrow> net \<Rightarrow> socks_addr option"
  assumes get_frame: "cl_get_upstream_addr klass c w = (m, c', w') \<Longrightarrow>
        same_conn c c' \<and> sk w' = sk w \<and> fds w' = fds w \<and> polled w' = polled w"
    and get_dest: "dest c w = Some a \<Longrightarrow> wf_addr a \<and>
        fst (cl_get_upstream_addr klass c w) = Some (encode_addr a) \<and>
        0 < blocks (snd (snd (cl_get_upstream_addr klass c w)))"
    and dest_sk: "dest c (w\<lparr>sk := f\<rparr>) = dest c w"
    and set_frame: "cl_set_upstream_addr klass c b w = Some (r, c', w') \<Longrightarrow>
        sk w' = sk w \<and> s5_fd c' = s5_fd c \<and> s5_type c' = s5_type c"
begin

lemma dest_io_step: "io_step t fd out inp w w' \<Longrightarrow> dest c w' = dest c w"
  using io_stepD(9) dest_sk by fastforce

lemma write_request_step:
  assumes dest: "dest c w = Some a" and cmd: "request_cmd (s5_type c) = Some cmd"
    and fd: "s5_fd c \<in> set (fds w)" "net_tx_fine (s5_timeout c) (s5_fd c) w"
  shows "\<exists>c' w'. hev_socks5_client_write_request klass c w = Some (0, c', w') \<and> same_conn c c' \<and>
    conn_step (s5_timeout c) (s5_fd c) (request_msg cmd a) [] w w'"
proof -
  let ?t = "s5_timeout c" and ?fd = "s5_fd c"
  obtain m c1 w1 where get: "cl_get_upstream_addr klass c w = (m, c1, w1)" by (metis prod_cases3)
  from get_dest[OF dest] get have a: "wf_addr a" "m = Some (encode_addr a)" "0 < blocks w1" by auto
  from get_frame[OF get] have fr: "same_conn c c1" "sk w1 = sk w" "fds w1 = fds w" "polled w1 = polled w"
    by auto
  then have c1: "s5_fd c1 = ?fd" "s5_timeout c1 = ?t" by (auto simp: same_conn_def)
  from net_send_step[of ?fd w1 ?t "request_msg cmd a"] fd fr obtain w2
    where s: "net_send ?t ?fd (request_msg cmd a) w1 = Some (int (length (request_msg cmd a)), w2)"
      "io_step ?t ?fd (request_msg cmd a) [] w1 w2" by (auto simp: request_msg_def)
  let ?w3 = "w2\<lparr>blocks := blocks w2 - 1\<rparr>"
  have len: "hev_socks5_addr_len (encode_addr a) = Some (int (length (encode_addr a)))"
    using addr_len_encode[OF a(1), of "[]"] by simp
  have "hev_socks5_client_write_request klass c w = Some (0, c1, ?w3)"
    using cmd get a len s(1) c1 io_stepD(6)[OF s(2)]
    by (simp add: hev_socks5_client_write_request_def rd_def net_sendmsg_eq request_msg_def hev_free_def)
  moreover have "conn_step ?t ?fd (request_msg cmd a) [] w ?w3"
    using io_step_conn[OF s(2)] fr by (simp add: conn_step_def)
  ultimately show ?thesis using fr(1) by blast
qed

text \<open>A proxy that accepts makes the standard handshake succeed: exactly the messages of the
  protocol are written, exactly the replies are read, and the result is that of the class
  accepting the reply address.\<close>

lemma handshake_standard_run:
  assumes dest: "dest c w = Some a" and cmd: "request_cmd (s5_type c) = Some cmd"
    and fd: "s5_fd c \<in> set (fds w)" "net_tx_fine (s5_timeout c) (s5_fd c) w"
    and m: "m = 0 \<or> m = 2 \<and> creds_ok c"
    and inp: "net_in (s5_timeout c) (s5_fd c) w = auth_reply m @ request_reply z b @ rest"
    and b: "is_ip b"
  shows "\<exists>c' w'. hev_socks5_client_handshake_standard klass c w
      = cl_set_upstream_addr klass c' (encode_addr b) w' \<bind> finish \<and> same_conn c c' \<and>
    conn_step (s5_timeout c) (s5_fd c)
      (greeting_msg c @ (if m = 2 then creds_msg c else []) @ request_msg cmd a)
      (auth_reply m @ request_reply z b) w w'"
proof -
  let ?t = "s5_timeout c" and ?fd = "s5_fd c"
  from write_auth_methods_step[OF fd] obtain w1
    where s1: "hev_socks5_client_write_auth_methods c w = Some (0, w1)"
      "io_step ?t ?fd (greeting_msg c) [] w w1" by blast
  have fd1: "?fd \<in> set (fds w1)" "net_tx_fine ?t ?fd w1" using fd io_stepD(3,4)[OF s1(2)] by auto
  have i1: "net_in ?t ?fd w1 = [5, m] @ subneg_reply m @ request_reply z b @ rest"
    using io_step_rest[OF s1(2)] inp by (simp add: auth_reply_split)
  from read_auth_method_step[OF fd1(1) i1] obtain w2
    where s2: "hev_socks5_client_read_auth_method c w1 = Some (uint m, w2)" "io_step ?t ?fd [] [5, m] w1 w2"
    by blast
  have fd2: "?fd \<in> set (fds w2)" "net_tx_fine ?t ?fd w2" using fd1 io_stepD(3,4)[OF s2(2)] by auto
  from subneg_standard_step[OF fd2 m io_step_rest[OF s2(2) i1]] obtain w3
    where s3: "subneg_standard (uint m) c w2 = Some (0, w3)"
      "io_step ?t ?fd (if m = 2 then creds_msg c else []) (subneg_reply m) w2 w3" by blast
  have fd3: "?fd \<in> set (fds w3)" "net_tx_fine ?t ?fd w3" using fd2 io_stepD(3,4)[OF s3(2)] by auto
  have i3: "net_in ?t ?fd w3 = request_reply z b @ rest"
    using io_step_rest[OF s3(2) io_step_rest[OF s2(2) i1]] .
  have "dest c w3 = Some a"
    using dest dest_io_step[OF s1(2)] dest_io_step[OF s2(2)] dest_io_step[OF s3(2)] by simp
  from write_request_step[OF this cmd fd3] obtain c4 w4
    where s4: "hev_socks5_client_write_request klass c w3 = Some (0, c4, w4)" "same_conn c c4"
      "conn_step ?t ?fd (request_msg cmd a) [] w3 w4" by blast
  have c4: "s5_fd c4 = ?fd" "s5_timeout c4 = ?t" using s4(2) by (auto simp: same_conn_def)
  have "?fd \<in> set (fds w4)" "net_in ?t ?fd w4 = request_reply z b @ rest"
    using s4(3) i3 fd3 by (auto simp: conn_step_def)
  with read_response_step[of c4 w4 z b rest klass] c4 b obtain w5
    where s5: "hev_socks5_client_read_response klass c4 w4
        = cl_set_upstream_addr klass c4 (encode_addr b) w5 \<bind> finish"
      "io_step ?t ?fd [] (request_reply z b) w4 w5" by auto
  note tr = conn_step_trans[OF conn_step_trans[OF conn_step_trans[OF conn_step_trans[OF
      io_step_conn[OF s1(2)] io_step_conn[OF s2(2)]] io_step_conn[OF s3(2)]] s4(3)] io_step_conn[OF s5(2)]]
  have "hev_socks5_client_handshake_standard klass c w
      = (cl_set_upstream_addr klass c4 (encode_addr b) w5 \<bind> finish) \<bind> finish"
    by (simp add: handshake_standard_alt s1(1) s2(1) s3(1) s4(1) s5(1) del: finish_finish bind_assoc)
  with tr s4(2) show ?thesis 
    by (intro exI[of _ c4] exI[of _ w5] conjI)
      (simp_all only: auth_reply_split finish_finish append_assoc append_Nil append_Nil2)
qed

text \<open>The pipelined handshake against the same proxy: the same messages up to their being sent
  before the proxy's choice is known, so the credentials go out whenever there are any.\<close>

lemma handshake_pipeline_run:
  assumes dest: "dest c w = Some a" and cmd: "request_cmd (s5_type c) = Some cmd"
    and fd: "s5_fd c \<in> set (fds w)" "net_tx_fine (s5_timeout c) (s5_fd c) w" "creds_ok c"
    and m: "m = 0 \<or> m = 2"
    and inp: "net_in (s5_timeout c) (s5_fd c) w = auth_reply m @ request_reply z b @ rest"
    and b: "is_ip b"
  shows "\<exists>c' w'. hev_socks5_client_handshake_pipeline klass c w
      = cl_set_upstream_addr klass c' (encode_addr b) w' \<bind> finish \<and> same_conn c c' \<and>
    conn_step (s5_timeout c) (s5_fd c) (greeting_msg c @ creds_msg c @ request_msg cmd a)
      (auth_reply m @ request_reply z b) w w'"
proof -
  let ?t = "s5_timeout c" and ?fd = "s5_fd c"
  from write_auth_methods_step[OF fd(1,2)] obtain w1
    where s1: "hev_socks5_client_write_auth_methods c w = Some (0, w1)"
      "io_step ?t ?fd (greeting_msg c) [] w w1" by blast
  have fd1: "?fd \<in> set (fds w1)" "net_tx_fine ?t ?fd w1" using fd io_stepD(3,4)[OF s1(2)] by auto
  from write_auth_creds_step[OF fd1 fd(3)] obtain w2
    where s2: "hev_socks5_client_write_auth_creds c w1 = Some (0, w2)"
      "io_step ?t ?fd (creds_msg c) [] w1 w2" by blast
  have fd2: "?fd \<in> set (fds w2)" "net_tx_fine ?t ?fd w2" using fd1 io_stepD(3,4)[OF s2(2)] by auto
  have "dest c w2 = Some a"
    using dest dest_io_step[OF s1(2)] dest_io_step[OF s2(2)] by simp
  from write_request_step[OF this cmd fd2] obtain c3 w3
    where s3: "hev_socks5_client_write_request klass c w2 = Some (0, c3, w3)" "same_conn c c3"
      "conn_step ?t ?fd (request_msg cmd a) [] w2 w3" by blast
  have c3: "s5_fd c3 = ?fd" "s5_timeout c3 = ?t" using s3(2) by (auto simp: same_conn_def)
  note tr3 = conn_step_trans[OF conn_step_trans[OF io_step_conn[OF s1(2)] io_step_conn[OF s2(2)]] s3(3)]
  have fd3: "s5_fd c3 \<in> set (fds w3)" using fd2 s3(3) c3 by (simp add: conn_step_def)
  have i3: "net_in (s5_timeout c3) (s5_fd c3) w3 = [5, m] @ subneg_reply m @ request_reply z b @ rest"
    using tr3 inp unfolding c3 by (simp add: auth_reply_split conn_step_def)
  from read_auth_method_step[OF fd3 i3] obtain w4
    where s4: "hev_socks5_client_read_auth_method c3 w3 = Some (uint m, w4)" "io_step ?t ?fd [] [5, m] w3 w4"
    unfolding c3 by blast
  have fd4: "s5_fd c3 \<in> set (fds w4)" using fd3 io_stepD(4)[OF s4(2)] by simp
  note i4 = io_step_rest[OF s4(2)[folded c3] i3]
  from subneg_pipeline_step[OF fd4 m i4] obtain w5
    where s5: "subneg_pipeline (uint m) c3 w4 = Some (0, w5)" "io_step ?t ?fd [] (subneg_reply m) w4 w5"
    unfolding c3 by blast
  have fd5: "s5_fd c3 \<in> set (fds w5)" using fd4 io_stepD(4)[OF s5(2)] by simp
  from read_response_step[OF fd5 io_step_rest[OF s5(2)[folded c3] i4] b, of klass] obtain w6
    where s6: "hev_socks5_client_read_response klass c3 w5
        = cl_set_upstream_addr klass c3 (encode_addr b) w6 \<bind> finish"
      "io_step ?t ?fd [] (request_reply z b) w5 w6" unfolding c3 by blast
  note tr = conn_step_trans[OF conn_step_trans[OF conn_step_trans[OF tr3
      io_step_conn[OF s4(2)]] io_step_conn[OF s5(2)]] io_step_conn[OF s6(2)]]
  have "hev_socks5_client_handshake_pipeline klass c w
      = (cl_set_upstream_addr klass c3 (encode_addr b) w6 \<bind> finish) \<bind> finish"
    by (simp add: handshake_pipeline_alt s1(1) s2(1) s3(1) s4(1) s5(1) s6(1) del: finish_finish bind_assoc)
  with tr s3(2) show ?thesis
    by (intro exI[of _ c3] exI[of _ w6] conjI)
      (simp_all only: auth_reply_split finish_finish append_assoc append_Nil append_Nil2)
qed

text \<open>Soundness: a handshake that returns 0 has read, in this order, exactly an acceptance of the
  method, of the credentials when that method needs them, and of the request.\<close>

lemma write_request_any:
  assumes "hev_socks5_client_write_request klass c w = Some (r, c', w')"
  shows "same_conn c c' \<and> conn_in c w' = conn_in c w"
proof (cases "request_cmd (s5_type c)")
  case None
  with assms show ?thesis by (simp add: hev_socks5_client_write_request_def)
next
  case (Some cmd)
  obtain m c1 w1 where get: "cl_get_upstream_addr klass c w = (m, c1, w1)" by (metis prod_cases3)
  from get_frame[OF get] have fr: "same_conn c c1" "sk w1 = sk w" by auto
  then have c1: "s5_fd c1 = s5_fd c" "s5_timeout c1 = s5_timeout c" by (auto simp: same_conn_def)
  from assms Some get obtain addr n where addr: "m = Some addr" "hev_socks5_addr_len addr = Some n"
    by (auto simp: hev_socks5_client_write_request_def Option.bind_eq_Some_conv)
  show ?thesis
  proof (cases "n < 0")
    case True
    with assms Some get addr fr c1 show ?thesis by (simp add: hev_socks5_client_write_request_def)
  next
    case False
    note run = assms[unfolded hev_socks5_client_write_request_def] and unf = Some get addr False
    from run unf obtain body where body: "rd addr 0 (nat n) = Some body"
      by (cases "rd addr 0 (nat n)") simp_all
    from run unf body obtain k w2
      where s: "net_send (s5_timeout c1) (s5_fd c1) (concat [[5, cmd, 0], body]) w1 = Some (k, w2)"
      by (cases "net_send (s5_timeout c1) (s5_fd c1) (concat [[5, cmd, 0], body]) w1")
        (simp_all add: net_sendmsg_eq split_paired_all)
    from run unf body s have w': "c' = c1" "sk w' = sk w2"
      by (auto simp: net_sendmsg_eq hev_free_def split: if_splits)
    with net_send_any(2)[OF s] fr c1 show ?thesis by simp
  qed
qed

lemma read_response_any:
  assumes "hev_socks5_client_read_response klass c w = Some (r, c', w')" "0 \<le> r"
  shows "\<exists>z b. is_ip b \<and> conn_in c w = request_reply z b @ conn_in c w' \<and> s5_type c' = s5_type c"
proof -
  note run = assms(1)[unfolded hev_socks5_client_read_response_def]
  from run obtain k hd w1 where k: "net_recv (s5_timeout c) (s5_fd c) 4 True False w = Some (k, hd, w1)"
    by (auto simp: Option.bind_eq_Some_conv)
  define n where "n = (if hd ! 3 = 1 then 6 else 18 :: nat)"
  from run k assms(2) have h: "k = int 4" "hd ! 0 = 5" "hd ! 1 = 0" "hd ! 3 = 1 \<or> hd ! 3 = 4"
    by (auto split: if_splits simp: Let_def)
  with run k assms(2) obtain j body w2 c2
    where j: "net_recv (s5_timeout c) (s5_fd c) n True False w1 = Some (j, body, w2)" "j = int n"
      and set: "cl_set_upstream_addr klass c (hd ! 3 # body) w2 = Some (c2, c', w')"
    unfolding n_def by (auto simp: Let_def Option.bind_eq_Some_conv split: if_splits)
  from net_recv_any(3)[OF k _ h(1)] have i1: "length hd = 4" "conn_in c w = hd @ conn_in c w1" by auto
  have "0 < n" by (simp add: n_def)
  from net_recv_any(3)[OF j(1) this j(2)] have i2: "length body = n" "conn_in c w1 = body @ conn_in c w2" by auto
  have hd: "hd = [5, 0, hd ! 2, hd ! 3]"
    using i1(1) h by (auto simp: numeral_eq_Suc length_Suc_conv)
  from ip_of_bytes[of "hd ! 3" body] h(4) i2(1) obtain b where b: "is_ip b" "hd ! 3 # body = encode_addr b"
    by (auto simp: n_def)
  have "conn_in c w = request_reply (hd ! 2) b @ conn_in c w2"
    using i1(2) i2(2) hd b(2) unfolding request_reply_def
    by (metis (no_types, lifting) append_Cons append_Nil append_assoc)
  with set_frame[OF set] b(1) show ?thesis by auto
qed

lemma read_response_finish_any:
  assumes "hev_socks5_client_read_response klass c w \<bind> finish = Some (0, c', w')"
  shows "\<exists>z b. is_ip b \<and> conn_in c w = request_reply z b @ conn_in c w'"
proof -
  from assms obtain r where "hev_socks5_client_read_response klass c w = Some (r, c', w')" "0 \<le> r"
    by (auto simp: Option.bind_eq_Some_conv finish_def split: if_splits)
  with read_response_any show ?thesis by blast
qed

lemma handshake_standard_sound:
  assumes "hev_socks5_client_handshake_standard klass c w = Some (0, c', w')"
  shows "\<exists>m z b. (m = 0 \<or> m = 2) \<and> is_ip b \<and>
    conn_in c w = auth_reply m @ request_reply z b @ conn_in c w'"
proof -
  from assms obtain q1 w1 q2 w2 q3 w3 q4 c4 w4
    where s: "hev_socks5_client_write_auth_methods c w = Some (q1, w1)"
      "hev_socks5_client_read_auth_method c w1 = Some (q2, w2)" "0 \<le> q2"
      "subneg_standard q2 c w2 = Some (q3, w3)" "0 \<le> q3"
      "hev_socks5_client_write_request klass c w3 = Some (q4, c4, w4)"
      "hev_socks5_client_read_response klass c4 w4 \<bind> finish = Some (0, c', w')"
    unfolding handshake_standard_alt by (auto dest!: step2_ok step3_ok)
  from read_auth_method_any[OF s(2,3)] obtain m where m: "q2 = uint m" "conn_in c w1 = [5, m] @ conn_in c w2"
    by blast
  note n = subneg_standard_any[OF s(4)[unfolded m(1)] s(5)]
  from write_request_any[OF s(6)] have c4: "conn_in c w4 = conn_in c w3" "s5_fd c4 = s5_fd c"
      "s5_timeout c4 = s5_timeout c" by (auto simp: same_conn_def)
  from read_response_finish_any[OF s(7)] c4 obtain z b
    where b: "is_ip b" "conn_in c w3 = request_reply z b @ conn_in c w'" by auto
  have "conn_in c w = auth_reply m @ request_reply z b @ conn_in c w'"
    using write_auth_methods_any[OF s(1)] m(2) n b(2) by (simp add: auth_reply_split)
  with n b(1) show ?thesis by blast
qed

lemma handshake_pipeline_sound:
  assumes "hev_socks5_client_handshake_pipeline klass c w = Some (0, c', w')"
  shows "\<exists>m z b. (m = 0 \<or> m = 2) \<and> is_ip b \<and>
    conn_in c w = auth_reply m @ request_reply z b @ conn_in c w'"
proof -
  from assms obtain q1 w1 q2 w2 q3 c3 w3 q4 w4 q5 w5
    where s: "hev_socks5_client_write_auth_methods c w = Some (q1, w1)"
      "hev_socks5_client_write_auth_creds c w1 = Some (q2, w2)"
      "hev_socks5_client_write_request klass c w2 = Some (q3, c3, w3)"
      "hev_socks5_client_read_auth_method c3 w3 = Some (q4, w4)" "0 \<le> q4"
      "subneg_pipeline q4 c3 w4 = Some (q5, w5)" "0 \<le> q5"
      "hev_socks5_client_read_response klass c3 w5 \<bind> finish = Some (0, c', w')"
    unfolding handshake_pipeline_alt by (auto dest!: step2_ok step3_ok)
  from write_request_any[OF s(3)] have c3: "conn_in c3 v = conn_in c v" "conn_in c w3 = conn_in c w2" for v
    by (auto simp: same_conn_def)
  from read_auth_method_any[OF s(4,5)] obtain m where m: "q4 = uint m" "conn_in c3 w3 = [5, m] @ conn_in c3 w4"
    by blast
  note n = subneg_pipeline_any[OF s(6)[unfolded m(1)] s(7)]
  from read_response_finish_any[OF s(8)] obtain z b
    where b: "is_ip b" "conn_in c3 w5 = request_reply z b @ conn_in c3 w'" by auto
  have "conn_in c w = auth_reply m @ request_reply z b @ conn_in c w'"
    using write_auth_methods_any[OF s(1)] write_auth_creds_any[OF s(2)] m(2) n b(2)
    unfolding c3 by (simp add: auth_reply_split)
  with n b(1) show ?thesis by blast
qed

end

subsection \<open>The two clients fulfil the contract\<close>

definition client_tcp_dest :: "'a hev_socks5_client_tcp_scheme \<Rightarrow> net \<Rightarrow> socks_addr option" where
  "client_tcp_dest c w = (if blocks w = 0 then None else do {
     m \<leftarrow> tcp_addr c;
     (a, r) \<leftarrow> decode_addr m;
     if r = [] then Some a else None
   })"

definition client_udp_dest :: "'a hev_socks5_client_udp_scheme \<Rightarrow> net \<Rightarrow> socks_addr option" where
  "client_udp_dest c w = (if \<not> fst (pop True (mallocq w)) then None
     else (case s5_family c of
        AF_INET \<Rightarrow> Some (SA_IPv4 (replicate 4 0) 0)
      | AF_INET6 \<Rightarrow> Some (SA_IPv6 (replicate 16 0) 0)
      | AF_UNSPEC \<Rightarrow> None))"

interpretation tcp: upstream_class "hev_socks5_client_tcp_class" client_tcp_dest
proof
  fix c :: "'a hev_socks5_client_tcp_scheme" and w a
  assume "client_tcp_dest c w = Some a"
  then obtain m where "tcp_addr c = Some m" "decode_addr m = Some (a, [])" "blocks w \<noteq> 0"
    by (auto simp: client_tcp_dest_def Option.bind_eq_Some_conv split: if_splits)
  with encode_decode_addr[of m a "[]"]
  show "wf_addr a \<and> fst (cl_get_upstream_addr hev_socks5_client_tcp_class c w) = Some (encode_addr a) \<and>
      0 < blocks (snd (snd (cl_get_upstream_addr hev_socks5_client_tcp_class c w)))"
    by (simp add: hev_socks5_client_tcp_class_def hev_socks5_client_tcp_get_upstream_addr_def)
qed (auto simp: hev_socks5_client_tcp_class_def hev_socks5_client_tcp_get_upstream_addr_def
    hev_socks5_client_tcp_set_upstream_addr_def client_tcp_dest_def same_conn_def)

lemma udp_get_frame:
  "hev_socks5_client_udp_get_upstream_addr c w = (m, c', w') \<Longrightarrow>
    c' = c \<and> sk w' = sk w \<and> fds w' = fds w \<and> polled w' = polled w"
  by (auto simp: hev_socks5_client_udp_get_upstream_addr_def sys_malloc_def Let_def
      split: addr_family.splits prod.splits)

lemma be16_0: "be16 0 = [0, 0]"
  by (simp add: be16_def)

lemma udp_get_dest:
  assumes "client_udp_dest c w = Some a"
  shows "wf_addr a \<and> (\<exists>w'. hev_socks5_client_udp_get_upstream_addr c w = (Some (encode_addr a), c, w') \<and>
    0 < blocks w')"
proof -
  obtain b q where q: "pop True (mallocq w) = (b, q)" by fastforce
  have r: "replicate 4 0 @ [0, 0] = replicate 6 (0 :: u8)" "replicate 16 0 @ [0, 0] = replicate 18 (0 :: u8)"
    by (simp_all add: numeral_eq_Suc)
  from assms q show ?thesis
    by (auto simp: client_udp_dest_def hev_socks5_client_udp_get_upstream_addr_def sys_malloc_def
        hev_socks5_get_addr_family_def Let_def be16_0 r 
        split: addr_family.splits if_splits)
qed

text \<open>The descriptors and the connection made by a UDP client for its relay.\<close>

lemma net_connect_cases:
  assumes "net_connect t fd sa w = Some (r, w')"
  shows "fds w' = fds w \<and> polled w' = polled w \<and> sk w' = sk w \<and> blocks w' = blocks w \<and>
    mallocq w' = mallocq w \<and> conns w' = (if r < 0 then conns w else conns w @ [(fd, sa)])"
  using assms by (auto simp: net_connect_def Let_def Option.bind_eq_Some_conv split: prod.splits if_splits)

lemma socket_connect_returns: "0 \<le> t \<Longrightarrow> \<exists>r q'. hev_task_io_socket_connect (io_wait t) q = Some (r, q') \<and> r \<le> 0"
proof (induction q)
  case (Cons e q)
  then show ?case by (cases e) auto
qed simp


lemma hev_socks5_socket_sk: "wlp (hev_socks5_socket conf ty w) (\<lambda>(fd, w'). sk w' = sk w)"
  by (auto simp: wlp_def hev_socks5_socket_def hev_task_io_socket_socket_def sys_setsockopt_def sys_close_def
      hev_task_add_fd_def Let_def split: if_splits prod.splits)

lemma sys_close_sk: "wlp (sys_close fd (hev_task_del_fd d w)) (\<lambda>w'. sk w' = sk w)"
  by (auto simp: wlp_def sys_close_def hev_task_del_fd_def split: if_splits)

lemma net_connect_sk: "wlp (net_connect t fd sa w) (\<lambda>(r, w'). sk w' = sk w)"
  by (auto simp: wlp_def dest: net_connect_cases)

lemma udp_set_frame:
  "wlp (hev_socks5_client_udp_set_upstream_addr R conf bd c b w)
     (\<lambda>(r, c', w'). sk w' = sk w \<and> s5_fd c' = s5_fd c \<and> s5_type c' = s5_type c)"
  unfolding hev_socks5_client_udp_set_upstream_addr_def wp_simps
  by (auto intro!: wlpI[of "hev_socks5_addr_into_sockaddr6 _ _ _ _"] hev_socks5_socket_sk[THEN wlp_weaken] sys_close_sk[THEN wlp_weaken]
      net_connect_sk[THEN wlp_weaken])

interpretation udp: upstream_class "hev_socks5_client_udp_class R conf bd" client_udp_dest
  for R conf and bd :: "'a hev_socks5_client_udp_scheme \<Rightarrow> int \<Rightarrow> sockaddr6 \<Rightarrow> int"
proof
  show "same_conn c c' \<and> sk w' = sk w \<and> fds w' = fds w \<and> polled w' = polled w"
    if "cl_get_upstream_addr (hev_socks5_client_udp_class R conf bd) c w = (m, c', w')"
    for c w m w' and c' :: "'a hev_socks5_client_udp_scheme"
    using that udp_get_frame[of c w m c' w'] by (simp add: hev_socks5_client_udp_class_def)
  show "wf_addr a \<and> fst (cl_get_upstream_addr (hev_socks5_client_udp_class R conf bd) c w) = Some (encode_addr a) \<and>
      0 < blocks (snd (snd (cl_get_upstream_addr (hev_socks5_client_udp_class R conf bd) c w)))"
    if "client_udp_dest c w = Some a" for c :: "'a hev_socks5_client_udp_scheme" and w a
    using udp_get_dest[OF that] by (auto simp: hev_socks5_client_udp_class_def)
  show "client_udp_dest c (w\<lparr>sk := f\<rparr>) = client_udp_dest c w" for c :: "'a hev_socks5_client_udp_scheme" and w f
    by (simp add: client_udp_dest_def)
qed (auto simp: hev_socks5_client_udp_class_def dest: udp_set_frame[THEN wlpD])

subsection \<open>Connecting\<close>

lemma net_connect_returns:
  assumes "0 \<le> t"
  obtains r w' where "net_connect t fd sa w = Some (r, w')" "r \<le> 0"
proof -
  obtain ev q where q: "pop [ConnOk] (connq w) = (ev, q)" by fastforce
  from socket_connect_returns[OF assms, of ev] obtain r q'
    where "hev_task_io_socket_connect (io_wait t) ev = Some (r, q')" "r \<le> 0" by blast
  with q that show thesis by (simp add: net_connect_def Let_def)
qed

text \<open>The part common to the TCP connection and the UDP relay: bind and connect a new socket,
  or close it again.\<close>

lemma open_and_connect:
  assumes ok: "net_ok w" and t: "0 \<le> t"
  shows "(\<exists>w'. hev_socks5_socket conf ty w = Some (-1, w') \<and> fds w' = fds w \<and> polled w' = polled w \<and>
      conns w' = conns w) \<or>
    (\<exists>fd w1. hev_socks5_socket conf ty w = Some (fd, w1) \<and> 0 \<le> fd \<and> fd \<notin> set (fds w) \<and>
      (\<exists>w'. sys_close fd (hev_task_del_fd fd w1) = Some w' \<and> fds w' = fds w \<and> polled w' = polled w \<and>
        conns w' = conns w) \<and>
      (\<exists>r w2. net_connect t fd sa w1 = Some (r, w2) \<and>
        (r < 0 \<and> (\<exists>w'. sys_close fd (hev_task_del_fd fd w2) = Some w' \<and> fds w' = fds w \<and>
            polled w' = polled w \<and> conns w' = conns w) \<or>
         r = 0 \<and> net_ok w2 \<and> fds w2 = fd # fds w \<and> polled w2 = fd # polled w \<and> sk w2 = sk w \<and>
            conns w2 = conns w @ [(fd, sa)])))"
proof (rule hev_socks5_socket_cases[OF ok, of conf ty])
  fix w' assume "hev_socks5_socket conf ty w = Some (-1, w')" "fds w' = fds w" "polled w' = polled w"
    "fd_frame w w'"
  then show ?thesis by (simp add: fd_frame_def)
next
  fix fd w1
  assume o: "hev_socks5_socket conf ty w = Some (fd, w1)" "0 \<le> fd" "fd \<notin> set (fds w)"
    "fds w1 = fd # fds w" "polled w1 = fd # polled w" "net_ok w1" "fd_frame w w1"
  have np: "fd \<notin> set (polled w)" using ok o(3) by (auto simp: net_ok_def)
  obtain r w2 where c: "net_connect t fd sa w1 = Some (r, w2)" "r \<le> 0"
    by (rule net_connect_returns[OF t])
  note cc = net_connect_cases[OF c(1)]
  from close_opened[OF o(4,5) np] obtain v where v: "sys_close fd (hev_task_del_fd fd w1) = Some v"
    "fds v = fds w" "polled v = polled w" "fd_frame w1 v" by blast
  from close_opened[of w2 fd "fds w" "polled w"] cc o(4,5) np obtain u
    where u: "sys_close fd (hev_task_del_fd fd w2) = Some u" "fds u = fds w" "polled u = polled w" "fd_frame w2 u"
    by auto
  have "net_ok w2" using o(6) cc by (simp add: net_ok_def)
  with o c cc u v show ?thesis by (auto simp: fd_frame_def)
qed

definition connect_failed :: "net \<Rightarrow> net \<Rightarrow> bool" where
  "connect_failed w w' \<longleftrightarrow> fds w' = fds w \<and> polled w' = polled w \<and> conns w' = conns w"

definition connected :: "int \<Rightarrow> sockaddr6 \<Rightarrow> net \<Rightarrow> net \<Rightarrow> bool" where
  "connected fd sa w w' \<longleftrightarrow> 0 \<le> fd \<and> fd \<notin> set (fds w) \<and> fds w' = fd # fds w \<and>
     polled w' = fd # polled w \<and> sk w' = sk w \<and> conns w' = conns w @ [(fd, sa)] \<and> net_ok w'"

lemma open_and_connect_wp:
  assumes "net_ok w" "0 \<le> t"
    and fail: "\<And>w'. connect_failed w w' \<Longrightarrow> P (-1, c, w')"
    and ok: "\<And>fd w'. connected fd sa w w' \<Longrightarrow> P (0, f fd, w')"
  shows "wp (do {
      (fd, w) \<leftarrow> hev_socks5_socket conf ty w;
      if fd < 0 then Some (-1, c, w)
      else if bd fd < 0 then do {
        w \<leftarrow> sys_close fd (hev_task_del_fd fd w);
        Some (-1, c, w)
      } else do {
        (res, w) \<leftarrow> net_connect t fd sa w;
        if res < 0 then do {
          w \<leftarrow> sys_close fd (hev_task_del_fd fd w);
          Some (-1, c, w)
        } else Some (0, f fd, w)
      }
    }) (P :: int \<times> 'c \<times> net \<Rightarrow> bool)"
  using open_and_connect[OF assms(1,2), of conf ty sa]
proof (elim disjE exE conjE)
  fix w' assume "hev_socks5_socket conf ty w = Some (-1, w')" "fds w' = fds w" "polled w' = polled w"
    "conns w' = conns w"
  then show ?thesis by (simp add: wp_simps fail connect_failed_def)
next
  fix fd w1 v r w2 u
  assume "hev_socks5_socket conf ty w = Some (fd, w1)" "0 \<le> fd"
    "sys_close fd (hev_task_del_fd fd w1) = Some v" "fds v = fds w" "polled v = polled w" "conns v = conns w"
    "net_connect t fd sa w1 = Some (r, w2)" "r < 0"
    "sys_close fd (hev_task_del_fd fd w2) = Some u" "fds u = fds w" "polled u = polled w" "conns u = conns w"
  then show ?thesis by (simp add: wp_simps fail connect_failed_def)
next
  fix fd w1 v r w2
  assume "hev_socks5_socket conf ty w = Some (fd, w1)" "0 \<le> fd" "fd \<notin> set (fds w)"
    "sys_close fd (hev_task_del_fd fd w1) = Some v" "fds v = fds w" "polled v = polled w" "conns v = conns w"
    "net_connect t fd sa w1 = Some (r, w2)" "r = 0" "net_ok w2" "fds w2 = fd # fds w"
    "polled w2 = fd # polled w" "sk w2 = sk w" "conns w2 = conns w @ [(fd, sa)]"
  then show ?thesis by (simp add: wp_simps fail ok connect_failed_def connected_def)
qed

subsection \<open>Properties\<close>

text \<open>Connecting to the proxy neither leaks nor confuses descriptors. With a finite connect
  timeout it returns in every environment. On success it has opened exactly one descriptor,
  registered it with the task, stored it in the object, connected it to the address the proxy's
  name and port resolve to, and set the family of the object to IPv4 or IPv6. On every error
  path the set of open and of polled descriptors is what it was, and nothing is closed twice.\<close>

theorem client_connect_safe:
  assumes ok: "net_ok w" and R: "resolver_ok R" and t: "0 \<le> connect_timeout conf"
  shows "\<exists>r c' w'. hev_socks5_client_connect R conf klass addr port c w = Some (r, c', w') \<and>
    (r = -1 \<and> connect_failed w w' \<and> s5_fd c' = s5_fd c \<or>
     r = 0 \<and> (\<exists>sa. hev_socks5_name_into_sockaddr6 R addr port sockaddr6_zero (s5_family c) =
         Some (0, sa, s5_family c') \<and> connected (s5_fd c') sa w w') \<and> s5_family c' \<noteq> AF_UNSPEC)"
proof -
  obtain res sa fam where n: "hev_socks5_name_into_sockaddr6 R addr port sockaddr6_zero (s5_family c)
      = Some (res, sa, fam)" "res = 0 \<or> res = -1"
    using name_into_sockaddr6_defined[OF R, of sockaddr6_zero addr port "s5_family c"]
    by (auto simp: sockaddr6_zero_def)
  let ?P = "\<lambda>(r, c', w'). r = -1 \<and> connect_failed w w' \<and> s5_fd c' = s5_fd c \<or>
     r = 0 \<and> (\<exists>sa. hev_socks5_name_into_sockaddr6 R addr port sockaddr6_zero (s5_family c) =
         Some (0, sa, s5_family c') \<and> connected (s5_fd c') sa w w') \<and> s5_family c' \<noteq> AF_UNSPEC"
  have "wp (hev_socks5_client_connect R conf klass addr port c w) ?P"
  proof (cases "res < 0")
    case True
    with n show ?thesis
      by (simp add: hev_socks5_client_connect_def hev_socks5_set_timeout_def hev_socks5_get_addr_family_def
          wp_simps connect_failed_def)
  next
    case False
    with n have n0: "hev_socks5_name_into_sockaddr6 R addr port sockaddr6_zero (s5_family c) = Some (0, sa, fam)"
      by auto
    from name_into_sockaddr6_family[OF n0] have "fam \<noteq> AF_UNSPEC" by auto
    with n0 show ?thesis
      by (simp add: hev_socks5_client_connect_def hev_socks5_get_addr_family_def
          hev_socks5_set_timeout_def Let_def)
        (rule open_and_connect_wp,
         auto simp: ok t hev_socks5_get_connect_timeout_def hev_socks5_set_addr_family_def)
  qed
  then show ?thesis by (auto simp: wp_def)
qed


definition v4_literal_resolver :: resolver where
  "v4_literal_resolver = \<lparr>res_pton4 = \<lambda>n. if n = [0x31] then Some [0, 0, 0, 1] else None,
     res_pton6 = \<lambda>_. None, res_getaddrinfo = \<lambda>_ _. None\<rparr>"

definition net_example :: net where
  "net_example = \<lparr>fds = [0, 1, 5], polled = [], sk = \<lambda>_. sock_example,
     dsk = \<lambda>_. \<lparr>dg_rxq = [], dg_txq = [], dg_sent = []\<rparr>, rcvbuf = \<lambda>_. 0, conns = [],
     socketq = [], sockoptq = [], connq = [[ConnProgress 30, ConnIsConn]], mallocq = [], blocks = 0\<rparr>"

theorem client_connect_safe_witness:
  "\<exists>r c' w'. hev_socks5_client_connect v4_literal_resolver socks5_conf_default hev_socks5_client_tcp_class
      [0x31] 1080 client_tcp_zero net_example = Some (r, c', w') \<and>
    (r = -1 \<and> connect_failed net_example w' \<and> s5_fd c' = s5_fd client_tcp_zero \<or>
     r = 0 \<and> (\<exists>sa. hev_socks5_name_into_sockaddr6 v4_literal_resolver [0x31] 1080 sockaddr6_zero
         (s5_family client_tcp_zero) = Some (0, sa, s5_family c') \<and>
         connected (s5_fd c') sa net_example w') \<and> s5_family c' \<noteq> AF_UNSPEC)"
  by (rule client_connect_safe)
    (simp_all add: net_ok_def net_example_def resolver_ok_def v4_literal_resolver_def socks5_conf_default_def)

text \<open>Against a proxy that accepts, the standard handshake of a TCP client succeeds. The
  client writes exactly its greeting, the RFC 1929 credentials if the proxy asked for them, and
  the CONNECT request for its destination; it consumes exactly the replies, whatever follows
  stays unread for the tunnelled stream; its address object is handed over and freed.\<close>

theorem client_tcp_handshake_standard:
  assumes "client_tcp_dest c w = Some a" "s5_type c = HEV_SOCKS5_TYPE_TCP"
    and "s5_fd c \<in> set (fds w)" "net_tx_fine (s5_timeout c) (s5_fd c) w"
    and "m = 0 \<or> m = 2 \<and> creds_ok c" "is_ip b"
    and "net_in (s5_timeout c) (s5_fd c) w = auth_reply m @ request_reply z b @ rest"
  shows "\<exists>c' w'. hev_socks5_client_handshake_standard hev_socks5_client_tcp_class c w = Some (0, c', w') \<and>
    net_out (s5_fd c) w' = net_out (s5_fd c) w @ greeting_msg c @
      (if m = 2 then creds_msg c else []) @ request_msg HEV_SOCKS5_REQ_CMD_CONNECT a \<and>
    net_in (s5_timeout c) (s5_fd c) w' = rest"
proof -
  have "request_cmd (s5_type c) = Some HEV_SOCKS5_REQ_CMD_CONNECT" using assms(2) by simp
  from tcp.handshake_standard_run[OF assms(1) this assms(3,4,5,7,6)] assms(7) show ?thesis
    by (auto simp: hev_socks5_client_tcp_class_def hev_socks5_client_tcp_set_upstream_addr_def conn_step_def)
qed

definition client_example :: hev_socks5_client_tcp where
  "client_example = client_tcp_zero\<lparr>s5_fd := 5, s5_timeout := 100, s5_type := HEV_SOCKS5_TYPE_TCP,
     auth_user := Some [0x75], auth_pass := Some [0x70, 0x77],
     tcp_addr := Some (encode_addr (SA_Name [0x61] 80))\<rparr>"

definition net_handshake_example :: net where
  "net_handshake_example = net_example\<lparr>blocks := 2, sk := \<lambda>_. \<lparr>rxq = [RxData [5], RxAgain 20, RxData
     ([2, 1, 0, 5, 0, 0, 1, 10, 0, 0, 1, 4, 56] @ [0xaa])], txq = [TxRoom 2, TxAgain 7], sent = [], errno = EOK\<rparr>\<rparr>"

lemma handshake_example_in:
  "net_in 100 5 net_handshake_example = auth_reply 2 @ request_reply 0 (SA_IPv4 [10, 0, 0, 1] 1080) @ [0xaa]"
  "client_tcp_dest client_example net_handshake_example = Some (SA_Name [0x61] 80)"
  by (simp_all add: net_handshake_example_def auth_reply_def request_reply_def be16_def client_tcp_dest_def
      client_example_def net_example_def decode_encode_addr[of _ "[]", simplified] del: encode_addr.simps)
    (simp_all add: be16_def)

theorem client_tcp_handshake_standard_witness:
  "\<exists>c' w'. hev_socks5_client_handshake_standard hev_socks5_client_tcp_class client_example net_handshake_example
      = Some (0, c', w') \<and>
    net_out 5 w' = [5, 1, 2] @ [1, 1, 0x75, 2, 0x70, 0x77] @ [5, 1, 0, 3, 1, 0x61, 0, 80] \<and>
    net_in 100 5 w' = [0xaa]"
  using client_tcp_handshake_standard[OF handshake_example_in(2), of 2 "SA_IPv4 [10, 0, 0, 1] 1080" 0 "[0xaa]"]
    handshake_example_in(1)
  by (simp add: client_example_def client_tcp_zero_def creds_ok_def greeting_msg_def has_creds_def
      creds_msg_def request_msg_def be16_def) (simp add: net_handshake_example_def net_example_def)



lemma handshake_inner:
  assumes "hev_socks5_client_handshake conf klass pl c w = Some (r, c', w')"
  shows "\<exists>c1. (if pl then hev_socks5_client_handshake_pipeline klass (hev_socks5_set_timeout (tcp_timeout conf) c) w
     else hev_socks5_client_handshake_standard klass (hev_socks5_set_timeout (tcp_timeout conf) c) w) = Some (r, c1, w')"
  using assms by (auto simp: hev_socks5_client_handshake_def hev_socks5_get_tcp_timeout_def
      Option.bind_eq_Some_conv split: if_splits)

text \<open>C23: a handshake is never taken to have succeeded without the proxy's consent. In every
  environment and in both modes, when \<open>hev_socks5_client_handshake\<close> returns 0 the bytes read
  were an acceptance of method 0 or 2, then, for method 2, the acceptance of the credentials,
  then a success reply with an IP address, and nothing else was consumed.\<close>

theorem client_tcp_handshake_sound:
  assumes "hev_socks5_client_handshake conf hev_socks5_client_tcp_class pl c w = Some (0, c', w')"
  shows "\<exists>m z b. (m = 0 \<or> m = 2) \<and> is_ip b \<and> net_in (tcp_timeout conf) (s5_fd c) w =
    auth_reply m @ request_reply z b @ net_in (tcp_timeout conf) (s5_fd c) w'"
  using handshake_inner[OF assms] tcp.handshake_standard_sound[of "hev_socks5_set_timeout (tcp_timeout conf) c" w _ w']
    tcp.handshake_pipeline_sound[of "hev_socks5_set_timeout (tcp_timeout conf) c" w _ w']
  by (auto simp: hev_socks5_set_timeout_def split: if_splits)

lemma handshake_example_ok:
  "\<exists>c' w'. hev_socks5_client_handshake socks5_conf_default hev_socks5_client_tcp_class False client_example
      net_handshake_example = Some (0, c', w')"
proof -
  let ?c = "hev_socks5_set_timeout 300000 client_example"
  have c: "client_tcp_dest ?c net_handshake_example = Some (SA_Name [0x61] 80)"
    using handshake_example_in(2) by (simp add: client_tcp_dest_def hev_socks5_set_timeout_def split: if_splits)
  have "\<exists>c' w'. hev_socks5_client_handshake_standard hev_socks5_client_tcp_class ?c net_handshake_example = Some (0, c', w')"
    using tcp.handshake_standard_run[OF c, of 1 2 0 "SA_IPv4 [10, 0, 0, 1] 1080" "[0xaa]"] handshake_example_in(1)
    by (simp add: client_example_def client_tcp_zero_def creds_ok_def hev_socks5_set_timeout_def
        hev_socks5_client_tcp_class_def hev_socks5_client_tcp_set_upstream_addr_def)
      (auto simp: net_handshake_example_def net_example_def)
  then show ?thesis
    by (auto simp: hev_socks5_client_handshake_def hev_socks5_get_tcp_timeout_def socks5_conf_default_def)
qed

theorem client_tcp_handshake_sound_witness:
  "\<exists>c' w'. hev_socks5_client_handshake socks5_conf_default hev_socks5_client_tcp_class False client_example
      net_handshake_example = Some (0, c', w') \<and>
    (\<exists>m z b. (m = 0 \<or> m = 2) \<and> is_ip b \<and> net_in (tcp_timeout socks5_conf_default) 5 net_handshake_example =
      auth_reply m @ request_reply z b @ net_in (tcp_timeout socks5_conf_default) 5 w')"
proof -
  from handshake_example_ok obtain c' w' where ok: "hev_socks5_client_handshake socks5_conf_default
      hev_socks5_client_tcp_class False client_example net_handshake_example = Some (0, c', w')" by blast
  moreover have "s5_fd client_example = 5" by (simp add: client_example_def)
  ultimately show ?thesis using client_tcp_handshake_sound[OF ok] by metis
qed

text \<open>The relay of a UDP client is the one the proxy announced. For \<open>UDP ASSOCIATE\<close>, given
  the address of the reply, the client opens one datagram socket and connects it to exactly
  that address, or fails and leaves the descriptors as they were; for UDP over TCP no
  descriptor is touched.\<close>

theorem client_udp_relay:
  assumes "net_ok w" "0 \<le> s5_timeout c" and b: "is_ip b"
  shows "\<exists>r c' w'. hev_socks5_client_udp_set_upstream_addr R conf bd c (encode_addr b) w = Some (r, c', w') \<and>
    (s5_type c \<noteq> HEV_SOCKS5_TYPE_UDP_IN_UDP \<longrightarrow> r = 0 \<and> w' = w \<and> c' = c) \<and>
    (s5_type c = HEV_SOCKS5_TYPE_UDP_IN_UDP \<longrightarrow>
       r = -1 \<and> connect_failed w w' \<and> c' = c \<or>
       r = 0 \<and> connected (udp_fd c') (sockaddr6_of b) w w' \<and> s5_udp_associated c' \<and>
         hev_socks5_client_udp_get_fd c' = udp_fd c')"
proof (cases "s5_type c = HEV_SOCKS5_TYPE_UDP_IN_UDP")
  case True
  have "\<exists>f'. hev_socks5_addr_into_sockaddr6 R (encode_addr b) sockaddr6_zero (s5_family c) =
      Some (0, sockaddr6_of b, f')"
    using b addr_into_sockaddr6_ipv4[of _ sockaddr6_zero R _ "[]"]
      addr_into_sockaddr6_ipv6[of _ sockaddr6_zero R _ "[]"]
    by (cases b) (auto simp: sockaddr6_zero_def)
  then obtain f' where into: "hev_socks5_addr_into_sockaddr6 R (encode_addr b) sockaddr6_zero (s5_family c) =
      Some (0, sockaddr6_of b, f')" by blast
  let ?P = "\<lambda>(r, c', w'). r = -1 \<and> connect_failed w w' \<and> c' = c \<or>
       r = 0 \<and> connected (udp_fd c') (sockaddr6_of b) w w' \<and> s5_udp_associated c' \<and>
         hev_socks5_client_udp_get_fd c' = udp_fd c'"
  have "wp (hev_socks5_client_udp_set_upstream_addr R conf bd c (encode_addr b) w) ?P"
    by (simp add: hev_socks5_client_udp_set_upstream_addr_def True hev_socks5_get_addr_family_def into)
      (rule open_and_connect_wp, auto simp: assms hev_socks5_client_udp_get_fd_def True)
  then show ?thesis using True by (auto simp: wp_def)
qed (simp add: hev_socks5_client_udp_set_upstream_addr_def)

definition udp_client_example :: hev_socks5_client_udp where
  "udp_client_example = client_udp_zero\<lparr>s5_fd := 5, s5_timeout := 100,
     s5_type := HEV_SOCKS5_TYPE_UDP_IN_UDP, s5_family := AF_INET, udp_fd := -1\<rparr>"

theorem client_udp_relay_witness:
  "\<exists>r c' w'. hev_socks5_client_udp_set_upstream_addr no_resolver socks5_conf_default (\<lambda>_ _ _. 0)
      udp_client_example (encode_addr (SA_IPv4 [10, 0, 0, 1] 4000)) net_example = Some (r, c', w') \<and>
    (r = -1 \<and> connect_failed net_example w' \<and> c' = udp_client_example \<or>
     r = 0 \<and> connected (udp_fd c') (sockaddr6_of (SA_IPv4 [10, 0, 0, 1] 4000)) net_example w' \<and>
       s5_udp_associated c' \<and> hev_socks5_client_udp_get_fd c' = udp_fd c')"
  using client_udp_relay[of net_example udp_client_example "SA_IPv4 [10, 0, 0, 1] 4000" no_resolver
      socks5_conf_default "\<lambda>_ _ _. 0"]
  by (simp add: net_ok_def net_example_def udp_client_example_def client_udp_zero_def del: encode_addr.simps sockaddr6_of.simps)

text \<open>A TCP client accounts for its memory. Every constructor either returns NULL and has
  freed what it allocated, or returns an object whose next request is for exactly the given
  address; destroying that object frees everything it holds.\<close>

theorem client_tcp_lifecycle:
  assumes "length stack = addr_size" "wf_addr a" "\<forall>n p. a = SA_Name n p \<longrightarrow> 0 \<notin> set n"
  shows "\<exists>r w'. client_tcp_new (addr_from stack a) w = Some (r, w') \<and> fds w' = fds w \<and>
    (case r of
       None \<Rightarrow> blocks w' = blocks w
     | Some c \<Rightarrow> client_tcp_dest c w' = Some a \<and> s5_fd c = -1 \<and> s5_type c = HEV_SOCKS5_TYPE_TCP \<and>
         (\<exists>w''. hev_socks5_client_tcp_destruct c w' = Some w'' \<and> blocks w'' = blocks w \<and> fds w'' = fds w))"
proof -
  obtain r where af: "addr_from stack a = Some (int (length (encode_addr a)), encode_addr a @ r)"
    using addr_from_encode[OF assms] by blast
  obtain b1 q1 where q1: "pop True (mallocq w) = (b1, q1)" by fastforce
  obtain b2 q2 where q2: "pop True q1 = (b2, q2)" by fastforce
  note defs = client_tcp_new_def sys_malloc_def q1 q2 af hev_socks5_client_tcp_construct_def
    hev_socks5_client_construct_def hev_socks5_construct_def hev_free_def Let_def
  show ?thesis
    using addr_len_encode[OF assms(2), of r] decode_encode_addr[OF assms(2), of "[]"]
    by (cases b1; cases b2)
      (simp_all add: defs rd_def client_tcp_dest_def hev_socks5_client_tcp_destruct_def
        hev_socks5_client_destruct_def hev_socks5_destruct_def)
qed

theorem client_tcp_lifecycle_witness:
  "\<exists>r w'. client_tcp_new (addr_from (replicate addr_size 0xaa) (SA_Name [0x61] 80)) net_example = Some (r, w') \<and>
    fds w' = fds net_example \<and>
    (case r of
       None \<Rightarrow> blocks w' = blocks net_example
     | Some c \<Rightarrow> client_tcp_dest c w' = Some (SA_Name [0x61] 80) \<and> s5_fd c = -1 \<and> s5_type c = HEV_SOCKS5_TYPE_TCP \<and>
         (\<exists>w''. hev_socks5_client_tcp_destruct c w' = Some w'' \<and> blocks w'' = blocks net_example \<and>
            fds w'' = fds net_example))"
  by (rule client_tcp_lifecycle) simp_all

text \<open>Except when the request cannot be sent. \<open>hev_socks5_client_write_request\<close> takes the
  address out of the object before it sends, and frees it only after a successful send: on
  failure the block is still allocated and the object no longer refers to it.\<close>

theorem client_tcp_request_failure_leaks:
  assumes "hev_socks5_client_write_request hev_socks5_client_tcp_class c w = Some (r, c', w')"
    and "r < 0" "s5_type c \<noteq> HEV_SOCKS5_TYPE_NONE"
  shows "tcp_addr c' = None \<and> blocks w' = blocks w"
proof -
  from assms(3) obtain cmd where cmd: "request_cmd (s5_type c) = Some cmd" by (cases "s5_type c") auto
  have "wlp (hev_socks5_client_write_request hev_socks5_client_tcp_class c w)
      (\<lambda>(r, c', w'). r < 0 \<longrightarrow> tcp_addr c' = None \<and> blocks w' = blocks w)"
    by (auto simp: hev_socks5_client_write_request_def cmd wp_simps hev_socks5_client_tcp_class_def
        hev_socks5_client_tcp_get_upstream_addr_def net_sendmsg_eq intro!: wlpI dest!: net_send_any(1))
  with assms(1,2) show ?thesis by (auto dest: wlpD)
qed

theorem client_tcp_request_failure_leaks_witness:
  "\<exists>c' w'. hev_socks5_client_write_request hev_socks5_client_tcp_class (client_example\<lparr>s5_fd := 7\<rparr>)
      net_handshake_example = Some (-1, c', w') \<and>
    tcp_addr c' = None \<and> blocks w' = blocks net_handshake_example"
proof -
  have "\<exists>c' w'. hev_socks5_client_write_request hev_socks5_client_tcp_class (client_example\<lparr>s5_fd := 7\<rparr>)
      net_handshake_example = Some (-1, c', w')"
    by (simp add: hev_socks5_client_write_request_def client_example_def client_tcp_zero_def
        net_handshake_example_def net_example_def hev_socks5_client_tcp_class_def
        hev_socks5_client_tcp_get_upstream_addr_def net_sendmsg_def rd_def hev_socks5_addr_len_def rd8_def)
  then obtain c' w' where run: "hev_socks5_client_write_request hev_socks5_client_tcp_class
      (client_example\<lparr>s5_fd := 7\<rparr>) net_handshake_example = Some (-1, c', w')" by blast
  with client_tcp_request_failure_leaks[OF run] show ?thesis by (simp add: client_example_def)
qed

end
