(* ===== verification/UdpFrame.thy ===== *)
theory UdpFrame
  imports Socks5
begin

section \<open>UDP messages over a SOCKS5 association (core hev-socks5-udp.c)\<close>

text \<open>
  The two transports of UDP messages: framed in the TCP connection (a 16-bit data length, an
  8-bit header length, the address, the data), or one datagram each (three reserved bytes, the
  address, the data). A \<open>HevSocks5UDPMsg\<close> points to an address and a buffer: \<open>m_addr\<close> is the
  state of the first pointer, \<open>m_buf\<close> the memory from the second one on. The functions take the
  object, the descriptor their \<open>get_fd\<close> method returns, and the state of the system.

  \<open>frame\<close> and \<open>datagram\<close> are the formats; the lemmas say that sending writes them, that receiving
  inverts them however a stream is cut, and where the code deviates: a header longer than 255
  bytes, and a stream that ends inside a frame.
\<close>

subsection \<open>State\<close>

datatype maddr = Uninit | Null | At bytes

record udp_msg =
  m_addr :: maddr
  m_buf :: bytes
  m_len :: nat

abbreviation (input) UDP_BUF_SIZE :: nat where "UDP_BUF_SIZE \<equiv> 1500"

fun deref :: "maddr \<Rightarrow> bytes option" where
  "deref (At a) = Some a"
| "deref _ = None"

text \<open>The yielder of a UDP object: over UDP it first looks at the control connection, and when
  that has ended makes the object time out at once.\<close>

definition udp_task_io_yielder ::
  "'a hev_socks5_scheme \<Rightarrow> yield_type \<Rightarrow> int \<Rightarrow> int \<times> net \<Rightarrow> int \<times> (int \<times> net)" where
  "udp_task_io_yielder self type v e =
     (let (timeout, w) = e;
          base = (\<lambda>w. (hev_socks5_task_io_yielder type timeout v, (timeout, w)))
      in if s5_type self = HEV_SOCKS5_TYPE_UDP_IN_UDP then
           (if s5_fd self \<in> set (fds w) then
              (case sys_recv 1 (sk w (s5_fd self)) of
                 (SysOk bs, s) \<Rightarrow>
                   (let w = w\<lparr>sk := (sk w)(s5_fd self := s)\<rparr>
                    in if bs = [] then (-1, (0, w)) else base w)
               | (SysAgain _, s) \<Rightarrow> base (w\<lparr>sk := (sk w)(s5_fd self := s)\<rparr>)
               | (SysErr, s) \<Rightarrow> (-1, (0, w\<lparr>sk := (sk w)(s5_fd self := s)\<rparr>)))
            else (-1, (0, w)))
         else base w)"

abbreviation udp_wait :: "'a hev_socks5_scheme \<Rightarrow> int \<Rightarrow> int \<times> net \<Rightarrow> bool \<times> (int \<times> net)" where
  "udp_wait self v e \<equiv> (case udp_task_io_yielder self HEV_TASK_WAITIO v e of (r, e') \<Rightarrow> (r \<noteq> 0, e'))"

text \<open>The datagram calls on a descriptor, with the yielder above.\<close>

definition net_recvmmsg ::
  "'a hev_socks5_scheme \<Rightarrow> int \<Rightarrow> nat list \<Rightarrow> bool \<Rightarrow> net \<Rightarrow>
    (int \<times> (sockaddr6 \<times> bytes) list \<times> 'a hev_socks5_scheme \<times> net) option" where
  "net_recvmmsg self fd lens dontwait w =
     (if fd \<in> set (fds w) then do {
        (r, ds, (t, w'), s) \<leftarrow> hev_task_io_socket_recvmmsg (udp_wait self) lens False dontwait
          (s5_timeout self, w) (dsk w fd);
        Some (r, ds, self\<lparr>s5_timeout := t\<rparr>, w'\<lparr>dsk := (dsk w')(fd := s)\<rparr>)
      } else Some (-1, [], self, w))"

definition net_sendmmsg ::
  "'a hev_socks5_scheme \<Rightarrow> int \<Rightarrow> (sockaddr6 option \<times> bytes) list \<Rightarrow> net \<Rightarrow>
    (int \<times> 'a hev_socks5_scheme \<times> net) option" where
  "net_sendmmsg self fd ms w =
     (if fd \<in> set (fds w) then do {
        (r, (t, w'), s) \<leftarrow> hev_task_io_socket_sendmmsg (udp_wait self) ms True False
          (s5_timeout self, w) (dsk w fd);
        Some (r, self\<lparr>s5_timeout := t\<rparr>, w'\<lparr>dsk := (dsk w')(fd := s)\<rparr>)
      } else Some (-1, self, w))"

definition net_recvmsg :: "int \<Rightarrow> int \<Rightarrow> nat list \<Rightarrow> net \<Rightarrow> (int \<times> bytes \<times> net) option" where
  "net_recvmsg timeout fd iov w =
     (if fd \<in> set (fds w) then do {
        (r, bs, s) \<leftarrow> hev_task_io_socket_recvmsg (io_wait timeout) iov True False (sk w fd);
        Some (r, bs, w\<lparr>sk := (sk w)(fd := s)\<rparr>)
      } else Some (-1, [], w))"

subsection \<open>Sending\<close>

text \<open>The first loop of both senders: the address lengths, or \<open>Some None\<close> when one is invalid.\<close>

fun udp_addr_lens :: "udp_msg list \<Rightarrow> nat list option option" where
  "udp_addr_lens [] = Some (Some [])"
| "udp_addr_lens (m # ms) = do {
     a \<leftarrow> deref (m_addr m);
     addrlen \<leftarrow> hev_socks5_addr_len a;
     if addrlen \<le> 0 then Some None
     else do {
       ls \<leftarrow> udp_addr_lens ms;
       Some (map_option (Cons (nat addrlen)) ls)
     }
   }"

text \<open>The three buffers of each message; \<open>hdr\<close> makes the first one.\<close>

fun udp_bufs :: "(nat \<Rightarrow> nat \<Rightarrow> bytes) \<Rightarrow> udp_msg list \<Rightarrow> nat list \<Rightarrow> bytes list list option" where
  "udp_bufs hdr (m # ms) (l # ls) = do {
     a \<leftarrow> deref (m_addr m);
     ab \<leftarrow> rd a 0 l;
     db \<leftarrow> rd (m_buf m) 0 (m_len m);
     rest \<leftarrow> udp_bufs hdr ms ls;
     Some ([hdr (m_len m) l, ab, db] # rest)
   }"
| "udp_bufs hdr _ _ = Some []"

definition udp_tcp_hdr :: "nat \<Rightarrow> nat \<Rightarrow> bytes" where
  "udp_tcp_hdr len addrlen = store16 (htons (word_of_nat len)) @ [word_of_nat (3 + addrlen)]"

definition hev_socks5_udp_sendmmsg_tcp ::
  "'a hev_socks5_scheme \<Rightarrow> int \<Rightarrow> udp_msg list \<Rightarrow> net \<Rightarrow> (int \<times> 'a hev_socks5_scheme \<times> net) option" where
  "hev_socks5_udp_sendmmsg_tcp self fd msgv w = do {
     lens \<leftarrow> udp_addr_lens msgv;
     case lens of
       None \<Rightarrow> Some (-1, self, w)
     | Some lens \<Rightarrow> do {
         iov \<leftarrow> udp_bufs udp_tcp_hdr msgv lens;
         (res, w) \<leftarrow> net_sendmsg (s5_timeout self) fd (concat iov) w;
         if res \<le> 0 then Some (-1, self, w) else Some (int (length msgv), self, w)
       }
   }"

definition hev_socks5_udp_sendmmsg_udp ::
  "'a hev_socks5_scheme \<Rightarrow> int \<Rightarrow> udp_msg list \<Rightarrow> net \<Rightarrow> (int \<times> 'a hev_socks5_scheme \<times> net) option" where
  "hev_socks5_udp_sendmmsg_udp self fd msgv w = do {
     lens \<leftarrow> udp_addr_lens msgv;
     case lens of
       None \<Rightarrow> Some (-1, self, w)
     | Some lens \<Rightarrow> do {
         iov \<leftarrow> udp_bufs (\<lambda>_ _. [0, 0, 0]) msgv lens;
         net_sendmmsg self fd (map (\<lambda>v. (None, concat v)) iov) w
       }
   }"

definition hev_socks5_udp_sendmmsg ::
  "'a hev_socks5_scheme \<Rightarrow> int \<Rightarrow> udp_msg list \<Rightarrow> net \<Rightarrow> (int \<times> 'a hev_socks5_scheme \<times> net) option" where
  "hev_socks5_udp_sendmmsg self fd msgv w =
     (case s5_type self of
        HEV_SOCKS5_TYPE_UDP_IN_TCP \<Rightarrow> hev_socks5_udp_sendmmsg_tcp self fd msgv w
      | HEV_SOCKS5_TYPE_UDP_IN_UDP \<Rightarrow> hev_socks5_udp_sendmmsg_udp self fd msgv w
      | _ \<Rightarrow> Some (-1, self, w))"

subsection \<open>Receiving from the TCP connection\<close>

text \<open>The header is read in at most two steps, whose results are added up as they are, errors
  included.\<close>

definition udp_read_head :: "int \<Rightarrow> int \<Rightarrow> bool \<Rightarrow> net \<Rightarrow> (int \<times> bytes \<times> net) option" where
  "udp_read_head timeout fd nonblock w = do {
     (res, hd, w) \<leftarrow> net_recv timeout fd 5 False nonblock w;
     if 0 < res \<and> res < 5 then do {
       (r, more, w) \<leftarrow> net_recv timeout fd (5 - nat res) True False w;
       Some (res + r, hd @ more, w)
     } else Some (res, hd, w)
   }"

text \<open>\<open>rlen\<close> messages have been received; \<open>m\<close> is the next one. The result of a short read is
  returned as it is.\<close>

fun udp_recv_tcp_loop ::
  "int \<Rightarrow> int \<Rightarrow> bool \<Rightarrow> nat \<Rightarrow> udp_msg list \<Rightarrow> net \<Rightarrow> (int \<times> udp_msg list \<times> net) option" where
  "udp_recv_tcp_loop timeout fd nonblock rlen [] w = Some (int rlen, [], w)"
| "udp_recv_tcp_loop timeout fd nonblock rlen (m # ms) w = do {
     (res, hd, w) \<leftarrow> udp_read_head timeout fd nonblock w;
     if res \<noteq> 5 then Some (if 0 < rlen then int rlen else res, m # ms, w)
     else if hd ! 2 < 5 then Some (-1, m # ms, w)
     else do {
       let addrlen = unat (hd ! 2) - 3;
       let datlen = unat (ntohs (load16 (take 2 hd)));
       if sz_sub (m_len m) addrlen < datlen then Some (-1, m # ms, w)
       else do {
         (res, body, w) \<leftarrow> net_recvmsg timeout fd [addrlen - 2, datlen] w;
         b \<leftarrow> wr (m_buf m) 2 (take (addrlen - 2) body);
         b \<leftarrow> wr b addrlen (drop (addrlen - 2) body);
         if res \<noteq> int (addrlen - 2 + datlen) then Some (res, m\<lparr>m_buf := b\<rparr> # ms, w)
         else do {
           b \<leftarrow> wr b 0 [hd ! 3, hd ! 4];
           let m = \<lparr>m_addr = At b, m_buf = drop addrlen b, m_len = datlen\<rparr>;
           (r, ms, w) \<leftarrow> udp_recv_tcp_loop timeout fd nonblock (Suc rlen) ms w;
           Some (r, m # ms, w)
         }
       }
     }
   }"

definition hev_socks5_udp_recvmmsg_tcp ::
  "'a hev_socks5_scheme \<Rightarrow> int \<Rightarrow> bool \<Rightarrow> udp_msg list \<Rightarrow> net \<Rightarrow>
    (int \<times> udp_msg list \<times> 'a hev_socks5_scheme \<times> net) option" where
  "hev_socks5_udp_recvmmsg_tcp self fd nonblock msgv w = do {
     (r, msgv, w) \<leftarrow> udp_recv_tcp_loop (s5_timeout self) fd nonblock 0 msgv w;
     Some (r, msgv, self, w)
   }"

subsection \<open>Receiving datagrams\<close>

text \<open>The kernel's writes into the buffers, then the loop over the received messages. The result
  is the array and whether the loop ended without an invalid message.\<close>

fun udp_store :: "udp_msg list \<Rightarrow> (sockaddr6 \<times> bytes) list \<Rightarrow> udp_msg list option" where
  "udp_store (m # ms) ((_, d) # ds) = do {
     b \<leftarrow> wr (m_buf m) 0 d;
     rest \<leftarrow> udp_store ms ds;
     Some (m\<lparr>m_buf := b\<rparr> # rest)
   }"
| "udp_store ms _ = Some ms"

fun udp_parse_loop :: "udp_msg list \<Rightarrow> nat list \<Rightarrow> (bool \<times> udp_msg list) option" where
  "udp_parse_loop (m # ms) (len # lens) = do {
     let udp_addr = drop 3 (m_buf m);
     addrlen \<leftarrow> hev_socks5_addr_len udp_addr;
     if len < 4 then do {
       (ok, ms) \<leftarrow> udp_parse_loop ms lens;
       Some (ok, m\<lparr>m_addr := Null, m_len := 0\<rparr> # ms)
     }
     else if addrlen \<le> 0 then Some (False, m\<lparr>m_len := len\<rparr> # ms)
     else let doff = 3 + nat addrlen in
       if len < doff then Some (False, m\<lparr>m_len := len\<rparr> # ms)
       else do {
         (ok, ms) \<leftarrow> udp_parse_loop ms lens;
         Some (ok, \<lparr>m_addr = At udp_addr, m_buf = drop doff (m_buf m), m_len = len - doff\<rparr> # ms)
       }
   }"
| "udp_parse_loop ms _ = Some (True, ms)"

definition hev_socks5_udp_recvmmsg_udp ::
  "'a hev_socks5_scheme \<Rightarrow> int \<Rightarrow> bool \<Rightarrow> udp_msg list \<Rightarrow> net \<Rightarrow>
    (int \<times> udp_msg list \<times> 'a hev_socks5_scheme \<times> net) option" where
  "hev_socks5_udp_recvmmsg_udp self fd nonblock msgv w = do {
     (res, ds, self, w) \<leftarrow> net_recvmmsg self fd (map m_len msgv) nonblock w;
     if res \<le> 0 then Some (res, msgv, self, w)
     else do {
       msgv \<leftarrow> udp_store msgv ds;
       let (ev, q) = pop [ConnOk] (connq w);
       let (res1, self, w) =
         (if \<not> s5_udp_associated self then
            let ok = (case ev of ConnOk # _ \<Rightarrow> True | _ \<Rightarrow> False);
                w = w\<lparr>connq := q, conns := (if ok then conns w @ [(fd, fst (hd ds))] else conns w)\<rparr>
            in if ok then (0, self\<lparr>s5_udp_associated := True\<rparr>, w) else (-1, self, w)
          else (0 :: int, self, w));
       if res1 < 0 then Some (-1, msgv, self, w)
       else do {
         (ok, msgv) \<leftarrow> udp_parse_loop msgv (map (length \<circ> snd) ds);
         Some (if ok then res else -1, msgv, self, w)
       }
     }
   }"

definition hev_socks5_udp_recvmmsg ::
  "'a hev_socks5_scheme \<Rightarrow> int \<Rightarrow> bool \<Rightarrow> udp_msg list \<Rightarrow> net \<Rightarrow>
    (int \<times> udp_msg list \<times> 'a hev_socks5_scheme \<times> net) option" where
  "hev_socks5_udp_recvmmsg self fd nonblock msgv w =
     (case s5_type self of
        HEV_SOCKS5_TYPE_UDP_IN_TCP \<Rightarrow> hev_socks5_udp_recvmmsg_tcp self fd nonblock msgv w
      | HEV_SOCKS5_TYPE_UDP_IN_UDP \<Rightarrow> hev_socks5_udp_recvmmsg_udp self fd nonblock msgv w
      | _ \<Rightarrow> Some (-1, msgv, self, w))"

subsection \<open>The formats\<close>

definition frame :: "socks_addr \<times> bytes \<Rightarrow> bytes" where
  "frame f = be16 (word_of_nat (length (snd f))) @ [word_of_nat (3 + length (encode_addr (fst f)))] @
     encode_addr (fst f) @ snd f"

definition datagram :: "socks_addr \<times> bytes \<Rightarrow> bytes" where
  "datagram f = [0, 0, 0] @ encode_addr (fst f) @ snd f"

definition framable :: "socks_addr \<times> bytes \<Rightarrow> bool" where
  "framable f \<longleftrightarrow> wf_addr (fst f) \<and> length (encode_addr (fst f)) \<le> 252 \<and> length (snd f) < 65536"

text \<open>The message a \<open>HevSocks5UDPMsg\<close> stands for.\<close>

definition denotes :: "udp_msg \<Rightarrow> socks_addr \<times> bytes \<Rightarrow> bool" where
  "denotes m f \<longleftrightarrow> (\<exists>ar br. m_addr m = At (encode_addr (fst f) @ ar) \<and> m_buf m = snd f @ br \<and>
     m_len m = length (snd f))"

lemma encode_addr_pos: "wf_addr a \<Longrightarrow> 4 \<le> length (encode_addr a)"
  by (cases a) auto

lemma encode_addr_nonempty [simp]: "encode_addr a \<noteq> []"
  by (cases a) auto

lemma udp_addr_lens_ok:
  "list_all2 denotes ms fs \<Longrightarrow> \<forall>f \<in> set fs. wf_addr (fst f) \<Longrightarrow>
    udp_addr_lens ms = Some (Some (map (\<lambda>f. length (encode_addr (fst f))) fs))"
proof (induction rule: list_all2_induct)
  case (Cons m ms f fs)
  then have "hev_socks5_addr_len (encode_addr (fst f) @ ar) = Some (int (length (encode_addr (fst f))))" for ar
    by (simp add: addr_len_encode)
  with Cons show ?case by (auto simp: denotes_def)
qed simp

lemma udp_bufs_ok:
  "list_all2 denotes ms fs \<Longrightarrow>
    udp_bufs hdr ms (map (\<lambda>f. length (encode_addr (fst f))) fs) =
      Some (map (\<lambda>f. [hdr (length (snd f)) (length (encode_addr (fst f))), encode_addr (fst f), snd f]) fs)"
  by (induction rule: list_all2_induct) (auto simp: denotes_def rd_def)

lemma sendmmsg_tcp_step:
  assumes ms: "list_all2 denotes ms fs" "\<forall>f \<in> set fs. wf_addr (fst f)" "fs \<noteq> []"
    and fd: "fd \<in> set (fds w)" "net_tx_fine (s5_timeout self) fd w"
  shows "\<exists>w'. hev_socks5_udp_sendmmsg_tcp self fd ms w = Some (int (length fs), self, w') \<and>
    io_step (s5_timeout self) fd (concat (map frame fs)) [] w w'"
proof -
  let ?iov = "map (\<lambda>f. [udp_tcp_hdr (length (snd f)) (length (encode_addr (fst f))), encode_addr (fst f), snd f]) fs"
  have cc: "concat (concat ?iov) = concat (map frame fs)"
    by (induction fs) (simp_all add: frame_def udp_tcp_hdr_def store16_htons)
  have "frame f \<noteq> []" for f by (simp add: frame_def)
  with ms(3) have ne: "concat (map frame fs) \<noteq> []" by (cases fs) auto
  from net_send_step[OF fd ne] obtain w'
    where s: "net_send (s5_timeout self) fd (concat (map frame fs)) w = Some (int (length (concat (map frame fs))), w')"
      "io_step (s5_timeout self) fd (concat (map frame fs)) [] w w'" by blast
  have "length ms = length fs" using ms(1) by (simp add: list_all2_lengthD)
  moreover have "0 < length (concat (map frame fs))" using ne by blast
  ultimately have "hev_socks5_udp_sendmmsg_tcp self fd ms w = Some (int (length fs), self, w')"
    unfolding hev_socks5_udp_sendmmsg_tcp_def udp_addr_lens_ok[OF ms(1,2)]
    by (simp add: udp_bufs_ok[OF ms(1)] net_sendmsg_eq cc s(1))
  with s(2) show ?thesis by blast
qed

subsection \<open>Receiving inverts the framing\<close>

lemma net_recv_partial:
  assumes "fd \<in> set (fds w)" "net_in t fd w \<noteq> []" "0 < len"
  shows "(\<exists>j w'. net_recv t fd len False dw w = Some (int j, take j (net_in t fd w), w') \<and> 0 < j \<and> j \<le> len \<and>
      j \<le> length (net_in t fd w) \<and> io_step t fd [] (take j (net_in t fd w)) w w') \<or>
    dw \<and> (\<exists>w'. net_recv t fd len False dw w = Some (-1, [], w') \<and> io_step t fd [] [] w w' \<and>
      errno (sk w' fd) = EAGAIN)"
  using recv_partial[OF assms(2,3), of dw]
proof (elim disjE conjE exE)
  fix j s'
  assume r: "hev_task_io_socket_recv (io_wait t) len False dw (sk w fd) = Some (int j, take j (net_in t fd w), s')"
    "0 < j" "j \<le> len" "j \<le> length (net_in t fd w)" "input (io_wait t) s' = drop j (net_in t fd w)"
    "txq s' = txq (sk w fd)" "sent s' = net_out fd w"
  have "io_step t fd [] (take j (net_in t fd w)) w (w\<lparr>sk := (sk w)(fd := s')\<rparr>)"
    unfolding io_step_def by (rule exI[of _ s']) (simp add: r del: io_wait_iff)
  with r assms(1) show ?thesis by (auto simp: net_recv_def simp del: io_wait_iff)
next
  fix s'
  assume r: dw "hev_task_io_socket_recv (io_wait t) len False dw (sk w fd) = Some (-1, [], s')"
    "input (io_wait t) s' = net_in t fd w" "txq s' = txq (sk w fd)" "sent s' = net_out fd w" "errno s' = EAGAIN"
  have "io_step t fd [] [] w (w\<lparr>sk := (sk w)(fd := s')\<rparr>)"
    unfolding io_step_def by (rule exI[of _ s']) (simp add: r del: io_wait_iff)
  with r assms(1) show ?thesis by (auto simp: net_recv_def simp del: io_wait_iff)
qed

lemma udp_read_head_step:
  assumes fd: "fd \<in> set (fds w)" and inp: "net_in t fd w = h @ rest" and h: "length h = 5"
  shows "(\<exists>w'. udp_read_head t fd nb w = Some (5, h, w') \<and> io_step t fd [] h w w') \<or>
    nb \<and> (\<exists>w'. udp_read_head t fd nb w = Some (-1, [], w') \<and> io_step t fd [] [] w w' \<and> errno (sk w' fd) = EAGAIN)"
proof -
  have ne: "net_in t fd w \<noteq> []" using inp h by (metis append_is_Nil_conv list.size(3) zero_neq_numeral)
  have "0 < (5 :: nat)" by simp
  from net_recv_partial[OF fd ne this, of nb] show ?thesis
  proof (elim disjE conjE exE)
    fix j w1
    assume r: "net_recv t fd 5 False nb w = Some (int j, take j (net_in t fd w), w1)" "0 < j" "j \<le> 5"
      "j \<le> length (net_in t fd w)" "io_step t fd [] (take j (net_in t fd w)) w w1"
    have tk: "take j (net_in t fd w) = take j h" using inp h r(3) by simp
    show ?thesis
    proof (cases "j = 5")
      case True
      with r tk h show ?thesis by (auto simp: udp_read_head_def)
    next
      case False
      with r have j: "j < 5" by simp
      have "net_in t fd w = take j h @ drop j h @ rest"
        using inp by (metis append.assoc append_take_drop_id)
      with io_step_rest[OF r(5)] tk have i1: "net_in t fd w1 = drop j h @ rest" by simp
      have fd1: "fd \<in> set (fds w1)" using fd io_stepD(4)[OF r(5)] by simp
      have "length (drop j h) = 5 - j" "0 < 5 - j" using h j by auto
      from net_recv_step[OF fd1 i1 this] obtain w2
        where r2: "net_recv t fd (5 - j) True False w1 = Some (int (5 - j), drop j h, w2)"
          "io_step t fd [] (drop j h) w1 w2" by blast
      have "udp_read_head t fd nb w = Some (5, take j h @ drop j h, w2)"
        using r(1,2) r2(1) j tk by (simp add: udp_read_head_def)
      with io_step_trans[OF r(5) r2(2)] tk show ?thesis by simp
    qed
  next
    fix w1
    assume nb "net_recv t fd 5 False nb w = Some (-1, [], w1)" "io_step t fd [] [] w w1" "errno (sk w1 fd) = EAGAIN"
    then show ?thesis by (simp add: udp_read_head_def)
  qed
qed

lemma net_recvmsg_eq: "net_recvmsg t fd iov w = net_recv t fd (sum_list iov) True False w"
  by (simp add: net_recvmsg_def net_recv_def recvmsg_eq_recv)

lemma unat_len_u16: "n < 65536 \<Longrightarrow> unat (word_of_nat n :: u16) = n"
  by (simp add: unat_of_nat)

text \<open>What one frame becomes in the receive buffer \<open>b\<close>.\<close>

definition received :: "bytes \<Rightarrow> socks_addr \<times> bytes \<Rightarrow> udp_msg" where
  "received b f = (let enc = encode_addr (fst f); tail = drop (length enc + length (snd f)) b in
     \<lparr>m_addr = At (enc @ snd f @ tail), m_buf = snd f @ tail, m_len = length (snd f)\<rparr>)"

lemma received_denotes: "denotes (received b f) f"
  by (simp add: denotes_def received_def Let_def)

definition buffer_for :: "udp_msg \<Rightarrow> socks_addr \<times> bytes \<Rightarrow> bool" where
  "buffer_for m f \<longleftrightarrow> length (m_buf m) = m_len m \<and> m_len m < 2 ^ 63 \<and>
     length (encode_addr (fst f)) + length (snd f) \<le> m_len m"

lemma store_frame:
  assumes "length (e0 # e1 # et) + length d \<le> length b"
  shows "do { b \<leftarrow> wr b 2 et; b \<leftarrow> wr b (length (e0 # e1 # et)) d; wr b 0 [e0, e1] }
    = Some ((e0 # e1 # et) @ d @ drop (length (e0 # e1 # et) + length d) b)"
proof -
  obtain x y b' where b: "b = x # y # b'" using assms by (cases b; cases "tl b") auto
  have l: "length et + length d \<le> length b'" using assms b by simp
  have b1: "wr b 2 et = Some (x # y # et @ drop (length et) b')"
    using l by (simp add: wr_def splice_at_def b)
  have b2: "wr (x # y # et @ drop (length et) b') (Suc (Suc (length et))) d =
      Some (x # y # et @ d @ drop (length et + length d) b')"
    using l by (simp add: wr_def splice_at_def add.commute)
  show ?thesis using b1 b2 by (simp add: b) (simp add: wr_def splice_at_def)
qed

lemma frame_split:
  assumes "framable f"
  obtains d0 d1 e0 e1 et where "frame f = [d0, d1, word_of_nat (3 + length (encode_addr (fst f))), e0, e1] @ et @ snd f"
    "encode_addr (fst f) = e0 # e1 # et" "unat (ntohs (load16 [d0, d1])) = length (snd f)"
proof -
  obtain d0 d1 where d: "be16 (word_of_nat (length (snd f))) = [d0, d1]" by (simp add: be16_def)
  have "4 \<le> length (encode_addr (fst f))" using assms encode_addr_pos by (simp add: framable_def)
  then obtain e0 e1 et where e: "encode_addr (fst f) = e0 # e1 # et"
    by (cases "encode_addr (fst f)"; cases "tl (encode_addr (fst f))") auto
  have "ntohs (load16 [d0, d1]) = word_of_nat (length (snd f))" by (simp flip: d)
  with assms have "unat (ntohs (load16 [d0, d1])) = length (snd f)"
    by (simp add: framable_def unat_len_u16)
  with d e that show thesis by (simp add: frame_def)
qed

lemma unat_hdrlen: "framable f \<Longrightarrow> unat (word_of_nat (3 + length (encode_addr (fst f))) :: u8) =
    3 + length (encode_addr (fst f))"
  by (rule unat_len_byte) (simp add: framable_def)

lemma udp_recv_tcp_frame:
  assumes fd: "fd \<in> set (fds w)" and f: "framable f" and buf: "buffer_for m f"
    and inp: "net_in t fd w = frame f @ rest"
  shows "(\<exists>w'. io_step t fd [] (frame f) w w' \<and>
      (\<forall>n ms. udp_recv_tcp_loop t fd nb n (m # ms) w =
        udp_recv_tcp_loop t fd nb (Suc n) ms w' \<bind> (\<lambda>(r, ms, w). Some (r, received (m_buf m) f # ms, w)))) \<or>
    nb \<and> (\<exists>w'. io_step t fd [] [] w w' \<and> errno (sk w' fd) = EAGAIN \<and>
      (\<forall>n ms. udp_recv_tcp_loop t fd nb n (m # ms) w = Some (if 0 < n then int n else -1, m # ms, w')))"
proof -
  obtain d0 d1 e0 e1 et where fr: "frame f = [d0, d1, word_of_nat (3 + length (encode_addr (fst f))), e0, e1] @ et @ snd f"
    and e: "encode_addr (fst f) = e0 # e1 # et" and d: "unat (ntohs (load16 [d0, d1])) = length (snd f)"
    using frame_split[OF f] .
  let ?hl = "word_of_nat (3 + length (encode_addr (fst f))) :: u8" and ?n = "length (encode_addr (fst f))"
  let ?h = "[d0, d1, ?hl, e0, e1]"
  have hl: "unat ?hl = 3 + ?n" using unat_hdrlen[OF f] .
  have h5: "\<not> ?hl < 5" using hl e by (simp add: word_less_nat_alt)
  have "net_in t fd w = ?h @ et @ snd f @ rest" "length ?h = 5" using inp fr by simp_all
  from udp_read_head_step[OF fd this, of nb] show ?thesis
  proof (elim disjE conjE exE)
    fix w1 assume r1: "udp_read_head t fd nb w = Some (5, ?h, w1)" "io_step t fd [] ?h w w1"
    have fd1: "fd \<in> set (fds w1)" using fd io_stepD(4)[OF r1(2)] by simp
    have i1: "net_in t fd w1 = (et @ snd f) @ rest" using io_step_rest[OF r1(2)] inp fr by simp
    have fit: "?n + length (snd f) \<le> m_len m" "m_len m < 2 ^ 63" "length (m_buf m) = m_len m"
      using buf by (auto simp: buffer_for_def)
    have "length (et @ snd f) = ?n - 2 + length (snd f)" "0 < ?n - 2 + length (snd f)"
      using e f encode_addr_pos[of "fst f"] by (auto simp: framable_def)
    from net_recv_step[OF fd1 i1 this] have "\<exists>w2. net_recv t fd (?n - 2 + length (snd f)) True False w1
        = Some (int (?n - 2 + length (snd f)), et @ snd f, w2) \<and> io_step t fd [] (et @ snd f) w1 w2"
      by blast
    then obtain w2 where r2: "net_recv t fd (?n - 2 + length (snd f)) True False w1
        = Some (int (?n - 2 + length (snd f)), et @ snd f, w2)" "io_step t fd [] (et @ snd f) w1 w2" by blast
    have sub: "\<not> sz_sub (m_len m) ?n < length (snd f)" using fit by simp
    have n2: "?n - 2 = length et" using e by simp
    have hd: "?h ! 2 = ?hl" "take 2 ?h = [d0, d1]" "?h ! 3 = e0" "?h ! 4 = e1" by simp_all
    from store_frame[of e0 e1 et "snd f" "m_buf m"] fit e
    obtain b1 b2 where b: "wr (m_buf m) 2 et = Some b1" "wr b1 ?n (snd f) = Some b2"
      "wr b2 0 [e0, e1] = Some (encode_addr (fst f) @ snd f @ drop (?n + length (snd f)) (m_buf m))"
      by (auto simp: Option.bind_eq_Some_conv)
    have "udp_recv_tcp_loop t fd nb n (m # ms) w =
        udp_recv_tcp_loop t fd nb (Suc n) ms w2 \<bind> (\<lambda>(r, ms, w). Some (r, received (m_buf m) f # ms, w))" for n ms
      using r1(1) r2(1)[unfolded n2] h5 sub
      by (simp add: hd hl d net_recvmsg_eq n2 b received_def Let_def del: of_nat_add)
    moreover have "io_step t fd [] (frame f) w w2"
      using io_step_trans[OF r1(2) r2(2)] by (simp add: fr)
    ultimately show ?thesis by blast
  next
    fix w1 assume nb: nb and r1: "udp_read_head t fd nb w = Some (-1, [], w1)" "io_step t fd [] [] w w1" "errno (sk w1 fd) = EAGAIN"
    then show ?thesis by auto
  qed
qed

text \<open>Receiving from a stream of frames: the first \<open>k\<close> buffers hold the first \<open>k\<close> messages.\<close>

lemma udp_recv_tcp_frames:
  assumes "list_all2 buffer_for ms fs" "\<forall>f \<in> set fs. framable f"
    and "fd \<in> set (fds w)" "net_in t fd w = concat (map frame fs) @ rest"
  shows "\<exists>k w'. k \<le> length fs \<and> (\<not> nb \<longrightarrow> k = length fs) \<and>
    udp_recv_tcp_loop t fd nb n ms w = Some (if n + k = 0 \<and> ms \<noteq> [] then -1 else int (n + k),
      map2 (\<lambda>m f. received (m_buf m) f) (take k ms) (take k fs) @ drop k ms, w') \<and>
    io_step t fd [] (concat (map frame (take k fs))) w w'"
  using assms
proof (induction arbitrary: w n rule: list_all2_induct)
  case Nil
  then show ?case by auto
next
  case (Cons m ms f fs)
  then have "framable f" "net_in t fd w = frame f @ concat (map frame fs) @ rest" by auto
  from udp_recv_tcp_frame[OF Cons.prems(2) this(1) Cons.hyps(1) this(2), of nb] show ?case
  proof (elim disjE conjE exE)
    fix w1 assume s: "io_step t fd [] (frame f) w w1"
      and run: "\<forall>n ms. udp_recv_tcp_loop t fd nb n (m # ms) w = udp_recv_tcp_loop t fd nb (Suc n) ms w1 \<bind>
        (\<lambda>(r, ms, w). Some (r, received (m_buf m) f # ms, w))"
    have "fd \<in> set (fds w1)" "net_in t fd w1 = concat (map frame fs) @ rest"
      using Cons.prems io_stepD(4)[OF s] io_step_rest[OF s] by auto
    with Cons.IH[of w1 "Suc n"] Cons.prems obtain k w'
      where k: "k \<le> length fs" "\<not> nb \<longrightarrow> k = length fs"
        "udp_recv_tcp_loop t fd nb (Suc n) ms w1 = Some (int (Suc n + k),
          map2 (\<lambda>m f. received (m_buf m) f) (take k ms) (take k fs) @ drop k ms, w')"
        "io_step t fd [] (concat (map frame (take k fs))) w1 w'" by auto
    with io_step_trans[OF s k(4)] run show ?case
      by (intro exI[of _ "Suc k"] exI[of _ w']) simp
  next
    fix w1 assume nb "io_step t fd [] [] w w1" "errno (sk w1 fd) = EAGAIN"
      "\<forall>n ms. udp_recv_tcp_loop t fd nb n (m # ms) w = Some (if 0 < n then int n else -1, m # ms, w1)"
    then show ?case by (intro exI[of _ 0] exI[of _ w1]) auto
  qed
qed

subsection \<open>A stream that ends inside a frame\<close>

lemmas recv_eval = hev_task_io_socket_recv_def task_recv_loop.simps sys_recv_def

lemma recv_once:
  "rxq s = RxData bs # q \<Longrightarrow> bs \<noteq> [] \<Longrightarrow> hev_task_io_socket_recv y n False dw s =
    Some (int (min n (length bs)), take n bs, s\<lparr>rxq := (if length bs \<le> n then q else RxData (drop n bs) # q)\<rparr>)"
  by (simp add: recv_eval min.commute)

lemma recv_until_eof:
  "rxq s = [RxData bs, RxEof] \<Longrightarrow> bs \<noteq> [] \<Longrightarrow> length bs < n \<Longrightarrow>
    hev_task_io_socket_recv y n True False s = Some (int (length bs), bs, s\<lparr>rxq := [RxEof]\<rparr>)"
  by (simp add: recv_eval)

lemma recv_eof: "rxq s = [RxEof] \<Longrightarrow> hev_task_io_socket_recv y n True False s = Some (0, [], s)"
  by (simp add: recv_eval)

definition ends_after :: "bytes \<Rightarrow> int \<Rightarrow> net \<Rightarrow> bool" where
  "ends_after bs fd w \<longleftrightarrow> fd \<in> set (fds w) \<and> rxq (sk w fd) = [RxData bs, RxEof]"

lemma read_head_short:
  assumes "ends_after bs fd w" "0 < length bs" "length bs < 5"
  shows "\<exists>w'. udp_read_head t fd nb w = Some (int (length bs), bs, w')"
  using assms by (auto simp: ends_after_def udp_read_head_def net_recv_def recv_once recv_eof)

lemma read_head_full:
  assumes "ends_after (h @ bs) fd w" "length h = 5"
  shows "\<exists>w'. udp_read_head t fd nb w = Some (5, h, w') \<and> fd \<in> set (fds w') \<and>
    rxq (sk w' fd) = (if bs = [] then [RxEof] else [RxData bs, RxEof])"
proof -
  have "h @ bs \<noteq> []" "h \<noteq> []" using assms(2) by auto
  with assms show ?thesis
    by (auto simp: ends_after_def udp_read_head_def net_recv_def recv_once simp del: append_is_Nil_conv)
qed

lemma udp_recv_tcp_truncated:
  assumes f: "framable f" and buf: "buffer_for m f" and j: "0 < j" "j < length (frame f)"
    and w: "ends_after (take j (frame f)) fd w"
  shows "\<exists>ms' w'. udp_recv_tcp_loop t fd nb 0 [m] w = Some (int (if j < 5 then j else j - 5), ms', w') \<and>
    map m_addr ms' = [m_addr m]"
proof (cases "j < 5")
  case True
  with j read_head_short[OF w, of t nb] show ?thesis by auto
next
  case False
  obtain d0 d1 e0 e1 et where fr: "frame f = [d0, d1, word_of_nat (3 + length (encode_addr (fst f))), e0, e1] @ et @ snd f"
    and e: "encode_addr (fst f) = e0 # e1 # et" and d: "unat (ntohs (load16 [d0, d1])) = length (snd f)"
    using frame_split[OF f] .
  let ?hl = "word_of_nat (3 + length (encode_addr (fst f))) :: u8" and ?n = "length (encode_addr (fst f))"
  let ?h = "[d0, d1, ?hl, e0, e1]" and ?b = "take (j - 5) (et @ snd f)"
  have hl: "unat ?hl = 3 + ?n" using unat_hdrlen[OF f] .
  have h5: "\<not> ?hl < 5" using hl e by (simp add: word_less_nat_alt)
  have n2: "?n - 2 = length et" using e by simp
  have fit: "?n + length (snd f) \<le> m_len m" "m_len m < 2 ^ 63" "length (m_buf m) = m_len m"
    using buf by (auto simp: buffer_for_def)
  have sub: "\<not> sz_sub (m_len m) ?n < length (snd f)" using fit by simp
  have hd: "?h ! 2 = ?hl" "take 2 ?h = [d0, d1]" by simp_all
  have h5l: "length ?h = 5" by simp
  have "take j (?h @ et @ snd f) = take j ?h @ take (j - length ?h) (et @ snd f)" by (rule take_append)
  moreover have "take j ?h = ?h" using False h5l by (intro take_all) simp
  ultimately have "take j (frame f) = ?h @ ?b" unfolding fr h5l by simp
  with w read_head_full[of ?h ?b fd w t nb] obtain w1
    where r1: "udp_read_head t fd nb w = Some (5, ?h, w1)" "fd \<in> set (fds w1)"
      "rxq (sk w1 fd) = (if ?b = [] then [RxEof] else [RxData ?b, RxEof])" by auto
  have lb: "length ?b = j - 5" "length ?b < length et + length (snd f)" using j(2) False by (simp_all add: fr)
  have "\<exists>w2. net_recv t fd (length et + length (snd f)) True False w1 = Some (int (j - 5), ?b, w2)"
  proof (cases "?b = []")
    case True
    have "rxq (sk w1 fd) = [RxEof]" using r1(3) unfolding if_P[OF True] .
    moreover have "j - 5 = 0" using lb(1) True by (metis list.size(3))
    ultimately show ?thesis using True r1(2) by (simp only: net_recv_def if_True recv_eof) simp
  next
    case False
    with r1(2,3) recv_until_eof[of "sk w1 fd" ?b "length et + length (snd f)" "io_wait t"] lb show ?thesis
      by (simp add: net_recv_def del: take_append io_wait_iff)
  qed
  then obtain w2 where r2: "net_recv t fd (length et + length (snd f)) True False w1 = Some (int (j - 5), ?b, w2)" by blast
  have l2: "2 + length (take (length et) ?b) \<le> length (m_buf m)" using fit e by simp
  obtain b1 where b1: "wr (m_buf m) 2 (take (length et) ?b) = Some b1" "length b1 = length (m_buf m)"
    using l2 length_wr[of "m_buf m" 2] by (metis wr_Some)
  have "?n + length (drop (length et) ?b) \<le> length b1" using fit e b1 lb(2) by simp
  then obtain b2 where b2: "wr b1 ?n (drop (length et) ?b) = Some b2" by (metis wr_Some)
  have ne: "int (j - 5) \<noteq> int (length et + length (snd f))" using lb by simp
  have "udp_recv_tcp_loop t fd nb 0 [m] w = Some (int (j - 5), [m\<lparr>m_buf := b2\<rparr>], w2)"
    using r1(1) r2 h5 sub b1 b2 ne
    by (simp add: hd hl d net_recvmsg_eq n2 Let_def del: of_nat_add take_append take_take)
  with False show ?thesis by simp
qed


subsection \<open>Datagrams\<close>

lemma sendmmsg_loop_rooms:
  assumes "\<forall>ev \<in> set (dg_txq s). \<exists>k. ev = TxRoom (Suc k)" "c < length ms"
  shows "\<exists>s'. task_sendmmsg_loop y True dw ms c e s = Some (int (length ms), e, s') \<and>
    dg_sent s' = dg_sent s @ drop c ms \<and> dg_rxq s' = dg_rxq s \<and> set (dg_txq s') \<subseteq> set (dg_txq s)"
  using assms
proof (induction "length (dg_txq s)" arbitrary: s c rule: less_induct)
  case less
  note unf = task_sendmmsg_loop.simps[of y True dw ms c e s]
  show ?case
  proof (cases "dg_txq s")
    case Nil
    with less.prems(2) show ?thesis by (simp add: unf sys_sendmmsg_def Let_def)
  next
    case (Cons ev q)
    with less.prems(1) obtain k where ev: "ev = TxRoom (Suc k)" by auto
    let ?s = "s\<lparr>dg_txq := q, dg_sent := dg_sent s @ take (Suc k) (drop c ms)\<rparr>"
    show ?thesis
    proof (cases "c + Suc k < length ms")
      case True
      with less.prems Cons have "\<forall>ev \<in> set (dg_txq ?s). \<exists>k. ev = TxRoom (Suc k)" by simp
      from less.hyps[OF _ this True] Cons obtain s' where
        "task_sendmmsg_loop y True dw ms (c + Suc k) e ?s = Some (int (length ms), e, s')"
        "dg_sent s' = dg_sent ?s @ drop (c + Suc k) ms" "dg_rxq s' = dg_rxq s" "set (dg_txq s') \<subseteq> set (dg_txq s)"
        by auto
      moreover have "take (Suc k) (drop c ms) @ drop (c + Suc k) ms = drop c ms"
        by (metis append_take_drop_id drop_drop add.commute)
      moreover have "min (Suc k) (length ms - c) = Suc k" using True by simp
      ultimately show ?thesis using True Cons ev by (simp add: unf sys_sendmmsg_def Let_def)
    next
      case False
      moreover from False less.prems(2) have "min (Suc k) (length ms - c) = length ms - c" by simp
      ultimately show ?thesis using Cons ev less.prems(2)
        by (auto simp: unf sys_sendmmsg_def Let_def)
    qed
  qed
qed

definition datagram_buffer :: "udp_msg \<Rightarrow> socks_addr \<times> bytes \<Rightarrow> bool" where
  "datagram_buffer m f \<longleftrightarrow> length (m_buf m) = m_len m \<and> length (datagram f) \<le> m_len m"

lemma take_dgs_all:
  "list_all2 datagram_buffer ms (map snd qs) \<Longrightarrow>
    take_dgs (map m_len ms) (map (\<lambda>(src, f). DgData src (datagram f)) qs @ rest) =
      (map (\<lambda>(src, f). (src, datagram f)) qs, rest)"
proof (induction ms arbitrary: qs)
  case (Cons m ms)
  then obtain src f qs' where q: "qs = (src, f) # qs'" "datagram_buffer m f" "list_all2 datagram_buffer ms (map snd qs')"
    by (auto simp: list_all2_Cons1 map_eq_Cons_conv)
  from q(2) have "length (datagram f) \<le> m_len m" by (simp add: datagram_buffer_def)
  with Cons.IH[OF q(3)] q(1) show ?case by simp
qed simp

lemma udp_parse_one:
  assumes "hev_socks5_addr_len (drop 3 (m_buf m)) = Some (int n)" "0 < n" "len = 3 + n + k"
  shows "udp_parse_loop (m # ms) (len # lens) = udp_parse_loop ms lens \<bind> (\<lambda>(ok, ms).
    Some (ok, \<lparr>m_addr = At (drop 3 (m_buf m)), m_buf = drop (3 + n) (m_buf m), m_len = k\<rparr> # ms))"
  using assms by (simp add: Let_def)

lemma udp_store_parse:
  assumes "list_all2 datagram_buffer ms (map snd qs)" "\<forall>q \<in> set qs. wf_addr (fst (snd q))"
  shows "\<exists>ms1 ms2. udp_store ms (map (\<lambda>(src, f). (src, datagram f)) qs) = Some ms1 \<and>
    udp_parse_loop ms1 (map (\<lambda>(src, f). length (datagram f)) qs) = Some (True, ms2) \<and>
    list_all2 denotes ms2 (map snd qs)"
  using assms
proof (induction ms arbitrary: qs)
  case (Cons m ms)
  then obtain src f qs' where q: "qs = (src, f) # qs'" "datagram_buffer m f" "list_all2 datagram_buffer ms (map snd qs')"
    "wf_addr (fst f)" "\<forall>q \<in> set qs'. wf_addr (fst (snd q))"
    by (auto simp: list_all2_Cons1 map_eq_Cons_conv)
  from Cons.IH[OF q(3,5)] obtain ms1 ms2 where i: "udp_store ms (map (\<lambda>(src, f). (src, datagram f)) qs') = Some ms1"
    "udp_parse_loop ms1 (map (\<lambda>(src, f). length (datagram f)) qs') = Some (True, ms2)"
    "list_all2 denotes ms2 (map snd qs')" by blast
  let ?r = "drop (length (datagram f)) (m_buf m)" and ?enc = "encode_addr (fst f)"
  have w: "wr (m_buf m) 0 (datagram f) = Some (datagram f @ ?r)"
    using q(2) by (simp add: datagram_buffer_def wr_def splice_at_def)
  have dg: "drop 3 (datagram f @ ?r) = ?enc @ snd f @ ?r" "length (datagram f) = 3 + length ?enc + length (snd f)"
    "drop (3 + length ?enc) (datagram f @ ?r) = snd f @ ?r"
    by (simp_all add: datagram_def numeral_3_eq_3)
  have al: "hev_socks5_addr_len (?enc @ snd f @ ?r) = Some (int (length ?enc))"
    using q(4) by (simp add: addr_len_encode)
  have p: "0 < length ?enc" by simp
  define b where "b = datagram f @ ?r"
  note dg' = dg(1,3)[folded b_def]
  have "m_buf (m\<lparr>m_buf := b\<rparr>) = b" by simp
  with dg'(1) al have "hev_socks5_addr_len (drop 3 (m_buf (m\<lparr>m_buf := b\<rparr>))) = Some (int (length ?enc))"
    by presburger
  from udp_parse_one[OF this p dg(2), of ms1 "map (\<lambda>(src, f). length (datagram f)) qs'"] i(2)
  have "udp_parse_loop (m\<lparr>m_buf := b\<rparr> # ms1) (length (datagram f) # map (\<lambda>(src, f). length (datagram f)) qs') =
     Some (True, \<lparr>m_addr = At (?enc @ snd f @ ?r), m_buf = snd f @ ?r, m_len = length (snd f)\<rparr> # ms2)"
    by (simp add: dg' del: udp_parse_loop.simps)
  moreover have "denotes \<lparr>m_addr = At (?enc @ snd f @ ?r), m_buf = snd f @ ?r, m_len = length (snd f)\<rparr> f"
    by (simp add: denotes_def)
  ultimately show ?case using q(1) i w by (simp add: b_def)
qed auto


lemma sendmmsg_udp_step:
  assumes ms: "list_all2 denotes ms fs" "\<forall>f \<in> set fs. wf_addr (fst f)" "fs \<noteq> []"
    and fd: "fd \<in> set (fds w)" "\<forall>ev \<in> set (dg_txq (dsk w fd)). \<exists>k. ev = TxRoom (Suc k)"
  shows "\<exists>w'. hev_socks5_udp_sendmmsg_udp self fd ms w = Some (int (length fs), self, w') \<and>
    dg_sent (dsk w' fd) = dg_sent (dsk w fd) @ map (\<lambda>f. (None, datagram f)) fs \<and> fds w' = fds w \<and>
    dg_rxq (dsk w' fd) = dg_rxq (dsk w fd) \<and> set (dg_txq (dsk w' fd)) \<subseteq> set (dg_txq (dsk w fd))"
proof -
  let ?out = "map (\<lambda>f. (None, datagram f)) fs"
  have out: "map (\<lambda>v. (None, concat v)) (map (\<lambda>f. [[0, 0, 0], encode_addr (fst f), snd f]) fs) = ?out"
    by (simp add: datagram_def)
  have "0 < length ?out" using ms(3) by simp
  from sendmmsg_loop_rooms[OF fd(2) this, of "udp_wait self" False "(s5_timeout self, w)"] obtain s'
    where "task_sendmmsg_loop (udp_wait self) True False ?out 0 (s5_timeout self, w) (dsk w fd)
        = Some (int (length fs), (s5_timeout self, w), s')"
      "dg_sent s' = dg_sent (dsk w fd) @ ?out" "dg_rxq s' = dg_rxq (dsk w fd)" "set (dg_txq s') \<subseteq> set (dg_txq (dsk w fd))"
    by auto
  with fd(1) show ?thesis
    unfolding hev_socks5_udp_sendmmsg_udp_def udp_addr_lens_ok[OF ms(1,2)]
    by (simp add: udp_bufs_ok[OF ms(1)] out net_sendmmsg_def hev_task_io_socket_sendmmsg_def del: map_map)
qed

lemma net_recvmmsg_all:
  assumes "list_all2 datagram_buffer ms (map snd qs)" "qs \<noteq> []" "fd \<in> set (fds w)"
    and "dg_rxq (dsk w fd) = map (\<lambda>(src, f). DgData src (datagram f)) qs @ rest"
  shows "net_recvmmsg self fd (map m_len ms) nb w = Some (int (length qs), map (\<lambda>(src, f). (src, datagram f)) qs,
    self, w\<lparr>dsk := (dsk w)(fd := dsk w fd\<lparr>dg_rxq := rest\<rparr>)\<rparr>)"
proof -
  obtain src f qs' where q: "qs = (src, f) # qs'" using assms(2) by (cases qs) auto
  have "sys_recvmmsg (map m_len ms) (dsk w fd) =
      (SysOk (map (\<lambda>(src, f). (src, datagram f)) qs), dsk w fd\<lparr>dg_rxq := rest\<rparr>)"
    using take_dgs_all[OF assms(1), of rest] assms(4) q by (simp add: sys_recvmmsg_def)
  with assms(3) show ?thesis
    by (simp add: net_recvmmsg_def hev_task_io_socket_recvmmsg_def task_recvmmsg_loop.simps)
qed

subsection \<open>Properties\<close>

text \<open>C27: framing inverts. Sending messages over the TCP connection writes exactly their frames;
  a peer whose input is those frames, cut into segments in any way, receives the same messages
  in order, in buffers that are big enough: all of them when it may wait, otherwise the first
  \<open>k\<close> that have arrived, with \<open>-1\<close> for none.\<close>

theorem udp_tcp_framing_roundtrip:
  assumes "s5_type self = HEV_SOCKS5_TYPE_UDP_IN_TCP" "fd \<in> set (fds w)" "net_tx_fine (s5_timeout self) fd w"
    and "list_all2 denotes ms fs" "\<forall>f \<in> set fs. framable f" "fs \<noteq> []"
    and "s5_type peer = HEV_SOCKS5_TYPE_UDP_IN_TCP" "fd' \<in> set (fds v)"
    and "net_in (s5_timeout peer) fd' v = concat (map frame fs) @ rest" "list_all2 buffer_for bufs fs"
  shows "\<exists>w' k bufs' v'.
    hev_socks5_udp_sendmmsg self fd ms w = Some (int (length fs), self, w') \<and>
    net_out fd w' = net_out fd w @ concat (map frame fs) \<and>
    hev_socks5_udp_recvmmsg peer fd' nb bufs v = Some (if k = 0 then -1 else int k, bufs', peer, v') \<and>
    k \<le> length fs \<and> (nb \<or> k = length fs) \<and> list_all2 denotes (take k bufs') (take k fs) \<and>
    drop k bufs' = drop k bufs \<and> net_in (s5_timeout peer) fd' v' = concat (map frame (drop k fs)) @ rest"
proof -
  have "\<forall>f \<in> set fs. wf_addr (fst f)" using assms(5) by (simp add: framable_def)
  from sendmmsg_tcp_step[OF assms(4) this assms(6,2,3)] obtain w'
    where s: "hev_socks5_udp_sendmmsg_tcp self fd ms w = Some (int (length fs), self, w')"
      "io_step (s5_timeout self) fd (concat (map frame fs)) [] w w'" by blast
  from udp_recv_tcp_frames[OF assms(10,5,8,9), of nb 0] obtain k v'
    where k: "k \<le> length fs" "\<not> nb \<longrightarrow> k = length fs"
      "udp_recv_tcp_loop (s5_timeout peer) fd' nb 0 bufs v = Some (if 0 + k = 0 \<and> bufs \<noteq> [] then -1 else int (0 + k),
        map2 (\<lambda>m f. received (m_buf m) f) (take k bufs) (take k fs) @ drop k bufs, v')"
      "io_step (s5_timeout peer) fd' [] (concat (map frame (take k fs))) v v'" by blast
  have len: "length bufs = length fs" using assms(10) by (simp add: list_all2_lengthD)
  let ?b = "map2 (\<lambda>m f. received (m_buf m) f) (take k bufs) (take k fs)"
  have lb: "length ?b = k" using k(1) len by simp
  have "list_all2 denotes ?b (take k fs)"
    using k(1) len by (auto simp: list_all2_conv_all_nth received_denotes)
  moreover have "net_in (s5_timeout peer) fd' v = concat (map frame (take k fs)) @ concat (map frame (drop k fs)) @ rest"
    unfolding assms(9) by (metis append.assoc append_take_drop_id concat_append map_append)
  note io_step_rest[OF k(4) this]
  moreover have "bufs \<noteq> []" using assms(6) len by auto
  ultimately show ?thesis using s(1) io_stepD(1)[OF s(2)] k(1-3) assms(1,7) lb
    by - (rule exI[of _ w'], rule exI[of _ k], rule exI[of _ "?b @ drop k bufs"], rule exI[of _ v'],
      auto simp: hev_socks5_udp_sendmmsg_def hev_socks5_udp_recvmmsg_def hev_socks5_udp_recvmmsg_tcp_def)
qed

definition udp_example :: "socks5_type \<Rightarrow> hev_socks5" where
  "udp_example type = \<lparr>s5_fd = 4, s5_timeout = 100, s5_udp_associated = False, s5_type = type, s5_family = AF_UNSPEC\<rparr>"

definition udp_net :: "rx_ev list \<Rightarrow> sockaddr6 dg_ev list \<Rightarrow> net" where
  "udp_net rx dg = \<lparr>fds = [4], polled = [4], sk = (\<lambda>_. \<lparr>rxq = rx, txq = [], sent = [], errno = EOK\<rparr>),
     dsk = (\<lambda>_. \<lparr>dg_rxq = dg, dg_txq = [], dg_sent = []\<rparr>), rcvbuf = (\<lambda>_. 0), conns = [],
     socketq = [], sockoptq = [], connq = [], mallocq = [], blocks = 0\<rparr>"

abbreviation (input) udp_slot :: "nat \<Rightarrow> udp_msg" where
  "udp_slot n \<equiv> \<lparr>m_addr = Uninit, m_buf = replicate n 0, m_len = n\<rparr>"

theorem udp_tcp_framing_roundtrip_witness:
  "\<exists>w' bufs' v'.
    hev_socks5_udp_sendmmsg (udp_example HEV_SOCKS5_TYPE_UDP_IN_TCP) 4
      [\<lparr>m_addr = At [1, 10, 0, 0, 1, 0, 53], m_buf = [0x61, 0x62], m_len = 2\<rparr>] (udp_net [] []) = Some (1, udp_example HEV_SOCKS5_TYPE_UDP_IN_TCP, w') \<and>
    net_out 4 w' = [0, 2, 10, 1, 10, 0, 0, 1, 0, 53, 0x61, 0x62] \<and>
    hev_socks5_udp_recvmmsg (udp_example HEV_SOCKS5_TYPE_UDP_IN_TCP) 4 False [udp_slot 12]
      (udp_net [RxData [0, 2, 10], RxAgain 1, RxData [1, 10, 0, 0, 1, 0, 53, 0x61], RxData [0x62]] []) =
        Some (1, bufs', udp_example HEV_SOCKS5_TYPE_UDP_IN_TCP, v') \<and>
    list_all2 denotes bufs' [(SA_IPv4 [10, 0, 0, 1] 53, [0x61, 0x62])]"
proof -
  let ?f = "(SA_IPv4 [10, 0, 0, 1] 53, [0x61, 0x62 :: u8])" and ?self = "udp_example HEV_SOCKS5_TYPE_UDP_IN_TCP"
  let ?m = "\<lparr>m_addr = At [1, 10, 0, 0, 1, 0, 53], m_buf = [0x61, 0x62], m_len = 2\<rparr>"
  let ?v = "udp_net [RxData [0, 2, 10], RxAgain 1, RxData [1, 10, 0, 0, 1, 0, 53, 0x61], RxData [0x62]] []"
  have fr: "concat (map frame [?f]) = [0, 2, 10, 1, 10, 0, 0, 1, 0, 53, 0x61, 0x62]"
    by (simp add: frame_def be16_def)
  have "denotes ?m ?f" by (simp add: denotes_def be16_def)
  then have d: "list_all2 denotes [?m] [?f]" by simp
  have b: "list_all2 buffer_for [udp_slot 12] [?f]" by (simp add: buffer_for_def)
  have f: "\<forall>f \<in> set [?f]. framable f" "[?f] \<noteq> []" by (simp_all add: framable_def)
  have n: "4 \<in> set (fds (udp_net [] []))" "net_tx_fine (s5_timeout ?self) 4 (udp_net [] [])" "4 \<in> set (fds ?v)"
    "net_out 4 (udp_net [] []) = []" by (simp_all add: udp_net_def)
  have t: "s5_type ?self = HEV_SOCKS5_TYPE_UDP_IN_TCP" by (simp add: udp_example_def)
  have i: "net_in (s5_timeout ?self) 4 ?v = concat (map frame [?f]) @ []"
    unfolding fr by (simp add: udp_net_def udp_example_def)
  obtain w' k bufs' v' where
    "hev_socks5_udp_sendmmsg ?self 4 [?m] (udp_net [] []) = Some (int (length [?f]), ?self, w')"
    "net_out 4 w' = [] @ concat (map frame [?f])" "False \<or> k = length [?f]"
    "hev_socks5_udp_recvmmsg ?self 4 False [udp_slot 12] ?v = Some (if k = 0 then -1 else int k, bufs', ?self, v')"
    "list_all2 denotes (take k bufs') (take k [?f])" "drop k bufs' = drop k [udp_slot 12]"
    using udp_tcp_framing_roundtrip[OF t n(1,2) d f t n(3) i b, of False] unfolding n(4) by blast
  then show ?thesis unfolding fr
    by - (rule exI[of _ w'], rule exI[of _ bufs'], rule exI[of _ v'], simp)
qed


text \<open>A stream that ends inside a frame. If the connection is closed after \<open>j\<close> bytes of a
  frame, receiving returns a number of bytes, not of messages, although no message was stored:
  the \<open>addr\<close> of the slot is still unset. The callers take the result as the number of slots that
  are filled, and one slot can come back as eight.\<close>

theorem udp_tcp_truncated_frame_counts_bytes:
  assumes "s5_type self = HEV_SOCKS5_TYPE_UDP_IN_TCP" "framable f" "buffer_for m f"
    and "0 < j" "j < length (frame f)" "ends_after (take j (frame f)) fd w"
  shows "\<exists>m' w'. hev_socks5_udp_recvmmsg self fd nb [m] w =
      Some (int (if j < 5 then j else j - 5), [m'], self, w') \<and> m_addr m' = m_addr m"
proof -
  from udp_recv_tcp_truncated[OF assms(2-6), of "s5_timeout self" nb] obtain ms' w'
    where "udp_recv_tcp_loop (s5_timeout self) fd nb 0 [m] w = Some (int (if j < 5 then j else j - 5), ms', w')"
      "map m_addr ms' = [m_addr m]" by (elim exE conjE)
  with assms(1) show ?thesis
    by (auto simp: hev_socks5_udp_recvmmsg_def hev_socks5_udp_recvmmsg_tcp_def map_eq_Cons_conv)
qed

theorem udp_tcp_truncated_frame_counts_bytes_witness:
  "\<exists>m' w'. hev_socks5_udp_recvmmsg (udp_example HEV_SOCKS5_TYPE_UDP_IN_TCP) 4 False [udp_slot 15]
      (udp_net [RxData [0, 5, 10, 1, 10, 0, 0, 1, 0, 53, 1, 2, 3], RxEof] []) =
      Some (8, [m'], udp_example HEV_SOCKS5_TYPE_UDP_IN_TCP, w') \<and> m_addr m' = Uninit"
proof -
  let ?f = "(SA_IPv4 [10, 0, 0, 1] 53, [1, 2, 3, 4, 5 :: u8])"
  have fr: "frame ?f = [0, 5, 10, 1, 10, 0, 0, 1, 0, 53, 1, 2, 3, 4, 5]" by (simp add: frame_def be16_def)
  have "framable ?f" "buffer_for (udp_slot 15) ?f" by (simp_all add: framable_def buffer_for_def)
  from udp_tcp_truncated_frame_counts_bytes[OF _ this, of "udp_example HEV_SOCKS5_TYPE_UDP_IN_TCP" 13 4
      "udp_net [RxData [0, 5, 10, 1, 10, 0, 0, 1, 0, 53, 1, 2, 3], RxEof] []" False]
  show ?thesis unfolding fr by (simp add: ends_after_def udp_net_def udp_example_def)
qed

lemma udp_read_head_at_5:
  assumes "fd \<in> set (fds w)" "net_in t fd w = h @ rest" "length h = 5" "h ! 2 < 5"
  shows "\<exists>w'. udp_recv_tcp_loop t fd nb 0 (m # ms) w = Some (-1, m # ms, w')"
  using udp_read_head_step[OF assms(1-3), of nb] assms(4) by force

text \<open>Names of 249 to 253 bytes do not pass through a TCP association. The sender accepts the
  message, but the 8-bit header length wraps, and a peer of the same code refuses the stream
  that was written.\<close>

theorem udp_tcp_long_name_refused:
  assumes "s5_type self = HEV_SOCKS5_TYPE_UDP_IN_TCP" "fd \<in> set (fds w)" "net_tx_fine (s5_timeout self) fd w"
    and "denotes m (SA_Name n p, d)" "249 \<le> length n" "length n \<le> 253"
    and "s5_type peer = HEV_SOCKS5_TYPE_UDP_IN_TCP" "fd' \<in> set (fds v)"
    and "net_in (s5_timeout peer) fd' v = frame (SA_Name n p, d)"
  shows "\<exists>w' v'. hev_socks5_udp_sendmmsg self fd [m] w = Some (1, self, w') \<and>
    net_out fd w' = net_out fd w @ frame (SA_Name n p, d) \<and>
    hev_socks5_udp_recvmmsg peer fd' nb (b # bufs) v = Some (-1, b # bufs, peer, v')"
proof -
  have "list_all2 denotes [m] [(SA_Name n p, d)]" "\<forall>f \<in> set [(SA_Name n p, d)]. wf_addr (fst f)"
    using assms(4,6) by auto
  from sendmmsg_tcp_step[OF this _ assms(2,3)] obtain w'
    where s: "hev_socks5_udp_sendmmsg_tcp self fd [m] w = Some (1, self, w')"
      "io_step (s5_timeout self) fd (frame (SA_Name n p, d)) [] w w'" by auto
  obtain d0 d1 where d: "be16 (word_of_nat (length d)) = [d0, d1]" by (simp add: be16_def)
  let ?h = "[d0, d1, word_of_nat (7 + length n), 3, word_of_nat (length n)] :: bytes"
  have "(word_of_nat (7 + length n) :: u8) < 5"
  proof -
    have "(7 + length n) mod 256 = length n - 249" using assms(5,6) by (simp add: mod_if)
    then have "unat (word_of_nat (7 + length n) :: u8) = length n - 249" by (simp only: unat_of_nat) simp
    with assms(6) show ?thesis by (simp add: word_less_nat_alt)
  qed
  then have h: "?h ! 2 < 5" "length ?h = 5" by simp_all
  have "net_in (s5_timeout peer) fd' v = ?h @ n @ be16 p @ d"
    unfolding assms(9) by (simp add: frame_def d)
  from udp_read_head_at_5[OF assms(8) this h(2,1), of nb b bufs] obtain v'
    where "udp_recv_tcp_loop (s5_timeout peer) fd' nb 0 (b # bufs) v = Some (-1, b # bufs, v')" by blast
  with s(1) assms(1,7) io_stepD(1)[OF s(2)] show ?thesis
    by (simp add: hev_socks5_udp_sendmmsg_def hev_socks5_udp_recvmmsg_def hev_socks5_udp_recvmmsg_tcp_def
        del: udp_recv_tcp_loop.simps)
qed

theorem udp_tcp_long_name_refused_witness:
  "\<exists>w' v'. hev_socks5_udp_sendmmsg (udp_example HEV_SOCKS5_TYPE_UDP_IN_TCP) 4
      [\<lparr>m_addr = At (encode_addr (SA_Name (replicate 249 0x61) 53)), m_buf = [1], m_len = 1\<rparr>] (udp_net [] []) =
        Some (1, udp_example HEV_SOCKS5_TYPE_UDP_IN_TCP, w') \<and>
    net_out 4 w' = frame (SA_Name (replicate 249 0x61) 53, [1]) \<and>
    hev_socks5_udp_recvmmsg (udp_example HEV_SOCKS5_TYPE_UDP_IN_TCP) 4 False [udp_slot 1500]
      (udp_net [RxData (frame (SA_Name (replicate 249 0x61) 53, [1]))] []) =
        Some (-1, [udp_slot 1500], udp_example HEV_SOCKS5_TYPE_UDP_IN_TCP, v')"
proof -
  let ?n = "replicate 249 (0x61 :: u8)" and ?self = "udp_example HEV_SOCKS5_TYPE_UDP_IN_TCP"
  let ?m = "\<lparr>m_addr = At (encode_addr (SA_Name ?n 53)), m_buf = [1], m_len = 1\<rparr>"
  have d: "denotes ?m (SA_Name ?n 53, [1])" by (auto simp: denotes_def simp del: encode_addr.simps)
  have l: "249 \<le> length ?n" "length ?n \<le> 253" by simp_all
  have t: "s5_type ?self = HEV_SOCKS5_TYPE_UDP_IN_TCP" by (simp add: udp_example_def)
  have n: "4 \<in> set (fds (udp_net rx []))" "net_tx_fine (s5_timeout ?self) 4 (udp_net rx [])"
    "net_out 4 (udp_net rx []) = []" for rx by (simp_all add: udp_net_def)
  have "net_in t 4 (udp_net [RxData bs] []) = bs" for t bs by (simp add: udp_net_def)
  from udp_tcp_long_name_refused[OF t n(1,2) d l t n(1) this, where nb = False and b = "udp_slot 1500" and bufs = "[]"] show ?thesis
    unfolding n(3) by simp
qed

text \<open>Datagrams invert. Over UDP each message is sent as one datagram, and received
  datagrams are stored as the messages they carry; on an object that is not yet associated, the
  relay's socket is first connected to the source of the first one.\<close>

theorem udp_datagram_roundtrip:
  assumes "s5_type self = HEV_SOCKS5_TYPE_UDP_IN_UDP" "fd \<in> set (fds w)"
    and "\<forall>ev \<in> set (dg_txq (dsk w fd)). \<exists>k. ev = TxRoom (Suc k)"
    and "list_all2 denotes ms fs" "\<forall>f \<in> set fs. wf_addr (fst f)" "fs \<noteq> []"
    and "s5_type peer = HEV_SOCKS5_TYPE_UDP_IN_UDP" "fd' \<in> set (fds v)" "connq v = []"
    and "length srcs = length fs" "dg_rxq (dsk v fd') = map2 (\<lambda>src f. DgData src (datagram f)) srcs fs @ rest"
    and "list_all2 datagram_buffer bufs fs"
  shows "\<exists>w' bufs' peer' v'.
    hev_socks5_udp_sendmmsg self fd ms w = Some (int (length fs), self, w') \<and>
    dg_sent (dsk w' fd) = dg_sent (dsk w fd) @ map (\<lambda>f. (None, datagram f)) fs \<and>
    hev_socks5_udp_recvmmsg peer fd' nb bufs v = Some (int (length fs), bufs', peer', v') \<and>
    list_all2 denotes bufs' fs \<and> dg_rxq (dsk v' fd') = rest \<and>
    peer' = peer\<lparr>s5_udp_associated := True\<rparr> \<and>
    conns v' = (if s5_udp_associated peer then conns v else conns v @ [(fd', hd srcs)])"
proof -
  from sendmmsg_udp_step[OF assms(4-6,2,3)] obtain w'
    where s: "hev_socks5_udp_sendmmsg_udp self fd ms w = Some (int (length fs), self, w')"
      "dg_sent (dsk w' fd) = dg_sent (dsk w fd) @ map (\<lambda>f. (None, datagram f)) fs" by blast
  let ?qs = "zip srcs fs" and ?v = "v\<lparr>dsk := (dsk v)(fd' := dsk v fd'\<lparr>dg_rxq := rest\<rparr>)\<rparr>"
  have qs: "map snd ?qs = fs" "?qs \<noteq> []" "length ?qs = length fs" using assms(6,10) by auto
  have fit: "list_all2 datagram_buffer bufs (map snd ?qs)" "\<forall>q \<in> set ?qs. wf_addr (fst (snd q))"
    using assms(5,12) qs(1) by (simp, metis prod.collapse set_zip_rightD)
  let ?ds = "map (\<lambda>(src, f). (src, datagram f)) ?qs"
  from net_recvmmsg_all[OF fit(1) qs(2) assms(8,11)]
  have r: "net_recvmmsg peer fd' (map m_len bufs) nb v = Some (int (length fs), ?ds, peer, ?v)"
    by (simp only: qs(3))
  from udp_store_parse[OF fit] obtain ms1 ms2 where p: "udp_store bufs ?ds = Some ms1"
    "udp_parse_loop ms1 (map (\<lambda>(src, f). length (datagram f)) ?qs) = Some (True, ms2)" "list_all2 denotes ms2 fs"
    unfolding qs(1) by blast
  have lens: "map (length \<circ> snd) ?ds = map (\<lambda>(src, f). length (datagram f)) ?qs" by auto
  have hd: "fst (hd ?ds) = hd srcs" using assms(6,10) by (cases srcs; cases fs) auto
  have pos: "\<not> int (length fs) \<le> 0" using assms(6) by simp
  have "peer\<lparr>s5_udp_associated := True\<rparr> = peer" if "s5_udp_associated peer" using that by simp
  then show ?thesis using s assms(1,7,9) p(3) pos
    by (cases "s5_udp_associated peer")
      (simp_all add: hev_socks5_udp_sendmmsg_def hev_socks5_udp_recvmmsg_def hev_socks5_udp_recvmmsg_udp_def
        r p(1,2) lens hd Let_def del: map_map)
qed

theorem udp_datagram_roundtrip_witness:
  "\<exists>w' bufs' peer' v'.
    hev_socks5_udp_sendmmsg (udp_example HEV_SOCKS5_TYPE_UDP_IN_UDP) 4
      [\<lparr>m_addr = At [1, 10, 0, 0, 1, 0, 53], m_buf = [7], m_len = 1\<rparr>] (udp_net [] []) =
        Some (1, udp_example HEV_SOCKS5_TYPE_UDP_IN_UDP, w') \<and>
    dg_sent (dsk w' 4) = [(None, [0, 0, 0, 1, 10, 0, 0, 1, 0, 53, 7])] \<and>
    hev_socks5_udp_recvmmsg (udp_example HEV_SOCKS5_TYPE_UDP_IN_UDP) 4 True [udp_slot 11]
      (udp_net [] [DgData sockaddr6_zero [0, 0, 0, 1, 10, 0, 0, 1, 0, 53, 7]]) = Some (1, bufs', peer', v') \<and>
    list_all2 denotes bufs' [(SA_IPv4 [10, 0, 0, 1] 53, [7])] \<and> s5_udp_associated peer' \<and>
    conns v' = [(4, sockaddr6_zero)]"
proof -
  let ?f = "(SA_IPv4 [10, 0, 0, 1] 53, [7 :: u8])" and ?self = "udp_example HEV_SOCKS5_TYPE_UDP_IN_UDP"
  let ?m = "\<lparr>m_addr = At [1, 10, 0, 0, 1, 0, 53], m_buf = [7], m_len = 1\<rparr>"
  have dg: "datagram ?f = [0, 0, 0, 1, 10, 0, 0, 1, 0, 53, 7]" by (simp add: datagram_def be16_def)
  have d: "list_all2 denotes [?m] [?f]" "\<forall>f \<in> set [?f]. wf_addr (fst f)" "[?f] \<noteq> []"
    by (simp_all add: denotes_def be16_def)
  have b: "list_all2 datagram_buffer [udp_slot 11] [?f]" by (simp add: datagram_buffer_def dg)
  have t: "s5_type ?self = HEV_SOCKS5_TYPE_UDP_IN_UDP" "\<not> s5_udp_associated ?self" by (simp_all add: udp_example_def)
  let ?v = "udp_net [] [DgData sockaddr6_zero [0, 0, 0, 1, 10, 0, 0, 1, 0, 53, 7]]"
  have n: "4 \<in> set (fds (udp_net [] dg))" "\<forall>ev \<in> set (dg_txq (dsk (udp_net [] dg) 4)). \<exists>k. ev = TxRoom (Suc k)"
    "connq (udp_net [] dg) = []" "dg_sent (dsk (udp_net [] dg) 4) = []" "conns (udp_net [] dg) = []" for dg
    by (simp_all add: udp_net_def)
  have q: "dg_rxq (dsk ?v 4) = map2 (\<lambda>src f. DgData src (datagram f)) [sockaddr6_zero] [?f] @ []"
    by (simp add: udp_net_def dg)
  obtain w' bufs' peer' v' where
    "hev_socks5_udp_sendmmsg ?self 4 [?m] (udp_net [] []) = Some (int (length [?f]), ?self, w')"
    "dg_sent (dsk w' 4) = dg_sent (dsk (udp_net [] []) 4) @ map (\<lambda>f. (None, datagram f)) [?f]"
    "hev_socks5_udp_recvmmsg ?self 4 True [udp_slot 11] ?v = Some (int (length [?f]), bufs', peer', v')"
    "list_all2 denotes bufs' [?f]" "peer' = ?self\<lparr>s5_udp_associated := True\<rparr>"
    "conns v' = (if s5_udp_associated ?self then conns ?v else conns ?v @ [(4, hd [sockaddr6_zero])])"
    using udp_datagram_roundtrip[OF t(1) n(1,2) d t(1) n(1,3) _ q b, where nb = True] by (metis length_Cons list.size(3))
  with t(2) show ?thesis unfolding n dg
    by - (rule exI[of _ w'], rule exI[of _ bufs'], rule exI[of _ peer'], rule exI[of _ v'], simp add: dg)
qed

text \<open>A datagram that is too short to hold an address is not an error: it is counted as a
  message with a null address and no data, which every caller has to expect.\<close>

theorem udp_short_datagram_null_address:
  assumes "s5_type self = HEV_SOCKS5_TYPE_UDP_IN_UDP" "fd \<in> set (fds w)" "s5_udp_associated self"
    and "dg_rxq (dsk w fd) = [DgData src d]" "length d < 4" "5 \<le> length (drop 3 (m_buf m))" "length d \<le> m_len m"
  shows "\<exists>m' w'. hev_socks5_udp_recvmmsg self fd nb [m] w = Some (1, [m'], self, w') \<and> m_addr m' = Null \<and> m_len m' = 0"
proof -
  let ?w = "w\<lparr>dsk := (dsk w)(fd := dsk w fd\<lparr>dg_rxq := []\<rparr>)\<rparr>"
  have "sys_recvmmsg [m_len m] (dsk w fd) = (SysOk [(src, d)], dsk w fd\<lparr>dg_rxq := []\<rparr>)"
    using assms(4,7) by (simp add: sys_recvmmsg_def)
  with assms(2) have r: "net_recvmmsg self fd [m_len m] nb w = Some (1, [(src, d)], self, ?w)"
    by (simp add: net_recvmmsg_def hev_task_io_socket_recvmmsg_def task_recvmmsg_loop.simps)
  have "0 + length d \<le> length (m_buf m)" using assms(5,6) by simp
  from wr_Some[OF this] obtain b where b1: "wr (m_buf m) 0 d = Some b" ..
  note b = b1 length_wr[OF b1]
  have "\<exists>l. hev_socks5_addr_len (drop 3 b) = Some l"
    using assms(6) b(2) by (auto simp: hev_socks5_addr_len_def rd8_def)
  then obtain l where "hev_socks5_addr_len (drop 3 b) = Some l" ..
  with r b assms(1,3,5) show ?thesis
    by (simp add: hev_socks5_udp_recvmmsg_def hev_socks5_udp_recvmmsg_udp_def Let_def)
qed

theorem udp_short_datagram_null_address_witness:
  "\<exists>m' w'. hev_socks5_udp_recvmmsg ((udp_example HEV_SOCKS5_TYPE_UDP_IN_UDP)\<lparr>s5_udp_associated := True\<rparr>) 4 True [udp_slot 1500]
      (udp_net [] [DgData sockaddr6_zero [0]]) =
        Some (1, [m'], (udp_example HEV_SOCKS5_TYPE_UDP_IN_UDP)\<lparr>s5_udp_associated := True\<rparr>, w') \<and> m_addr m' = Null \<and> m_len m' = 0"
  by (rule udp_short_datagram_null_address[where src = sockaddr6_zero and d = "[0]"])
    (simp_all add: udp_example_def udp_net_def)

end
