(* ===== verification/RBTree.thy ===== *)
theory RBTree
  imports Prelude
begin

section \<open>Intrusive red-black tree (core hev-rbtree.c, hev-rbtree.h)\<close>

text \<open>
  The nodes are embedded in the objects a tree orders, so a node is its address. A node has its
  two child pointers and one word that packs the parent's address with the colour in bit 0
  (nodes are aligned, the low two bits of an address are zero). \<open>rbtree\<close> is the state the
  functions work on: the root pointer of the \<open>HevRBTree\<close> and the fields of all nodes;
  \<open>rb_child L\<close> and \<open>rb_child R\<close> are the fields \<open>left\<close> and \<open>right\<close>. Any access through NULL
  is undefined. The two halves of \<open>insert_color\<close> and \<open>erase_color\<close> are mirror images with
  \<open>left\<close> and \<open>right\<close> exchanged; they are one definition with the side as an argument, chosen by
  the test the code makes.

  \<open>rb_rep s t\<close> says that the heap holds the coloured tree \<open>t\<close> of nodes, parents included, and
  \<open>rb_ok\<close> is the red-black invariant. A position inside the tree is a context, the path to the
  root; the two loops climb along it. The locale \<open>node_index\<close> is the contract for the clients:
  searching, inserting and erasing on the in-order sequence of the nodes.
\<close>

subsection \<open>State\<close>

datatype side = L | R

fun opp :: "side \<Rightarrow> side" where
  "opp L = R"
| "opp R = L"

record rbtree =
  rb_root :: ptr
  rb_pcol :: "ptr \<Rightarrow> ptr"
  rb_child :: "side \<Rightarrow> ptr \<Rightarrow> ptr"

abbreviation (input) HEV_RBTREE_RED :: ptr where "HEV_RBTREE_RED \<equiv> 0"
abbreviation (input) HEV_RBTREE_BLACK :: ptr where "HEV_RBTREE_BLACK \<equiv> 1"

definition get_child :: "rbtree \<Rightarrow> side \<Rightarrow> ptr \<Rightarrow> ptr option" where
  "get_child s d x = (if x = NULL then None else Some (rb_child s d x))"

definition set_child :: "side \<Rightarrow> ptr \<Rightarrow> ptr \<Rightarrow> rbtree \<Rightarrow> rbtree option" where
  "set_child d x v s = (if x = NULL then None
     else Some (s\<lparr>rb_child := (rb_child s)(d := (rb_child s d)(x := v))\<rparr>))"

definition get_pcol :: "rbtree \<Rightarrow> ptr \<Rightarrow> ptr option" where
  "get_pcol s x = (if x = NULL then None else Some (rb_pcol s x))"

definition set_pcol :: "ptr \<Rightarrow> ptr \<Rightarrow> rbtree \<Rightarrow> rbtree option" where
  "set_pcol x v s = (if x = NULL then None else Some (s\<lparr>rb_pcol := (rb_pcol s)(x := v)\<rparr>))"

subsection \<open>Node accessors\<close>

definition pc_is_black :: "ptr \<Rightarrow> bool" where
  "pc_is_black pc \<longleftrightarrow> pc AND HEV_RBTREE_BLACK \<noteq> 0"

definition pc_parent :: "ptr \<Rightarrow> ptr" where
  "pc_parent pc = pc AND NOT 3"

definition hev_rbtree_node_color :: "rbtree \<Rightarrow> ptr \<Rightarrow> ptr option" where
  "hev_rbtree_node_color s node = do { pc \<leftarrow> get_pcol s node; Some (pc AND 1) }"

definition hev_rbtree_node_is_red :: "rbtree \<Rightarrow> ptr \<Rightarrow> bool option" where
  "hev_rbtree_node_is_red s node = do {
     c \<leftarrow> hev_rbtree_node_color s node; Some (c AND HEV_RBTREE_BLACK = 0) }"

definition hev_rbtree_node_is_black :: "rbtree \<Rightarrow> ptr \<Rightarrow> bool option" where
  "hev_rbtree_node_is_black s node = do {
     c \<leftarrow> hev_rbtree_node_color s node; Some (c AND HEV_RBTREE_BLACK \<noteq> 0) }"

definition hev_rbtree_node_red_parent :: "rbtree \<Rightarrow> ptr \<Rightarrow> ptr option" where
  "hev_rbtree_node_red_parent s node = get_pcol s node"

definition hev_rbtree_node_parent :: "rbtree \<Rightarrow> ptr \<Rightarrow> ptr option" where
  "hev_rbtree_node_parent s node = do { pc \<leftarrow> get_pcol s node; Some (pc AND NOT 3) }"

definition hev_rbtree_node_empty :: "rbtree \<Rightarrow> ptr \<Rightarrow> bool option" where
  "hev_rbtree_node_empty s node = do { pc \<leftarrow> get_pcol s node; Some (pc = node) }"

definition hev_rbtree_node_set_black :: "ptr \<Rightarrow> rbtree \<Rightarrow> rbtree option" where
  "hev_rbtree_node_set_black node s = do { pc \<leftarrow> get_pcol s node; set_pcol node (pc OR HEV_RBTREE_BLACK) s }"

definition hev_rbtree_node_set_parent :: "ptr \<Rightarrow> ptr \<Rightarrow> rbtree \<Rightarrow> rbtree option" where
  "hev_rbtree_node_set_parent node parent s = do {
     c \<leftarrow> hev_rbtree_node_color s node; set_pcol node (c OR parent) s }"

definition hev_rbtree_node_set_parent_color :: "ptr \<Rightarrow> ptr \<Rightarrow> ptr \<Rightarrow> rbtree \<Rightarrow> rbtree option" where
  "hev_rbtree_node_set_parent_color node parent color s = set_pcol node (parent OR color) s"

text \<open>\<open>if (tmp) set_parent_color (tmp, ...)\<close> and \<open>tmp && is_red (tmp)\<close>, as the code writes them.\<close>

definition set_parent_color_if :: "ptr \<Rightarrow> ptr \<Rightarrow> ptr \<Rightarrow> rbtree \<Rightarrow> rbtree option" where
  "set_parent_color_if node parent color s =
     (if node \<noteq> NULL then hev_rbtree_node_set_parent_color node parent color s else Some s)"

definition nonnull_and_red :: "rbtree \<Rightarrow> ptr \<Rightarrow> bool option" where
  "nonnull_and_red s node = (if node = NULL then Some False else hev_rbtree_node_is_red s node)"

definition hev_rbtree_change_child :: "ptr \<Rightarrow> ptr \<Rightarrow> ptr \<Rightarrow> rbtree \<Rightarrow> rbtree option" where
  "hev_rbtree_change_child old new parent s =
     (if parent \<noteq> NULL then do {
        l \<leftarrow> get_child s L parent;
        if l = old then set_child L parent new s else set_child R parent new s
      } else Some (s\<lparr>rb_root := new\<rparr>))"

definition hev_rbtree_rotate_set_parents :: "ptr \<Rightarrow> ptr \<Rightarrow> ptr \<Rightarrow> rbtree \<Rightarrow> rbtree option" where
  "hev_rbtree_rotate_set_parents old new color s = do {
     parent \<leftarrow> hev_rbtree_node_parent s old;
     pc \<leftarrow> get_pcol s old;
     s \<leftarrow> set_pcol new pc s;
     s \<leftarrow> hev_rbtree_node_set_parent_color old new color s;
     hev_rbtree_change_child old new parent s
   }"

text \<open>The place a new node is linked at: the root pointer or a child field of the parent.\<close>

datatype link = AtRoot | AtChild side ptr

fun store_link :: "link \<Rightarrow> ptr \<Rightarrow> rbtree \<Rightarrow> rbtree option" where
  "store_link AtRoot v s = Some (s\<lparr>rb_root := v\<rparr>)"
| "store_link (AtChild d p) v s = set_child d p v s"

definition hev_rbtree_node_link :: "ptr \<Rightarrow> ptr \<Rightarrow> link \<Rightarrow> rbtree \<Rightarrow> rbtree option" where
  "hev_rbtree_node_link node parent lnk s = do {
     s \<leftarrow> set_pcol node parent s;
     s \<leftarrow> set_child R node NULL s;
     s \<leftarrow> set_child L node NULL s;
     store_link lnk node s
   }"

subsection \<open>Traversal\<close>

text \<open>\<open>while (n->d) n = n->d\<close>, the descent to the end of one side.\<close>

partial_function (option) descend :: "rbtree \<Rightarrow> side \<Rightarrow> ptr \<Rightarrow> ptr option" where
  "descend s d n = do {
     c \<leftarrow> get_child s d n;
     if c = NULL then Some n else descend s d c
   }"

text \<open>\<open>while ((parent = parent (node)) && node == parent->d) node = parent\<close>, the climb.\<close>

partial_function (option) climb :: "rbtree \<Rightarrow> side \<Rightarrow> ptr \<Rightarrow> ptr option" where
  "climb s d node = do {
     parent \<leftarrow> hev_rbtree_node_parent s node;
     if parent = NULL then Some parent
     else do {
       c \<leftarrow> get_child s d parent;
       if node = c then climb s d parent else Some parent
     }
   }"

definition hev_rbtree_node_prev :: "rbtree \<Rightarrow> ptr \<Rightarrow> ptr option" where
  "hev_rbtree_node_prev s node = do {
     e \<leftarrow> hev_rbtree_node_empty s node;
     if e then Some NULL
     else do {
       l \<leftarrow> get_child s L node;
       if l \<noteq> NULL then descend s R l else climb s L node
     }
   }"

definition hev_rbtree_node_next :: "rbtree \<Rightarrow> ptr \<Rightarrow> ptr option" where
  "hev_rbtree_node_next s node = do {
     e \<leftarrow> hev_rbtree_node_empty s node;
     if e then Some NULL
     else do {
       r \<leftarrow> get_child s R node;
       if r \<noteq> NULL then descend s L r else climb s R node
     }
   }"

definition hev_rbtree_first :: "rbtree \<Rightarrow> ptr option" where
  "hev_rbtree_first s = (if rb_root s = NULL then Some NULL else descend s L (rb_root s))"

definition hev_rbtree_last :: "rbtree \<Rightarrow> ptr option" where
  "hev_rbtree_last s = (if rb_root s = NULL then Some NULL else descend s R (rb_root s))"

subsection \<open>Insertion\<close>

text \<open>Case 2 of \<open>insert_color\<close>, the rotation at the parent; it returns the new parent, the new
  \<open>tmp\<close> and the state.\<close>

definition insert_inner_rotate ::
  "side \<Rightarrow> ptr \<Rightarrow> ptr \<Rightarrow> rbtree \<Rightarrow> (ptr \<times> ptr \<times> rbtree) option" where
  "insert_inner_rotate d node parent s = do {
     tmp \<leftarrow> get_child s (opp d) parent;
     if node = tmp then do {
       tmp \<leftarrow> get_child s d node;
       s \<leftarrow> set_child (opp d) parent tmp s;
       s \<leftarrow> set_child d node parent s;
       s \<leftarrow> set_parent_color_if tmp parent HEV_RBTREE_BLACK s;
       s \<leftarrow> hev_rbtree_node_set_parent_color parent node HEV_RBTREE_RED s;
       tmp \<leftarrow> get_child s (opp d) node;
       Some (node, tmp, s)
     } else Some (parent, tmp, s)
   }"

text \<open>\<open>d\<close> is the side of \<open>gparent\<close> on which \<open>parent\<close> hangs.\<close>

definition insert_rotate :: "side \<Rightarrow> ptr \<Rightarrow> ptr \<Rightarrow> ptr \<Rightarrow> rbtree \<Rightarrow> rbtree option" where
  "insert_rotate d node parent gparent s = do {
     (parent, tmp, s) \<leftarrow> insert_inner_rotate d node parent s;
     s \<leftarrow> set_child d gparent tmp s;
     s \<leftarrow> set_child (opp d) parent gparent s;
     s \<leftarrow> set_parent_color_if tmp gparent HEV_RBTREE_BLACK s;
     hev_rbtree_rotate_set_parents gparent parent HEV_RBTREE_RED s
   }"

partial_function (option) insert_color_loop :: "rbtree \<Rightarrow> ptr \<Rightarrow> ptr \<Rightarrow> rbtree option" where
  "insert_color_loop s node parent =
     (if parent = NULL then hev_rbtree_node_set_parent_color node NULL HEV_RBTREE_BLACK s
      else do {
        black \<leftarrow> hev_rbtree_node_is_black s parent;
        if black then Some s
        else do {
          gparent \<leftarrow> hev_rbtree_node_red_parent s parent;
          right \<leftarrow> get_child s R gparent;
          let d = (if parent \<noteq> right then L else R);
          tmp \<leftarrow> get_child s (opp d) gparent;
          red \<leftarrow> nonnull_and_red s tmp;
          if red then do {
            s \<leftarrow> hev_rbtree_node_set_parent_color tmp gparent HEV_RBTREE_BLACK s;
            s \<leftarrow> hev_rbtree_node_set_parent_color parent gparent HEV_RBTREE_BLACK s;
            parent \<leftarrow> hev_rbtree_node_parent s gparent;
            s \<leftarrow> hev_rbtree_node_set_parent_color gparent parent HEV_RBTREE_RED s;
            insert_color_loop s gparent parent
          } else insert_rotate d node parent gparent s
        }
      })"

definition hev_rbtree_insert_color :: "ptr \<Rightarrow> rbtree \<Rightarrow> rbtree option" where
  "hev_rbtree_insert_color node s = do {
     parent \<leftarrow> hev_rbtree_node_red_parent s node;
     insert_color_loop s node parent
   }"

definition hev_rbtree_replace :: "ptr \<Rightarrow> ptr \<Rightarrow> rbtree \<Rightarrow> rbtree option" where
  "hev_rbtree_replace victim new s = do {
     parent \<leftarrow> hev_rbtree_node_parent s victim;
     pc \<leftarrow> get_pcol s victim;
     r \<leftarrow> get_child s R victim;
     l \<leftarrow> get_child s L victim;
     s \<leftarrow> set_pcol new pc s;
     s \<leftarrow> set_child R new r s;
     s \<leftarrow> set_child L new l s;
     l \<leftarrow> get_child s L victim;
     s \<leftarrow> (if l \<noteq> NULL then hev_rbtree_node_set_parent l new s else Some s);
     r \<leftarrow> get_child s R victim;
     s \<leftarrow> (if r \<noteq> NULL then hev_rbtree_node_set_parent r new s else Some s);
     hev_rbtree_change_child victim new parent s
   }"

subsection \<open>Removal\<close>

text \<open>The do-while loop that finds the successor: \<open>(parent, successor)\<close>.\<close>

partial_function (option) find_successor :: "rbtree \<Rightarrow> ptr \<Rightarrow> ptr \<Rightarrow> (ptr \<times> ptr) option" where
  "find_successor s successor tmp = do {
     let parent = successor;
     let successor = tmp;
     tmp \<leftarrow> get_child s L tmp;
     if tmp \<noteq> NULL then find_successor s successor tmp else Some (parent, successor)
   }"

text \<open>\<open>_hev_rbtree_erase\<close>: unlinks the node and returns where to rebalance, or NULL.\<close>

definition rbtree_unlink :: "ptr \<Rightarrow> rbtree \<Rightarrow> (ptr \<times> rbtree) option" where
  "rbtree_unlink node s = do {
     child \<leftarrow> get_child s R node;
     tmp \<leftarrow> get_child s L node;
     if tmp = NULL then do {
       pc \<leftarrow> get_pcol s node;
       let parent = pc_parent pc;
       s \<leftarrow> hev_rbtree_change_child node child parent s;
       if child \<noteq> NULL then do { s \<leftarrow> set_pcol child pc s; Some (NULL, s) }
       else Some (if pc_is_black pc then parent else NULL, s)
     } else if child = NULL then do {
       pc \<leftarrow> get_pcol s node;
       s \<leftarrow> set_pcol tmp pc s;
       s \<leftarrow> hev_rbtree_change_child node tmp (pc_parent pc) s;
       Some (NULL, s)
     } else do {
       tmp \<leftarrow> get_child s L child;
       (parent, successor, child2, s) \<leftarrow>
         (if tmp = NULL then do {
            child2 \<leftarrow> get_child s R child;
            Some (child, child, child2, s)
          } else do {
            (parent, successor) \<leftarrow> find_successor s child tmp;
            child2 \<leftarrow> get_child s R successor;
            s \<leftarrow> set_child L parent child2 s;
            s \<leftarrow> set_child R successor child s;
            s \<leftarrow> hev_rbtree_node_set_parent child successor s;
            Some (parent, successor, child2, s)
          });
       tmp \<leftarrow> get_child s L node;
       s \<leftarrow> set_child L successor tmp s;
       s \<leftarrow> hev_rbtree_node_set_parent tmp successor s;
       pc \<leftarrow> get_pcol s node;
       s \<leftarrow> hev_rbtree_change_child node successor (pc_parent pc) s;
       (rebalance, s) \<leftarrow>
         (if child2 \<noteq> NULL then do {
            s \<leftarrow> hev_rbtree_node_set_parent_color child2 parent HEV_RBTREE_BLACK s;
            Some (NULL, s)
          } else do {
            black \<leftarrow> hev_rbtree_node_is_black s successor;
            Some (if black then parent else NULL, s)
          });
       s \<leftarrow> set_pcol successor pc s;
       Some (rebalance, s)
     }
   }"

text \<open>The cases of \<open>_hev_rbtree_erase_color\<close>. Case 1, the rotation at the parent, returns the new
  sibling.\<close>

definition erase_case1 :: "side \<Rightarrow> ptr \<Rightarrow> ptr \<Rightarrow> rbtree \<Rightarrow> (ptr \<times> rbtree) option" where
  "erase_case1 d parent sibling s = do {
     red \<leftarrow> hev_rbtree_node_is_red s sibling;
     if red then do {
       tmp1 \<leftarrow> get_child s d sibling;
       s \<leftarrow> set_child (opp d) parent tmp1 s;
       s \<leftarrow> set_child d sibling parent s;
       s \<leftarrow> hev_rbtree_node_set_parent_color tmp1 parent HEV_RBTREE_BLACK s;
       s \<leftarrow> hev_rbtree_rotate_set_parents parent sibling HEV_RBTREE_RED s;
       Some (tmp1, s)
     } else Some (sibling, s)
   }"

text \<open>Case 3, the rotation at the sibling: the new \<open>tmp1\<close>, the new sibling.\<close>

definition erase_case3 :: "side \<Rightarrow> ptr \<Rightarrow> ptr \<Rightarrow> ptr \<Rightarrow> rbtree \<Rightarrow> (ptr \<times> ptr \<times> rbtree) option" where
  "erase_case3 d parent sibling tmp2 s = do {
     tmp1 \<leftarrow> get_child s (opp d) tmp2;
     s \<leftarrow> set_child d sibling tmp1 s;
     s \<leftarrow> set_child (opp d) tmp2 sibling s;
     s \<leftarrow> set_child (opp d) parent tmp2 s;
     s \<leftarrow> set_parent_color_if tmp1 sibling HEV_RBTREE_BLACK s;
     Some (sibling, tmp2, s)
   }"

definition erase_case4 :: "side \<Rightarrow> ptr \<Rightarrow> ptr \<Rightarrow> ptr \<Rightarrow> rbtree \<Rightarrow> rbtree option" where
  "erase_case4 d parent sibling tmp1 s = do {
     tmp2 \<leftarrow> get_child s d sibling;
     s \<leftarrow> set_child (opp d) parent tmp2 s;
     s \<leftarrow> set_child d sibling parent s;
     s \<leftarrow> hev_rbtree_node_set_parent_color tmp1 sibling HEV_RBTREE_BLACK s;
     s \<leftarrow> (if tmp2 \<noteq> NULL then hev_rbtree_node_set_parent tmp2 parent s else Some s);
     hev_rbtree_rotate_set_parents parent sibling HEV_RBTREE_BLACK s
   }"

partial_function (option) erase_color_loop :: "rbtree \<Rightarrow> ptr \<Rightarrow> ptr \<Rightarrow> rbtree option" where
  "erase_color_loop s node parent = do {
     right \<leftarrow> get_child s R parent;
     let d = (if node \<noteq> right then L else R);
     sibling \<leftarrow> get_child s (opp d) parent;
     (sibling, s) \<leftarrow> erase_case1 d parent sibling s;
     tmp1 \<leftarrow> get_child s (opp d) sibling;
     red1 \<leftarrow> nonnull_and_red s tmp1;
     if \<not> red1 then do {
       tmp2 \<leftarrow> get_child s d sibling;
       red2 \<leftarrow> nonnull_and_red s tmp2;
       if \<not> red2 then do {
         s \<leftarrow> hev_rbtree_node_set_parent_color sibling parent HEV_RBTREE_RED s;
         red \<leftarrow> hev_rbtree_node_is_red s parent;
         if red then hev_rbtree_node_set_black parent s
         else do {
           gparent \<leftarrow> hev_rbtree_node_parent s parent;
           if gparent \<noteq> NULL then erase_color_loop s parent gparent else Some s
         }
       } else do {
         (tmp1, sibling, s) \<leftarrow> erase_case3 d parent sibling tmp2 s;
         erase_case4 d parent sibling tmp1 s
       }
     } else erase_case4 d parent sibling tmp1 s
   }"

definition hev_rbtree_erase :: "ptr \<Rightarrow> rbtree \<Rightarrow> rbtree option" where
  "hev_rbtree_erase node s = do {
     (rebalance, s) \<leftarrow> rbtree_unlink node s;
     if rebalance \<noteq> NULL then erase_color_loop s NULL rebalance else Some s
   }"


subsection \<open>Alignment and the packed word\<close>

definition aligned :: "ptr \<Rightarrow> bool" where
  "aligned p \<longleftrightarrow> p AND 3 = 0"

datatype color = Red | Black

fun bit_of :: "color \<Rightarrow> ptr" where
  "bit_of Red = 0"
| "bit_of Black = 1"

definition pack :: "ptr \<Rightarrow> color \<Rightarrow> ptr" where
  "pack p c = p OR bit_of c"

lemma bit_3: "bit (3 :: int) n \<longleftrightarrow> n = 0 \<or> n = Suc 0"
  by (auto simp: bit_numeral_rec bit_1_iff split: nat.splits)

lemma aligned_iff: "aligned p \<longleftrightarrow> \<not> bit p 0 \<and> \<not> bit p (Suc 0)"
proof
  assume "aligned p"
  then have "\<not> bit (p AND 3) n" for n by (simp add: aligned_def)
  from this[of 0] this[of 1] show "\<not> bit p 0 \<and> \<not> bit p (Suc 0)"
    by (auto simp: bit_and_iff bit_3)
next
  assume p: "\<not> bit p 0 \<and> \<not> bit p (Suc 0)"
  show "aligned p" unfolding aligned_def
    by (rule bit_eqI) (use p in \<open>auto simp: bit_and_iff bit_3 intro!: gr0I\<close>)
qed

lemma aligned_and_1: "aligned p \<Longrightarrow> p AND 1 = 0"
  by (rule bit_eqI) (auto simp: aligned_iff bit_simps intro!: gr0I)

lemma aligned_parent: "aligned p \<Longrightarrow> p AND NOT 3 = p"
  by (rule bit_eqI) (auto simp: aligned_iff bit_simps bit_3 intro!: gr0I)

lemma pack_facts:
  assumes "aligned p"
  shows "pack p c AND 1 = bit_of c" "pack p c AND NOT 3 = p" "pack p c AND - 4 = p"
proof -
  show par: "pack p c AND NOT 3 = p"
    using assms by (cases c; intro bit_eqI) (auto simp: pack_def aligned_iff bit_simps bit_3 intro!: gr0I)
  have "NOT 3 = (- 4 :: ptr)" by simp
  with par show "pack p c AND - 4 = p" by metis
  show "pack p c AND 1 = bit_of c"
    using assms by (cases c; intro bit_eqI) (auto simp: pack_def aligned_iff bit_simps intro!: gr0I)
qed

lemma pack_bits [simp]:
  "bit_of c = 0 \<longleftrightarrow> c = Red" "bit_of c AND 1 = bit_of c" "p OR 1 = pack p Black" "pack p Red = p"
  "pack p c OR 1 = pack p Black" "bit_of c OR p = pack p c"
  by (cases c; simp add: pack_def or.commute or.assoc)+

subsection \<open>Trees, contexts and their representation\<close>

datatype rbt = Leaf | Node color rbt ptr rbt

fun inorder :: "rbt \<Rightarrow> ptr list" where
  "inorder Leaf = []"
| "inorder (Node c l x r) = inorder l @ x # inorder r"

fun root_ptr :: "rbt \<Rightarrow> ptr" where
  "root_ptr Leaf = NULL"
| "root_ptr (Node c l x r) = x"

fun tree_rep :: "rbtree \<Rightarrow> ptr \<Rightarrow> rbt \<Rightarrow> bool" where
  "tree_rep s par Leaf \<longleftrightarrow> True"
| "tree_rep s par (Node c l x r) \<longleftrightarrow> x \<noteq> NULL \<and> aligned x \<and> rb_pcol s x = pack par c \<and>
     rb_child s L x = root_ptr l \<and> rb_child s R x = root_ptr r \<and> tree_rep s x l \<and> tree_rep s x r"

definition rb_rep :: "rbtree \<Rightarrow> rbt \<Rightarrow> bool" where
  "rb_rep s t \<longleftrightarrow> tree_rep s NULL t \<and> rb_root s = root_ptr t \<and> distinct (inorder t)"

text \<open>A frame is the side of the hole, the colour and address of the node, its other subtree.\<close>

type_synonym frame = "side \<times> color \<times> ptr \<times> rbt"

fun join :: "side \<Rightarrow> color \<Rightarrow> rbt \<Rightarrow> ptr \<Rightarrow> rbt \<Rightarrow> rbt" where
  "join L c t x u = Node c t x u"
| "join R c t x u = Node c u x t"

fun plug :: "frame list \<Rightarrow> rbt \<Rightarrow> rbt" where
  "plug [] t = t"
| "plug ((d, c, x, u) # k) t = plug k (join d c t x u)"

fun parent_of :: "frame list \<Rightarrow> ptr" where
  "parent_of [] = NULL"
| "parent_of ((d, c, x, u) # k) = x"

fun ctx_rep :: "rbtree \<Rightarrow> frame list \<Rightarrow> ptr \<Rightarrow> bool" where
  "ctx_rep s [] h \<longleftrightarrow> rb_root s = h"
| "ctx_rep s ((d, c, x, u) # k) h \<longleftrightarrow> x \<noteq> NULL \<and> aligned x \<and> rb_pcol s x = pack (parent_of k) c \<and>
     rb_child s d x = h \<and> rb_child s (opp d) x = root_ptr u \<and> tree_rep s x u \<and> ctx_rep s k x"

text \<open>The nodes before and after the hole.\<close>

fun before :: "frame list \<Rightarrow> ptr list" where
  "before [] = []"
| "before ((d, c, x, u) # k) = before k @ (if d = R then inorder u @ [x] else [])"

fun after :: "frame list \<Rightarrow> ptr list" where
  "after [] = []"
| "after ((d, c, x, u) # k) = (if d = L then x # inorder u else []) @ after k"

lemma inorder_plug: "inorder (plug k t) = before k @ inorder t @ after k"
proof (induction k t rule: plug.induct)
  case (2 d c x u k t)
  then show ?case by (cases d) auto
qed simp

lemma opp_simps [simp]: "opp (opp d) = d" "opp d \<noteq> d" "d \<noteq> opp d"
  by (cases d; simp)+

lemma join_simps [simp]:
  "root_ptr (join d c t x u) = x"
  "set (inorder (join d c t x u)) = insert x (set (inorder t) \<union> set (inorder u))"
  "distinct (inorder (join d c t x u)) \<longleftrightarrow> x \<notin> set (inorder t) \<and> x \<notin> set (inorder u) \<and>
     set (inorder t) \<inter> set (inorder u) = {} \<and> distinct (inorder t) \<and> distinct (inorder u)"
  "tree_rep s par (join d c t x u) \<longleftrightarrow> x \<noteq> NULL \<and> aligned x \<and> rb_pcol s x = pack par c \<and>
     rb_child s d x = root_ptr t \<and> rb_child s (opp d) x = root_ptr u \<and> tree_rep s x t \<and> tree_rep s x u"
  by (cases d; auto)+

fun ctx_nodes :: "frame list \<Rightarrow> ptr set" where
  "ctx_nodes [] = {}"
| "ctx_nodes ((d, c, x, u) # k) = insert x (set (inorder u) \<union> ctx_nodes k)"

fun ctx_distinct :: "frame list \<Rightarrow> bool" where
  "ctx_distinct [] \<longleftrightarrow> True"
| "ctx_distinct ((d, c, x, u) # k) \<longleftrightarrow> x \<notin> set (inorder u) \<and> x \<notin> ctx_nodes k \<and>
     set (inorder u) \<inter> ctx_nodes k = {} \<and> distinct (inorder u) \<and> ctx_distinct k"

lemma distinct_plug: "distinct (inorder (plug k t)) \<longleftrightarrow>
    distinct (inorder t) \<and> ctx_distinct k \<and> set (inorder t) \<inter> ctx_nodes k = {}"
  by (induction k t rule: plug.induct) auto

definition zip_rep :: "rbtree \<Rightarrow> frame list \<Rightarrow> rbt \<Rightarrow> bool" where
  "zip_rep s k t \<longleftrightarrow> tree_rep s (parent_of k) t \<and> ctx_rep s k (root_ptr t) \<and>
     distinct (inorder t) \<and> ctx_distinct k \<and> set (inorder t) \<inter> ctx_nodes k = {}"

lemma zip_rep_plug: "zip_rep s k t \<longleftrightarrow> rb_rep s (plug k t)"
proof -
  have "tree_rep s (parent_of k) t \<and> ctx_rep s k (root_ptr t) \<longleftrightarrow>
      tree_rep s NULL (plug k t) \<and> rb_root s = root_ptr (plug k t)"
    by (induction k t rule: plug.induct) auto
  then show ?thesis by (auto simp: zip_rep_def rb_rep_def distinct_plug)
qed

lemma tree_rep_nonnull: "tree_rep s par t \<Longrightarrow> x \<in> set (inorder t) \<Longrightarrow> x \<noteq> NULL \<and> aligned x"
  by (induction t arbitrary: par) auto

lemma root_ptr_in: "t \<noteq> Leaf \<Longrightarrow> root_ptr t \<in> set (inorder t)"
  by (cases t) auto

lemma root_ptr_null: "tree_rep s par t \<Longrightarrow> root_ptr t = NULL \<longleftrightarrow> t = Leaf"
  by (cases t) auto

lemma aligned_parent_of: "ctx_rep s k h \<Longrightarrow> aligned (parent_of k)"
  by (cases k rule: parent_of.cases) (auto simp: aligned_def)

subsection \<open>Updates and frames\<close>

definition upd_child :: "side \<Rightarrow> ptr \<Rightarrow> ptr \<Rightarrow> rbtree \<Rightarrow> rbtree" where
  "upd_child d x v s = s\<lparr>rb_child := (rb_child s)(d := (rb_child s d)(x := v))\<rparr>"

definition upd_pcol :: "ptr \<Rightarrow> ptr \<Rightarrow> rbtree \<Rightarrow> rbtree" where
  "upd_pcol x v s = s\<lparr>rb_pcol := (rb_pcol s)(x := v)\<rparr>"

fun upd_hole :: "frame list \<Rightarrow> ptr \<Rightarrow> rbtree \<Rightarrow> rbtree" where
  "upd_hole [] v s = s\<lparr>rb_root := v\<rparr>"
| "upd_hole ((d, c, x, u) # k) v s = upd_child d x v s"

lemma upd_sel [simp]:
  "rb_child (upd_child d x v s) d' y = (if d' = d \<and> y = x then v else rb_child s d' y)"
  "rb_pcol (upd_child d x v s) = rb_pcol s" "rb_root (upd_child d x v s) = rb_root s"
  "rb_pcol (upd_pcol x v s) y = (if y = x then v else rb_pcol s y)"
  "rb_child (upd_pcol x v s) = rb_child s" "rb_root (upd_pcol x v s) = rb_root s"
  by (auto simp: upd_child_def upd_pcol_def)

lemma tree_rep_cong:
  "(\<And>x. x \<in> set (inorder t) \<Longrightarrow> rb_pcol s' x = rb_pcol s x \<and> (\<forall>d. rb_child s' d x = rb_child s d x)) \<Longrightarrow>
    tree_rep s' par t = tree_rep s par t"
  by (induction t arbitrary: par) auto

lemma ctx_rep_cong:
  "(\<And>x. x \<in> ctx_nodes k \<Longrightarrow> rb_pcol s' x = rb_pcol s x \<and> (\<forall>d. rb_child s' d x = rb_child s d x)) \<Longrightarrow>
    rb_root s' = rb_root s \<Longrightarrow> ctx_rep s' k h = ctx_rep s k h"
proof (induction k arbitrary: h rule: ctx_nodes.induct)
  case (2 d c x u k)
  have "tree_rep s' x u = tree_rep s x u" by (rule tree_rep_cong) (use 2(2) in auto)
  moreover have "ctx_rep s' k x = ctx_rep s k x" by (rule 2(1)) (use 2(2,3) in auto)
  ultimately show ?case using 2(2) by simp
qed simp

lemma rep_frames [simp]:
  "x \<notin> set (inorder t) \<Longrightarrow> tree_rep (upd_child d x v s) par t = tree_rep s par t"
  "x \<notin> set (inorder t) \<Longrightarrow> tree_rep (upd_pcol x v s) par t = tree_rep s par t"
  "x \<notin> ctx_nodes k \<Longrightarrow> ctx_rep (upd_child d x v s) k h = ctx_rep s k h"
  "x \<notin> ctx_nodes k \<Longrightarrow> ctx_rep (upd_pcol x v s) k h = ctx_rep s k h"
  by (rule tree_rep_cong ctx_rep_cong; auto)+

lemma tree_rep_root [simp]: "tree_rep (s\<lparr>rb_root := v\<rparr>) par t = tree_rep s par t"
  by (rule tree_rep_cong) simp

lemma tree_rep_upd_hole [simp]:
  "parent_of k \<notin> set (inorder t) \<Longrightarrow> tree_rep (upd_hole k v s) par t = tree_rep s par t"
  by (cases k rule: parent_of.cases) auto

lemma upd_hole_sel [simp]:
  "rb_pcol (upd_hole k v s) = rb_pcol s"
  "x \<noteq> parent_of k \<Longrightarrow> rb_child (upd_hole k v s) d x = rb_child s d x"
  by (cases k rule: parent_of.cases; auto)+

lemma parent_of_in: "k \<noteq> [] \<Longrightarrow> parent_of k \<in> ctx_nodes k"
  by (cases k rule: parent_of.cases) auto

lemma ctx_upd_hole: "ctx_rep s k h \<Longrightarrow> ctx_distinct k \<Longrightarrow> ctx_rep (upd_hole k v s) k v"
  by (cases k rule: ctx_nodes.cases) auto

lemma change_child_hole:
  assumes "ctx_rep s k old" "old \<noteq> NULL" "old \<notin> ctx_nodes k"
  shows "hev_rbtree_change_child old new (parent_of k) s = Some (upd_hole k new s)"
proof (cases k rule: parent_of.cases)
  case (2 d c x u k')
  have "root_ptr u \<noteq> old"
    using assms 2 root_ptr_in[of u] by (cases "u = Leaf") auto
  with assms 2 show ?thesis
    by (cases d) (auto simp: hev_rbtree_change_child_def get_child_def set_child_def upd_child_def)
qed (simp add: hev_rbtree_change_child_def)

lemma set_child_upd: "set_child d x v s = (if x = NULL then None else Some (upd_child d x v s))"
  by (simp add: set_child_def upd_child_def)

lemma set_pcol_upd: "set_pcol x v s = (if x = NULL then None else Some (upd_pcol x v s))"
  by (simp add: set_pcol_def upd_pcol_def)

lemmas rb_core = get_child_def get_pcol_def set_child_upd set_pcol_upd
  hev_rbtree_node_color_def hev_rbtree_node_is_red_def hev_rbtree_node_is_black_def
  hev_rbtree_node_red_parent_def hev_rbtree_node_parent_def hev_rbtree_node_set_black_def
  pc_is_black_def pc_parent_def Let_def

lemmas rb_base = rb_core hev_rbtree_node_set_parent_def

lemmas rb_basic = rb_base hev_rbtree_node_set_parent_color_def

lemmas rb_prim = rb_basic nonnull_and_red_def

lemmas rb_eval = rb_prim set_parent_color_if_def hev_rbtree_rotate_set_parents_def

subsection \<open>The red-black invariant\<close>

fun col :: "rbt \<Rightarrow> color" where
  "col Leaf = Black"
| "col (Node c l x r) = c"

fun bh :: "rbt \<Rightarrow> nat" where
  "bh Leaf = 0"
| "bh (Node c l x r) = bh l + (if c = Black then 1 else 0)"

fun rb_inv :: "rbt \<Rightarrow> bool" where
  "rb_inv Leaf \<longleftrightarrow> True"
| "rb_inv (Node c l x r) \<longleftrightarrow> (c = Black \<or> col l = Black \<and> col r = Black) \<and> bh l = bh r \<and> rb_inv l \<and> rb_inv r"

definition rb_ok :: "rbt \<Rightarrow> bool" where
  "rb_ok t \<longleftrightarrow> rb_inv t \<and> col t = Black"

fun ctx_col :: "frame list \<Rightarrow> color" where
  "ctx_col [] = Red"
| "ctx_col ((d, c, x, u) # k) = c"

text \<open>\<open>ctx_ok k b\<close>: with a subtree of black height \<open>b\<close> and suitable colour in the hole the whole is
  a red-black tree. The root position counts as below a red node: only a black root fits.\<close>

fun ctx_ok :: "frame list \<Rightarrow> nat \<Rightarrow> bool" where
  "ctx_ok [] b \<longleftrightarrow> True"
| "ctx_ok ((d, c, x, u) # k) b \<longleftrightarrow> rb_inv u \<and> bh u = b \<and> (c = Black \<or> col u = Black \<and> ctx_col k = Black) \<and>
     ctx_ok k (b + (if c = Black then 1 else 0))"

lemma rb_ok_plug:
  "rb_ok (plug k t) \<longleftrightarrow> rb_inv t \<and> ctx_ok k (bh t) \<and> (col t = Black \<or> ctx_col k = Black)"
proof (induction k t rule: plug.induct)
  case (1 t)
  then show ?case by (auto simp: rb_ok_def)
next
  case (2 d c x u k t)
  then show ?case by (cases d; cases c) auto
qed

lemma black_not_red: "c \<noteq> Red \<longleftrightarrow> c = Black" "c \<noteq> Black \<longleftrightarrow> c = Red"
  by (cases c; simp)+

subsection \<open>Insertion\<close>

lemma insert_at_root:
  "zip_rep s [] (Node Red l n r) \<Longrightarrow>
    \<exists>s'. insert_color_loop s n NULL = Some s' \<and> zip_rep s' [] (Node Black l n r)"
  by (subst insert_color_loop.simps) (auto simp: zip_rep_def rb_eval)

lemma insert_black_parent:
  assumes "zip_rep s ((d, Black, p, u) # k) t"
  shows "insert_color_loop s n p = Some s"
proof -
  have "p \<noteq> NULL" "rb_pcol s p = pack (parent_of k) Black" "aligned (parent_of k)"
    using assms aligned_parent_of[of s k p] by (auto simp: zip_rep_def)
  then show ?thesis by (subst insert_color_loop.simps) (simp add: rb_eval pack_facts)
qed


lemma side_of_child:
  assumes "rb_child s d g = p" "rb_child s (opp d) g = u" "p \<noteq> u"
  shows "(if p \<noteq> rb_child s R g then L else R) = d"
  using assms by (cases d) auto

lemma zip_repI:
  assumes "zip_rep s k t" "tree_rep s' (parent_of k') t'" "ctx_rep s' k' (root_ptr t')"
    and "inorder (plug k' t') = inorder (plug k t)"
  shows "zip_rep s' k' t'"
  using assms unfolding zip_rep_def by (metis distinct_plug)

lemma zip_repI_join:
  assumes "zip_rep s k t" "tree_rep s' (parent_of k') (join d c t1 x t2)" "ctx_rep s' k' x"
    and "inorder (plug k' (join d c t1 x t2)) = inorder (plug k t)"
  shows "zip_rep s' k' (join d c t1 x t2)"
  using zip_repI[OF assms(1,2) _ assms(4)] assms(3) by simp

lemma zip_repD:
  assumes "zip_rep s k t"
  shows "tree_rep s (parent_of k) t" "ctx_rep s k (root_ptr t)" "distinct (inorder t)" "ctx_distinct k"
    "set (inorder t) \<inter> ctx_nodes k = {}"
  using assms by (simp_all add: zip_rep_def)

lemma insert_red_uncle:
  assumes z: "zip_rep s ((d1, Red, p, a) # (d2, Black, g, Node Red ul u ur) # k) (Node Red l n r)"
  shows "\<exists>s'. insert_color_loop s n p = insert_color_loop s' g (parent_of k) \<and>
    zip_rep s' k (join d2 Red (join d1 Black (Node Red l n r) p a) g (Node Black ul u ur))"
proof -
  let ?s = "upd_pcol g (pack (parent_of k) Red) (upd_pcol p (pack g Black) (upd_pcol u (pack g Black) s))"
  have f: "p \<noteq> NULL" "g \<noteq> NULL" "u \<noteq> NULL" "aligned g" "rb_pcol s p = g" "rb_pcol s u = g" "rb_pcol s g = pack (parent_of k) Black"
    "rb_child s d2 g = p" "rb_child s (opp d2) g = u" "aligned (parent_of k)"
    using z aligned_parent_of[of s k g] by (simp_all add: zip_rep_def)
  have ne: "p \<noteq> u" "p \<noteq> g" "g \<noteq> u" "p \<noteq> n" "g \<noteq> n" "u \<noteq> n" using zip_repD(3-5)[OF z] by simp_all
  have "insert_color_loop s n p = insert_color_loop ?s g (parent_of k)"
    by (subst insert_color_loop.simps) (simp add: rb_eval pack_facts f ne ne[symmetric] side_of_child[OF f(8,9) ne(1)] aligned_and_1)
  moreover have "tree_rep ?s (parent_of k) (join d2 Red (join d1 Black (Node Red l n r) p a) g (Node Black ul u ur))"
    using z by (simp add: zip_rep_def ne ne[symmetric])
  moreover have "ctx_rep ?s k g" using z by (simp add: zip_rep_def)
  ultimately show ?thesis
    by (intro exI[of _ ?s] conjI zip_repI[OF z]) (cases d1; cases d2; simp add: inorder_plug)+
qed


text \<open>Giving a subtree a new parent, with the colour its root has.\<close>

definition reroot :: "ptr \<Rightarrow> rbt \<Rightarrow> rbtree \<Rightarrow> rbtree" where
  "reroot par t s = (if t = Leaf then s else upd_pcol (root_ptr t) (pack par (col t)) s)"

lemma reroot_sel [simp]:
  "rb_child (reroot par t s) = rb_child s" "rb_root (reroot par t s) = rb_root s"
  "x \<notin> set (inorder t) \<Longrightarrow> rb_pcol (reroot par t s) x = rb_pcol s x"
  using root_ptr_in[of t] by (auto simp: reroot_def)

lemma reroot_frames [simp]:
  "set (inorder t) \<inter> set (inorder u) = {} \<Longrightarrow> tree_rep (reroot par t s) q u = tree_rep s q u"
  "set (inorder t) \<inter> ctx_nodes k = {} \<Longrightarrow> ctx_rep (reroot par t s) k h = ctx_rep s k h"
  by (cases t; simp add: reroot_def)+

lemma parent_of_notin:
  "x \<noteq> NULL \<Longrightarrow> x \<notin> ctx_nodes k \<Longrightarrow> x \<noteq> parent_of k"
  "tree_rep s q t \<Longrightarrow> set (inorder t) \<inter> ctx_nodes k = {} \<Longrightarrow> parent_of k \<notin> set (inorder t)"
  by (cases k rule: parent_of.cases; auto dest: tree_rep_nonnull)+

lemma tree_rep_reroot: "tree_rep s q t \<Longrightarrow> distinct (inorder t) \<Longrightarrow> tree_rep (reroot par t s) par t"
  by (cases t) (auto simp: reroot_def)

lemma set_parent_color_if_reroot:
  "tree_rep s q t \<Longrightarrow> col t = Black \<Longrightarrow>
    set_parent_color_if (root_ptr t) par HEV_RBTREE_BLACK s' = Some (reroot par t s')"
  by (cases t) (auto simp: rb_eval reroot_def)

lemma rotate_set_parents_at:
  assumes "ctx_rep s k old" "old \<noteq> NULL" "old \<notin> ctx_nodes k" "new \<noteq> NULL" "new \<notin> ctx_nodes k"
    and "rb_pcol s old = pack (parent_of k) c" "old \<noteq> new" "b = bit_of c'"
  shows "hev_rbtree_rotate_set_parents old new b s =
    Some (upd_hole k new (upd_pcol old (pack new c') (upd_pcol new (pack (parent_of k) c) s)))"
proof -
  have "ctx_rep (upd_pcol old (pack new c') (upd_pcol new (pack (parent_of k) c) s)) k old"
    using assms by simp
  note change_child_hole[OF this assms(2,3), of new]
  moreover have "new OR b = pack new c'" using assms(8) by (simp add: pack_def)
  ultimately show ?thesis using assms aligned_parent_of[OF assms(1)]
    by (simp add: rb_eval pack_facts)
qed

text \<open>The rotation at the grandparent. The link from \<open>g\<close> to \<open>p\<close> and the colour and parent of \<open>p\<close>
  are overwritten, so nothing is assumed of them.\<close>

definition rotate_top :: "side \<Rightarrow> ptr \<Rightarrow> ptr \<Rightarrow> ptr \<Rightarrow> rbtree \<Rightarrow> rbtree option" where
  "rotate_top d parent gparent tmp s = do {
     s \<leftarrow> set_child d gparent tmp s;
     s \<leftarrow> set_child (opp d) parent gparent s;
     s \<leftarrow> set_parent_color_if tmp gparent HEV_RBTREE_BLACK s;
     hev_rbtree_rotate_set_parents gparent parent HEV_RBTREE_RED s
   }"

abbreviation (input) rotated :: "side \<Rightarrow> ptr \<Rightarrow> rbt \<Rightarrow> ptr \<Rightarrow> rbtree \<Rightarrow> rbtree" where
  "rotated d p a g s \<equiv> reroot g a (upd_child (opp d) p g (upd_child d g (root_ptr a) s))"

lemma rotate_core:
  assumes t: "tree_rep s p t" and a: "tree_rep s q a" and u: "tree_rep s g u" and k: "ctx_rep s k g"
    and p: "p \<noteq> NULL" "aligned p" "rb_child s d p = root_ptr t"
    and g: "g \<noteq> NULL" "aligned g" "rb_pcol s g = pack (parent_of k) c" "rb_child s (opp d) g = root_ptr u"
    and D: "distinct (inorder (plug ((d, Red, p, a) # (d, Black, g, u) # k) t))"
  shows "\<exists>s'. hev_rbtree_rotate_set_parents g p (bit_of c') (rotated d p a g s) = Some s' \<and>
    tree_rep s' (parent_of k) (join d c t p (join d c' a g u)) \<and> ctx_rep s' k p"
proof -
  let ?s1 = "rotated d p a g s"
  let ?s = "upd_hole k p (upd_pcol g (pack p c') (upd_pcol p (pack (parent_of k) c) ?s1))"
  note D' = D[unfolded distinct_plug, simplified]
  have dis: "set (inorder a) \<inter> ctx_nodes k = {}" "set (inorder t) \<inter> ctx_nodes k = {}" "set (inorder u) \<inter> ctx_nodes k = {}"
    "set (inorder a) \<inter> set (inorder t) = {}" "set (inorder a) \<inter> set (inorder u) = {}"
    "p \<notin> ctx_nodes k" "g \<notin> ctx_nodes k" "distinct (inorder a)" "p \<notin> set (inorder a)" "g \<notin> set (inorder a)"
    "p \<notin> set (inorder t)" "g \<notin> set (inorder t)" "p \<notin> set (inorder u)" "g \<notin> set (inorder u)" "ctx_distinct k" "p \<noteq> g"
    using D' by auto
  have ne: "p \<noteq> root_ptr a" "g \<noteq> root_ptr a" using dis(9,10) p(1) g(1) root_ptr_in[of a] by (cases "a = Leaf"; auto)+
  note pn = parent_of_notin(2)[OF a dis(1)] parent_of_notin(2)[OF t dis(2)] parent_of_notin(2)[OF u dis(3)]
    parent_of_notin(1)[OF p(1) dis(6)] parent_of_notin(1)[OF g(1) dis(7)]
  have "hev_rbtree_rotate_set_parents g p (bit_of c') ?s1 = Some ?s"
    by (rule rotate_set_parents_at) (use dis ne in \<open>simp_all add: p g k dis(16)[symmetric]\<close>)
  moreover have "tree_rep ?s (parent_of k) (join d c t p (join d c' a g u))"
    by (simp add: p g t u dis dis(16)[symmetric] ne pn tree_rep_reroot[where q = q] a)
  moreover have "ctx_rep ?s k p"
    by (rule ctx_upd_hole[where h = g]) (simp_all add: dis k)
  ultimately show ?thesis by blast
qed

lemma rotate_top:
  assumes "tree_rep s p t" and a: "tree_rep s p a" "col a = Black" and "tree_rep s g u" "ctx_rep s k g"
    and p: "p \<noteq> NULL" "aligned p" "rb_child s d p = root_ptr t"
    and g: "g \<noteq> NULL" "aligned g" "rb_pcol s g = pack (parent_of k) Black" "rb_child s (opp d) g = root_ptr u"
    and "distinct (inorder (plug ((d, Red, p, a) # (d, Black, g, u) # k) t))"
  shows "\<exists>s'. rotate_top d p g (root_ptr a) s = Some s' \<and>
    tree_rep s' (parent_of k) (join d Black t p (join d Red a g u)) \<and> ctx_rep s' k p"
proof -
  have "rotate_top d p g (root_ptr a) s = hev_rbtree_rotate_set_parents g p (bit_of Red) (rotated d p a g s)"
    by (simp add: rotate_top_def rb_prim p(1) g(1) set_parent_color_if_reroot[OF a])
  then show ?thesis using rotate_core[OF assms(1,2,4-)] by metis
qed

lemma insert_outer:
  assumes z: "zip_rep s ((d, Red, p, a) # (d, Black, g, u) # k) t" and c: "col a = Black" and t: "t \<noteq> Leaf"
  shows "\<exists>s'. insert_rotate d (root_ptr t) p g s = Some s' \<and>
    zip_rep s' k (join d Black t p (join d Red a g u))"
proof -
  have D: "distinct (inorder (plug ((d, Red, p, a) # (d, Black, g, u) # k) t))"
    using zip_repD(3-5)[OF z] by (simp only: distinct_plug)
  have f: "p \<noteq> NULL" "rb_child s (opp d) p = root_ptr a"
    using z by (simp_all add: zip_rep_def)
  have "root_ptr t \<noteq> root_ptr a"
    using zip_repD(3-5)[OF z] z root_ptr_in[OF t] root_ptr_in[of a] by (cases a) (auto simp: zip_rep_def dest: tree_rep_nonnull)
  then have "insert_rotate d (root_ptr t) p g s = rotate_top d p g (root_ptr a) s"
    by (simp add: insert_rotate_def insert_inner_rotate_def rb_prim f rotate_top_def)
  moreover have "\<exists>s'. rotate_top d p g (root_ptr a) s = Some s' \<and>
    tree_rep s' (parent_of k) (join d Black t p (join d Red a g u)) \<and> ctx_rep s' k p"
    by (rule rotate_top[OF _ _ c _ _ _ _ _ _ _ _ _ D]) (use z in \<open>simp_all add: zip_rep_def\<close>)
  moreover have "inorder (plug k (join d Black t p (join d Red a g u))) =
    inorder (plug ((d, Red, p, a) # (d, Black, g, u) # k) t)"
    by (cases d) (simp_all add: inorder_plug)
  ultimately show ?thesis by (metis zip_repI_join[OF z])
qed

lemma insert_inner:
  assumes z: "zip_rep s ((opp d, Red, p, a) # (d, Black, g, u) # k) (join d Red b n e)"
    and c: "col b = Black" "col e = Black"
  shows "\<exists>s'. insert_rotate d n p g s = Some s' \<and>
    zip_rep s' k (join d Black (join d Red a p b) n (join d Red e g u))"
proof -
  let ?s = "upd_pcol p n (reroot p b (upd_child d n p (upd_child (opp d) p (root_ptr b) s)))"
  note D = zip_repD(3-5)[OF z, simplified]
  have D': "distinct (inorder (plug ((d, Red, n, e) # (d, Black, g, u) # k) (join d Red a p b)))"
    using D by (auto simp: distinct_plug)
  have f: "p \<noteq> NULL" "n \<noteq> NULL" "rb_child s (opp d) p = n" "rb_child s d n = root_ptr b" "rb_child s (opp d) n = root_ptr e"
    "rb_child s d p = root_ptr a" "tree_rep s n b" "tree_rep s n e" "tree_rep s p a" "tree_rep s g u" "ctx_rep s k g"
    "aligned p" "aligned n" "g \<noteq> NULL" "aligned g" "rb_pcol s g = pack (parent_of k) Black" "rb_child s (opp d) g = root_ptr u"
    using z by (simp_all add: zip_rep_def)
  have dis: "n \<noteq> p" "p \<noteq> n" "n \<noteq> g" "g \<noteq> p" "g \<noteq> n" "distinct (inorder b)"
    "set (inorder b) \<inter> set (inorder a) = {}" "set (inorder b) \<inter> set (inorder e) = {}"
    "set (inorder b) \<inter> set (inorder u) = {}" "set (inorder b) \<inter> ctx_nodes k = {}"
    "n \<notin> set (inorder b)" "n \<notin> set (inorder e)" "n \<notin> set (inorder a)" "n \<notin> set (inorder u)" "n \<notin> ctx_nodes k"
    "p \<notin> set (inorder b)" "p \<notin> set (inorder e)" "p \<notin> set (inorder a)" "p \<notin> set (inorder u)" "p \<notin> ctx_nodes k"
    "g \<notin> set (inorder b)"
    using D by auto
  have "insert_rotate d n p g s = rotate_top d n g (root_ptr e) ?s"
    by (simp add: insert_rotate_def insert_inner_rotate_def rb_prim f dis set_parent_color_if_reroot[OF f(7) c(1)] rotate_top_def)
  moreover have "\<exists>s'. rotate_top d n g (root_ptr e) ?s = Some s' \<and>
    tree_rep s' (parent_of k) (join d Black (join d Red a p b) n (join d Red e g u)) \<and> ctx_rep s' k n"
    by (rule rotate_top[OF _ _ c(2) _ _ _ _ _ _ _ _ _ D'])
      (simp_all add: f dis tree_rep_reroot[where q = n])
  moreover have "inorder (plug k (join d Black (join d Red a p b) n (join d Red e g u))) =
    inorder (plug ((opp d, Red, p, a) # (d, Black, g, u) # k) (join d Red b n e))"
    by (cases d) (simp_all add: inorder_plug)
  ultimately show ?thesis by (metis zip_repI_join[OF z])
qed


lemma insert_black_uncle:
  assumes z: "zip_rep s ((d1, Red, p, a) # (d2, Black, g, u) # k) t" and c: "col u = Black"
  shows "insert_color_loop s n p = insert_rotate d2 n p g s"
proof -
  have f: "p \<noteq> NULL" "g \<noteq> NULL" "aligned g" "rb_pcol s p = g" "rb_child s d2 g = p" "rb_child s (opp d2) g = root_ptr u"
    "tree_rep s g u"
    using z by (simp_all add: zip_rep_def)
  have "p \<noteq> root_ptr u" using zip_repD(3-5)[OF z] f(1) root_ptr_in[of u] by (cases u) auto
  note sd = side_of_child[OF f(5,6) this]
  have "nonnull_and_red s (root_ptr u) = Some False"
    using f(3,7) c by (cases u) (simp_all add: rb_prim pack_facts)
  then show ?thesis
    by (subst insert_color_loop.simps)
      (simp add: rb_basic f sd aligned_and_1)
qed

lemma insert_color_loop_correct:
  assumes "zip_rep s k (Node Red l n r)" "col l = Black" "col r = Black" "rb_inv l" "rb_inv r" "bh l = bh r" "ctx_ok k (bh l)"
  shows "\<exists>s' t'. insert_color_loop s n (parent_of k) = Some s' \<and> rb_rep s' t' \<and> rb_ok t' \<and>
    inorder t' = inorder (plug k (Node Red l n r))"
  using assms
proof (induction "length k" arbitrary: k s l n r rule: less_induct)
  case less
  note z = less.prems(1)
  consider "k = []" | d p a k1 where "k = (d, Black, p, a) # k1" | d1 p a k1 where "k = (d1, Red, p, a) # k1"
    by (metis (full_types) color.exhaust neq_Nil_conv prod_cases4)
  then show ?case
  proof cases
    case 1
    with insert_at_root z less.prems(2-) show ?thesis
      by (fastforce simp: zip_rep_plug rb_ok_def)
  next
    case 2
    with insert_black_parent[of s d p a k1] z less.prems(2-) show ?thesis
      by (intro exI[of _ s] exI[of _ "plug k (Node Red l n r)"]) (simp add: zip_rep_plug rb_ok_plug del: plug.simps)
  next
    case 3
    then obtain d2 g u k2 where k: "k = (d1, Red, p, a) # (d2, Black, g, u) # k2"
      using less.prems(7) by (cases k1 rule: ctx_col.cases) auto
    have inv: "rb_inv a" "bh a = bh l" "col a = Black" "rb_inv u" "bh u = bh l" "ctx_ok k2 (Suc (bh l))"
      using less.prems(7) k by auto
    show ?thesis
    proof (cases "col u")
      case Red
      then obtain ul q ur where u: "u = Node Red ul q ur" by (cases u) auto
      let ?t = "join d2 Red (join d1 Black (Node Red l n r) p a) g (Node Black ul q ur)"
      let ?x = "join d1 Black (Node Red l n r) p a" and ?y = "Node Black ul q ur"
      have x: "rb_inv ?x" "bh ?x = Suc (bh l)" "col ?x = Black"
        using less.prems(2-6) inv(1-3) by (cases d1; simp)+
      have y: "rb_inv ?y" "bh ?y = Suc (bh l)" "col ?y = Black" using inv(4,5) u by auto
      obtain x' y' where t1: "?t = Node Red x' g y'" and xy: "(x', y') = (?x, ?y) \<or> (x', y') = (?y, ?x)"
        by (cases d2) simp_all
      have t: "?t = Node Red x' g y'" "col x' = Black" "col y' = Black" "rb_inv x'" "rb_inv y'" "bh x' = bh y'" "bh x' = Suc (bh l)"
        using t1 xy x y by auto
      from insert_red_uncle z k u obtain s1 where s1: "insert_color_loop s n p = insert_color_loop s1 g (parent_of k2)"
        "zip_rep s1 k2 (Node Red x' g y')" unfolding t(1)[symmetric] by blast
      have "length k2 < length k" using k by simp
      from less.hyps[OF this s1(2) t(2-6)] t(7) inv(6) obtain s' t' where
        "insert_color_loop s1 g (parent_of k2) = Some s'" "rb_rep s' t'" "rb_ok t'"
        "inorder t' = inorder (plug k2 ?t)" unfolding t(1) by auto
      moreover have "inorder (plug k2 ?t) = inorder (plug k (Node Red l n r))"
        using k u by (cases d1; cases d2) (simp_all add: inorder_plug)
      ultimately show ?thesis using s1(1) k by auto
    next
      case Black
      have run: "insert_color_loop s n (parent_of k) = insert_rotate d2 n p g s"
        using insert_black_uncle[OF z[unfolded k] Black] k by simp
      have ok: "ctx_ok k2 (bh (join d2 Black t1 x t2)) \<and> rb_inv (join d2 Black t1 x t2) \<and> col (join d2 Black t1 x t2) = Black"
        if "rb_inv t1" "rb_inv t2" "bh t1 = bh l" "bh t2 = bh l" for t1 x t2
        using that inv(6) by (cases d2) auto
      have joins: "rb_inv (join d Red t1 x t2)" "bh (join d Red t1 x t2) = bh t1"
        if "rb_inv t1" "rb_inv t2" "col t1 = Black" "col t2 = Black" "bh t1 = bh t2" for d t1 x t2
        using that by (cases d; simp)+
      show ?thesis
      proof (cases "d1 = d2")
        case True
        let ?t = "join d2 Black (Node Red l n r) p (join d2 Red a g u)"
        from insert_outer[OF z[unfolded k True] inv(3)] obtain s' where
          s': "insert_rotate d2 n p g s = Some s'" "zip_rep s' k2 ?t" by auto
        moreover have "inorder (plug k2 ?t) = inorder (plug k (Node Red l n r))"
          using k True by (cases d2) (simp_all add: inorder_plug)
        moreover have "rb_ok (plug k2 ?t)"
          using ok[of "Node Red l n r" "join d2 Red a g u" p] joins[of a u d2 g] less.prems(2-) inv Black by (simp add: rb_ok_plug)
        ultimately show ?thesis using run by (auto simp: zip_rep_plug)
      next
        case False
        then have d1: "d1 = opp d2" by (cases d1; cases d2) auto
        obtain b e where t1: "Node Red l n r = join d2 Red b n e" and be: "(b, e) = (l, r) \<or> (b, e) = (r, l)"
          by (cases d2) simp_all
        have t: "Node Red l n r = join d2 Red b n e" "rb_inv b" "rb_inv e" "col b = Black" "col e = Black"
          "bh b = bh l" "bh e = bh l" using t1 be less.prems(2-6) by auto
        let ?t = "join d2 Black (join d2 Red a p b) n (join d2 Red e g u)"
        from insert_inner[OF z[unfolded k d1 t(1)] t(4,5)] obtain s' where
          s': "insert_rotate d2 n p g s = Some s'" "zip_rep s' k2 ?t" by auto
        moreover have "inorder (plug k2 ?t) = inorder (plug k (Node Red l n r))"
          unfolding t(1) using k d1 by (cases d2) (simp_all add: inorder_plug)
        moreover have "rb_ok (plug k2 ?t)"
          using ok[of "join d2 Red a p b" "join d2 Red e g u" n] joins[of a b d2 p] joins[of e u d2 g] t(2-7) inv Black by (simp add: rb_ok_plug)
        ultimately show ?thesis using run by (auto simp: zip_rep_plug)
      qed
    qed
  qed
qed


subsection \<open>Removal: rebalancing\<close>

lemma zip_rep_Cons: "zip_rep s ((d, c, x, u) # k) t \<longleftrightarrow> zip_rep s k (join d c t x u)"
  by (simp add: zip_rep_plug)

lemma join_opp: "join (opp d) c t x u = join d c u x t"
  by (cases d) simp_all

lemma set_parent_if_reroot:
  assumes "tree_rep s q t" "aligned q" "t \<noteq> Leaf \<longrightarrow> rb_pcol s' (root_ptr t) = rb_pcol s (root_ptr t)"
  shows "(if root_ptr t \<noteq> NULL then hev_rbtree_node_set_parent (root_ptr t) par s' else Some s') = Some (reroot par t s')"
  using assms by (cases t) (auto simp: rb_prim pack_facts reroot_def)

lemma upd_commute:
  "upd_pcol x v (upd_child d y w s) = upd_child d y w (upd_pcol x v s)"
  by (simp add: upd_pcol_def upd_child_def)

lemma erase_case1_black:
  assumes "zip_rep s ((d, c, p, Node Black l x r) # k) t"
  shows "erase_case1 d p x s = Some (x, s)"
  using assms by (simp add: zip_rep_def erase_case1_def rb_prim pack_facts)

lemma erase_case1_red:
  assumes z: "zip_rep s ((d, c, p, join d Red a x b) # k) t" and a: "col a = Black" "a \<noteq> Leaf"
  shows "\<exists>s'. erase_case1 d p x s = Some (root_ptr a, s') \<and> zip_rep s' ((d, Red, p, a) # (d, c, x, b) # k) t"
proof -
  have f: "tree_rep s x b" "tree_rep s x a" "tree_rep s p t" "ctx_rep s k p" "x \<noteq> NULL" "aligned x"
    "rb_child s (opp d) x = root_ptr b" "p \<noteq> NULL" "aligned p" "rb_pcol s p = pack (parent_of k) c"
    "rb_child s (opp (opp d)) p = root_ptr t" "rb_pcol s x = p" "rb_child s d x = root_ptr a"
    using z by (simp_all add: zip_rep_def)
  have an: "root_ptr a \<noteq> NULL" using root_ptr_null[OF f(2)] a(2) by simp
  have D: "distinct (inorder (plug ((opp d, Red, x, a) # (opp d, Black, p, t) # k) b))"
    using zip_repD(3-5)[OF z] by (auto simp: distinct_plug)
  from rotate_core[OF f(1-11) D, of Red] obtain s' where
    s': "hev_rbtree_rotate_set_parents p x (bit_of Red) (rotated (opp d) x a p s) = Some s'"
    "tree_rep s' (parent_of k) (join (opp d) c b x (join (opp d) Red a p t))" "ctx_rep s' k x" by blast
  have sp: "hev_rbtree_node_set_parent_color (root_ptr a) p HEV_RBTREE_BLACK s1 = Some (reroot p a s1)" for s1
    using set_parent_color_if_reroot[OF f(2) a(1), of p s1] an by (simp add: set_parent_color_if_def)
  have "erase_case1 d p x s = Some (root_ptr a, s')"
    using s'(1) by (simp add: erase_case1_def rb_base f aligned_and_1 sp)
  moreover have "zip_rep s' ((d, Red, p, a) # (d, c, x, b) # k) t"
    unfolding zip_rep_Cons
    by (rule zip_repI_join[OF z s'(2)[unfolded join_opp] s'(3)]) (cases d; simp add: inorder_plug)
  ultimately show ?thesis by blast
qed


lemma erase_case4_at:
  assumes t: "tree_rep s p t" and a: "tree_rep s q a" "aligned q" and b: "b = Node Black bl y br"
    and yb: "tree_rep (upd_pcol y (pack x Black) s) x b" and k: "ctx_rep s k p"
    and x: "x \<noteq> NULL" "aligned x" "rb_child s d x = root_ptr a" "rb_child s (opp d) x = y"
    and p: "p \<noteq> NULL" "aligned p" "rb_pcol s p = pack (parent_of k) c" "rb_child s d p = root_ptr t"
    and D: "distinct (inorder (plug ((opp d, Red, x, a) # (opp d, Black, p, t) # k) b))"
  shows "\<exists>s'. erase_case4 d p x y s = Some s' \<and>
    tree_rep s' (parent_of k) (join d c (join d Black t p a) x b) \<and> ctx_rep s' k x"
proof -
  let ?s = "upd_pcol y (pack x Black) s"
  note D' = D[unfolded distinct_plug b, simplified]
  have y: "y \<noteq> NULL" "y \<noteq> p" "y \<noteq> x" "y \<notin> set (inorder t)" "y \<notin> set (inorder a)" "y \<notin> ctx_nodes k"
    using D' yb b by auto
  have f: "tree_rep ?s q a" "tree_rep ?s p t" "ctx_rep ?s k p" "rb_child ?s (opp d) x = root_ptr b"
    "rb_pcol ?s p = pack (parent_of k) c" "rb_child ?s (opp (opp d)) p = root_ptr t"
    using t a k x p y b by simp_all
  have xp: "x \<noteq> p" using D' by auto
  from rotate_core[OF yb f(1-3) x(1,2) f(4) p(1,2) f(5,6) D, of Black] obtain s' where
    s': "hev_rbtree_rotate_set_parents p x (bit_of Black) (rotated (opp d) x a p ?s) = Some s'"
    "tree_rep s' (parent_of k) (join (opp d) c b x (join (opp d) Black a p t))" "ctx_rep s' k x" by blast
  let ?s1 = "upd_pcol y (pack x Black) (upd_child d x p (upd_child (opp d) p (root_ptr a) s))"
  have "a \<noteq> Leaf \<longrightarrow> rb_pcol ?s1 (root_ptr a) = rb_pcol s (root_ptr a)"
    using y root_ptr_in[of a] by auto
  note sp = set_parent_if_reroot[OF a this, of p]
  have "erase_case4 d p x y s = Some s'"
    using s'(1) by (simp add: erase_case4_def get_child_def set_child_upd x p y(1) sp
        hev_rbtree_node_set_parent_color_def set_pcol_upd upd_commute[symmetric])
  with s'(2,3) show ?thesis by (simp add: join_opp)
qed

lemma erase_case4:
  assumes z: "zip_rep s ((d, c, p, join d Black a x (Node Red bl y br)) # k) t"
  shows "\<exists>s'. erase_case4 d p x y s = Some s' \<and>
    zip_rep s' k (join d c (join d Black t p a) x (Node Black bl y br))"
proof -
  let ?b = "Node Black bl y br"
  have f: "tree_rep s p t" "tree_rep s x a" "aligned x" "ctx_rep s k p" "x \<noteq> NULL" "rb_child s d x = root_ptr a"
    "rb_child s (opp d) x = y" "p \<noteq> NULL" "aligned p" "rb_pcol s p = pack (parent_of k) c" "rb_child s d p = root_ptr t"
    using z by (simp_all add: zip_rep_def)
  have D: "distinct (inorder (plug ((opp d, Red, x, a) # (opp d, Black, p, t) # k) ?b))"
    using zip_repD(3-5)[OF z] by (auto simp: distinct_plug)
  have "tree_rep (upd_pcol y (pack x Black) s) x ?b"
    using z by (simp add: zip_rep_def)
  from erase_case4_at[OF f(1-3) refl this f(4,5,3,6-11) D] obtain s' where
    "erase_case4 d p x y s = Some s'" "tree_rep s' (parent_of k) (join d c (join d Black t p a) x ?b)" "ctx_rep s' k x" by blast
  moreover have "inorder (plug k (join d c (join d Black t p a) x ?b)) =
      inorder (plug ((d, c, p, join d Black a x (Node Red bl y br)) # k) t)"
    by (cases d) (simp_all add: inorder_plug)
  ultimately show ?thesis by (metis zip_repI_join[OF z])
qed

lemma erase_case3:
  assumes z: "zip_rep s ((d, c, p, join d Black (join d Red a y e) x b) # k) t" and e: "col e = Black"
  shows "\<exists>s1 s'. erase_case3 d p x y s = Some (x, y, s1) \<and> erase_case4 d p y x s1 = Some s' \<and>
    zip_rep s' k (join d c (join d Black t p a) y (join d Black e x b))"
proof -
  let ?s1 = "reroot x e (upd_child (opp d) p y (upd_child (opp d) y x (upd_child d x (root_ptr e) s)))"
  have f: "tree_rep s p t" "tree_rep s y a" "tree_rep s y e" "tree_rep s x b" "ctx_rep s k p" "x \<noteq> NULL" "aligned x" "y \<noteq> NULL" "aligned y"
    "rb_child s (opp d) y = root_ptr e" "rb_child s d y = root_ptr a" "rb_child s (opp d) x = root_ptr b"
    "p \<noteq> NULL" "aligned p" "rb_pcol s p = pack (parent_of k) c" "rb_child s d p = root_ptr t"
    using z by (simp_all add: zip_rep_def)
  have D: "distinct (inorder (plug ((opp d, Red, y, a) # (opp d, Black, p, t) # k) (join d Black e x b)))"
    using zip_repD(3-5)[OF z] by (auto simp: distinct_plug)
  have dis: "distinct (inorder e)" "x \<noteq> y" "y \<noteq> x" "x \<noteq> p" "p \<noteq> x" "p \<noteq> y" "y \<noteq> p"
    "x \<notin> set (inorder t)" "x \<notin> set (inorder a)" "x \<notin> set (inorder e)" "x \<notin> set (inorder b)" "x \<notin> ctx_nodes k"
    "y \<notin> set (inorder t)" "y \<notin> set (inorder a)" "y \<notin> set (inorder e)" "y \<notin> set (inorder b)" "y \<notin> ctx_nodes k"
    "p \<notin> set (inorder t)" "p \<notin> set (inorder a)" "p \<notin> set (inorder e)" "p \<notin> set (inorder b)" "p \<notin> ctx_nodes k"
    "set (inorder e) \<inter> set (inorder t) = {}" "set (inorder e) \<inter> set (inorder a) = {}"
    "set (inorder e) \<inter> set (inorder b) = {}" "set (inorder e) \<inter> ctx_nodes k = {}"
    using zip_repD(3-5)[OF z] by auto
  have c3: "erase_case3 d p x y s = Some (x, y, ?s1)"
    by (simp add: erase_case3_def rb_base f dis set_parent_color_if_reroot[OF f(3) e])
  obtain bl br where xb: "join d Black e x b = Node Black bl x br" by (cases d) auto
  have "tree_rep (upd_pcol x (pack y Black) ?s1) y (join d Black e x b)"
    by (simp add: f dis tree_rep_reroot[where q = y])
  moreover have "tree_rep ?s1 p t" "tree_rep ?s1 y a" "ctx_rep ?s1 k p" "rb_child ?s1 d y = root_ptr a"
    "rb_child ?s1 (opp d) y = x" "rb_pcol ?s1 p = pack (parent_of k) c" "rb_child ?s1 d p = root_ptr t"
    by (simp_all add: f dis)
  ultimately obtain s' where
    "erase_case4 d p y x ?s1 = Some s'" "tree_rep s' (parent_of k) (join d c (join d Black t p a) y (join d Black e x b))" "ctx_rep s' k y"
    using erase_case4_at[OF _ _ f(9) xb _ _ f(8,9) _ _ f(13,14) _ _ D] by blast
  moreover have "inorder (plug k (join d c (join d Black t p a) y (join d Black e x b))) =
      inorder (plug ((d, c, p, join d Black (join d Red a y e) x b) # k) t)"
    by (cases d) (simp_all add: inorder_plug)
  ultimately show ?thesis using c3 by (metis zip_repI_join[OF z])
qed


text \<open>The loop body after case 1.\<close>

definition erase_tail :: "side \<Rightarrow> ptr \<Rightarrow> ptr \<Rightarrow> rbtree \<Rightarrow> rbtree option" where
  "erase_tail d parent sibling s = do {
     tmp1 \<leftarrow> get_child s (opp d) sibling;
     red1 \<leftarrow> nonnull_and_red s tmp1;
     if \<not> red1 then do {
       tmp2 \<leftarrow> get_child s d sibling;
       red2 \<leftarrow> nonnull_and_red s tmp2;
       if \<not> red2 then do {
         s \<leftarrow> hev_rbtree_node_set_parent_color sibling parent HEV_RBTREE_RED s;
         red \<leftarrow> hev_rbtree_node_is_red s parent;
         if red then hev_rbtree_node_set_black parent s
         else do {
           gparent \<leftarrow> hev_rbtree_node_parent s parent;
           if gparent \<noteq> NULL then erase_color_loop s parent gparent else Some s
         }
       } else do {
         (tmp1, sibling, s) \<leftarrow> erase_case3 d parent sibling tmp2 s;
         erase_case4 d parent sibling tmp1 s
       }
     } else erase_case4 d parent sibling tmp1 s
   }"

lemma erase_color_loop_unfold:
  "erase_color_loop s node parent = do {
     right \<leftarrow> get_child s R parent;
     let d = (if node \<noteq> right then L else R);
     sibling \<leftarrow> get_child s (opp d) parent;
     (sibling, s) \<leftarrow> erase_case1 d parent sibling s;
     erase_tail d parent sibling s
   }"
  unfolding erase_tail_def by (rule erase_color_loop.simps)

lemma erase_color_loop_at:
  assumes "zip_rep s ((d, c, p, u) # k) t" "u \<noteq> Leaf"
  shows "erase_color_loop s (root_ptr t) p =
    erase_case1 d p (root_ptr u) s \<bind> (\<lambda>(sibling, s). erase_tail d p sibling s)"
proof -
  have f: "p \<noteq> NULL" "rb_child s d p = root_ptr t" "rb_child s (opp d) p = root_ptr u" "tree_rep s p t" "tree_rep s p u"
    using assms(1) by (simp_all add: zip_rep_def)
  have "root_ptr t \<noteq> root_ptr u"
    using zip_repD(3-5)[OF assms(1)] root_ptr_in[OF assms(2)] root_ptr_in[of t] f(5) tree_rep_nonnull
    by (cases t) (auto simp: root_ptr_null)
  note sd = side_of_child[OF f(2,3) this]
  show ?thesis unfolding erase_color_loop_unfold by (simp add: get_child_def f sd Let_def)
qed

lemma nonnull_and_red_tree: "tree_rep s q t \<Longrightarrow> aligned q \<Longrightarrow> nonnull_and_red s (root_ptr t) = Some (col t = Red)"
  by (cases t) (auto simp: rb_prim pack_facts)

definition erased :: "rbtree option \<Rightarrow> ptr list \<Rightarrow> bool" where
  "erased r xs \<longleftrightarrow> (\<exists>s' t'. r = Some s' \<and> rb_rep s' t' \<and> rb_ok t' \<and> inorder t' = xs)"

lemma erasedI: "r = Some s' \<Longrightarrow> zip_rep s' k t' \<Longrightarrow> rb_inv t' \<Longrightarrow> ctx_ok k (bh t') \<Longrightarrow>
    col t' = Black \<or> ctx_col k = Black \<Longrightarrow> inorder (plug k t') = xs \<Longrightarrow> erased r xs"
  unfolding erased_def zip_rep_plug by (metis rb_ok_plug)

lemma join_inv [simp]:
  "rb_inv (join d c t x u) \<longleftrightarrow> (c = Black \<or> col t = Black \<and> col u = Black) \<and> bh t = bh u \<and> rb_inv t \<and> rb_inv u"
  "col (join d c t x u) = c" "bh t = bh u \<Longrightarrow> bh (join d c t x u) = bh t + (if c = Black then 1 else 0)"
  by (cases d; auto)+

lemma erase_tail_correct:
  assumes z: "zip_rep s ((d, c, p, join d Black a x b) # k) t"
    and t: "rb_inv t" "col t = Black" and ab: "rb_inv a" "rb_inv b" "bh a = bh t" "bh b = bh t"
    and k: "c = Black \<or> ctx_col k = Black" "ctx_ok k (Suc (bh t) + (if c = Black then 1 else 0))"
    and IH: "\<And>s t. c = Black \<Longrightarrow> k \<noteq> [] \<Longrightarrow> zip_rep s k t \<Longrightarrow> rb_inv t \<Longrightarrow> col t = Black \<Longrightarrow> ctx_ok k (Suc (bh t)) \<Longrightarrow>
      erased (erase_color_loop s (root_ptr t) (parent_of k)) (inorder (plug k t))"
  shows "erased (erase_tail d p x s) (inorder (plug ((d, c, p, join d Black a x b) # k) t))"
proof -
  have f: "tree_rep s x a" "tree_rep s x b" "aligned x" "x \<noteq> NULL" "rb_child s (opp d) x = root_ptr b" "rb_child s d x = root_ptr a"
    "p \<noteq> NULL" "aligned p" "aligned (parent_of k)" "rb_pcol s p = pack (parent_of k) c"
    using z aligned_parent_of[of s k p] by (simp_all add: zip_rep_def)
  note red = nonnull_and_red_tree[OF f(2,3)] nonnull_and_red_tree[OF f(1,3)]
  show ?thesis
  proof (cases "col b")
    case Red
    then obtain bl y br where b: "b = Node Red bl y br" by (cases b) auto
    from erase_case4[OF z[unfolded b]] obtain s' where s': "erase_case4 d p x y s = Some s'"
      "zip_rep s' k (join d c (join d Black t p a) x (Node Black bl y br))" by blast
    have "erase_tail d p x s = Some s'"
      using s'(1) red Red b by (simp add: erase_tail_def get_child_def f)
    then show ?thesis by (rule erasedI[OF _ s'(2)])
      (use t ab k b in \<open>auto simp: inorder_plug split: if_splits\<close>, (cases d; simp)+)
  next
    case black: Black
    show ?thesis
    proof (cases "col a")
      case Red
      then obtain l y r where "a = Node Red l y r" by (cases a) auto
      moreover obtain a1 e where "Node Red l y r = join d Red a1 y e" by (cases d) auto
      ultimately have a: "a = join d Red a1 y e" by simp
      then have ae: "rb_inv a1" "rb_inv e" "col a1 = Black" "col e = Black" "bh a1 = bh t" "bh e = bh t"
        using ab by auto
      from erase_case3[OF z[unfolded a] ae(4)] obtain s1 s' where s': "erase_case3 d p x y s = Some (x, y, s1)"
        "erase_case4 d p y x s1 = Some s'" "zip_rep s' k (join d c (join d Black t p a1) y (join d Black e x b))" by blast
      have "erase_tail d p x s = Some s'"
        using s'(1,2) red Red black a by (simp add: erase_tail_def get_child_def f)
      then show ?thesis by (rule erasedI[OF _ s'(3)])
        (use t ab ae k black a in \<open>auto simp: inorder_plug split: if_splits\<close>, (cases d; simp)+)
    next
      case Black
      let ?s1 = "upd_pcol x p s" and ?t = "\<lambda>c. join d c t p (join d Red a x b)"
      have x: "x \<noteq> p" using zip_repD(3-5)[OF z] by auto
      have io: "inorder (plug k (?t c')) = inorder (plug ((d, c, p, join d Black a x b) # k) t)" for c'
        by (cases d) (simp_all add: inorder_plug)
      have "tree_rep ?s1 (parent_of k) (?t c)" "ctx_rep ?s1 k p"
        using z x by (simp_all add: zip_rep_def)
      then have z1: "zip_rep ?s1 k (?t c)" using io by (rule zip_repI_join[OF z])
      have tail: "erase_tail d p x s = (if c = Red then hev_rbtree_node_set_black p ?s1
          else if parent_of k \<noteq> NULL then erase_color_loop ?s1 p (parent_of k) else Some ?s1)"
        using red Black black x by (simp add: erase_tail_def rb_basic f pack_facts)
      show ?thesis
      proof (cases c)
        case Red
        have "hev_rbtree_node_set_black p ?s1 = Some (upd_pcol p (pack (parent_of k) Black) ?s1)"
          using Red f x by (simp add: rb_base)
        moreover have "tree_rep (upd_pcol p (pack (parent_of k) Black) ?s1) (parent_of k) (?t Black)"
            "ctx_rep (upd_pcol p (pack (parent_of k) Black) ?s1) k p"
          using z x by (simp_all add: zip_rep_def)
        ultimately show ?thesis using Red io tail t ab k black Black
          by (intro erasedI[OF _ zip_repI_join[OF z _ _ io]]) auto
      next
        case c: Black
        have t1: "rb_inv (?t c)" "col (?t c) = Black" "bh (?t c) = Suc (bh t)"
          using t ab black Black c by simp_all
        show ?thesis
        proof (cases "k = []")
          case True
          with tail c have "erase_tail d p x s = Some ?s1" by simp
          then show ?thesis using t1 z1 io True by (intro erasedI[OF _ z1]) auto
        next
          case False
          have "parent_of k \<noteq> NULL"
            using False z by (cases k rule: parent_of.cases) (auto simp: zip_rep_def)
          with tail c have "erase_tail d p x s = erase_color_loop ?s1 (root_ptr (?t c)) (parent_of k)" by simp
          moreover have "ctx_ok k (Suc (bh (?t c)))" using k(2) c t1(3) by simp
          ultimately show ?thesis using IH[OF c False z1 t1(1,2)] io by simp
        qed
      qed
    qed
  qed
qed

lemma erase_color_loop_correct:
  "k \<noteq> [] \<Longrightarrow> zip_rep s k t \<Longrightarrow> rb_inv t \<Longrightarrow> col t = Black \<Longrightarrow> ctx_ok k (Suc (bh t)) \<Longrightarrow>
    erased (erase_color_loop s (root_ptr t) (parent_of k)) (inorder (plug k t))"
proof (induction k arbitrary: s t rule: ctx_nodes.induct)
  case (2 d c p u k)
  note z = 2(3)
  have u: "rb_inv u" "bh u = Suc (bh t)" "c = Black \<or> col u = Black \<and> ctx_col k = Black"
    "ctx_ok k (Suc (bh t) + (if c = Black then 1 else 0))" using 2(6) by auto
  then obtain cu l x r where ux: "u = Node cu l x r" by (cases u) auto
  obtain a b where ab: "u = join d cu a x b" and "(a, b) = (l, r) \<or> (a, b) = (r, l)"
    unfolding ux by (cases d) simp_all
  then have inv: "rb_inv a" "rb_inv b" "bh a = bh b" "cu = Black \<or> col a = Black \<and> col b = Black" using u(1) ux by auto
  have run: "erase_color_loop s (root_ptr t) p = erase_case1 d p x s \<bind> (\<lambda>(sibling, s). erase_tail d p sibling s)"
    using erase_color_loop_at[OF z] ux by simp
  show ?case
  proof (cases cu)
    case Black
    then have ba: "bh a = bh t" "bh b = bh t" using u(2) ab inv by simp_all
    have "erase_case1 d p x s = Some (x, s)"
      using erase_case1_black z ux Black by blast
    with run have run': "erase_color_loop s (root_ptr t) (parent_of ((d, c, p, u) # k)) = erase_tail d p x s" by simp
    have "erased (erase_tail d p x s) (inorder (plug ((d, c, p, join d Black a x b) # k) t))"
      by (rule erase_tail_correct[OF _ 2(4,5) inv(1,2) ba _ u(4) 2(1)]) (use z ab Black u(3) in auto)
    with run' ab Black show ?thesis by simp
  next
    case Red
    then have c: "c = Black" using u(3) ux by auto
    have ba: "bh a = Suc (bh t)" "bh b = Suc (bh t)" using u(2) ab inv Red by simp_all
    have bl: "col a = Black" "col b = Black" using inv(4) Red by simp_all
    have "a \<noteq> Leaf" using ba by auto
    from erase_case1_red[OF z[unfolded ab Red] bl(1) this] obtain s' where
      s': "erase_case1 d p x s = Some (root_ptr a, s')" "zip_rep s' ((d, Red, p, a) # (d, c, x, b) # k) t" by blast
    obtain l' y r' where "a = Node Black l' y r'" using ba bl by (cases a) auto
    moreover obtain a1 a2 where "Node Black l' y r' = join d Black a1 y a2" by (cases d) auto
    ultimately have a: "a = join d Black a1 y a2" by simp
    then have i: "rb_inv a1" "rb_inv a2" "bh a1 = bh t" "bh a2 = bh t" using inv ba by auto
    have "erased (erase_tail d p y s') (inorder (plug ((d, Red, p, join d Black a1 y a2) # (d, c, x, b) # k) t))"
      by (rule erase_tail_correct[OF s'(2)[unfolded a] 2(4,5) i])
        (use inv ba bl u(4) c in auto)
    moreover have "inorder (plug ((d, Red, p, a) # (d, c, x, b) # k) t) = inorder (plug ((d, c, p, u) # k) t)"
      unfolding ab by (cases d) (simp_all add: inorder_plug)
    ultimately show ?thesis using run s'(1) a by simp
  qed
qed simp


subsection \<open>Removal: unlinking\<close>

lemma plug_append: "plug (k1 @ k2) t = plug k2 (plug k1 t)"
  by (induction k1 t rule: plug.induct) auto

lemma ctx_append [simp]:
  "before (k1 @ k2) = before k2 @ before k1" "after (k1 @ k2) = after k1 @ after k2"
  "ctx_nodes (k1 @ k2) = ctx_nodes k1 \<union> ctx_nodes k2"
  "ctx_distinct (k1 @ k2) \<longleftrightarrow> ctx_distinct k1 \<and> ctx_distinct k2 \<and> ctx_nodes k1 \<inter> ctx_nodes k2 = {}"
  by (induction k1 rule: ctx_nodes.induct) auto

lemma ctx_nodes_list: "ctx_nodes k = set (before k) \<union> set (after k)"
proof (induction k rule: ctx_nodes.induct)
  case (2 d c x u k)
  then show ?case by (cases d) auto
qed simp

lemma ctx_ok_rename:
  "ctx_col (ks @ (d, c, n, l) # k) = ctx_col (ks @ (d, c, y, l) # k)"
  "ctx_ok (ks @ (d, c, n, l) # k) b = ctx_ok (ks @ (d, c, y, l) # k) b"
proof -
  show col: "ctx_col (ks @ (d, c, n, l) # k) = ctx_col (ks @ (d, c, y, l) # k)" for ks
    by (cases ks rule: ctx_col.cases) auto
  show "ctx_ok (ks @ (d, c, n, l) # k) b = ctx_ok (ks @ (d, c, y, l) # k) b"
    by (induction ks b rule: ctx_ok.induct) (auto simp: col)
qed

lemma parent_of_append: "parent_of (k1 @ k2) = (if k1 = [] then parent_of k2 else parent_of k1)"
  by (cases k1 rule: parent_of.cases) auto

text \<open>\<open>find_successor\<close> walks down the left spine.\<close>

lemma find_successor_spine:
  assumes "tree_rep s q (Node c1 l1 x1 r1)" "l1 \<noteq> Leaf"
  shows "\<exists>cp p u ks cs y rr. find_successor s x1 (root_ptr l1) = Some (p, y) \<and>
    Node c1 l1 x1 r1 = plug ((L, cp, p, u) # ks) (Node cs Leaf y rr) \<and> before ((L, cp, p, u) # ks) = []"
  using assms
proof (induction l1 arbitrary: q c1 x1 r1)
  case (Node c2 l2 x2 r2)
  have f: "x2 \<noteq> NULL" "rb_child s L x2 = root_ptr l2" "tree_rep s x2 l2" "tree_rep s x1 (Node c2 l2 x2 r2)"
    using Node.prems by simp_all
  show ?case
  proof (cases "l2 = Leaf")
    case True
    then show ?thesis using f
      by (intro exI[of _ c1] exI[of _ x1] exI[of _ r1] exI[of _ "[]"] exI[of _ c2] exI[of _ x2] exI[of _ r2])
        (simp add: find_successor.simps get_child_def Let_def)
  next
    case False
    from Node.IH(1)[OF f(4) False] obtain cp p u ks cs y rr
      where i: "find_successor s x2 (root_ptr l2) = Some (p, y)"
        "Node c2 l2 x2 r2 = plug ((L, cp, p, u) # ks) (Node cs Leaf y rr)" "before ((L, cp, p, u) # ks) = []" by blast
    have "root_ptr l2 \<noteq> NULL" using root_ptr_null[OF f(3)] False by simp
    then have "find_successor s x1 (root_ptr (Node c2 l2 x2 r2)) = Some (p, y)"
      using f i(1) by (subst find_successor.simps) (simp add: get_child_def Let_def)
    moreover have "Node c1 (Node c2 l2 x2 r2) x1 r1 = plug ((L, cp, p, u) # ks @ [(L, c1, x1, r1)]) (Node cs Leaf y rr)"
      using i(2) by (simp add: plug_append)
    moreover have "before ((L, cp, p, u) # ks @ [(L, c1, x1, r1)]) = []" using i(3) by simp
    ultimately show ?thesis by blast
  qed
qed simp

text \<open>Exchanging the node below a part of the context.\<close>

fun bottom :: "frame list \<Rightarrow> frame" where
  "bottom [] = (L, Black, NULL, Leaf)"
| "bottom [f] = f"
| "bottom (f # fs) = bottom fs"

abbreviation bottom_ptr :: "frame list \<Rightarrow> ptr" where
  "bottom_ptr ks \<equiv> fst (snd (snd (bottom ks)))"

abbreviation bottom_col :: "frame list \<Rightarrow> color" where
  "bottom_col ks \<equiv> fst (snd (bottom ks))"

lemma bottom_in: "ks \<noteq> [] \<Longrightarrow> bottom_ptr ks \<in> ctx_nodes ks"
  by (induction ks rule: bottom.induct) auto

lemma root_ptr_plug: "ks \<noteq> [] \<Longrightarrow> root_ptr (plug ks t) = bottom_ptr ks \<and> col (plug ks t) = bottom_col ks"
proof (induction ks arbitrary: t rule: bottom.induct)
  case (3 f g fs)
  then show ?case by (cases f) simp
qed (auto simp: plug.simps)

lemma ctx_rep_swap:
  assumes "ctx_rep s (ks @ (d, c, n, l) # k) h" "ctx_distinct ks"
    and "\<And>x d. x \<in> ctx_nodes ks \<Longrightarrow> rb_child s' d x = rb_child s d x"
    and "\<And>x. x \<in> ctx_nodes ks \<Longrightarrow> x \<noteq> bottom_ptr ks \<Longrightarrow> rb_pcol s' x = rb_pcol s x"
    and "ks \<noteq> [] \<Longrightarrow> rb_pcol s' (bottom_ptr ks) = pack y (bottom_col ks)"
    and "ctx_rep s' ((d, c, y, l) # k) (if ks = [] then h else bottom_ptr ks)"
  shows "ctx_rep s' (ks @ (d, c, y, l) # k) h"
  using assms
proof (induction ks arbitrary: h rule: bottom.induct)
  case (2 f)
  obtain d1 c1 x u where f: "f = (d1, c1, x, u)" by (cases f)
  have "tree_rep s' x u = tree_rep s x u"
    by (rule tree_rep_cong) (use 2 f in auto)
  with 2 f show ?case by simp
next
  case (3 f g fs)
  obtain d1 c1 x u where f: "f = (d1, c1, x, u)" by (cases f)
  have b: "bottom_ptr (g # fs) \<in> ctx_nodes (g # fs)" by (rule bottom_in) simp
  have nb: "x \<noteq> bottom_ptr (g # fs)" "bottom_ptr (g # fs) \<notin> set (inorder u)"
    using 3(3) b f by auto
  have "tree_rep s' x u = tree_rep s x u"
    by (rule tree_rep_cong) (use 3(4,5) nb f in auto)
  moreover have "ctx_rep s' ((g # fs) @ (d, c, y, l) # k) x"
    by (rule 3(1)) (use 3(2-) f in auto)
  moreover have "rb_pcol s' x = rb_pcol s x" using 3(5)[of x] nb f by simp
  moreover have "parent_of ((g # fs) @ (d, c, y, l) # k) = parent_of ((g # fs) @ (d, c, n, l) # k)"
    by (cases g) simp
  ultimately show ?case using 3(2,4) f by simp
qed simp


text \<open>The end of cases 2 and 3, where the successor takes the place of the node.\<close>

definition unlink_end :: "ptr \<Rightarrow> ptr \<Rightarrow> ptr \<Rightarrow> ptr \<Rightarrow> rbtree \<Rightarrow> (ptr \<times> rbtree) option" where
  "unlink_end node parent successor child2 s = do {
     tmp \<leftarrow> get_child s L node;
     s \<leftarrow> set_child L successor tmp s;
     s \<leftarrow> hev_rbtree_node_set_parent tmp successor s;
     pc \<leftarrow> get_pcol s node;
     s \<leftarrow> hev_rbtree_change_child node successor (pc_parent pc) s;
     (rebalance, s) \<leftarrow>
       (if child2 \<noteq> NULL then do {
          s \<leftarrow> hev_rbtree_node_set_parent_color child2 parent HEV_RBTREE_BLACK s;
          Some (NULL, s)
        } else do {
          black \<leftarrow> hev_rbtree_node_is_black s successor;
          Some (if black then parent else NULL, s)
        });
     s \<leftarrow> set_pcol successor pc s;
     Some (rebalance, s)
   }"

fun paint :: "color \<Rightarrow> rbt \<Rightarrow> rbt" where
  "paint c Leaf = Leaf"
| "paint c (Node c' l x r) = Node c l x r"

text \<open>A child that is at most a red leaf node.\<close>

fun thin :: "rbt \<Rightarrow> bool" where
  "thin Leaf \<longleftrightarrow> True"
| "thin (Node c l x r) \<longleftrightarrow> c = Red \<and> l = Leaf \<and> r = Leaf"

lemma thinI: "rb_inv t \<Longrightarrow> bh t = 0 \<Longrightarrow> thin t"
proof (cases t)
  case (Node c l x r)
  assume "rb_inv t" "bh t = 0"
  with Node have "c = Red" "bh l = 0" "bh r = 0" "col l = Black" "col r = Black"
    by (auto simp: black_not_red split: if_splits)
  moreover have "u = Leaf" if "bh u = 0" "col u = Black" for u using that by (cases u) auto
  ultimately show ?thesis using Node by auto
qed simp

lemma unlink_end:
  assumes k: "ctx_rep s k n" and n: "n \<noteq> NULL" "aligned n" "rb_pcol s n = pack (parent_of k) c" "rb_child s L n = root_ptr l"
    and l: "tree_rep s n l" "l \<noteq> Leaf"
    and y: "y \<noteq> NULL" "aligned y" "rb_child s R y = h" "rb_pcol s y = pack q cs" "aligned q"
    and r: "thin r" "tree_rep s y r" and P: "P \<noteq> NULL"
    and D: "distinct (inorder l)" "ctx_distinct k" "set (inorder l) \<inter> ctx_nodes k = {}" "n \<notin> ctx_nodes k" "n \<notin> set (inorder l)"
      "y \<noteq> n" "y \<notin> set (inorder l)" "y \<notin> ctx_nodes k" "y \<notin> set (inorder r)" "n \<notin> set (inorder r)"
      "set (inorder r) \<inter> ctx_nodes k = {}" "set (inorder r) \<inter> set (inorder l) = {}"
  shows "\<exists>s'. unlink_end n P y (root_ptr r) s = Some (if r = Leaf \<and> cs = Black then P else NULL, s') \<and>
    tree_rep s' P (paint Black r) \<and> ctx_rep s' ((R, c, y, l) # k) h \<and>
    (\<forall>x. x \<notin> insert y (set (inorder l) \<union> set (inorder r) \<union> ctx_nodes k) \<longrightarrow> x \<noteq> NULL \<longrightarrow>
      rb_pcol s' x = rb_pcol s x \<and> (\<forall>d. rb_child s' d x = rb_child s d x))"
proof -
  let ?s1 = "reroot y l (upd_child L y (root_ptr l) s)"
  let ?s2 = "upd_hole k y ?s1"
  let ?s3 = "if r = Leaf then ?s2 else upd_pcol (root_ptr r) (pack P Black) ?s2"
  let ?s4 = "upd_pcol y (pack (parent_of k) c) ?s3"
  have rl: "root_ptr l \<noteq> NULL" "root_ptr l \<in> set (inorder l)"
    using root_ptr_null[OF l(1)] root_ptr_in[OF l(2)] l(2) by simp_all
  have "(if root_ptr l \<noteq> NULL then hev_rbtree_node_set_parent (root_ptr l) y (upd_child L y (root_ptr l) s)
      else Some (upd_child L y (root_ptr l) s)) = Some ?s1"
    by (rule set_parent_if_reroot[OF l(1) n(2)]) simp
  then have sp: "hev_rbtree_node_set_parent (root_ptr l) y (upd_child L y (root_ptr l) s) = Some ?s1" using rl by simp
  have ne: "n \<noteq> root_ptr l" "y \<noteq> root_ptr l" using D rl(2) by auto
  have k1: "ctx_rep ?s1 k n" using k D by simp
  note cc = change_child_hole[OF k1 n(1) D(4), of y]
  note par = aligned_parent_of[OF k]
  have pn: "y \<noteq> parent_of k" "parent_of k \<notin> set (inorder l)" "parent_of k \<notin> set (inorder r)"
    using parent_of_notin(1)[OF y(1) D(8)] parent_of_notin(2)[OF l(1) D(3)] parent_of_notin(2)[OF r(2) D(11)] by simp_all
  have pc: "rb_pcol ?s1 n = pack (parent_of k) c" "rb_pcol ?s1 y = pack q cs" using n y D by simp_all
  have "unlink_end n P y (root_ptr r) s = Some (if r = Leaf \<and> cs = Black then P else NULL, ?s4)"
  proof (cases r)
    case Leaf
    with pc show ?thesis
      by (simp add: unlink_end_def rb_core n y sp par pack_facts cc) (cases cs; simp)
  next
    case (Node c' l' z r')
    with r have "z \<noteq> NULL" by simp
    with Node pc show ?thesis
      by (simp add: unlink_end_def rb_core hev_rbtree_node_set_parent_color_def n y sp par pack_facts cc)
  qed
  moreover have "tree_rep ?s4 P (paint Black r)"
    using r pn D by (cases r) auto
  moreover have "ctx_rep ?s4 ((R, c, y, l) # k) h"
  proof -
    have "tree_rep ?s4 y l"
      using D pn l rl by (cases r) (auto intro!: tree_rep_reroot[where q = n])
    moreover have "ctx_rep ?s4 k y"
    proof -
      have "ctx_rep ?s2 k y" by (rule ctx_upd_hole[OF k1 D(2)])
      then show ?thesis using D by (cases r) simp_all
    qed
    ultimately show ?thesis using y pn by (simp split: if_splits)
  qed
  moreover have "\<forall>x. x \<notin> insert y (set (inorder l) \<union> set (inorder r) \<union> ctx_nodes k) \<longrightarrow> x \<noteq> NULL \<longrightarrow>
      rb_pcol ?s4 x = rb_pcol s x \<and> (\<forall>d. rb_child ?s4 d x = rb_child s d x)"
    using rl parent_of_notin(1) by (cases r) auto
  ultimately show ?thesis by blast
qed


lemma erase_by_unlink:
  assumes "rbtree_unlink n s = Some (if black then parent_of k else NULL, s1)"
    and "zip_rep s1 k t" "rb_inv t" "ctx_ok k (bh t + (if black then 1 else 0))"
    and "black \<Longrightarrow> t = Leaf" "col t = Black \<or> ctx_col k = Black"
  shows "erased (hev_rbtree_erase n s) (inorder (plug k t))"
proof (cases "black \<and> k \<noteq> []")
  case True
  then have "parent_of k \<noteq> NULL" using assms(2) by (cases k rule: parent_of.cases) (auto simp: zip_rep_def)
  then have "hev_rbtree_erase n s = erase_color_loop s1 (root_ptr t) (parent_of k)"
    using True assms(1,5) by (simp add: hev_rbtree_erase_def)
  then show ?thesis using erase_color_loop_correct[OF _ assms(2,3)] True assms(4,5) by simp
next
  case False
  then have "hev_rbtree_erase n s = Some s1" using assms(1) by (auto simp: hev_rbtree_erase_def)
  then show ?thesis by (rule erasedI[OF _ assms(2,3)]) (use False assms(4,6) in \<open>auto split: if_splits\<close>)
qed

lemma erase_no_left:
  assumes z: "zip_rep s k (Node c Leaf n r)" and i: "rb_inv (Node c Leaf n r)" "ctx_ok k (bh (Node c Leaf n r))"
  shows "erased (hev_rbtree_erase n s) (inorder (plug k r))"
proof -
  let ?s1 = "upd_hole k (root_ptr r) s"
  have f: "n \<noteq> NULL" "rb_child s L n = NULL" "rb_child s R n = root_ptr r" "rb_pcol s n = pack (parent_of k) c"
    "aligned (parent_of k)" "ctx_rep s k n" "n \<notin> ctx_nodes k" "tree_rep s n r"
    using z aligned_parent_of[of s k n] by (simp_all add: zip_rep_def)
  note cc = change_child_hole[OF f(6,1,7), of "root_ptr r"]
  have k1: "ctx_rep ?s1 k (root_ptr r)" using ctx_upd_hole[OF f(6)] zip_repD(4)[OF z] by blast
  have D: "distinct (inorder r)" "set (inorder r) \<inter> ctx_nodes k = {}" "ctx_distinct k" using z by (auto simp: zip_rep_def)
  have "thin r" using i by (intro thinI) auto
  show ?thesis
  proof (cases r)
    case Leaf
    have "rbtree_unlink n s = Some (if c = Black then parent_of k else NULL, ?s1)"
      using Leaf cc by (simp add: rbtree_unlink_def rb_core f pack_facts) (cases c; simp)
    moreover have "zip_rep ?s1 k Leaf" using k1 D Leaf by (simp add: zip_rep_def)
    ultimately show ?thesis using i Leaf by (intro erase_by_unlink[where t = r]) (simp_all split: if_splits)
  next
    case (Node c' l' x r')
    with \<open>thin r\<close> have r: "r = Node Red Leaf x Leaf" by simp
    with i have c: "c = Black" by auto
    let ?s2 = "upd_pcol x (pack (parent_of k) Black) ?s1" and ?t = "Node Black Leaf x Leaf"
    have "x \<noteq> NULL" using f(8) r by simp
    then have "rbtree_unlink n s = Some (if False then parent_of k else NULL, ?s2)"
      using r c cc by (simp add: rbtree_unlink_def rb_core f pack_facts)
    moreover have "zip_rep ?s2 k ?t"
      using k1 D r f(8) parent_of_notin(2)[OF f(8) D(2)] by (simp add: zip_rep_def)
    ultimately have "erased (hev_rbtree_erase n s) (inorder (plug k ?t))"
      by (rule erase_by_unlink) (use i r c in simp_all)
    then show ?thesis using r by (simp add: inorder_plug)
  qed
qed

lemma erase_no_right:
  assumes z: "zip_rep s k (Node c l n Leaf)" and i: "rb_inv (Node c l n Leaf)" "ctx_ok k (bh (Node c l n Leaf))" and l: "l \<noteq> Leaf"
  shows "erased (hev_rbtree_erase n s) (inorder (plug k l))"
proof -
  have "thin l" using i by (intro thinI) auto
  with l obtain x where x: "l = Node Red Leaf x Leaf" by (cases l) auto
  with i have c: "c = Black" by auto
  let ?s1 = "upd_pcol x (pack (parent_of k) Black) s" and ?t = "Node Black Leaf x Leaf"
  let ?s2 = "upd_hole k x ?s1"
  have f: "n \<noteq> NULL" "rb_child s L n = x" "x \<noteq> NULL" "rb_child s R n = NULL" "rb_pcol s n = pack (parent_of k) Black"
    "aligned (parent_of k)" "ctx_rep s k n" "n \<notin> ctx_nodes k" "tree_rep s n l" "x \<notin> ctx_nodes k" "ctx_distinct k"
    using z x c aligned_parent_of[of s k n] by (simp_all add: zip_rep_def)
  have k1: "ctx_rep ?s1 k n" using f by simp
  note cc = change_child_hole[OF k1 f(1,8), of x]
  have "rbtree_unlink n s = Some (if False then parent_of k else NULL, ?s2)"
    using cc by (simp add: rbtree_unlink_def rb_core f pack_facts)
  moreover have "zip_rep ?s2 k ?t"
    using ctx_upd_hole[OF k1 f(11)] f x parent_of_notin(1)[OF f(3,10)] by (simp add: zip_rep_def)
  ultimately have "erased (hev_rbtree_erase n s) (inorder (plug k ?t))"
    by (rule erase_by_unlink) (use i x c in simp_all)
  then show ?thesis using x by (simp add: inorder_plug)
qed


lemma rbtree_unlink_two:
  assumes "get_child s R n = Some child" "get_child s L n = Some tmp" "tmp \<noteq> NULL" "child \<noteq> NULL"
  shows "rbtree_unlink n s = do {
     tmp \<leftarrow> get_child s L child;
     (parent, successor, child2, s) \<leftarrow>
       (if tmp = NULL then do {
          child2 \<leftarrow> get_child s R child;
          Some (child, child, child2, s)
        } else do {
          (parent, successor) \<leftarrow> find_successor s child tmp;
          child2 \<leftarrow> get_child s R successor;
          s \<leftarrow> set_child L parent child2 s;
          s \<leftarrow> set_child R successor child s;
          s \<leftarrow> hev_rbtree_node_set_parent child successor s;
          Some (parent, successor, child2, s)
        });
     unlink_end n parent successor child2 s
   }"
  using assms by (simp add: rbtree_unlink_def unlink_end_def Let_def)

text \<open>Case 2.\<close>

lemma unlink_case2:
  assumes z: "zip_rep s k (Node c l n (Node cs Leaf y rr))" and l: "l \<noteq> Leaf" and rr: "thin rr"
  shows "\<exists>s'. rbtree_unlink n s = Some (if rr = Leaf \<and> cs = Black then y else NULL, s') \<and>
    zip_rep s' ((R, c, y, l) # k) (paint Black rr)"
proof -
  note D = zip_repD(3-5)[OF z, simplified]
  have f: "ctx_rep s k n" "n \<noteq> NULL" "aligned n" "rb_pcol s n = pack (parent_of k) c" "rb_child s L n = root_ptr l"
    "tree_rep s n l" "y \<noteq> NULL" "aligned y" "rb_child s R y = root_ptr rr" "rb_pcol s y = pack n cs" "tree_rep s y rr"
    "rb_child s R n = y" "rb_child s L y = NULL"
    using z by (simp_all add: zip_rep_def)
  from unlink_end[OF f(1-6) l f(7-10,3) rr f(11,7)] D obtain s' where
    s': "unlink_end n y y (root_ptr rr) s = Some (if rr = Leaf \<and> cs = Black then y else NULL, s')"
    "tree_rep s' y (paint Black rr)" "ctx_rep s' ((R, c, y, l) # k) (root_ptr rr)" by auto
  have "rbtree_unlink n s = unlink_end n y y (root_ptr rr) s"
    using root_ptr_null[OF f(6)] l
    by (subst rbtree_unlink_two[of _ _ y "root_ptr l"]) (simp_all add: get_child_def f)
  moreover have "root_ptr (paint Black rr) = root_ptr rr" "inorder (paint Black rr) = inorder rr" by (cases rr; simp)+
  ultimately show ?thesis using s' D by (auto simp: zip_rep_def)
qed

text \<open>Case 3: \<open>ks\<close> is the left spine below the right child.\<close>

lemma unlink_case3:
  assumes z: "zip_rep s k (Node c l n (plug ks (Node cs Leaf y rr)))" and l: "l \<noteq> Leaf" and rr: "thin rr"
    and ks: "ks = (L, cp, p, u) # ks'" and r: "plug ks (Node cs Leaf y rr) = Node c1 l1 x1 r1"
    and fs: "find_successor s x1 (root_ptr l1) = Some (p, y)" and l1: "l1 \<noteq> Leaf"
  shows "\<exists>s'. rbtree_unlink n s = Some (if rr = Leaf \<and> cs = Black then p else NULL, s') \<and>
    zip_rep s' (ks @ (R, c, y, l) # k) (paint Black rr)"
proof -
  let ?r = "Node c1 l1 x1 r1" and ?b = "upd_child L p (root_ptr rr) s"
  let ?s1 = "reroot y ?r (upd_child R y x1 ?b)"
  have z0: "zip_rep s (ks @ (R, c, n, l) # k) (Node cs Leaf y rr)"
    using z by (simp add: zip_rep_plug plug_append)
  note D = zip_repD(3-5)[OF z0, simplified]
  have f: "ctx_rep s k n" "n \<noteq> NULL" "aligned n" "rb_pcol s n = pack (parent_of k) c" "rb_child s L n = root_ptr l"
    "tree_rep s n l" "rb_child s R n = x1" "x1 \<noteq> NULL" "rb_child s L x1 = root_ptr l1" "tree_rep s x1 l1" "tree_rep s n ?r"
    using z r by (simp_all add: zip_rep_def)
  have fy: "y \<noteq> NULL" "aligned y" "rb_child s R y = root_ptr rr" "rb_pcol s y = pack p cs" "tree_rep s y rr"
    "p \<noteq> NULL" "aligned p"
    using z0 ks by (simp_all add: zip_rep_def)
  have bot: "x1 = bottom_ptr ks" "c1 = bottom_col ks"
    using root_ptr_plug[of ks "Node cs Leaf y rr"] r ks by auto
  have x1: "x1 \<in> ctx_nodes ks" using bottom_in[of ks] bot ks by simp
  have p: "p \<in> ctx_nodes ks" using ks by simp
  have ne: "x1 \<noteq> y" "x1 \<noteq> n" "x1 \<notin> set (inorder l)" "x1 \<notin> set (inorder rr)" "x1 \<notin> ctx_nodes k"
    "p \<noteq> y" "p \<noteq> n" "p \<notin> set (inorder l)" "p \<notin> set (inorder rr)" "p \<notin> ctx_nodes k"
    "y \<noteq> n" "y \<notin> set (inorder l)" "y \<notin> set (inorder rr)" "y \<notin> ctx_nodes k" "y \<notin> ctx_nodes ks" "n \<notin> ctx_nodes ks"
    using D x1 p by auto
  have s1f: "rb_child ?s1 = (rb_child ?b)(R := (rb_child ?b R)(y := x1))"
    "\<And>x. x \<noteq> x1 \<Longrightarrow> rb_pcol ?s1 x = rb_pcol s x" "rb_pcol ?s1 x1 = pack y c1"
    "\<And>t q. x1 \<notin> set (inorder t) \<Longrightarrow> p \<notin> set (inorder t) \<Longrightarrow> y \<notin> set (inorder t) \<Longrightarrow> tree_rep ?s1 q t = tree_rep s q t"
    "ctx_rep ?s1 k n"
    using f(1) ne by (auto simp: reroot_def fun_eq_iff)
  have sp: "hev_rbtree_node_set_parent x1 y (upd_child R y x1 ?b) = Some ?s1"
    using set_parent_if_reroot[OF f(11,3), of "upd_child R y x1 ?b" y] f(8) by simp
  have run: "rbtree_unlink n s = unlink_end n p y (root_ptr rr) ?s1"
    using root_ptr_null[OF f(6)] root_ptr_null[OF f(10)] l l1
    by (subst rbtree_unlink_two[of _ _ x1 "root_ptr l"]) (simp_all add: get_child_def set_child_upd f fs fy sp)
  have "\<exists>s'. unlink_end n p y (root_ptr rr) ?s1 = Some (if rr = Leaf \<and> cs = Black then p else NULL, s') \<and>
    tree_rep s' p (paint Black rr) \<and> ctx_rep s' ((R, c, y, l) # k) x1 \<and>
    (\<forall>x. x \<notin> insert y (set (inorder l) \<union> set (inorder rr) \<union> ctx_nodes k) \<longrightarrow> x \<noteq> NULL \<longrightarrow>
      rb_pcol s' x = rb_pcol ?s1 x \<and> (\<forall>d. rb_child s' d x = rb_child ?s1 d x))"
    by (rule unlink_end[OF s1f(5) f(2,3) _ _ _ l fy(1,2) _ _ fy(7) rr _ fy(6)])
      (use D ne in \<open>auto simp: s1f(1-4) f fy\<close>)
  then obtain s' where s': "unlink_end n p y (root_ptr rr) ?s1 = Some (if rr = Leaf \<and> cs = Black then p else NULL, s')"
    "tree_rep s' p (paint Black rr)" "ctx_rep s' ((R, c, y, l) # k) x1"
    and fr: "\<And>x. x \<notin> insert y (set (inorder l) \<union> set (inorder rr) \<union> ctx_nodes k) \<Longrightarrow> x \<noteq> NULL \<Longrightarrow>
      rb_pcol s' x = rb_pcol ?s1 x \<and> (\<forall>d. rb_child s' d x = rb_child ?s1 d x)" by blast
  have kn: "x \<notin> insert y (set (inorder l) \<union> set (inorder rr) \<union> ctx_nodes k) \<and> x \<noteq> NULL"
    if "x \<in> ctx_nodes ks" for x
  proof -
    have "x \<in> set (inorder ?r)" unfolding r[symmetric] using that by (auto simp: inorder_plug ctx_nodes_list)
    then have "x \<noteq> NULL" using tree_rep_nonnull[OF f(11)] by blast
    moreover have "x \<notin> insert y (set (inorder l) \<union> set (inorder rr) \<union> ctx_nodes k)" using that D by auto
    ultimately show ?thesis by simp
  qed
  have "ctx_rep ?b (ks @ (R, c, n, l) # k) (root_ptr rr)"
    using zip_repD(2)[OF z0] D ks ne by (simp add: zip_rep_def)
  then have "ctx_rep s' (ks @ (R, c, y, l) # k) (root_ptr rr)"
  proof (rule ctx_rep_swap)
    show "ctx_distinct ks" using D by simp
    show "rb_child s' d x = rb_child ?b d x" if "x \<in> ctx_nodes ks" for x d
      using fr[of x] kn[OF that] that ne(15) by (auto simp: s1f(1))
    show "rb_pcol s' x = rb_pcol ?b x" if "x \<in> ctx_nodes ks" "x \<noteq> bottom_ptr ks" for x
      using fr[of x] kn[OF that(1)] that(2) bot s1f(2)[of x] by auto
    show "rb_pcol s' (bottom_ptr ks) = pack y (bottom_col ks)"
      using fr[of x1] kn[OF x1] bot s1f(3) by auto
    show "ctx_rep s' ((R, c, y, l) # k) (if ks = [] then root_ptr rr else bottom_ptr ks)"
      using s'(3) ks bot by simp
  qed
  moreover have "root_ptr (paint Black rr) = root_ptr rr" "inorder (paint Black rr) = inorder rr" by (cases rr; simp)+
  ultimately have "zip_rep s' (ks @ (R, c, y, l) # k) (paint Black rr)"
    using s'(2) D ks by (auto simp: zip_rep_def)
  then show ?thesis using run s'(1) by auto
qed


lemma zip_col_ok: "rb_ok (plug k t) \<Longrightarrow> rb_inv t \<and> ctx_ok k (bh t) \<and> (col t = Black \<or> ctx_col k = Black)"
  by (simp add: rb_ok_plug)

lemma erase_two:
  assumes u: "rbtree_unlink n s = Some (if rr = Leaf \<and> cs = Black then P else NULL, s')"
    and z: "zip_rep s' (ks @ (R, c, y, l) # k) (paint Black rr)" and P: "P = parent_of (ks @ (R, c, y, l) # k)"
    and ok: "rb_ok (plug (ks @ (R, c, n, l) # k) (Node cs Leaf y rr))" and thin: "thin rr" and ks: "before ks = []"
  shows "erased (hev_rbtree_erase n s) (before k @ inorder l @ inorder (plug ks (Node cs Leaf y rr)) @ after k)"
proof -
  let ?K = "ks @ (R, c, y, l) # k"
  have o: "rb_inv (Node cs Leaf y rr)" "ctx_ok ?K (bh (Node cs Leaf y rr))" "cs = Black \<or> ctx_col ?K = Black"
    using zip_col_ok[OF ok] ctx_ok_rename[where ks = ks and d = R and c = c and n = n and l = l and k = k and y = y] by simp_all
  have "erased (hev_rbtree_erase n s) (inorder (plug ?K (paint Black rr)))"
  proof (cases rr)
    case Leaf
    with u P have "rbtree_unlink n s = Some (if cs = Black then parent_of ?K else NULL, s')" by simp
    then show ?thesis by (rule erase_by_unlink[OF _ z]) (use o Leaf in simp_all)
  next
    case (Node c' l' x r')
    with thin have r: "rr = Node Red Leaf x Leaf" by simp
    with o have cs: "cs = Black" by auto
    from u r have "rbtree_unlink n s = Some (if False then parent_of ?K else NULL, s')" by simp
    then show ?thesis by (rule erase_by_unlink[OF _ z]) (use o r cs in simp_all)
  qed
  moreover have "inorder (paint Black rr) = inorder rr" by (cases rr) simp_all
  ultimately show ?thesis using ks by (simp add: inorder_plug)
qed

lemma erase_at:
  assumes z: "zip_rep s k (Node c l n r)" and ok: "rb_ok (plug k (Node c l n r))"
  shows "erased (hev_rbtree_erase n s) (before k @ inorder l @ inorder r @ after k)"
proof -
  note i = zip_col_ok[OF ok]
  consider "l = Leaf" | "l \<noteq> Leaf" "r = Leaf" | cs y rr where "l \<noteq> Leaf" "r = Node cs Leaf y rr"
    | c1 l1 x1 r1 where "l \<noteq> Leaf" "r = Node c1 l1 x1 r1" "l1 \<noteq> Leaf" by (metis rbt.exhaust)
  then show ?thesis
  proof cases
    case 1
    with erase_no_left z i show ?thesis by (simp add: inorder_plug)
  next
    case 2
    then show ?thesis using erase_no_right[of s k c l n] z i by (auto simp: inorder_plug)
  next
    case 3
    have th: "thin rr" using i 3(2) by (intro thinI) auto
    from unlink_case2[OF z[unfolded 3(2)] 3(1) th] obtain s' where
      u: "rbtree_unlink n s = Some (if rr = Leaf \<and> cs = Black then y else NULL, s')"
      "zip_rep s' ([] @ (R, c, y, l) # k) (paint Black rr)" by auto
    have "rb_ok (plug ([] @ (R, c, n, l) # k) (Node cs Leaf y rr))" using ok 3(2) by simp
    from erase_two[OF u _ this th] 3(2) show ?thesis by simp
  next
    case 4
    have "tree_rep s n r" using z by (simp add: zip_rep_def)
    from find_successor_spine[OF this[unfolded 4(2)] 4(3)] obtain cp p u ks cs y rr
      where fs: "find_successor s x1 (root_ptr l1) = Some (p, y)"
        and pl: "Node c1 l1 x1 r1 = plug ((L, cp, p, u) # ks) (Node cs Leaf y rr)" and b: "before ((L, cp, p, u) # ks) = []" by blast
    have ok': "rb_ok (plug (((L, cp, p, u) # ks) @ (R, c, n, l) # k) (Node cs Leaf y rr))"
      using ok 4(2) pl by (simp add: plug_append)
    have th: "thin rr" using zip_col_ok[OF ok'] by (intro thinI) auto
    from unlink_case3[OF z[unfolded 4(2) pl] 4(1) th refl pl[symmetric] fs 4(3)] obtain s' where
      "rbtree_unlink n s = Some (if rr = Leaf \<and> cs = Black then p else NULL, s')"
      "zip_rep s' (((L, cp, p, u) # ks) @ (R, c, y, l) # k) (paint Black rr)" by blast
    from erase_two[OF this _ ok' th b] show ?thesis using 4(2) pl by simp
  qed
qed


subsection \<open>Searching\<close>

text \<open>The loops of the clients all have this shape: compare, descend, remember the parent and the
  pointer followed. \<open>cmp\<close> compares the node's key with the wanted one.\<close>

datatype search_result = Found ptr | Missing ptr link

partial_function (option) rb_search ::
  "(ptr \<Rightarrow> int option) \<Rightarrow> rbtree \<Rightarrow> ptr \<Rightarrow> ptr \<Rightarrow> link \<Rightarrow> search_result option" where
  "rb_search cmp s node parent lnk =
     (if node = NULL then Some (Missing parent lnk)
      else do {
        res \<leftarrow> cmp node;
        if res < 0 then do { c \<leftarrow> get_child s L node; rb_search cmp s c node (AtChild L node) }
        else if res > 0 then do { c \<leftarrow> get_child s R node; rb_search cmp s c node (AtChild R node) }
        else Some (Found node)
      })"

definition hev_rbtree_search :: "(ptr \<Rightarrow> int option) \<Rightarrow> rbtree \<Rightarrow> search_result option" where
  "hev_rbtree_search cmp s = rb_search cmp s (rb_root s) NULL AtRoot"

definition hev_rbtree_insert :: "ptr \<Rightarrow> ptr \<Rightarrow> link \<Rightarrow> rbtree \<Rightarrow> rbtree option" where
  "hev_rbtree_insert node parent lnk s = do {
     s \<leftarrow> hev_rbtree_node_link node parent lnk s;
     hev_rbtree_insert_color node s
   }"

fun link_of :: "frame list \<Rightarrow> link" where
  "link_of [] = AtRoot"
| "link_of ((d, c, x, u) # k) = AtChild d x"

text \<open>\<open>turns\<close>: the search turns right at \<open>xs\<close> and left at \<open>ys\<close>.\<close>

definition turns :: "(ptr \<Rightarrow> int option) \<Rightarrow> ptr list \<Rightarrow> ptr list \<Rightarrow> bool" where
  "turns cmp xs ys \<longleftrightarrow> (\<forall>x \<in> set xs. \<exists>r > 0. cmp x = Some r) \<and> (\<forall>y \<in> set ys. \<exists>r < 0. cmp y = Some r)"

lemma turns_append [simp]: "turns cmp (xs @ xs') ys \<longleftrightarrow> turns cmp xs ys \<and> turns cmp xs' ys"
    "turns cmp xs (ys @ ys') \<longleftrightarrow> turns cmp xs ys \<and> turns cmp xs ys'"
    "turns cmp (x # xs) ys \<longleftrightarrow> (\<exists>r > 0. cmp x = Some r) \<and> turns cmp xs ys"
    "turns cmp xs (y # ys) \<longleftrightarrow> (\<exists>r < 0. cmp y = Some r) \<and> turns cmp xs ys"
  by (auto simp: turns_def)

lemma append_eq_middle:
  assumes "xs @ y # ys = as @ bs"
  shows "(\<exists>cs. bs = cs @ y # ys \<and> xs = as @ cs) \<or> (\<exists>cs. as = xs @ y # cs \<and> ys = cs @ bs)"
  using assms by (auto simp: append_eq_append_conv2 Cons_eq_append_conv)

lemma rb_search_missing:
  assumes "zip_rep s k t" "inorder t = as @ bs" "turns cmp as bs"
  shows "\<exists>k'. rb_search cmp s (root_ptr t) (parent_of k) (link_of k) = Some (Missing (parent_of k') (link_of k')) \<and>
    plug k t = plug k' Leaf \<and> before k' = before k @ as \<and> after k' = bs @ after k"
  using assms
proof (induction t arbitrary: k as bs)
  case Leaf
  then show ?case by (intro exI[of _ k]) (simp add: rb_search.simps)
next
  case (Node c l x r)
  have f: "x \<noteq> NULL" "rb_child s L x = root_ptr l" "rb_child s R x = root_ptr r"
    using Node.prems(1) by (simp_all add: zip_rep_def)
  have zl: "zip_rep s ((L, c, x, r) # k) l" and zr: "zip_rep s ((R, c, x, l) # k) r"
    using Node.prems(1) by (simp_all add: zip_rep_Cons)
  from append_eq_middle Node.prems(2)
  consider cs where "bs = cs @ x # inorder r" "inorder l = as @ cs" | cs where "as = inorder l @ x # cs" "inorder r = cs @ bs"
    by (metis inorder.simps(2))
  then show ?case
  proof cases
    case 1
    with Node.prems(3) obtain res where "cmp x = Some res" "res < 0" "turns cmp as cs" by auto
    with Node.IH(1)[OF zl 1(2)] 1 f show ?thesis
      by (subst rb_search.simps) (auto simp: get_child_def)
  next
    case 2
    with Node.prems(3) obtain res where "cmp x = Some res" "res > 0" "turns cmp cs bs" by auto
    with Node.IH(2)[OF zr 2(2)] 2 f show ?thesis
      by (subst rb_search.simps) (auto simp: get_child_def)
  qed
qed

lemma rb_search_found:
  assumes "zip_rep s k t" "inorder t = as @ y # bs" "turns cmp as bs" "cmp y = Some 0"
  shows "rb_search cmp s (root_ptr t) p lk = Some (Found y)"
  using assms
proof (induction t arbitrary: k as bs p lk)
  case (Node c l x r)
  have f: "x \<noteq> NULL" "rb_child s L x = root_ptr l" "rb_child s R x = root_ptr r"
    using Node.prems(1) by (simp_all add: zip_rep_def)
  have zl: "zip_rep s ((L, c, x, r) # k) l" and zr: "zip_rep s ((R, c, x, l) # k) r"
    using Node.prems(1) by (simp_all add: zip_rep_Cons)
  from append_eq_middle[of "inorder l" x "inorder r" as "y # bs"] Node.prems(2)
  consider "y = x" | cs where "bs = cs @ x # inorder r" "inorder l = as @ y # cs" | cs where "as = inorder l @ x # cs" "inorder r = cs @ y # bs"
    by (auto simp: Cons_eq_append_conv)
  then show ?case
  proof cases
    case 1
    with Node.prems(4) f show ?thesis by (subst rb_search.simps) simp
  next
    case 2
    with Node.prems(3) obtain res where "cmp x = Some res" "res < 0" "turns cmp as cs" by auto
    with Node.IH(1)[OF zl 2(2) _ Node.prems(4)] f show ?thesis
      by (subst rb_search.simps) (simp add: get_child_def)
  next
    case 3
    with Node.prems(3) obtain res where "cmp x = Some res" "res > 0" "turns cmp cs bs" by auto
    with Node.IH(2)[OF zr 3(2) _ Node.prems(4)] f show ?thesis
      by (subst rb_search.simps) (simp add: get_child_def)
  qed
qed simp

lemma node_link:
  assumes z: "zip_rep s k Leaf" and n: "n \<noteq> NULL" "aligned n" "n \<notin> ctx_nodes k"
  shows "\<exists>s'. hev_rbtree_node_link n (parent_of k) (link_of k) s = Some s' \<and> zip_rep s' k (Node Red Leaf n Leaf)"
proof -
  let ?s1 = "upd_child L n NULL (upd_child R n NULL (upd_pcol n (parent_of k) s))"
  have f: "ctx_rep ?s1 k NULL" "ctx_distinct k" using z n by (simp_all add: zip_rep_def)
  have "store_link (link_of k) n ?s1 = Some (upd_hole k n ?s1)"
    using f(1) by (cases k rule: link_of.cases) (auto simp: set_child_upd)
  then have "hev_rbtree_node_link n (parent_of k) (link_of k) s = Some (upd_hole k n ?s1)"
    using n by (simp add: hev_rbtree_node_link_def set_child_upd set_pcol_upd)
  moreover have "zip_rep (upd_hole k n ?s1) k (Node Red Leaf n Leaf)"
    using ctx_upd_hole[OF f] f(2) n parent_of_notin(1)[OF n(1,3)] by (simp add: zip_rep_def)
  ultimately show ?thesis by blast
qed

lemma insert_at:
  assumes z: "zip_rep s k Leaf" and ok: "rb_ok (plug k Leaf)" and n: "n \<noteq> NULL" "aligned n" "n \<notin> ctx_nodes k"
  shows "erased (hev_rbtree_insert n (parent_of k) (link_of k) s) (before k @ n # after k)"
proof -
  from node_link[OF z n] obtain s1 where s1: "hev_rbtree_node_link n (parent_of k) (link_of k) s = Some s1"
    "zip_rep s1 k (Node Red Leaf n Leaf)" by blast
  have "ctx_ok k 0" using zip_col_ok[OF ok] by simp
  with insert_color_loop_correct[OF s1(2)] have "erased (insert_color_loop s1 n (parent_of k)) (inorder (plug k (Node Red Leaf n Leaf)))"
    by (auto simp: erased_def)
  moreover have "hev_rbtree_insert_color n s1 = insert_color_loop s1 n (parent_of k)"
    using s1(2) by (simp add: hev_rbtree_insert_color_def rb_core zip_rep_def)
  ultimately show ?thesis using s1(1) by (simp add: hev_rbtree_insert_def inorder_plug)
qed

subsection \<open>Traversal is in order\<close>

lemma inorder_Nil [simp]: "inorder t = [] \<longleftrightarrow> t = Leaf"
  by (cases t) auto

lemma descend_step:
  "n \<noteq> NULL \<Longrightarrow> descend s d n = (if rb_child s d n = NULL then Some n else descend s d (rb_child s d n))"
  by (subst descend.simps) (simp add: get_child_def)

lemma descend_last: "tree_rep s q t \<Longrightarrow> t \<noteq> Leaf \<Longrightarrow> descend s R (root_ptr t) = Some (last (inorder t))"
proof (induction t arbitrary: q)
  case (Node c l x r)
  then have "x \<noteq> NULL" "rb_child s R x = root_ptr r" "tree_rep s x r" by simp_all
  with Node.IH(2)[of x] root_ptr_null[of s x r] show ?case
    by (cases "r = Leaf") (simp_all add: descend_step)
qed simp

lemma descend_first: "tree_rep s q t \<Longrightarrow> t \<noteq> Leaf \<Longrightarrow> descend s L (root_ptr t) = Some (hd (inorder t))"
proof (induction t arbitrary: q)
  case (Node c l x r)
  then have "x \<noteq> NULL" "rb_child s L x = root_ptr l" "tree_rep s x l" by simp_all
  with Node.IH(1)[of x] root_ptr_null[of s x l] show ?case
    by (cases "l = Leaf") (simp_all add: descend_step)
qed simp

definition hd_or_null :: "ptr list \<Rightarrow> ptr" where
  "hd_or_null xs = (case xs of [] \<Rightarrow> NULL | x # _ \<Rightarrow> x)"

lemma climb_after:
  assumes "ctx_rep s k n" "rb_pcol s n = pack (parent_of k) c" "n \<noteq> NULL" "n \<notin> ctx_nodes k" "ctx_distinct k"
  shows "climb s R n = Some (hd_or_null (after k))"
  using assms
proof (induction k arbitrary: n c rule: ctx_nodes.induct)
  case 1
  then show ?case by (subst climb.simps) (simp add: rb_core pack_facts aligned_def hd_or_null_def)
next
  case (2 d c' x u k)
  have al: "aligned x" "x \<noteq> NULL" "rb_child s d x = n" "rb_child s (opp d) x = root_ptr u" "rb_pcol s x = pack (parent_of k) c'"
    "tree_rep s x u" "ctx_rep s k x" "x \<notin> ctx_nodes k"
    using 2(2,6) by auto
  have "root_ptr u \<noteq> n" using 2(4,5) root_ptr_in[of u] by (cases "u = Leaf") auto
  then show ?case using al 2
    by (subst climb.simps, cases d) (simp_all add: rb_core pack_facts hd_or_null_def)
qed

lemma node_next:
  assumes z: "zip_rep s k (Node c l n r)"
  shows "hev_rbtree_node_next s n = Some (hd_or_null (inorder r @ after k))"
proof -
  have f: "n \<noteq> NULL" "aligned n" "rb_child s R n = root_ptr r" "rb_pcol s n = pack (parent_of k) c" "tree_rep s n r"
    "ctx_rep s k n" "n \<notin> ctx_nodes k" "ctx_distinct k" "aligned (parent_of k)"
    using z aligned_parent_of[of s k n] by (simp_all add: zip_rep_def)
  have "pack (parent_of k) c \<noteq> n"
  proof
    assume "pack (parent_of k) c = n"
    then have "pack (parent_of k) c AND NOT 3 = n" using aligned_parent[OF f(2)] by simp
    then have "parent_of k = n" using pack_facts(2)[OF f(9)] by simp
    with parent_of_notin(1)[OF f(1,7)] show False by simp
  qed
  then have n: "hev_rbtree_node_next s n = (if root_ptr r \<noteq> NULL then descend s L (root_ptr r) else climb s R n)"
    using f by (simp add: hev_rbtree_node_next_def hev_rbtree_node_empty_def rb_core)
  show ?thesis
  proof (cases "r = Leaf")
    case True
    then show ?thesis using n climb_after[OF f(6,4,1,7,8)] by simp
  next
    case False
    then obtain y ys where "inorder r = y # ys" by (cases "inorder r") auto
    then show ?thesis using n descend_first[OF f(5) False] root_ptr_null[OF f(5)] False by (simp add: hd_or_null_def)
  qed
qed

lemma first_node:
  assumes "rb_rep s t"
  shows "hev_rbtree_first s = Some (hd_or_null (inorder t))"
proof (cases "t = Leaf")
  case True
  with assms show ?thesis
    by (simp add: rb_rep_def hev_rbtree_first_def hd_or_null_def)
next
  case False
  then obtain y ys where "inorder t = y # ys" by (cases "inorder t") auto
  with False assms descend_first[of s NULL t] root_ptr_null[of s NULL t] show ?thesis
    by (simp add: rb_rep_def hev_rbtree_first_def hd_or_null_def)
qed

subsection \<open>The contract of the clients\<close>

lemma split_node:
  assumes "inorder t = xs @ n # ys"
  shows "\<exists>k c l r. t = plug k (Node c l n r) \<and> xs = before k @ inorder l \<and> ys = inorder r @ after k"
proof -
  have "\<exists>k' c l r. plug k t = plug k' (Node c l n r) \<and> before k @ xs = before k' @ inorder l \<and>
      ys @ after k = inorder r @ after k'" for k
    using assms
  proof (induction t arbitrary: k xs ys)
    case (Node c l x r)
    from append_eq_middle[of "inorder l" x "inorder r" xs "n # ys"] Node.prems
    consider "n = x" "inorder l = xs" "inorder r = ys"
      | cs where "ys = cs @ x # inorder r" "inorder l = xs @ n # cs"
      | cs where "xs = inorder l @ x # cs" "inorder r = cs @ n # ys"
      by (auto simp: Cons_eq_append_conv)
    then show ?case
    proof cases
      case 1
      then show ?thesis by blast
    next
      case 2
      from Node.IH(1)[OF 2(2), of "(L, c, x, r) # k"] 2(1) show ?thesis by simp
    next
      case 3
      from Node.IH(2)[OF 3(2), of "(R, c, x, l) # k"] 3(1) show ?thesis by simp
    qed
  qed simp
  from this[of "[]"] show ?thesis by simp
qed

text \<open>\<open>rb_list s xs\<close>: the heap holds a red-black tree whose nodes, in order, are \<open>xs\<close>.\<close>

definition rb_list :: "rbtree \<Rightarrow> ptr list \<Rightarrow> bool" where
  "rb_list s xs \<longleftrightarrow> (\<exists>t. rb_rep s t \<and> rb_ok t \<and> inorder t = xs)"

lemma rb_list_empty: "rb_root s = NULL \<Longrightarrow> rb_list s []"
  unfolding rb_list_def by (intro exI[of _ Leaf]) (simp add: rb_rep_def rb_ok_def)

lemma erased_rb_list: "erased r xs \<longleftrightarrow> (\<exists>s'. r = Some s' \<and> rb_list s' xs)"
  by (auto simp: erased_def rb_list_def)

lemma rb_list_erase:
  assumes "rb_list s (xs @ n # ys)"
  shows "\<exists>s'. hev_rbtree_erase n s = Some s' \<and> rb_list s' (xs @ ys)"
proof -
  from assms obtain t where t: "rb_rep s t" "rb_ok t" "inorder t = xs @ n # ys" by (auto simp: rb_list_def)
  from split_node[OF t(3)] obtain k c l r where k: "t = plug k (Node c l n r)" "xs = before k @ inorder l"
    "ys = inorder r @ after k" by blast
  from t(1) k(1) have "zip_rep s k (Node c l n r)" by (simp add: zip_rep_plug)
  from erase_at[OF this] t(2) k show ?thesis by (simp add: erased_rb_list)
qed

lemma rb_list_found:
  assumes "rb_list s (xs @ n # ys)" "turns cmp xs ys" "cmp n = Some 0"
  shows "hev_rbtree_search cmp s = Some (Found n)"
proof -
  from assms obtain t where t: "rb_rep s t" "inorder t = xs @ n # ys" by (auto simp: rb_list_def)
  from t(1) have "zip_rep s [] t" "rb_root s = root_ptr t" by (simp_all add: zip_rep_plug rb_rep_def)
  with rb_search_found[OF this(1) t(2) assms(2,3)] show ?thesis by (simp add: hev_rbtree_search_def)
qed

lemma rb_list_missing:
  assumes "rb_list s (xs @ ys)" "turns cmp xs ys"
  shows "\<exists>p lk. hev_rbtree_search cmp s = Some (Missing p lk) \<and>
    (\<forall>n. n \<noteq> NULL \<longrightarrow> aligned n \<longrightarrow> n \<notin> set (xs @ ys) \<longrightarrow>
      (\<exists>s'. hev_rbtree_insert n p lk s = Some s' \<and> rb_list s' (xs @ n # ys)))"
proof -
  from assms obtain t where t: "rb_rep s t" "rb_ok t" "inorder t = xs @ ys" by (auto simp: rb_list_def)
  from t(1) have "zip_rep s [] t" and root: "rb_root s = root_ptr t" by (simp_all add: zip_rep_plug rb_rep_def)
  from rb_search_missing[OF this(1) t(3) assms(2)] obtain k where
    k: "rb_search cmp s (root_ptr t) NULL AtRoot = Some (Missing (parent_of k) (link_of k))"
      "t = plug k Leaf" "before k = xs" "after k = ys" by auto
  from t(1) k(2) have z: "zip_rep s k Leaf" by (simp add: zip_rep_plug)
  have "n \<notin> ctx_nodes k" if "n \<notin> set (xs @ ys)" for n
    using that k(3,4) by (simp add: ctx_nodes_list)
  with insert_at[OF z] t(2) k root show ?thesis
    by (auto simp: erased_rb_list hev_rbtree_search_def)
qed

lemma rb_list_distinct: "rb_list s xs \<Longrightarrow> distinct xs"
  by (auto simp: rb_list_def rb_rep_def)

lemma rb_list_node: "rb_list s xs \<Longrightarrow> x \<in> set xs \<Longrightarrow> x \<noteq> NULL \<and> aligned x"
  by (auto simp: rb_list_def rb_rep_def dest: tree_rep_nonnull)

lemma rb_list_first: "rb_list s xs \<Longrightarrow> hev_rbtree_first s = Some (hd_or_null xs)"
  by (auto simp: rb_list_def dest: first_node)

lemma rb_list_next: "rb_list s (xs @ n # ys) \<Longrightarrow> hev_rbtree_node_next s n = Some (hd_or_null ys)"
  using split_node by (fastforce simp: rb_list_def zip_rep_plug[symmetric] dest: node_next)

text \<open>An index of nodes: the client supplies the comparison with the wanted key. If it tells
  the nodes before the place from those after it, a search ends at the place.\<close>

locale node_index =
  fixes rep :: "'s \<Rightarrow> ptr list \<Rightarrow> bool"
    and search :: "(ptr \<Rightarrow> int option) \<Rightarrow> 's \<Rightarrow> search_result option"
    and insert :: "ptr \<Rightarrow> ptr \<Rightarrow> link \<Rightarrow> 's \<Rightarrow> 's option"
    and erase :: "ptr \<Rightarrow> 's \<Rightarrow> 's option"
  assumes rep_distinct: "rep s xs \<Longrightarrow> distinct xs"
    and rep_node: "rep s xs \<Longrightarrow> x \<in> set xs \<Longrightarrow> x \<noteq> NULL \<and> aligned x"
    and search_found: "rep s (xs @ n # ys) \<Longrightarrow> turns cmp xs ys \<Longrightarrow> cmp n = Some 0 \<Longrightarrow>
      search cmp s = Some (Found n)"
    and search_missing: "rep s (xs @ ys) \<Longrightarrow> turns cmp xs ys \<Longrightarrow>
      \<exists>p lk. search cmp s = Some (Missing p lk) \<and>
        (\<forall>n. n \<noteq> NULL \<longrightarrow> aligned n \<longrightarrow> n \<notin> set (xs @ ys) \<longrightarrow>
          (\<exists>s'. insert n p lk s = Some s' \<and> rep s' (xs @ n # ys)))"
    and erase_rep: "rep s (xs @ n # ys) \<Longrightarrow> \<exists>s'. erase n s = Some s' \<and> rep s' (xs @ ys)"
begin

lemma erase_member:
  assumes "rep s xs" "n \<in> set xs"
  shows "\<exists>s'. erase n s = Some s' \<and> rep s' (remove1 n xs)"
proof -
  from assms(2) obtain as bs where "xs = as @ n # bs" by (auto simp: in_set_conv_decomp)
  with erase_rep[of s as n bs] rep_distinct[OF assms(1)] assms(1) show ?thesis
    by (simp add: remove1_append)
qed

end

interpretation rb: node_index rb_list hev_rbtree_search hev_rbtree_insert hev_rbtree_erase
  by unfold_locales (blast dest: rb_list_distinct rb_list_node rb_list_found rb_list_missing rb_list_erase)+

subsection \<open>Nodes with keys\<close>

text \<open>\<open>keyed rep kcmp s K D\<close>: the index holds exactly the nodes \<open>D\<close>, ordered by their keys \<open>K\<close>.
  A search turns right while the node's key compares greater than the wanted one, so the keys
  descend.\<close>

definition keyed :: "('s \<Rightarrow> ptr list \<Rightarrow> bool) \<Rightarrow> ('k \<Rightarrow> 'k \<Rightarrow> int) \<Rightarrow> 's \<Rightarrow> (ptr \<Rightarrow> 'k) \<Rightarrow> ptr set \<Rightarrow> bool" where
  "keyed rep kcmp s K D \<longleftrightarrow> (\<exists>xs. rep s xs \<and> sorted_wrt (\<lambda>x y. 0 < kcmp (K x) (K y)) xs \<and> set xs = D)"

lemma keyed_cong:
  assumes "keyed rep kcmp s K D" "\<And>x. x \<in> D \<Longrightarrow> K' x = K x"
  shows "keyed rep kcmp s K' D"
proof -
  from assms(1) obtain xs where "rep s xs" "sorted_wrt (\<lambda>x y. 0 < kcmp (K x) (K y)) xs" "set xs = D"
    by (auto simp: keyed_def)
  moreover from this(2,3) assms(2) have "sorted_wrt (\<lambda>x y. 0 < kcmp (K' x) (K' y)) xs"
    by (auto elim!: sorted_wrt_mono_rel[rotated])
  ultimately show ?thesis unfolding keyed_def by blast
qed

locale keyed_index = node_index rep search insert erase
  for rep :: "'s \<Rightarrow> ptr list \<Rightarrow> bool" and search insert erase +
  fixes kcmp :: "'k \<Rightarrow> 'k \<Rightarrow> int"
  assumes kcmp_zero: "kcmp a b = 0 \<longleftrightarrow> a = b"
    and kcmp_sym: "kcmp a b < 0 \<longleftrightarrow> 0 < kcmp b a"
    and kcmp_trans: "0 < kcmp a b \<Longrightarrow> 0 < kcmp b c \<Longrightarrow> 0 < kcmp a c"
begin

lemma kcmp_total: "0 < kcmp a b \<or> a = b \<or> kcmp a b < 0"
  using kcmp_zero[of a b] by linarith

text \<open>In an ordered sequence every key has a place: its node, or the gap where it belongs.\<close>

lemma key_place:
  assumes "sorted_wrt (\<lambda>x y. 0 < kcmp (K x) (K y)) xs"
  shows "\<exists>as bs. (\<forall>x \<in> set as. 0 < kcmp (K x) k) \<and> (\<forall>y \<in> set bs. kcmp (K y) k < 0) \<and>
    (xs = as @ bs \<or> (\<exists>n. K n = k \<and> xs = as @ n # bs))"
  using assms
proof (induction xs)
  case (Cons x xs)
  then obtain as bs where ab: "\<forall>x \<in> set as. 0 < kcmp (K x) k" "\<forall>y \<in> set bs. kcmp (K y) k < 0"
    "xs = as @ bs \<or> (\<exists>n. K n = k \<and> xs = as @ n # bs)" by auto
  from kcmp_total[of "K x" k] show ?case
  proof (elim disjE)
    assume "0 < kcmp (K x) k"
    with ab show ?thesis by (intro exI[of _ "x # as"] exI[of _ bs]) auto
  next
    assume "K x = k"
    with Cons.prems show ?thesis by (intro exI[of _ "[]"] exI[of _ xs]) (auto simp: kcmp_sym)
  next
    assume "kcmp (K x) k < 0"
    with Cons.prems have "\<forall>y \<in> set (x # xs). kcmp (K y) k < 0"
      by (auto simp: kcmp_sym dest: kcmp_trans)
    then show ?thesis by (intro exI[of _ "[]"] exI[of _ "x # xs"]) simp
  qed
qed simp

lemma keyed_inj: "keyed rep kcmp s K D \<Longrightarrow> inj_on K D"
proof -
  assume "keyed rep kcmp s K D"
  then obtain xs where xs: "rep s xs" "sorted_wrt (\<lambda>x y. 0 < kcmp (K x) (K y)) xs" "set xs = D"
    by (auto simp: keyed_def)
  from xs(2) have "distinct (map K xs)"
    by (induction xs) (auto simp: kcmp_zero[THEN iffD2])
  with xs(3) show ?thesis by (simp add: distinct_map)
qed

lemma keyed_node: "keyed rep kcmp s K D \<Longrightarrow> x \<in> D \<Longrightarrow> x \<noteq> NULL \<and> aligned x"
  by (auto simp: keyed_def dest: rep_node)

lemma keyed_finite: "keyed rep kcmp s K D \<Longrightarrow> finite D"
  by (auto simp: keyed_def)

lemma keyed_found:
  assumes idx: "keyed rep kcmp s K D" and n: "n \<in> D" and cmp: "\<And>x. x \<in> D \<Longrightarrow> cmp x = Some (kcmp (K x) (K n))"
  shows "search cmp s = Some (Found n)"
proof -
  from idx obtain xs where xs: "rep s xs" "sorted_wrt (\<lambda>x y. 0 < kcmp (K x) (K y)) xs" "set xs = D"
    by (auto simp: keyed_def)
  from n xs(3) obtain as bs where ab: "xs = as @ n # bs" by (auto simp: in_set_conv_decomp)
  with xs cmp have "turns cmp as bs"
    by (auto simp: turns_def sorted_wrt_append kcmp_sym)
  moreover have "cmp n = Some 0" using cmp[OF n] kcmp_zero by simp
  ultimately show ?thesis using search_found xs(1) ab by blast
qed

lemma keyed_insert:
  assumes idx: "keyed rep kcmp s K D" and k: "k \<notin> K ` D" and cmp: "\<And>x. x \<in> D \<Longrightarrow> cmp x = Some (kcmp (K x) k)"
  shows "\<exists>p lk. search cmp s = Some (Missing p lk) \<and>
    (\<forall>n. n \<noteq> NULL \<longrightarrow> aligned n \<longrightarrow> n \<notin> D \<longrightarrow>
      (\<exists>s'. insert n p lk s = Some s' \<and> keyed rep kcmp s' (K(n := k)) (Set.insert n D)))"
proof -
  from idx obtain xs where xs: "rep s xs" "sorted_wrt (\<lambda>x y. 0 < kcmp (K x) (K y)) xs" "set xs = D"
    by (auto simp: keyed_def)
  from key_place[OF xs(2), of k] k xs(3) obtain as bs where ab: "\<forall>x \<in> set as. 0 < kcmp (K x) k"
    "\<forall>y \<in> set bs. kcmp (K y) k < 0" "xs = as @ bs" by fastforce
  with xs(3) cmp have "turns cmp as bs" by (auto simp: turns_def)
  from search_missing[OF xs(1)[unfolded ab(3)] this] obtain p lk where
    p: "search cmp s = Some (Missing p lk)"
    and ins: "\<And>n. n \<noteq> NULL \<Longrightarrow> aligned n \<Longrightarrow> n \<notin> set (as @ bs) \<Longrightarrow>
      \<exists>s'. insert n p lk s = Some s' \<and> rep s' (as @ n # bs)" by blast
  have "\<exists>s'. insert n p lk s = Some s' \<and> keyed rep kcmp s' (K(n := k)) (Set.insert n D)"
    if n: "n \<noteq> NULL" "aligned n" "n \<notin> D" for n
  proof -
    from n xs(3) ab(3) have na: "n \<notin> set as" "n \<notin> set bs" by auto
    with ins[OF n(1,2)] obtain s' where s': "insert n p lk s = Some s'" "rep s' (as @ n # bs)" by auto
    have "sorted_wrt (\<lambda>x y. 0 < kcmp ((K(n := k)) x) ((K(n := k)) y)) (as @ n # bs)"
    proof -
      have "sorted_wrt (\<lambda>x y. 0 < kcmp ((K(n := k)) x) ((K(n := k)) y)) zs"
        if "sorted_wrt (\<lambda>x y. 0 < kcmp (K x) (K y)) zs" "n \<notin> set zs" for zs
        using that by (induction zs) auto
      with xs(2) ab na show ?thesis by (auto simp: sorted_wrt_append kcmp_sym)
    qed
    moreover have "set (as @ n # bs) = Set.insert n D" using xs(3) ab(3) by auto
    ultimately show ?thesis using s' unfolding keyed_def by blast
  qed
  with p show ?thesis by blast
qed

lemma keyed_erase:
  assumes idx: "keyed rep kcmp s K D" and n: "n \<in> D"
  shows "\<exists>s'. erase n s = Some s' \<and> keyed rep kcmp s' K (D - {n})"
proof -
  from idx obtain xs where xs: "rep s xs" "sorted_wrt (\<lambda>x y. 0 < kcmp (K x) (K y)) xs" "set xs = D"
    by (auto simp: keyed_def)
  from n xs(3) obtain as bs where ab: "xs = as @ n # bs" by (auto simp: in_set_conv_decomp)
  from erase_rep xs(1) ab obtain s' where s': "erase n s = Some s'" "rep s' (as @ bs)" by blast
  have "set (as @ bs) = D - {n}" using rep_distinct[OF xs(1)] xs(3) ab by auto
  moreover have "sorted_wrt (\<lambda>x y. 0 < kcmp (K x) (K y)) (as @ bs)"
    using xs(2) ab by (auto simp: sorted_wrt_append)
  ultimately show ?thesis using s' unfolding keyed_def by blast
qed

end

subsection \<open>Properties\<close>

lemma rb_search_any:
  assumes "zip_rep s k t" "\<And>x. x \<in> set (inorder t) \<Longrightarrow> cmp x \<noteq> None"
  shows "(\<exists>n. rb_search cmp s (root_ptr t) (parent_of k) (link_of k) = Some (Found n) \<and> n \<in> set (inorder t) \<and> cmp n = Some 0) \<or>
    (\<exists>k'. rb_search cmp s (root_ptr t) (parent_of k) (link_of k) = Some (Missing (parent_of k') (link_of k')) \<and>
      plug k t = plug k' Leaf)"
  using assms
proof (induction t arbitrary: k)
  case Leaf
  then show ?case by (intro disjI2 exI[of _ k]) (simp add: rb_search.simps)
next
  case (Node c l x r)
  have f: "x \<noteq> NULL" "rb_child s L x = root_ptr l" "rb_child s R x = root_ptr r"
    using Node.prems(1) by (simp_all add: zip_rep_def)
  have z: "zip_rep s ((L, c, x, r) # k) l" "zip_rep s ((R, c, x, l) # k) r"
    using Node.prems(1) by (simp_all add: zip_rep_Cons)
  from Node.prems(2)[of x] obtain res where res: "cmp x = Some res" by auto
  consider "res < 0" | "0 < res" | "res = 0" by linarith
  then show ?case
  proof cases
    case 1
    then have "rb_search cmp s x p lk = rb_search cmp s (root_ptr l) x (AtChild L x)" for p lk
      using f res by (subst rb_search.simps) (simp add: get_child_def)
    with Node.IH(1)[OF z(1)] Node.prems(2) show ?thesis by auto
  next
    case 2
    then have "rb_search cmp s x p lk = rb_search cmp s (root_ptr r) x (AtChild R x)" for p lk
      using f res by (subst rb_search.simps) (simp add: get_child_def)
    with Node.IH(2)[OF z(2)] Node.prems(2) show ?thesis by auto
  next
    case 3
    with f res show ?thesis by (subst rb_search.simps) simp
  qed
qed

text \<open>Concrete trees for the witnesses: the node of key \<open>i\<close> is at address \<open>16 i\<close>.\<close>

definition sample_tree :: rbt where
  "sample_tree = Node Black (Node Black Leaf 16 Leaf) 32 (Node Black Leaf 48 (Node Red Leaf 64 Leaf))"

definition sample_heap :: rbtree where
  "sample_heap = \<lparr>rb_root = 32,
     rb_pcol = (\<lambda>_. 0)(32 := 1, 16 := 33, 48 := 33, 64 := 48),
     rb_child = (\<lambda>d. case d of L \<Rightarrow> (\<lambda>_. NULL)(32 := 16) | R \<Rightarrow> (\<lambda>_. NULL)(32 := 48, 48 := 64))\<rparr>"

lemma sample_rep: "rb_rep sample_heap sample_tree" "rb_ok sample_tree" "inorder sample_tree = [16, 32, 48, 64]"
proof -
  show "rb_rep sample_heap sample_tree"
    unfolding sample_heap_def sample_tree_def rb_rep_def by (simp add: pack_def aligned_def del: pack_bits)
  show "rb_ok sample_tree" by (simp add: sample_tree_def rb_ok_def)
  show "inorder sample_tree = [16, 32, 48, 64]" by (simp add: sample_tree_def)
qed

text \<open>C14: searching terminates on every red-black tree whatever the comparison answers (it may even
  be inconsistent): it stops at a node that compares equal, or at a free place; and linking any
  new node at that place and rebalancing gives a red-black tree again, which has the old nodes in
  their old order and the new one between them.\<close>

theorem rbtree_insert_keeps_invariant:
  assumes "rb_rep s t" "rb_ok t" "\<And>x. x \<in> set (inorder t) \<Longrightarrow> cmp x \<noteq> None"
    and "n \<noteq> NULL" "aligned n" "n \<notin> set (inorder t)"
  shows "(\<exists>m. hev_rbtree_search cmp s = Some (Found m) \<and> m \<in> set (inorder t) \<and> cmp m = Some 0) \<or>
    (\<exists>p lk s' t' xs ys. hev_rbtree_search cmp s = Some (Missing p lk) \<and>
      hev_rbtree_insert n p lk s = Some s' \<and> rb_rep s' t' \<and> rb_ok t' \<and>
      inorder t = xs @ ys \<and> inorder t' = xs @ n # ys)"
proof -
  have z: "zip_rep s [] t" and root: "rb_root s = root_ptr t"
    using assms(1) by (simp_all add: zip_rep_plug rb_rep_def)
  from rb_search_any[of s "[]" t cmp, OF z assms(3)] root consider
    m where "hev_rbtree_search cmp s = Some (Found m)" "m \<in> set (inorder t)" "cmp m = Some 0"
    | k where "hev_rbtree_search cmp s = Some (Missing (parent_of k) (link_of k))" "t = plug k Leaf"
    by (auto simp: hev_rbtree_search_def)
  then show ?thesis
  proof cases
    case 2
    then have "zip_rep s k Leaf" "n \<notin> ctx_nodes k" "inorder t = before k @ after k"
      using assms(1,6) by (simp_all add: zip_rep_plug inorder_plug ctx_nodes_list)
    with insert_at[of s k n] 2 assms(2,4,5) show ?thesis by (auto simp: erased_def)
  qed blast
qed

theorem rbtree_insert_keeps_invariant_witness:
  "\<exists>r. hev_rbtree_search (\<lambda>x. Some (80 - sint x)) sample_heap = Some r"
  using rbtree_insert_keeps_invariant[OF sample_rep(1,2), of "\<lambda>x. Some (80 - sint x)" 80]
  by (auto simp: sample_rep(3) aligned_def)

text \<open>C13: removing a node of a red-black tree never accesses NULL, terminates, and leaves a
  red-black tree of exactly the other nodes in their order, whatever the shape and colours
  around the node.\<close>

theorem rbtree_erase_keeps_invariant:
  assumes "rb_rep s t" "rb_ok t" "inorder t = xs @ n # ys"
  shows "\<exists>s' t'. hev_rbtree_erase n s = Some s' \<and> rb_rep s' t' \<and> rb_ok t' \<and> inorder t' = xs @ ys"
  using rb_list_erase[of s xs n ys] assms by (auto simp: rb_list_def)

theorem rbtree_erase_keeps_invariant_witness:
  "\<exists>s' t'. hev_rbtree_erase 16 sample_heap = Some s' \<and> rb_rep s' t' \<and> rb_ok t' \<and> inorder t' = [32, 48, 64]"
  using rbtree_erase_keeps_invariant[OF sample_rep(1,2), of "[]" 16 "[32, 48, 64]"]
  by (simp add: sample_rep(3))

text \<open>A run of insertions and removals by a client that orders its nodes by the keys \<open>K\<close>.\<close>

datatype tree_op = Ins ptr | Rem ptr

fun tree_step :: "(ptr \<Rightarrow> int) \<Rightarrow> rbtree \<Rightarrow> tree_op \<Rightarrow> rbtree option" where
  "tree_step K s (Ins n) =
     (case hev_rbtree_search (\<lambda>x. Some (K n - K x)) s of
        Some (Missing p lk) \<Rightarrow> hev_rbtree_insert n p lk s
      | r \<Rightarrow> map_option (\<lambda>_. s) r)"
| "tree_step K s (Rem n) = hev_rbtree_erase n s"

text \<open>The abstract machine: insertion into a sorted list of nodes with different keys.\<close>

fun sorted_step :: "(ptr \<Rightarrow> int) \<Rightarrow> ptr list \<Rightarrow> tree_op \<Rightarrow> ptr list option" where
  "sorted_step K xs (Ins n) =
     (if K n \<in> K ` set xs then Some xs
      else if n \<noteq> NULL \<and> aligned n then Some (filter (\<lambda>x. K x < K n) xs @ n # filter (\<lambda>x. K n < K x) xs)
      else None)"
| "sorted_step K xs (Rem n) = (if n \<in> set xs then Some (remove1 n xs) else None)"

definition tree_sorted :: "(ptr \<Rightarrow> int) \<Rightarrow> rbtree \<Rightarrow> ptr list \<Rightarrow> bool" where
  "tree_sorted K s xs \<longleftrightarrow> rb_list s xs \<and> sorted_wrt (\<lambda>x y. K x < K y) xs"

lemma sorted_split:
  assumes "sorted_wrt (\<lambda>x y. K x < K y) xs" "(k :: int) \<notin> K ` set xs"
  shows "xs = filter (\<lambda>x. K x < k) xs @ filter (\<lambda>x. k < K x) xs"
  using assms
proof (induction xs)
  case (Cons x xs)
  show ?case
  proof (cases "K x < k")
    case False
    with Cons.prems have "\<forall>y \<in> set (x # xs). k < K y" by fastforce
    then have "filter (\<lambda>x. K x < k) (x # xs) = []" "filter (\<lambda>x. k < K x) (x # xs) = x # xs"
      by (fastforce simp: filter_empty_conv)+
    then show ?thesis by (simp only: append_Nil)
  qed (use Cons in auto)
qed simp

lemma tree_step_sim:
  assumes r: "tree_sorted K s xs" and st: "sorted_step K xs x = Some ys"
  shows "\<exists>s'. tree_step K s x = Some s' \<and> tree_sorted K s' ys"
proof (cases x)
  case (Rem n)
  with rb.erase_member[of s xs n] r st show ?thesis
    by (auto simp: tree_sorted_def sorted_wrt_filter distinct_remove1_removeAll[OF rb.rep_distinct]
        removeAll_filter_not_eq split: if_splits)
next
  case (Ins n)
  let ?c = "\<lambda>x. Some (K n - K x)"
  have s: "sorted_wrt (\<lambda>x y. K x < K y) xs" and l: "rb_list s xs" using r by (auto simp: tree_sorted_def)
  show ?thesis
  proof (cases "K n \<in> K ` set xs")
    case True
    then obtain m as bs where m: "K m = K n" "xs = as @ m # bs" by (auto simp: in_set_conv_decomp)
    with s have "turns ?c as bs" by (auto simp: turns_def sorted_wrt_append)
    with rb.search_found[of s as m bs ?c] l m have "hev_rbtree_search ?c s = Some (Found m)" by simp
    with Ins True st r show ?thesis by simp
  next
    case False
    with Ins st have n: "n \<noteq> NULL" "aligned n"
      and ys: "ys = filter (\<lambda>x. K x < K n) xs @ n # filter (\<lambda>x. K n < K x) xs" by (auto split: if_splits)
    note xs = sorted_split[OF s False]
    have "turns ?c (filter (\<lambda>x. K x < K n) xs) (filter (\<lambda>x. K n < K x) xs)" by (auto simp: turns_def)
    moreover have "n \<notin> set xs" using False by auto
    ultimately obtain p lk s' where "hev_rbtree_search ?c s = Some (Missing p lk)"
      "hev_rbtree_insert n p lk s = Some s'" "rb_list s' ys"
      using rb.search_missing[of s "filter (\<lambda>x. K x < K n) xs" "filter (\<lambda>x. K n < K x) xs" ?c] l xs n ys by auto
    moreover have "sorted_wrt (\<lambda>x y. K x < K y) ys"
      using s ys by (auto simp: sorted_wrt_append sorted_wrt_filter)
    ultimately show ?thesis using Ins by (simp add: tree_sorted_def)
  qed
qed

lemma tree_run:
  assumes "run_ops (sorted_step K) [] ops = Some xs" "rb_root s = NULL"
  shows "\<exists>s'. run_ops (tree_step K) s ops = Some s' \<and> tree_sorted K s' xs"
proof (rule run_ops_sim[where R = "tree_sorted K" and astep = "sorted_step K"])
  show "tree_sorted K s []" using rb_list_empty[OF assms(2)] by (simp add: tree_sorted_def)
qed (use tree_step_sim assms(1) in blast)+

text \<open>C12: the red-black tree implements a sorted list without repeated keys: every run of
  insertions and removals from the empty tree is defined and ends in a red-black tree that holds
  exactly the nodes of the list, in the order of their keys; an insertion whose key is present
  finds the key's node and changes nothing.\<close>

theorem rbtree_implements_sorted_list:
  assumes "run_ops (sorted_step K) [] ops = Some xs" "rb_root s = NULL"
  shows "\<exists>s' t. run_ops (tree_step K) s ops = Some s' \<and> rb_rep s' t \<and> rb_ok t \<and> inorder t = xs \<and>
    sorted_wrt (\<lambda>x y. K x < K y) xs"
  using tree_run[OF assms] by (auto simp: tree_sorted_def rb_list_def)

theorem rbtree_implements_sorted_list_witness:
  "\<exists>s' t. run_ops (tree_step sint) \<lparr>rb_root = NULL, rb_pcol = (\<lambda>_. 5), rb_child = (\<lambda>_ _. 6)\<rparr>
      [Ins 16, Ins 32, Ins 48, Ins 64, Ins 80, Rem 32, Ins 24, Rem 16] = Some s' \<and>
    rb_rep s' t \<and> rb_ok t \<and> inorder t = [24, 48, 64, 80] \<and> sorted_wrt (\<lambda>x y. sint x < sint y) [24, 48, 64, 80 :: ptr]"
  by (rule rbtree_implements_sorted_list) (simp_all add: aligned_def)

lemma hd_or_null_drop: "hd_or_null (drop j xs) = (if j < length xs then xs ! j else NULL)"
  by (cases "j < length xs") (simp_all add: hd_or_null_def Cons_nth_drop_Suc[symmetric])

text \<open>Starting at \<open>hev_rbtree_first\<close>, \<open>hev_rbtree_node_next\<close> visits the nodes of a red-black
  tree in order, each one once, and then returns NULL.\<close>

theorem rbtree_traversal_in_order:
  assumes "rb_rep s t" "rb_ok t" "i < length (inorder t)"
  shows "hev_rbtree_first s = Some (inorder t ! 0) \<and>
    hev_rbtree_node_next s (inorder t ! i) = Some (if Suc i < length (inorder t) then inorder t ! Suc i else NULL)"
proof -
  have "rb_list s (take i (inorder t) @ inorder t ! i # drop (Suc i) (inorder t))"
    using assms by (auto simp: rb_list_def id_take_nth_drop[symmetric])
  from rb_list_next[OF this] have "hev_rbtree_node_next s (inorder t ! i) = Some (hd_or_null (drop (Suc i) (inorder t)))" .
  moreover have "hd_or_null (inorder t) = inorder t ! 0" using assms(3) hd_or_null_drop[of 0 "inorder t"] by auto
  ultimately show ?thesis using first_node[OF assms(1)] by (simp add: hd_or_null_drop)
qed

theorem rbtree_traversal_in_order_witness:
  "hev_rbtree_first sample_heap = Some 16 \<and> hev_rbtree_node_next sample_heap 48 = Some 64"
  using rbtree_traversal_in_order[OF sample_rep(1,2), of 2] by (simp add: sample_rep(3))

fun rbt_height :: "rbt \<Rightarrow> nat" where
  "rbt_height Leaf = 0"
| "rbt_height (Node c l x r) = Suc (max (rbt_height l) (rbt_height r))"


lemma rb_bh_size: "rb_inv t \<Longrightarrow> 2 ^ bh t \<le> Suc (length (inorder t))"
  by (induction t) auto

lemma rb_height_bh: "rb_inv t \<Longrightarrow> rbt_height t \<le> 2 * bh t + (if col t = Red then 1 else 0)"
proof (induction t)
  case (Node c l x r)
  then show ?case by (cases c; cases "col l"; cases "col r") auto
qed simp

text \<open>After any run of insertions and removals from the empty tree, the longest path of a
  search is at most twice the logarithm of the number of nodes: with \<open>n\<close> nodes and height
  \<open>h\<close>, \<open>2 ^ h \<le> (n + 1)\<^sup>2\<close>.\<close>

theorem rbtree_height_logarithmic:
  assumes "run_ops (sorted_step K) [] ops = Some xs" "rb_root s = NULL"
  shows "\<exists>s' t. run_ops (tree_step K) s ops = Some s' \<and> rb_rep s' t \<and> inorder t = xs \<and>
    2 ^ rbt_height t \<le> (Suc (length xs))\<^sup>2"
proof -
  from tree_run[OF assms] obtain s' t where t: "run_ops (tree_step K) s ops = Some s'" "rb_rep s' t" "rb_ok t" "inorder t = xs"
    by (auto simp: tree_sorted_def rb_list_def)
  from t(3) rb_height_bh[of t] have "(2 :: nat) ^ rbt_height t \<le> 2 ^ (2 * bh t)"
    by (intro power_increasing) (auto simp: rb_ok_def)
  also have "\<dots> = (2 ^ bh t)\<^sup>2" by (simp add: power_mult mult.commute)
  also have "\<dots> \<le> (Suc (length xs))\<^sup>2"
    using rb_bh_size[of t] t(3,4) by (intro power_mono) (auto simp: rb_ok_def)
  finally show ?thesis using t by blast
qed

theorem rbtree_height_logarithmic_witness:
  "\<exists>s' t. run_ops (tree_step sint) \<lparr>rb_root = NULL, rb_pcol = (\<lambda>_. 5), rb_child = (\<lambda>_ _. 6)\<rparr>
      [Ins 16, Ins 32, Ins 48, Ins 64, Ins 80] = Some s' \<and> rb_rep s' t \<and> inorder t = [16, 32, 48, 64, 80] \<and>
    2 ^ rbt_height t \<le> (Suc (length [16, 32, 48, 64, 80 :: ptr]))\<^sup>2"
  by (rule rbtree_height_logarithmic) (simp_all add: aligned_def)

end
