(* ===== verification/MappedDNS.thy ===== *)
theory MappedDNS
  imports HevList RBTree
begin

section \<open>Mapped DNS: the name cache (hev-mapped-dns.c)\<close>

text \<open>
  The engine answers DNS queries itself: it gives every name an address of a reserved network and,
  when a connection to that address comes, looks the name up again. The cache has at most \<open>max\<close>
  names. A node is linked in a red-black tree (by name) and in a list (by last use) and stands in
  \<open>records\<close> at its index, the host part of its address; when the cache is full the least
  recently used node is replaced.

  \<open>mapped_dns\<close> holds the object, the link words of its nodes (\<open>md_tree\<close>, \<open>md_links\<close>) and the live
  nodes (\<open>md_nodes\<close>; an access to a node that is not live is undefined, so no freed node is used).
  A \<open>HevMappedDNSNode\<close> starts with its tree node and has its list node at offset 24.
  \<open>md_allocq\<close> has the addresses \<open>hev_malloc0\<close> will return; one that a correct allocator cannot
  return counts as NULL. \<open>md_dupq\<close> has the outcomes of \<open>strdup\<close>.

  \<open>lru_find\<close> and \<open>lru_lookup\<close> are the specification, an LRU cache as a list of pairs from the least
  to the most recently used; \<open>md_rep\<close> is the refinement relation.
\<close>

subsection \<open>State\<close>

record mdns_node =
  nd_name :: "bytes option"
  nd_idx :: int

record mapped_dns =
  md_use :: int
  md_max :: int
  md_net :: u32
  md_mask :: u32
  md_list :: hevlist
  md_links :: listheap
  md_tree :: rbtree
  md_records :: "ptr list"
  md_nodes :: "ptr \<Rightarrow> mdns_node option"
  md_allocq :: "ptr list"
  md_dupq :: "bool list"

text \<open>\<open>&node->list\<close> and its \<open>container_of\<close>.\<close>

definition lnode :: "ptr \<Rightarrow> ptr" where
  "lnode p = p + 24"

definition lnode_container :: "ptr \<Rightarrow> ptr" where
  "lnode_container p = p - 24"

text \<open>The C string comparison, of which only the sign is specified.\<close>

fun strcmp :: "bytes \<Rightarrow> bytes \<Rightarrow> int" where
  "strcmp [] [] = 0"
| "strcmp [] (b # bs) = -1"
| "strcmp (a # as) [] = 1"
| "strcmp (a # as) (b # bs) = (if a = b then strcmp as bs else if a < b then -1 else 1)"

subsection \<open>Nodes\<close>

definition md_malloc0 :: "mapped_dns \<Rightarrow> ptr \<times> mapped_dns" where
  "md_malloc0 self =
     (let (p, q) = pop NULL (md_allocq self); self = self\<lparr>md_allocq := q\<rparr>
      in if p \<noteq> NULL \<and> aligned p \<and> lnode p \<noteq> NULL \<and> md_nodes self p = None
         then (p, self\<lparr>md_nodes := (md_nodes self)(p \<mapsto> \<lparr>nd_name = None, nd_idx = 0\<rparr>)\<rparr>)
         else (NULL, self))"

definition hev_mapped_dns_node_alloc :: "bytes \<Rightarrow> mapped_dns \<Rightarrow> ptr \<times> mapped_dns" where
  "hev_mapped_dns_node_alloc name self =
     (let (node, self) = md_malloc0 self
      in if node = NULL then (NULL, self)
         else let (ok, q) = pop True (md_dupq self)
              in (node, self\<lparr>md_dupq := q, md_nodes := (md_nodes self)(node \<mapsto>
                    \<lparr>nd_name = (if ok then Some name else None), nd_idx = 0\<rparr>)\<rparr>))"

definition hev_mapped_dns_node_free :: "ptr \<Rightarrow> mapped_dns \<Rightarrow> mapped_dns option" where
  "hev_mapped_dns_node_free node self = do {
     check (md_nodes self node \<noteq> None);
     Some (self\<lparr>md_nodes := (md_nodes self)(node := None)\<rparr>)
   }"

subsection \<open>Finding and looking up\<close>

definition mdns_cmp :: "mapped_dns \<Rightarrow> bytes \<Rightarrow> ptr \<Rightarrow> int option" where
  "mdns_cmp self name p = do {
     nd \<leftarrow> md_nodes self p;
     nm \<leftarrow> nd_name nd;
     Some (strcmp nm name)
   }"

definition mdns_touch :: "ptr \<Rightarrow> mapped_dns \<Rightarrow> mapped_dns option" where
  "mdns_touch node self = do {
     (l, h) \<leftarrow> hev_list_del (md_list self) (md_links self) (lnode node);
     (l, h) \<leftarrow> hev_list_add_tail l h (lnode node);
     Some (self\<lparr>md_list := l, md_links := h\<rparr>)
   }"

text \<open>The replacement of the oldest node; it returns the index that becomes free.\<close>

definition mdns_evict :: "mapped_dns \<Rightarrow> (int \<times> mapped_dns) option" where
  "mdns_evict self = do {
     let nl = hev_list_first (md_list self);
     let nf = lnode_container nl;
     nd \<leftarrow> md_nodes self nf;
     let idx = nd_idx nd;
     tree \<leftarrow> hev_rbtree_erase nf (md_tree self);
     (l, h) \<leftarrow> hev_list_del (md_list self) (md_links self) (lnode nf);
     self \<leftarrow> hev_mapped_dns_node_free nf (self\<lparr>md_tree := tree, md_list := l, md_links := h\<rparr>);
     Some (idx, self)
   }"

definition hev_mapped_dns_find :: "bytes \<Rightarrow> mapped_dns \<Rightarrow> (int \<times> mapped_dns) option" where
  "hev_mapped_dns_find name self = do {
     r \<leftarrow> hev_rbtree_search (mdns_cmp self name) (md_tree self);
     case r of
       Found node \<Rightarrow> do {
         self \<leftarrow> mdns_touch node self;
         nd \<leftarrow> md_nodes self node;
         Some (nd_idx nd, self)
       }
     | Missing parent new \<Rightarrow>
         (case hev_mapped_dns_node_alloc name self of (node, self) \<Rightarrow>
           if node = NULL then Some (-1, self)
           else do {
             tree \<leftarrow> hev_rbtree_insert node parent new (md_tree self);
             (l, h) \<leftarrow> hev_list_add_tail (md_list self) (md_links self) (lnode node);
             let self = self\<lparr>md_tree := tree, md_list := l, md_links := h\<rparr>;
             (idx, self) \<leftarrow>
               (if md_use self < md_max self then Some (md_use self, self\<lparr>md_use := md_use self + 1\<rparr>)
                else mdns_evict self);
             check (0 \<le> idx \<and> nat idx < length (md_records self));
             nd \<leftarrow> md_nodes self node;
             Some (idx, self\<lparr>md_records := (md_records self)[nat idx := node],
               md_nodes := (md_nodes self)(node \<mapsto> nd\<lparr>nd_idx := idx\<rparr>)\<rparr>)
           })
   }"

definition hev_mapped_dns_lookup :: "u32 \<Rightarrow> mapped_dns \<Rightarrow> (bytes option \<times> mapped_dns) option" where
  "hev_mapped_dns_lookup ip self = do {
     let idx = sint (ip AND NOT (md_mask self));
     if idx \<ge> md_max self then Some (None, self)
     else do {
       check (0 \<le> idx \<and> nat idx < length (md_records self));
       let node = md_records self ! nat idx;
       if node = NULL then Some (None, self)
       else do {
         self \<leftarrow> mdns_touch node self;
         nd \<leftarrow> md_nodes self node;
         Some (nd_name nd, self)
       }
     }
   }"

subsection \<open>Construction and destruction\<close>

definition hev_mapped_dns_construct :: "u32 \<Rightarrow> u32 \<Rightarrow> int \<Rightarrow> mapped_dns \<Rightarrow> int \<times> mapped_dns" where
  "hev_mapped_dns_construct net nmask cap self =
     (if cap > sint (NOT nmask) then (-1, self)
      else (0, self\<lparr>md_max := cap, md_net := net, md_mask := nmask\<rparr>))"

text \<open>\<open>ok\<close> is the outcome of the allocation; \<open>self\<close> has the state of the allocator and whatever the
  memory holds. \<open>hev_malloc0\<close> clears the object.\<close>

definition hev_mapped_dns_new :: "u32 \<Rightarrow> u32 \<Rightarrow> int \<Rightarrow> bool \<Rightarrow> mapped_dns \<Rightarrow> mapped_dns option" where
  "hev_mapped_dns_new net nmask cap ok self =
     (if \<not> ok then None
      else case hev_mapped_dns_construct net nmask cap
             (self\<lparr>md_use := 0, md_max := 0, md_net := 0, md_mask := 0, md_list := hev_list_empty,
                md_tree := (md_tree self)\<lparr>rb_root := NULL\<rparr>, md_records := replicate (nat cap) NULL\<rparr>) of
        (res, self) \<Rightarrow> if res < 0 then None else Some self)"

partial_function (option) mdns_free_loop :: "ptr \<Rightarrow> mapped_dns \<Rightarrow> mapped_dns option" where
  "mdns_free_loop n self =
     (if n = NULL then Some self
      else do {
        let t = lnode_container n;
        n \<leftarrow> hev_list_node_next (md_links self) n;
        self \<leftarrow> hev_mapped_dns_node_free t self;
        mdns_free_loop n self
      })"

definition hev_mapped_dns_destruct :: "mapped_dns \<Rightarrow> mapped_dns option" where
  "hev_mapped_dns_destruct self = mdns_free_loop (hev_list_first (md_list self)) self"

subsection \<open>Specification\<close>

type_synonym lru = "(bytes \<times> int) list"

definition lru_touch :: "bytes \<Rightarrow> lru \<Rightarrow> lru" where
  "lru_touch k c = filter (\<lambda>e. fst e \<noteq> k) c @ filter (\<lambda>e. fst e = k) c"

definition lru_find :: "int \<Rightarrow> bytes \<Rightarrow> lru \<Rightarrow> int \<times> lru" where
  "lru_find cap k c =
     (case map_of c k of
        Some i \<Rightarrow> (i, lru_touch k c)
      | None \<Rightarrow> if int (length c) < cap then (int (length c), c @ [(k, int (length c))])
          else (snd (hd c), tl c @ [(k, snd (hd c))]))"

definition lru_lookup :: "int \<Rightarrow> lru \<Rightarrow> bytes option \<times> lru" where
  "lru_lookup i c =
     (case map_of (map (\<lambda>(k, j). (j, k)) c) i of
        Some k \<Rightarrow> (Some k, lru_touch k c)
      | None \<Rightarrow> (None, c))"

subsection \<open>The order of the names\<close>

lemma strcmp_zero: "strcmp a b = 0 \<longleftrightarrow> a = b"
  by (induction a b rule: strcmp.induct) auto

lemma strcmp_sym: "strcmp a b < 0 \<longleftrightarrow> 0 < strcmp b a"
  by (induction a b rule: strcmp.induct) auto

lemma strcmp_trans: "0 < strcmp a b \<Longrightarrow> 0 < strcmp b c \<Longrightarrow> 0 < strcmp a c"
proof (induction a b arbitrary: c rule: strcmp.induct)
  case (4 x xs y ys)
  then show ?case by (cases c) (auto split: if_splits)
next
  case (3 x xs)
  then show ?case by (cases c) auto
qed auto

interpretation names: keyed_index rb_list hev_rbtree_search hev_rbtree_insert hev_rbtree_erase strcmp
  by unfold_locales (use strcmp_zero strcmp_sym strcmp_trans in blast)+

subsection \<open>Refinement\<close>

definition node_name :: "mapped_dns \<Rightarrow> ptr \<Rightarrow> bytes" where
  "node_name self p = the (nd_name (the (md_nodes self p)))"

definition node_idx :: "mapped_dns \<Rightarrow> ptr \<Rightarrow> int" where
  "node_idx self p = nd_idx (the (md_nodes self p))"

text \<open>\<open>md_nodes_ok self ns\<close>: the live nodes are \<open>ns\<close>, each with a name, at its place in \<open>records\<close>.\<close>

definition md_nodes_ok :: "mapped_dns \<Rightarrow> ptr list \<Rightarrow> bool" where
  "md_nodes_ok self ns \<longleftrightarrow>
     (\<forall>p. md_nodes self p = None \<longleftrightarrow> p \<notin> set ns) \<and>
     (\<forall>p \<in> set ns. nd_name (the (md_nodes self p)) \<noteq> None \<and> lnode p \<noteq> NULL) \<and>
     (\<forall>p \<in> set ns. 0 \<le> node_idx self p \<and> node_idx self p < md_use self \<and>
        md_records self ! nat (node_idx self p) = p) \<and>
     int (length ns) = md_use self \<and> md_use self \<le> md_max self \<and> 0 < md_max self \<and>
     int (length (md_records self)) = md_max self \<and>
     (\<forall>i. md_use self \<le> int i \<longrightarrow> int i < md_max self \<longrightarrow> md_records self ! i = NULL)"

definition md_ok :: "mapped_dns \<Rightarrow> ptr list \<Rightarrow> bool" where
  "md_ok self ns \<longleftrightarrow> md_nodes_ok self ns \<and>
     list_rep (md_list self) (md_links self) (map lnode ns) \<and>
     keyed rb_list strcmp (md_tree self) (node_name self) (set ns)"

definition lru_of :: "mapped_dns \<Rightarrow> ptr list \<Rightarrow> lru" where
  "lru_of self ns = map (\<lambda>p. (node_name self p, node_idx self p)) ns"

definition md_rep :: "mapped_dns \<Rightarrow> lru \<Rightarrow> bool" where
  "md_rep self c \<longleftrightarrow> (\<exists>ns. md_ok self ns \<and> lru_of self ns = c)"

lemma lnode_simps [simp]: "lnode p = lnode q \<longleftrightarrow> p = q" "lnode_container (lnode p) = p"
  by (simp_all add: lnode_def lnode_container_def)

lemma inj_lnode [simp]: "inj_on lnode A"
  by (simp add: inj_on_def)

lemma md_okD:
  assumes "md_ok self ns"
  shows "distinct ns" "md_nodes self p = None \<longleftrightarrow> p \<notin> set ns" "inj_on (node_name self) (set ns)"
    "p \<in> set ns \<Longrightarrow> nd_name (the (md_nodes self p)) \<noteq> None"
    "p \<in> set ns \<Longrightarrow> 0 \<le> node_idx self p \<and> node_idx self p < md_use self \<and> md_records self ! nat (node_idx self p) = p"
    "p \<in> set ns \<Longrightarrow> p \<noteq> NULL \<and> lnode p \<noteq> NULL" "inj_on (node_idx self) (set ns)"
proof -
  note a = assms[unfolded md_ok_def md_nodes_ok_def]
  from a have "distinct (map lnode ns)" by (blast dest: hl.rep_distinct)
  then show "distinct ns" by (simp add: distinct_map)
  show "md_nodes self p = None \<longleftrightarrow> p \<notin> set ns" using a by blast
  show "inj_on (node_name self) (set ns)" using a by (blast dest: names.keyed_inj)
  show "p \<in> set ns \<Longrightarrow> nd_name (the (md_nodes self p)) \<noteq> None" using a by blast
  show "p \<in> set ns \<Longrightarrow> 0 \<le> node_idx self p \<and> node_idx self p < md_use self \<and> md_records self ! nat (node_idx self p) = p"
    using a by blast
  show "p \<in> set ns \<Longrightarrow> p \<noteq> NULL \<and> lnode p \<noteq> NULL" using a by (blast dest: names.keyed_node)
  show "inj_on (node_idx self) (set ns)" by (rule inj_onI) (use a in metis)
qed

lemma mdns_cmp: "md_ok self ns \<Longrightarrow> p \<in> set ns \<Longrightarrow> mdns_cmp self name p = Some (strcmp (node_name self p) name)"
  using md_okD(2,4)[of self ns p] by (auto simp: mdns_cmp_def node_name_def)

lemma mdns_touch:
  assumes ok: "md_ok self ns" and p: "p \<in> set ns"
  shows "\<exists>l h. mdns_touch p self = Some (self\<lparr>md_list := l, md_links := h\<rparr>) \<and>
    md_ok (self\<lparr>md_list := l, md_links := h\<rparr>) (remove1 p ns @ [p])"
proof -
  have rep: "list_rep (md_list self) (md_links self) (map lnode ns)" using ok by (simp add: md_ok_def)
  have "lnode p \<in> set (map lnode ns)" using p by simp
  from hl.move_to_tail[OF rep this] obtain l1 h1 l h where
    st: "hev_list_del (md_list self) (md_links self) (lnode p) = Some (l1, h1)"
      "hev_list_add_tail l1 h1 (lnode p) = Some (l, h)"
    and r: "list_rep l h (remove1 (lnode p) (map lnode ns) @ [lnode p])" by blast
  have "remove1 (lnode p) (map lnode ns) = map lnode (remove1 p ns)" by (induction ns) auto
  with r have r: "list_rep l h (map lnode (remove1 p ns @ [p]))" by simp
  have s: "set (remove1 p ns @ [p]) = set ns" using md_okD(1)[OF ok] p by auto
  have len: "length (remove1 p ns @ [p]) = length ns" using p by (simp add: length_remove1) (metis Suc_pred length_pos_if_in_set)
  have "md_nodes_ok (self\<lparr>md_list := l, md_links := h\<rparr>) (remove1 p ns @ [p])"
    using ok unfolding md_ok_def md_nodes_ok_def s len by (simp add: node_idx_def)
  moreover have "keyed rb_list strcmp (md_tree self) (node_name (self\<lparr>md_list := l, md_links := h\<rparr>)) (set ns)"
    using ok by (simp add: md_ok_def node_name_def[abs_def])
  ultimately have "md_ok (self\<lparr>md_list := l, md_links := h\<rparr>) (remove1 p ns @ [p])"
    unfolding md_ok_def s using r by simp
  with st show ?thesis by (auto simp: mdns_touch_def)
qed

lemma lru_of_touch:
  assumes "distinct ns" "inj_on (node_name self) (set ns)" "p \<in> set ns"
  shows "lru_of self (remove1 p ns @ [p]) = lru_touch (node_name self p) (lru_of self ns)"
proof -
  have e: "node_name self x = node_name self p \<longleftrightarrow> x = p" if "x \<in> set ns" for x
    using assms(2,3) that by (auto dest: inj_onD)
  have "filter (\<lambda>x. x = p) ns = [p]"
    using assms(1,3) by (induction ns) (auto simp: filter_empty_conv)
  moreover have "remove1 p ns = filter (\<lambda>x. x \<noteq> p) ns" using assms(1) by (simp add: distinct_remove1_removeAll removeAll_filter_not_eq neq_commute)
  moreover have "filter (\<lambda>x. node_name self x \<noteq> node_name self p) ns = filter (\<lambda>x. x \<noteq> p) ns"
    "filter (\<lambda>x. node_name self x = node_name self p) ns = filter (\<lambda>x. x = p) ns"
    using e by (auto intro!: filter_cong)
  ultimately show ?thesis by (simp add: lru_of_def lru_touch_def filter_map comp_def)
qed

lemma map_of_lru:
  assumes "inj_on (node_name self) (set ns)"
  shows "p \<in> set ns \<Longrightarrow> map_of (lru_of self ns) (node_name self p) = Some (node_idx self p)"
    "name \<notin> node_name self ` set ns \<Longrightarrow> map_of (lru_of self ns) name = None"
proof -
  show "p \<in> set ns \<Longrightarrow> map_of (lru_of self ns) (node_name self p) = Some (node_idx self p)"
    using assms by (induction ns) (auto simp: lru_of_def inj_on_def)
  show "name \<notin> node_name self ` set ns \<Longrightarrow> map_of (lru_of self ns) name = None"
    by (auto simp: lru_of_def map_of_eq_None_iff)
qed

lemma find_present:
  assumes ok: "md_ok self ns" and p: "p \<in> set ns"
  shows "\<exists>self'. hev_mapped_dns_find (node_name self p) self = Some (node_idx self p, self') \<and>
    md_rep self' (lru_touch (node_name self p) (lru_of self ns)) \<and>
    md_max self' = md_max self \<and> md_mask self' = md_mask self \<and> md_net self' = md_net self \<and> md_dupq self' = md_dupq self"
proof -
  have idx: "keyed rb_list strcmp (md_tree self) (node_name self) (set ns)" using ok by (simp add: md_ok_def)
  have f: "hev_rbtree_search (mdns_cmp self (node_name self p)) (md_tree self) = Some (Found p)"
    by (rule names.keyed_found[OF idx p]) (rule mdns_cmp[OF ok])
  from mdns_touch[OF ok p] obtain l h where t: "mdns_touch p self = Some (self\<lparr>md_list := l, md_links := h\<rparr>)"
    "md_ok (self\<lparr>md_list := l, md_links := h\<rparr>) (remove1 p ns @ [p])" by blast
  have "lru_of (self\<lparr>md_list := l, md_links := h\<rparr>) (remove1 p ns @ [p]) = lru_touch (node_name self p) (lru_of self ns)"
    using lru_of_touch[OF md_okD(1,3)[OF ok] p] by (simp add: lru_of_def node_name_def node_idx_def)
  with t(2) have "md_rep (self\<lparr>md_list := l, md_links := h\<rparr>) (lru_touch (node_name self p) (lru_of self ns))"
    unfolding md_rep_def by blast
  with f t(1) md_okD(2)[OF ok, of p] p show ?thesis
    by (auto simp: hev_mapped_dns_find_def node_idx_def)
qed

text \<open>\<open>strdup\<close> never fails; what happens when it does is a property below.\<close>

definition dup_ok :: "mapped_dns \<Rightarrow> bool" where
  "dup_ok self \<longleftrightarrow> False \<notin> set (md_dupq self)"

definition md_frame :: "mapped_dns \<Rightarrow> mapped_dns \<Rightarrow> bool" where
  "md_frame self self' \<longleftrightarrow> md_max self' = md_max self \<and> md_mask self' = md_mask self \<and>
     md_net self' = md_net self \<and> (dup_ok self \<longrightarrow> dup_ok self')"

lemma md_frame_refl [simp]: "md_frame self self"
  by (simp add: md_frame_def)

lemma md_frame_trans: "md_frame a b \<Longrightarrow> md_frame b c \<Longrightarrow> md_frame a c"
  by (simp add: md_frame_def)

lemma node_alloc_cases:
  assumes ok: "md_ok self ns" and dup: "dup_ok self"
  obtains (failed) q where "hev_mapped_dns_node_alloc name self = (NULL, self\<lparr>md_allocq := q\<rparr>)"
  | (fresh) p q d where "hev_mapped_dns_node_alloc name self = (p, self\<lparr>md_allocq := q, md_dupq := d,
        md_nodes := (md_nodes self)(p \<mapsto> \<lparr>nd_name = Some name, nd_idx = 0\<rparr>)\<rparr>)"
      "p \<noteq> NULL" "aligned p" "lnode p \<noteq> NULL" "p \<notin> set ns" "False \<notin> set d"
proof -
  obtain p q where q: "pop NULL (md_allocq self) = (p, q)" by fastforce
  obtain b d where d: "pop True (md_dupq self) = (b, d)" by fastforce
  with dup have b: "b" "False \<notin> set d" by (auto simp: dup_ok_def pop_def split: list.splits)
  show thesis
  proof (cases "p \<noteq> NULL \<and> aligned p \<and> lnode p \<noteq> NULL \<and> md_nodes self p = None")
    case True
    with q d b md_okD(2)[OF ok, of p] show thesis
      by (intro fresh[where p = p and q = q and d = d]) (simp_all add: hev_mapped_dns_node_alloc_def md_malloc0_def)
  next
    case False
    with q have "md_malloc0 self = (NULL, self\<lparr>md_allocq := q\<rparr>)" by (auto simp: md_malloc0_def)
    then show thesis by (intro failed[where q = q]) (simp add: hev_mapped_dns_node_alloc_def)
  qed
qed

lemma find_missing:
  assumes ok: "md_ok self ns" and n: "name \<notin> node_name self ` set ns"
  shows "\<exists>par new. hev_rbtree_search (mdns_cmp self name) (md_tree self) = Some (Missing par new) \<and>
    (\<forall>p. p \<noteq> NULL \<longrightarrow> aligned p \<longrightarrow> p \<notin> set ns \<longrightarrow>
      (\<exists>t'. hev_rbtree_insert p par new (md_tree self) = Some t' \<and>
        keyed rb_list strcmp t' ((node_name self)(p := name)) (insert p (set ns))))"
proof -
  have idx: "keyed rb_list strcmp (md_tree self) (node_name self) (set ns)" using ok by (simp add: md_ok_def)
  show ?thesis by (rule names.keyed_insert[OF idx n]) (rule mdns_cmp[OF ok])
qed

lemma find_failed:
  assumes ok: "md_ok self ns" and n: "name \<notin> node_name self ` set ns"
    and a: "hev_mapped_dns_node_alloc name self = (NULL, self\<lparr>md_allocq := q\<rparr>)"
  shows "hev_mapped_dns_find name self = Some (-1, self\<lparr>md_allocq := q\<rparr>) \<and> md_ok (self\<lparr>md_allocq := q\<rparr>) ns"
  using find_missing[OF ok n] a ok
  by (auto simp: hev_mapped_dns_find_def md_ok_def md_nodes_ok_def node_idx_def node_name_def[abs_def])

text \<open>The state after a node \<open>p\<close> has been linked in tree and list and entered at \<open>idx\<close>.\<close>

lemma find_fresh:
  assumes ok: "md_ok self ns" and n: "name \<notin> node_name self ` set ns"
    and a: "hev_mapped_dns_node_alloc name self = (p, self\<lparr>md_allocq := q, md_dupq := d,
        md_nodes := (md_nodes self)(p \<mapsto> \<lparr>nd_name = Some name, nd_idx = 0\<rparr>)\<rparr>)"
    and p: "p \<noteq> NULL" "aligned p" "lnode p \<noteq> NULL" "p \<notin> set ns" and room: "md_use self < md_max self"
  shows "\<exists>self'. hev_mapped_dns_find name self = Some (md_use self, self') \<and> md_ok self' (ns @ [p]) \<and>
    lru_of self' (ns @ [p]) = lru_of self ns @ [(name, md_use self)] \<and>
    md_max self' = md_max self \<and> md_mask self' = md_mask self \<and> md_net self' = md_net self \<and> md_dupq self' = d"
proof -
  note o = ok[unfolded md_ok_def md_nodes_ok_def]
  from find_missing[OF ok n] p obtain par new t' where
    s: "hev_rbtree_search (mdns_cmp self name) (md_tree self) = Some (Missing par new)"
    and t: "hev_rbtree_insert p par new (md_tree self) = Some t'"
      "keyed rb_list strcmp t' ((node_name self)(p := name)) (insert p (set ns))" by blast
  have rep: "list_rep (md_list self) (md_links self) (map lnode ns)" and np: "lnode p \<notin> set (map lnode ns)"
    using o p(4) by auto
  from hl.add_tail_rep[OF rep p(3) np] obtain l h where
    l: "hev_list_add_tail (md_list self) (md_links self) (lnode p) = Some (l, h)" "list_rep l h (map lnode ns @ [lnode p])" by blast
  let ?u = "md_use self"
  define self' where "self' = self\<lparr>md_allocq := q, md_dupq := d, md_tree := t', md_list := l, md_links := h,
    md_use := ?u + 1, md_records := (md_records self)[nat ?u := p],
    md_nodes := (md_nodes self)(p \<mapsto> \<lparr>nd_name = Some name, nd_idx = ?u\<rparr>)\<rparr>"
  have u: "0 \<le> ?u" "nat ?u < length (md_records self)" using o room by linarith+
  have f: "hev_mapped_dns_find name self = Some (?u, self')"
    using s a t(1) l(1) p room u by (simp add: hev_mapped_dns_find_def self'_def)
  have name: "node_name self' = (node_name self)(p := name)" and idx: "node_idx self' = (node_idx self)(p := ?u)"
    by (auto simp: node_name_def node_idx_def self'_def)
  have "md_nodes_ok self' (ns @ [p])"
  proof -
    have "\<forall>x \<in> set (ns @ [p]). 0 \<le> node_idx self' x \<and> node_idx self' x < md_use self' \<and> md_records self' ! nat (node_idx self' x) = x"
    proof
      fix x assume x: "x \<in> set (ns @ [p])"
      show "0 \<le> node_idx self' x \<and> node_idx self' x < md_use self' \<and> md_records self' ! nat (node_idx self' x) = x"
      proof (cases "x = p")
        case False
        with x have i: "0 \<le> node_idx self x" "node_idx self x < ?u" "md_records self ! nat (node_idx self x) = x"
          using md_okD(5)[OF ok, of x] by auto
        then have "nat (node_idx self x) \<noteq> nat ?u" by linarith
        with i False idx show ?thesis by (simp add: self'_def)
      qed (use idx u in \<open>simp add: self'_def\<close>)
    qed
    moreover have "\<forall>x. md_nodes self' x = None \<longleftrightarrow> x \<notin> set (ns @ [p])"
      using md_okD(2)[OF ok] by (auto simp: self'_def)
    moreover have "\<forall>x \<in> set (ns @ [p]). nd_name (the (md_nodes self' x)) \<noteq> None \<and> lnode x \<noteq> NULL"
      using md_okD(4,6)[OF ok] p by (auto simp: self'_def)
    moreover have "\<forall>i. md_use self' \<le> int i \<longrightarrow> int i < md_max self' \<longrightarrow> md_records self' ! i = NULL"
      using o by (auto simp: self'_def nth_list_update)
    moreover have "int (length (ns @ [p])) = md_use self'" "md_use self' \<le> md_max self'" "0 < md_max self'"
      "int (length (md_records self')) = md_max self'" using o room by (simp_all add: self'_def)
    ultimately show ?thesis unfolding md_nodes_ok_def by blast
  qed
  moreover have "list_rep (md_list self') (md_links self') (map lnode (ns @ [p]))" using l(2) by (simp add: self'_def)
  moreover have "keyed rb_list strcmp (md_tree self') (node_name self') (set (ns @ [p]))"
    using t(2) name by (simp add: self'_def)
  ultimately have "md_ok self' (ns @ [p])" by (simp add: md_ok_def)
  moreover have "lru_of self' (ns @ [p]) = lru_of self ns @ [(name, ?u)]"
    using p(4) by (auto simp: lru_of_def name idx)
  ultimately show ?thesis using f by (auto simp: self'_def)
qed

text \<open>When the cache is full the new node takes the index of the oldest one, which is freed.\<close>

lemma find_full:
  assumes ok: "md_ok self (old # ns)" and n: "name \<notin> node_name self ` set (old # ns)"
    and a: "hev_mapped_dns_node_alloc name self = (p, self\<lparr>md_allocq := q, md_dupq := d,
        md_nodes := (md_nodes self)(p \<mapsto> \<lparr>nd_name = Some name, nd_idx = 0\<rparr>)\<rparr>)"
    and p: "p \<noteq> NULL" "aligned p" "lnode p \<noteq> NULL" "p \<notin> set (old # ns)" and full: "\<not> md_use self < md_max self"
  shows "\<exists>self'. hev_mapped_dns_find name self = Some (node_idx self old, self') \<and> md_ok self' (ns @ [p]) \<and>
    lru_of self' (ns @ [p]) = lru_of self ns @ [(name, node_idx self old)] \<and>
    md_max self' = md_max self \<and> md_mask self' = md_mask self \<and> md_net self' = md_net self \<and> md_dupq self' = d"
proof -
  note o = ok[unfolded md_ok_def md_nodes_ok_def]
  note D = md_okD[OF ok]
  from D(1) have dist: "old \<notin> set ns" "distinct ns" by auto
  from find_missing[OF ok n] p obtain par new t' where
    s: "hev_rbtree_search (mdns_cmp self name) (md_tree self) = Some (Missing par new)"
    and t: "hev_rbtree_insert p par new (md_tree self) = Some t'"
      "keyed rb_list strcmp t' ((node_name self)(p := name)) (insert p (set (old # ns)))" by blast
  have rep: "list_rep (md_list self) (md_links self) (lnode old # map lnode ns)" and np: "lnode p \<notin> set (lnode old # map lnode ns)"
    using o p(4) by auto
  from hl.add_then_pop[OF rep p(3) np] obtain l1 h1 l h where
    l: "hev_list_add_tail (md_list self) (md_links self) (lnode p) = Some (l1, h1)" "hev_list_first l1 = lnode old"
      "hev_list_del l1 h1 (lnode old) = Some (l, h)" "list_rep l h (map lnode ns @ [lnode p])" by blast
  have "old \<in> insert p (set (old # ns))" by simp
  from names.keyed_erase[OF t(2) this] obtain t'' where
    e: "hev_rbtree_erase old t' = Some t''" "keyed rb_list strcmp t'' ((node_name self)(p := name)) (insert p (set (old # ns)) - {old})"
    by blast
  have se: "insert p (set (old # ns)) - {old} = insert p (set ns)" using dist(1) p(4) by auto
  let ?i = "node_idx self old"
  have i: "0 \<le> ?i" "?i < md_use self" "nat ?i < length (md_records self)" "md_records self ! nat ?i = old"
    using D(5)[of old] o by auto
  define self' where "self' = self\<lparr>md_allocq := q, md_dupq := d, md_tree := t'', md_list := l, md_links := h,
    md_records := (md_records self)[nat ?i := p],
    md_nodes := ((md_nodes self)(p \<mapsto> \<lparr>nd_name = Some name, nd_idx = ?i\<rparr>))(old := None)\<rparr>"
  have op: "old \<noteq> p" using p(4) by auto
  obtain nd where nd: "md_nodes self old = Some nd" using D(2)[of old] by auto
  have f: "hev_mapped_dns_find name self = Some (?i, self')"
    using s a t(1) l e(1) p full i nd op
    by (simp add: hev_mapped_dns_find_def mdns_evict_def hev_mapped_dns_node_free_def self'_def node_idx_def fun_upd_twist)
  have name: "x \<noteq> old \<Longrightarrow> node_name self' x = ((node_name self)(p := name)) x"
    and idx: "x \<noteq> old \<Longrightarrow> node_idx self' x = ((node_idx self)(p := ?i)) x" for x
    using op by (auto simp: node_name_def node_idx_def self'_def)
  have "md_nodes_ok self' (ns @ [p])"
  proof -
    have "\<forall>x \<in> set (ns @ [p]). 0 \<le> node_idx self' x \<and> node_idx self' x < md_use self' \<and> md_records self' ! nat (node_idx self' x) = x"
    proof
      fix x assume x: "x \<in> set (ns @ [p])"
      then have xo: "x \<noteq> old" using dist(1) op by auto
      show "0 \<le> node_idx self' x \<and> node_idx self' x < md_use self' \<and> md_records self' ! nat (node_idx self' x) = x"
      proof (cases "x = p")
        case False
        with x have i': "0 \<le> node_idx self x" "node_idx self x < md_use self" "md_records self ! nat (node_idx self x) = x"
          using D(5)[of x] by auto
        moreover have "node_idx self x \<noteq> ?i" using inj_onD[OF D(7), of x old] x False xo by auto
        ultimately have "nat (node_idx self x) \<noteq> nat ?i" using i(1) by linarith
        with i' False idx[OF xo] show ?thesis by (simp add: self'_def)
      qed (use idx[OF xo] i in \<open>simp add: self'_def\<close>)
    qed
    moreover have "\<forall>x. md_nodes self' x = None \<longleftrightarrow> x \<notin> set (ns @ [p])"
      using D(2) dist(1) op by (auto simp: self'_def)
    moreover have "\<forall>x \<in> set (ns @ [p]). nd_name (the (md_nodes self' x)) \<noteq> None \<and> lnode x \<noteq> NULL"
      using D(4,6) p dist(1) by (auto simp: self'_def)
    moreover have "\<forall>j. md_use self' \<le> int j \<longrightarrow> int j < md_max self' \<longrightarrow> md_records self' ! j = NULL"
      using o full by (auto simp: self'_def nth_list_update)
    moreover have "int (length (ns @ [p])) = md_use self'" "md_use self' \<le> md_max self'" "0 < md_max self'"
      "int (length (md_records self')) = md_max self'" using o by (simp_all add: self'_def)
    ultimately show ?thesis unfolding md_nodes_ok_def by blast
  qed
  moreover have "list_rep (md_list self') (md_links self') (map lnode (ns @ [p]))" using l(4) by (simp add: self'_def)
  moreover have "keyed rb_list strcmp (md_tree self') (node_name self') (set (ns @ [p]))"
  proof -
    have "keyed rb_list strcmp t'' (node_name self') (insert p (set ns))"
      by (rule keyed_cong[OF e(2)[unfolded se]]) (metis name dist(1) op insert_iff)
    then show ?thesis by (simp add: self'_def)
  qed
  ultimately have "md_ok self' (ns @ [p])" by (simp add: md_ok_def)
  moreover have "lru_of self' (ns @ [p]) = lru_of self ns @ [(name, ?i)]"
  proof -
    have "node_name self' x = node_name self x \<and> node_idx self' x = node_idx self x" if "x \<in> set ns" for x
    proof -
      from that dist(1) have "x \<noteq> old" by blast
      then show ?thesis using name[of x] idx[of x] that p(4) by auto
    qed
    moreover have "node_name self' p = name" "node_idx self' p = ?i" using name[of p] idx[of p] op by auto
    ultimately show ?thesis by (simp add: lru_of_def)
  qed
  ultimately show ?thesis using f by (auto simp: self'_def)
qed

lemma md_repE:
  assumes "md_rep self c"
  obtains ns where "md_ok self ns" "lru_of self ns = c"
  using assms by (auto simp: md_rep_def)

lemma find_refines:
  assumes rep: "md_rep self c" and dup: "dup_ok self"
  shows "\<exists>r self'. hev_mapped_dns_find name self = Some (r, self') \<and> md_frame self self' \<and>
    ((\<exists>c'. lru_find (md_max self) name c = (r, c') \<and> md_rep self' c') \<or>
     r = -1 \<and> name \<notin> fst ` set c \<and> md_rep self' c)"
proof -
  from rep obtain ns where ok: "md_ok self ns" and c: "lru_of self ns = c" by (rule md_repE)
  have keys: "fst ` set c = node_name self ` set ns" using c by (auto simp: lru_of_def image_comp)
  show ?thesis
  proof (cases "name \<in> node_name self ` set ns")
    case True
    then obtain p where p: "p \<in> set ns" "name = node_name self p" by blast
    from find_present[OF ok p(1)] obtain self' where "hev_mapped_dns_find (node_name self p) self = Some (node_idx self p, self')"
      "md_rep self' (lru_touch (node_name self p) c)" "md_frame self self'"
      using c by (auto simp: md_frame_def dup_ok_def)
    then show ?thesis using p map_of_lru(1)[OF md_okD(3)[OF ok] p(1)] c by (auto simp: lru_find_def)
  next
    case False
    have m: "map_of c name = None" using map_of_lru(2)[OF md_okD(3)[OF ok] False] c by simp
    have len: "int (length c) = md_use self" "0 < md_max self" "md_use self \<le> md_max self"
      using ok c by (auto simp: md_ok_def md_nodes_ok_def lru_of_def)
    from ok dup show ?thesis
    proof (cases rule: node_alloc_cases[where name = name])
      case (failed q)
      from find_failed[OF ok False failed] c show ?thesis
        using False keys by (auto simp: md_frame_def dup_ok_def md_rep_def lru_of_def node_name_def node_idx_def intro!: exI[of _ ns])
    next
      case (fresh p q d)
      show ?thesis
      proof (cases "md_use self < md_max self")
        case True
        from find_fresh[OF ok False fresh(1-5) True] fresh(6) m len c True show ?thesis
          by (auto simp: lru_find_def md_frame_def dup_ok_def md_rep_def)
      next
        case full: False
        then obtain old ns' where ns: "ns = old # ns'" using len c by (cases ns) (auto simp: lru_of_def)
        from find_full[OF ok[unfolded ns] False[unfolded ns] fresh(1-4) fresh(5)[unfolded ns] full] obtain self' where
          f: "hev_mapped_dns_find name self = Some (node_idx self old, self')" "md_ok self' (ns' @ [p])"
            "lru_of self' (ns' @ [p]) = lru_of self ns' @ [(name, node_idx self old)]"
            "md_max self' = md_max self" "md_mask self' = md_mask self" "md_net self' = md_net self" "md_dupq self' = d" by blast
        from f(2,3) have "md_rep self' (lru_of self ns' @ [(name, node_idx self old)])" unfolding md_rep_def by blast
        moreover have "lru_find (md_max self) name c = (node_idx self old, lru_of self ns' @ [(name, node_idx self old)])"
          using m len c ns full by (auto simp: lru_find_def lru_of_def)
        ultimately show ?thesis using f fresh(6) by (auto simp: md_frame_def dup_ok_def)
      qed
    qed
  qed
qed

text \<open>The network: the addresses given out are \<open>net\<close> with an index below \<open>max\<close> in the host part.\<close>

definition md_addr_ok :: "mapped_dns \<Rightarrow> bool" where
  "md_addr_ok self \<longleftrightarrow> md_max self \<le> sint (NOT (md_mask self)) \<and>
     (\<exists>k < 32. md_mask self = NOT (mask k)) \<and> md_net self AND NOT (md_mask self) = 0"

lemma md_addr_ok_frame: "md_frame self self' \<Longrightarrow> md_addr_ok self' = md_addr_ok self"
  by (simp add: md_frame_def md_addr_ok_def)

lemma lookup_refines:
  assumes rep: "md_rep self c" and i: "sint (ip AND NOT (md_mask self)) = i" "0 \<le> i"
  shows "\<exists>self'. hev_mapped_dns_lookup ip self = Some (fst (lru_lookup i c), self') \<and>
    md_frame self self' \<and> md_rep self' (snd (lru_lookup i c))"
proof -
  from rep obtain ns where ok: "md_ok self ns" and c: "lru_of self ns = c" by (rule md_repE)
  note o = ok[unfolded md_ok_def md_nodes_ok_def]
  have swap: "map (\<lambda>(k, j). (j, k)) c = map (\<lambda>p. (node_idx self p, node_name self p)) ns"
    using c by (auto simp: lru_of_def)
  show ?thesis
  proof (cases "i \<in> node_idx self ` set ns")
    case True
    then obtain p where p: "p \<in> set ns" "i = node_idx self p" by blast
    have r: "i < md_max self" "md_records self ! nat i = p" "nat i < length (md_records self)" "p \<noteq> NULL"
      using md_okD(5,6)[OF ok p(1)] p(2) o by auto
    have l: "lru_lookup i c = (Some (node_name self p), lru_touch (node_name self p) c)"
    proof -
      have "map_of (map (\<lambda>p. (node_idx self p, node_name self p)) ns) (node_idx self p) = Some (node_name self p)"
        using md_okD(7)[OF ok] p(1) by (induction ns) (auto simp: inj_on_def)
      then show ?thesis using swap p(2) by (simp add: lru_lookup_def)
    qed
    from mdns_touch[OF ok p(1)] obtain ll h where t: "mdns_touch p self = Some (self\<lparr>md_list := ll, md_links := h\<rparr>)"
      "md_ok (self\<lparr>md_list := ll, md_links := h\<rparr>) (remove1 p ns @ [p])" by blast
    have "lru_of (self\<lparr>md_list := ll, md_links := h\<rparr>) (remove1 p ns @ [p]) = lru_touch (node_name self p) c"
      using lru_of_touch[OF md_okD(1,3)[OF ok] p(1)] c by (simp add: lru_of_def node_name_def node_idx_def)
    with t(2) have "md_rep (self\<lparr>md_list := ll, md_links := h\<rparr>) (lru_touch (node_name self p) c)"
      unfolding md_rep_def by blast
    moreover obtain nd where "md_nodes self p = Some nd" "nd_name nd = Some (node_name self p)"
      using md_okD(2,4)[OF ok, of p] p(1) by (auto simp: node_name_def)
    ultimately show ?thesis using t(1) l r i
      by (auto simp: hev_mapped_dns_lookup_def md_frame_def dup_ok_def)
  next
    case False
    then have l: "lru_lookup i c = (None, c)"
      using swap by (auto simp: lru_lookup_def map_of_eq_None_iff split: option.splits)
    have "md_records self ! nat i = NULL" if "i < md_max self"
    proof (rule ccontr)
      assume nz: "md_records self ! nat i \<noteq> NULL"
      have "md_use self > i" using o nz that i(2) by (metis int_nat_eq not_le)
      have "inj_on (\<lambda>p. nat (node_idx self p)) (set ns)"
        by (rule inj_onI) (metis md_okD(5)[OF ok])
      then have "card (nat ` node_idx self ` set ns) = length ns"
        using md_okD(1)[OF ok] by (simp add: image_image card_image distinct_card)
      moreover have "nat ` node_idx self ` set ns \<subseteq> {..<length ns}"
        using md_okD(5)[OF ok] o by fastforce
      ultimately have "nat ` node_idx self ` set ns = {..<length ns}"
        by (intro card_subset_eq) auto
      moreover have "nat i \<in> {..<length ns}" using \<open>md_use self > i\<close> o i(2) by auto
      ultimately have "nat i \<in> nat ` node_idx self ` set ns" by simp
      then obtain p where "p \<in> set ns" "nat i = nat (node_idx self p)" by auto
      with md_okD(5)[OF ok, of p] i(2) have "node_idx self p = i"
        using eq_nat_nat_iff[of "node_idx self p" i] \<open>nat i = nat (node_idx self p)\<close> \<open>p \<in> set ns\<close> by simp
      with \<open>p \<in> set ns\<close> False show False by blast
    qed
    then show ?thesis using l i rep o
      by (auto simp: hev_mapped_dns_lookup_def)
  qed
qed

lemma word_of_int_and_mask: "0 \<le> i \<Longrightarrow> i < 2 ^ k \<Longrightarrow> k < 32 \<Longrightarrow> (word_of_int i :: u32) AND mask k = word_of_int i"
  unfolding take_bit_eq_mask[symmetric]
  by transfer (simp add: take_bit_take_bit take_bit_int_eq_self min_def)

lemma signed_small:
  assumes "0 \<le> j" "j < 2 ^ k" "k < 32"
  shows "signed_take_bit (LENGTH(32) - Suc 0) j = (j :: int)" "signed_take_bit (LENGTH(32) - 1) j = j"
proof -
  have "(2 :: int) ^ k \<le> 2 ^ 31" using assms(3) by (intro power_increasing) auto
  with assms(2) have "j < 2 ^ 31" by linarith
  with assms(1) show "signed_take_bit (LENGTH(32) - Suc 0) j = j" "signed_take_bit (LENGTH(32) - 1) j = j"
    by (intro signed_take_bit_int_eq_self; simp)+
qed

lemma host_part:
  assumes a: "md_addr_ok self" and i: "0 \<le> i" "i < md_max self"
  shows "sint ((md_net self OR word_of_int i) AND NOT (md_mask self)) = i"
proof -
  from a obtain k where k: "k < 32" "md_mask self = NOT (mask k)" and n: "md_net self AND mask k = 0"
    and m: "md_max self \<le> sint (mask k :: u32)" by (auto simp: md_addr_ok_def)
  have sm: "sint (mask k :: u32) = 2 ^ k - 1"
  proof -
    have "sint (word_of_int (2 ^ k - 1) :: u32) = 2 ^ k - 1"
      unfolding sint_sbintrunc' by (rule signed_small[OF _ _ k(1)]) simp_all
    moreover have "(mask k :: u32) = word_of_int (2 ^ k - 1)" by (simp add: mask_eq_exp_minus_1)
    ultimately show ?thesis by (simp only:)
  qed
  have "i < 2 ^ k" using i m sm by linarith
  then have "(word_of_int i :: u32) AND mask k = word_of_int i"
    using i(1) k(1) word_of_int_and_mask by blast
  then have "(md_net self OR word_of_int i) AND NOT (md_mask self) = word_of_int i"
    using n k(2) by (simp add: bit.conj_disj_distrib2)
  moreover have "sint (word_of_int i :: u32) = i"
    unfolding sint_sbintrunc' using i(1) \<open>i < 2 ^ k\<close> k(1) by (rule signed_small)
  ultimately show ?thesis by simp
qed

subsection \<open>Runs of the cache\<close>

datatype dns_op = Find bytes | Lookup u32

fun dns_step :: "mapped_dns \<Rightarrow> dns_op \<Rightarrow> mapped_dns option" where
  "dns_step self (Find name) = map_option snd (hev_mapped_dns_find name self)"
| "dns_step self (Lookup ip) = map_option snd (hev_mapped_dns_lookup ip self)"

fun op_names :: "dns_op list \<Rightarrow> bytes set" where
  "op_names [] = {}"
| "op_names (Find k # ops) = insert k (op_names ops)"
| "op_names (Lookup ip # ops) = op_names ops"

text \<open>\<open>held k i S c\<close>: the name \<open>k\<close> has the index \<open>i\<close>, and only names of \<open>S\<close> were used more recently.\<close>

definition held :: "bytes \<Rightarrow> int \<Rightarrow> bytes set \<Rightarrow> lru \<Rightarrow> bool" where
  "held k i S c \<longleftrightarrow> (\<exists>xs ys. c = xs @ (k, i) # ys \<and> fst ` set ys \<subseteq> S)"

lemma held_touch:
  assumes h: "held k i S c" and d: "distinct (map fst c)" and n: "n \<in> insert k S"
  shows "held k i S (lru_touch n c)"
proof -
  from h obtain xs ys where c: "c = xs @ (k, i) # ys" "fst ` set ys \<subseteq> S" by (auto simp: held_def)
  show ?thesis
  proof (cases "n = k")
    case True
    have "filter (\<lambda>e. fst e = k) xs = []" "filter (\<lambda>e. fst e = k) ys = []"
      using d c(1) by (auto simp: filter_empty_conv)
    then have "filter (\<lambda>e. fst e = k) c = [(k, i)]" by (simp add: c(1))
    then show ?thesis unfolding held_def using True
      by (intro exI[of _ "filter (\<lambda>e. fst e \<noteq> k) c"] exI[of _ "[]"]) (simp add: lru_touch_def)
  next
    case False
    with n have "n \<in> S" by simp
    with False c show ?thesis unfolding held_def lru_touch_def
      by (intro exI[of _ "filter (\<lambda>e. fst e \<noteq> n) xs"] exI[of _ "filter (\<lambda>e. fst e \<noteq> n) ys @ filter (\<lambda>e. fst e = n) c"])
        (auto simp: filter_empty_conv)
  qed
qed

lemma held_mono: "held k i S c \<Longrightarrow> S \<subseteq> S' \<Longrightarrow> held k i S' c"
  unfolding held_def by blast

text \<open>A find of another name evicts \<open>k\<close> only if at least \<open>max\<close> other names were used since.\<close>

lemma held_find:
  assumes h: "held k i S c" and d: "distinct (map fst c)" and len: "int (length c) \<le> m"
    and S: "finite S" "n \<in> insert k S" "int (card S) < m"
    and f: "lru_find m n c = (r, c')"
  shows "held k i S c'"
proof -
  from h obtain xs ys where c: "c = xs @ (k, i) # ys" "fst ` set ys \<subseteq> S" by (auto simp: held_def)
  show ?thesis
  proof (cases "map_of c n")
    case (Some j)
    with f held_touch[OF h d S(2)] show ?thesis by (auto simp: lru_find_def)
  next
    case None
    then have n: "n \<notin> fst ` set c" by (simp add: map_of_eq_None_iff)
    with c(1) S(2) have nS: "n \<in> S" by auto
    show ?thesis
    proof (cases "int (length c) < m")
      case True
      with f None have "c' = c @ [(n, int (length c))]" by (auto simp: lru_find_def)
      then have "c' = xs @ (k, i) # (ys @ [(n, int (length c))])" by (simp add: c(1))
      moreover have "fst ` set (ys @ [(n, int (length c))]) \<subseteq> S" using c(2) nS by auto
      ultimately show ?thesis unfolding held_def by blast
    next
      case False
      have "xs \<noteq> []"
      proof
        assume "xs = []"
        with c False len have "m = 1 + int (length ys)" "distinct (map fst ys)" using d by auto
        moreover from this(2) have "card (fst ` set ys) = length ys" using distinct_card[of "map fst ys"] by simp
        moreover have "n \<notin> fst ` set ys" using n c by auto
        moreover have "card (insert n (fst ` set ys)) \<le> card S" using c(2) nS S(1) by (intro card_mono) auto
        ultimately show False using S(3) by (simp add: card_insert_disjoint)
      qed
      then obtain x xs' where "xs = x # xs'" by (cases xs) auto
      moreover from f None False have "c' = tl c @ [(n, snd (hd c))]" by (auto simp: lru_find_def)
      ultimately have "c' = xs' @ (k, i) # (ys @ [(n, snd x)])" by (simp add: c(1))
      moreover have "fst ` set (ys @ [(n, snd x)]) \<subseteq> S" using c(2) nS by auto
      ultimately show ?thesis unfolding held_def by blast
    qed
  qed
qed

lemma md_rep_lru:
  assumes "md_rep self c"
  shows "distinct (map fst c)" "distinct (map snd c)" "int (length c) \<le> md_max self" "0 < md_max self"
    "(k, i) \<in> set c \<Longrightarrow> 0 \<le> i \<and> i < md_max self"
proof -
  from assms obtain ns where ok: "md_ok self ns" and c: "lru_of self ns = c" by (rule md_repE)
  have l: "int (length ns) = md_use self" "md_use self \<le> md_max self" "0 < md_max self"
    using ok by (auto simp: md_ok_def md_nodes_ok_def)
  then show "0 < md_max self" "int (length c) \<le> md_max self" using c by (auto simp: lru_of_def)
  show "(k, i) \<in> set c \<Longrightarrow> 0 \<le> i \<and> i < md_max self"
    using md_okD(5)[OF ok] l(2) c unfolding lru_of_def by fastforce
  have "map fst c = map (node_name self) ns" "map snd c = map (node_idx self) ns" using c by (auto simp: lru_of_def)
  with md_okD(1,3,7)[OF ok] show "distinct (map fst c)" "distinct (map snd c)" by (simp_all add: distinct_map)
qed

lemma host_nonneg: "md_addr_ok self \<Longrightarrow> 0 \<le> sint (ip AND NOT (md_mask self))"
proof -
  assume "md_addr_ok self"
  then obtain k where k: "k < 32" "md_mask self = NOT (mask k)" by (auto simp: md_addr_ok_def)
  have u: "uint (ip AND mask k) = uint ip mod 2 ^ k"
    by (simp flip: take_bit_eq_mask take_bit_eq_mod add: unsigned_take_bit_eq)
  have "sint (ip AND mask k) = uint ip mod 2 ^ k"
    unfolding sint_uint u by (rule signed_small[OF _ _ k(1)]) simp_all
  then show ?thesis using k(2) by simp
qed

lemma lookup_held:
  assumes rep: "md_rep self c" and a: "md_addr_ok self" and h: "held k i S c"
  shows "\<exists>self'. hev_mapped_dns_lookup (md_net self OR word_of_int i) self = Some (Some k, self')"
proof -
  from h have ki: "(k, i) \<in> set c" by (auto simp: held_def)
  note l = md_rep_lru[OF rep]
  from l(5)[OF ki] have i: "0 \<le> i" "i < md_max self" by auto
  have "map_of (map (\<lambda>(k, j). (j, k)) c) i = Some k"
  proof (rule map_of_is_SomeI)
    have "map fst (map (\<lambda>(k, j). (j, k)) c) = map snd c" by (induction c) auto
    then show "distinct (map fst (map (\<lambda>(k, j). (j, k)) c))" using l(2) by metis
    show "(i, k) \<in> set (map (\<lambda>(k, j). (j, k)) c)" using ki by force
  qed
  then have "fst (lru_lookup i c) = Some k" by (simp add: lru_lookup_def)
  with lookup_refines[OF rep host_part[OF a i] i(1)] show ?thesis by auto
qed

text \<open>\<open>cached self k i S\<close>: the invariant of the runs below.\<close>

definition cached :: "mapped_dns \<Rightarrow> bytes \<Rightarrow> int \<Rightarrow> bytes set \<Rightarrow> bool" where
  "cached self k i S \<longleftrightarrow> dup_ok self \<and> md_addr_ok self \<and> (\<exists>c. md_rep self c \<and> held k i S c)"

text \<open>Looking up can make any name of the cache the most recent one, so the names that count are
  bounded by all the names of the cache.\<close>

lemma find_cached:
  assumes ch: "cached self k i S" and S: "finite S" "n \<in> insert k S" "int (card S) < md_max self"
  shows "\<exists>r self'. hev_mapped_dns_find n self = Some (r, self') \<and> md_frame self self' \<and> cached self' k i S"
proof -
  from ch obtain c where c: "md_rep self c" "held k i S c" and d: "dup_ok self" "md_addr_ok self" by (auto simp: cached_def)
  note l = md_rep_lru[OF c(1)]
  from find_refines[OF c(1) d(1), of n] obtain r self' where f: "hev_mapped_dns_find n self = Some (r, self')" "md_frame self self'"
    and alt: "(\<exists>c'. lru_find (md_max self) n c = (r, c') \<and> md_rep self' c') \<or> r = -1 \<and> n \<notin> fst ` set c \<and> md_rep self' c" by blast
  have "\<exists>c'. md_rep self' c' \<and> held k i S c'"
    using alt held_find[OF c(2) l(1,3) S] c(2) by blast
  moreover have "dup_ok self'" "md_addr_ok self'" using f(2) d by (auto simp: md_frame_def md_addr_ok_def)
  ultimately show ?thesis using f by (auto simp: cached_def)
qed

lemma lookup_cached:
  assumes ch: "cached self k i S" and r: "hev_mapped_dns_lookup ip self = Some (r, self')" "\<And>n. r = Some n \<Longrightarrow> n \<in> insert k S"
  shows "md_frame self self' \<and> cached self' k i S"
proof -
  from ch obtain c where c: "md_rep self c" "held k i S c" and d: "dup_ok self" "md_addr_ok self" by (auto simp: cached_def)
  let ?j = "sint (ip AND NOT (md_mask self))"
  from lookup_refines[OF c(1) refl host_nonneg[OF d(2)], of ip] r(1) have
    f: "r = fst (lru_lookup ?j c)" "md_frame self self'" "md_rep self' (snd (lru_lookup ?j c))" by auto
  have "held k i S (snd (lru_lookup ?j c))"
    using held_touch[OF c(2) md_rep_lru(1)[OF c(1)]] c(2) f(1) r(2) by (auto simp: lru_lookup_def split: option.splits)
  moreover have "dup_ok self'" "md_addr_ok self'" using f(2) d by (auto simp: md_frame_def md_addr_ok_def)
  ultimately show ?thesis using f(2,3) by (auto simp: cached_def)
qed

text \<open>\<open>uses S self self'\<close>: from \<open>self\<close> the engine reaches \<open>self'\<close> by finding names of \<open>S\<close> and looking
  up addresses that belong to names of \<open>S\<close>, or to no name.\<close>

inductive uses :: "bytes set \<Rightarrow> mapped_dns \<Rightarrow> mapped_dns \<Rightarrow> bool" for S self where
  uses_none: "uses S self self"
| uses_find: "uses S self s1 \<Longrightarrow> n \<in> S \<Longrightarrow> hev_mapped_dns_find n s1 = Some (r, s2) \<Longrightarrow> uses S self s2"
| uses_lookup: "uses S self s1 \<Longrightarrow> hev_mapped_dns_lookup ip s1 = Some (r, s2) \<Longrightarrow> set_option r \<subseteq> S \<Longrightarrow> uses S self s2"

lemma uses_cached:
  assumes "uses S self s2" "cached self k i (S - {k})" "finite S" "k \<in> S" "int (card S) \<le> md_max self"
  shows "cached s2 k i (S - {k}) \<and> md_frame self s2"
  using assms
proof (induction rule: uses.induct)
  case uses_none
  then show ?case by simp
next
  case (uses_find s1 n r s2)
  then have c: "cached s1 k i (S - {k})" "md_frame self s1" by auto
  have "int (card (S - {k})) < md_max s1"
    using card_Diff1_less[of S k] uses_find.prems c(2) by (simp add: md_frame_def)
  from find_cached[OF c(1) _ _ this, of n] uses_find c(2) show ?case by (auto intro: md_frame_trans)
next
  case (uses_lookup s1 ip r s2)
  then have "cached s1 k i (S - {k})" "md_frame self s1" by auto
  with lookup_cached[OF this(1) uses_lookup.hyps(2)] uses_lookup show ?case by (auto intro: md_frame_trans)
qed

lemma find_result_cached:
  assumes "md_rep self c" "dup_ok self" "md_addr_ok self" "hev_mapped_dns_find k self = Some (i, s1)" "i \<noteq> -1"
  shows "cached s1 k i S \<and> md_frame self s1"
proof -
  from find_refines[OF assms(1,2), of k] assms(4,5) obtain c' where
    f: "md_frame self s1" "lru_find (md_max self) k c = (i, c')" "md_rep s1 c'" by auto
  have "\<exists>xs. c' = xs @ [(k, i)]"
  proof (cases "map_of c k")
    case (Some j)
    with f(2) have ij: "i = j" "c' = lru_touch k c" by (auto simp: lru_find_def)
    have "filter (\<lambda>e. fst e = k) c = [(k, j)]"
      using md_rep_lru(1)[OF assms(1)] map_of_SomeD[OF Some] by (induction c) (auto simp: filter_empty_conv image_iff)
    with ij show ?thesis by (simp add: lru_touch_def)
  qed (use f(2) in \<open>auto simp: lru_find_def split: if_splits\<close>)
  then have "held k i S c'" unfolding held_def by (metis empty_set image_empty empty_subsetI)
  then show ?thesis using f assms(2,3) by (auto simp: cached_def md_frame_def md_addr_ok_def)
qed

lemma new_rep:
  assumes "hev_mapped_dns_new net nmask cap ok s = Some self" "0 < cap" "\<And>p. md_nodes s p = None"
  shows "md_rep self [] \<and> md_max self = cap \<and> md_net self = net \<and> md_mask self = nmask \<and>
    cap \<le> sint (NOT nmask) \<and> md_dupq self = md_dupq s"
proof -
  have self: "self = s\<lparr>md_use := 0, md_max := cap, md_net := net, md_mask := nmask, md_list := hev_list_empty,
      md_tree := (md_tree s)\<lparr>rb_root := NULL\<rparr>, md_records := replicate (nat cap) NULL\<rparr>" and m: "cap \<le> sint (NOT nmask)"
    using assms(1) by (auto simp: hev_mapped_dns_new_def hev_mapped_dns_construct_def split: if_splits)
  have "md_nodes_ok self []" using assms(2,3) unfolding md_nodes_ok_def self by simp
  moreover have "keyed rb_list strcmp (md_tree self) (node_name self) {}"
    unfolding keyed_def by (intro exI[of _ "[]"]) (simp add: rb_list_empty self)
  ultimately have "md_ok self []" using list_rep_empty by (simp add: md_ok_def self)
  moreover have "lru_of self [] = []" by (simp add: lru_of_def)
  ultimately show ?thesis using m unfolding md_rep_def by (auto simp: self)
qed

lemma free_loop:
  assumes "seg (md_links self) q (map lnode ns) NULL" "distinct ns" "\<forall>p \<in> set ns. md_nodes self p \<noteq> None"
  shows "mdns_free_loop (first_of NULL (map lnode ns)) self =
    Some (self\<lparr>md_nodes := \<lambda>p. if p \<in> set ns then None else md_nodes self p\<rparr>)"
  using assms
proof (induction ns arbitrary: self q)
  case Nil
  then show ?case by (subst mdns_free_loop.simps) simp
next
  case (Cons p ns)
  let ?s = "self\<lparr>md_nodes := (md_nodes self)(p := None)\<rparr>"
  from Cons.prems have "mdns_free_loop (first_of NULL (map lnode ns)) ?s =
      Some (?s\<lparr>md_nodes := \<lambda>x. if x \<in> set ns then None else md_nodes ?s x\<rparr>)"
    by (intro Cons.IH[of ?s "lnode p"]) auto
  moreover have "(\<lambda>x. if x \<in> set ns then None else md_nodes ?s x) = (\<lambda>x. if x \<in> set (p # ns) then None else md_nodes self x)"
    by auto
  ultimately show ?case using Cons.prems
    by (subst mdns_free_loop.simps) (simp add: hev_list_node_next_def hev_mapped_dns_node_free_def)
qed

text \<open>A sample cache for the witnesses: \<open>198.18.0.0/15\<close> with two places.\<close>

definition sample_dns :: mapped_dns where
  "sample_dns = \<lparr>md_use = 0, md_max = 2, md_net = 0xC6120000, md_mask = 0xFFFE0000, md_list = hev_list_empty,
     md_links = \<lparr>lnext = \<lambda>_. 3, lprev = \<lambda>_. 4\<rparr>,
     md_tree = \<lparr>rb_root = NULL, rb_pcol = \<lambda>_. 5, rb_child = \<lambda>_ _. 6\<rparr>, md_records = [NULL, NULL],
     md_nodes = (\<lambda>_. None), md_allocq = [4096, 8192, 12288, 16384], md_dupq = []\<rparr>"

lemma sample_dns: "md_rep sample_dns []" "dup_ok sample_dns" "md_addr_ok sample_dns"
proof -
  have "md_nodes_ok sample_dns []" by (simp add: md_nodes_ok_def sample_dns_def nth_Cons split: nat.splits)
  moreover have "keyed rb_list strcmp (md_tree sample_dns) (node_name sample_dns) {}"
    unfolding keyed_def by (intro exI[of _ "[]"]) (simp add: rb_list_empty sample_dns_def)
  ultimately have "md_ok sample_dns []" using list_rep_empty by (simp add: md_ok_def sample_dns_def)
  moreover have "lru_of sample_dns [] = []" by (simp add: lru_of_def)
  ultimately show "md_rep sample_dns []" unfolding md_rep_def by blast
  show "dup_ok sample_dns" by (simp add: dup_ok_def sample_dns_def)
  have "md_mask sample_dns = NOT (mask 17)" by (simp add: mask_eq_exp_minus_1 sample_dns_def)
  moreover have "md_max sample_dns \<le> sint (NOT (md_mask sample_dns))" "md_net sample_dns AND NOT (md_mask sample_dns) = 0"
    by (simp_all add: sample_dns_def)
  ultimately show "md_addr_ok sample_dns" unfolding md_addr_ok_def by (auto intro: exI[of _ 17])
qed

lemma sample_find: "\<exists>s1. hev_mapped_dns_find [0x61] sample_dns = Some (0, s1)"
proof -
  have "md_ok sample_dns []" using sample_dns(1) unfolding md_rep_def lru_of_def by auto
  moreover have "hev_mapped_dns_node_alloc [0x61] sample_dns = (4096, sample_dns\<lparr>md_allocq := [8192, 12288, 16384], md_dupq := [],
      md_nodes := (md_nodes sample_dns)(4096 \<mapsto> \<lparr>nd_name = Some [0x61], nd_idx = 0\<rparr>)\<rparr>)"
    by (simp add: hev_mapped_dns_node_alloc_def md_malloc0_def sample_dns_def aligned_def lnode_def)
  ultimately show ?thesis
    using find_fresh[where self = sample_dns and ns = "[]" and p = 4096 and q = "[8192, 12288, 16384]" and d = "[]"]
    by (auto simp: aligned_def lnode_def sample_dns_def)
qed

subsection \<open>Properties\<close>



text \<open>C16: addresses are stable. After a name was given an address, as long as fewer than \<open>max\<close>
  other names are in use (whatever the order and number of queries and connections), the address
  still belongs to this name.\<close>

theorem mapped_dns_address_stable:
  assumes "md_rep self c" "dup_ok self" "md_addr_ok self" "hev_mapped_dns_find name self = Some (i, s1)" "i \<noteq> -1"
    and "uses S s1 s2" "finite S" "name \<in> S" "int (card S) \<le> md_max self"
  shows "\<exists>s3. hev_mapped_dns_lookup (md_net self OR word_of_int i) s2 = Some (Some name, s3)"
proof -
  from find_result_cached[OF assms(1-5)] have c: "cached s1 name i (S - {name})" "md_frame self s1" by auto
  then have "int (card S) \<le> md_max s1" using assms(9) by (simp add: md_frame_def)
  from uses_cached[OF assms(6) c(1) assms(7,8) this] have c2: "cached s2 name i (S - {name})" "md_frame s1 s2" by auto
  then obtain c' where "md_rep s2 c'" "held name i (S - {name}) c'" "md_addr_ok s2" by (auto simp: cached_def)
  from lookup_held[OF this(1,3,2)] c(2) c2(2) show ?thesis by (simp add: md_frame_def)
qed

theorem mapped_dns_address_stable_witness:
  "\<exists>i s1 r s2 s3. hev_mapped_dns_find [0x61] sample_dns = Some (i, s1) \<and> hev_mapped_dns_find [0x62] s1 = Some (r, s2) \<and>
    hev_mapped_dns_lookup (0xC6120000 OR word_of_int i) s2 = Some (Some [0x61], s3)"
proof -
  from sample_find obtain s1 where f: "hev_mapped_dns_find [0x61] sample_dns = Some (0, s1)" by blast
  from find_result_cached[OF sample_dns f, of "{[0x61], [0x62]}"] have c: "cached s1 [0x61] 0 {[0x61], [0x62]}" by simp
  then obtain c1 where "md_rep s1 c1" "dup_ok s1" by (auto simp: cached_def)
  from find_refines[OF this, of "[0x62]"] obtain r s2 where g: "hev_mapped_dns_find [0x62] s1 = Some (r, s2)" by blast
  have "uses {[0x61], [0x62]} s1 s2" by (rule uses_find[OF uses_none _ g]) simp
  from mapped_dns_address_stable[OF sample_dns f _ this] f g show ?thesis by (auto simp: sample_dns_def)
qed

lemma uses_rep:
  assumes "uses S self s2" "md_rep self c" "dup_ok self" "md_addr_ok self"
  shows "(\<exists>c2. md_rep s2 c2) \<and> dup_ok s2 \<and> md_addr_ok s2"
  using assms
proof (induction rule: uses.induct)
  case (uses_find s1 n r s2)
  then obtain c1 where c: "md_rep s1 c1" "dup_ok s1" "md_addr_ok s1" by blast
  from find_refines[OF c(1,2), of n] uses_find.hyps(3) have "md_frame s1 s2" "\<exists>c2. md_rep s2 c2" by auto
  then show ?case using c by (auto simp: md_frame_def md_addr_ok_def)
next
  case (uses_lookup s1 ip r s2)
  then obtain c1 where c: "md_rep s1 c1" "dup_ok s1" "md_addr_ok s1" by blast
  from lookup_refines[OF c(1) refl host_nonneg[OF c(3)], of ip] uses_lookup.hyps(2) have "md_frame s1 s2" "\<exists>c2. md_rep s2 c2" by auto
  then show ?case using c by (auto simp: md_frame_def md_addr_ok_def)
qed blast

text \<open>The life of a cache. From an allocator without live nodes, a new cache is empty; after any
  finds and lookups its destruction is defined and frees every node exactly once: none stays
  live. A cache is refused when it has more places than the network has host addresses.\<close>

theorem mapped_dns_lifecycle:
  assumes "\<And>p. md_nodes s p = None" "dup_ok s" "0 < cap" "hev_mapped_dns_new net nmask cap ok s = Some s1"
    and "k < 32" "nmask = NOT (mask k)" "net AND mask k = 0" "uses S s1 s2"
  shows "cap \<le> sint (NOT nmask) \<and> md_rep s1 [] \<and>
    (\<exists>s3. hev_mapped_dns_destruct s2 = Some s3 \<and> md_nodes s3 = (\<lambda>_. None))"
proof -
  from new_rep[OF assms(4,3,1)] have n: "md_rep s1 []" "md_max s1 = cap" "md_net s1 = net" "md_mask s1 = nmask"
    "cap \<le> sint (NOT nmask)" "md_dupq s1 = md_dupq s" by auto
  have "dup_ok s1" using n(6) assms(2) by (simp add: dup_ok_def)
  moreover have "md_addr_ok s1" using n assms(5-7) unfolding md_addr_ok_def by auto
  ultimately obtain c2 where "md_rep s2 c2" using uses_rep[OF assms(8) n(1)] by blast
  then obtain ns where ok: "md_ok s2 ns" by (rule md_repE)
  have r: "seg (md_links s2) NULL (map lnode ns) NULL" "hev_list_first (md_list s2) = first_of NULL (map lnode ns)"
    using ok by (auto simp: md_ok_def list_rep_def hev_list_first_def)
  have "hev_mapped_dns_destruct s2 = Some (s2\<lparr>md_nodes := \<lambda>p. if p \<in> set ns then None else md_nodes s2 p\<rparr>)"
    using free_loop[OF r(1) md_okD(1)[OF ok]] md_okD(2)[OF ok] r(2) by (simp add: hev_mapped_dns_destruct_def)
  moreover have "(\<lambda>p. if p \<in> set ns then None else md_nodes s2 p) = (\<lambda>_. None)"
    using md_okD(2)[OF ok] by auto
  ultimately show ?thesis using n by simp
qed

theorem mapped_dns_lifecycle_witness:
  "\<exists>s1 s3. hev_mapped_dns_new 0xC6120000 0xFFFE0000 2 True sample_dns = Some s1 \<and>
    hev_mapped_dns_destruct s1 = Some s3 \<and> md_nodes s3 = (\<lambda>_. None)"
proof -
  have m: "(0xFFFE0000 :: u32) = NOT (mask 17)" "(0xC6120000 :: u32) AND mask 17 = 0" by (simp_all add: mask_eq_exp_minus_1)
  obtain s1 where s1: "hev_mapped_dns_new 0xC6120000 0xFFFE0000 2 True sample_dns = Some s1"
    by (simp add: hev_mapped_dns_new_def hev_mapped_dns_construct_def)
  have "md_nodes sample_dns p = None" for p by (simp add: sample_dns_def)
  from mapped_dns_lifecycle[where S = "{}", OF this sample_dns(2) _ s1 _ m uses_none] s1 show ?thesis by auto
qed

end
