(* ===== verification/DnsHandle.thy ===== *)
theory DnsHandle
  imports MappedDNS
begin

section \<open>Mapped DNS: answering queries (hev_mapped_dns_handle)\<close>

text \<open>
  \<open>hev_mapped_dns_handle\<close> parses a query in place (the length bytes of the labels become dots in
  the request, the response is a copy made before), maps each name asked for an IPv4 address
  (type A, class IN) and appends one answer per name. Requests and responses are byte lists of
  the size of the buffers; an access outside is undefined. \<open>Inl\<close> is the early \<open>return -1\<close>.

  The specification is the message format of RFC 1035: \<open>enc_q\<close> encodes a question, \<open>answer\<close> an
  answer record, \<open>resolve\<close> performs the finds of the questions in order.
\<close>

subsection \<open>The code\<close>

definition read_u16 :: "bytes \<Rightarrow> u16" where
  "read_u16 p = push_bit 8 (ucast (p ! 0)) OR ucast (p ! 1)"

definition write_u16 :: "bytes \<Rightarrow> nat \<Rightarrow> u16 \<Rightarrow> bytes option" where
  "write_u16 p off v = do { p \<leftarrow> wr p off [ucast (drop_bit 8 v)]; wr p (off + 1) [ucast v] }"

definition write_u32 :: "bytes \<Rightarrow> nat \<Rightarrow> u32 \<Rightarrow> bytes option" where
  "write_u32 p off v = do {
     p \<leftarrow> wr p off [ucast (drop_bit 24 v)];
     p \<leftarrow> wr p (off + 1) [ucast (drop_bit 16 v)];
     p \<leftarrow> wr p (off + 2) [ucast (drop_bit 8 v)];
     wr p (off + 3) [ucast v]
   }"

text \<open>The labels of one name.\<close>

function dns_name :: "nat \<Rightarrow> nat \<Rightarrow> bytes \<Rightarrow> (bytes + nat \<times> bytes) option" where
  "dns_name qlen off rb = do {
     n \<leftarrow> rd8 rb off;
     if n = 0 then Some (Inr (off, rb))
     else do {
       let poff = off;
       let off = off + (1 + unat n);
       if off \<ge> qlen then Some (Inl rb)
       else do {
         rb \<leftarrow> wr rb poff [0x2e];
         dns_name qlen off rb
       }
     }
   }"
  by pat_completeness auto

termination dns_name
  by (relation "measure (\<lambda>(qlen, off, rb). qlen - off)") auto

declare dns_name.simps [simp del]

fun dns_questions :: "nat \<Rightarrow> nat \<Rightarrow> nat \<Rightarrow> (nat \<times> u32) list \<Rightarrow> bytes \<Rightarrow> mapped_dns \<Rightarrow>
    (bytes \<times> mapped_dns + nat \<times> (nat \<times> u32) list \<times> bytes \<times> mapped_dns) option" where
  "dns_questions qlen 0 off ips rb self = Some (Inr (off, ips, rb, self))"
| "dns_questions qlen (Suc n) off ips rb self = do {
     let ipo = off;
     r \<leftarrow> dns_name qlen off rb;
     case r of
       Inl rb \<Rightarrow> Some (Inl (rb, self))
     | Inr (off, rb) \<Rightarrow>
         let off = off + 1 in
         if off + 3 \<ge> qlen then Some (Inl (rb, self))
         else do {
           t \<leftarrow> rd rb off 2;
           c \<leftarrow> rd rb (off + 2) 2;
           (ips, self) \<leftarrow>
             (if read_u16 t = 1 \<and> read_u16 c = 1 then do {
                name \<leftarrow> cstring (drop (ipo + 1) rb);
                (idx, self) \<leftarrow> hev_mapped_dns_find name self;
                Some (if idx \<ge> 0 then ips @ [(ipo, md_net self OR word_of_int idx)] else ips, self)
              } else Some (ips, self));
           dns_questions qlen n (off + 4) ips rb self
         }
   }"

fun dns_answers :: "nat \<Rightarrow> (nat \<times> u32) list \<Rightarrow> nat \<Rightarrow> bytes \<Rightarrow> (bytes + nat \<times> bytes) option" where
  "dns_answers slen [] off sb = Some (Inr (off, sb))"
| "dns_answers slen ((ipo, ip) # ips) off sb =
     (if off + 15 \<ge> slen then Some (Inl sb)
      else do {
        sb \<leftarrow> wr sb off [0xc0];
        sb \<leftarrow> wr sb (off + 1) [word_of_nat ipo];
        sb \<leftarrow> write_u16 sb (off + 2) 1;
        sb \<leftarrow> write_u16 sb (off + 4) 1;
        sb \<leftarrow> write_u32 sb (off + 6) 1;
        sb \<leftarrow> write_u16 sb (off + 10) 4;
        sb \<leftarrow> write_u32 sb (off + 12) ip;
        dns_answers slen ips (off + 16) sb
      })"

text \<open>The result is the return value, the request, the response and the cache.\<close>

definition hev_mapped_dns_handle ::
  "mapped_dns \<Rightarrow> bytes \<Rightarrow> nat \<Rightarrow> bytes \<Rightarrow> nat \<Rightarrow> (int \<times> bytes \<times> bytes \<times> mapped_dns) option" where
  "hev_mapped_dns_handle self req qlen res slen =
     (if slen < qlen then Some (-1, req, res, self)
      else do {
        q \<leftarrow> rd req 0 qlen;
        res \<leftarrow> wr res 0 q;
        qd \<leftarrow> rd req 4 2;
        req \<leftarrow> wr req 4 (store16 (ntohs (load16 qd)));
        fl \<leftarrow> rd res 2 2;
        res \<leftarrow> wr res 2 (store16 (ntohs (load16 fl)));
        res \<leftarrow> wr res 8 (store16 0);
        res \<leftarrow> wr res 6 (store16 0);
        res \<leftarrow> wr res 10 (store16 0);
        qd \<leftarrow> rd req 4 2;
        if load16 qd > 32 then Some (-1, req, res, self)
        else do {
          r \<leftarrow> dns_questions qlen (unat (load16 qd)) 12 [] req self;
          case r of
            Inl (req, self) \<Rightarrow> Some (-1, req, res, self)
          | Inr (off, ips, req, self) \<Rightarrow> do {
              a \<leftarrow> dns_answers slen ips off res;
              case a of
                Inl res \<Rightarrow> Some (-1, req, res, self)
              | Inr (off, res) \<Rightarrow> do {
                  fl \<leftarrow> rd res 2 2;
                  let fl = load16 fl;
                  res \<leftarrow> wr res 2 (store16 (htons (fl OR 0x8000 OR drop_bit 1 (fl AND 0x100))));
                  res \<leftarrow> wr res 6 (store16 (htons (word_of_nat (length ips))));
                  Some (int off, req, res, self)
                }
            }
        }
      })"

subsection \<open>The message format\<close>

type_synonym question = "bytes list \<times> u16 \<times> u16"

definition enc_labels :: "bytes list \<Rightarrow> bytes" where
  "enc_labels ls = concat (map (\<lambda>l. word_of_nat (length l) # l) ls)"

fun enc_q :: "question \<Rightarrow> bytes" where
  "enc_q (ls, t, c) = enc_labels ls @ 0 # be16 t @ be16 c"

fun question_ok :: "question \<Rightarrow> bool" where
  "question_ok (ls, t, c) \<longleftrightarrow> (\<forall>l \<in> set ls. l \<noteq> [] \<and> length l < 256 \<and> 0 \<notin> set l)"

text \<open>The name with dots; the code also writes a dot in front of it.\<close>

definition dots :: "bytes list \<Rightarrow> bytes" where
  "dots ls = concat (map (\<lambda>l. 0x2e # l) ls)"

definition dotted :: "bytes list \<Rightarrow> bytes" where
  "dotted ls = tl (dots ls)"

definition answer :: "nat \<times> u32 \<Rightarrow> bytes" where
  "answer a = [0xc0, word_of_nat (fst a)] @ be16 1 @ be16 1 @ be32 1 @ be16 4 @ be32 (snd a)"

text \<open>The finds of the questions that ask for an IPv4 address: where each name is, its address.\<close>

fun resolve :: "nat \<Rightarrow> question list \<Rightarrow> mapped_dns \<Rightarrow> ((nat \<times> u32) list \<times> mapped_dns) option" where
  "resolve off [] self = Some ([], self)"
| "resolve off ((ls, t, c) # qs) self =
     (if t = 1 \<and> c = 1 then do {
        (idx, self) \<leftarrow> hev_mapped_dns_find (dotted ls) self;
        (as, self') \<leftarrow> resolve (off + length (enc_q (ls, t, c))) qs self;
        Some (if idx \<ge> 0 then (off, md_net self OR word_of_int idx) # as else as, self')
      } else resolve (off + length (enc_q (ls, t, c))) qs self)"

subsection \<open>Parsing\<close>

lemma length_enc_labels [simp]: "length (enc_labels ls) = length (dots ls)"
  by (induction ls) (simp_all add: enc_labels_def dots_def)

lemma enc_labels_Cons: "enc_labels (l # ls) = word_of_nat (length l) # l @ enc_labels ls"
  and enc_labels_Nil [simp]: "enc_labels [] = []"
  and dots_Cons: "dots (l # ls) = 0x2e # l @ dots ls"
  and dots_Nil [simp]: "dots [] = []"
  by (simp_all add: enc_labels_def dots_def)

lemma be16_bytes: "read_u16 (be16 x) = x"
proof -
  have "push_bit 8 (ucast (ucast (drop_bit 8 x) :: u8)) OR ucast (ucast x :: u8) = (x :: u16)"
    by (rule bit_word_eqI) (auto simp: bit_simps dest: bit_imp_le_length)
  then show ?thesis by (simp add: read_u16_def be16_def)
qed

lemma splice_middle: "length pre = n \<Longrightarrow> length xs = length ys \<Longrightarrow> splice_at (pre @ xs @ post) n ys = pre @ ys @ post"
  by (simp add: splice_at_def)

lemma wr_middle: "length pre = n \<Longrightarrow> length xs = length ys \<Longrightarrow> wr (pre @ xs @ post) n ys = Some (pre @ ys @ post)"
  by (simp add: wr_def splice_middle)

lemma rd_middle: "length pre = n \<Longrightarrow> length xs = k \<Longrightarrow> rd (pre @ xs @ post) n k = Some xs"
  by (simp add: rd_def)

lemma rd8_middle: "length pre = n \<Longrightarrow> rd8 (pre @ x # post) n = Some x"
  by (auto simp: rd8_def)

text \<open>One name: every length byte becomes a dot, the offset ends at the terminating zero.\<close>

lemma dns_name_enc:
  assumes "question_ok (ls, t, c)" "length pre + length (dots ls) < qlen"
  shows "dns_name qlen (length pre) (pre @ enc_labels ls @ 0 # post) =
    Some (Inr (length pre + length (dots ls), pre @ dots ls @ 0 # post))"
  using assms
proof (induction ls arbitrary: pre)
  case Nil
  then show ?case by (subst dns_name.simps) (simp add: rd8_def)
next
  case (Cons l ls)
  let ?n = "word_of_nat (length l) :: u8"
  have l: "l \<noteq> []" "length l < 256" using Cons.prems(1) by auto
  have n: "unat ?n = length l" using l(2) by (simp add: unat_of_nat)
  then have nz: "?n \<noteq> 0" using l(1) by auto
  have "rd8 (pre @ ?n # l @ enc_labels ls @ 0 # post) (length pre) = Some ?n" by (simp add: rd8_def)
  moreover have "wr (pre @ ?n # l @ enc_labels ls @ 0 # post) (length pre) [0x2e] = Some (pre @ 0x2e # l @ enc_labels ls @ 0 # post)"
    using wr_middle[of pre "length pre" "[?n]" "[0x2e]"] by simp
  moreover have "dns_name qlen (length (pre @ 0x2e # l)) ((pre @ 0x2e # l) @ enc_labels ls @ 0 # post) =
      Some (Inr (length (pre @ 0x2e # l) + length (dots ls), (pre @ 0x2e # l) @ dots ls @ 0 # post))"
    using Cons.prems by (intro Cons.IH) (auto simp: dots_Cons)
  ultimately show ?case using n nz Cons.prems(2)
    by (subst dns_name.simps) (simp add: enc_labels_Cons dots_Cons)
qed

text \<open>The string the code passes on is the dotted name; for the root it is the first byte of
  the type, which is zero.\<close>

lemma cstring_dotted:
  assumes "question_ok (ls, 1, c)"
  shows "cstring (drop (length pre + 1) (pre @ dots ls @ 0 # be16 1 @ post)) = Some (dotted ls)"
proof (cases ls)
  case Nil
  then show ?thesis by (simp add: dotted_def be16_def)
next
  case (Cons l ls')
  have z: "0 \<notin> set (dots ks)" if "\<forall>l \<in> set ks. 0 \<notin> set l" for ks
    using that by (induction ks) (auto simp: dots_Cons)
  then have "0 \<notin> set (dotted ls)" using assms by (auto simp: dotted_def Cons dots_Cons)
  moreover have "drop (length pre + 1) (pre @ dots ls @ 0 # be16 1 @ post) = dotted ls @ 0 # be16 1 @ post"
    by (simp add: dotted_def Cons dots_Cons)
  ultimately show ?thesis by simp
qed

definition dotted_q :: "question \<Rightarrow> bytes" where
  "dotted_q q = (case q of (ls, t, c) \<Rightarrow> dots ls @ 0 # be16 t @ be16 c)"

lemma dotted_q_simp: "dotted_q (ls, t, c) = dots ls @ 0 # be16 t @ be16 c"
  by (simp add: dotted_q_def)

lemma length_dotted_q [simp]: "length (dotted_q q) = length (enc_q q)"
  by (cases q) (simp add: dotted_q_def)

lemma dns_questions_enc:
  assumes "\<forall>q \<in> set qs. question_ok q" "length pre + length (concat (map enc_q qs)) \<le> qlen"
    and "resolve (length pre) qs self = Some (as, self')"
  shows "dns_questions qlen (length qs) (length pre) ips (pre @ concat (map enc_q qs) @ post) self =
    Some (Inr (length pre + length (concat (map enc_q qs)), ips @ as, pre @ concat (map dotted_q qs) @ post, self'))"
  using assms
proof (induction qs arbitrary: pre ips self as)
  case Nil
  then show ?case by simp
next
  case (Cons q qs)
  obtain ls t c where q: "q = (ls, t, c)" by (cases q)
  let ?rest = "concat (map enc_q qs) @ post"
  let ?mid = "dots ls @ 0 # be16 t @ be16 c"
  have ok: "question_ok (ls, t, c)" using Cons.prems(1) q by auto
  have len: "length pre + length (dots ls) + 5 + length (concat (map enc_q qs)) \<le> qlen" using Cons.prems(2) q by simp
  have name: "dns_name qlen (length pre) (pre @ enc_labels ls @ 0 # be16 t @ be16 c @ ?rest) =
      Some (Inr (length pre + length (dots ls), pre @ dots ls @ 0 # be16 t @ be16 c @ ?rest))"
    using len by (intro dns_name_enc[OF ok]) simp
  have t: "rd (pre @ dots ls @ 0 # be16 t @ be16 c @ ?rest) (Suc (length pre + length (dots ls))) 2 = Some (be16 t)"
    using rd_middle[of "pre @ dots ls @ [0]" "Suc (length pre + length (dots ls))" "be16 t" 2 "be16 c @ ?rest"] by simp
  have c: "rd (pre @ dots ls @ 0 # be16 t @ be16 c @ ?rest) (Suc (length pre + length (dots ls)) + 2) 2 = Some (be16 c)"
    using rd_middle[of "pre @ dots ls @ 0 # be16 t" "Suc (length pre + length (dots ls)) + 2" "be16 c" 2 ?rest] by simp
  have IH: "dns_questions qlen (length qs) (length (pre @ ?mid)) ips1 ((pre @ ?mid) @ ?rest) s1 =
      Some (Inr (length (pre @ ?mid) + length (concat (map enc_q qs)), ips1 @ as1, (pre @ ?mid) @ concat (map dotted_q qs) @ post, self'))"
    if "resolve (length (pre @ ?mid)) qs s1 = Some (as1, self')" for ips1 s1 as1
    using Cons.prems(1) len that by (intro Cons.IH) simp_all
  have lm: "length (pre @ ?mid) = length pre + length (enc_q q)" by (simp add: q)
  show ?case
  proof (cases "t = 1 \<and> c = 1")
    case True
    from True Cons.prems(3) obtain idx s1 as1 where f: "hev_mapped_dns_find (dotted ls) self = Some (idx, s1)"
      "resolve (length pre + length (enc_q q)) qs s1 = Some (as1, self')"
      "as = (if idx \<ge> 0 then (length pre, md_net s1 OR word_of_int idx) # as1 else as1)"
      by (auto simp: q Option.bind_eq_Some_conv)
    have cs: "cstring (drop (length pre + 1) (pre @ dots ls @ 0 # be16 t @ be16 c @ ?rest)) = Some (dotted ls)"
      using cstring_dotted[of ls c pre "be16 c @ ?rest"] ok True by simp
    show ?thesis
      using name t c cs f True IH[of s1 as1] lm len
      by (simp add: q dotted_q_simp be16_bytes Let_def add_ac)
  next
    case False
    then have "resolve (length pre + length (enc_q q)) qs self = Some (as, self')" using Cons.prems(3) q by auto
    then show ?thesis
      using name t c False IH[of self as] lm len
      by (cases "t = 1") (simp_all add: q dotted_q_simp be16_bytes Let_def add_ac)
  qed
qed

subsection \<open>Answering\<close>

lemma write_u16_middle: "length pre = n \<Longrightarrow> length xs = 2 \<Longrightarrow> write_u16 (pre @ xs @ post) n v = Some (pre @ be16 v @ post)"
proof -
  assume a: "length pre = n" "length xs = 2"
  then obtain x y where "xs = [x, y]" by (auto simp: numeral_2_eq_2 length_Suc_conv)
  with a wr_middle[of pre n "[x]" "[ucast (drop_bit 8 v)]" "y # post"]
    wr_middle[of "pre @ [ucast (drop_bit 8 v)]" "n + 1" "[y]" "[ucast v]" post]
  show ?thesis by (simp add: write_u16_def be16_def)
qed

lemma write_u32_middle: "length pre = n \<Longrightarrow> length xs = 4 \<Longrightarrow> write_u32 (pre @ xs @ post) n v = Some (pre @ be32 v @ post)"
proof -
  assume a: "length pre = n" "length xs = 4"
  then obtain x y z u where "xs = [x, y, z, u]" by (auto simp: eval_nat_numeral length_Suc_conv)
  with a wr_middle[of pre n "[x]" "[ucast (drop_bit 24 v)]" "y # z # u # post"]
    wr_middle[of "pre @ [ucast (drop_bit 24 v)]" "n + 1" "[y]" "[ucast (drop_bit 16 v)]" "z # u # post"]
    wr_middle[of "pre @ [ucast (drop_bit 24 v), ucast (drop_bit 16 v)]" "n + 2" "[z]" "[ucast (drop_bit 8 v)]" "u # post"]
    wr_middle[of "pre @ [ucast (drop_bit 24 v), ucast (drop_bit 16 v), ucast (drop_bit 8 v)]" "n + 3" "[u]" "[ucast v]" post]
  show ?thesis by (simp add: write_u32_def be32_def)
qed

lemma length_answer [simp]: "length (answer a) = 16"
  by (simp add: answer_def be32_def)

lemma split_lengthE:
  assumes "length m = a + b"
  obtains x y where "m = x @ y" "length x = a" "length y = b"
  by (rule that[of "take a m" "drop a m"]) (use assms in auto)

lemma dns_answers_enc:
  assumes "length pre + 16 * length as + length post = slen" "length mid = 16 * length as"
  shows "dns_answers slen as (length pre) (pre @ mid @ post) =
    Some (Inr (length pre + 16 * length as, pre @ concat (map answer as) @ post))"
  using assms
proof (induction as arbitrary: pre mid)
  case Nil
  then show ?case by simp
next
  case (Cons a as)
  obtain ipo ip where a: "a = (ipo, ip)" by (cases a)
  have "length mid = 1 + (1 + (2 + (2 + (4 + (2 + (4 + 16 * length as))))))" using Cons.prems(2) by simp
  then obtain p q r s t u v rest where mid: "mid = p @ q @ r @ s @ t @ u @ v @ rest"
    and len: "length p = 1" "length q = 1" "length r = 2" "length s = 2" "length t = 4" "length u = 2" "length v = 4"
      "length rest = 16 * length as" by (elim split_lengthE) metis
  let ?h = "[0xc0, word_of_nat ipo] :: bytes"
  have "wr (pre @ mid @ post) (length pre) [0xc0] = Some (pre @ [0xc0] @ q @ r @ s @ t @ u @ v @ rest @ post)"
    using wr_middle[of pre _ p "[0xc0]"] len mid by simp
  moreover have "wr (pre @ [0xc0] @ q @ r @ s @ t @ u @ v @ rest @ post) (length pre + 1) [word_of_nat ipo] =
      Some (pre @ ?h @ r @ s @ t @ u @ v @ rest @ post)"
    using wr_middle[of "pre @ [0xc0]" _ q "[word_of_nat ipo]"] len by simp
  moreover have "write_u16 (pre @ ?h @ r @ s @ t @ u @ v @ rest @ post) (length pre + 2) 1 =
      Some (pre @ ?h @ be16 1 @ s @ t @ u @ v @ rest @ post)"
    using write_u16_middle[of "pre @ ?h" "length pre + 2" r] len by simp
  moreover have "write_u16 (pre @ ?h @ be16 1 @ s @ t @ u @ v @ rest @ post) (length pre + 4) 1 =
      Some (pre @ ?h @ be16 1 @ be16 1 @ t @ u @ v @ rest @ post)"
    using write_u16_middle[of "pre @ ?h @ be16 1" "length pre + 4" s] len by simp
  moreover have "write_u32 (pre @ ?h @ be16 1 @ be16 1 @ t @ u @ v @ rest @ post) (length pre + 6) 1 =
      Some (pre @ ?h @ be16 1 @ be16 1 @ be32 1 @ u @ v @ rest @ post)"
    using write_u32_middle[of "pre @ ?h @ be16 1 @ be16 1" "length pre + 6" t] len by simp
  moreover have "write_u16 (pre @ ?h @ be16 1 @ be16 1 @ be32 1 @ u @ v @ rest @ post) (length pre + 10) 4 =
      Some (pre @ ?h @ be16 1 @ be16 1 @ be32 1 @ be16 4 @ v @ rest @ post)"
    using write_u16_middle[of "pre @ ?h @ be16 1 @ be16 1 @ be32 1" "length pre + 10" u] len by (simp add: be32_def)
  moreover have "write_u32 (pre @ ?h @ be16 1 @ be16 1 @ be32 1 @ be16 4 @ v @ rest @ post) (length pre + 12) ip =
      Some (pre @ ?h @ be16 1 @ be16 1 @ be32 1 @ be16 4 @ be32 ip @ rest @ post)"
    using write_u32_middle[of "pre @ ?h @ be16 1 @ be16 1 @ be32 1 @ be16 4" "length pre + 12" v] len by (simp add: be32_def)
  moreover have "dns_answers slen as (length pre + 16) ((pre @ answer a) @ rest @ post) =
      Some (Inr (length pre + (16 + 16 * length as), (pre @ answer a) @ concat (map answer as) @ post))"
    using Cons.IH[of "pre @ answer a" rest] Cons.prems(1) len by simp
  moreover have "answer a = ?h @ be16 1 @ be16 1 @ be32 1 @ be16 4 @ be32 ip" by (simp add: a answer_def)
  ultimately show ?case using Cons.prems(1) by (simp add: a)
qed

lemma dns_answers_at:
  "length pre = n \<Longrightarrow> n + 16 * length as + length post = slen \<Longrightarrow> length mid = 16 * length as \<Longrightarrow>
    dns_answers slen as n (pre @ mid @ post) = Some (Inr (n + 16 * length as, pre @ concat (map answer as) @ post))"
  using dns_answers_enc by blast

subsection \<open>Properties\<close>

text \<open>A query: the header with identifier, flags, number of questions and the other counts, the
  questions, and whatever follows them.\<close>

definition dns_query :: "u16 \<Rightarrow> u16 \<Rightarrow> bytes \<Rightarrow> question list \<Rightarrow> bytes \<Rightarrow> bytes" where
  "dns_query qid fl counts qs rest =
     be16 qid @ be16 fl @ be16 (word_of_nat (length qs)) @ counts @ concat (map enc_q qs) @ rest"

definition dns_response :: "u16 \<Rightarrow> u16 \<Rightarrow> question list \<Rightarrow> (nat \<times> u32) list \<Rightarrow> bytes" where
  "dns_response qid fl qs as =
     be16 qid @ be16 (fl OR 0x8000 OR drop_bit 1 (fl AND 0x100)) @ be16 (word_of_nat (length qs)) @
     be16 (word_of_nat (length as)) @ be16 0 @ be16 0 @ concat (map enc_q qs) @ concat (map answer as)"

lemma dns_handle_correct:
  assumes "\<forall>q \<in> set qs. question_ok q" "length qs \<le> 32" "length counts = 6"
    and "resolve 12 qs self = Some (as, self')"
    and "qlen = length (dns_query qid fl counts qs rest)" "slen = length res" "qlen \<le> slen"
    and "12 + length (concat (map enc_q qs)) + 16 * length as \<le> slen"
  shows "\<exists>req' res'. hev_mapped_dns_handle self (dns_query qid fl counts qs rest) qlen res slen =
      Some (int (length (dns_response qid fl qs as)), req', res', self') \<and>
    take (length (dns_response qid fl qs as)) res' = dns_response qid fl qs as"
proof -
  let ?Q = "concat (map enc_q qs)" and ?n = "word_of_nat (length qs) :: u16"
  have n: "unat ?n = length qs" using assms(2) by (simp add: unat_of_nat)
  have n32: "\<not> 32 < ?n" using assms(2) n by (simp add: word_less_nat_alt)
  have qlen: "qlen = 12 + length ?Q + length rest" using assms(3,5) by (simp add: dns_query_def)
  define post where "post = drop qlen res"
  have lp: "length post + qlen = slen" using assms(6,7) by (simp add: post_def)
  have "length counts = 2 + (2 + 2)" using assms(3) by simp
  then obtain c1 c2 c3 where c: "counts = c1 @ c2 @ c3" "length c1 = 2" "length c2 = 2" "length c3 = 2"
    by (elim split_lengthE) metis
  have rd0: "rd (dns_query qid fl counts qs rest) 0 qlen = Some (dns_query qid fl counts qs rest)"
    using assms(5) by (simp add: rd_def)
  have wr0: "wr res 0 (dns_query qid fl counts qs rest) = Some (dns_query qid fl counts qs rest @ post)"
    using assms(5,6,7) by (simp add: wr_def splice_at_def post_def)
  let ?z = "store16 0 :: bytes" and ?fl = "store16 fl"
  let ?req1 = "be16 qid @ be16 fl @ store16 ?n @ counts @ ?Q @ rest"
  have l2: "length (be16 qid) = 2" "length (be16 fl) = 2" "length (be16 ?n) = 2" "length ?fl = 2" "length ?z = 2" by simp_all
  have req: "rd (dns_query qid fl counts qs rest) 4 2 = Some (be16 ?n)"
      "wr (dns_query qid fl counts qs rest) 4 (store16 ?n) = Some ?req1" "rd ?req1 4 2 = Some (store16 ?n)"
    using rd_middle[of "be16 qid @ be16 fl" 4 "be16 ?n" 2 "counts @ ?Q @ rest"]
      wr_middle[of "be16 qid @ be16 fl" 4 "be16 ?n" "store16 ?n" "counts @ ?Q @ rest"]
      rd_middle[of "be16 qid @ be16 fl" 4 "store16 ?n" 2 "counts @ ?Q @ rest"]
    by (simp_all add: dns_query_def)
  let ?t = "?Q @ rest @ post"
  have res0: "dns_query qid fl counts qs rest @ post = be16 qid @ be16 fl @ be16 ?n @ c1 @ c2 @ c3 @ ?t"
    using c(1) by (simp add: dns_query_def)
  have res1: "rd (be16 qid @ be16 fl @ be16 ?n @ c1 @ c2 @ c3 @ ?t) 2 2 = Some (be16 fl)"
    "wr (be16 qid @ be16 fl @ be16 ?n @ c1 @ c2 @ c3 @ ?t) 2 ?fl = Some (be16 qid @ ?fl @ be16 ?n @ c1 @ c2 @ c3 @ ?t)"
    "wr (be16 qid @ ?fl @ be16 ?n @ c1 @ c2 @ c3 @ ?t) 8 ?z = Some (be16 qid @ ?fl @ be16 ?n @ c1 @ ?z @ c3 @ ?t)"
    "wr (be16 qid @ ?fl @ be16 ?n @ c1 @ ?z @ c3 @ ?t) 6 ?z = Some (be16 qid @ ?fl @ be16 ?n @ ?z @ ?z @ c3 @ ?t)"
    "wr (be16 qid @ ?fl @ be16 ?n @ ?z @ ?z @ c3 @ ?t) 10 ?z = Some (be16 qid @ ?fl @ be16 ?n @ ?z @ ?z @ ?z @ ?t)"
    using rd_middle[of "be16 qid" 2 "be16 fl" 2] wr_middle[of "be16 qid" 2 "be16 fl" ?fl]
      wr_middle[of "be16 qid @ ?fl @ be16 ?n @ c1" 8 c2 ?z "c3 @ ?t"]
      wr_middle[of "be16 qid @ ?fl @ be16 ?n" 6 c1 ?z "?z @ c3 @ ?t"]
      wr_middle[of "be16 qid @ ?fl @ be16 ?n @ ?z @ ?z" 10 c3 ?z ?t] c(2-4)
    by simp_all
  have qs: "dns_questions qlen (length qs) 12 [] ?req1 self =
      Some (Inr (12 + length ?Q, as, be16 qid @ be16 fl @ store16 ?n @ counts @ concat (map dotted_q qs) @ rest, self'))"
    using dns_questions_enc[of qs "be16 qid @ be16 fl @ store16 ?n @ counts" qlen self as self' "[]" rest]
      assms(1,3,4) qlen by simp
  let ?pre = "be16 qid @ ?fl @ be16 ?n @ ?z @ ?z @ ?z @ ?Q"
  have "length (rest @ post) = 16 * length as + (slen - (12 + length ?Q) - 16 * length as)"
    using assms(8) lp qlen by simp
  then obtain mid post' where mp: "rest @ post = mid @ post'" "length mid = 16 * length as"
    "length post' = slen - (12 + length ?Q) - 16 * length as" by (rule split_lengthE)
  have as: "dns_answers slen as (12 + length ?Q) (be16 qid @ ?fl @ be16 ?n @ ?z @ ?z @ ?z @ ?t) =
      Some (Inr (12 + length ?Q + 16 * length as, ?pre @ concat (map answer as) @ post'))"
    using dns_answers_at[of ?pre "12 + length ?Q" as post' slen mid] mp assms(8) by simp
  let ?A = "?Q @ concat (map answer as) @ post'" and ?fl' = "store16 (htons (fl OR 0x8000 OR drop_bit 1 (fl AND 0x100)))"
    and ?an = "store16 (htons (word_of_nat (length as)))"
  have res2: "rd (be16 qid @ ?fl @ be16 ?n @ ?z @ ?z @ ?z @ ?A) 2 2 = Some ?fl"
    "wr (be16 qid @ ?fl @ be16 ?n @ ?z @ ?z @ ?z @ ?A) 2 ?fl' = Some (be16 qid @ ?fl' @ be16 ?n @ ?z @ ?z @ ?z @ ?A)"
    "wr (be16 qid @ ?fl' @ be16 ?n @ ?z @ ?z @ ?z @ ?A) 6 ?an = Some (be16 qid @ ?fl' @ be16 ?n @ ?an @ ?z @ ?z @ ?A)"
    using rd_middle[of "be16 qid" 2 ?fl 2] wr_middle[of "be16 qid" 2 ?fl ?fl']
      wr_middle[of "be16 qid @ ?fl' @ be16 ?n" 6 ?z ?an "?z @ ?z @ ?A"]
    by simp_all
  have z: "?z = be16 0" by (simp add: store16_def be16_def)
  let ?res' = "be16 qid @ ?fl' @ be16 ?n @ ?an @ ?z @ ?z @ ?A"
  have "hev_mapped_dns_handle self (dns_query qid fl counts qs rest) qlen res slen =
      Some (int (12 + length ?Q + 16 * length as), be16 qid @ be16 fl @ store16 ?n @ counts @ concat (map dotted_q qs) @ rest, ?res', self')"
    using assms(7) rd0 wr0[unfolded res0] req res1 qs as res2 n n32
    by (simp add: hev_mapped_dns_handle_def)
  moreover have r: "?res' = dns_response qid fl qs as @ post'" by (simp add: dns_response_def z store16_htons)
  moreover have l: "12 + length ?Q + 16 * length as = length (dns_response qid fl qs as)"
    by (simp add: dns_response_def length_concat comp_def sum_list_triv)
  ultimately show ?thesis unfolding r l by simp
qed

lemma resolve_one:
  assumes "hev_mapped_dns_find (dotted ls) self = Some (idx, s1)"
  shows "resolve off [(ls, 1, 1)] self =
    Some (if idx \<ge> 0 then [(off, md_net s1 OR word_of_int idx)] else [], s1)"
  using assms by simp

lemma sample_resolve:
  "\<exists>s1. resolve 12 [([[0x61]], 1, 1)] sample_dns = Some ([(12, 0xC6120000)], s1) \<and>
     hev_mapped_dns_find [0x61] sample_dns = Some (0, s1)"
proof -
  from sample_find obtain s1 where f: "hev_mapped_dns_find [0x61] sample_dns = Some (0, s1)" by blast
  from find_result_cached[OF sample_dns f, of "{}"] have "md_net s1 = 0xC6120000"
    by (simp add: md_frame_def sample_dns_def)
  with resolve_one[of "[[0x61]]" sample_dns 0 s1 12] f show ?thesis by (simp add: dotted_def dots_def)
qed

text \<open>C17: the answer to a well-formed query. For any identifier, flags, other counts, questions (at
  most 32, their labels without zero bytes) and trailing records, when the response buffer has
  room: the reply repeats the identifier and the questions, has the response bit set and
  recursion available exactly when recursion was desired, no authority or additional records, and
  one A record per name that was found, in the order of the questions; the cache is the one after
  the finds of the questions in order.\<close>

theorem dns_handle_answers:
  assumes "\<forall>q \<in> set qs. question_ok q" "length qs \<le> 32" "length counts = 6"
    and "resolve 12 qs self = Some (as, self')"
    and "qlen = length (dns_query qid fl counts qs rest)" "slen = length res" "qlen \<le> slen"
    and "12 + length (concat (map enc_q qs)) + 16 * length as \<le> slen"
  shows "\<exists>req' res'. hev_mapped_dns_handle self (dns_query qid fl counts qs rest) qlen res slen =
      Some (int (length (dns_response qid fl qs as)), req', res', self') \<and>
    take (length (dns_response qid fl qs as)) res' = dns_response qid fl qs as"
  using dns_handle_correct[OF assms] .

theorem dns_handle_answers_witness:
  "\<exists>req' res' s1. hev_mapped_dns_handle sample_dns (dns_query 7 0x100 [0, 0, 0, 0, 0, 0] [([[0x61]], 1, 1)] []) 19 (replicate 40 9) 40 =
      Some (35, req', res', s1) \<and>
    take 35 res' = dns_response 7 0x100 [([[0x61]], 1, 1)] [(12, 0xC6120000)]"
proof -
  from sample_resolve obtain s1 where r: "resolve 12 [([[0x61]], 1, 1)] sample_dns = Some ([(12, 0xC6120000)], s1)" by blast
  have l: "length (dns_query 7 0x100 [0, 0, 0, 0, 0, 0] [([[0x61]], 1, 1)] []) = 19"
    "length (dns_response 7 0x100 [([[0x61]], 1, 1)] [(12, 0xC6120000)]) = 35"
    by (simp_all add: dns_query_def dns_response_def dots_def)
  show ?thesis
    using dns_handle_answers[OF _ _ _ r, where qid = 7 and fl = "0x100" and counts = "[0, 0, 0, 0, 0, 0]" and rest = "[]"
        and qlen = 19 and slen = 40 and res = "replicate 40 9"] l by (auto simp: dots_def)
qed

text \<open>C18: mapped DNS end to end. Whoever asks for the IPv4 address of a name gets exactly one answer,
  with the pointer to the name at offset 12; and as long as fewer than \<open>max\<close> other names come
  into use, looking up the address from the answer gives the dotted name back.\<close>

theorem dns_answer_then_lookup:
  assumes "md_rep self c" "dup_ok self" "md_addr_ok self" "hev_mapped_dns_find (dotted ls) self = Some (i, s1)" "0 \<le> i"
    and "question_ok (ls, 1, 1)" "length counts = 6" "slen = length res"
    and "qlen = length (dns_query qid fl counts [(ls, 1, 1)] rest)" "qlen \<le> slen" "33 + length (dots ls) \<le> slen"
    and "uses S s1 s2" "finite S" "dotted ls \<in> S" "int (card S) \<le> md_max self"
  shows "\<exists>n req' res' ip s3. hev_mapped_dns_handle self (dns_query qid fl counts [(ls, 1, 1)] rest) qlen res slen =
      Some (int n, req', res', s1) \<and>
    take n res' = dns_response qid fl [(ls, 1, 1)] [(12, ip)] \<and>
    hev_mapped_dns_lookup ip s2 = Some (Some (dotted ls), s3)"
proof -
  let ?ip = "md_net self OR word_of_int i"
  have i: "i \<noteq> -1" using assms(5) by simp
  from find_result_cached[OF assms(1-4) i, of "S - {dotted ls}"] have c: "cached s1 (dotted ls) i (S - {dotted ls})" "md_frame self s1"
    by auto
  then have "int (card S) \<le> md_max s1" using assms(15) by (simp add: md_frame_def)
  from uses_cached[OF assms(12) c(1) assms(13,14) this] have c2: "cached s2 (dotted ls) i (S - {dotted ls})" "md_frame s1 s2" by auto
  then obtain c' where c': "md_rep s2 c'" "held (dotted ls) i (S - {dotted ls}) c'" "md_addr_ok s2" by (auto simp: cached_def)
  from lookup_held[OF this(1,3,2)] c(2) c2(2) obtain s3 where l: "hev_mapped_dns_lookup ?ip s2 = Some (Some (dotted ls), s3)"
    by (auto simp: md_frame_def)
  have "resolve 12 [(ls, 1, 1)] self = Some ([(12, ?ip)], s1)"
    using resolve_one[OF assms(4), of 12] assms(5) c(2) by (simp add: md_frame_def)
  from dns_handle_correct[OF _ _ assms(7) this assms(9,8,10)] assms(6,11) l
  show ?thesis by (fastforce simp del: resolve.simps)
qed

theorem dns_answer_then_lookup_witness:
  "\<exists>n req' res' ip s1 s3. hev_mapped_dns_handle sample_dns (dns_query 7 0x100 [0, 0, 0, 0, 0, 0] [([[0x61]], 1, 1)] []) 19 (replicate 40 9) 40 =
      Some (int n, req', res', s1) \<and>
    take n res' = dns_response 7 0x100 [([[0x61]], 1, 1)] [(12, ip)] \<and>
    hev_mapped_dns_lookup ip s1 = Some (Some [0x61], s3)"
proof -
  from sample_find obtain s1 where f: "hev_mapped_dns_find [0x61] sample_dns = Some (0, s1)" by blast
  have d: "dotted [[0x61]] = [0x61]" by (simp add: dotted_def dots_def)
  have l: "19 = length (dns_query 7 0x100 [0, 0, 0, 0, 0, 0] [([[0x61]], 1, 1)] [])"
    by (simp add: dns_query_def dots_def)
  have f': "hev_mapped_dns_find (dotted [[0x61]]) sample_dns = Some (0, s1)" using f by (simp only: d)
  have "md_max sample_dns = 2" by (simp add: sample_dns_def)
  then have "\<exists>n req' res' ip s3. hev_mapped_dns_handle sample_dns (dns_query 7 0x100 [0, 0, 0, 0, 0, 0] [([[0x61]], 1, 1)] []) 19 (replicate 40 9) 40 =
      Some (int n, req', res', s1) \<and> take n res' = dns_response 7 0x100 [([[0x61]], 1, 1)] [(12, ip)] \<and>
      hev_mapped_dns_lookup ip s1 = Some (Some (dotted [[0x61]]), s3)"
    using dns_answer_then_lookup[OF sample_dns f' _ _ _ _ l _ _ uses_none, where res = "replicate 40 9" and slen = 40 and S = "{[0x61]}"]
    by (simp add: d dots_def)
  then show ?thesis unfolding d by blast
qed

lemma unat_ucast_u8: "unat (ucast (b :: u8) :: u16) = unat b"
proof -
  have "unat b < 2 ^ 16" by (rule order_less_trans[OF unat_u8_less]) simp
  then show ?thesis by (simp add: unsigned_ucast_eq take_bit_nat_eq_self)
qed

definition pointer_target :: "bytes \<Rightarrow> nat" where
  "pointer_target p = unat (read_u16 p AND 0x3FFF)"

text \<open>The compression pointer of an answer has only the low eight bits of the offset: read as
  RFC 1035 prescribes it points to the offset modulo 256, not to the name, for every question
  that starts at offset 256 or later.\<close>

theorem dns_answer_pointer_truncated:
  assumes "length sb = off + 16"
  shows "\<exists>sb'. dns_answers (length sb) [(ipo, ip)] off sb = Some (Inr (off + 16, sb')) \<and>
    pointer_target (take 2 (drop off sb')) = ipo mod 256"
proof -
  have m: "unat (word_of_nat ipo :: u8) = ipo mod 256" by (simp add: unat_of_nat)
  have "read_u16 [0xc0, b] AND 0x3FFF = ucast b" for b :: u8
  proof -
    have "(ucast b :: u16) AND mask 14 = ucast b"
      unfolding take_bit_eq_mask[symmetric] by (rule bit_word_eqI) (auto simp: bit_simps dest: bit_imp_le_length)
    then have "(ucast b :: u16) AND 0x3FFF = ucast b" by (simp add: mask_eq_exp_minus_1)
    then show ?thesis by (simp add: read_u16_def bit.conj_disj_distrib2)
  qed
  then show ?thesis
    using dns_answers_at[of "take off sb" off "[(ipo, ip)]" "[]" "length sb" "drop off sb"] assms m
    by (auto simp: pointer_target_def answer_def unat_ucast_u8)
qed

theorem dns_answer_pointer_truncated_witness:
  "\<exists>sb'. dns_answers 316 [(268, 7)] 300 (replicate 316 0) = Some (Inr (316, sb')) \<and>
    pointer_target (take 2 (drop 300 sb')) = 12"
  using dns_answer_pointer_truncated[of "replicate 316 0" 300 268 7] by simp

text \<open>Queries that are too short are read out of bounds. A datagram of fewer than six bytes, or
  a bare header that claims between 1 and 32 questions, makes the parser access memory behind the
  datagram: there is no check before the first read.\<close>

theorem dns_short_query_out_of_bounds:
  assumes "length req \<le> slen" "slen = length res"
    and "length req < 6 \<or> (\<exists>h c n. req = h @ [0, n] @ c \<and> length h = 4 \<and> length c = 6 \<and> 0 < n \<and> n \<le> 32)"
  shows "hev_mapped_dns_handle self req (length req) res slen = None"
  using assms(3)
proof
  assume "length req < 6"
  then show ?thesis using assms(1,2) by (simp add: hev_mapped_dns_handle_def rd_def wr_def)
next
  assume "\<exists>h c n. req = h @ [0, n] @ c \<and> length h = 4 \<and> length c = 6 \<and> 0 < n \<and> n \<le> 32"
  then obtain h c n where r: "req = h @ [0, n] @ c" "length h = 4" "length c = 6" "0 < n" "n \<le> 32" by blast
  then have len: "length req = 12" by simp
  let ?q = "store16 (ntohs (load16 [0, n]))" and ?qd = "ntohs (load16 [0, n])"
  have qd: "?qd = ucast n"
    by (rule bit_word_eqI) (auto simp: load16_def htons_def bit_simps dest: bit_imp_le_length)
  have un: "unat ?qd = unat n" by (simp add: qd unat_ucast_u8)
  obtain m where m: "unat n = Suc m" using r(4) by (cases "unat n") (auto simp: word_gt_0 unat_eq_0)
  have le: "\<not> 32 < ?qd" using r(5) un by (simp add: word_less_nat_alt word_le_nat_alt not_less)
  have a: "rd req 0 12 = Some req" "rd req 4 2 = Some [0, n]" "wr req 4 ?q = Some (h @ ?q @ c)" "rd (h @ ?q @ c) 4 2 = Some ?q"
    using len r(1,2) rd_middle[of h 4 "[0, n]" 2 c] wr_middle[of h 4 "[0, n]" ?q c] rd_middle[of h 4 ?q 2 c]
    by (simp_all add: rd_def[of _ 0])
  have lw: "\<exists>r'. wr r o' bs = Some r' \<and> length r' = length r" if "o' + length bs \<le> length r" for r o' bs
    using that by (simp add: wr_def)
  have "12 \<le> length res" using assms(1,2) len by simp
  then obtain r1 where r1: "wr res 0 req = Some r1" "length r1 = length res" using lw[of 0 req res] len by auto
  moreover obtain fl where fl: "rd r1 2 2 = Some fl" using r1 \<open>12 \<le> length res\<close> by (simp add: rd_def)
  moreover obtain r2 where r2: "wr r1 2 (store16 (ntohs (load16 fl))) = Some r2" "length r2 = length res"
    using lw[of 2 "store16 (ntohs (load16 fl))" r1] r1 \<open>12 \<le> length res\<close> by auto
  moreover obtain r3 where r3: "wr r2 8 (store16 0) = Some r3" "length r3 = length res"
    using lw[of 8 "store16 0" r2] r2 \<open>12 \<le> length res\<close> by auto
  moreover obtain r4 where r4: "wr r3 6 (store16 0) = Some r4" "length r4 = length res"
    using lw[of 6 "store16 0" r3] r3 \<open>12 \<le> length res\<close> by auto
  moreover obtain r5 where "wr r4 10 (store16 0) = Some r5"
    using lw[of 10 "store16 0" r4] r4 \<open>12 \<le> length res\<close> by auto
  moreover have "dns_questions 12 (unat ?qd) 12 [] (h @ ?q @ c) self = None"
    using r(2,3) unfolding un m by (simp add: dns_name.simps rd8_def)
  ultimately show ?thesis using a le len assms(1) by (simp add: hev_mapped_dns_handle_def)
qed

theorem dns_short_query_out_of_bounds_witness:
  "hev_mapped_dns_handle sample_dns [7, 7, 1, 0, 0, 1, 0, 0, 0, 0, 0, 0] 12 (replicate 20 0) 20 = None"
proof -
  have "\<exists>h c n. [7, 7, 1, 0, 0, 1, 0, 0, 0, 0, 0, 0 :: u8] = h @ [0, n] @ c \<and> length h = 4 \<and> length c = 6 \<and> 0 < n \<and> n \<le> 32"
    by (rule exI[of _ "[7, 7, 1, 0]"], rule exI[of _ "[0, 0, 0, 0, 0, 0]"], rule exI[of _ 1]) simp
  note w = dns_short_query_out_of_bounds[OF _ _ disjI2[OF this], of 20 "replicate 20 0" sample_dns]
  have l: "(12 :: nat) = length [7, 7, 1, 0, 0, 1, 0, 0, 0, 0, 0, 0 :: u8]" by simp
  show ?thesis unfolding l by (rule w) simp_all
qed

end
