(* ===== verification/HevUtils.thy ===== *)
theory HevUtils
  imports Socks5Client MappedDNS
begin

section \<open>Addresses between lwIP and SOCKS5 (hev-utils.c)\<close>

text \<open>
  The translation of the addresses of intercepted connections. An IPv4 destination is first
  looked up in the mapped DNS cache, if there is one (\<open>None\<close> where \<open>hev_mapped_dns_get\<close> returns
  NULL), and becomes the name found there. \<open>ip_addr\<close> is lwIP's \<open>ip_addr_t\<close>: the bytes of the union,
  which are in network order, and the tag.
\<close>

subsection \<open>Operations\<close>

datatype ip_addr_type = IPADDR_TYPE_V4 | IPADDR_TYPE_V6 | IPADDR_TYPE_ANY

record ip_addr =
  ip_bytes :: bytes
  ip_type :: ip_addr_type

definition hev_socks5_addr_from_lwip ::
  "mapped_dns option \<Rightarrow> bytes \<Rightarrow> ip_addr \<Rightarrow> u16 \<Rightarrow> (int \<times> bytes \<times> mapped_dns option) option" where
  "hev_socks5_addr_from_lwip dns addr ip port =
     (case ip_type ip of
        IPADDR_TYPE_V4 \<Rightarrow> do {
          (name, dns) \<leftarrow>
            (case dns of
               None \<Rightarrow> Some (None, None)
             | Some d \<Rightarrow> do {
                 a \<leftarrow> rd (ip_bytes ip) 0 4;
                 (name, d) \<leftarrow> hev_mapped_dns_lookup (ntohl (load32 a)) d;
                 Some (name, Some d)
               });
          (_, addr) \<leftarrow>
            (case name of
               Some n \<Rightarrow> hev_socks5_addr_from_name addr n (uint (htons port))
             | None \<Rightarrow> hev_socks5_addr_from_ipv4 addr (ip_bytes ip) (uint (htons port)));
          Some (0, addr, dns)
        }
      | IPADDR_TYPE_V6 \<Rightarrow> do {
          (_, addr) \<leftarrow> hev_socks5_addr_from_ipv6 addr (ip_bytes ip) (uint (htons port));
          Some (0, addr, dns)
        }
      | IPADDR_TYPE_ANY \<Rightarrow> Some (-1, addr, dns))"

definition hev_socks5_addr_into_lwip :: "bytes \<Rightarrow> ip_addr \<Rightarrow> u16 \<Rightarrow> (int \<times> ip_addr \<times> u16) option" where
  "hev_socks5_addr_into_lwip addr ip port = do {
     atype \<leftarrow> rd8 addr 0;
     if atype = HEV_SOCKS5_ADDR_TYPE_IPV4 then do {
       a \<leftarrow> rd addr 1 4;
       b \<leftarrow> wr (ip_bytes ip) 0 a;
       p \<leftarrow> rd addr 5 2;
       Some (0, \<lparr>ip_bytes = b, ip_type = IPADDR_TYPE_V4\<rparr>, ntohs (load16 p))
     } else if atype = HEV_SOCKS5_ADDR_TYPE_IPV6 then do {
       a \<leftarrow> rd addr 1 16;
       b \<leftarrow> wr (ip_bytes ip) 0 a;
       p \<leftarrow> rd addr 17 2;
       Some (0, \<lparr>ip_bytes = b, ip_type = IPADDR_TYPE_V6\<rparr>, ntohs (load16 p))
     } else Some (-1, ip, port)
   }"

text \<open>The options of a socket. \<open>setopt fd o\<close> is the result of \<open>setsockopt\<close>; the one for
  \<open>TCP_FASTOPEN_CONNECT\<close> is ignored by the code.\<close>

datatype sock_opt = SO_MARK u32 | TCP_FASTOPEN_CONNECT

definition set_sock_mark :: "(int \<Rightarrow> sock_opt \<Rightarrow> int) \<Rightarrow> int \<Rightarrow> u32 \<Rightarrow> int" where
  "set_sock_mark setopt fd m = setopt fd (SO_MARK m)"

subsection \<open>What they compute\<close>

text \<open>The socket address an lwIP address denotes.\<close>

fun lwip_addr :: "ip_addr \<Rightarrow> u16 \<Rightarrow> socks_addr option" where
  "lwip_addr ip port = (case ip_type ip of
     IPADDR_TYPE_V4 \<Rightarrow> Some (SA_IPv4 (take 4 (ip_bytes ip)) port)
   | IPADDR_TYPE_V6 \<Rightarrow> Some (SA_IPv6 (take 16 (ip_bytes ip)) port)
   | IPADDR_TYPE_ANY \<Rightarrow> None)"

abbreviation ipv4_word :: "ip_addr \<Rightarrow> u32" where
  "ipv4_word ip \<equiv> ntohl (load32 (take 4 (ip_bytes ip)))"

lemma from_lwip_ip:
  assumes "length addr = addr_size" "16 \<le> length (ip_bytes ip)" "lwip_addr ip port = Some a"
    and "ip_type ip = IPADDR_TYPE_V4 \<Longrightarrow> dns = None \<or>
      (\<exists>d d'. dns = Some d \<and> dns' = Some d' \<and> hev_mapped_dns_lookup (ipv4_word ip) d = Some (None, d'))"
    and "dns = None \<or> ip_type ip \<noteq> IPADDR_TYPE_V4 \<Longrightarrow> dns' = dns"
  shows "\<exists>r. hev_socks5_addr_from_lwip dns addr ip port = Some (0, encode_addr a @ r, dns')"
  using assms by (cases "ip_type ip")
    (auto simp: hev_socks5_addr_from_lwip_def addr_from_ipv4_encode addr_from_ipv6_encode rd_def
      simp del: encode_addr.simps)

lemma from_lwip_name:
  assumes "length addr = addr_size" "4 \<le> length (ip_bytes ip)" "ip_type ip = IPADDR_TYPE_V4"
    and "hev_mapped_dns_lookup (ipv4_word ip) d = Some (Some n, d')" "0 \<notin> set n" "length n \<le> 255"
  shows "\<exists>r. hev_socks5_addr_from_lwip (Some d) addr ip port = Some (0, encode_addr (SA_Name n port) @ r, Some d')"
  using assms addr_from_name_encode[OF assms(1,5,6), of port]
  by (auto simp: hev_socks5_addr_from_lwip_def rd_def simp del: encode_addr.simps)

lemma into_lwip_ip:
  assumes "wf_addr a" "\<forall>n p. a \<noteq> SA_Name n p" "16 \<le> length (ip_bytes ip)"
  shows "\<exists>ip' port. hev_socks5_addr_into_lwip (encode_addr a @ r) ip p = Some (0, ip', port) \<and>
    lwip_addr ip' port = Some a \<and> length (ip_bytes ip') = length (ip_bytes ip)"
proof (cases a)
  case (SA_IPv4 x q)
  with assms show ?thesis
    by (auto simp: hev_socks5_addr_into_lwip_def rd8_def rd_def wr_def splice_at_def)
next
  case (SA_IPv6 x q)
  with assms show ?thesis
    by (auto simp: hev_socks5_addr_into_lwip_def rd8_def rd_def wr_def splice_at_def)
qed (use assms in blast)

subsection \<open>Properties\<close>

text \<open>A destination survives the translation. Without a mapped name, the address of an
  intercepted connection becomes the SOCKS5 encoding of exactly that IPv4 or IPv6 address and port,
  and translating it back, as for the source address of a reply datagram, gives it back.\<close>

theorem lwip_address_roundtrip:
  assumes "length addr = addr_size" "length (ip_bytes ip) = 16" "lwip_addr ip port = Some a"
    and "16 \<le> length (ip_bytes ip0)"
  shows "\<exists>m ip' port'. hev_socks5_addr_from_lwip None addr ip port = Some (0, m, None) \<and>
    hev_socks5_addr_into_lwip m ip0 port0 = Some (0, ip', port') \<and> lwip_addr ip' port' = lwip_addr ip port \<and>
    hev_socks5_addr_len m = Some (int (length (encode_addr a))) \<and> take (length (encode_addr a)) m = encode_addr a"
proof -
  from from_lwip_ip[where dns = None and dns' = None, OF assms(1) _ assms(3)] assms(2) obtain r
    where f: "hev_socks5_addr_from_lwip None addr ip port = Some (0, encode_addr a @ r, None)" by auto
  have a: "wf_addr a" "\<forall>n p. a \<noteq> SA_Name n p" using assms(2,3) by (auto split: ip_addr_type.splits)
  from into_lwip_ip[OF this assms(4), of r port0] obtain ip' port'
    where "hev_socks5_addr_into_lwip (encode_addr a @ r) ip0 port0 = Some (0, ip', port')" "lwip_addr ip' port' = Some a"
    by blast
  with f addr_len_encode[OF a(1), of r] assms(3) show ?thesis
    by (simp del: lwip_addr.simps encode_addr.simps)
qed

theorem lwip_address_roundtrip_witness:
  "\<exists>m ip' port'. hev_socks5_addr_from_lwip None (replicate addr_size 7)
      \<lparr>ip_bytes = [10, 0, 0, 1] @ replicate 12 9, ip_type = IPADDR_TYPE_V4\<rparr> 443 = Some (0, m, None) \<and>
    hev_socks5_addr_into_lwip m \<lparr>ip_bytes = replicate 16 0, ip_type = IPADDR_TYPE_ANY\<rparr> 0 = Some (0, ip', port') \<and>
    lwip_addr ip' port' = Some (SA_IPv4 [10, 0, 0, 1] 443)"
  using lwip_address_roundtrip[of "replicate addr_size 7" "\<lparr>ip_bytes = [10, 0, 0, 1] @ replicate 12 9, ip_type = IPADDR_TYPE_V4\<rparr>"
      443 "SA_IPv4 [10, 0, 0, 1] 443" "\<lparr>ip_bytes = replicate 16 0, ip_type = IPADDR_TYPE_ANY\<rparr>" 0] by auto

text \<open>The host part alone decides. When a name is cached, every intercepted connection whose
  IPv4 destination has the name's index in its host part goes to that name, although the
  destination lies outside the mapped network: \<open>hev_mapped_dns_lookup\<close> does not compare the network
  part, and \<open>hev_socks5_addr_from_lwip\<close> calls it for every IPv4 destination.\<close>

theorem mapped_dns_captures_foreign_addresses:
  assumes "md_rep d c" "md_addr_ok d" "(n, sint (ipv4_word ip AND NOT (md_mask d))) \<in> set c"
    and "ip_type ip = IPADDR_TYPE_V4" "ipv4_word ip AND md_mask d \<noteq> md_net d AND md_mask d"
    and "length addr = addr_size" "4 \<le> length (ip_bytes ip)" "0 \<notin> set n" "length n \<le> 255"
  shows "\<exists>r d'. hev_socks5_addr_from_lwip (Some d) addr ip port = Some (0, encode_addr (SA_Name n port) @ r, Some d')"
proof -
  let ?i = "sint (ipv4_word ip AND NOT (md_mask d))"
  note l = md_rep_lru[OF assms(1)]
  have "map_of (map (\<lambda>(k, j). (j, k)) c) ?i = Some n"
  proof (rule map_of_is_SomeI)
    have "map fst (map (\<lambda>(k, j). (j, k)) c) = map snd c" by (induction c) auto
    then show "distinct (map fst (map (\<lambda>(k, j). (j, k)) c))" using l(2) by metis
    show "(?i, n) \<in> set (map (\<lambda>(k, j). (j, k)) c)" using assms(3) by force
  qed
  then have "fst (lru_lookup ?i c) = Some n" by (simp add: lru_lookup_def)
  with lookup_refines[OF assms(1) refl host_nonneg[OF assms(2)], of "ipv4_word ip"] obtain d'
    where "hev_mapped_dns_lookup (ipv4_word ip) d = Some (Some n, d')" by auto
  from from_lwip_name[OF assms(6,7,4) this assms(8,9)] show ?thesis by blast
qed

text \<open>\<open>8.8.0.0\<close> after the name "a" was given \<open>198.18.0.0\<close>.\<close>

lemma ipv4_words: "ntohl (load32 [8, 8, 0, 0]) = 0x08080000" "ntohl (load32 [198, 18, 0, 0]) = 0xC6120000"
  by (simp_all add: load32_def ntohl_def)

theorem mapped_dns_captures_foreign_addresses_witness:
  "\<exists>d r d'. hev_mapped_dns_find [0x61] sample_dns = Some (0, d) \<and>
    hev_socks5_addr_from_lwip (Some d) (replicate addr_size 7)
      \<lparr>ip_bytes = [8, 8, 0, 0] @ replicate 12 9, ip_type = IPADDR_TYPE_V4\<rparr> 53
    = Some (0, encode_addr (SA_Name [0x61] 53) @ r, Some d')"
proof -
  from sample_find obtain d where f: "hev_mapped_dns_find [0x61] sample_dns = Some (0, d)" by blast
  from find_refines[OF sample_dns(1,2), of "[0x61]"] f obtain c' where
    c: "md_frame sample_dns d" "md_rep d c'" "lru_find 2 [0x61] [] = (0, c')" by (auto simp: sample_dns_def)
  have c': "c' = [([0x61], 0)]" using c(3) by (simp add: lru_find_def)
  have m: "md_mask d = 0xFFFE0000" "md_net d = 0xC6120000" "md_addr_ok d"
    using c(1) sample_dns(3) md_addr_ok_frame[OF c(1)] by (simp_all add: md_frame_def sample_dns_def)
  let ?ip = "\<lparr>ip_bytes = [8, 8, 0, 0] @ replicate 12 9, ip_type = IPADDR_TYPE_V4\<rparr>"
  have w: "ipv4_word ?ip = 0x08080000" by (simp add: ipv4_words)
  have i: "([0x61], sint (ipv4_word ?ip AND NOT (md_mask d))) \<in> set c'" unfolding w by (simp add: c' m)
  have o: "ipv4_word ?ip AND md_mask d \<noteq> md_net d AND md_mask d" unfolding w by (simp add: m)
  have "\<exists>r d'. hev_socks5_addr_from_lwip (Some d) (replicate addr_size 7) ?ip 53 =
      Some (0, encode_addr (SA_Name [0x61] 53) @ r, Some d')"
    by (rule mapped_dns_captures_foreign_addresses[OF c(2) m(3) i _ o]) simp_all
  then show ?thesis using f by blast
qed

text \<open>A mapped name end to end. Once a name has an address, an intercepted connection to that
  address asks the proxy for the name and the port of the connection, however many queries and
  connections came in between, as long as at most \<open>max\<close> names are in use.\<close>

theorem mapped_connection_reaches_name:
  assumes "md_rep self c" "dup_ok self" "md_addr_ok self" "hev_mapped_dns_find n self = Some (i, s1)" "i \<noteq> -1"
    and "uses S s1 s2" "finite S" "n \<in> S" "int (card S) \<le> md_max self"
    and "ip_type ip = IPADDR_TYPE_V4" "ipv4_word ip = md_net self OR word_of_int i"
    and "length addr = addr_size" "4 \<le> length (ip_bytes ip)" "0 \<notin> set n" "length n \<le> 255"
  shows "\<exists>r d'. hev_socks5_addr_from_lwip (Some s2) addr ip port = Some (0, encode_addr (SA_Name n port) @ r, Some d')"
proof -
  from find_result_cached[OF assms(1-5)] have c: "cached s1 n i (S - {n})" "md_frame self s1" by auto
  then have "int (card S) \<le> md_max s1" using assms(9) by (simp add: md_frame_def)
  from uses_cached[OF assms(6) c(1) assms(7,8) this] have c2: "cached s2 n i (S - {n})" "md_frame s1 s2" by auto
  then obtain c' where "md_rep s2 c'" "held n i (S - {n}) c'" "md_addr_ok s2" by (auto simp: cached_def)
  from lookup_held[OF this(1,3,2)] c(2) c2(2) assms(11) obtain s3
    where "hev_mapped_dns_lookup (ipv4_word ip) s2 = Some (Some n, s3)" by (auto simp: md_frame_def)
  from from_lwip_name[OF assms(12,13,10) this assms(14,15)] show ?thesis by blast
qed

theorem mapped_connection_reaches_name_witness:
  "\<exists>s1 r d'. hev_mapped_dns_find [0x61] sample_dns = Some (0, s1) \<and>
    hev_socks5_addr_from_lwip (Some s1) (replicate addr_size 7)
      \<lparr>ip_bytes = [198, 18, 0, 0] @ replicate 12 9, ip_type = IPADDR_TYPE_V4\<rparr> 53
    = Some (0, encode_addr (SA_Name [0x61] 53) @ r, Some d')"
proof -
  from sample_find obtain s1 where f: "hev_mapped_dns_find [0x61] sample_dns = Some (0, s1)" by blast
  have n: "md_net sample_dns = 0xC6120000" "md_max sample_dns = 2" by (simp_all add: sample_dns_def)
  let ?ip = "\<lparr>ip_bytes = [198, 18, 0, 0] @ replicate 12 9, ip_type = IPADDR_TYPE_V4\<rparr>"
  have "ipv4_word ?ip = md_net sample_dns OR word_of_int 0" by (simp add: ipv4_words n)
  from mapped_connection_reaches_name[OF sample_dns f _ uses_none _ _ _ _ this, of "{[0x61]}" "replicate addr_size 7" 53] f n
  show ?thesis by (simp del: encode_addr.simps)
qed

end
