(* ===== verification/Config.thy ===== *)
theory Config
  imports Socks5Client
begin

section \<open>Configuration (hev-config.c)\<close>

text \<open>
  The parser of the configuration: it walks the nodes of a YAML document and fills the file-level
  variables of hev-config.c, the fields of \<open>config\<close>. \<open>config_default\<close> has their initial values.

  A document is the list of its nodes, which refer to each other by number from 1 on, as the
  yaml library has it; a scalar is given by its C string. Character arrays hold C strings: the
  arrays start zeroed and every \<open>strncpy\<close> into them is one byte shorter than the array, so they stay
  terminated, and the field is the string. \<open>strtoul\<close> and \<open>strcasecmp\<close> are those of the C library;
  \<open>unsigned long\<close> has 64 bits. \<open>inet_pton\<close> is a field of the resolver. Signed overflow is undefined.
\<close>

subsection \<open>The C library\<close>

definition str :: "string \<Rightarrow> bytes" where
  "str s = map of_char s"

definition is_space :: "u8 \<Rightarrow> bool" where
  "is_space c \<longleftrightarrow> c = 32 \<or> 9 \<le> c \<and> c \<le> 13"

definition to_lower :: "u8 \<Rightarrow> u8" where
  "to_lower c = (if 65 \<le> c \<and> c \<le> 90 then c + 32 else c)"

definition digit_of :: "nat \<Rightarrow> u8 \<Rightarrow> nat option" where
  "digit_of base c =
     (let d = (if 48 \<le> c \<and> c \<le> 57 then unat c - 48
               else if 97 \<le> to_lower c \<and> to_lower c \<le> 122 then unat (to_lower c) - 87 else 36)
      in if d < base then Some d else None)"

fun digits :: "nat \<Rightarrow> nat \<Rightarrow> bytes \<Rightarrow> nat" where
  "digits base acc [] = acc"
| "digits base acc (c # cs) = (case digit_of base c of None \<Rightarrow> acc | Some d \<Rightarrow> digits base (acc * base + d) cs)"

text \<open>The value as an \<open>unsigned long\<close>: \<open>ULONG_MAX\<close> when it does not fit, else negated if signed.\<close>

definition strtoul :: "nat \<Rightarrow> bytes \<Rightarrow> 64 word" where
  "strtoul base s =
     (let s = dropWhile is_space s;
          neg = (s \<noteq> [] \<and> hd s = 45);
          s = (if s \<noteq> [] \<and> (hd s = 45 \<or> hd s = 43) then tl s else s);
          hex = (take 1 s = [48] \<and> map to_lower (take 1 (drop 1 s)) = [120] \<and>
                 (case drop 2 s of [] \<Rightarrow> False | c # _ \<Rightarrow> digit_of 16 c \<noteq> None));
          (base, s) = (if base = 0 then (if hex then (16, drop 2 s) else if take 1 s = [48] then (8, s) else (10, s))
                       else (base, s));
          n = digits base 0 s
      in if n \<ge> 2 ^ 64 then - 1 else if neg then - word_of_nat n else word_of_nat n)"

text \<open>Its conversion to \<open>int\<close>, \<open>unsigned int\<close> and \<open>unsigned short\<close> on assignment. \<open>strtol\<close>, which the
  code uses once, saturates at the bounds of \<open>long\<close> instead.\<close>

abbreviation to_int :: "64 word \<Rightarrow> int" where
  "to_int x \<equiv> sint (ucast x :: u32)"


definition strcaseeq :: "bytes \<Rightarrow> bytes \<Rightarrow> bool" where
  "strcaseeq a b \<longleftrightarrow> map to_lower a = map to_lower b"

subsection \<open>YAML documents\<close>

datatype yaml_node = YAML_SCALAR_NODE bytes | YAML_SEQUENCE_NODE "int list" | YAML_MAPPING_NODE "(int \<times> int) list"

type_synonym yaml_doc = "yaml_node list"

definition yaml_document_get_node :: "yaml_doc \<Rightarrow> int \<Rightarrow> yaml_node option" where
  "yaml_document_get_node doc i =
     (if 0 < i \<and> i \<le> int (length doc) then Some (doc ! nat (i - 1)) else None)"


text \<open>The loop head every section shares: the keys with their value nodes up to the first pair that
  stops the loop. In most sections a value that is not a scalar stops it too.\<close>

fun yaml_entries :: "yaml_doc \<Rightarrow> (int \<times> int) list \<Rightarrow> (bytes \<times> yaml_node option) list" where
  "yaml_entries doc [] = []"
| "yaml_entries doc ((k, v) # ps) =
     (if k = 0 \<or> v = 0 then []
      else case yaml_document_get_node doc k of
        Some (YAML_SCALAR_NODE key) \<Rightarrow> (key, yaml_document_get_node doc v) # yaml_entries doc ps
      | _ \<Rightarrow> [])"

fun yaml_scalars :: "(bytes \<times> yaml_node option) list \<Rightarrow> (bytes \<times> bytes) list" where
  "yaml_scalars ((key, Some (YAML_SCALAR_NODE s)) # es) = (key, s) # yaml_scalars es"
| "yaml_scalars _ = []"

definition yaml_strings :: "yaml_doc \<Rightarrow> yaml_node option \<Rightarrow> (bytes \<times> bytes) list option" where
  "yaml_strings doc base =
     (case base of Some (YAML_MAPPING_NODE ps) \<Rightarrow> Some (yaml_scalars (yaml_entries doc ps)) | _ \<Rightarrow> None)"

subsection \<open>The settings\<close>

record hev_config_server =
  sv_user :: "bytes option"
  sv_pass :: "bytes option"
  sv_mark :: u32
  sv_udp_in_udp :: bool
  sv_port :: u16
  sv_pipeline :: bool
  sv_fastopen :: bool
  sv_udp_addr :: bytes
  sv_addr :: bytes

datatype log_level = HEV_LOGGER_DEBUG | HEV_LOGGER_INFO | HEV_LOGGER_WARN | HEV_LOGGER_ERROR

record config =
  cf_tun_name :: bytes
  cf_tun_mtu :: u32
  cf_multi_queue :: bool
  cf_tun_ipv4_address :: bytes
  cf_tun_ipv6_address :: bytes
  cf_tun_post_up_script :: bytes
  cf_tun_pre_down_script :: bytes
  cf_srv :: hev_config_server
  cf_mapdns_address :: u32
  cf_mapdns_port :: int
  cf_mapdns_network :: u32
  cf_mapdns_netmask :: u32
  cf_mapdns_cache_size :: int
  cf_log_file :: bytes
  cf_pid_file :: bytes
  cf_max_session_count :: int
  cf_task_stack_size :: int
  cf_tcp_buffer_size :: int
  cf_udp_recv_buffer_size :: int
  cf_udp_copy_buffer_nums :: int
  cf_connect_timeout :: int
  cf_tcp_read_write_timeout :: int
  cf_udp_read_write_timeout :: int
  cf_limit_nofile :: int
  cf_log_level :: log_level

definition config_default :: config where
  "config_default = \<lparr>cf_tun_name = [], cf_tun_mtu = 8500, cf_multi_queue = False,
     cf_tun_ipv4_address = [], cf_tun_ipv6_address = [], cf_tun_post_up_script = [], cf_tun_pre_down_script = [],
     cf_srv = \<lparr>sv_user = None, sv_pass = None, sv_mark = 0, sv_udp_in_udp = False, sv_port = 0,
       sv_pipeline = False, sv_fastopen = False, sv_udp_addr = [], sv_addr = []\<rparr>,
     cf_mapdns_address = 0, cf_mapdns_port = 0, cf_mapdns_network = 0, cf_mapdns_netmask = 0, cf_mapdns_cache_size = 0,
     cf_log_file = [], cf_pid_file = [], cf_max_session_count = 0, cf_task_stack_size = 86016,
     cf_tcp_buffer_size = 65536, cf_udp_recv_buffer_size = 524288, cf_udp_copy_buffer_nums = 10,
     cf_connect_timeout = 10000, cf_tcp_read_write_timeout = 300000, cf_udp_read_write_timeout = 60000,
     cf_limit_nofile = 65535, cf_log_level = HEV_LOGGER_WARN\<rparr>"


subsection \<open>The sections\<close>






text \<open>The loop of the socks5 section only remembers pointers to the values.\<close>

record socks5_args =
  sa_addr :: "bytes option"
  sa_port :: "bytes option"
  sa_udpm :: "bytes option"
  sa_udpa :: "bytes option"
  sa_user :: "bytes option"
  sa_pass :: "bytes option"
  sa_mark :: "bytes option"
  sa_pipe :: "bytes option"
  sa_tfso :: "bytes option"

definition socks5_args_none :: socks5_args where
  "socks5_args_none = \<lparr>sa_addr = None, sa_port = None, sa_udpm = None, sa_udpa = None, sa_user = None,
     sa_pass = None, sa_mark = None, sa_pipe = None, sa_tfso = None\<rparr>"

definition socks5_arg :: "bytes \<times> bytes \<Rightarrow> socks5_args \<Rightarrow> socks5_args" where
  "socks5_arg = (\<lambda>(key, value) a.
     if key = str ''port'' then a\<lparr>sa_port := Some value\<rparr>
     else if key = str ''address'' then a\<lparr>sa_addr := Some value\<rparr>
     else if key = str ''udp'' then a\<lparr>sa_udpm := Some value\<rparr>
     else if key = str ''udp-address'' then a\<lparr>sa_udpa := Some value\<rparr>
     else if key = str ''pipeline'' then a\<lparr>sa_pipe := Some value\<rparr>
     else if key = str ''username'' then a\<lparr>sa_user := Some value\<rparr>
     else if key = str ''password'' then a\<lparr>sa_pass := Some value\<rparr>
     else if key = str ''mark'' then a\<lparr>sa_mark := Some value\<rparr>
     else if key = str ''tcp-fastopen'' then a\<lparr>sa_tfso := Some value\<rparr>
     else a)"

text \<open>\<open>if (value) ...\<close> on a pointer.\<close>

definition if_set :: "'a option \<Rightarrow> ('a \<Rightarrow> 's \<Rightarrow> 's) \<Rightarrow> 's \<Rightarrow> 's" where
  "if_set v f s = (case v of None \<Rightarrow> s | Some x \<Rightarrow> f x s)"

definition hev_config_parse_socks5 :: "yaml_doc \<Rightarrow> yaml_node option \<Rightarrow> config \<Rightarrow> int \<times> config" where
  "hev_config_parse_socks5 doc base c =
     (case yaml_strings doc base of None \<Rightarrow> (-1, c)
      | Some kvs \<Rightarrow>
         let a = fold socks5_arg kvs socks5_args_none in
         (case (sa_port a, sa_addr a) of
            (Some port, Some addr) \<Rightarrow>
              if (sa_user a = None) \<noteq> (sa_pass a = None) then (-1, c)
              else
                let s = (cf_srv c)\<lparr>sv_addr := take 255 addr, sv_port := ucast (strtoul 10 port)\<rparr>;
                    s = if_set (sa_pipe a) (\<lambda>v s. if strcaseeq v (str ''true'') then s\<lparr>sv_pipeline := True\<rparr> else s) s;
                    s = if_set (sa_udpm a) (\<lambda>v s. if strcaseeq v (str ''udp'') then s\<lparr>sv_udp_in_udp := True\<rparr> else s) s;
                    s = if_set (sa_udpa a) (\<lambda>v s. s\<lparr>sv_udp_addr := take 255 v\<rparr>) s;
                    s = (case (sa_user a, sa_pass a) of
                           (Some u, Some p) \<Rightarrow> s\<lparr>sv_user := Some (take 255 u), sv_pass := Some (take 255 p)\<rparr> | _ \<Rightarrow> s);
                    s = if_set (sa_mark a) (\<lambda>v s. s\<lparr>sv_mark := ucast (strtoul 0 v)\<rparr>) s;
                    s = if_set (sa_tfso a) (\<lambda>v s. s\<lparr>sv_fastopen := strcaseeq v (str ''true'')\<rparr>) s
                in (0, c\<lparr>cf_srv := s\<rparr>)
          | _ \<Rightarrow> (-1, c)))"

text \<open>\<open>inet_pton (AF_INET, value, &x)\<close> stores the four bytes of the address into the integer.\<close>

definition pton_into :: "resolver \<Rightarrow> bytes \<Rightarrow> u32 \<Rightarrow> u32" where
  "pton_into R value x = (case res_pton4 R value of Some b \<Rightarrow> load32 b | None \<Rightarrow> x)"

definition mapdns_entry :: "resolver \<Rightarrow> bytes \<times> bytes \<Rightarrow> config \<Rightarrow> config" where
  "mapdns_entry R = (\<lambda>(key, value) c.
     if key = str ''address'' then c\<lparr>cf_mapdns_address := pton_into R value (cf_mapdns_address c)\<rparr>
     else if key = str ''port'' then c\<lparr>cf_mapdns_port := to_int (strtoul 10 value)\<rparr>
     else if key = str ''network'' then c\<lparr>cf_mapdns_network := pton_into R value (cf_mapdns_network c)\<rparr>
     else if key = str ''netmask'' then c\<lparr>cf_mapdns_netmask := pton_into R value (cf_mapdns_netmask c)\<rparr>
     else if key = str ''cache-size'' then c\<lparr>cf_mapdns_cache_size := to_int (strtoul 10 value)\<rparr>
     else c)"

definition hev_config_parse_mapdns :: "resolver \<Rightarrow> yaml_doc \<Rightarrow> yaml_node option \<Rightarrow> config \<Rightarrow> int \<times> config" where
  "hev_config_parse_mapdns R doc base c =
     (case yaml_strings doc base of None \<Rightarrow> (-1, c)
      | Some kvs \<Rightarrow>
         let c = fold (mapdns_entry R) kvs c
         in (0, c\<lparr>cf_mapdns_network := ntohl (cf_mapdns_network c), cf_mapdns_netmask := ntohl (cf_mapdns_netmask c)\<rparr>))"




subsection \<open>The document\<close>






subsection \<open>Access\<close>

definition string_or_null :: "bytes \<Rightarrow> bytes option" where
  "string_or_null s = (if s = [] then None else Some s)"

definition hev_config_get_tunnel_name :: "config \<Rightarrow> bytes option" where
  "hev_config_get_tunnel_name c = string_or_null (cf_tun_name c)"

definition hev_config_get_tunnel_ipv4_address :: "config \<Rightarrow> bytes option" where
  "hev_config_get_tunnel_ipv4_address c = string_or_null (cf_tun_ipv4_address c)"

definition hev_config_get_tunnel_ipv6_address :: "config \<Rightarrow> bytes option" where
  "hev_config_get_tunnel_ipv6_address c = string_or_null (cf_tun_ipv6_address c)"

definition hev_config_get_tunnel_post_up_script :: "config \<Rightarrow> bytes option" where
  "hev_config_get_tunnel_post_up_script c = string_or_null (cf_tun_post_up_script c)"

definition hev_config_get_tunnel_pre_down_script :: "config \<Rightarrow> bytes option" where
  "hev_config_get_tunnel_pre_down_script c = string_or_null (cf_tun_pre_down_script c)"

definition hev_config_get_misc_pid_file :: "config \<Rightarrow> bytes option" where
  "hev_config_get_misc_pid_file c = string_or_null (cf_pid_file c)"

definition hev_config_get_misc_log_file :: "config \<Rightarrow> bytes" where
  "hev_config_get_misc_log_file c = (if cf_log_file c = [] then str ''stderr'' else cf_log_file c)"

text \<open>What \<open>hev_socks5_tunnel_main_inner\<close> (hev-main.c) hands to the SOCKS5 library.\<close>

definition main_settings :: "config \<Rightarrow> socks5_conf \<Rightarrow> socks5_conf" where
  "main_settings c =
     hev_socks5_set_udp_recv_buffer_size (cf_udp_recv_buffer_size c) \<circ>
     hev_socks5_set_udp_timeout (cf_udp_read_write_timeout c) \<circ>
     hev_socks5_set_tcp_timeout (cf_tcp_read_write_timeout c) \<circ>
     hev_socks5_set_connect_timeout (cf_connect_timeout c)"

subsection \<open>Reading numbers\<close>

text \<open>The decimal digits of a number.\<close>

definition dec_digit :: "nat \<Rightarrow> u8" where
  "dec_digit d = word_of_nat (48 + d)"

fun decimal :: "nat \<Rightarrow> bytes" where
  "decimal n = (if n < 10 then [dec_digit n] else decimal (n div 10) @ [dec_digit (n mod 10)])"

declare decimal.simps [simp del]

lemma less_10: "d < 10 \<Longrightarrow> d \<in> {0, 1, 2, 3, 4, 5, 6, 7, 8, 9 :: nat}"
  by auto

lemma dec_digit:
  assumes "d < 10"
  shows "digit_of 10 (dec_digit d) = Some d" "\<not> is_space (dec_digit d) \<and> dec_digit d \<noteq> 45 \<and> dec_digit d \<noteq> 43"
  using less_10[OF assms] by (auto simp: digit_of_def to_lower_def dec_digit_def is_space_def)

lemma digits_append:
  "\<forall>c \<in> set xs. digit_of b c \<noteq> None \<Longrightarrow> digits b a (xs @ ys) = digits b (digits b a xs) ys"
  by (induction xs arbitrary: a) (auto split: option.splits)

lemma decimal_digits: "c \<in> set (decimal n) \<Longrightarrow> \<exists>d < 10. c = dec_digit d"
proof (induction n rule: decimal.induct)
  case (1 n)
  have "\<exists>d < 10. dec_digit (n mod 10) = dec_digit d" by (intro exI[of _ "n mod 10"]) simp
  with 1 show ?case by (subst (asm) (2) decimal.simps) (auto split: if_splits)
qed

lemma decimal_plain: "c \<in> set (decimal n) \<Longrightarrow> digit_of 10 c \<noteq> None \<and> \<not> is_space c \<and> c \<noteq> 45 \<and> c \<noteq> 43"
  using decimal_digits dec_digit by fastforce

lemma digits_decimal: "digits 10 0 (decimal n) = n"
proof (induction n rule: decimal.induct)
  case (1 n)
  have "\<forall>c \<in> set (decimal (n div 10)). digit_of 10 c \<noteq> None" using decimal_plain by blast
  with 1 show ?case
    by (subst decimal.simps) (simp add: digits_append dec_digit)
qed

lemma decimal_nonempty: "decimal n \<noteq> []"
  by (subst decimal.simps) simp

lemma strtoul_decimal: "n < 2 ^ 64 \<Longrightarrow> strtoul 10 (decimal n) = word_of_nat n"
proof -
  assume n: "n < 2 ^ 64"
  obtain c cs where d: "decimal n = c # cs" using decimal_nonempty by (cases "decimal n") auto
  then have c: "\<not> is_space c" "c \<noteq> 45" "c \<noteq> 43" using decimal_plain[of c n] by auto
  with n digits_decimal[of n] d show ?thesis by (simp add: strtoul_def Let_def)
qed


subsection \<open>The socks5 section\<close>

lemma str_inject [simp]: "str a = str b \<longleftrightarrow> a = b"
proof -
  have "inj (of_char :: char \<Rightarrow> u8)"
  proof (rule injI)
    fix x y assume "(of_char x :: u8) = of_char y"
    then have "(word_of_nat (of_char x) :: u8) = word_of_nat (of_char y)" by (simp only: of_nat_of_char)
    then have "unat (word_of_nat (of_char x) :: u8) = unat (word_of_nat (of_char y) :: u8)" by (rule arg_cong)
    then have "(of_char x :: nat) = of_char y"
      using nat_of_char_less_256[of x] nat_of_char_less_256[of y] by (simp add: unat_of_nat)
    then show "x = y" by simp
  qed
  then show ?thesis by (auto simp: str_def inj_map_eq_map)
qed

text \<open>\<open>setting kvs k\<close> is the value the last pair with the key \<open>k\<close> gives.\<close>

definition setting :: "(bytes \<times> bytes) list \<Rightarrow> string \<Rightarrow> bytes option" where
  "setting kvs k = map_of (rev kvs) (str k)"

lemma setting_snoc: "setting (kvs @ [(k, v)]) s = (if k = str s then Some v else setting kvs s)"
  by (simp add: setting_def)

lemma socks5_args_last:
  "fold socks5_arg kvs socks5_args_none = \<lparr>sa_addr = setting kvs ''address'', sa_port = setting kvs ''port'',
     sa_udpm = setting kvs ''udp'', sa_udpa = setting kvs ''udp-address'', sa_user = setting kvs ''username'',
     sa_pass = setting kvs ''password'', sa_mark = setting kvs ''mark'', sa_pipe = setting kvs ''pipeline'',
     sa_tfso = setting kvs ''tcp-fastopen''\<rparr>"
proof (induction kvs rule: rev_induct)
  case Nil
  then show ?case by (simp add: socks5_args_none_def setting_def)
next
  case (snoc e kvs)
  then show ?case by (cases e) (auto simp: setting_snoc socks5_arg_def)
qed

subsection \<open>The invariant of the settings\<close>
















subsection \<open>Properties\<close>


text \<open>A document with a \<open>socks5\<close> and a \<open>misc\<close> section.\<close>

definition config_doc :: yaml_doc where
  "config_doc = [YAML_MAPPING_NODE [(2, 3), (8, 9)],
     YAML_SCALAR_NODE (str ''socks5''), YAML_MAPPING_NODE [(4, 5), (6, 7)],
     YAML_SCALAR_NODE (str ''port''), YAML_SCALAR_NODE (decimal 1080),
     YAML_SCALAR_NODE (str ''address''), YAML_SCALAR_NODE (str ''::1''),
     YAML_SCALAR_NODE (str ''misc''), YAML_MAPPING_NODE [(10, 11)],
     YAML_SCALAR_NODE (str ''udp-copy-buffer-nums''), YAML_SCALAR_NODE (decimal 60)]"



lemma if_set_same: "(\<And>x s. g (f x s) = g s) \<Longrightarrow> g (if_set v f s) = g s"
  by (simp add: if_set_def split: option.split)

lemmas if_set_fields = if_set_same[of sv_addr] if_set_same[of sv_port] if_set_same[of sv_user] if_set_same[of sv_pass]
  if_set_same[of sv_mark]

text \<open>The socks5 section means what it says: of each key the last value counts; the section is
  refused exactly when port or address is missing or only one of user name and password is given;
  else address, port, credentials and mark are the given ones (names cut to 255 bytes, the port
  taken modulo 65536), and options that are not mentioned keep their value.\<close>

theorem config_socks5_section:
  assumes "yaml_strings doc base = Some kvs" "hev_config_parse_socks5 doc base c = (res, c')"
  shows "res = (if setting kvs ''port'' = None \<or> setting kvs ''address'' = None \<or>
        (setting kvs ''username'' = None) \<noteq> (setting kvs ''password'' = None) then -1 else 0) \<and>
    (res < 0 \<and> c' = c \<or> res = 0 \<and>
      sv_addr (cf_srv c') = take 255 (the (setting kvs ''address'')) \<and>
      sv_port (cf_srv c') = ucast (strtoul 10 (the (setting kvs ''port''))) \<and>
      sv_user (cf_srv c') = (case setting kvs ''username'' of Some u \<Rightarrow> Some (take 255 u) | None \<Rightarrow> sv_user (cf_srv c)) \<and>
      sv_pass (cf_srv c') = (case setting kvs ''password'' of Some p \<Rightarrow> Some (take 255 p) | None \<Rightarrow> sv_pass (cf_srv c)) \<and>
      sv_mark (cf_srv c') = (case setting kvs ''mark'' of Some v \<Rightarrow> ucast (strtoul 0 v) | None \<Rightarrow> sv_mark (cf_srv c)))"
proof -
  note defs = hev_config_parse_socks5_def socks5_args_last Let_def
  show ?thesis
  proof (cases "setting kvs ''port'' = None \<or> setting kvs ''address'' = None \<or>
        (setting kvs ''username'' = None) \<noteq> (setting kvs ''password'' = None)")
    case True
    with assms have "res = -1 \<and> c' = c" by (auto simp: defs split: option.splits)
    with True show ?thesis by simp
  next
    case False
    then obtain p a where pa: "setting kvs ''port'' = Some p" "setting kvs ''address'' = Some a" by auto
    have m: "sv_mark (if_set v (\<lambda>v. sv_mark_update (\<lambda>_. ucast (strtoul 0 v))) s) =
        (case v of Some v \<Rightarrow> ucast (strtoul 0 v) | None \<Rightarrow> sv_mark s)" for v s
      by (simp add: if_set_def split: option.split)
    show ?thesis
      using assms False pa
      by (cases "setting kvs ''username''"; cases "setting kvs ''password''"; cases "setting kvs ''mark''")
        (auto simp: defs if_set_fields if_distrib[of sv_addr] if_distrib[of sv_port] if_distrib[of sv_user]
          if_distrib[of sv_pass] if_distrib[of sv_mark] m)
  qed
qed

lemma length_str: "length (str s) = length s"
  by (simp add: str_def)

theorem config_socks5_section_witness:
  "\<exists>c'. hev_config_parse_socks5 config_doc (Some (YAML_MAPPING_NODE [(4, 5), (6, 7)])) config_default = (0, c') \<and>
    sv_addr (cf_srv c') = str ''::1'' \<and> sv_port (cf_srv c') = 1080"
proof -
  have k: "yaml_strings config_doc (Some (YAML_MAPPING_NODE [(4, 5), (6, 7)])) =
      Some [(str ''port'', decimal 1080), (str ''address'', str ''::1'')]"
    by (simp add: yaml_strings_def yaml_document_get_node_def config_doc_def)
  obtain res c' where r: "hev_config_parse_socks5 config_doc (Some (YAML_MAPPING_NODE [(4, 5), (6, 7)])) config_default = (res, c')"
    by fastforce
  from config_socks5_section[OF k r] r show ?thesis
    by (auto simp: setting_def strtoul_decimal length_str)
qed

text \<open>The byte order of the mapped network is converted once per \<open>mapdns\<close> section: a second section
  turns the network of the first one around.\<close>

theorem config_mapdns_twice:
  assumes "yaml_strings doc b1 = Some [(str ''network'', v)]" "res_pton4 R v = Some [198, 18, 0, 0]"
    and "yaml_strings doc b2 = Some []"
  shows "cf_mapdns_network (snd (hev_config_parse_mapdns R doc b1 c)) = 0xC6120000 \<and>
    cf_mapdns_network (snd (hev_config_parse_mapdns R doc b2 (snd (hev_config_parse_mapdns R doc b1 c)))) = 0x000012C6"
  using assms by (simp add: hev_config_parse_mapdns_def Let_def mapdns_entry_def pton_into_def load32_def ntohl_def)

end
