(* ===== verification/SessionTCP.thy ===== *)
theory SessionTCP
  imports Socks5Client RingBuffer HevUtils Config
begin

section \<open>Sessions and the TCP session (hev-socks5-session.c, hev-socks5-session-tcp.c)\<close>

text \<open>
  A session carries one intercepted connection through the proxy. Its task connects, shakes hands
  and then splices: forward from lwIP's receive queue to the proxy socket, backward from the
  socket through the ring buffer to lwIP. Between the steps of the task, where it yields, lwIP
  calls the handlers of the connection.

  \<open>tcp_pcb\<close> is lwIP's side of the connection as far as the session sees it: the receive window, all
  bytes delivered, the bytes taken by \<open>tcp_write\<close> (by reference, so the ring buffer must keep them
  until they are acknowledged), the number of acknowledged bytes, and whether it was closed,
  aborted or freed. \<open>pcb_writeq\<close> and \<open>pcb_outq\<close> have the results of \<open>tcp_write\<close> and \<open>tcp_output\<close>. A call
  on a freed connection is undefined.

  \<open>tcp_deliver\<close> delivers an event of lwIP by calling the handler the way lwIP does: it never delivers
  more than the receive window, nothing after the end of the stream, acknowledges only what was
  written and is silent once the connection is freed. Events that are impossible in a state
  are skipped, so that every list of events is a behaviour of lwIP.
\<close>

subsection \<open>Sessions in general\<close>

definition hev_socks5_session_bind ::
  "(int \<Rightarrow> sock_opt \<Rightarrow> int) \<Rightarrow> hev_config_server \<Rightarrow> 'a hev_socks5_scheme \<Rightarrow> int \<Rightarrow> sockaddr6 \<Rightarrow> int" where
  "hev_socks5_session_bind setopt srv self fd dest =
     (if sv_mark srv \<noteq> 0 \<and> set_sock_mark setopt fd (sv_mark srv) < 0 then -1 else 0)"

text \<open>\<open>hev_task_wakeup\<close> on the task of the session, which must have been set.\<close>

definition hev_task_wakeup :: "ptr \<Rightarrow> unit option" where
  "hev_task_wakeup task = check (task \<noteq> NULL)"

text \<open>\<open>Inl\<close> is an early return, \<open>Inr\<close> the result of the splicer of the class.\<close>

definition hev_socks5_session_run ::
  "resolver \<Rightarrow> socks5_conf \<Rightarrow> hev_config_server \<Rightarrow> ('a hev_socks5_client_scheme) client_class \<Rightarrow>
    ('a hev_socks5_client_scheme \<Rightarrow> net \<Rightarrow> 'r option) \<Rightarrow> 'a hev_socks5_client_scheme \<Rightarrow> net \<Rightarrow>
    ('a hev_socks5_client_scheme \<times> net + 'r) option" where
  "hev_socks5_session_run Rs conf srv klass splicer self w = do {
     (res, self, w) \<leftarrow> hev_socks5_client_connect Rs conf klass (sv_addr srv) (uint (sv_port srv)) self w;
     if res < 0 then Some (Inl (self, w))
     else do {
       let self = (if sv_user srv \<noteq> None \<and> sv_pass srv \<noteq> None
                   then hev_socks5_client_set_auth (sv_user srv) (sv_pass srv) self else self);
       (res, self, w) \<leftarrow> hev_socks5_client_handshake conf klass (sv_pipeline srv) self w;
       if res < 0 then Some (Inl (self, w))
       else map_option Inr (splicer self w)
     }
   }"

subsection \<open>lwIP buffers (third-part/lwip/src/core/pbuf.c)\<close>

text \<open>A chain of buffers is the list of the payloads; \<open>tot_len\<close> of its head has 16 bits.\<close>

type_synonym pbuf = "bytes list"

definition pbuf_tot_len :: "pbuf \<Rightarrow> u16" where
  "pbuf_tot_len p = word_of_nat (length (concat p))"

definition pbuf_cat :: "pbuf \<Rightarrow> pbuf \<Rightarrow> pbuf" where
  "pbuf_cat h t = h @ t"

fun pbuf_free_header :: "pbuf \<Rightarrow> nat \<Rightarrow> pbuf" where
  "pbuf_free_header [] free_left = []"
| "pbuf_free_header (p # q) free_left =
     (if free_left = 0 then p # q
      else if free_left \<ge> length p then pbuf_free_header q (free_left - length p)
      else drop free_left p # q)"

subsection \<open>The connection of lwIP\<close>

record tcp_pcb =
  pcb_local_ip :: ip_addr
  pcb_local_port :: u16
  pcb_wnd_max :: nat
  pcb_rcv_wnd :: nat
  pcb_rx :: bytes
  pcb_rx_fin :: bool
  pcb_written :: bytes
  pcb_acked :: nat
  pcb_tx_fin :: bool
  pcb_handlers :: bool
  pcb_aborted :: bool
  pcb_gone :: bool
  pcb_writeq :: "int list"
  pcb_outq :: "int list"

abbreviation (input) ERR_OK :: int where "ERR_OK \<equiv> 0"
abbreviation (input) ERR_WOULDBLOCK :: int where "ERR_WOULDBLOCK \<equiv> -7"

text \<open>\<open>tcp_recved\<close> opens the window again, at most to its full size; the length has 16 bits.\<close>

definition tcp_recved :: "tcp_pcb \<Rightarrow> nat \<Rightarrow> tcp_pcb option" where
  "tcp_recved pcb len = do {
     check (\<not> pcb_gone pcb);
     Some (pcb\<lparr>pcb_rcv_wnd := min (pcb_wnd_max pcb) (pcb_rcv_wnd pcb + len mod 65536)\<rparr>)
   }"

definition tcp_write :: "tcp_pcb \<Rightarrow> bytes \<Rightarrow> (int \<times> tcp_pcb) option" where
  "tcp_write pcb data = do {
     check (\<not> pcb_gone pcb);
     let (err, q) = pop ERR_OK (pcb_writeq pcb);
     let pcb = pcb\<lparr>pcb_writeq := q\<rparr>;
     Some (err, if err = ERR_OK
       then pcb\<lparr>pcb_written := pcb_written pcb @ take (length data mod 65536) data\<rparr> else pcb)
   }"

definition tcp_output :: "tcp_pcb \<Rightarrow> (int \<times> tcp_pcb) option" where
  "tcp_output pcb = do {
     check (\<not> pcb_gone pcb);
     let (err, q) = pop ERR_OK (pcb_outq pcb);
     Some (err, pcb\<lparr>pcb_outq := q\<rparr>)
   }"

definition tcp_shutdown_tx :: "tcp_pcb \<Rightarrow> tcp_pcb option" where
  "tcp_shutdown_tx pcb = do {
     check (\<not> pcb_gone pcb);
     Some (pcb\<lparr>pcb_tx_fin := True\<rparr>)
   }"

subsection \<open>The object\<close>

text \<open>\<open>ts_pcb\<close> tells whether \<open>self->pcb\<close> is set; \<open>ts_shut\<close> records \<open>shutdown (fd, SHUT_WR)\<close>.\<close>

record hev_socks5_session_tcp = hev_socks5_client_tcp +
  ts_task :: ptr
  ts_queue :: pbuf
  ts_pcb :: bool
  ts_buffer :: "ring_buffer option"
  ts_pcb_eof :: bool
  ts_shut :: bool

definition hev_socks5_session_terminate :: "'a hev_socks5_session_tcp_scheme \<Rightarrow> 'a hev_socks5_session_tcp_scheme option" where
  "hev_socks5_session_terminate self = do {
     let self = hev_socks5_set_timeout 0 self;
     hev_task_wakeup (ts_task self);
     Some self
   }"

text \<open>\<open>writev\<close> and \<open>readv\<close> on the non-blocking proxy socket; they fail on a descriptor that is not open.\<close>

definition sys_writev :: "int \<Rightarrow> bytes list \<Rightarrow> net \<Rightarrow> nat sys_ret \<times> net" where
  "sys_writev fd iov w =
     (if fd \<in> set (fds w)
      then case sys_send (concat iov) (sk w fd) of (r, s) \<Rightarrow> (r, w\<lparr>sk := (sk w)(fd := s)\<rparr>)
      else (SysErr, w))"

definition sys_readv :: "int \<Rightarrow> iovec list \<Rightarrow> net \<Rightarrow> bytes sys_ret \<times> net" where
  "sys_readv fd iov w =
     (if fd \<in> set (fds w)
      then case sys_recv (iov_total iov) (sk w fd) of (r, s) \<Rightarrow> (r, w\<lparr>sk := (sk w)(fd := s)\<rparr>)
      else (SysErr, w))"

subsection \<open>Splicing\<close>

type_synonym tcp_state = "hev_socks5_session_tcp \<times> net \<times> tcp_pcb"

definition tcp_splice_f :: "tcp_state \<Rightarrow> (int \<times> tcp_state) option" where
  "tcp_splice_f = (\<lambda>(self, w, pcb). do {
     let iov = take 64 (ts_queue self);
     let res = (if ts_queue self \<noteq> [] then 1 else if ts_pcb_eof self then -1 else 0);
     if iov \<noteq> [] then
       (case sys_writev (s5_fd self) iov w of
          (SysAgain _, w) \<Rightarrow> Some (0, self, w, pcb)
        | (SysErr, w) \<Rightarrow> Some (-1, self, w, pcb)
        | (SysOk s, w) \<Rightarrow>
            if s = 0 then Some (-1, self, w, pcb)
            else do {
              let self = self\<lparr>ts_queue := pbuf_free_header (ts_queue self) (s mod 65536)\<rparr>;
              pcb \<leftarrow> (if ts_pcb self then tcp_recved pcb s else Some pcb);
              Some (1, self, w, pcb)
            })
     else if res < 0 then Some (res, self\<lparr>ts_shut := True\<rparr>, w, pcb)
     else Some (res, self, w, pcb)
   })"

fun tcp_write_iov :: "bytes \<Rightarrow> iovec list \<Rightarrow> tcp_pcb \<Rightarrow> (int \<times> tcp_pcb) option" where
  "tcp_write_iov d [] pcb = Some (ERR_OK, pcb)"
| "tcp_write_iov d (v # vs) pcb = do {
     (e, pcb) \<leftarrow> tcp_write pcb (take (iov_len v) (drop (iov_base v) d));
     (es, pcb) \<leftarrow> tcp_write_iov d vs pcb;
     Some (e OR es, pcb)
   }"

definition splice_fill :: "int \<Rightarrow> ring_buffer \<Rightarrow> net \<Rightarrow> int \<times> ring_buffer \<times> net" where
  "splice_fill fd buf w =
     (let iov = hev_ring_buffer_writing buf
      in if iov = [] then (0, buf, w)
         else case sys_readv fd iov w of
           (SysAgain _, w) \<Rightarrow> (0, buf, w)
         | (SysErr, w) \<Rightarrow> (-1, buf, w)
         | (SysOk bs, w) \<Rightarrow>
             if bs = [] then (-1, buf, w)
             else (1, hev_ring_buffer_write_finish (buf\<lparr>rdata := scatter (rdata buf) iov bs\<rparr>) (length bs), w))"

definition tcp_splice_b :: "tcp_state \<Rightarrow> (int \<times> tcp_state) option" where
  "tcp_splice_b = (\<lambda>(self, w, pcb). do {
     buf \<leftarrow> ts_buffer self;
     let (res, buf, w) = splice_fill (s5_fd self) buf w;
     if \<not> ts_pcb self then Some (-1, self\<lparr>ts_buffer := Some buf\<rparr>, w, pcb)
     else do {
       let iov = hev_ring_buffer_reading buf;
       (res, err, buf, pcb) \<leftarrow>
         (if iov \<noteq> [] then do {
            (err, pcb) \<leftarrow> tcp_write_iov (rdata buf) iov pcb;
            let buf = hev_ring_buffer_read_finish buf (iov_total iov);
            (e, pcb) \<leftarrow> tcp_output pcb;
            Some (1, err OR e, buf, pcb)
          } else if res < 0 then do {
            pcb \<leftarrow> tcp_shutdown_tx pcb;
            Some (res, ERR_OK, buf, pcb)
          } else Some (res, ERR_OK, buf, pcb));
       Some (if err \<noteq> ERR_OK then -1 else res, self\<lparr>ts_buffer := Some buf\<rparr>, w, pcb)
     }
   })"

subsection \<open>The handlers\<close>

definition tcp_recv_handler ::
  "hev_socks5_session_tcp \<Rightarrow> tcp_pcb \<Rightarrow> pbuf option \<Rightarrow> (int \<times> hev_socks5_session_tcp) option" where
  "tcp_recv_handler self pcb p =
     (let wake = (\<lambda>self. do { hev_task_wakeup (ts_task self); Some (ERR_OK, self) })
      in case p of
           Some q \<Rightarrow>
             if ts_queue self = [] then wake (self\<lparr>ts_queue := q\<rparr>)
             else if unat (pbuf_tot_len (ts_queue self)) > pcb_wnd_max pcb then Some (ERR_WOULDBLOCK, self)
             else wake (self\<lparr>ts_queue := pbuf_cat (ts_queue self) q\<rparr>)
         | None \<Rightarrow> wake (self\<lparr>ts_pcb_eof := True\<rparr>))"

definition tcp_sent_handler :: "hev_socks5_session_tcp \<Rightarrow> nat \<Rightarrow> hev_socks5_session_tcp option" where
  "tcp_sent_handler self len = do {
     buf \<leftarrow> ts_buffer self;
     hev_task_wakeup (ts_task self);
     Some (self\<lparr>ts_buffer := Some (hev_ring_buffer_read_release buf len)\<rparr>)
   }"

definition tcp_err_handler :: "hev_socks5_session_tcp \<Rightarrow> hev_socks5_session_tcp option" where
  "tcp_err_handler self = hev_socks5_session_terminate (self\<lparr>ts_pcb := False\<rparr>)"

text \<open>An event: data or the end of the stream arrives, written bytes are acknowledged, the
  connection fails, or the engine terminates the session.\<close>

datatype tcp_event = EvRecv pbuf | EvFin | EvSent nat | EvErr | EvTerminate

fun tcp_deliver :: "tcp_event \<Rightarrow> hev_socks5_session_tcp \<times> tcp_pcb \<Rightarrow> (hev_socks5_session_tcp \<times> tcp_pcb) option" where
  "tcp_deliver (EvRecv p) (self, pcb) =
     (if pcb_gone pcb \<or> \<not> pcb_handlers pcb \<or> pcb_rx_fin pcb \<or> [] \<in> set p \<or> p = [] \<or>
         pcb_rcv_wnd pcb < length (concat p) then Some (self, pcb)
      else do {
        (err, self) \<leftarrow> tcp_recv_handler self pcb (Some p);
        Some (self, if err = ERR_OK
          then pcb\<lparr>pcb_rx := pcb_rx pcb @ concat p, pcb_rcv_wnd := pcb_rcv_wnd pcb - length (concat p)\<rparr> else pcb)
      })"
| "tcp_deliver EvFin (self, pcb) =
     (if pcb_gone pcb \<or> \<not> pcb_handlers pcb \<or> pcb_rx_fin pcb then Some (self, pcb)
      else do {
        (err, self) \<leftarrow> tcp_recv_handler self pcb None;
        Some (self, pcb\<lparr>pcb_rx_fin := True\<rparr>)
      })"
| "tcp_deliver (EvSent n) (self, pcb) =
     (if pcb_gone pcb \<or> \<not> pcb_handlers pcb \<or> n = 0 \<or> length (pcb_written pcb) < pcb_acked pcb + n then Some (self, pcb)
      else do {
        self \<leftarrow> tcp_sent_handler self n;
        Some (self, pcb\<lparr>pcb_acked := pcb_acked pcb + n\<rparr>)
      })"
| "tcp_deliver EvErr (self, pcb) =
     (if pcb_gone pcb \<or> \<not> pcb_handlers pcb then Some (self, pcb)
      else do {
        self \<leftarrow> tcp_err_handler self;
        Some (self, pcb\<lparr>pcb_gone := True\<rparr>)
      })"
| "tcp_deliver EvTerminate (self, pcb) = do {
     self \<leftarrow> hev_socks5_session_terminate self;
     Some (self, pcb)
   }"

fun tcp_deliver_all :: "tcp_event list \<Rightarrow> hev_socks5_session_tcp \<times> tcp_pcb \<Rightarrow> (hev_socks5_session_tcp \<times> tcp_pcb) option" where
  "tcp_deliver_all [] s = Some s"
| "tcp_deliver_all (e # es) s = tcp_deliver e s \<bind> tcp_deliver_all es"

subsection \<open>The splicer\<close>

text \<open>
  A round is one suspension of the task: the time that remains of the timeout when it is woken up
  (used only when it waits with a timeout, of which no more can remain) and the events that lwIP and the engine deliver meanwhile. With no rounds left
  the task is still suspended: the result of the loops is then \<open>False\<close>, else \<open>True\<close>.
\<close>

type_synonym round = "int \<times> tcp_event list"

definition task_io_yielder ::
  "yield_type \<Rightarrow> round \<Rightarrow> tcp_state \<Rightarrow> (int \<times> tcp_state) option" where
  "task_io_yielder type = (\<lambda>(w_sleep, evs) (self, w, pcb). do {
     let res = hev_socks5_task_io_yielder type (s5_timeout self) (min (s5_timeout self) w_sleep);
     (self, pcb) \<leftarrow> tcp_deliver_all evs (self, pcb);
     Some (res, self, w, pcb)
   })"

fun splice_loop :: "int \<Rightarrow> int \<Rightarrow> round list \<Rightarrow> tcp_state \<Rightarrow> (bool \<times> round list \<times> tcp_state) option" where
  "splice_loop res_f res_b rounds s = do {
     (res_f, s) \<leftarrow> (if res_f \<ge> 0 then tcp_splice_f s else Some (res_f, s));
     (res_b, s) \<leftarrow> (if res_b \<ge> 0 then tcp_splice_b s else Some (res_b, s));
     let go_on = (\<lambda>type. case rounds of
         [] \<Rightarrow> Some (False, [], s)
       | r # rs \<Rightarrow> do {
           (res, s) \<leftarrow> task_io_yielder type r s;
           if res < 0 then Some (True, rs, s) else splice_loop res_f res_b rs s
         });
     if res_f > 0 \<or> res_b > 0 then go_on HEV_TASK_YIELD
     else if res_f AND res_b = 0 then go_on HEV_TASK_WAITIO
     else Some (True, rounds, s)
   }"

declare splice_loop.simps [simp del]

fun drain_loop :: "round list \<Rightarrow> tcp_state \<Rightarrow> (bool \<times> tcp_state) option" where
  "drain_loop rounds (self, w, pcb) = do {
     if \<not> ts_pcb self then Some (True, self, w, pcb)
     else do {
       buf \<leftarrow> ts_buffer self;
       if hev_ring_buffer_get_use_size buf = 0 then Some (True, self, w, pcb)
       else case rounds of
         [] \<Rightarrow> Some (False, self, w, pcb)
       | r # rs \<Rightarrow> do {
           (res, s) \<leftarrow> task_io_yielder HEV_TASK_WAITIO r (self, w, pcb);
           if res < 0 then Some (True, s) else drain_loop rs s
         }
     }
   }"

declare drain_loop.simps [simp del]


subsection \<open>Construction and destruction\<close>

definition hev_socks5_session_tcp_construct ::
  "mapped_dns option \<Rightarrow> bytes \<Rightarrow> hev_socks5_session_tcp \<Rightarrow> tcp_pcb \<Rightarrow> net \<Rightarrow>
    (int \<times> hev_socks5_session_tcp \<times> tcp_pcb \<times> net \<times> mapped_dns option) option" where
  "hev_socks5_session_tcp_construct dns stack self pcb w = do {
     (res, addr, dns) \<leftarrow> hev_socks5_addr_from_lwip dns stack (pcb_local_ip pcb) (pcb_local_port pcb);
     if res < 0 then Some (-1, self, pcb, w, dns)
     else do {
       (res, self, w) \<leftarrow> hev_socks5_client_tcp_construct self addr w;
       if res < 0 then Some (-1, self, pcb, w, dns)
       else Some (0, self\<lparr>ts_pcb := True\<rparr>, pcb\<lparr>pcb_handlers := True\<rparr>, w, dns)
     }
   }"

definition session_tcp_zero :: hev_socks5_session_tcp where
  "session_tcp_zero = \<lparr>s5_fd = 0, s5_timeout = 0, s5_udp_associated = False,
     s5_type = HEV_SOCKS5_TYPE_NONE, s5_family = AF_UNSPEC, auth_user = None, auth_pass = None,
     tcp_addr = None, ts_task = NULL, ts_queue = [], ts_pcb = False, ts_buffer = None, ts_pcb_eof = False, ts_shut = False\<rparr>"

definition hev_socks5_session_tcp_new ::
  "mapped_dns option \<Rightarrow> bytes \<Rightarrow> tcp_pcb \<Rightarrow> net \<Rightarrow>
    (hev_socks5_session_tcp option \<times> tcp_pcb \<times> net \<times> mapped_dns option) option" where
  "hev_socks5_session_tcp_new dns stack pcb w = do {
     let (ok, w) = sys_malloc w;
     if \<not> ok then Some (None, pcb, w, dns)
     else do {
       (res, self, pcb, w, dns) \<leftarrow> hev_socks5_session_tcp_construct dns stack session_tcp_zero pcb w;
       if res < 0 then do {
         w \<leftarrow> hev_free w;
         Some (None, pcb, w, dns)
       } else Some (Some self, pcb, w, dns)
     }
   }"

text \<open>\<open>tcp_abort\<close> frees the connection; the handlers are removed before, so it calls none. Freeing
  the queue only gives buffers back to lwIP.\<close>

definition hev_socks5_session_tcp_destruct ::
  "hev_socks5_session_tcp \<Rightarrow> net \<Rightarrow> tcp_pcb \<Rightarrow> (net \<times> tcp_pcb) option" where
  "hev_socks5_session_tcp_destruct self w pcb = do {
     pcb \<leftarrow> (if ts_pcb self then do {
         check (\<not> pcb_gone pcb);
         Some (pcb\<lparr>pcb_handlers := False, pcb_aborted := True, pcb_gone := True\<rparr>)
       } else Some pcb);
     w \<leftarrow> hev_socks5_client_tcp_destruct self w;
     Some (w, pcb)
   }"

definition hev_socks5_session_tcp_class ::
  "(int \<Rightarrow> sock_opt \<Rightarrow> int) \<Rightarrow> hev_config_server \<Rightarrow> ('a hev_socks5_client_tcp_scheme) client_class" where
  "hev_socks5_session_tcp_class setopt srv =
     hev_socks5_client_tcp_class\<lparr>cl_binder := hev_socks5_session_bind setopt srv\<rparr>"

subsection \<open>One step on the socket\<close>

text \<open>All the data a trace still has, whatever lies between.\<close>

fun rx_bytes :: "rx_ev list \<Rightarrow> bytes" where
  "rx_bytes [] = []"
| "rx_bytes (RxData bs # q) = bs @ rx_bytes q"
| "rx_bytes (_ # q) = rx_bytes q"

abbreviation sock_rest :: "int \<Rightarrow> net \<Rightarrow> bytes" where
  "sock_rest fd w \<equiv> rx_bytes (rxq (sk w fd))"

lemma sys_writev_cases:
  assumes "sys_writev fd iov w = (r, w')"
  shows "sock_rest fd w' = sock_rest fd w"
    "r = SysOk n \<Longrightarrow> n \<le> length (concat iov) \<and> net_out fd w' = net_out fd w @ take n (concat iov)"
    "\<forall>n. r \<noteq> SysOk n \<Longrightarrow> net_out fd w' = net_out fd w"
  using assms by (auto simp: sys_writev_def sys_send_def min_def split: if_splits prod.splits list.splits tx_ev.splits)

lemma sys_readv_cases:
  assumes "sys_readv fd iov w = (r, w')"
  shows "net_out fd w' = net_out fd w"
    "r = SysOk bs \<Longrightarrow> length bs \<le> iov_total iov \<and> sock_rest fd w = bs @ sock_rest fd w'"
    "\<forall>bs. r \<noteq> SysOk bs \<Longrightarrow> sock_rest fd w' = sock_rest fd w"
  using assms by (auto simp: sys_readv_def sys_recv_def split: if_splits prod.splits list.splits rx_ev.splits)

lemma concat_pbuf_free_header [simp]: "concat (pbuf_free_header q n) = drop n (concat q)"
  by (induction q n rule: pbuf_free_header.induct) auto



lemma length_concat_take: "length (concat (take k q)) \<le> length (concat q)"
  by (metis append_take_drop_id concat_append le_add1 length_append)

context byte_ring
begin

lemma pass_all:
  "ok r \<Longrightarrow> ok (pass r (length (queued r))) \<and> cap (pass r (length (queued r))) = cap r \<and>
    queued (pass r (length (queued r))) = [] \<and> flight (pass r (length (queued r))) = flight r @ queued r"
  using pass_ok[of r "length (queued r)"] by simp

end

text \<open>Filling the ring buffer from the socket.\<close>

lemma splice_fill:
  assumes ok: "ring_ok r" and f: "splice_fill fd r w = (res, r', w')"
  shows "ring_ok r' \<and> max_size r' = max_size r \<and> inflight r' = inflight r \<and> net_out fd w' = net_out fd w \<and>
    unread r @ sock_rest fd w = unread r' @ sock_rest fd w'"
proof (cases "hev_ring_buffer_writing r = []")
  case True
  with f ok show ?thesis by (simp add: splice_fill_def)
next
  case False
  obtain s w1 where s: "sys_readv fd (hev_ring_buffer_writing r) w = (s, w1)" by fastforce
  note c = sys_readv_cases[OF s]
  show ?thesis
  proof (cases "\<exists>bs. s = SysOk bs \<and> bs \<noteq> []")
    case True
    then obtain bs where bs: "s = SysOk bs" "bs \<noteq> []" by blast
    from c(2)[OF bs(1)] have len: "length bs \<le> iov_total (hev_ring_buffer_writing r)" by simp
    then have "length (inflight r) + length (unread r) + length bs \<le> max_size r"
      using hev_ring_buffer_writing_total[OF ok] ring_okD[OF ok] by simp
    from rb.store_ok[OF ok this] bs c s f False show ?thesis
      by (auto simp: splice_fill_def ring_store_def Let_def)
  next
    case no: False
    with c s f False ok show ?thesis
      by (auto simp: splice_fill_def Let_def split: sys_ret.splits if_splits)
  qed
qed








lemma reading_len:
  assumes "ring_ok r" "v \<in> set (hev_ring_buffer_reading r)"
  shows "iov_len v \<le> max_size r"
  using ring_okD[OF assms(1)] assms(2) by (auto simp: hev_ring_buffer_reading_def Let_def split: if_splits)

lemma reading_total: "ring_ok r \<Longrightarrow> iov_total (hev_ring_buffer_reading r) = length (unread r)"
  using ring_okD[of r] by (simp add: hev_ring_buffer_reading_def Let_def iov_total_def)


subsection \<open>The invariant\<close>







subsection \<open>Every run keeps the invariant\<close>









subsection \<open>A failed connection ends the session\<close>

text \<open>After lwIP reported an error there is no connection, and the timeout is 0. What is queued is
  still sent; every turn of the loop sends something, ends or would have to wait.\<close>

definition tcp_failed :: "tcp_state \<Rightarrow> bool" where
  "tcp_failed = (\<lambda>(self, w, pcb). \<not> ts_pcb self \<and> pcb_gone pcb \<and> s5_timeout self = 0 \<and> ts_task self \<noteq> NULL \<and>
     ts_buffer self \<noteq> None \<and> length (concat (ts_queue self)) \<le> 65535)"

definition to_send :: "tcp_state \<Rightarrow> nat" where
  "to_send = (\<lambda>(self, w, pcb). length (concat (ts_queue self)))"

lemma failed_splice_f:
  assumes "tcp_failed s"
  shows "\<exists>res s'. tcp_splice_f s = Some (res, s') \<and> tcp_failed s' \<and> res \<in> {-1, 0, 1} \<and>
    to_send s' \<le> to_send s \<and> (0 < res \<longrightarrow> to_send s' < to_send s)"
proof -
  obtain self w pcb where s: "s = (self, w, pcb)" by (cases s) auto
  obtain r w1 where r: "sys_writev (s5_fd self) (take 64 (ts_queue self)) w = (r, w1)" by fastforce
  note i = assms[unfolded s tcp_failed_def]
  show ?thesis
  proof (cases "\<exists>n. r = SysOk n \<and> n \<noteq> 0 \<and> ts_queue self \<noteq> []")
    case True
    then obtain n where n: "r = SysOk n" "n \<noteq> 0" "ts_queue self \<noteq> []" by blast
    from sys_writev_cases(2)[OF r n(1)] length_concat_take[of 64 "ts_queue self"]
    have le: "n \<le> length (concat (ts_queue self))" "0 < n" using n(2) by linarith+
    have q: "length (concat (ts_queue self)) \<le> 65535" using i by blast
    with le have m: "n mod 65536 = n" "length (concat (ts_queue self)) - n \<le> 65535" by (simp, linarith)
    have "length (concat (ts_queue self)) - n < length (concat (ts_queue self))" using le by linarith
    with n r i m show ?thesis by (simp add: s tcp_splice_f_def tcp_failed_def to_send_def)
  next
    case False
    with r i show ?thesis
      by (cases "ts_queue self = []")
        (auto simp: s tcp_splice_f_def tcp_failed_def to_send_def split: sys_ret.split)
  qed
qed

lemma failed_splice_b:
  assumes "tcp_failed s"
  shows "\<exists>s'. tcp_splice_b s = Some (-1, s') \<and> tcp_failed s' \<and> to_send s' = to_send s"
proof -
  obtain self w pcb where s: "s = (self, w, pcb)" by (cases s) auto
  from assms obtain r where b: "ts_buffer self = Some r" by (auto simp: s tcp_failed_def)
  obtain res r1 w1 where "splice_fill (s5_fd self) r w = (res, r1, w1)" by (metis prod_cases3)
  with b assms show ?thesis by (simp add: s tcp_splice_b_def tcp_failed_def to_send_def)
qed

lemma failed_yielder:
  assumes "tcp_failed s"
  shows "\<exists>res s'. task_io_yielder type r s = Some (res, s') \<and> tcp_failed s' \<and> to_send s' = to_send s \<and>
    (type = HEV_TASK_WAITIO \<longrightarrow> res < 0)"
proof -
  obtain self w pcb where s: "s = (self, w, pcb)" by (cases s) auto
  obtain sl evs where r: "r = (sl, evs)" by fastforce
  have "\<exists>self'. tcp_deliver_all evs (self, pcb) = Some (self', pcb) \<and> tcp_failed (self', w, pcb) \<and>
      to_send (self', w, pcb) = to_send s" using assms unfolding s
  proof (induction evs arbitrary: self)
    case (Cons e evs)
    have "\<exists>self'. tcp_deliver e (self, pcb) = Some (self', pcb) \<and> tcp_failed (self', w, pcb) \<and>
        to_send (self', w, pcb) = to_send (self, w, pcb)"
      using Cons.prems by (cases e)
        (auto simp: tcp_failed_def to_send_def hev_socks5_session_terminate_def hev_socks5_set_timeout_def hev_task_wakeup_def)
    then obtain self1 where "tcp_deliver e (self, pcb) = Some (self1, pcb)" "tcp_failed (self1, w, pcb)"
      "to_send (self1, w, pcb) = to_send (self, w, pcb)" by blast
    with Cons.IH[of self1] show ?case by simp
  qed simp
  then obtain self' where "tcp_deliver_all evs (self, pcb) = Some (self', pcb)" "tcp_failed (self', w, pcb)"
    "to_send (self', w, pcb) = to_send s" by blast
  moreover have "s5_timeout self = 0" using assms by (simp add: s tcp_failed_def)
  ultimately show ?thesis by (auto simp: s r task_io_yielder_def hev_socks5_task_io_yielder_def)
qed

lemma failed_loop:
  assumes "tcp_failed s" "to_send s < length rounds" "rf \<in> {-1, 0, 1}" "rb \<in> {-1, 0, 1}"
  shows "\<exists>rs s'. splice_loop rf rb rounds s = Some (True, rs, s') \<and> tcp_failed s'"
  using assms
proof (induction rounds arbitrary: rf rb s)
  case (Cons r rs rf rb s)
  obtain f s1 where f: "(if rf \<ge> 0 then tcp_splice_f s else Some (rf, s)) = Some (f, s1)"
    "tcp_failed s1" "f \<in> {-1, 0, 1}" "to_send s1 \<le> to_send s" "0 < f \<Longrightarrow> to_send s1 < to_send s"
    using failed_splice_f[OF Cons.prems(1)] Cons.prems by (cases "rf \<ge> 0") auto
  obtain s2 where b: "(if rb \<ge> 0 then tcp_splice_b s1 else Some (rb, s1)) = Some (-1, s2)"
    "tcp_failed s2" "to_send s2 = to_send s1"
    using failed_splice_b[OF f(2)] f Cons.prems by (cases "rb \<ge> 0") auto
  note eq = f(1) b(1)
  consider "f = 1" | "f = 0" | "f = -1" using f(3) by auto
  then show ?case
  proof cases
    case 1
    from failed_yielder[OF b(2), of HEV_TASK_YIELD r] obtain res s3 where
      y: "task_io_yielder HEV_TASK_YIELD r s2 = Some (res, s3)" "tcp_failed s3" "to_send s3 = to_send s2" by blast
    have "to_send s3 < length rs" using y(3) b(3) f(5) 1 Cons.prems(2) by simp
    from Cons.IH[OF y(2) this, of 1 "-1"] obtain rs' s4 where "splice_loop 1 (-1) rs s3 = Some (True, rs', s4)" "tcp_failed s4" by auto
    moreover have "splice_loop rf rb (r # rs) s = (if res < 0 then Some (True, rs, s3) else splice_loop 1 (-1) rs s3)"
      using y(1) eq 1 by (subst splice_loop.simps) simp
    ultimately show ?thesis using y(2) by (cases "res < 0") auto
  next
    case 2
    from failed_yielder[OF b(2), of HEV_TASK_WAITIO r] obtain res s3 where
      "task_io_yielder HEV_TASK_WAITIO r s2 = Some (res, s3)" "tcp_failed s3" "res < 0" by blast
    with eq 2 show ?thesis by (subst splice_loop.simps) simp
  next
    case 3
    with eq b(2) show ?thesis by (subst splice_loop.simps) simp
  qed
qed simp

subsection \<open>Properties\<close>


definition session_example :: hev_socks5_session_tcp where
  "session_example = session_tcp_zero\<lparr>s5_fd := 5, s5_timeout := 300000, ts_task := 64, ts_pcb := True, ts_queue := [[1, 2]]\<rparr>"

definition pcb_example :: tcp_pcb where
  "pcb_example = \<lparr>pcb_local_ip = \<lparr>ip_bytes = replicate 16 0, ip_type = IPADDR_TYPE_V4\<rparr>, pcb_local_port = 80,
     pcb_wnd_max = 65528, pcb_rcv_wnd = 65526, pcb_rx = [1, 2], pcb_rx_fin = False, pcb_written = [], pcb_acked = 0,
     pcb_tx_fin = False, pcb_handlers = True, pcb_aborted = False, pcb_gone = False, pcb_writeq = [0, 0], pcb_outq = []\<rparr>"





text \<open>C25: a session whose connection failed ends. After lwIP's error handler ran, the loop still sends
  what is queued, but it needs no more turns than there are bytes to send, and one: it neither spins
  nor waits for a timeout, whatever the proxy does.\<close>

theorem tcp_session_ends_after_error:
  assumes "tcp_err_handler self = Some self'" "ts_buffer self \<noteq> None" "pcb_gone pcb" "length (concat (ts_queue self)) \<le> 65535"
    and "length (concat (ts_queue self)) < length rounds" "rf \<in> {-1, 0, 1}" "rb \<in> {-1, 0, 1}"
  shows "\<exists>rs s'. splice_loop rf rb rounds (self', w, pcb) = Some (True, rs, s') \<and> drain_loop rs s' = Some (True, s')"
proof -
  from assms(1-4) have f: "tcp_failed (self', w, pcb)" "to_send (self', w, pcb) = length (concat (ts_queue self))"
    by (auto simp: tcp_failed_def to_send_def tcp_err_handler_def hev_socks5_session_terminate_def
        hev_socks5_set_timeout_def hev_task_wakeup_def split: if_splits)
  with failed_loop[OF f(1) _ assms(6,7), of rounds] assms(5) obtain rs s'
    where l: "splice_loop rf rb rounds (self', w, pcb) = Some (True, rs, s')" "tcp_failed s'" by auto
  obtain a b c where s': "s' = (a, b, c)" by (cases s') auto
  have "drain_loop rs s' = Some (True, s')" using l(2) unfolding s' by (subst drain_loop.simps) (simp add: tcp_failed_def)
  with l(1) show ?thesis by blast
qed

theorem tcp_session_ends_after_error_witness:
  "\<exists>self' rs s'. tcp_err_handler (session_example\<lparr>ts_buffer := Some ring_example\<rparr>) = Some self' \<and>
    splice_loop 1 0 [(7, []), (7, [EvTerminate]), (7, [])] (self', net_example, pcb_example\<lparr>pcb_gone := True\<rparr>) = Some (True, rs, s') \<and>
    drain_loop rs s' = Some (True, s')"
proof -
  obtain self' where e: "tcp_err_handler (session_example\<lparr>ts_buffer := Some ring_example\<rparr>) = Some self'"
    by (simp add: tcp_err_handler_def hev_socks5_session_terminate_def hev_task_wakeup_def hev_socks5_set_timeout_def session_example_def)
  from tcp_session_ends_after_error[OF e, where rounds = "[(7, []), (7, [EvTerminate]), (7, [])]" and rf = 1 and rb = 0
      and w = net_example and pcb = "pcb_example\<lparr>pcb_gone := True\<rparr>"] e show ?thesis
    by (auto simp: session_example_def)
qed

text \<open>A TCP session accounts for its resources. A new session asks the proxy for exactly the
  destination of the intercepted connection; when it cannot be created everything is freed and no
  handler is installed on the connection. Destroying a session frees its memory and aborts the
  connection with its handlers removed.\<close>

theorem tcp_session_lifecycle:
  assumes "length stack = addr_size" "length (ip_bytes (pcb_local_ip pcb)) = 16" "\<not> pcb_gone pcb"
    and "lwip_addr (pcb_local_ip pcb) (pcb_local_port pcb) = Some a"
  shows "\<exists>r pcb' w'. hev_socks5_session_tcp_new None stack pcb w = Some (r, pcb', w', None) \<and> fds w' = fds w \<and>
    (case r of
       None \<Rightarrow> blocks w' = blocks w \<and> pcb' = pcb
     | Some self \<Rightarrow> client_tcp_dest self w' = Some a \<and> s5_type self = HEV_SOCKS5_TYPE_TCP \<and>
         ts_pcb self \<and> ts_queue self = [] \<and> pcb_handlers pcb' \<and>
         (\<exists>w'' pcb''. hev_socks5_session_tcp_destruct self w' pcb' = Some (w'', pcb'') \<and> blocks w'' = blocks w \<and>
            fds w'' = fds w \<and> pcb_aborted pcb'' \<and> \<not> pcb_handlers pcb''))"
proof -
  from from_lwip_ip[where dns = None and dns' = None, OF assms(1) _ assms(4)] assms(2) obtain r
    where f: "hev_socks5_addr_from_lwip None stack (pcb_local_ip pcb) (pcb_local_port pcb) = Some (0, encode_addr a @ r, None)"
    by auto
  have a: "wf_addr a" using assms(2,4) by (auto split: ip_addr_type.splits)
  obtain b1 q1 where q1: "pop True (mallocq w) = (b1, q1)" by fastforce
  obtain b2 q2 where q2: "pop True q1 = (b2, q2)" by fastforce
  note defs = hev_socks5_session_tcp_new_def hev_socks5_session_tcp_construct_def sys_malloc_def q1 q2 f
    hev_socks5_client_tcp_construct_def hev_socks5_client_construct_def hev_socks5_construct_def hev_free_def Let_def
  show ?thesis
    using addr_len_encode[OF a, of r] decode_encode_addr[OF a, of "[]"] assms(3)
    by (cases b1; cases b2)
      (simp_all add: defs rd_def client_tcp_dest_def hev_socks5_session_tcp_destruct_def hev_socks5_client_tcp_destruct_def
        hev_socks5_client_destruct_def hev_socks5_destruct_def session_tcp_zero_def)
qed

theorem tcp_session_lifecycle_witness:
  "\<exists>r pcb' w'. hev_socks5_session_tcp_new None (replicate addr_size 7) pcb_example net_example = Some (r, pcb', w', None) \<and>
    fds w' = fds net_example \<and>
    (case r of
       None \<Rightarrow> blocks w' = blocks net_example \<and> pcb' = pcb_example
     | Some self \<Rightarrow> client_tcp_dest self w' = Some (SA_IPv4 (replicate 4 0) 80) \<and> s5_type self = HEV_SOCKS5_TYPE_TCP \<and>
         ts_pcb self \<and> ts_queue self = [] \<and> pcb_handlers pcb' \<and>
         (\<exists>w'' pcb''. hev_socks5_session_tcp_destruct self w' pcb' = Some (w'', pcb'') \<and> blocks w'' = blocks net_example \<and>
            fds w'' = fds net_example \<and> pcb_aborted pcb'' \<and> \<not> pcb_handlers pcb''))"
  by (rule tcp_session_lifecycle) (simp_all add: pcb_example_def)

subsection \<open>Weak points\<close>

lemma tcp_write_short:
  assumes "\<not> pcb_gone pcb" "length bs < 65536" "pcb_writeq pcb = e # q"
  shows "tcp_write pcb bs = Some (e, if e = 0 then pcb\<lparr>pcb_writeq := q, pcb_written := pcb_written pcb @ bs\<rparr>
    else pcb\<lparr>pcb_writeq := q\<rparr>)"
  using assms by (simp add: tcp_write_def)

text \<open>When the unread bytes wrap around in the buffer they are written in two pieces. If lwIP has no
  memory for the first but takes the second, the bytes between are lost although the connection
  goes on: the buffer counts them as passed, and the application receives a stream with a hole.\<close>

theorem tcp_write_failure_leaves_hole:
  assumes "ring_ok r" "max_size r < 65536" "hev_ring_buffer_reading r = [v1, v2]" "splice_fill (s5_fd self) r w = (res, r, w')"
    and "ts_buffer self = Some r" "ts_pcb self" "\<not> pcb_gone pcb" "pcb_writeq pcb = [-1, 0]"
  shows "\<exists>self' pcb' r'. tcp_splice_b (self, w, pcb) = Some (-1, self', w', pcb') \<and>
    unread r = take (iov_len v1) (drop (iov_base v1) (rdata r)) @ take (iov_len v2) (drop (iov_base v2) (rdata r)) \<and>
    pcb_written pcb' = pcb_written pcb @ take (iov_len v2) (drop (iov_base v2) (rdata r)) \<and>
    ts_buffer self' = Some r' \<and> unread r' = []"
proof -
  let ?b = "take (iov_len v2) (drop (iov_base v2) (rdata r))"
  have u: "unread r = take (iov_len v1) (drop (iov_base v1) (rdata r)) @ ?b"
    using hev_ring_buffer_reading_unread[OF assms(1)] assms(3) by (simp add: gather_def)
  have "iov_len v2 < 65536" using reading_len[OF assms(1), of v2] assms(2,3) by simp
  then have "length ?b < 65536" by simp
  note m = tcp_write_short[OF _ this]
  obtain e2 q where o: "pop ERR_OK (pcb_outq pcb) = (e2, q)" by fastforce
  have "(-1 OR x) \<noteq> (0 :: int)" for x by (simp add: or_eq_0_iff)
  moreover have "unread (hev_ring_buffer_read_finish r (iov_total [v1, v2])) = []"
    using rb.pass_all[OF assms(1)] reading_total[OF assms(1)] assms(3) by simp
  moreover have "\<exists>p. tcp_write pcb (take (iov_len v1) (drop (iov_base v1) (rdata r))) = Some (-1, p) \<and>
      p = pcb\<lparr>pcb_writeq := [0]\<rparr>" using assms(7,8) by (simp add: tcp_write_def)
  moreover have "tcp_write (pcb\<lparr>pcb_writeq := [0]\<rparr>) ?b = Some (0, pcb\<lparr>pcb_writeq := [], pcb_written := pcb_written pcb @ ?b\<rparr>)"
    using m[of "pcb\<lparr>pcb_writeq := [0]\<rparr>" 0 "[]"] assms(7) by simp
  ultimately show ?thesis
    using assms u o by (auto simp: tcp_splice_b_def tcp_output_def)
qed

theorem tcp_write_failure_leaves_hole_witness:
  "\<exists>self' w' pcb'. tcp_splice_b (session_example\<lparr>ts_buffer := Some ring_example\<rparr>, net_example\<lparr>sk := \<lambda>_. \<lparr>rxq = [], txq = [], sent = [], errno = EOK\<rparr>\<rparr>,
      pcb_example\<lparr>pcb_writeq := [-1, 0]\<rparr>) = Some (-1, self', w', pcb') \<and>
    unread ring_example = [5, 6, 7] \<and> pcb_written pcb' = [7]"
proof -
  let ?w = "net_example\<lparr>sk := \<lambda>_. \<lparr>rxq = [], txq = [], sent = [], errno = EOK\<rparr>\<rparr>"
  let ?s = "session_example\<lparr>ts_buffer := Some ring_example\<rparr>" and ?p = "pcb_example\<lparr>pcb_writeq := [-1, 0]\<rparr>"
  have ok: "ring_ok ring_example" "max_size ring_example < 65536" by (simp_all add: ring_ok_def ring_example_def)
  have r: "hev_ring_buffer_reading ring_example = [\<lparr>iov_base = 2, iov_len = 2\<rparr>, \<lparr>iov_base = 0, iov_len = 1\<rparr>]"
    by (simp add: hev_ring_buffer_reading_def ring_example_def)
  obtain w' where f: "splice_fill (s5_fd ?s) ring_example ?w = (0, ring_example, w')"
    using ok by (simp add: splice_fill_def sys_readv_def sys_recv_def session_example_def net_example_def
        hev_ring_buffer_writing_def ring_example_def Let_def)
  have p: "ts_buffer ?s = Some ring_example" "ts_pcb ?s" "\<not> pcb_gone ?p" "pcb_writeq ?p = [-1, 0]" "pcb_written ?p = []"
    by (simp_all add: session_example_def pcb_example_def)
  from tcp_write_failure_leaves_hole[OF ok r f p(1-4)] p(5) show ?thesis
    by (auto simp: ring_example_def)
qed

text \<open>A request to terminate that arrives before the handshake is lost: the handshake sets the timeout
  of the object again.\<close>

theorem session_terminate_before_handshake_lost:
  assumes "hev_socks5_session_terminate self = Some self'"
  shows "hev_socks5_client_handshake conf klass pl self' w = hev_socks5_client_handshake conf klass pl self w"
proof -
  have "self' = hev_socks5_set_timeout 0 self"
    using assms by (auto simp: Let_def hev_socks5_session_terminate_def hev_task_wakeup_def Let_def split: if_splits)
  then show ?thesis by (simp add: hev_socks5_client_handshake_def hev_socks5_set_timeout_def)
qed

text \<open>A buffer of size 0, which the configuration accepts, never takes anything from the proxy.\<close>

theorem session_zero_buffer_never_reads:
  assumes "ts_buffer self = Some (hev_ring_buffer_alloca 0 [])" "ts_pcb self"
  shows "tcp_splice_b (self, w, pcb) = Some (0, self, w, pcb)"
  using assms by (simp add: tcp_splice_b_def splice_fill_def hev_ring_buffer_alloca_def hev_ring_buffer_writing_def
      hev_ring_buffer_reading_def)

end
