(* ===== verification/SessionUDP.thy ===== *)
theory SessionUDP
  imports SessionTCP UdpFrame "HOL-Library.Sublist"
begin

section \<open>The UDP session (hev-socks5-session-udp.c)\<close>

text \<open>
  A UDP session carries the datagrams of one local socket. lwIP hands each datagram, with its
  destination in the control block, to \<open>udp_recv_handler\<close>, which links a frame with the SOCKS5 form
  of the destination into a queue; the task sends the queue through the association and gives the
  datagrams that come back to lwIP, each with its source address.

  \<open>udp_pcb\<close> is lwIP's side: the destination of the last datagram, the live buffers of this session
  (an access to another one is undefined), every datagram delivered and every one given back.
  \<open>upcb_allocq\<close> and \<open>upcb_errq\<close> have the outcomes of \<open>pbuf_alloc_reference\<close> and \<open>udp_sendfrom\<close>.
  \<open>us_mem\<close> has the frames of the session; a frame starts with its list node. \<open>us_allocq\<close> has what
  \<open>hev_malloc\<close> returns, an address and the garbage found there.
\<close>

subsection \<open>State\<close>

record udp_pcb =
  upcb_local_ip :: ip_addr
  upcb_local_port :: u16
  upcb_remote_type :: ip_addr_type
  upcb_recv :: bool
  upcb_removed :: bool
  upcb_pbufs :: "ptr \<Rightarrow> pbuf option"
  upcb_rx :: "(ip_addr \<times> u16 \<times> pbuf) list"
  upcb_sent :: "(ip_addr \<times> u16 \<times> bytes) list"
  upcb_allocq :: "bool list"
  upcb_errq :: "int list"

record udp_frame =
  fr_addr :: bytes
  fr_data :: ptr

record hev_socks5_session_udp = hev_socks5_client_udp +
  us_task :: ptr
  us_list :: hevlist
  us_pcb :: bool
  us_frames :: int
  us_addr :: u32
  us_port :: int
  us_links :: listheap
  us_mem :: "ptr \<Rightarrow> udp_frame option"
  us_allocq :: "(ptr \<times> bytes) list"

abbreviation (input) UDP_POOL_SIZE :: int where "UDP_POOL_SIZE \<equiv> 512"
abbreviation (input) ERR_VAL :: int where "ERR_VAL \<equiv> -6"

definition pbuf_free :: "ptr \<Rightarrow> udp_pcb \<Rightarrow> udp_pcb option" where
  "pbuf_free p pcb = do {
     check (upcb_pbufs pcb p \<noteq> None);
     Some (pcb\<lparr>upcb_pbufs := (upcb_pbufs pcb)(p := None)\<rparr>)
   }"

text \<open>\<open>udp_sendfrom\<close> (third-part/lwip/src/core/udp.c) sets the local address for the time of the call;
  one of the wrong version is refused.\<close>

definition udp_sendfrom :: "udp_pcb \<Rightarrow> bytes \<Rightarrow> ip_addr \<Rightarrow> u16 \<Rightarrow> (int \<times> udp_pcb) option" where
  "udp_sendfrom pcb data src_ip src_port = do {
     check (\<not> upcb_removed pcb);
     if ip_type src_ip \<noteq> IPADDR_TYPE_ANY \<and> ip_type src_ip \<noteq> upcb_remote_type pcb then Some (ERR_VAL, pcb)
     else do {
       let (err, q) = pop ERR_OK (upcb_errq pcb);
       let pcb = pcb\<lparr>upcb_errq := q\<rparr>;
       Some (err, if err = ERR_OK then pcb\<lparr>upcb_sent := upcb_sent pcb @ [(src_ip, src_port, data)]\<rparr> else pcb)
     }
   }"

definition frame_malloc :: "hev_socks5_session_udp \<Rightarrow> ptr \<times> bytes \<times> hev_socks5_session_udp" where
  "frame_malloc self =
     (let ((p, junk), q) = pop (NULL, []) (us_allocq self); self = self\<lparr>us_allocq := q\<rparr>
      in if p \<noteq> NULL \<and> us_mem self p = None \<and> length junk = addr_size then (p, junk, self) else (NULL, [], self))"

text \<open>\<open>hev_socks5_session_terminate\<close> on a session of this class.\<close>

definition session_udp_terminate :: "hev_socks5_session_udp \<Rightarrow> hev_socks5_session_udp option" where
  "session_udp_terminate self = do {
     let self = hev_socks5_set_timeout 0 self;
     hev_task_wakeup (us_task self);
     Some self
   }"

subsection \<open>The handler\<close>

definition udp_recv_handler ::
  "hev_socks5_session_udp \<Rightarrow> udp_pcb \<Rightarrow> ptr \<Rightarrow> mapped_dns option \<Rightarrow>
    (hev_socks5_session_udp \<times> udp_pcb \<times> mapped_dns option) option" where
  "udp_recv_handler self pcb p dns =
     (if p = NULL then do {
        self \<leftarrow> session_udp_terminate self;
        Some (self, pcb, dns)
      } else if us_frames self > UDP_POOL_SIZE then do {
        pcb \<leftarrow> pbuf_free p pcb;
        Some (self, pcb, dns)
      } else case frame_malloc self of (fp, junk, self) \<Rightarrow>
        if fp = NULL then do {
          pcb \<leftarrow> pbuf_free p pcb;
          Some (self, pcb, dns)
        } else do {
          let links = (us_links self)\<lparr>lnext := (lnext (us_links self))(fp := NULL),
            lprev := (lprev (us_links self))(fp := NULL)\<rparr>;
          (_, addr, dns) \<leftarrow> hev_socks5_addr_from_lwip dns junk (upcb_local_ip pcb) (upcb_local_port pcb);
          atype \<leftarrow> rd8 addr 0;
          let self = (if atype = HEV_SOCKS5_ADDR_TYPE_NAME
            then self\<lparr>us_addr := load32 (take 4 (ip_bytes (upcb_local_ip pcb))), us_port := uint (upcb_local_port pcb)\<rparr>
            else self);
          (l, links) \<leftarrow> hev_list_add_tail (us_list self) links fp;
          hev_task_wakeup (us_task self);
          Some (self\<lparr>us_frames := us_frames self + 1, us_list := l, us_links := links,
            us_mem := (us_mem self)(fp \<mapsto> \<lparr>fr_addr = addr, fr_data = p\<rparr>)\<rparr>, pcb, dns)
        })"

text \<open>An event: a datagram for \<open>ip\<close> and \<open>port\<close> arrives in a new chain of buffers at \<open>p\<close>, or the engine
  terminates the session. What lwIP cannot deliver is skipped.\<close>

datatype udp_event = EvDatagram ip_addr u16 ptr pbuf | EvEnd

definition deliverable :: "udp_pcb \<Rightarrow> ip_addr \<Rightarrow> ptr \<Rightarrow> pbuf \<Rightarrow> bool" where
  "deliverable pcb ip p b \<longleftrightarrow> upcb_recv pcb \<and> \<not> upcb_removed pcb \<and> p \<noteq> NULL \<and> upcb_pbufs pcb p = None \<and> b \<noteq> [] \<and>
     length (concat b) < 65536 \<and> ip_type ip \<noteq> IPADDR_TYPE_ANY \<and> length (ip_bytes ip) = 16"

fun udp_deliver :: "udp_event \<Rightarrow> hev_socks5_session_udp \<times> udp_pcb \<times> mapped_dns option \<Rightarrow>
    (hev_socks5_session_udp \<times> udp_pcb \<times> mapped_dns option) option" where
  "udp_deliver (EvDatagram ip port p b) (self, pcb, dns) =
     (if deliverable pcb ip p b
      then udp_recv_handler self (pcb\<lparr>upcb_local_ip := ip, upcb_local_port := port,
        upcb_pbufs := (upcb_pbufs pcb)(p \<mapsto> b), upcb_rx := upcb_rx pcb @ [(ip, port, b)]\<rparr>) p dns
      else Some (self, pcb, dns))"
| "udp_deliver EvEnd (self, pcb, dns) = do {
     self \<leftarrow> session_udp_terminate self;
     Some (self, pcb, dns)
   }"

fun udp_deliver_all :: "udp_event list \<Rightarrow> hev_socks5_session_udp \<times> udp_pcb \<times> mapped_dns option \<Rightarrow>
    (hev_socks5_session_udp \<times> udp_pcb \<times> mapped_dns option) option" where
  "udp_deliver_all [] s = Some s"
| "udp_deliver_all (e # es) s = udp_deliver e s \<bind> udp_deliver_all es"


subsection \<open>Forwarding\<close>

text \<open>
  A round is one turn of the loop of the task: the events while the two calls wait on the socket,
  the value of \<open>errno\<close> other tasks left, what the stack holds in the buffers and the address
  variable of the backward call, and, for the yield at the end, the time left of the timeout and the
  events meanwhile.
\<close>

record udp_round =
  ur_fevs :: "udp_event list"
  ur_bevs :: "udp_event list"
  ur_errno :: errno
  ur_stack :: bytes
  ur_saddrs :: "ip_addr list"
  ur_sleep :: int
  ur_yevs :: "udp_event list"

type_synonym udp_state = "hev_socks5_session_udp \<times> net \<times> udp_pcb \<times> mapped_dns option"

text \<open>The messages for the first frames; only the first buffer of a chain is taken.\<close>

fun udp_collect :: "nat \<Rightarrow> ptr \<Rightarrow> hev_socks5_session_udp \<Rightarrow> udp_pcb \<Rightarrow> udp_msg list option" where
  "udp_collect 0 node self pcb = Some []"
| "udp_collect (Suc n) node self pcb = do {
     fr \<leftarrow> us_mem self node;
     node \<leftarrow> hev_list_node_next (us_links self) node;
     buf \<leftarrow> upcb_pbufs pcb (fr_data fr);
     check (buf \<noteq> []);
     ms \<leftarrow> udp_collect n node self pcb;
     Some (\<lparr>m_addr = At (fr_addr fr), m_buf = hd buf, m_len = length (hd buf)\<rparr> # ms)
   }"

fun udp_pop_frames :: "nat \<Rightarrow> hev_socks5_session_udp \<Rightarrow> udp_pcb \<Rightarrow> (hev_socks5_session_udp \<times> udp_pcb) option" where
  "udp_pop_frames 0 self pcb = Some (self, pcb)"
| "udp_pop_frames (Suc n) self pcb = do {
     let node = hev_list_first (us_list self);
     fr \<leftarrow> us_mem self node;
     (l, links) \<leftarrow> hev_list_del (us_list self) (us_links self) node;
     pcb \<leftarrow> pbuf_free (fr_data fr) pcb;
     udp_pop_frames n (self\<lparr>us_list := l, us_links := links, us_mem := (us_mem self)(node := None),
       us_frames := us_frames self - 1\<rparr>) pcb
   }"

definition hev_socks5_session_udp_fwd_f :: "nat \<Rightarrow> udp_event list \<Rightarrow> udp_state \<Rightarrow> (int \<times> udp_state) option" where
  "hev_socks5_session_udp_fwd_f num evs = (\<lambda>(self, w, pcb, dns). do {
     check (0 < num);
     if us_frames self \<le> 0 then Some (0, self, w, pcb, dns)
     else do {
       msgv \<leftarrow> udp_collect (min num (nat (us_frames self))) (hev_list_first (us_list self)) self pcb;
       (res, self, w) \<leftarrow> hev_socks5_udp_sendmmsg self (hev_socks5_client_udp_get_fd self) msgv w;
       (self, pcb, dns) \<leftarrow> udp_deliver_all evs (self, pcb, dns);
       if res \<le> 0 then Some (-1, self, w, pcb, dns)
       else do {
         (self, pcb) \<leftarrow> udp_pop_frames (nat res) self pcb;
         Some (1, self, w, pcb, dns)
       }
     }
   })"

definition udp_slots :: "nat \<Rightarrow> bytes \<Rightarrow> udp_msg list" where
  "udp_slots num stack = map (\<lambda>i. \<lparr>m_addr = Uninit, m_buf = take UDP_BUF_SIZE
     (drop (UDP_BUF_SIZE * i) stack @ replicate UDP_BUF_SIZE 0), m_len = UDP_BUF_SIZE\<rparr>) [0..<num]"

definition set_errno :: "errno \<Rightarrow> int \<Rightarrow> net \<Rightarrow> net" where
  "set_errno e fd w = w\<lparr>sk := (sk w)(fd := (sk w fd)\<lparr>errno := e\<rparr>)\<rparr>"

text \<open>\<open>errno\<close> after receiving: that of the last call that failed, or the one from before.\<close>

definition recv_errno :: "'a hev_socks5_scheme \<Rightarrow> int \<Rightarrow> net \<Rightarrow> net \<Rightarrow> errno" where
  "recv_errno self fd w w' =
     (if fd \<notin> set (fds w) then EOTHER
      else if s5_type self = HEV_SOCKS5_TYPE_UDP_IN_UDP then
        (case dg_rxq (dsk w fd) of [] \<Rightarrow> EAGAIN | DgAgain _ # _ \<Rightarrow> EAGAIN | DgErr # _ \<Rightarrow> EOTHER
         | DgData _ _ # _ \<Rightarrow> errno (sk w fd))
      else errno (sk w' fd))"

definition ip_addr_zero :: ip_addr where
  "ip_addr_zero = \<lparr>ip_bytes = replicate 16 0, ip_type = IPADDR_TYPE_V4\<rparr>"

text \<open>The source of a reply, written to the variable \<open>saddr\<close>. The destination of a mapped name replaces
  the address of the message, but only its bytes are written, not its type.\<close>

definition reply_source :: "hev_socks5_session_udp \<Rightarrow> udp_msg \<Rightarrow> ip_addr \<Rightarrow> (int \<times> ip_addr \<times> u16) option" where
  "reply_source self m saddr =
     (if us_addr self \<noteq> 0 \<and> us_port self \<noteq> 0 then do {
        b \<leftarrow> wr (ip_bytes saddr) 0 (store32 (us_addr self));
        Some (0, saddr\<lparr>ip_bytes := b\<rparr>, word_of_int (us_port self))
      } else do {
        a \<leftarrow> deref (m_addr m);
        hev_socks5_addr_into_lwip a saddr 0
      })"

text \<open>The loop over the received messages; \<open>saddrs\<close> has what the variable \<open>saddr\<close> holds at the start
  of each turn.\<close>

fun udp_replies :: "udp_msg list \<Rightarrow> hev_socks5_session_udp \<Rightarrow> ip_addr list \<Rightarrow> udp_pcb \<Rightarrow> (int \<times> udp_pcb) option" where
  "udp_replies [] self saddrs pcb = Some (1, pcb)"
| "udp_replies (m # ms) self saddrs pcb = do {
     let (saddr, saddrs) = pop ip_addr_zero saddrs;
     (ret, saddr, port) \<leftarrow> reply_source self m saddr;
     if ret < 0 then Some (-1, pcb)
     else do {
       let (ok, q) = pop True (upcb_allocq pcb);
       let pcb = pcb\<lparr>upcb_allocq := q\<rparr>;
       if \<not> ok then Some (-1, pcb)
       else do {
         d \<leftarrow> rd (m_buf m) 0 (m_len m mod 65536);
         (err, pcb) \<leftarrow> udp_sendfrom pcb d saddr port;
         if err \<noteq> ERR_OK then Some (-1, pcb) else udp_replies ms self saddrs pcb
       }
     }
   }"

definition hev_socks5_session_udp_fwd_b :: "nat \<Rightarrow> udp_round \<Rightarrow> udp_state \<Rightarrow> (int \<times> udp_state) option" where
  "hev_socks5_session_udp_fwd_b num r = (\<lambda>(self, w, pcb, dns). do {
     check (0 < num);
     let fd = hev_socks5_client_udp_get_fd self;
     let w0 = set_errno (ur_errno r) fd w;
     (res, msgv, self, w) \<leftarrow> hev_socks5_udp_recvmmsg self fd True (udp_slots num (ur_stack r)) w0;
     (self, pcb, dns) \<leftarrow> udp_deliver_all (ur_bevs r) (self, pcb, dns);
     if res \<le> 0 then
       Some (if res = -1 \<and> recv_errno self fd w0 w = EAGAIN then 0 else -1, self, w, pcb, dns)
     else do {
       check (nat res \<le> num);
       (res, pcb) \<leftarrow> udp_replies (take (nat res) msgv) self (ur_saddrs r) pcb;
       Some (res, self, w, pcb, dns)
     }
   })"

subsection \<open>The splicer\<close>

definition udp_session_yielder :: "yield_type \<Rightarrow> udp_round \<Rightarrow> udp_state \<Rightarrow> (int \<times> udp_state) option" where
  "udp_session_yielder type r = (\<lambda>(self, w, pcb, dns). do {
     let (res, (t, w)) = udp_task_io_yielder self type (min (s5_timeout self) (ur_sleep r)) (s5_timeout self, w);
     (self, pcb, dns) \<leftarrow> udp_deliver_all (ur_yevs r) (self\<lparr>s5_timeout := t\<rparr>, pcb, dns);
     Some (res, self, w, pcb, dns)
   })"

text \<open>With no rounds left the task is still running: the result is \<open>False\<close>, else \<open>True\<close>.\<close>

fun udp_splice_loop :: "nat \<Rightarrow> int \<Rightarrow> int \<Rightarrow> udp_round list \<Rightarrow> udp_state \<Rightarrow> (bool \<times> udp_state) option" where
  "udp_splice_loop num res_f res_b [] s = Some (False, s)"
| "udp_splice_loop num res_f res_b (r # rs) s = do {
     (res_f, s) \<leftarrow> (if res_f \<ge> 0 then hev_socks5_session_udp_fwd_f num (ur_fevs r) s else Some (res_f, s));
     (res_b, s) \<leftarrow> (if res_b \<ge> 0 then hev_socks5_session_udp_fwd_b num r s else Some (res_b, s));
     let go_on = (\<lambda>type. do {
         (res, s) \<leftarrow> udp_session_yielder type r s;
         if res \<noteq> 0 then Some (True, s) else udp_splice_loop num res_f res_b rs s
       });
     if res_f > 0 \<or> res_b > 0 then go_on HEV_TASK_YIELD
     else if res_f AND res_b = 0 then go_on HEV_TASK_WAITIO
     else Some (True, s)
   }"

definition hev_socks5_session_udp_splice :: "nat \<Rightarrow> udp_round list \<Rightarrow> udp_state \<Rightarrow> (bool \<times> udp_state) option" where
  "hev_socks5_session_udp_splice num rounds = (\<lambda>(self, w, pcb, dns).
     let w = snd (hev_task_add_fd (hev_socks5_client_udp_get_fd self) w)
     in udp_splice_loop num 1 1 rounds (self, w, pcb, dns))"

subsection \<open>Construction, the upstream address, destruction\<close>

definition hev_socks5_session_udp_construct ::
  "hev_config_server \<Rightarrow> hev_socks5_session_udp \<Rightarrow> udp_pcb \<Rightarrow> int \<times> hev_socks5_session_udp \<times> udp_pcb" where
  "hev_socks5_session_udp_construct srv self pcb =
     (let (res, self) = hev_socks5_client_udp_construct
            (if sv_udp_in_udp srv then HEV_SOCKS5_TYPE_UDP_IN_UDP else HEV_SOCKS5_TYPE_UDP_IN_TCP) self
      in if res < 0 then (-1, self, pcb) else (0, self\<lparr>us_pcb := True\<rparr>, pcb\<lparr>upcb_recv := True\<rparr>))"

definition session_udp_zero :: "(ptr \<times> bytes) list \<Rightarrow> hev_socks5_session_udp" where
  "session_udp_zero allocq = \<lparr>s5_fd = 0, s5_timeout = 0, s5_udp_associated = False,
     s5_type = HEV_SOCKS5_TYPE_NONE, s5_family = AF_UNSPEC, auth_user = None, auth_pass = None, udp_fd = 0,
     us_task = NULL, us_list = hev_list_empty, us_pcb = False, us_frames = 0, us_addr = 0, us_port = 0,
     us_links = \<lparr>lnext = \<lambda>_. NULL, lprev = \<lambda>_. NULL\<rparr>, us_mem = \<lambda>_. None, us_allocq = allocq\<rparr>"

definition hev_socks5_session_udp_new ::
  "hev_config_server \<Rightarrow> (ptr \<times> bytes) list \<Rightarrow> udp_pcb \<Rightarrow> net \<Rightarrow> (hev_socks5_session_udp option \<times> udp_pcb \<times> net) option" where
  "hev_socks5_session_udp_new srv allocq pcb w = do {
     let (ok, w) = sys_malloc w;
     if \<not> ok then Some (None, pcb, w)
     else do {
       let (res, self, pcb) = hev_socks5_session_udp_construct srv (session_udp_zero allocq) pcb;
       if res < 0 then do {
         w \<leftarrow> hev_free w;
         Some (None, pcb, w)
       } else Some (Some self, pcb, w)
     }
   }"

text \<open>The port as it is stored, in network order.\<close>

definition hev_socks5_addr_get_port :: "bytes \<Rightarrow> u16 option" where
  "hev_socks5_addr_get_port addr = do {
     atype \<leftarrow> rd8 addr 0;
     if atype = HEV_SOCKS5_ADDR_TYPE_IPV4 then map_option load16 (rd addr 5 2)
     else if atype = HEV_SOCKS5_ADDR_TYPE_IPV6 then map_option load16 (rd addr 17 2)
     else if atype = HEV_SOCKS5_ADDR_TYPE_NAME then do {
       len \<leftarrow> rd8 addr 1;
       map_option load16 (rd addr (2 + unat len) 2)
     } else Some 0
   }"

definition hev_socks5_session_udp_set_upstream_addr ::
  "resolver \<Rightarrow> socks5_conf \<Rightarrow> (int \<Rightarrow> sock_opt \<Rightarrow> int) \<Rightarrow> hev_config_server \<Rightarrow>
    'a hev_socks5_client_udp_scheme \<Rightarrow> bytes \<Rightarrow> net \<Rightarrow> (int \<times> 'a hev_socks5_client_udp_scheme \<times> net) option" where
  "hev_socks5_session_udp_set_upstream_addr Rs conf setopt srv self addr w = do {
     addr \<leftarrow> (if sv_udp_in_udp srv \<and> sv_udp_addr srv \<noteq> [] then do {
         port \<leftarrow> hev_socks5_addr_get_port addr;
         (_, addr) \<leftarrow> hev_socks5_addr_from_name addr (sv_udp_addr srv) (uint port);
         Some addr
       } else Some addr);
     hev_socks5_client_udp_set_upstream_addr Rs conf (hev_socks5_session_bind setopt srv) self addr w
   }"

definition hev_socks5_session_udp_class ::
  "resolver \<Rightarrow> socks5_conf \<Rightarrow> (int \<Rightarrow> sock_opt \<Rightarrow> int) \<Rightarrow> hev_config_server \<Rightarrow>
    ('a hev_socks5_client_udp_scheme) client_class" where
  "hev_socks5_session_udp_class Rs conf setopt srv =
     (hev_socks5_client_udp_class Rs conf (hev_socks5_session_bind setopt srv))
       \<lparr>cl_set_upstream_addr := hev_socks5_session_udp_set_upstream_addr Rs conf setopt srv\<rparr>"

text \<open>The queue is freed node by node; the chain of the list is read before its node is freed.\<close>

partial_function (option) udp_free_loop ::
  "ptr \<Rightarrow> hev_socks5_session_udp \<Rightarrow> udp_pcb \<Rightarrow> (hev_socks5_session_udp \<times> udp_pcb) option" where
  "udp_free_loop node self pcb =
     (if node = NULL then Some (self, pcb)
      else do {
        fr \<leftarrow> us_mem self node;
        next \<leftarrow> hev_list_node_next (us_links self) node;
        pcb \<leftarrow> pbuf_free (fr_data fr) pcb;
        udp_free_loop next (self\<lparr>us_mem := (us_mem self)(node := None)\<rparr>) pcb
      })"

definition hev_socks5_session_udp_destruct ::
  "hev_socks5_session_udp \<Rightarrow> net \<Rightarrow> udp_pcb \<Rightarrow> (hev_socks5_session_udp \<times> net \<times> udp_pcb) option" where
  "hev_socks5_session_udp_destruct self w pcb = do {
     (self, pcb) \<leftarrow> udp_free_loop (hev_list_first (us_list self)) self pcb;
     pcb \<leftarrow> (if us_pcb self then do {
         check (\<not> upcb_removed pcb);
         Some (pcb\<lparr>upcb_recv := False, upcb_removed := True\<rparr>)
       } else Some pcb);
     w \<leftarrow> hev_socks5_client_udp_destruct self w;
     Some (self, w, pcb)
   }"

subsection \<open>The queue\<close>

text \<open>The frames of the session with their buffers, in the order of the list. Nothing else is live.\<close>

type_synonym udp_entry = "ptr \<times> udp_frame \<times> pbuf"

definition frames_of :: "udp_entry list \<Rightarrow> ptr \<Rightarrow> udp_frame option" where
  "frames_of xs = map_of (map (\<lambda>(p, f, b). (p, f)) xs)"

definition bufs_of :: "udp_entry list \<Rightarrow> ptr \<Rightarrow> pbuf option" where
  "bufs_of xs = map_of (map (\<lambda>(p, f, b). (fr_data f, b)) xs)"

abbreviation datas :: "udp_entry list \<Rightarrow> ptr list" where
  "datas xs \<equiv> map (\<lambda>(p, f, b). fr_data f) xs"

lemma entries_simps [simp]:
  "frames_of [] = (\<lambda>_. None)" "bufs_of [] = (\<lambda>_. None)"
  "frames_of ((p, f, b) # xs) = (frames_of xs)(p \<mapsto> f)" "bufs_of ((p, f, b) # xs) = (bufs_of xs)(fr_data f \<mapsto> b)"
  by (simp_all add: frames_of_def bufs_of_def)

lemma entries_none: "frames_of xs p = None \<longleftrightarrow> p \<notin> fst ` set xs" "bufs_of xs d = None \<longleftrightarrow> d \<notin> set (datas xs)"
  by (force simp: frames_of_def bufs_of_def map_of_eq_None_iff)+

lemma entries_del: "p \<notin> fst ` set xs \<Longrightarrow> (frames_of xs)(p := None) = frames_of xs"
  "d \<notin> set (datas xs) \<Longrightarrow> (bufs_of xs)(d := None) = bufs_of xs"
  unfolding entries_none[symmetric] by (simp_all add: fun_upd_idem)

lemma entries_snoc:
  "p \<notin> fst ` set xs \<Longrightarrow> frames_of (xs @ [(p, f, b)]) = (frames_of xs)(p \<mapsto> f)"
  "fr_data f \<notin> set (datas xs) \<Longrightarrow> bufs_of (xs @ [(p, f, b)]) = (bufs_of xs)(fr_data f \<mapsto> b)"
  by (induction xs) (auto simp: fun_upd_twist)

definition udp_queue :: "hev_socks5_session_udp \<Rightarrow> udp_pcb \<Rightarrow> udp_entry list \<Rightarrow> bool" where
  "udp_queue self pcb xs \<longleftrightarrow> list_rep (us_list self) (us_links self) (map fst xs) \<and>
     us_frames self = int (length xs) \<and> us_mem self = frames_of xs \<and> upcb_pbufs pcb = bufs_of xs \<and>
     distinct (datas xs) \<and> (\<forall>(p, f, b) \<in> set xs. b \<noteq> [])"

fun entry_msg :: "udp_entry \<Rightarrow> udp_msg" where
  "entry_msg (p, f, b) = \<lparr>m_addr = At (fr_addr f), m_buf = hd b, m_len = length (hd b)\<rparr>"

lemma udp_queue_distinct: "udp_queue self pcb xs \<Longrightarrow> distinct (map fst xs)"
  unfolding udp_queue_def using hl.rep_distinct by blast

lemma frames_of_mem: "distinct (map fst xs) \<Longrightarrow> (p, f, b) \<in> set xs \<Longrightarrow> frames_of xs p = Some f"
  by (induction xs) force+

lemma bufs_of_mem: "distinct (datas xs) \<Longrightarrow> (p, f, b) \<in> set xs \<Longrightarrow> bufs_of xs (fr_data f) = Some b"
  by (induction xs) force+

lemma udp_queue_mem:
  assumes "udp_queue self pcb xs" "(p, f, b) \<in> set xs"
  shows "us_mem self p = Some f" "upcb_pbufs pcb (fr_data f) = Some b" "b \<noteq> []" "p \<noteq> NULL"
proof -
  show "us_mem self p = Some f" "upcb_pbufs pcb (fr_data f) = Some b" "b \<noteq> []"
    using assms frames_of_mem[OF udp_queue_distinct[OF assms(1)] assms(2)] bufs_of_mem[OF _ assms(2)]
    by (auto simp: udp_queue_def)
  have "p \<in> set (map fst xs)" using assms(2) by force
  with list_rep_nonnull assms(1) show "p \<noteq> NULL" unfolding udp_queue_def by blast
qed

lemma udp_collect_queue:
  assumes "udp_queue self pcb (ys @ zs)" "n \<le> length zs"
  shows "udp_collect n (first_of NULL (map fst zs)) self pcb = Some (map entry_msg (take n zs))"
  using assms
proof (induction n arbitrary: ys zs)
  case (Suc n)
  then obtain p f b zs' where z: "zs = (p, f, b) # zs'" by (cases zs) auto
  have "list_rep (us_list self) (us_links self) (map fst ys @ p # map fst zs')"
    using Suc.prems(1) z by (simp add: udp_queue_def)
  note nx = hev_list_node_next_rep[OF this]
  have "udp_queue self pcb ((ys @ [(p, f, b)]) @ zs')" using Suc.prems(1) z by simp
  from Suc.IH[OF this] Suc.prems(2) z have "udp_collect n (first_of NULL (map fst zs')) self pcb = Some (map entry_msg (take n zs'))"
    by simp
  with nx udp_queue_mem[OF Suc.prems(1), of p f b] z show ?case by (simp add: Let_def)
qed simp

text \<open>What operations on the queue leave alone.\<close>

definition queue_step :: "hev_socks5_session_udp \<times> udp_pcb \<Rightarrow> hev_socks5_session_udp \<times> udp_pcb \<Rightarrow> bool" where
  "queue_step s t \<longleftrightarrow> (\<exists>l lk m n f. fst t = (fst s)\<lparr>us_list := l, us_links := lk, us_mem := m, us_frames := n\<rparr> \<and>
     snd t = (snd s)\<lparr>upcb_pbufs := f\<rparr>)"

lemma queue_step_refl: "queue_step s s"
  unfolding queue_step_def
  by (intro exI[of _ "us_list (fst s)"] exI[of _ "us_links (fst s)"] exI[of _ "us_mem (fst s)"]
      exI[of _ "us_frames (fst s)"] exI[of _ "upcb_pbufs (snd s)"]) simp

lemma queue_step_trans: "queue_step s t \<Longrightarrow> queue_step t u \<Longrightarrow> queue_step s u"
  unfolding queue_step_def by force

lemma udp_queue_tl:
  assumes "udp_queue self pcb ((p, f, b) # xs)" "list_rep l lk (map fst xs)"
  shows "udp_queue (self\<lparr>us_list := l, us_links := lk, us_mem := (us_mem self)(p := None), us_frames := us_frames self - 1\<rparr>)
    (pcb\<lparr>upcb_pbufs := (upcb_pbufs pcb)(fr_data f := None)\<rparr>) xs"
proof -
  have "p \<notin> fst ` set xs" "fr_data f \<notin> set (datas xs)" using udp_queue_distinct[OF assms(1)] assms(1) by (auto simp: udp_queue_def)
  with assms show ?thesis by (simp add: udp_queue_def entries_del)
qed

lemma udp_pop_queue:
  assumes "udp_queue self pcb xs" "n \<le> length xs"
  shows "\<exists>self' pcb'. udp_pop_frames n self pcb = Some (self', pcb') \<and> udp_queue self' pcb' (drop n xs) \<and>
    queue_step (self, pcb) (self', pcb')"
  using assms
proof (induction n arbitrary: self pcb xs)
  case 0
  then show ?case by (auto intro: queue_step_refl)
next
  case (Suc n)
  then obtain p f b ys where x: "xs = (p, f, b) # ys" by (cases xs) auto
  from Suc.prems(1) x have "list_rep (us_list self) (us_links self) (p # map fst ys)" by (simp add: udp_queue_def)
  from hl.pop_first[OF this] obtain l lk where l: "hev_list_first (us_list self) = p"
    "hev_list_del (us_list self) (us_links self) p = Some (l, lk)" "list_rep l lk (map fst ys)" by auto
  note m = udp_queue_mem[OF Suc.prems(1), of p f b]
  let ?self = "self\<lparr>us_list := l, us_links := lk, us_mem := (us_mem self)(p := None), us_frames := us_frames self - 1\<rparr>"
  let ?pcb = "pcb\<lparr>upcb_pbufs := (upcb_pbufs pcb)(fr_data f := None)\<rparr>"
  have "udp_queue ?self ?pcb ys" using udp_queue_tl[OF _ l(3)] Suc.prems(1) x by simp
  from Suc.IH[OF this] Suc.prems(2) x obtain self' pcb' where r: "udp_pop_frames n ?self ?pcb = Some (self', pcb')"
    "udp_queue self' pcb' (drop n ys)" "queue_step (?self, ?pcb) (self', pcb')" by auto
  have "queue_step (self, pcb) (?self, ?pcb)" unfolding queue_step_def by auto
  from queue_step_trans[OF this r(3)] r(1,2) l m x show ?case by (simp add: pbuf_free_def)
qed

lemma udp_free_queue:
  assumes "seg (us_links self) q (map fst zs) NULL" "us_mem self = frames_of zs" "upcb_pbufs pcb = bufs_of zs"
    "distinct (map fst zs)" "distinct (datas zs)"
  shows "udp_free_loop (first_of NULL (map fst zs)) self pcb =
    Some (self\<lparr>us_mem := \<lambda>_. None\<rparr>, pcb\<lparr>upcb_pbufs := \<lambda>_. None\<rparr>)"
  using assms
proof (induction zs arbitrary: q self pcb)
  case Nil
  then have "self\<lparr>us_mem := \<lambda>_. None\<rparr> = self" "pcb\<lparr>upcb_pbufs := \<lambda>_. None\<rparr> = pcb" by simp_all
  then show ?case by (subst udp_free_loop.simps) simp
next
  case (Cons x zs)
  obtain p f b where x: "x = (p, f, b)" by (cases x)
  from Cons.prems(1) x have l: "p \<noteq> NULL" "lnext (us_links self) p = first_of NULL (map fst zs)"
    "seg (us_links self) p (map fst zs) NULL" by auto
  let ?self = "self\<lparr>us_mem := (us_mem self)(p := None)\<rparr>" and ?pcb = "pcb\<lparr>upcb_pbufs := (upcb_pbufs pcb)(fr_data f := None)\<rparr>"
  have n: "p \<notin> fst ` set zs" "fr_data f \<notin> set (datas zs)" using Cons.prems(4,5) x by auto
  have "udp_free_loop (first_of NULL (map fst zs)) ?self ?pcb =
      Some (?self\<lparr>us_mem := \<lambda>_. None\<rparr>, ?pcb\<lparr>upcb_pbufs := \<lambda>_. None\<rparr>)"
  proof (rule Cons.IH[of _ p])
    show "us_mem ?self = frames_of zs" "upcb_pbufs ?pcb = bufs_of zs"
      using entries_del(1)[OF n(1)] entries_del(2)[OF n(2)]
      by (simp_all only: Cons.prems(2,3) x entries_simps fun_upd_upd) simp_all
  qed (use Cons.prems(4,5) l(3) x in simp_all)
  moreover have "us_mem self p = Some f" "upcb_pbufs pcb (fr_data f) = Some b" using Cons.prems(2,3) x by auto
  ultimately show ?case using l x
    by (subst udp_free_loop.simps) (simp add: hev_list_node_next_def pbuf_free_def)
qed

subsection \<open>Accepting datagrams\<close>

text \<open>A consistent cache whose names fit an address, or none.\<close>

definition dns_ok :: "mapped_dns option \<Rightarrow> bool" where
  "dns_ok dns \<longleftrightarrow> (\<forall>d. dns = Some d \<longrightarrow> md_addr_ok d \<and>
     (\<exists>c. md_rep d c \<and> (\<forall>k \<in> fst ` set c. 0 \<notin> set k \<and> length k \<le> 255)))"

text \<open>The message a delivered datagram stands for: its destination, or a mapped name for it, and the
  bytes of its first buffer.\<close>

definition message_of :: "bool \<Rightarrow> socks_addr \<times> bytes \<Rightarrow> ip_addr \<times> u16 \<times> pbuf \<Rightarrow> bool" where
  "message_of mapped = (\<lambda>(a, d) (ip, port, b). d = hd b \<and>
     (lwip_addr ip port = Some a \<or> mapped \<and> ip_type ip = IPADDR_TYPE_V4 \<and> (\<exists>n. a = SA_Name n port)))"

lemma from_lwip_total:
  assumes "dns_ok dns" "length junk = addr_size" "length (ip_bytes ip) = 16" "ip_type ip \<noteq> IPADDR_TYPE_ANY"
  shows "\<exists>a r dns'. hev_socks5_addr_from_lwip dns junk ip port = Some (0, encode_addr a @ r, dns') \<and> wf_addr a \<and>
    dns_ok dns' \<and> (dns' = None \<longleftrightarrow> dns = None) \<and> message_of (dns \<noteq> None) (a, hd b) (ip, port, b)"
proof -
  obtain a where a: "lwip_addr ip port = Some a" "wf_addr a" using assms(3,4) by (cases "ip_type ip") auto
  show ?thesis
  proof (cases "\<exists>d. dns = Some d \<and> ip_type ip = IPADDR_TYPE_V4")
    case False
    then have n: "ip_type ip = IPADDR_TYPE_V4 \<Longrightarrow> dns = None" by auto
    from from_lwip_ip[where dns = dns and dns' = dns, OF assms(2) _ a(1)] assms(3) n obtain r
      where "hev_socks5_addr_from_lwip dns junk ip port = Some (0, encode_addr a @ r, dns)" by auto
    with a assms(1) show ?thesis unfolding message_of_def by blast
  next
    case True
    then obtain d where d: "dns = Some d" "ip_type ip = IPADDR_TYPE_V4" by blast
    from assms(1) d obtain c where c: "md_addr_ok d" "md_rep d c" "\<forall>k \<in> fst ` set c. 0 \<notin> set k \<and> length k \<le> 255"
      by (auto simp: dns_ok_def)
    let ?i = "sint (ipv4_word ip AND NOT (md_mask d))"
    from lookup_refines[OF c(2) refl host_nonneg[OF c(1)], of "ipv4_word ip"] obtain d'
      where l: "hev_mapped_dns_lookup (ipv4_word ip) d = Some (fst (lru_lookup ?i c), d')" "md_frame d d'"
        "md_rep d' (snd (lru_lookup ?i c))" by blast
    have s: "set (snd (lru_lookup ?i c)) = set c" by (auto simp: lru_lookup_def lru_touch_def split: option.splits)
    have ok: "dns_ok (Some d')" using l c(1,3) s md_addr_ok_frame[OF l(2)] unfolding dns_ok_def by auto
    show ?thesis
    proof (cases "fst (lru_lookup ?i c)")
      case None
      with from_lwip_ip[where dns = dns and dns' = "Some d'", OF assms(2) _ a(1)] assms(3) d l(1) obtain r
        where "hev_socks5_addr_from_lwip dns junk ip port = Some (0, encode_addr a @ r, Some d')" by auto
      with a ok d show ?thesis unfolding message_of_def by blast
    next
      case (Some n)
      then have "n \<in> fst ` set c"
        by (auto simp: lru_lookup_def split: option.splits dest!: map_of_SomeD) force
      with c(3) have n: "0 \<notin> set n" "length n \<le> 255" by auto
      from from_lwip_name[OF assms(2) _ d(2) l(1)[unfolded Some] n, of port] assms(3) obtain r
        where "hev_socks5_addr_from_lwip dns junk ip port = Some (0, encode_addr (SA_Name n port) @ r, Some d')"
        using d(1) by auto
      moreover have "wf_addr (SA_Name n port)" using n by simp
      ultimately show ?thesis using ok d unfolding message_of_def by blast
    qed
  qed
qed

text \<open>\<open>carries\<close> relates a frame to the message it holds.\<close>

definition carries :: "udp_entry \<Rightarrow> socks_addr \<times> bytes \<Rightarrow> bool" where
  "carries = (\<lambda>(p, f, b) (a, d). wf_addr a \<and> (\<exists>r. fr_addr f = encode_addr a @ r) \<and> hd b = d)"

lemma carries_denotes: "carries e q \<Longrightarrow> denotes (entry_msg e) q \<and> wf_addr (fst q)"
  by (cases e; cases q) (auto simp: carries_def denotes_def)

text \<open>The state of the session while it runs: the messages \<open>qs\<close> are queued.\<close>

definition session_ok :: "hev_socks5_session_udp \<Rightarrow> udp_pcb \<Rightarrow> mapped_dns option \<Rightarrow> (socks_addr \<times> bytes) list \<Rightarrow> bool" where
  "session_ok self pcb dns qs \<longleftrightarrow> (\<exists>xs. udp_queue self pcb xs \<and> list_all2 carries xs qs) \<and>
     int (length qs) \<le> UDP_POOL_SIZE + 1 \<and> dns_ok dns \<and> us_task self \<noteq> NULL \<and>
     \<not> upcb_removed pcb \<and> (dns = None \<longrightarrow> us_addr self = 0)"

text \<open>What events may change: \<open>ds\<close> are the datagrams delivered.\<close>

definition event_step :: "hev_socks5_session_udp \<times> udp_pcb \<times> mapped_dns option \<Rightarrow>
    hev_socks5_session_udp \<times> udp_pcb \<times> mapped_dns option \<Rightarrow> (ip_addr \<times> u16 \<times> pbuf) list \<Rightarrow> bool" where
  "event_step = (\<lambda>(self, pcb, dns) (self', pcb', dns') ds.
     s5_type self' = s5_type self \<and> s5_fd self' = s5_fd self \<and> udp_fd self' = udp_fd self \<and>
     s5_udp_associated self' = s5_udp_associated self \<and> (s5_timeout self' = s5_timeout self \<or> s5_timeout self' = 0) \<and>
     us_task self' = us_task self \<and> us_pcb self' = us_pcb self \<and> upcb_sent pcb' = upcb_sent pcb \<and>
     upcb_rx pcb' = upcb_rx pcb @ ds \<and> (dns' = None \<longleftrightarrow> dns = None))"

lemma event_step_refl: "event_step s s []"
  by (simp add: event_step_def case_prod_unfold)

lemma event_step_trans: "event_step s t ds \<Longrightarrow> event_step t u es \<Longrightarrow> event_step s u (ds @ es)"
  by (auto simp: event_step_def case_prod_unfold)

text \<open>\<open>xs\<close> corresponds to a part of \<open>ys\<close>, in the same order.\<close>

definition embeds :: "('a \<Rightarrow> 'b \<Rightarrow> bool) \<Rightarrow> 'a list \<Rightarrow> 'b list \<Rightarrow> bool" where
  "embeds P xs ys \<longleftrightarrow> (\<exists>es. subseq es ys \<and> list_all2 P xs es)"

lemma embeds_Nil [simp]: "embeds P [] ys"
  unfolding embeds_def by (intro exI[of _ "[]"]) simp

lemma embeds_single: "P x y \<Longrightarrow> embeds P [x] [y]"
  unfolding embeds_def by (intro exI[of _ "[y]"]) simp

lemma embeds_append: "embeds P xs ys \<Longrightarrow> embeds P us vs \<Longrightarrow> embeds P (xs @ us) (ys @ vs)"
  unfolding embeds_def using list_emb_append_mono list_all2_appendI by metis

lemma udp_queue_cong:
  "udp_queue self pcb xs \<Longrightarrow> us_list self' = us_list self \<Longrightarrow> us_links self' = us_links self \<Longrightarrow>
    us_frames self' = us_frames self \<Longrightarrow> us_mem self' = us_mem self \<Longrightarrow> upcb_pbufs pcb' = upcb_pbufs pcb \<Longrightarrow>
    udp_queue self' pcb' xs"
  by (simp add: udp_queue_def)

lemma frame_malloc_cases:
  assumes "frame_malloc self = (fp, junk, self')"
  shows "\<exists>q. self' = self\<lparr>us_allocq := q\<rparr>" "fp \<noteq> NULL \<Longrightarrow> us_mem self fp = None \<and> length junk = addr_size"
  using assms by (auto simp: frame_malloc_def Let_def split: prod.splits if_splits)

lemma udp_queue_snoc:
  assumes q: "udp_queue self pcb xs" and fp: "fp \<noteq> NULL" "us_mem self fp = None" and p: "upcb_pbufs pcb (fr_data f) = None"
    and b: "b \<noteq> []"
  shows "\<exists>l lk. hev_list_add_tail (us_list self)
      ((us_links self)\<lparr>lnext := (lnext (us_links self))(fp := NULL), lprev := (lprev (us_links self))(fp := NULL)\<rparr>) fp = Some (l, lk) \<and>
    udp_queue (self\<lparr>us_frames := us_frames self + 1, us_list := l, us_links := lk, us_mem := (us_mem self)(fp \<mapsto> f)\<rparr>)
      (pcb\<lparr>upcb_pbufs := (upcb_pbufs pcb)(fr_data f \<mapsto> b)\<rparr>) (xs @ [(fp, f, b)])"
proof -
  have n: "fp \<notin> fst ` set xs" "fr_data f \<notin> set (datas xs)"
    using fp(2) p q by (simp_all add: udp_queue_def entries_none del: set_map)
  let ?lk = "(us_links self)\<lparr>lnext := (lnext (us_links self))(fp := NULL), lprev := (lprev (us_links self))(fp := NULL)\<rparr>"
  have "seg ?lk NULL (map fst xs) NULL = seg (us_links self) NULL (map fst xs) NULL"
    using n(1) by (intro seg_cong) auto
  then have "list_rep (us_list self) ?lk (map fst xs)"
    using q by (simp add: udp_queue_def list_rep_def)
  moreover have "fp \<notin> set (map fst xs)" using n(1) by simp
  ultimately obtain l lk where l: "hev_list_add_tail (us_list self) ?lk fp = Some (l, lk)" "list_rep l lk (map fst xs @ [fp])"
    using hl.add_tail_rep[OF _ fp(1)] by blast
  with q n b show ?thesis by (auto simp: udp_queue_def entries_snoc)
qed

text \<open>A datagram is queued as one message if there is room and memory, and dropped otherwise.\<close>

lemma udp_deliver_datagram:
  assumes ok: "session_ok self pcb dns qs" and "deliverable pcb ip p b"
  shows "\<exists>self' pcb' dns' new. udp_deliver (EvDatagram ip port p b) (self, pcb, dns) = Some (self', pcb', dns') \<and>
    session_ok self' pcb' dns' (qs @ new) \<and> event_step (self, pcb, dns) (self', pcb', dns') [(ip, port, b)] \<and>
    (if int (length qs) \<le> UDP_POOL_SIZE \<and> fst (frame_malloc self) \<noteq> NULL
     then \<exists>q. new = [q] \<and> message_of (dns \<noteq> None) q (ip, port, b)
     else new = [] \<and> upcb_pbufs pcb' = upcb_pbufs pcb)"
proof -
  note d = assms(2)[unfolded deliverable_def]
  let ?pcb1 = "pcb\<lparr>upcb_local_ip := ip, upcb_local_port := port, upcb_pbufs := (upcb_pbufs pcb)(p \<mapsto> b),
    upcb_rx := upcb_rx pcb @ [(ip, port, b)]\<rparr>"
  let ?pcb0 = "?pcb1\<lparr>upcb_pbufs := upcb_pbufs pcb\<rparr>"
  have run: "udp_deliver (EvDatagram ip port p b) (self, pcb, dns) = udp_recv_handler self ?pcb1 p dns" using assms(2) by simp
  have free: "pbuf_free p ?pcb1 = Some ?pcb0"
    using d by (simp add: pbuf_free_def fun_upd_idem)
  obtain xs where x: "udp_queue self pcb xs" "list_all2 carries xs qs" using ok by (auto simp: session_ok_def)
  have len: "us_frames self = int (length qs)" using x by (auto simp: udp_queue_def dest: list_all2_lengthD)
  have drop: ?thesis if "udp_recv_handler self ?pcb1 p dns = Some (self', ?pcb0, dns)" "self' = self \<or> (\<exists>q. self' = self\<lparr>us_allocq := q\<rparr>)"
    "\<not> (int (length qs) \<le> UDP_POOL_SIZE \<and> fst (frame_malloc self) \<noteq> NULL)" for self'
  proof -
    have "udp_queue self' ?pcb0 xs" using x(1) that(2) by (auto intro: udp_queue_cong)
    with x(2) ok that(2) have "session_ok self' ?pcb0 dns (qs @ [])" by (auto simp: session_ok_def)
    moreover have "event_step (self, pcb, dns) (self', ?pcb0, dns) [(ip, port, b)]"
      using that(2) by (auto simp: event_step_def)
    ultimately show ?thesis unfolding run that(1) if_not_P[OF that(3)]
      by (intro exI[of _ self'] exI[of _ ?pcb0] exI[of _ dns] exI[of _ "[]"]) simp
  qed
  show ?thesis
  proof (cases "us_frames self > UDP_POOL_SIZE")
    case True
    with free d have h: "udp_recv_handler self ?pcb1 p dns = Some (self, ?pcb0, dns)" by (simp add: udp_recv_handler_def)
    have "\<not> (int (length qs) \<le> UDP_POOL_SIZE \<and> fst (frame_malloc self) \<noteq> NULL)" using True len by simp
    from drop[OF h _ this] show ?thesis by blast
  next
    case room: False
    obtain fp junk self1 where m: "frame_malloc self = (fp, junk, self1)" by (cases "frame_malloc self")
    note mc = frame_malloc_cases[OF m]
    obtain aq where s1: "self1 = self\<lparr>us_allocq := aq\<rparr>" using mc(1) by blast
    show ?thesis
    proof (cases "fp = NULL")
      case True
      with free d room m have h: "udp_recv_handler self ?pcb1 p dns = Some (self1, ?pcb0, dns)" by (simp add: udp_recv_handler_def)
      have "\<not> (int (length qs) \<le> UDP_POOL_SIZE \<and> fst (frame_malloc self) \<noteq> NULL)" using m True by simp
      from drop[OF h _ this] s1 show ?thesis by blast
    next
      case False
      from from_lwip_total[of dns junk ip port b] ok d mc(2)[OF False] obtain a r dns' where
        a: "hev_socks5_addr_from_lwip dns junk ip port = Some (0, encode_addr a @ r, dns')" "wf_addr a" "dns_ok dns'"
          "dns' = None \<longleftrightarrow> dns = None" "message_of (dns \<noteq> None) (a, hd b) (ip, port, b)"
        by (auto simp: session_ok_def)
      obtain c cs where c: "encode_addr a @ r = c # cs" by (cases "encode_addr a @ r") auto
      define f where "f = \<lparr>fr_addr = encode_addr a @ r, fr_data = p\<rparr>"
      define self2 where "self2 = (if c = HEV_SOCKS5_ADDR_TYPE_NAME
          then self1\<lparr>us_addr := load32 (take 4 (ip_bytes ip)), us_port := uint port\<rparr> else self1)"
      have q2: "udp_queue self2 ?pcb0 xs" using x(1) by (auto simp: self2_def s1 intro: udp_queue_cong)
      have m2: "us_mem self2 fp = None" "us_list self2 = us_list self1" "us_links self2 = us_links self1" "us_frames self2 = us_frames self"
        using mc(2)[OF False] by (simp_all add: self2_def s1)
      have p2: "upcb_pbufs ?pcb0 (fr_data f) = None" "b \<noteq> []" using d by (simp_all add: f_def)
      from udp_queue_snoc[OF q2 False m2(1) p2] obtain l lk where
        l: "hev_list_add_tail (us_list self2) ((us_links self2)\<lparr>lnext := (lnext (us_links self2))(fp := NULL),
            lprev := (lprev (us_links self2))(fp := NULL)\<rparr>) fp = Some (l, lk)"
          "udp_queue (self2\<lparr>us_frames := us_frames self2 + 1, us_list := l, us_links := lk, us_mem := (us_mem self2)(fp \<mapsto> f)\<rparr>)
            (?pcb0\<lparr>upcb_pbufs := (upcb_pbufs ?pcb0)(fr_data f \<mapsto> b)\<rparr>) (xs @ [(fp, f, b)])" by blast
      let ?self = "self2\<lparr>us_frames := us_frames self2 + 1, us_list := l, us_links := lk, us_mem := (us_mem self2)(fp \<mapsto> f)\<rparr>"
      have e1: "?pcb0\<lparr>upcb_pbufs := (upcb_pbufs ?pcb0)(fr_data f \<mapsto> b)\<rparr> = ?pcb1" by (simp add: f_def)
      have t: "us_task self2 \<noteq> NULL" using ok by (simp add: session_ok_def self2_def s1)
      have h: "udp_recv_handler self ?pcb1 p dns = Some (?self, ?pcb1, dns')"
        using d room False m a(1) c l(1) m2 t
        by (cases "c = 3") (simp_all add: udp_recv_handler_def rd8_def self2_def f_def hev_task_wakeup_def Let_def s1)
      have "carries (fp, f, b) (a, hd b)" using a(2) by (simp add: carries_def f_def)
      with x(2) have ca: "list_all2 carries (xs @ [(fp, f, b)]) (qs @ [(a, hd b)])" by (simp add: list_all2_appendI)
      have l1: "int (length (qs @ [(a, hd b)])) \<le> UDP_POOL_SIZE + 1" using len room by simp
      have na: "us_addr ?self = 0" if "dns' = None"
      proof -
        have "dns = None" "us_addr self = 0" using that a(4) ok by (auto simp: session_ok_def)
        moreover then have "lwip_addr ip port = Some a" using a(5) by (simp add: message_of_def)
        then have "c \<noteq> 3" using c d by (cases "ip_type ip") auto
        ultimately show ?thesis by (simp add: self2_def s1)
      qed
      have "session_ok ?self ?pcb1 dns' (qs @ [(a, hd b)])"
        unfolding session_ok_def using l(2)[unfolded e1] ca l1 a(3) t na ok
        by (auto simp: session_ok_def self2_def s1)
      moreover have "event_step (self, pcb, dns) (?self, ?pcb1, dns') [(ip, port, b)]"
        using a(4) by (simp add: event_step_def self2_def s1)
      moreover have "int (length qs) \<le> UDP_POOL_SIZE \<and> fst (frame_malloc self) \<noteq> NULL" using len room m False by simp
      ultimately show ?thesis unfolding run h using a(5)
        by (intro exI[of _ ?self] exI[of _ ?pcb1] exI[of _ dns'] exI[of _ "[(a, hd b)]"]) simp
    qed
  qed
qed

lemma udp_deliver_ok:
  assumes ok: "session_ok self pcb dns qs"
  shows "\<exists>self' pcb' dns' new ds. udp_deliver e (self, pcb, dns) = Some (self', pcb', dns') \<and>
    session_ok self' pcb' dns' (qs @ new) \<and> event_step (self, pcb, dns) (self', pcb', dns') ds \<and>
    embeds (message_of (dns \<noteq> None)) new ds"
proof (cases e)
  case EvEnd
  have "udp_deliver e (self, pcb, dns) = Some (hev_socks5_set_timeout 0 self, pcb, dns)"
    using ok by (simp add: EvEnd session_udp_terminate_def hev_task_wakeup_def session_ok_def hev_socks5_set_timeout_def Let_def)
  moreover have "session_ok (hev_socks5_set_timeout 0 self) pcb dns (qs @ [])"
  proof -
    have "udp_queue (hev_socks5_set_timeout 0 self) pcb xs" if "udp_queue self pcb xs" for xs
      using that by (rule udp_queue_cong) (simp_all add: hev_socks5_set_timeout_def)
    with ok show ?thesis by (auto simp: session_ok_def hev_socks5_set_timeout_def)
  qed
  moreover have "event_step (self, pcb, dns) (hev_socks5_set_timeout 0 self, pcb, dns) []"
    by (simp add: event_step_def hev_socks5_set_timeout_def)
  ultimately show ?thesis using embeds_Nil by blast
next
  case (EvDatagram ip port p b)
  show ?thesis
  proof (cases "deliverable pcb ip p b")
    case False
    then have "udp_deliver e (self, pcb, dns) = Some (self, pcb, dns)" by (simp add: EvDatagram)
    with ok event_step_refl embeds_Nil show ?thesis by (metis append_Nil2)
  next
    case True
    from udp_deliver_datagram[OF ok True, of port] obtain self' pcb' dns' new where
      r: "udp_deliver e (self, pcb, dns) = Some (self', pcb', dns')" "session_ok self' pcb' dns' (qs @ new)"
        "event_step (self, pcb, dns) (self', pcb', dns') [(ip, port, b)]"
        "if int (length qs) \<le> UDP_POOL_SIZE \<and> fst (frame_malloc self) \<noteq> NULL
         then \<exists>q. new = [q] \<and> message_of (dns \<noteq> None) q (ip, port, b)
         else new = [] \<and> upcb_pbufs pcb' = upcb_pbufs pcb"
      unfolding EvDatagram by blast
    then have "embeds (message_of (dns \<noteq> None)) new [(ip, port, b)]" by (auto intro: embeds_single split: if_splits)
    with r show ?thesis by blast
  qed
qed

lemma udp_deliver_all_ok:
  assumes "session_ok self pcb dns qs"
  shows "\<exists>self' pcb' dns' new ds. udp_deliver_all es (self, pcb, dns) = Some (self', pcb', dns') \<and>
    session_ok self' pcb' dns' (qs @ new) \<and> event_step (self, pcb, dns) (self', pcb', dns') ds \<and>
    embeds (message_of (dns \<noteq> None)) new ds"
  using assms
proof (induction es arbitrary: self pcb dns qs)
  case Nil
  then show ?case using event_step_refl embeds_Nil by (metis append_Nil2 udp_deliver_all.simps(1))
next
  case (Cons e es)
  from udp_deliver_ok[OF Cons.prems, of e] obtain self1 pcb1 dns1 new1 ds1 where
    a: "udp_deliver e (self, pcb, dns) = Some (self1, pcb1, dns1)" "session_ok self1 pcb1 dns1 (qs @ new1)"
      "event_step (self, pcb, dns) (self1, pcb1, dns1) ds1" "embeds (message_of (dns \<noteq> None)) new1 ds1" by blast
  from Cons.IH[OF a(2)] obtain self2 pcb2 dns2 new2 ds2 where
    b: "udp_deliver_all es (self1, pcb1, dns1) = Some (self2, pcb2, dns2)" "session_ok self2 pcb2 dns2 ((qs @ new1) @ new2)"
      "event_step (self1, pcb1, dns1) (self2, pcb2, dns2) ds2" "embeds (message_of (dns1 \<noteq> None)) new2 ds2" by blast
  have "dns1 \<noteq> None \<longleftrightarrow> dns \<noteq> None" using a(3) by (auto simp: event_step_def)
  with a(4) b(4) have "embeds (message_of (dns \<noteq> None)) (new1 @ new2) (ds1 @ ds2)" by (simp add: embeds_append)
  moreover have "udp_deliver_all (e # es) (self, pcb, dns) = Some (self2, pcb2, dns2)" using a(1) b(1) by simp
  ultimately show ?case using b(2) event_step_trans[OF a(3) b(3)] by (metis append.assoc)
qed

end
