(* ===== verification/UdpTransport.thy ===== *)
theory UdpTransport
  imports SessionUDP
begin

section \<open>The two transports of a UDP association\<close>

text \<open>
  The contract a UDP session relies on, as the locale \<open>udp_transport\<close>, and the proofs that a TCP
  association (framed messages on a stream) and a UDP association (relay datagrams) meet it.
\<close>

subsection \<open>Streams that never give up\<close>

text \<open>\<open>rx_live\<close>: every wait on the stream ends in time and it does not end or fail.\<close>

definition rx_live :: "rx_ev list \<Rightarrow> bool" where
  "rx_live q \<longleftrightarrow> (\<forall>ev \<in> set q. case ev of RxData bs \<Rightarrow> bs \<noteq> [] | RxAgain v \<Rightarrow> 0 < v | _ \<Rightarrow> False)"

lemma sys_recv_live: "sys_recv n s = (r, s') \<Longrightarrow> rx_live (rxq s) \<Longrightarrow> rx_live (rxq s')"
proof -
  assume r: "sys_recv n s = (r, s')" and l: "rx_live (rxq s)"
  show ?thesis
  proof (cases "rxq s")
    case (Cons ev q)
    with r l show ?thesis by (cases ev) (auto simp: sys_recv_def rx_live_def split: if_splits)
  qed (use r l in \<open>auto simp: sys_recv_def\<close>)
qed

lemma task_recv_loop_live:
  "task_recv_loop y len wa dw got s = Some (r, bs, s') \<Longrightarrow> rx_live (rxq s) \<Longrightarrow> rx_live (rxq s')"
proof (induction y len wa dw got s rule: task_recv_loop.induct)
  case (1 y len wa dw got s)
  obtain q s1 where q: "sys_recv (len - length got) s = (q, s1)" by fastforce
  note unf = task_recv_loop.simps[of y len wa dw got s]
  have l: "rx_live (rxq s1)" using sys_recv_live[OF q "1.prems"(2)] .
  show ?case
  proof (cases q)
    case (SysOk d)
    show ?thesis
    proof (cases "wa \<and> d \<noteq> [] \<and> length got + length d < len")
      case True
      with "1.prems"(1)[unfolded unf] q SysOk have "task_recv_loop y len wa dw (got @ d) s1 = Some (r, bs, s')" by (simp add: Let_def)
      with "1.IH"(1)[OF refl refl q[symmetric] SysOk] True l show ?thesis by simp
    next
      case False
      with "1.prems"(1)[unfolded unf] q SysOk l show ?thesis by (auto simp: Let_def split: if_splits)
    qed
  next
    case (SysAgain v)
    show ?thesis
    proof (cases "\<not> dw \<and> \<not> y v \<and> rxq s \<noteq> []")
      case True
      with "1.prems"(1)[unfolded unf] q SysAgain have "task_recv_loop y len wa dw got s1 = Some (r, bs, s')" by (simp add: Let_def)
      with "1.IH"(2)[OF refl refl q[symmetric] SysAgain] True l show ?thesis by simp
    next
      case False
      with "1.prems"(1)[unfolded unf] q SysAgain l show ?thesis by (auto simp: Let_def split: if_splits)
    qed
  next
    case SysErr
    with "1.prems"(1)[unfolded unf] q l show ?thesis by (auto simp: Let_def split: if_splits)
  qed
qed

lemma net_recv_live:
  "net_recv t fd len wa dw w = Some (r, bs, w') \<Longrightarrow> rx_live (rxq (sk w fd)) \<Longrightarrow> rx_live (rxq (sk w' fd))"
  by (auto simp: net_recv_def hev_task_io_socket_recv_def Option.bind_eq_Some_conv split: if_splits
      dest: task_recv_loop_live)

lemma udp_read_head_live:
  "udp_read_head t fd nb w = Some (r, h, w') \<Longrightarrow> rx_live (rxq (sk w fd)) \<Longrightarrow> rx_live (rxq (sk w' fd))"
  by (auto simp: udp_read_head_def Option.bind_eq_Some_conv split: if_splits dest: net_recv_live)

lemma udp_recv_tcp_loop_live:
  "udp_recv_tcp_loop t fd nb n ms w = Some (r, ms', w') \<Longrightarrow> rx_live (rxq (sk w fd)) \<Longrightarrow> rx_live (rxq (sk w' fd))"
proof (induction ms arbitrary: n w r ms')
  case (Cons m ms)
  from Cons.prems(1) obtain res hd w1 where h: "udp_read_head t fd nb w = Some (res, hd, w1)"
    by (auto simp: Option.bind_eq_Some_conv)
  have l1: "rx_live (rxq (sk w1 fd))" using udp_read_head_live[OF h Cons.prems(2)] .
  have l2: "net_recvmsg t fd iov w1 = Some (res', body, w2) \<Longrightarrow> rx_live (rxq (sk w2 fd))" for iov res' body w2
    using net_recv_live l1 unfolding net_recvmsg_eq by blast
  show ?case using Cons.prems(1) h l1
    by (auto simp: Option.bind_eq_Some_conv Let_def split: if_splits prod.splits dest!: l2 dest: Cons.IH)
qed simp

lemma input_live: "rx_live q \<Longrightarrow> 0 \<le> t \<Longrightarrow> stream (io_wait t) q = rx_bytes q"
  by (induction q) (auto simp: rx_live_def split: rx_ev.splits)

lemma rx_bytes_live_empty: "rx_live q \<Longrightarrow> rx_bytes q = [] \<Longrightarrow> \<forall>ev \<in> set q. \<exists>v. ev = RxAgain v"
  by (induction q) (auto simp: rx_live_def split: rx_ev.splits)

lemma read_head_none:
  assumes "fd \<in> set (fds w)" "rx_live (rxq (sk w fd))" "sock_rest fd w = []"
  shows "\<exists>w'. udp_read_head t fd True w = Some (-1, [], w') \<and> errno (sk w' fd) = EAGAIN \<and>
    fds w' = fds w \<and> txq (sk w' fd) = txq (sk w fd) \<and> net_out fd w' = net_out fd w \<and> sock_rest fd w' = []"
proof -
  from rx_bytes_live_empty[OF assms(2,3)] have a: "rxq (sk w fd) = [] \<or> (\<exists>v q. rxq (sk w fd) = RxAgain v # q)"
    by (cases "rxq (sk w fd)") auto
  then show ?thesis using assms(1,3)
    by (auto simp: udp_read_head_def net_recv_def hev_task_io_socket_recv_def task_recv_loop.simps sys_recv_def)
qed

lemma net_sendmsg_rxq: "net_sendmsg t fd iov w = Some (r, w') \<Longrightarrow> rxq (sk w' fd) = rxq (sk w fd) \<and> fds w' = fds w \<and> dsk w' = dsk w"
  using send_prefix[of "io_wait t" "concat iov" True False "sk w fd"]
  by (auto simp: net_sendmsg_eq net_send_def Option.bind_eq_Some_conv split: if_splits)


subsection \<open>The contract of a transport\<close>

text \<open>
  What the session relies on, for either kind of association: \<open>good fd fs w\<close> says that the
  association on \<open>fd\<close> works and that the relay will still deliver the messages \<open>fs\<close>; \<open>out\<close> is what was
  sent, \<open>enc\<close> the encoding of a message.
\<close>

definition assoc_ok :: "socks5_type \<Rightarrow> 'a hev_socks5_scheme \<Rightarrow> bool" where
  "assoc_ok type self \<longleftrightarrow> s5_type self = type \<and> 0 \<le> s5_timeout self \<and>
     (type = HEV_SOCKS5_TYPE_UDP_IN_UDP \<longrightarrow> s5_udp_associated self)"

locale udp_transport =
  fixes type :: socks5_type
    and good :: "int \<Rightarrow> (socks_addr \<times> bytes) list \<Rightarrow> net \<Rightarrow> bool"
    and out :: "int \<Rightarrow> net \<Rightarrow> 'o list"
    and enc :: "socks_addr \<times> bytes \<Rightarrow> 'o list"
  assumes send: "assoc_ok type (self :: hev_socks5_session_udp) \<Longrightarrow> good fd fs w \<Longrightarrow> list_all2 denotes ms qs \<Longrightarrow> \<forall>q \<in> set qs. wf_addr (fst q) \<Longrightarrow>
        qs \<noteq> [] \<Longrightarrow> \<exists>w'. hev_socks5_udp_sendmmsg self fd ms w = Some (int (length qs), self, w') \<and> good fd fs w' \<and>
          out fd w' = out fd w @ concat (map enc qs)"
    and recv: "assoc_ok type (self :: hev_socks5_session_udp) \<Longrightarrow> good fd fs w \<Longrightarrow> 0 < num \<Longrightarrow>
        \<exists>k ms w'. hev_socks5_udp_recvmmsg self fd True (udp_slots num stack) w = Some (if k = 0 then -1 else int k, ms, self, w') \<and>
          k \<le> num \<and> k \<le> length fs \<and> list_all2 denotes (take k ms) (take k fs) \<and> good fd (drop k fs) w' \<and>
          out fd w' = out fd w \<and> (k = 0 \<longrightarrow> recv_errno self fd w w' = EAGAIN)"
    and poll: "assoc_ok type (self :: hev_socks5_session_udp) \<Longrightarrow> good fd fs w \<Longrightarrow> udp_task_io_yielder self ty v (s5_timeout self, w) = (r, t', w') \<Longrightarrow>
        good fd fs w' \<and> out fd w' = out fd w \<and> 0 \<le> t'"
    and errno: "good fd fs w \<Longrightarrow> good fd fs (set_errno e fd w) \<and> out fd (set_errno e fd w) = out fd w"
    and register: "good fd fs w \<Longrightarrow> good fd fs (snd (hev_task_add_fd fd w)) \<and> out fd (snd (hev_task_add_fd fd w)) = out fd w"
    and small: "good fd fs w \<Longrightarrow> \<forall>f \<in> set fs. wf_addr (fst f) \<and> length (snd f) < 65536"

subsection \<open>The TCP transport\<close>

definition fits :: "socks_addr \<times> bytes \<Rightarrow> bool" where
  "fits f \<longleftrightarrow> framable f \<and> length (encode_addr (fst f)) + length (snd f) \<le> UDP_BUF_SIZE"

definition tcp_good :: "int \<Rightarrow> (socks_addr \<times> bytes) list \<Rightarrow> net \<Rightarrow> bool" where
  "tcp_good fd fs w \<longleftrightarrow> fd \<in> set (fds w) \<and> tx_fine (\<lambda>v. v \<le> 0) (txq (sk w fd)) \<and> rx_live (rxq (sk w fd)) \<and>
     sock_rest fd w = concat (map frame fs) \<and> (\<forall>f \<in> set fs. fits f)"

lemma io_wait_pos: "0 \<le> t \<Longrightarrow> io_wait t = (\<lambda>v. v \<le> 0)"
  by (rule ext) simp

lemma tcp_good_in: "tcp_good fd fs w \<Longrightarrow> 0 \<le> t \<Longrightarrow> net_in t fd w = concat (map frame fs)"
  using input_live[of "rxq (sk w fd)" t] by (simp add: tcp_good_def del: io_wait_iff)

lemma slots_nth: "length (udp_slots n stack) = n"
  "m \<in> set (udp_slots n stack) \<Longrightarrow> m_len m = UDP_BUF_SIZE \<and> length (m_buf m) = UDP_BUF_SIZE"
  by (auto simp: udp_slots_def)

lemma slot_fits: "m_len m = UDP_BUF_SIZE \<Longrightarrow> length (m_buf m) = UDP_BUF_SIZE \<Longrightarrow> fits f \<Longrightarrow> buffer_for m f"
  by (simp add: fits_def buffer_for_def)

lemma tcp_good_step:
  assumes g: "tcp_good fd fs w" and s: "io_step t fd [] (concat (map frame (take k fs))) w w'" "0 \<le> t"
    and l: "rx_live (rxq (sk w' fd))"
  shows "tcp_good fd (drop k fs) w' \<and> net_out fd w' = net_out fd w"
proof -
  have "net_in t fd w = concat (map frame (take k fs)) @ concat (map frame (drop k fs))"
    unfolding tcp_good_in[OF g s(2)] by (metis append_take_drop_id concat_append map_append)
  from io_step_rest[OF s(1) this] have "sock_rest fd w' = concat (map frame (drop k fs))"
    using input_live[OF l s(2)] by simp
  moreover have "tx_fine (\<lambda>v. v \<le> 0) (txq (sk w' fd))"
    using io_stepD(3)[OF s(1)] g s(2) by (simp add: tcp_good_def io_wait_pos del: io_wait_iff)
  moreover have "\<forall>f \<in> set (drop k fs). fits f" using g by (auto simp: tcp_good_def dest: in_set_dropD)
  ultimately show ?thesis using io_stepD[OF s(1)] g l by (simp add: tcp_good_def)
qed

lemma udp_recv_tcp_slots:
  assumes "\<forall>m \<in> set ms. m_len m = UDP_BUF_SIZE \<and> length (m_buf m) = UDP_BUF_SIZE" "tcp_good fd fs w" "0 \<le> t"
  shows "\<exists>k ms' w'. udp_recv_tcp_loop t fd True n ms w = Some (if n + k = 0 \<and> ms \<noteq> [] then -1 else int (n + k), ms', w') \<and>
    k \<le> length ms \<and> k \<le> length fs \<and> list_all2 denotes (take k ms') (take k fs) \<and> tcp_good fd (drop k fs) w' \<and>
    net_out fd w' = net_out fd w \<and> (n + k = 0 \<and> ms \<noteq> [] \<longrightarrow> errno (sk w' fd) = EAGAIN)"
  using assms
proof (induction ms arbitrary: fs w n)
  case Nil
  then show ?case by (intro exI[of _ 0]) auto
next
  case (Cons m ms)
  note g = Cons.prems(2)[unfolded tcp_good_def]
  show ?case
  proof (cases fs)
    case Nil
    with read_head_none[of fd w t] g obtain w' where h: "udp_read_head t fd True w = Some (-1, [], w')"
      "errno (sk w' fd) = EAGAIN" "fds w' = fds w" "txq (sk w' fd) = txq (sk w fd)" "net_out fd w' = net_out fd w"
      "sock_rest fd w' = []" by auto
    have "rx_live (rxq (sk w' fd))" using udp_read_head_live[OF h(1)] g by simp
    with h Nil g show ?thesis by (intro exI[of _ 0] exI[of _ "m # ms"] exI[of _ w']) (simp add: tcp_good_def)
  next
    case (Cons f fs')
    have f: "fits f" "framable f" "fd \<in> set (fds w)" using g Cons by (auto simp: fits_def)
    have b: "buffer_for m f" using slot_fits[OF _ _ f(1), of m] Cons.prems(1) by simp
    have i: "net_in t fd w = frame f @ concat (map frame fs')" using tcp_good_in[OF Cons.prems(2,3)] Cons by simp
    have live: "rx_live (rxq (sk w fd))" using g by simp
    from udp_recv_tcp_frame[OF f(3,2) b i, of True] show ?thesis
    proof (elim disjE exE conjE)
      fix w1 assume s: "io_step t fd [] (frame f) w w1"
        and run: "\<forall>n ms. udp_recv_tcp_loop t fd True n (m # ms) w = udp_recv_tcp_loop t fd True (Suc n) ms w1 \<bind>
          (\<lambda>(r, ms, w). Some (r, received (m_buf m) f # ms, w))"
      have "udp_recv_tcp_loop t fd True n [m] w = Some (int (Suc n), [received (m_buf m) f], w1)"
        unfolding run[rule_format] by simp
      then have l1: "rx_live (rxq (sk w1 fd))" using udp_recv_tcp_loop_live live by blast
      from tcp_good_step[OF Cons.prems(2), of t 1 w1] s l1 Cons Cons.prems(3)
      have g1: "tcp_good fd fs' w1" "net_out fd w1 = net_out fd w" by auto
      from Cons.IH[OF _ g1(1) Cons.prems(3), of "Suc n"] Cons.prems(1) obtain k ms' w'
        where r: "udp_recv_tcp_loop t fd True (Suc n) ms w1 = Some (int (Suc n + k), ms', w')" "k \<le> length ms" "k \<le> length fs'"
          "list_all2 denotes (take k ms') (take k fs')" "tcp_good fd (drop k fs') w'" "net_out fd w' = net_out fd w1" by auto
      from r g1(2) run Cons received_denotes[of "m_buf m" f] show ?thesis
        by (intro exI[of _ "Suc k"] exI[of _ "received (m_buf m) f # ms'"] exI[of _ w']) simp
    next
      fix w1 assume s: "io_step t fd [] [] w w1" "errno (sk w1 fd) = EAGAIN"
        and run: "\<forall>n ms. udp_recv_tcp_loop t fd True n (m # ms) w = Some (if 0 < n then int n else -1, m # ms, w1)"
      have "rx_live (rxq (sk w1 fd))" using udp_recv_tcp_loop_live[OF run[rule_format] live] .
      from tcp_good_step[OF Cons.prems(2), of t 0 w1] s this Cons.prems(3)
      have "tcp_good fd fs w1" "net_out fd w1 = net_out fd w" by auto
      with run s show ?thesis by (intro exI[of _ 0] exI[of _ "m # ms"] exI[of _ w1]) auto
    qed
  qed
qed

lemma tcp_send:
  assumes "assoc_ok HEV_SOCKS5_TYPE_UDP_IN_TCP self" "tcp_good fd fs w" "list_all2 denotes ms qs"
    "\<forall>q \<in> set qs. wf_addr (fst q)" "qs \<noteq> []"
  shows "\<exists>w'. hev_socks5_udp_sendmmsg self fd ms w = Some (int (length qs), self, w') \<and> tcp_good fd fs w' \<and>
    net_out fd w' = net_out fd w @ concat (map frame qs)"
proof -
  let ?t = "s5_timeout self"
  have a: "s5_type self = HEV_SOCKS5_TYPE_UDP_IN_TCP" "0 \<le> ?t" using assms(1) by (simp_all add: assoc_ok_def)
  have g: "fd \<in> set (fds w)" "net_tx_fine ?t fd w" using assms(2) a(2) by (simp_all add: tcp_good_def)
  from sendmmsg_tcp_step[OF assms(3,4,5) g] obtain w' where
    s: "hev_socks5_udp_sendmmsg_tcp self fd ms w = Some (int (length qs), self, w')"
      "io_step ?t fd (concat (map frame qs)) [] w w'" by blast
  from s(1) obtain iov r where "net_sendmsg ?t fd iov w = Some (r, w')"
    by (auto simp: hev_socks5_udp_sendmmsg_tcp_def Option.bind_eq_Some_conv split: option.splits if_splits)
  from net_sendmsg_rxq[OF this] have "rxq (sk w' fd) = rxq (sk w fd)" "fds w' = fds w" by auto
  moreover have "tx_fine (\<lambda>v. v \<le> 0) (txq (sk w' fd))"
    using io_stepD(3)[OF s(2) g(2)] a(2) by (simp add: io_wait_pos del: io_wait_iff)
  ultimately show ?thesis using s assms(2) a(1) io_stepD(1)[OF s(2)]
    by (simp add: hev_socks5_udp_sendmmsg_def tcp_good_def)
qed

lemma tcp_recv:
  assumes "assoc_ok HEV_SOCKS5_TYPE_UDP_IN_TCP self" "tcp_good fd fs w" "0 < num"
  shows "\<exists>k ms w'. hev_socks5_udp_recvmmsg self fd True (udp_slots num stack) w = Some (if k = 0 then -1 else int k, ms, self, w') \<and>
    k \<le> num \<and> k \<le> length fs \<and> list_all2 denotes (take k ms) (take k fs) \<and> tcp_good fd (drop k fs) w' \<and>
    net_out fd w' = net_out fd w \<and> (k = 0 \<longrightarrow> recv_errno self fd w w' = EAGAIN)"
proof -
  have a: "s5_type self = HEV_SOCKS5_TYPE_UDP_IN_TCP" "0 \<le> s5_timeout self" using assms(1) by (simp_all add: assoc_ok_def)
  have "\<forall>m \<in> set (udp_slots num stack). m_len m = UDP_BUF_SIZE \<and> length (m_buf m) = UDP_BUF_SIZE" using slots_nth(2) by blast
  from udp_recv_tcp_slots[OF this assms(2) a(2), of 0] obtain k ms w' where
    r: "udp_recv_tcp_loop (s5_timeout self) fd True 0 (udp_slots num stack) w =
        Some (if k = 0 \<and> udp_slots num stack \<noteq> [] then -1 else int k, ms, w')" "k \<le> length (udp_slots num stack)" "k \<le> length fs"
      "list_all2 denotes (take k ms) (take k fs)" "tcp_good fd (drop k fs) w'" "net_out fd w' = net_out fd w"
      "k = 0 \<and> udp_slots num stack \<noteq> [] \<longrightarrow> errno (sk w' fd) = EAGAIN" unfolding add_0 by blast
  have ne: "udp_slots num stack \<noteq> []" using assms(3) slots_nth(1)[of num stack] by (metis list.size(3) less_irrefl)
  have "fd \<in> set (fds w)" using assms(2) by (simp add: tcp_good_def)
  with r ne a slots_nth(1)[of num stack] show ?thesis
    by (intro exI[of _ k] exI[of _ ms] exI[of _ w'])
      (simp add: hev_socks5_udp_recvmmsg_def hev_socks5_udp_recvmmsg_tcp_def recv_errno_def)
qed

interpretation over_tcp: udp_transport HEV_SOCKS5_TYPE_UDP_IN_TCP tcp_good net_out frame
proof
  show "tcp_good fd fs w' \<and> net_out fd w' = net_out fd w \<and> 0 \<le> t'"
    if "assoc_ok HEV_SOCKS5_TYPE_UDP_IN_TCP self" "tcp_good fd fs w"
      "udp_task_io_yielder self ty v (s5_timeout self, w) = (r, t', w')" for self fd fs w ty v r t' w'
    using that by (auto simp: udp_task_io_yielder_def assoc_ok_def)
  show "tcp_good fd fs (set_errno e fd w) \<and> net_out fd (set_errno e fd w) = net_out fd w" if "tcp_good fd fs w" for fd fs w e
    using that by (simp add: tcp_good_def set_errno_def)
  show "tcp_good fd fs (snd (hev_task_add_fd fd w)) \<and> net_out fd (snd (hev_task_add_fd fd w)) = net_out fd w" if "tcp_good fd fs w" for fd fs w
    using that by (simp add: tcp_good_def hev_task_add_fd_def)
  show "\<forall>f \<in> set fs. wf_addr (fst f) \<and> length (snd f) < 65536" if "tcp_good fd fs w" for fd fs w
    using that by (auto simp: tcp_good_def fits_def framable_def)
qed (rule tcp_send tcp_recv; assumption)+

subsection \<open>The datagram transport\<close>

fun dg_live :: "'a dg_ev list \<Rightarrow> (socks_addr \<times> bytes) list \<Rightarrow> bool" where
  "dg_live [] fs = (fs = [])"
| "dg_live (DgAgain v # q) fs = dg_live q fs"
| "dg_live (DgErr # q) fs = False"
| "dg_live (DgData src d # q) fs = (case fs of [] \<Rightarrow> False
     | f # fs \<Rightarrow> d = datagram f \<and> wf_addr (fst f) \<and> length d \<le> UDP_BUF_SIZE \<and> dg_live q fs)"

abbreviation dg_out :: "int \<Rightarrow> net \<Rightarrow> (sockaddr6 option \<times> bytes) list" where
  "dg_out fd w \<equiv> dg_sent (dsk w fd)"

definition dg_good :: "int \<Rightarrow> (socks_addr \<times> bytes) list \<Rightarrow> net \<Rightarrow> bool" where
  "dg_good fd fs w \<longleftrightarrow> fd \<in> set (fds w) \<and> (\<forall>ev \<in> set (dg_txq (dsk w fd)). \<exists>k. ev = TxRoom (Suc k)) \<and>
     dg_live (dg_rxq (dsk w fd)) fs"

lemma dg_live_wf: "dg_live q fs \<Longrightarrow> \<forall>f \<in> set fs. wf_addr (fst f) \<and> length (datagram f) \<le> UDP_BUF_SIZE"
proof (induction q fs rule: dg_live.induct)
  case (4 src d q fs)
  then show ?case by (auto split: list.splits)
qed auto

lemma take_dgs_live:
  "dg_live q fs \<Longrightarrow> take_dgs (replicate n UDP_BUF_SIZE) q = (ds, q') \<Longrightarrow>
    \<exists>qs. ds = map (\<lambda>(src, f). (src, datagram f)) qs \<and> map snd qs = take (length ds) fs \<and> length ds \<le> length fs \<and>
      length ds \<le> n \<and> dg_live q' (drop (length ds) fs)"
proof (induction q arbitrary: n fs ds q')
  case Nil
  then show ?case by (cases n) auto
next
  case (Cons ev q)
  show ?case
  proof (cases "\<exists>src d m. ev = DgData src d \<and> n = Suc m")
    case False
    with Cons.prems show ?thesis by (cases n; cases ev) auto
  next
    case True
    then obtain src d m where ev: "ev = DgData src d" "n = Suc m" by blast
    with Cons.prems(1) obtain f fs' where f: "fs = f # fs'" "d = datagram f" "length d \<le> UDP_BUF_SIZE" "dg_live q fs'"
      by (auto split: list.splits)
    obtain ds1 q1 where t: "take_dgs (replicate m UDP_BUF_SIZE) q = (ds1, q1)" by fastforce
    from Cons.IH[OF f(4) t] obtain qs where
      "ds1 = map (\<lambda>(src, f). (src, datagram f)) qs" "map snd qs = take (length ds1) fs'" "length ds1 \<le> length fs'"
      "length ds1 \<le> m" "dg_live q1 (drop (length ds1) fs')" by blast
    with Cons.prems(2) ev f t show ?thesis by (intro exI[of _ "(src, f) # qs"]) auto
  qed
qed

lemma udp_store_extra: "length ds = length ms \<Longrightarrow> udp_store (ms @ ex) ds = map_option (\<lambda>m. m @ ex) (udp_store ms ds)"
proof (induction ms arbitrary: ds)
  case Nil
  then show ?case by (cases ex) auto
next
  case (Cons m ms)
  then obtain s d ds' where "ds = (s, d) # ds'" by (cases ds) auto
  with Cons show ?case by (cases "wr (m_buf m) 0 d"; cases "udp_store ms ds'") auto
qed

lemma udp_parse_extra:
  "length ls = length ms \<Longrightarrow> udp_parse_loop (ms @ ex) ls = map_option (\<lambda>(ok, m). (ok, m @ ex)) (udp_parse_loop ms ls)"
proof (induction ms arbitrary: ls)
  case Nil
  then show ?case by (cases ex) auto
next
  case (Cons m ms)
  then obtain l ls' where l: "ls = l # ls'" by (cases ls) auto
  with Cons show ?case
    by (cases "hev_socks5_addr_len (drop 3 (m_buf m))"; cases "udp_parse_loop ms ls'") (auto simp: Let_def)
qed

lemma udp_store_length: "udp_store ms ds = Some ms' \<Longrightarrow> length ms' = length ms"
  by (induction ms ds arbitrary: ms' rule: udp_store.induct) (auto simp: Option.bind_eq_Some_conv)

lemma dg_recv:
  assumes "assoc_ok HEV_SOCKS5_TYPE_UDP_IN_UDP self" "dg_good fd fs w" "0 < num"
  shows "\<exists>k ms w'. hev_socks5_udp_recvmmsg self fd True (udp_slots num stack) w = Some (if k = 0 then -1 else int k, ms, self, w') \<and>
    k \<le> num \<and> k \<le> length fs \<and> list_all2 denotes (take k ms) (take k fs) \<and> dg_good fd (drop k fs) w' \<and>
    dg_out fd w' = dg_out fd w \<and> (k = 0 \<longrightarrow> recv_errno self fd w w' = EAGAIN)"
proof -
  let ?ms = "udp_slots num stack" and ?s = "dsk w fd"
  have a: "s5_type self = HEV_SOCKS5_TYPE_UDP_IN_UDP" "s5_udp_associated self" using assms(1) by (simp_all add: assoc_ok_def)
  have lens: "map m_len ?ms = replicate num UDP_BUF_SIZE" by (simp add: udp_slots_def map_replicate_const comp_def)
  have g: "fd \<in> set (fds w)" "dg_live (dg_rxq ?s) fs" using assms(2) by (simp_all add: dg_good_def)
  show ?thesis
  proof (cases "\<exists>src d q. dg_rxq ?s = DgData src d # q")
    case False
    then obtain q v where q: "sys_recvmmsg (replicate num UDP_BUF_SIZE) ?s = (SysAgain v, ?s\<lparr>dg_rxq := q\<rparr>)" "dg_live q fs"
      "dg_rxq ?s = [] \<or> dg_rxq ?s = DgAgain v # q"
    proof (cases "dg_rxq ?s")
      case Nil
      then have "?s\<lparr>dg_rxq := []\<rparr> = ?s" by simp
      with Nil that[of 0 "[]"] g(2) show ?thesis by (simp add: sys_recvmmsg_def)
    next
      case (Cons ev q)
      with False that[of _ q] g(2) show ?thesis by (cases ev) (auto simp: sys_recvmmsg_def)
    qed
    let ?w = "w\<lparr>dsk := (dsk w)(fd := ?s\<lparr>dg_rxq := q\<rparr>)\<rparr>"
    have "net_recvmmsg self fd (map m_len ?ms) True w = Some (-1, [], self, ?w)"
      unfolding lens using g(1) q(1) by (simp add: net_recvmmsg_def hev_task_io_socket_recvmmsg_def task_recvmmsg_loop.simps)
    with a q g(1) assms(2) show ?thesis
      by (intro exI[of _ 0] exI[of _ ?ms] exI[of _ ?w])
        (auto simp: hev_socks5_udp_recvmmsg_def hev_socks5_udp_recvmmsg_udp_def recv_errno_def dg_good_def)
  next
    case True
    then obtain src d q where hd: "dg_rxq ?s = DgData src d # q" by blast
    obtain ds q' where t: "take_dgs (replicate num UDP_BUF_SIZE) (dg_rxq ?s) = (ds, q')" by fastforce
    from take_dgs_live[OF g(2) t] obtain qs where qs: "ds = map (\<lambda>(src, f). (src, datagram f)) qs"
      "map snd qs = take (length ds) fs" "length ds \<le> length fs" "length ds \<le> num" "dg_live q' (drop (length ds) fs)" by blast
    let ?k = "length ds"
    have k: "0 < ?k" using t hd assms(3) by (cases num) (auto split: prod.splits)
    let ?w = "w\<lparr>dsk := (dsk w)(fd := ?s\<lparr>dg_rxq := q'\<rparr>)\<rparr>"
    have r: "net_recvmmsg self fd (map m_len ?ms) True w = Some (int ?k, ds, self, ?w)"
      unfolding lens using g(1) t hd
      by (simp add: net_recvmmsg_def hev_task_io_socket_recvmmsg_def task_recvmmsg_loop.simps sys_recvmmsg_def)
    have "\<forall>f \<in> set (map snd qs). wf_addr (fst f) \<and> length (datagram f) \<le> UDP_BUF_SIZE"
      unfolding qs(2) using dg_live_wf[OF g(2)] by (auto dest: in_set_takeD)
    then have wf: "\<forall>p \<in> set qs. wf_addr (fst (snd p))" "\<forall>f \<in> set (map snd qs). length (datagram f) \<le> UDP_BUF_SIZE"
      by auto
    have lq: "length (map snd qs) = ?k" unfolding qs(2) using qs(3) by simp
    have "list_all2 datagram_buffer (take ?k ?ms) (map snd qs)"
    proof (rule list_all2_all_nthI)
      show "length (take ?k ?ms) = length (map snd qs)" using lq qs(4) slots_nth(1)[of num stack] by simp
      fix i assume i: "i < length (take ?k ?ms)"
      then have "take ?k ?ms ! i \<in> set ?ms" "map snd qs ! i \<in> set (map snd qs)"
        using lq nth_mem[OF i] by (auto dest: in_set_takeD intro: nth_mem)
      with slots_nth(2) wf(2) show "datagram_buffer (take ?k ?ms ! i) (map snd qs ! i)"
        unfolding datagram_buffer_def by metis
    qed
    from udp_store_parse[OF this wf(1)] obtain ms1 ms2 where p: "udp_store (take ?k ?ms) ds = Some ms1"
      "udp_parse_loop ms1 (map (\<lambda>(src, f). length (datagram f)) qs) = Some (True, ms2)" "list_all2 denotes ms2 (take ?k fs)"
      unfolding qs(1)[symmetric] qs(2) by blast
    have l: "length ms1 = ?k" "length ms2 = ?k"
      using udp_store_length[OF p(1)] list_all2_lengthD[OF p(3)] qs(3,4) slots_nth(1)[of num stack] by simp_all
    have "udp_store ?ms ds = Some (ms1 @ drop ?k ?ms)"
      using udp_store_extra[of ds "take ?k ?ms" "drop ?k ?ms"] p(1) qs(4) slots_nth(1)[of num stack] by simp
    moreover have "udp_parse_loop (ms1 @ drop ?k ?ms) (map (length \<circ> snd) ds) = Some (True, ms2 @ drop ?k ?ms)"
      using udp_parse_extra[of "map (length \<circ> snd) ds" ms1 "drop ?k ?ms"] p(2) l qs(1) by (simp add: comp_def case_prod_unfold)
    ultimately show ?thesis using r k a p(3) qs g assms(2) l
      by (intro exI[of _ ?k] exI[of _ "ms2 @ drop ?k ?ms"] exI[of _ ?w])
        (simp add: hev_socks5_udp_recvmmsg_def hev_socks5_udp_recvmmsg_udp_def dg_good_def Let_def)
  qed
qed

lemma dg_send:
  assumes "assoc_ok HEV_SOCKS5_TYPE_UDP_IN_UDP self" "dg_good fd fs w" "list_all2 denotes ms qs"
    "\<forall>q \<in> set qs. wf_addr (fst q)" "qs \<noteq> []"
  shows "\<exists>w'. hev_socks5_udp_sendmmsg self fd ms w = Some (int (length qs), self, w') \<and> dg_good fd fs w' \<and>
    dg_out fd w' = dg_out fd w @ concat (map (\<lambda>f. [(None, datagram f)]) qs)"
proof -
  have a: "s5_type self = HEV_SOCKS5_TYPE_UDP_IN_UDP" using assms(1) by (simp add: assoc_ok_def)
  have g: "fd \<in> set (fds w)" "\<forall>ev \<in> set (dg_txq (dsk w fd)). \<exists>k. ev = TxRoom (Suc k)"
    using assms(2) by (simp_all add: dg_good_def)
  have "concat (map (\<lambda>f. [(None, datagram f)]) qs) = map (\<lambda>f. (None :: sockaddr6 option, datagram f)) qs"
    by (induction qs) auto
  with sendmmsg_udp_step[OF assms(3,4,5) g, of self] a assms(2) show ?thesis
    by (force simp: hev_socks5_udp_sendmmsg_def dg_good_def)
qed

interpretation over_udp: udp_transport HEV_SOCKS5_TYPE_UDP_IN_UDP dg_good dg_out "\<lambda>f. [(None, datagram f)]"
proof
  show "dg_good fd fs w' \<and> dg_out fd w' = dg_out fd w \<and> 0 \<le> t'"
    if "assoc_ok HEV_SOCKS5_TYPE_UDP_IN_UDP self" "dg_good fd fs w"
      "udp_task_io_yielder self ty v (s5_timeout self, w) = (r, t', w')" for self fd fs w ty v r t' w'
    using that by (auto simp: udp_task_io_yielder_def assoc_ok_def dg_good_def Let_def split: if_splits prod.splits sys_ret.splits)
  show "dg_good fd fs (set_errno e fd w) \<and> dg_out fd (set_errno e fd w) = dg_out fd w" if "dg_good fd fs w" for fd fs w e
    using that by (simp add: dg_good_def set_errno_def)
  show "dg_good fd fs (snd (hev_task_add_fd fd w)) \<and> dg_out fd (snd (hev_task_add_fd fd w)) = dg_out fd w" if "dg_good fd fs w" for fd fs w
    using that by (simp add: dg_good_def hev_task_add_fd_def)
  show "\<forall>f \<in> set fs. wf_addr (fst f) \<and> length (snd f) < 65536" if "dg_good fd fs w" for fd fs w
    using that dg_live_wf[of "dg_rxq (dsk w fd)" fs] by (auto simp: dg_good_def datagram_def)
qed (rule dg_send dg_recv; assumption)+

end
