(* ===== verification/SessionUDPRun.thy ===== *)
theory SessionUDPRun
  imports UdpTransport
begin

section \<open>Runs of the UDP session\<close>

text \<open>
  One turn of the loop, the loop and the properties of the session. The proofs about the loop are done
  once, over the contract of a transport.
\<close>

subsection \<open>One turn of the loop\<close>

text \<open>A reply as lwIP gets it: from the address the message names, with its data.\<close>

definition reply_of :: "socks_addr \<times> bytes \<Rightarrow> ip_addr \<times> u16 \<times> bytes \<Rightarrow> bool" where
  "reply_of = (\<lambda>(a, d) (ip, port, d'). d' = d \<and> lwip_addr ip port = Some a)"

definition round_ok :: "udp_round \<Rightarrow> bool" where
  "round_ok r \<longleftrightarrow> (\<forall>s \<in> set (ur_saddrs r). length (ip_bytes s) = 16)"

lemma into_lwip_name: "hev_socks5_addr_into_lwip (encode_addr (SA_Name n p) @ r) ip port = Some (-1, ip, port)"
  by (simp add: hev_socks5_addr_into_lwip_def rd8_def)

lemma udp_sendfrom_cases:
  assumes "\<not> upcb_removed pcb"
  shows "\<exists>err pcb'. udp_sendfrom pcb d ip port = Some (err, pcb') \<and> upcb_pbufs pcb' = upcb_pbufs pcb \<and> upcb_rx pcb' = upcb_rx pcb \<and>
    upcb_removed pcb' = upcb_removed pcb \<and> upcb_sent pcb' = upcb_sent pcb @ (if err = ERR_OK then [(ip, port, d)] else [])"
proof -
  obtain err q where q: "pop ERR_OK (upcb_errq pcb) = (err, q)" by fastforce
  show ?thesis
  proof (cases "ip_type ip \<noteq> IPADDR_TYPE_ANY \<and> ip_type ip \<noteq> upcb_remote_type pcb")
    case True
    with assms show ?thesis by (intro exI[of _ ERR_VAL] exI[of _ pcb]) (simp add: udp_sendfrom_def)
  next
    case False
    with assms q show ?thesis by (intro exI[of _ err]) (auto simp: udp_sendfrom_def Let_def)
  qed
qed

lemma udp_replies_ok:
  assumes "list_all2 denotes ms fs" "\<forall>f \<in> set fs. wf_addr (fst f) \<and> length (snd f) < 65536" "\<not> upcb_removed pcb"
    "\<forall>s \<in> set saddrs. length (ip_bytes s) = 16"
  shows "\<exists>r pcb' reps. udp_replies ms self saddrs pcb = Some (r, pcb') \<and> (r = 1 \<or> r = -1) \<and>
    upcb_pbufs pcb' = upcb_pbufs pcb \<and> upcb_rx pcb' = upcb_rx pcb \<and> upcb_removed pcb' = upcb_removed pcb \<and>
    upcb_sent pcb' = upcb_sent pcb @ reps \<and>
    (us_addr self = 0 \<longrightarrow> (\<exists>j \<le> length fs. list_all2 reply_of (take j fs) reps \<and> (r = 1 \<longrightarrow> j = length fs)))"
  using assms
proof (induction ms arbitrary: fs pcb saddrs)
  case Nil
  then show ?case by auto
next
  case (Cons m ms)
  then obtain a d fs' where fs: "fs = (a, d) # fs'" "denotes m (a, d)" "list_all2 denotes ms fs'"
    by (auto simp: list_all2_Cons1)
  from Cons.prems(2) fs(1) have a: "wf_addr a" "length d < 65536" by auto
  from fs(2) obtain ar br where m: "m_addr m = At (encode_addr a @ ar)" "m_buf m = d @ br" "m_len m = length d"
    by (auto simp: denotes_def)
  obtain s ss where s: "pop ip_addr_zero saddrs = (s, ss)" by fastforce
  then have sl: "length (ip_bytes s) = 16" "\<forall>s \<in> set ss. length (ip_bytes s) = 16"
    using Cons.prems(4) by (cases saddrs; auto simp: ip_addr_zero_def)+
  define src where "src = reply_source self m s"
  have "\<exists>ret ip port. src = Some (ret, ip, port) \<and> (ret = 0 \<or> ret = -1) \<and>
      (ret = 0 \<and> us_addr self = 0 \<longrightarrow> lwip_addr ip port = Some a)"
  proof (cases "us_addr self \<noteq> 0 \<and> us_port self \<noteq> 0")
    case True
    with sl(1) show ?thesis by (auto simp: src_def reply_source_def wr_def store32_def)
  next
    case no: False
    have e: "src = hev_socks5_addr_into_lwip (encode_addr a @ ar) s 0" unfolding src_def reply_source_def if_not_P[OF no] by (simp add: m)
    show ?thesis
    proof (cases "\<exists>n p. a = SA_Name n p")
      case True
      then show ?thesis unfolding e using into_lwip_name by fastforce
    next
      case False
      with into_lwip_ip[OF a(1), of s ar 0] sl(1) show ?thesis unfolding e by fastforce
    qed
  qed
  then obtain ret ip port where src: "src = Some (ret, ip, port)" "ret = 0 \<or> ret = -1"
    "ret = 0 \<and> us_addr self = 0 \<longrightarrow> lwip_addr ip port = Some a" by blast
  have unf: "udp_replies (m # ms) self saddrs pcb = src \<bind> (\<lambda>(ret, saddr, port).
     if ret < 0 then Some (-1, pcb)
     else case pop True (upcb_allocq pcb) of (ok, q) \<Rightarrow>
       if \<not> ok then Some (-1, pcb\<lparr>upcb_allocq := q\<rparr>)
       else udp_sendfrom (pcb\<lparr>upcb_allocq := q\<rparr>) d saddr port \<bind> (\<lambda>(err, pcb).
         if err \<noteq> ERR_OK then Some (-1, pcb) else udp_replies ms self ss pcb))"
    using a(2) m by (simp add: s src_def Let_def rd_def case_prod_unfold cong: if_cong)
  have stop: ?case if "udp_replies (m # ms) self saddrs pcb = Some (-1, pcb')" "upcb_pbufs pcb' = upcb_pbufs pcb"
    "upcb_rx pcb' = upcb_rx pcb" "upcb_removed pcb' = upcb_removed pcb" "upcb_sent pcb' = upcb_sent pcb" for pcb'
    using that by (intro exI[of _ "-1"] exI[of _ pcb'] exI[of _ "[]"]) (auto intro: exI[of _ 0])
  obtain ok q where pq: "pop True (upcb_allocq pcb) = (ok, q)" by fastforce
  have run: "udp_replies (m # ms) self saddrs pcb =
      (if ret < 0 then Some (-1, pcb) else if \<not> ok then Some (-1, pcb\<lparr>upcb_allocq := q\<rparr>)
       else udp_sendfrom (pcb\<lparr>upcb_allocq := q\<rparr>) d ip port \<bind> (\<lambda>(err, pcb).
         if err \<noteq> ERR_OK then Some (-1, pcb) else udp_replies ms self ss pcb))"
    unfolding unf src(1) by (simp add: pq)
  show ?case
  proof (cases "ret < 0 \<or> \<not> ok")
    case True
    then have "udp_replies (m # ms) self saddrs pcb = Some (-1, if ret < 0 then pcb else pcb\<lparr>upcb_allocq := q\<rparr>)"
      unfolding run by auto
    from stop[OF this] show ?thesis by simp
  next
    case False
    let ?pcb = "pcb\<lparr>upcb_allocq := q\<rparr>"
    from udp_sendfrom_cases[of ?pcb d ip port] Cons.prems(3) obtain err pcb1 where
      sf: "udp_sendfrom ?pcb d ip port = Some (err, pcb1)" "upcb_pbufs pcb1 = upcb_pbufs pcb" "upcb_rx pcb1 = upcb_rx pcb"
        "upcb_removed pcb1 = upcb_removed pcb" "upcb_sent pcb1 = upcb_sent pcb @ (if err = ERR_OK then [(ip, port, d)] else [])" by auto
    show ?thesis
    proof (cases "err = ERR_OK")
      case no: False
      then have "udp_replies (m # ms) self saddrs pcb = Some (-1, pcb1)" unfolding run using False sf(1) by simp
      from stop[OF this] no sf show ?thesis by simp
    next
      case True
      have go_on: "udp_replies (m # ms) self saddrs pcb = udp_replies ms self ss pcb1"
        unfolding run using False sf(1) True by simp
      from Cons.IH[OF fs(3), of pcb1 ss] Cons.prems(2,3) fs(1) sf(4) sl(2) obtain r pcb' reps where
        i: "udp_replies ms self ss pcb1 = Some (r, pcb')" "r = 1 \<or> r = -1" "upcb_pbufs pcb' = upcb_pbufs pcb1"
          "upcb_rx pcb' = upcb_rx pcb1" "upcb_removed pcb' = upcb_removed pcb1" "upcb_sent pcb' = upcb_sent pcb1 @ reps"
          "us_addr self = 0 \<longrightarrow> (\<exists>j \<le> length fs'. list_all2 reply_of (take j fs') reps \<and> (r = 1 \<longrightarrow> j = length fs'))" by auto
      have "\<exists>j \<le> length fs. list_all2 reply_of (take j fs) ((ip, port, d) # reps) \<and> (r = 1 \<longrightarrow> j = length fs)"
        if z: "us_addr self = 0"
      proof -
        from i(7) z obtain j where j: "j \<le> length fs'" "list_all2 reply_of (take j fs') reps" "r = 1 \<longrightarrow> j = length fs'" by blast
        moreover have "reply_of (a, d) (ip, port, d)" using src False z by (auto simp: reply_of_def)
        ultimately show ?thesis using fs(1) by (intro exI[of _ "Suc j"]) auto
      qed
      with i sf True show ?thesis unfolding go_on
        by (intro exI[of _ r] exI[of _ pcb'] exI[of _ "(ip, port, d) # reps"]) auto
    qed
  qed
qed

definition given :: "udp_state \<Rightarrow> (ip_addr \<times> u16 \<times> bytes) list" where
  "given = (\<lambda>(self, w, pcb, dns). upcb_sent pcb)"

definition delivered :: "udp_state \<Rightarrow> (ip_addr \<times> u16 \<times> pbuf) list" where
  "delivered = (\<lambda>(self, w, pcb, dns). upcb_rx pcb)"

definition mapped :: "udp_state \<Rightarrow> bool" where
  "mapped = (\<lambda>(self, w, pcb, dns). dns \<noteq> None)"

definition replies :: "(socks_addr \<times> bytes) list \<Rightarrow> (ip_addr \<times> u16 \<times> bytes) list \<Rightarrow> bool" where
  "replies fs reps \<longleftrightarrow> (\<exists>j \<le> length fs. list_all2 reply_of (take j fs) reps)"

context udp_transport
begin

text \<open>The state of a run: the object and its association are in order and the relay still has \<open>fs\<close>.\<close>

definition running :: "(socks_addr \<times> bytes) list \<Rightarrow> (socks_addr \<times> bytes) list \<Rightarrow> udp_state \<Rightarrow> bool" where
  "running qs fs = (\<lambda>(self, w, pcb, dns). session_ok self pcb dns qs \<and> assoc_ok type self \<and>
     good (hev_socks5_client_udp_get_fd self) fs w)"

definition sent_by :: "udp_state \<Rightarrow> 'o list" where
  "sent_by = (\<lambda>(self, w, pcb, dns). out (hev_socks5_client_udp_get_fd self) w)"

lemma event_step_get_fd:
  "event_step (self, pcb, dns) (self', pcb', dns') ds \<Longrightarrow>
    hev_socks5_client_udp_get_fd self' = hev_socks5_client_udp_get_fd self \<and>
    (assoc_ok type self \<longrightarrow> assoc_ok type self')"
  by (auto simp: event_step_def hev_socks5_client_udp_get_fd_def assoc_ok_def split: socks5_type.splits)

lemma fwd_f_ok:
  assumes r: "running qs fs s" and num: "0 < num"
  shows "\<exists>res s' new ds. hev_socks5_session_udp_fwd_f num evs s = Some (res, s') \<and> (res = 0 \<or> res = 1) \<and>
    running (drop num qs @ new) fs s' \<and> sent_by s' = sent_by s @ concat (map enc (take num qs)) \<and>
    given s' = given s \<and> delivered s' = delivered s @ ds \<and> embeds (message_of (mapped s)) new ds \<and> mapped s' = mapped s \<and>
    (res = 1 \<longleftrightarrow> qs \<noteq> [])"
proof -
  obtain self w pcb dns where s: "s = (self, w, pcb, dns)" by (cases s)
  let ?fd = "hev_socks5_client_udp_get_fd self"
  from r have ok: "session_ok self pcb dns qs" "assoc_ok type self" "good ?fd fs w" by (auto simp: running_def s)
  from ok(1) obtain xs where x: "udp_queue self pcb xs" "list_all2 carries xs qs" by (auto simp: session_ok_def)
  have len: "us_frames self = int (length qs)" "length xs = length qs" using x by (auto simp: udp_queue_def dest: list_all2_lengthD)
  show ?thesis
  proof (cases "qs = []")
    case True
    with num len have "hev_socks5_session_udp_fwd_f num evs s = Some (0, s)" by (simp add: hev_socks5_session_udp_fwd_f_def s)
    with True r show ?thesis by (intro exI[of _ 0] exI[of _ s] exI[of _ "[]"]) auto
  next
    case False
    let ?n = "min num (length qs)"
    have n: "nat (us_frames self) = length qs" "\<not> us_frames self \<le> 0" using len False by auto
    have "hev_list_first (us_list self) = first_of NULL (map fst xs)"
      using x(1) hev_list_first_rep unfolding udp_queue_def by blast
    moreover have "udp_collect ?n (first_of NULL (map fst xs)) self pcb = Some (map entry_msg (take ?n xs))"
      using udp_collect_queue[of self pcb "[]" xs ?n] x(1) len by simp
    ultimately have c: "udp_collect (min num (nat (us_frames self))) (hev_list_first (us_list self)) self pcb =
        Some (map entry_msg (take ?n xs))" by (simp add: n)
    have tk: "take ?n qs = take num qs" "drop ?n qs = drop num qs" by (simp_all add: min_def)
    have "list_all2 carries (take ?n xs) (take num qs)" using x(2) unfolding tk(1)[symmetric] by (rule list_all2_takeI)
    then have d: "list_all2 denotes (map entry_msg (take ?n xs)) (take num qs)" "\<forall>q \<in> set (take num qs). wf_addr (fst q)"
      using carries_denotes by (induction rule: list_all2_induct) auto
    have ne: "take num qs \<noteq> []" using num False by (cases num; cases qs) auto
    from send[OF ok(2,3) d ne] obtain w' where
      sd: "hev_socks5_udp_sendmmsg self ?fd (map entry_msg (take ?n xs)) w = Some (int (length (take num qs)), self, w')"
        "good ?fd fs w'" "out ?fd w' = out ?fd w @ concat (map enc (take num qs))" by blast
    from udp_deliver_all_ok[OF ok(1), of evs] obtain self1 pcb1 dns1 new ds where
      e: "udp_deliver_all evs (self, pcb, dns) = Some (self1, pcb1, dns1)" "session_ok self1 pcb1 dns1 (qs @ new)"
        "event_step (self, pcb, dns) (self1, pcb1, dns1) ds" "embeds (message_of (dns \<noteq> None)) new ds" by blast
    from e(2) obtain ys where y: "udp_queue self1 pcb1 ys" "list_all2 carries ys (qs @ new)" by (auto simp: session_ok_def)
    have ly: "length ys = length qs + length new" using list_all2_lengthD[OF y(2)] by simp
    then have "?n \<le> length ys" by simp
    from udp_pop_queue[OF y(1) this] obtain self2 pcb2 where
      p: "udp_pop_frames ?n self1 pcb1 = Some (self2, pcb2)" "udp_queue self2 pcb2 (drop ?n ys)"
        "queue_step (self1, pcb1) (self2, pcb2)" by blast
    have same: "us_task self2 = us_task self1" "s5_timeout self2 = s5_timeout self1" "upcb_removed pcb2 = upcb_removed pcb1"
      "us_addr self2 = us_addr self1" "upcb_sent pcb2 = upcb_sent pcb1" "upcb_rx pcb2 = upcb_rx pcb1"
      "event_step (self, pcb, dns) (self2, pcb2, dns1) ds"
      using p(3) e(3) by (auto simp: queue_step_def event_step_def)
    have "list_all2 carries (drop ?n ys) (drop ?n (qs @ new))" using y(2) by (rule list_all2_dropI)
    then have "list_all2 carries (drop ?n ys) (drop num qs @ new)" using tk(2) by simp
    with p(2) e(2) same have ok2: "session_ok self2 pcb2 dns1 (drop num qs @ new)" by (auto simp: session_ok_def)
    have f: "hev_socks5_client_udp_get_fd self2 = ?fd" "assoc_ok type self2"
      using event_step_get_fd[OF same(7)] ok(2) ok2 by (auto simp: session_ok_def)
    let ?s = "(self2, w', pcb2, dns1)"
    have "nat (int (length (take num qs))) = ?n" "\<not> int (length (take num qs)) \<le> 0" using ne by (auto simp: min_def)
    then have "hev_socks5_session_udp_fwd_f num evs s = Some (1, ?s)"
      using num n(2) c sd(1) e(1) p(1) by (simp add: hev_socks5_session_udp_fwd_f_def s del: length_take)
    moreover have "running (drop num qs @ new) fs ?s" using ok2 f sd(2) by (simp add: running_def)
    moreover have "sent_by ?s = sent_by s @ concat (map enc (take num qs))" using sd(3) f(1) by (simp add: sent_by_def s)
    moreover have "given ?s = given s" "delivered ?s = delivered s @ ds" "mapped ?s = mapped s" "embeds (message_of (mapped s)) new ds"
      using same(7) e(4) by (auto simp: given_def delivered_def mapped_def event_step_def s)
    ultimately show ?thesis using False by blast
  qed
qed

lemma fwd_b_ok:
  assumes r: "running qs fs s" and num: "0 < num" and rd: "round_ok r"
  shows "\<exists>res s' new ds k reps. hev_socks5_session_udp_fwd_b num r s = Some (res, s') \<and> (res = 0 \<or> res = 1 \<or> res = -1) \<and>
    running (qs @ new) (drop k fs) s' \<and> sent_by s' = sent_by s \<and> given s' = given s @ reps \<and> k \<le> length fs \<and>
    delivered s' = delivered s @ ds \<and> embeds (message_of (mapped s)) new ds \<and> mapped s' = mapped s \<and>
    (\<not> mapped s \<longrightarrow> (\<exists>j \<le> k. list_all2 reply_of (take j fs) reps \<and> (0 \<le> res \<longrightarrow> j = k)))"
proof -
  obtain self w pcb dns where s: "s = (self, w, pcb, dns)" by (cases s)
  let ?fd = "hev_socks5_client_udp_get_fd self"
  from r have ok: "session_ok self pcb dns qs" "assoc_ok type self" "good ?fd fs w" by (auto simp: running_def s)
  let ?w0 = "set_errno (ur_errno r) ?fd w"
  from errno[OF ok(3)] have g0: "good ?fd fs ?w0" "out ?fd ?w0 = out ?fd w" by auto
  from recv[OF ok(2) g0(1) num, of "ur_stack r"] obtain k ms w' where
    rv: "hev_socks5_udp_recvmmsg self ?fd True (udp_slots num (ur_stack r)) ?w0 = Some (if k = 0 then -1 else int k, ms, self, w')"
      "k \<le> num" "k \<le> length fs" "list_all2 denotes (take k ms) (take k fs)" "good ?fd (drop k fs) w'" "out ?fd w' = out ?fd ?w0"
      "k = 0 \<longrightarrow> recv_errno self ?fd ?w0 w' = EAGAIN" by blast
  from udp_deliver_all_ok[OF ok(1), of "ur_bevs r"] obtain self1 pcb1 dns1 new ds where
    e: "udp_deliver_all (ur_bevs r) (self, pcb, dns) = Some (self1, pcb1, dns1)" "session_ok self1 pcb1 dns1 (qs @ new)"
      "event_step (self, pcb, dns) (self1, pcb1, dns1) ds" "embeds (message_of (dns \<noteq> None)) new ds" by blast
  have f: "hev_socks5_client_udp_get_fd self1 = ?fd" "assoc_ok type self1"
    using event_step_get_fd[OF e(3)] ok(2) e(2) by (auto simp: session_ok_def)
  have m: "dns1 \<noteq> None \<longleftrightarrow> dns \<noteq> None" using e(3) by (auto simp: event_step_def)
  show ?thesis
  proof (cases "k = 0")
    case True
    have re: "recv_errno self1 ?fd ?w0 w' = recv_errno self ?fd ?w0 w'"
      using e(3) by (simp add: recv_errno_def event_step_def)
    then have "hev_socks5_session_udp_fwd_b num r s = Some (0, self1, w', pcb1, dns1)"
      using rv(1,7) True num e(1) by (simp add: hev_socks5_session_udp_fwd_b_def s Let_def)
    moreover have "running (qs @ new) (drop 0 fs) (self1, w', pcb1, dns1)" using e(2) f rv(5) True by (simp add: running_def)
    moreover have "sent_by (self1, w', pcb1, dns1) = sent_by s" using rv(6) g0(2) f(1) by (simp add: sent_by_def s)
    moreover have "given (self1, w', pcb1, dns1) = given s @ []" "delivered (self1, w', pcb1, dns1) = delivered s @ ds"
      "mapped (self1, w', pcb1, dns1) = mapped s" "embeds (message_of (mapped s)) new ds"
      using e(3,4) by (auto simp: given_def delivered_def mapped_def event_step_def s)
    moreover have "\<exists>j \<le> (0 :: nat). list_all2 reply_of (take j fs) [] \<and> (0 \<le> (0 :: int) \<longrightarrow> j = 0)" by simp
    ultimately show ?thesis by blast
  next
    case False
    have fine: "\<forall>f \<in> set (take k fs). wf_addr (fst f) \<and> length (snd f) < 65536" using small[OF ok(3)] by (auto dest: in_set_takeD)
    have "\<not> upcb_removed pcb1" "\<forall>s \<in> set (ur_saddrs r). length (ip_bytes s) = 16" using e(2) rd by (auto simp: session_ok_def round_ok_def)
    from udp_replies_ok[OF rv(4) fine this, of self1] obtain res pcb2 reps where
      u: "udp_replies (take k ms) self1 (ur_saddrs r) pcb1 = Some (res, pcb2)" "res = 1 \<or> res = -1"
        "upcb_pbufs pcb2 = upcb_pbufs pcb1" "upcb_rx pcb2 = upcb_rx pcb1" "upcb_removed pcb2 = upcb_removed pcb1"
        "upcb_sent pcb2 = upcb_sent pcb1 @ reps"
        "us_addr self1 = 0 \<longrightarrow> (\<exists>j \<le> length (take k fs). list_all2 reply_of (take j (take k fs)) reps \<and> (res = 1 \<longrightarrow> j = length (take k fs)))"
      by blast
    let ?s = "(self1, w', pcb2, dns1)"
    have "hev_socks5_session_udp_fwd_b num r s = Some (res, ?s)"
      using rv(1,2) False num e(1) u(1) by (simp add: hev_socks5_session_udp_fwd_b_def s Let_def)
    moreover have "session_ok self1 pcb2 dns1 (qs @ new)"
    proof -
      have "udp_queue self1 pcb2 xs" if "udp_queue self1 pcb1 xs" for xs
        using that by (rule udp_queue_cong) (simp_all add: u(3))
      with e(2) u(5) show ?thesis by (auto simp: session_ok_def)
    qed
    then have "running (qs @ new) (drop k fs) ?s" using f rv(5) by (simp add: running_def)
    moreover have "sent_by ?s = sent_by s" using rv(6) g0(2) f(1) by (simp add: sent_by_def s)
    moreover have "given ?s = given s @ reps" "delivered ?s = delivered s @ ds" "mapped ?s = mapped s" "embeds (message_of (mapped s)) new ds"
      using e(3,4) u(4,6) by (auto simp: given_def delivered_def mapped_def event_step_def s)
    moreover have "\<exists>j \<le> k. list_all2 reply_of (take j fs) reps \<and> (0 \<le> res \<longrightarrow> j = k)" if "\<not> mapped s"
    proof -
      have "us_addr self1 = 0" using that m e(2) by (simp add: mapped_def s session_ok_def)
      moreover have "length (take k fs) = k" using rv(3) by simp
      ultimately obtain j where j: "j \<le> k" "list_all2 reply_of (take j (take k fs)) reps" "res = 1 \<longrightarrow> j = k"
        using u(7) by metis
      then have "take j (take k fs) = take j fs" by (simp add: min_def)
      with j u(2) show ?thesis by (intro exI[of _ j]) auto
    qed
    ultimately show ?thesis using u(2) rv(3) by blast
  qed
qed

lemma yielder_ok:
  assumes "running qs fs s"
  shows "\<exists>res s' new ds. udp_session_yielder ty r s = Some (res, s') \<and> running (qs @ new) fs s' \<and> sent_by s' = sent_by s \<and>
    given s' = given s \<and> delivered s' = delivered s @ ds \<and> embeds (message_of (mapped s)) new ds \<and> mapped s' = mapped s"
proof -
  obtain self w pcb dns where s: "s = (self, w, pcb, dns)" by (cases s)
  let ?fd = "hev_socks5_client_udp_get_fd self"
  from assms have ok: "session_ok self pcb dns qs" "assoc_ok type self" "good ?fd fs w" by (auto simp: running_def s)
  obtain res t w' where y: "udp_task_io_yielder self ty (min (s5_timeout self) (ur_sleep r)) (s5_timeout self, w) = (res, t, w')"
    by (cases "udp_task_io_yielder self ty (min (s5_timeout self) (ur_sleep r)) (s5_timeout self, w)") auto
  from poll[OF ok(2,3) y] have p: "good ?fd fs w'" "out ?fd w' = out ?fd w" "0 \<le> t" by auto
  let ?self = "self\<lparr>s5_timeout := t\<rparr>"
  have "udp_queue ?self pcb xs" if "udp_queue self pcb xs" for xs using that by (rule udp_queue_cong) simp_all
  with ok(1) p(3) have ok1: "session_ok ?self pcb dns qs" by (auto simp: session_ok_def)
  from udp_deliver_all_ok[OF ok1, of "ur_yevs r"] obtain self1 pcb1 dns1 new ds where
    e: "udp_deliver_all (ur_yevs r) (?self, pcb, dns) = Some (self1, pcb1, dns1)" "session_ok self1 pcb1 dns1 (qs @ new)"
      "event_step (?self, pcb, dns) (self1, pcb1, dns1) ds" "embeds (message_of (dns \<noteq> None)) new ds" by blast
  note f = event_step_get_fd[OF e(3)]
  have fd: "hev_socks5_client_udp_get_fd ?self = ?fd" "assoc_ok type ?self"
    using ok(2) p(3) by (simp_all add: hev_socks5_client_udp_get_fd_def assoc_ok_def split: socks5_type.splits)
  have "udp_session_yielder ty r s = Some (res, self1, w', pcb1, dns1)" using y e(1) by (simp add: udp_session_yielder_def s)
  moreover have "running (qs @ new) fs (self1, w', pcb1, dns1)" using f fd e(2) p(1) by (simp add: running_def)
  moreover have "sent_by (self1, w', pcb1, dns1) = sent_by s" "given (self1, w', pcb1, dns1) = given s"
    "delivered (self1, w', pcb1, dns1) = delivered s @ ds" "mapped (self1, w', pcb1, dns1) = mapped s" "embeds (message_of (mapped s)) new ds"
    using f fd p(2) e(3,4) by (auto simp: sent_by_def given_def delivered_def mapped_def event_step_def s)
  ultimately show ?thesis by blast
qed



text \<open>
  Progress from \<open>s\<close>, where \<open>qs\<close> was queued and the relay had \<open>fs\<close>: \<open>new\<close> was queued since, of the whole
  queue \<open>done\<close> has been sent, of \<open>qs\<close> at least the first \<open>n\<close>, \<open>ds\<close> was delivered by lwIP and the first \<open>k\<close> messages of the relay were
  read; \<open>rest\<close> is queued now. Without a mapped DNS each message that was read has been given to lwIP,
  up to one that lwIP refused, where \<open>live\<close> is false.
\<close>

definition progress ::
  "(socks_addr \<times> bytes) list \<Rightarrow> (socks_addr \<times> bytes) list \<Rightarrow> udp_state \<Rightarrow> bool \<Rightarrow> nat \<Rightarrow> nat \<Rightarrow>
    (socks_addr \<times> bytes) list \<Rightarrow> udp_state \<Rightarrow> bool" where
  "progress qs fs s live n k rest s' \<longleftrightarrow> (\<exists>new done ds reps. min n (length qs) \<le> length done \<and>
     qs @ new = done @ rest \<and> running rest (drop k fs) s' \<and> k \<le> length fs \<and>
     sent_by s' = sent_by s @ concat (map enc done) \<and> delivered s' = delivered s @ ds \<and> embeds (message_of (mapped s)) new ds \<and>
     mapped s' = mapped s \<and> given s' = given s @ reps \<and>
     (\<not> mapped s \<longrightarrow> (if live then list_all2 reply_of (take k fs) reps else replies (take k fs) reps)))"

lemma progress_refl: "running qs fs s \<Longrightarrow> progress qs fs s live 0 0 qs s"
  unfolding progress_def replies_def by (intro exI[of _ "[]"]) auto

lemma list_replies: "list_all2 reply_of fs reps \<Longrightarrow> replies fs reps"
  unfolding replies_def by (intro exI[of _ "length fs"]) simp

lemma progress_weaken:
  assumes "progress qs fs s live n k rest s'"
  shows "progress qs fs s False n k rest s'"
proof (cases live)
  case True
  from assms obtain new dn ds reps where c: "min n (length qs) \<le> length dn" and a: "qs @ new = dn @ rest" "running rest (drop k fs) s'" "k \<le> length fs"
    "sent_by s' = sent_by s @ concat (map enc dn)" "delivered s' = delivered s @ ds" "embeds (message_of (mapped s)) new ds"
    "mapped s' = mapped s" "given s' = given s @ reps" "\<not> mapped s \<longrightarrow> list_all2 reply_of (take k fs) reps"
    unfolding progress_def if_P[OF True] by blast
  from a(9) list_replies have "\<not> mapped s \<longrightarrow> replies (take k fs) reps" by blast
  with c a(1-8) show ?thesis unfolding progress_def if_False by blast
next
  case False
  with assms show ?thesis by simp
qed

lemma replies_append:
  assumes "list_all2 reply_of fs reps" "replies gs reps'"
  shows "replies (fs @ gs) (reps @ reps')"
proof -
  from assms(2) obtain j where "j \<le> length gs" "list_all2 reply_of (take j gs) reps'" by (auto simp: replies_def)
  with assms(1) show ?thesis unfolding replies_def
    by (intro exI[of _ "length fs + j"]) (simp add: list_all2_appendI)
qed

lemma progress_trans:
  assumes p: "progress qs fs s live n k rest t" and q: "progress rest (drop k fs) t live' n' l rest' u"
    and l: "\<not> live \<Longrightarrow> l = 0"
  shows "progress qs fs s (live \<and> live') (n + n') (k + l) rest' u"
proof -
  from p obtain new dn ds reps where c: "min n (length qs) \<le> length dn" and a: "qs @ new = dn @ rest" "running rest (drop k fs) t" "k \<le> length fs"
    "sent_by t = sent_by s @ concat (map enc dn)" "delivered t = delivered s @ ds" "embeds (message_of (mapped s)) new ds"
    "mapped t = mapped s" "given t = given s @ reps"
    "\<not> mapped s \<longrightarrow> (if live then list_all2 reply_of (take k fs) reps else replies (take k fs) reps)"
    unfolding progress_def by blast
  from q obtain new' dn' ds' reps' where e: "min n' (length rest) \<le> length dn'" and b: "rest @ new' = dn' @ rest'" "running rest' (drop l (drop k fs)) u"
    "l \<le> length (drop k fs)" "sent_by u = sent_by t @ concat (map enc dn')" "delivered u = delivered t @ ds'"
    "embeds (message_of (mapped t)) new' ds'" "mapped u = mapped t" "given u = given t @ reps'"
    "\<not> mapped t \<longrightarrow> (if live' then list_all2 reply_of (take l (drop k fs)) reps' else replies (take l (drop k fs)) reps')"
    unfolding progress_def by blast
  have "qs @ (new @ new') = (dn @ dn') @ rest'" using a(1) b(1) by (metis append.assoc)
  moreover have "min (n + n') (length qs) \<le> length (dn @ dn')"
  proof -
    have "length qs + length new = length dn + length rest" using arg_cong[OF a(1), of length] by simp
    with c e show ?thesis by (auto simp: min_def split: if_splits)
  qed
  moreover have "running rest' (drop (k + l) fs) u" using b(2) by (simp add: add.commute)
  moreover have "k + l \<le> length fs" using a(3) b(3) by simp
  moreover have "embeds (message_of (mapped s)) (new @ new') (ds @ ds')" using embeds_append[OF a(6) b(6)[unfolded a(7)]] .
  moreover have "if live \<and> live' then list_all2 reply_of (take (k + l) fs) (reps @ reps') else replies (take (k + l) fs) (reps @ reps')"
    if "\<not> mapped s"
  proof (cases live)
    case True
    with that a(7,9) b(9) show ?thesis by (cases live') (simp_all add: take_add list_all2_appendI replies_append)
  next
    case False
    with that a(7) b(9) l have "reps' = []" by (cases live') (auto simp: replies_def)
    with False that a(9) l show ?thesis by simp
  qed
  moreover have "sent_by u = sent_by s @ concat (map enc (dn @ dn'))" "delivered u = delivered s @ (ds @ ds')"
    "mapped u = mapped s" "given u = given s @ (reps @ reps')" using a b by simp_all
  ultimately show ?thesis unfolding progress_def by blast
qed

lemma fwd_f_progress:
  assumes "running qs fs s" "0 < num"
  shows "\<exists>res s' rest. hev_socks5_session_udp_fwd_f num evs s = Some (res, s') \<and> (res = 0 \<or> res = 1) \<and> progress qs fs s True num 0 rest s'"
proof -
  from fwd_f_ok[OF assms, of evs] obtain res s' new ds where f: "hev_socks5_session_udp_fwd_f num evs s = Some (res, s')"
    "res = 0 \<or> res = 1" "running (drop num qs @ new) fs s'" "sent_by s' = sent_by s @ concat (map enc (take num qs))"
    "given s' = given s" "delivered s' = delivered s @ ds" "embeds (message_of (mapped s)) new ds" "mapped s' = mapped s" by blast
  have split: "qs @ new = take num qs @ drop num qs @ new" by (metis append_assoc append_take_drop_id)
  have "min num (length qs) \<le> length (take num qs)" "given s' = given s @ []" "running (drop num qs @ new) (drop 0 fs) s'" "0 \<le> length fs"
    "\<not> mapped s \<longrightarrow> list_all2 reply_of (take 0 fs) []" using f(3,5) by simp_all
  then have "progress qs fs s True num 0 (drop num qs @ new) s'"
    unfolding progress_def if_True using split f(4,6,7,8) by blast
  with f show ?thesis by blast
qed

lemma fwd_b_progress:
  assumes "running qs fs s" "0 < num" "round_ok r"
  shows "\<exists>res s' k rest. hev_socks5_session_udp_fwd_b num r s = Some (res, s') \<and> (res = 0 \<or> res = 1 \<or> res = -1) \<and>
    progress qs fs s (0 \<le> res) 0 k rest s'"
proof -
  from fwd_b_ok[OF assms] obtain res s' new ds k reps where f: "hev_socks5_session_udp_fwd_b num r s = Some (res, s')"
    "res = 0 \<or> res = 1 \<or> res = -1" "running (qs @ new) (drop k fs) s'" "sent_by s' = sent_by s" "given s' = given s @ reps"
    "k \<le> length fs" "delivered s' = delivered s @ ds" "embeds (message_of (mapped s)) new ds" "mapped s' = mapped s"
    "\<not> mapped s \<longrightarrow> (\<exists>j \<le> k. list_all2 reply_of (take j fs) reps \<and> (0 \<le> res \<longrightarrow> j = k))" by blast
  have "if 0 \<le> res then list_all2 reply_of (take k fs) reps else replies (take k fs) reps" if "\<not> mapped s"
  proof -
    from f(10) that obtain j where j: "j \<le> k" "list_all2 reply_of (take j fs) reps" "0 \<le> res \<longrightarrow> j = k" by blast
    then have "take j (take k fs) = take j fs" "j \<le> length (take k fs)" using f(6) by (simp_all add: min_def)
    with j(2) have "replies (take k fs) reps" unfolding replies_def by metis
    with j show ?thesis by (cases "j = k") auto
  qed
  then have "progress qs fs s (0 \<le> res) 0 k (qs @ new) s'" unfolding progress_def
    by - (rule exI[of _ new], rule exI[of _ "[]"], rule exI[of _ ds], rule exI[of _ reps],
      use f in simp)
  with f show ?thesis by blast
qed

lemma yielder_progress:
  assumes "running qs fs s"
  shows "\<exists>res s' rest. udp_session_yielder ty r s = Some (res, s') \<and> progress qs fs s True 0 0 rest s'"
proof -
  from yielder_ok[OF assms, of ty r] obtain res s' new ds where f: "udp_session_yielder ty r s = Some (res, s')"
    "running (qs @ new) fs s'" "sent_by s' = sent_by s" "given s' = given s" "delivered s' = delivered s @ ds"
    "embeds (message_of (mapped s)) new ds" "mapped s' = mapped s" by blast
  have "progress qs fs s True 0 0 (qs @ new) s'" unfolding progress_def
    by (rule exI[of _ new], rule exI[of _ "[]"], rule exI[of _ ds], rule exI[of _ "[]"]) (use f in simp)
  with f show ?thesis by blast
qed

lemma progress_running: "progress qs fs s live n k rest s' \<Longrightarrow> running rest (drop k fs) s'"
  unfolding progress_def by blast

text \<open>\<open>t\<close> counts the turns of the loop, the last one included.\<close>

lemma splice_loop_progress:
  assumes "running qs fs s" "0 < num" "\<forall>r \<in> set rounds. round_ok r" "0 \<le> res_f"
  shows "\<exists>fin s' t k rest. udp_splice_loop num res_f res_b rounds s = Some (fin, s') \<and>
    progress qs fs s False (num * t) k rest s' \<and> t \<le> length rounds \<and> (fin \<or> t = length rounds) \<and> (rounds = [] \<or> 0 < t) \<and>
    (res_b < 0 \<longrightarrow> k = 0)"
  using assms
proof (induction rounds arbitrary: qs fs s res_f res_b)
  case Nil
  then show ?case using progress_refl[of qs fs s False] by (intro exI[of _ False] exI[of _ s] exI[of _ 0] exI[of _ 0] exI[of _ qs]) simp
next
  case (Cons r rounds)
  from fwd_f_progress[OF Cons.prems(1,2), of "ur_fevs r"] Cons.prems(4) obtain rf s1 q1 where
    f: "hev_socks5_session_udp_fwd_f num (ur_fevs r) s = Some (rf, s1)" "rf = 0 \<or> rf = 1" "progress qs fs s True num 0 q1 s1" by blast
  note r1 = progress_running[OF f(3), unfolded drop_0]
  obtain rb s2 k q2 live where b: "(if res_b \<ge> 0 then hev_socks5_session_udp_fwd_b num r s1 else Some (res_b, s1)) = Some (rb, s2)"
    "progress q1 fs s1 live 0 k q2 s2" "res_b < 0 \<longrightarrow> k = 0 \<and> rb < 0" "\<not> live \<longrightarrow> rb < 0"
  proof (cases "res_b \<ge> 0")
    case True
    from fwd_b_progress[OF r1 Cons.prems(2), of r] Cons.prems(3) obtain rb s2 k q2 where
      "hev_socks5_session_udp_fwd_b num r s1 = Some (rb, s2)" "progress q1 fs s1 (0 \<le> rb) 0 k q2 s2" by auto
    with that[of rb s2 "0 \<le> rb" k q2] True show thesis by simp
  next
    case False
    with that[of res_b s1 True 0 q1] progress_refl[OF r1] show thesis by simp
  qed
  from progress_trans[OF f(3), unfolded drop_0, OF b(2)] have p2: "progress qs fs s live num k q2 s2" by simp
  note r2 = progress_running[OF p2]
  have stop: ?case if "udp_splice_loop num res_f res_b (r # rounds) s = Some (True, s')" "progress qs fs s live num k q s'" for s' q
    unfolding that(1) using progress_weaken[OF that(2)] b(3)
    by (intro exI[of _ True] exI[of _ s'] exI[of _ 1] exI[of _ k] exI[of _ q]) simp
  have go_on: ?case if "udp_splice_loop num res_f res_b (r # rounds) s = (do {
         (res, s) \<leftarrow> udp_session_yielder ty r s2;
         if res \<noteq> 0 then Some (True, s) else udp_splice_loop num rf rb rounds s })" for ty
  proof -
    from yielder_progress[OF r2, of ty r] obtain res s3 q3 where
      y: "udp_session_yielder ty r s2 = Some (res, s3)" "progress q2 (drop k fs) s2 True 0 0 q3 s3" by blast
    from progress_trans[OF p2 y(2)] have p3: "progress qs fs s live num k q3 s3" by simp
    show ?thesis
    proof (cases "res = 0")
      case False
      show ?thesis by (rule stop[OF _ p3]) (use that y(1) False in simp)
    next
      case True
      from Cons.IH[OF progress_running[OF p3] Cons.prems(2), of rf rb] Cons.prems(3) f(2) obtain fin s' t l rest where
        i: "udp_splice_loop num rf rb rounds s3 = Some (fin, s')" "progress q3 (drop k fs) s3 False (num * t) l rest s'" "rb < 0 \<longrightarrow> l = 0"
          "t \<le> length rounds" "fin \<or> t = length rounds" by auto
      from progress_trans[OF p3 i(2)] i(3) b(4) have "progress qs fs s False (num * Suc t) (k + l) rest s'" by auto
      moreover have "udp_splice_loop num res_f res_b (r # rounds) s = Some (fin, s')" unfolding that y(1) using True i(1) by simp
      ultimately show ?thesis using i(3-5) b(3)
        by (intro exI[of _ fin] exI[of _ s'] exI[of _ "Suc t"] exI[of _ "k + l"] exI[of _ rest]) auto
    qed
  qed
  show ?case
  proof (cases "rf > 0 \<or> rb > 0")
    case True
    show ?thesis by (rule go_on[of HEV_TASK_YIELD]) (use Cons.prems(4) f(1) b(1) True in simp)
  next
    case no: False
    show ?thesis
    proof (cases "rf AND rb = 0")
      case True
      show ?thesis by (rule go_on[of HEV_TASK_WAITIO]) (use Cons.prems(4) f(1) b(1) True no in simp)
    next
      case False
      show ?thesis by (rule stop[OF _ p2]) (use Cons.prems(4) f(1) b(1) False no in simp)
    qed
  qed
qed

lemma splice_ok:
  assumes "session_ok self pcb dns qs" "assoc_ok type self"
    and "good (hev_socks5_client_udp_get_fd self) fs w" "0 < num" "\<forall>r \<in> set rounds. round_ok r"
  shows "\<exists>fin self' w' pcb' dns' new done rest ds t k reps.
    hev_socks5_session_udp_splice num rounds (self, w, pcb, dns) = Some (fin, self', w', pcb', dns') \<and>
    qs @ new = done @ rest \<and> session_ok self' pcb' dns' rest \<and>
    out (hev_socks5_client_udp_get_fd self') w' =
      out (hev_socks5_client_udp_get_fd self) w @ concat (map enc done) \<and>
    t \<le> length rounds \<and> (fin \<or> t = length rounds) \<and> (rounds = [] \<or> 0 < t) \<and> min (num * t) (length qs) \<le> length done \<and>
    upcb_rx pcb' = upcb_rx pcb @ ds \<and> embeds (message_of (dns \<noteq> None)) new ds \<and>
    k \<le> length fs \<and> good (hev_socks5_client_udp_get_fd self') (drop k fs) w' \<and>
    upcb_sent pcb' = upcb_sent pcb @ reps \<and> (dns = None \<longrightarrow> replies (take k fs) reps)"
proof -
  let ?w = "snd (hev_task_add_fd (hev_socks5_client_udp_get_fd self) w)"
  note g = register[OF assms(3)]
  have r: "running qs fs (self, ?w, pcb, dns)" using g assms(1,2) by (simp add: running_def)
  from splice_loop_progress[OF r assms(4,5) zero_le_one, of 1] obtain fin s' t k rest where
    s: "udp_splice_loop num 1 1 rounds (self, ?w, pcb, dns) = Some (fin, s')" "progress qs fs (self, ?w, pcb, dns) False (num * t) k rest s'"
      "t \<le> length rounds" "fin \<or> t = length rounds" "rounds = [] \<or> 0 < t" by blast
  obtain self' w' pcb' dns' where v: "s' = (self', w', pcb', dns')" by (cases s')
  from s(1) have l: "hev_socks5_session_udp_splice num rounds (self, w, pcb, dns) = Some (fin, self', w', pcb', dns')"
    by (simp add: hev_socks5_session_udp_splice_def v)
  show ?thesis
    using s(2-5) l[THEN eq_reflection] g unfolding progress_def running_def sent_by_def given_def delivered_def mapped_def if_False v prod.case
    apply (elim exE conjE)
    subgoal for new dn ds reps
      by (intro exI[of _ fin] exI[of _ self'] exI[of _ w'] exI[of _ pcb'] exI[of _ dns'] exI[of _ new] exI[of _ dn] exI[of _ rest]
          exI[of _ ds] exI[of _ t] exI[of _ k] exI[of _ reps]) simp
    done
qed


end

subsection \<open>Properties of the session\<close>



definition udp_session_example :: "socks5_type \<Rightarrow> hev_socks5_session_udp" where
  "udp_session_example type = (session_udp_zero [(8, replicate addr_size 7), (16, replicate addr_size 7)])
     \<lparr>s5_fd := 4, udp_fd := (if type = HEV_SOCKS5_TYPE_UDP_IN_UDP then 5 else -1), s5_timeout := 100,
      s5_udp_associated := True, s5_type := type, us_task := 1, us_pcb := True\<rparr>"

definition udp_pcb_example :: udp_pcb where
  "udp_pcb_example = \<lparr>upcb_local_ip = ip_addr_zero, upcb_local_port = 0, upcb_remote_type = IPADDR_TYPE_V4, upcb_recv = True,
     upcb_removed = False, upcb_pbufs = \<lambda>_. None, upcb_rx = [], upcb_sent = [], upcb_allocq = [], upcb_errq = []\<rparr>"

definition udp_session_net :: "rx_ev list \<Rightarrow> sockaddr6 dg_ev list \<Rightarrow> net" where
  "udp_session_net rx dg = (udp_net rx dg)\<lparr>fds := [5, 4], polled := [4]\<rparr>"

definition udp_rounds_example :: "udp_round list" where
  "udp_rounds_example =
     [\<lparr>ur_fevs = [], ur_bevs = [EvDatagram ip_addr_zero 53 64 [[1, 2], [3]]], ur_errno = EOK, ur_stack = [], ur_saddrs = [],
       ur_sleep = 10, ur_yevs = []\<rparr>,
      \<lparr>ur_fevs = [EvEnd], ur_bevs = [], ur_errno = EOTHER, ur_stack = [], ur_saddrs = [], ur_sleep = 10, ur_yevs = []\<rparr>]"

lemma udp_session_example_ok:
  "session_ok (udp_session_example type) udp_pcb_example None []" "assoc_ok type (udp_session_example type)"
  "\<forall>r \<in> set udp_rounds_example. round_ok r"
  by (auto simp: session_ok_def udp_session_example_def udp_pcb_example_def session_udp_zero_def udp_queue_def dns_ok_def assoc_ok_def
      hev_list_empty_def list_rep_def udp_rounds_example_def round_ok_def intro!: exI[of _ "[]"])




text \<open>LwIP's callback queues a datagram as one message with the first buffer of its chain, in order,
  as long as at most 512 are waiting and there is memory for a frame; otherwise it frees the chain and
  the queue is as before. So the queue never holds more than 513 messages.\<close>

theorem udp_session_queues_datagram:
  assumes "session_ok self pcb dns qs" "deliverable pcb ip p b"
  shows "\<exists>self' pcb' dns' new. udp_deliver (EvDatagram ip port p b) (self, pcb, dns) = Some (self', pcb', dns') \<and>
    session_ok self' pcb' dns' (qs @ new) \<and> int (length (qs @ new)) \<le> 513 \<and>
    (if int (length qs) \<le> UDP_POOL_SIZE \<and> fst (frame_malloc self) \<noteq> NULL
     then \<exists>q. new = [q] \<and> message_of (dns \<noteq> None) q (ip, port, b)
     else new = [] \<and> upcb_pbufs pcb' = upcb_pbufs pcb)"
proof -
  have "session_ok self' pcb' dns' xs \<Longrightarrow> int (length xs) \<le> 513" for self' pcb' dns' xs by (simp add: session_ok_def)
  with udp_deliver_datagram[OF assms, of port] show ?thesis by meson
qed

theorem udp_session_queues_datagram_witness:
  "\<exists>self' pcb' dns' new. udp_deliver (EvDatagram ip_addr_zero 53 64 [[1, 2], [3]])
      (udp_session_example HEV_SOCKS5_TYPE_UDP_IN_TCP, udp_pcb_example, None) = Some (self', pcb', dns') \<and>
    session_ok self' pcb' dns' new \<and> length new \<le> 513 \<and> (\<exists>q. new = [q] \<and> message_of False q (ip_addr_zero, 53, [[1, 2], [3]]))"
proof -
  have "deliverable udp_pcb_example ip_addr_zero 64 [[1, 2], [3]]"
    by (simp add: deliverable_def udp_pcb_example_def ip_addr_zero_def)
  moreover have "fst (frame_malloc (udp_session_example HEV_SOCKS5_TYPE_UDP_IN_TCP)) \<noteq> NULL"
    by (simp add: frame_malloc_def udp_session_example_def session_udp_zero_def)
  ultimately show ?thesis
    using udp_session_queues_datagram[OF udp_session_example_ok(1)[of HEV_SOCKS5_TYPE_UDP_IN_TCP], where ip = ip_addr_zero and p = 64
      and b = "[[1, 2], [3]]" and port = 53]
    by simp
qed

text \<open>Destroying a session frees every frame and every buffer of its queue, takes its control block
  from lwIP, closes its sockets and frees the object.\<close>

theorem udp_session_destruct_frees:
  assumes "session_ok self pcb dns qs" "us_pcb self" "net_ok w" "0 < blocks w"
    and "s5_fd self < 0 \<or> s5_fd self \<in> set (fds w)" "udp_fd self < 0 \<or> udp_fd self \<in> set (fds w) \<and> udp_fd self \<noteq> s5_fd self"
  shows "\<exists>self' w' pcb'. hev_socks5_session_udp_destruct self w pcb = Some (self', w', pcb') \<and>
    us_mem self' = (\<lambda>_. None) \<and> upcb_pbufs pcb' = (\<lambda>_. None) \<and> upcb_removed pcb' \<and> \<not> upcb_recv pcb' \<and>
    fds w' = remove1 (s5_fd self) (remove1 (udp_fd self) (fds w)) \<and> blocks w' = blocks w - 1"
proof -
  from assms(1) obtain xs where x: "udp_queue self pcb xs" by (auto simp: session_ok_def)
  have "seg (us_links self) NULL (map fst xs) NULL" "hev_list_first (us_list self) = first_of NULL (map fst xs)"
    using x hev_list_first_rep by (auto simp: udp_queue_def list_rep_def)
  with udp_free_queue[of self NULL xs pcb] x udp_queue_distinct[OF x] have f: "udp_free_loop (hev_list_first (us_list self)) self pcb =
      Some (self\<lparr>us_mem := \<lambda>_. None\<rparr>, pcb\<lparr>upcb_pbufs := \<lambda>_. None\<rparr>)" by (simp add: udp_queue_def)
  have d: "d < 0 \<Longrightarrow> d \<notin> set (fds w)" for d using assms(3) by (auto simp: net_ok_def)
  then have n: "d < 0 \<Longrightarrow> remove1 d (fds w) = fds w" "d < 0 \<Longrightarrow> remove1 d (remove1 e (fds w)) = remove1 e (fds w)" for d e
    by (simp_all add: remove1_idem notin_set_remove1)
  have "\<not> upcb_removed pcb" using assms(1) by (simp add: session_ok_def)
  with f assms n show ?thesis
    by (auto simp: hev_socks5_session_udp_destruct_def hev_socks5_client_udp_destruct_def hev_socks5_client_destruct_def
        hev_socks5_destruct_def sys_close_def hev_free_def hev_task_del_fd_def in_set_remove1)
qed

theorem udp_session_destruct_frees_witness:
  "\<exists>self' w' pcb'. hev_socks5_session_udp_destruct (udp_session_example HEV_SOCKS5_TYPE_UDP_IN_UDP)
      ((udp_session_net [] [])\<lparr>blocks := 1\<rparr>) udp_pcb_example = Some (self', w', pcb') \<and>
    us_mem self' = (\<lambda>_. None) \<and> upcb_pbufs pcb' = (\<lambda>_. None) \<and> upcb_removed pcb' \<and> \<not> upcb_recv pcb' \<and>
    fds w' = [] \<and> blocks w' = 0"
  using udp_session_destruct_frees[OF udp_session_example_ok(1), of HEV_SOCKS5_TYPE_UDP_IN_UDP "(udp_session_net [] [])\<lparr>blocks := 1\<rparr>"]
  by (simp add: udp_session_net_def udp_net_def net_ok_def udp_session_example_def session_udp_zero_def)

text \<open>Once a datagram went to a mapped name, every datagram the relay sends to this session, from
  whatever address, is given to lwIP as coming from the destination of the last such datagram; and as
  only the bytes of the address variable are written, a leftover type of the other family in it makes
  lwIP refuse the reply, which ends the receiving direction of the session.\<close>

theorem udp_mapped_replies_share_source:
  assumes "us_addr self \<noteq> 0" "us_port self \<noteq> 0" "udp_replies ms self saddrs pcb = Some (r, pcb')"
  shows "\<exists>reps. upcb_sent pcb' = upcb_sent pcb @ reps \<and>
    list_all (\<lambda>(ip, port, d). take 4 (ip_bytes ip) = store32 (us_addr self) \<and> port = word_of_int (us_port self)) reps \<and>
    (ms = [] \<or> saddrs = [] \<or> ip_type (hd saddrs) \<in> {IPADDR_TYPE_ANY, upcb_remote_type pcb} \<or> reps = [] \<and> r = -1)"
  using assms(3)
proof (induction ms arbitrary: saddrs pcb)
  case Nil
  then show ?case by (intro exI[of _ "[]"]) simp
next
  case (Cons m ms)
  obtain s ss where s: "pop ip_addr_zero saddrs = (s, ss)" by fastforce
  obtain ok q where q: "pop True (upcb_allocq pcb) = (ok, q)" by fastforce
  let ?pcb = "pcb\<lparr>upcb_allocq := q\<rparr>" and ?port = "word_of_int (us_port self)"
  from Cons.prems s q assms(1,2) obtain b where b: "wr (ip_bytes s) 0 (store32 (us_addr self)) = Some b"
    and run: "(if \<not> ok then Some (-1, ?pcb) else do {
        d \<leftarrow> rd (m_buf m) 0 (m_len m mod 65536);
        (err, pcb) \<leftarrow> udp_sendfrom ?pcb d (s\<lparr>ip_bytes := b\<rparr>) ?port;
        if err \<noteq> ERR_OK then Some (-1, pcb) else udp_replies ms self ss pcb
      }) = Some (r, pcb')"
    by (auto simp: reply_source_def Option.bind_eq_Some_conv Let_def)
  have b4: "take 4 b = store32 (us_addr self)" using b by (auto simp: wr_def store32_def splice_at_def split: if_splits)
  have nil: ?case if "r = -1" "upcb_sent pcb' = upcb_sent pcb" using that by (intro exI[of _ "[]"]) simp
  show ?case
  proof (cases ok)
    case False
    with run have "r = -1" "upcb_sent pcb' = upcb_sent pcb" by auto
    then show ?thesis by (rule nil)
  next
    case True
    with run obtain d err pcb1 where d: "udp_sendfrom ?pcb d (s\<lparr>ip_bytes := b\<rparr>) ?port = Some (err, pcb1)"
      "(if err \<noteq> ERR_OK then Some (-1, pcb1) else udp_replies ms self ss pcb1) = Some (r, pcb')"
      by (auto simp: Option.bind_eq_Some_conv)
    then have "\<not> upcb_removed ?pcb" by (simp add: udp_sendfrom_def split: if_splits)
    from udp_sendfrom_cases[OF this, of d "s\<lparr>ip_bytes := b\<rparr>" ?port] d(1) have sent:
      "upcb_sent pcb1 = upcb_sent pcb @ (if err = ERR_OK then [(s\<lparr>ip_bytes := b\<rparr>, ?port, d)] else [])" by auto
    show ?thesis
    proof (cases "err = ERR_OK")
      case False
      with d(2) sent have "r = -1" "upcb_sent pcb' = upcb_sent pcb" by auto
      then show ?thesis by (rule nil)
    next
      case ok: True
      with d(2) have "udp_replies ms self ss pcb1 = Some (r, pcb')" by simp
      from Cons.IH[OF this] obtain reps where i: "upcb_sent pcb' = upcb_sent pcb1 @ reps"
        "list_all (\<lambda>(ip, port, d). take 4 (ip_bytes ip) = store32 (us_addr self) \<and> port = word_of_int (us_port self)) reps" by blast
      have "ip_type s \<in> {IPADDR_TYPE_ANY, upcb_remote_type pcb}" using d(1) ok
        by (auto simp: udp_sendfrom_def split: if_splits)
      then have "saddrs = [] \<or> ip_type (hd saddrs) \<in> {IPADDR_TYPE_ANY, upcb_remote_type pcb}" using s by (cases saddrs) auto
      with i sent ok b4 show ?thesis by (intro exI[of _ "(s\<lparr>ip_bytes := b\<rparr>, ?port, d) # reps"]) auto
    qed
  qed
qed

theorem udp_mapped_replies_share_source_witness:
  "\<exists>pcb' reps. udp_replies [\<lparr>m_addr = At [1, 8, 8, 8, 8, 0, 53], m_buf = [9], m_len = 1\<rparr>, \<lparr>m_addr = At [1, 9, 9, 9, 9, 0, 80], m_buf = [7], m_len = 1\<rparr>]
      ((udp_session_example HEV_SOCKS5_TYPE_UDP_IN_TCP)\<lparr>us_addr := 0x0100a8c0, us_port := 443\<rparr>) [] udp_pcb_example = Some (1, pcb') \<and>
    upcb_sent pcb' = reps \<and> length reps = 2 \<and>
    list_all (\<lambda>(ip, port, d). take 4 (ip_bytes ip) = [192, 168, 0, 1] \<and> port = 443) reps"
proof -
  let ?ms = "[\<lparr>m_addr = At [1, 8, 8, 8, 8, 0, 53], m_buf = [9], m_len = 1\<rparr>, \<lparr>m_addr = At [1, 9, 9, 9, 9, 0, 80], m_buf = [7], m_len = 1\<rparr>]"
  let ?s = "(udp_session_example HEV_SOCKS5_TYPE_UDP_IN_TCP)\<lparr>us_addr := 0x0100a8c0, us_port := 443\<rparr>"
  obtain pcb' where p: "udp_replies ?ms ?s [] udp_pcb_example = Some (1, pcb')" "length (upcb_sent pcb') = 2"
    by (simp add: reply_source_def udp_session_example_def session_udp_zero_def udp_pcb_example_def wr_def store32_def rd_def
        udp_sendfrom_def ip_addr_zero_def)
  have st: "store32 (us_addr ?s) = [192, 168, 0, 1]" by (simp add: store32_def)
  from udp_mapped_replies_share_source[of ?s, OF _ _ p(1), unfolded st] obtain reps where
    "upcb_sent pcb' = reps" "list_all (\<lambda>(ip, port, d). take 4 (ip_bytes ip) = [192, 168, 0, 1] \<and> port = 443) reps"
    by (auto simp: udp_session_example_def session_udp_zero_def udp_pcb_example_def)
  with p show ?thesis by blast
qed

text \<open>A datagram of less than four bytes from the relay, as anybody can send to the socket, has no
  address; the session follows the null address and faults.\<close>

theorem udp_session_short_datagram_faults:
  assumes "session_ok self pcb None qs" "assoc_ok HEV_SOCKS5_TYPE_UDP_IN_UDP self" "udp_fd self \<in> set (fds w)"
    and "dg_rxq (dsk w (udp_fd self)) = [DgData src d]" "length d < 4" "0 < num"
  shows "hev_socks5_session_udp_fwd_b num r (self, w, pcb, None) = None"
proof -
  have t: "s5_type self = HEV_SOCKS5_TYPE_UDP_IN_UDP" "s5_udp_associated self" using assms(2) by (simp_all add: assoc_ok_def)
  have fd: "hev_socks5_client_udp_get_fd self = udp_fd self" by (simp add: hev_socks5_client_udp_get_fd_def t)
  let ?fd = "udp_fd self"
  let ?w = "set_errno (ur_errno r) ?fd w"
  let ?v = "?w\<lparr>dsk := (dsk ?w)(?fd := dsk w ?fd\<lparr>dg_rxq := []\<rparr>)\<rparr>"
  obtain n where n: "num = Suc n" using assms(6) by (cases num) auto
  obtain m ms where s: "udp_slots num (ur_stack r) = m # ms" using slots_nth(1)[of num "ur_stack r"] n by (cases "udp_slots num (ur_stack r)") auto
  then have m: "m_len m = UDP_BUF_SIZE" "length (m_buf m) = UDP_BUF_SIZE" using slots_nth(2)[of m num "ur_stack r"] by simp_all
  have "map m_len (udp_slots num (ur_stack r)) = replicate num UDP_BUF_SIZE"
    by (simp add: udp_slots_def map_replicate_const comp_def)
  then have ml: "map m_len ms = replicate n UDP_BUF_SIZE" unfolding s by (simp add: n)
  have "sys_recvmmsg (m_len m # map m_len ms) (dsk ?w ?fd) = (SysOk [(src, d)], dsk w ?fd\<lparr>dg_rxq := []\<rparr>)"
    using assms(4,5) m(1) unfolding ml by (cases n) (simp_all add: sys_recvmmsg_def set_errno_def)
  with assms(3) have r: "net_recvmmsg self ?fd (map m_len (m # ms)) True ?w = Some (1, [(src, d)], self, ?v)"
    by (simp add: net_recvmmsg_def hev_task_io_socket_recvmmsg_def task_recvmmsg_loop.simps set_errno_def)
  have "0 + length d \<le> length (m_buf m)" using assms(5) m by simp
  from wr_Some[OF this] obtain b where b1: "wr (m_buf m) 0 d = Some b" ..
  have "\<exists>l. hev_socks5_addr_len (drop 3 b) = Some l"
    using length_wr[OF b1] m by (auto simp: hev_socks5_addr_len_def rd8_def)
  then obtain l where "hev_socks5_addr_len (drop 3 b) = Some l" ..
  with r b1 t assms(5) obtain m' ms' where
    rv: "hev_socks5_udp_recvmmsg self ?fd True (udp_slots num (ur_stack r)) ?w = Some (1, m' # ms', self, ?v)" "m_addr m' = Null"
    unfolding s by (simp add: hev_socks5_udp_recvmmsg_def hev_socks5_udp_recvmmsg_udp_def Let_def)
  from udp_deliver_all_ok[OF assms(1), of "ur_bevs r"] obtain self1 pcb1 dns1 new ds where
    e: "udp_deliver_all (ur_bevs r) (self, pcb, None) = Some (self1, pcb1, dns1)" "session_ok self1 pcb1 dns1 (qs @ new)"
      "event_step (self, pcb, None) (self1, pcb1, dns1) ds" by blast
  then have "us_addr self1 = 0" by (auto simp: session_ok_def event_step_def)
  then have "reply_source self1 m' a = None" for a by (simp add: reply_source_def rv(2))
  then have "udp_replies [m'] self1 (ur_saddrs r) pcb1 = None" by (simp add: case_prod_unfold Let_def)
  with rv(1) e(1) n show ?thesis by (simp add: hev_socks5_session_udp_fwd_b_def fd Let_def del: udp_replies.simps)
qed

theorem udp_session_short_datagram_faults_witness:
  "hev_socks5_session_udp_fwd_b 1 (hd udp_rounds_example) (udp_session_example HEV_SOCKS5_TYPE_UDP_IN_UDP,
     udp_session_net [] [DgData sockaddr6_zero [0]], udp_pcb_example, None) = None"
  by (rule udp_session_short_datagram_faults[OF udp_session_example_ok(1,2), where src = sockaddr6_zero and d = "[0]"])
    (simp_all add: udp_session_net_def udp_net_def udp_session_example_def session_udp_zero_def)

end
