(* ===== verification/TaskMutex.thy ===== *)
theory TaskMutex
  imports Prelude
begin

text \<open>
  The mutex of the task system (third-part/hev-task-system/src/kern/sync/hev-task-mutex.c), with the
  tasks that use it in any interleaving: it excludes, it loses no wake-up, and it is not recursive.
\<close>

section \<open>The task mutex (hev-task-mutex.c)\<close>

text \<open>
  Tasks are cooperative: a call runs until it yields. The nodes of \<open>waiters\<close> are on the stacks of the
  tasks that wait, the newest first, so the list is the list of these tasks. A task that waits sleeps
  until it is woken, by \<open>hev_task_mutex_unlock\<close> or by something that has nothing to do with the mutex;
  \<open>mx_ready\<close> has the tasks that wait and are woken. \<open>mx_inside\<close> has the tasks to which a call of lock or
  trylock has returned and that have not unlocked since.
\<close>

type_synonym task = nat

record task_mutex =
  mx_locker :: bool
  mx_waiters :: "task list"
  mx_ready :: "task set"
  mx_inside :: "task set"

definition hev_task_mutex_init :: task_mutex where
  "hev_task_mutex_init = \<lparr>mx_locker = False, mx_waiters = [], mx_ready = {}, mx_inside = {}\<rparr>"

definition mutex_acquire :: "task \<Rightarrow> task_mutex \<Rightarrow> task_mutex" where
  "mutex_acquire k m = m\<lparr>mx_locker := True, mx_inside := insert k (mx_inside m)\<rparr>"

text \<open>The call up to its first yield.\<close>

definition hev_task_mutex_lock :: "task \<Rightarrow> task_mutex \<Rightarrow> task_mutex" where
  "hev_task_mutex_lock k m =
     (if mx_locker m then m\<lparr>mx_waiters := k # mx_waiters m\<rparr> else mutex_acquire k m)"

text \<open>A waiting task has been resumed: the condition of the loop and, if it fails, the rest of the call.\<close>

definition mutex_resume :: "task \<Rightarrow> task_mutex \<Rightarrow> task_mutex" where
  "mutex_resume k m =
     (let m = m\<lparr>mx_ready := mx_ready m - {k}\<rparr> in
      if mx_locker m \<or> hd (mx_waiters m) \<noteq> k then m
      else mutex_acquire k (m\<lparr>mx_waiters := tl (mx_waiters m)\<rparr>))"

definition hev_task_mutex_trylock :: "task \<Rightarrow> task_mutex \<Rightarrow> int \<times> task_mutex" where
  "hev_task_mutex_trylock k m = (if mx_locker m then (-1, m) else (0, mutex_acquire k m))"

definition hev_task_mutex_unlock :: "task \<Rightarrow> task_mutex \<Rightarrow> task_mutex" where
  "hev_task_mutex_unlock k m =
     (let m = m\<lparr>mx_locker := False, mx_inside := mx_inside m - {k}\<rparr> in
      if mx_waiters m \<noteq> [] then m\<lparr>mx_ready := insert (hd (mx_waiters m)) (mx_ready m)\<rparr> else m)"

text \<open>What the tasks can do: a task that does not wait locks or tries to, one that is inside and does not
  wait unlocks, one that waits is woken or, when woken, resumed.\<close>

inductive mutex_step :: "task_mutex \<Rightarrow> task_mutex \<Rightarrow> bool" where
  lock: "k \<notin> set (mx_waiters m) \<Longrightarrow> mutex_step m (hev_task_mutex_lock k m)"
| trylock: "k \<notin> set (mx_waiters m) \<Longrightarrow> mutex_step m (snd (hev_task_mutex_trylock k m))"
| unlock: "k \<notin> set (mx_waiters m) \<Longrightarrow> k \<in> mx_inside m \<Longrightarrow> mutex_step m (hev_task_mutex_unlock k m)"
| wakeup: "k \<in> set (mx_waiters m) \<Longrightarrow> mutex_step m (m\<lparr>mx_ready := insert k (mx_ready m)\<rparr>)"
| resume: "k \<in> set (mx_waiters m) \<Longrightarrow> k \<in> mx_ready m \<Longrightarrow> mutex_step m (mutex_resume k m)"

inductive_cases mutex_stepE: "mutex_step m m'"

lemmas mutex_defs = mutex_acquire_def hev_task_mutex_lock_def mutex_resume_def hev_task_mutex_trylock_def
  hev_task_mutex_unlock_def Let_def

text \<open>The invariant. Its last line: when the mutex is free and somebody waits, the task that may take it
  has been woken.\<close>

definition mutex_inv :: "task_mutex \<Rightarrow> bool" where
  "mutex_inv m \<longleftrightarrow> distinct (mx_waiters m) \<and> mx_ready m \<subseteq> set (mx_waiters m) \<and>
     (if mx_locker m then \<exists>k. mx_inside m = {k} else mx_inside m = {}) \<and>
     (\<not> mx_locker m \<and> mx_waiters m \<noteq> [] \<longrightarrow> hd (mx_waiters m) \<in> mx_ready m)"

lemma mutex_inv_init: "mutex_inv hev_task_mutex_init"
  by (simp add: mutex_inv_def hev_task_mutex_init_def)

lemma mutex_step_inv:
  assumes "mutex_step m m'" "mutex_inv m"
  shows "mutex_inv m'"
  using assms
proof cases
  case (resume k)
  then show ?thesis using assms(2)
    by (cases "mx_waiters m") (auto simp: mutex_inv_def mutex_defs split: if_splits)
qed (auto simp: mutex_inv_def mutex_defs hd_in_set split: if_splits)

text \<open>A task that locks the mutex it holds: it waits, and it alone could unlock.\<close>

definition self_locked :: "task \<Rightarrow> task_mutex \<Rightarrow> bool" where
  "self_locked k m \<longleftrightarrow> k \<in> set (mx_waiters m) \<and> mx_inside m = {k} \<and> mx_locker m"

lemma mutex_step_self_locked: "mutex_step m m' \<Longrightarrow> self_locked k m \<Longrightarrow> self_locked k m'"
  by (erule mutex_stepE) (auto simp: self_locked_def mutex_defs)

subsection \<open>Properties\<close>

text \<open>C32: in every interleaving of the tasks, spurious wake-ups included, at most one task is inside, and
  exactly one when the mutex is locked; and when it is free and tasks wait, the one that may take it has
  been woken and takes it when it is resumed: no wake-up is lost.\<close>

theorem task_mutex_excludes:
  assumes "mutex_step\<^sup>*\<^sup>* hev_task_mutex_init m"
  shows "(\<forall>j k. j \<in> mx_inside m \<longrightarrow> k \<in> mx_inside m \<longrightarrow> j = k) \<and> (mx_locker m \<longleftrightarrow> mx_inside m \<noteq> {}) \<and>
    (\<not> mx_locker m \<and> mx_waiters m \<noteq> [] \<longrightarrow>
       hd (mx_waiters m) \<in> mx_ready m \<and> mx_inside (mutex_resume (hd (mx_waiters m)) m) = {hd (mx_waiters m)})"
proof -
  have "mutex_inv m"
    using assms by (induction rule: rtranclp_induct) (auto simp: mutex_inv_init intro: mutex_step_inv)
  then show ?thesis by (auto simp: mutex_inv_def mutex_defs split: if_splits)
qed

theorem task_mutex_excludes_witness:
  "\<exists>m. mutex_step\<^sup>*\<^sup>* hev_task_mutex_init m \<and> mx_waiters m = [2] \<and> mx_inside (mutex_resume 2 m) = {2}"
proof -
  let ?a = "hev_task_mutex_lock 1 hev_task_mutex_init"
  let ?b = "hev_task_mutex_lock 2 ?a"
  let ?c = "hev_task_mutex_unlock 1 ?b"
  have "mutex_step hev_task_mutex_init ?a" by (rule mutex_step.lock) (simp add: hev_task_mutex_init_def)
  moreover have "mutex_step ?a ?b" by (rule mutex_step.lock) (simp add: hev_task_mutex_init_def mutex_defs)
  moreover have "mutex_step ?b ?c" by (rule mutex_step.unlock) (simp_all add: hev_task_mutex_init_def mutex_defs)
  ultimately have "mutex_step\<^sup>*\<^sup>* hev_task_mutex_init ?c" by (meson converse_rtranclp_into_rtranclp rtranclp.rtrancl_refl)
  moreover have "mx_waiters ?c = [2]" "\<not> mx_locker ?c" by (simp_all add: hev_task_mutex_init_def mutex_defs)
  ultimately show ?thesis using task_mutex_excludes[of ?c] by (intro exI[of _ ?c]) simp
qed

text \<open>The mutex is not recursive: a task that locks it while it holds it waits for ever, and every
  other task that locks it afterwards does so, too.\<close>

theorem task_mutex_self_lock_waits_forever:
  assumes "mutex_step\<^sup>*\<^sup>* hev_task_mutex_init m" "k \<in> mx_inside m" "k \<notin> set (mx_waiters m)"
    and "mutex_step\<^sup>*\<^sup>* (hev_task_mutex_lock k m) m'"
  shows "k \<in> set (mx_waiters m') \<and> mx_inside m' = {k} \<and> (\<forall>j. j \<in> set (mx_waiters (hev_task_mutex_lock j m')))"
proof -
  have "mutex_inv m"
    using assms(1) by (induction rule: rtranclp_induct) (auto simp: mutex_inv_init intro: mutex_step_inv)
  with assms(2) have "self_locked k (hev_task_mutex_lock k m)"
    by (auto simp: self_locked_def mutex_inv_def mutex_defs split: if_splits)
  with assms(4) have "self_locked k m'"
    by (induction rule: rtranclp_induct) (auto intro: mutex_step_self_locked)
  then show ?thesis by (simp add: self_locked_def mutex_defs)
qed

theorem task_mutex_self_lock_waits_forever_witness:
  "mx_waiters (hev_task_mutex_lock 2 (hev_task_mutex_lock 1 (hev_task_mutex_lock 1 hev_task_mutex_init))) = [2, 1] \<and>
   mx_inside (hev_task_mutex_lock 2 (hev_task_mutex_lock 1 (hev_task_mutex_lock 1 hev_task_mutex_init))) = {1}"
proof -
  let ?a = "hev_task_mutex_lock 1 hev_task_mutex_init"
  have a: "mutex_step\<^sup>*\<^sup>* hev_task_mutex_init ?a"
    by (intro r_into_rtranclp mutex_step.lock) (simp add: hev_task_mutex_init_def)
  have i: "1 \<in> mx_inside ?a" "1 \<notin> set (mx_waiters ?a)" by (simp_all add: hev_task_mutex_init_def mutex_defs)
  have "mutex_step\<^sup>*\<^sup>* (hev_task_mutex_lock 1 ?a) (hev_task_mutex_lock 2 (hev_task_mutex_lock 1 ?a))"
    by (intro r_into_rtranclp mutex_step.lock) (simp add: hev_task_mutex_init_def mutex_defs)
  from task_mutex_self_lock_waits_forever[OF a i this] show ?thesis
    by (simp add: hev_task_mutex_init_def mutex_defs)
qed

end
