(* ===== verification/Tunnel.thy ===== *)
theory Tunnel
  imports SessionUDPRun DnsHandle
begin

text \<open>
  The engine's object (src/hev-socks5-tunnel.c): its sessions and the set that orders them, the
  handlers lwIP calls, the event task that stops it and the end of a session's task. The set is shown to
  implement a sequence; TunnelRun shows what the handlers do and what holds in every reachable state.
\<close>

section \<open>The tunnel (hev-socks5-tunnel.c)\<close>

text \<open>
  The tunnel owns the sessions. lwIP reports new connections and datagrams to its handlers, which
  create a session and a task for it; the task runs the session, takes it out of the set and destroys
  it. The set is a list in the order of the last activity; its first node is the candidate for
  termination when \<open>max-session-count\<close> is reached. The event task ends the tunnel.

  \<open>tn_objs\<close> has the sessions by the address of their list node, each with lwIP's side of its
  connection. \<open>tn_conns\<close> is lwIP's list of datagram control blocks (\<open>udp_pcbs\<close>): each belongs to one
  local address and port, \<open>uc_recv\<close> is its callback; the block the tunnel listens on, the last of the
  list, is not in it: its remote address has no type, so no datagram matches it. \<open>tn_dns_out\<close> has the
  replies of the mapped DNS. \<open>tn_mutex\<close> tells whether the mutex around lwIP is locked.
\<close>

subsection \<open>State\<close>

datatype session = TcpSession hev_socks5_session_tcp tcp_pcb | UdpSession hev_socks5_session_udp udp_pcb

datatype udp_recv = RecvNone | RecvDns | RecvSession ptr

record udp_conn =
  uc_ip :: ip_addr
  uc_port :: u16
  uc_recv :: udp_recv

record dns_reply =
  dr_to :: "ip_addr \<times> u16"
  dr_from :: "ip_addr \<times> u16"
  dr_data :: bytes

record tunnel =
  tn_run :: bool
  tn_set :: hevlist
  tn_count :: int
  tn_links :: listheap
  tn_objs :: "ptr \<Rightarrow> session option"
  tn_conns :: "udp_conn list"
  tn_dns :: "mapped_dns option"
  tn_dns_out :: "dns_reply list"
  tn_net :: net
  tn_timer :: ptr
  tn_mutex :: bool
  tn_tx_packets :: "64 word"
  tn_tx_bytes :: "64 word"

abbreviation (input) ERR_MEM :: int where "ERR_MEM \<equiv> -1"
abbreviation (input) ERR_ABRT :: int where "ERR_ABRT \<equiv> -13"
abbreviation (input) ERR_RST :: int where "ERR_RST \<equiv> -14"

text \<open>No task suspends while it holds the mutex, so a task that finds it locked holds it itself and waits
  for ever: the mutex is not recursive (TaskMutex has the waiting).\<close>

definition lwip_lock :: "tunnel \<Rightarrow> tunnel option" where
  "lwip_lock t = (if tn_mutex t then None else Some (t\<lparr>tn_mutex := True\<rparr>))"

definition lwip_unlock :: "tunnel \<Rightarrow> tunnel" where
  "lwip_unlock t = t\<lparr>tn_mutex := False\<rparr>"

text \<open>Dropping the last reference to a session: the destructors lock the mutex. Destroying a UDP session
  takes its control block from lwIP; the buffers and frames are freed with it.\<close>

definition tcp_session_unref :: "hev_socks5_session_tcp \<Rightarrow> tcp_pcb \<Rightarrow> tunnel \<Rightarrow> (tcp_pcb \<times> tunnel) option" where
  "tcp_session_unref tcp pcb t = do {
     t \<leftarrow> lwip_lock t;
     (w, pcb) \<leftarrow> hev_socks5_session_tcp_destruct tcp (tn_net t) pcb;
     Some (pcb, lwip_unlock (t\<lparr>tn_net := w\<rparr>))
   }"

definition udp_session_unref :: "hev_socks5_session_udp \<Rightarrow> udp_pcb \<Rightarrow> (udp_conn \<Rightarrow> bool) \<Rightarrow> tunnel \<Rightarrow> tunnel option" where
  "udp_session_unref udp pcb mine t = do {
     t \<leftarrow> lwip_lock t;
     (_, w, _) \<leftarrow> hev_socks5_session_udp_destruct udp (tn_net t) pcb;
     Some (lwip_unlock (t\<lparr>tn_net := w, tn_conns := filter (\<lambda>c. \<not> mine c) (tn_conns t)\<rparr>))
   }"

subsection \<open>The set of sessions\<close>

fun session_task :: "session \<Rightarrow> ptr" where
  "session_task (TcpSession s pcb) = ts_task s"
| "session_task (UdpSession s pcb) = us_task s"

fun session_timeout :: "session \<Rightarrow> int" where
  "session_timeout (TcpSession s pcb) = s5_timeout s"
| "session_timeout (UdpSession s pcb) = s5_timeout s"

fun hev_socks5_session_set_task :: "session \<Rightarrow> ptr \<Rightarrow> session" where
  "hev_socks5_session_set_task (TcpSession s pcb) task = TcpSession (s\<lparr>ts_task := task\<rparr>) pcb"
| "hev_socks5_session_set_task (UdpSession s pcb) task = UdpSession (s\<lparr>us_task := task\<rparr>) pcb"

fun session_terminate :: "session \<Rightarrow> session option" where
  "session_terminate (TcpSession s pcb) = map_option (\<lambda>s. TcpSession s pcb) (hev_socks5_session_terminate s)"
| "session_terminate (UdpSession s pcb) = map_option (\<lambda>s. UdpSession s pcb) (session_udp_terminate s)"

definition terminate_node :: "ptr \<Rightarrow> tunnel \<Rightarrow> tunnel option" where
  "terminate_node node t = do {
     obj \<leftarrow> tn_objs t node;
     obj \<leftarrow> session_terminate obj;
     Some (t\<lparr>tn_objs := (tn_objs t)(node \<mapsto> obj)\<rparr>)
   }"

definition hev_socks5_tunnel_insert_session :: "int \<Rightarrow> ptr \<Rightarrow> tunnel \<Rightarrow> tunnel option" where
  "hev_socks5_tunnel_insert_session max_session_count node t = do {
     (l, links) \<leftarrow> hev_list_add_tail (tn_set t) (tn_links t) node;
     let t = t\<lparr>tn_set := l, tn_links := links, tn_count := tn_count t + 1\<rparr>;
     if max_session_count = 0 \<or> tn_count t < max_session_count then Some t
     else terminate_node (hev_list_first (tn_set t)) t
   }"

definition hev_socks5_tunnel_delete_session :: "ptr \<Rightarrow> tunnel \<Rightarrow> tunnel option" where
  "hev_socks5_tunnel_delete_session node t = do {
     (l, links) \<leftarrow> hev_list_del (tn_set t) (tn_links t) node;
     Some (t\<lparr>tn_set := l, tn_links := links, tn_count := tn_count t - 1\<rparr>)
   }"

definition hev_socks5_tunnel_update_session :: "int \<Rightarrow> ptr \<Rightarrow> tunnel \<Rightarrow> tunnel option" where
  "hev_socks5_tunnel_update_session max_session_count node t =
     (if max_session_count = 0 then Some t
      else do {
        (l, links) \<leftarrow> hev_list_del (tn_set t) (tn_links t) node;
        (l, links) \<leftarrow> hev_list_add_tail l links node;
        Some (t\<lparr>tn_set := l, tn_links := links\<rparr>)
      })"



subsection \<open>New connections\<close>

text \<open>What the allocators have ready for a session: the address of its list node, the task or NULL, and
  the garbage of the address variable on the stack.\<close>

record session_alloc =
  al_node :: ptr
  al_task :: ptr
  al_stack :: bytes

text \<open>The session is linked and its task started.\<close>

definition session_start :: "config \<Rightarrow> session_alloc \<Rightarrow> session \<Rightarrow> tunnel \<Rightarrow> tunnel option" where
  "session_start conf al s t = do {
     let s = hev_socks5_session_set_task s (al_task al);
     let t = t\<lparr>tn_objs := (tn_objs t)(al_node al \<mapsto> s)\<rparr>;
     t \<leftarrow> hev_socks5_tunnel_insert_session (cf_max_session_count conf) (al_node al) t;
     hev_task_wakeup (tn_timer t);
     Some t
   }"

definition tcp_accept_handler ::
  "config \<Rightarrow> session_alloc \<Rightarrow> tcp_pcb \<Rightarrow> int \<Rightarrow> tunnel \<Rightarrow> (int \<times> tcp_pcb \<times> tunnel) option" where
  "tcp_accept_handler conf al pcb err t =
     (if err \<noteq> ERR_OK then Some (err, pcb, t)
      else if \<not> tn_run t then Some (ERR_RST, pcb, t)
      else do {
        (tcp, pcb, w, dns) \<leftarrow> hev_socks5_session_tcp_new (tn_dns t) (al_stack al) pcb (tn_net t);
        let t = t\<lparr>tn_net := w, tn_dns := dns\<rparr>;
        case tcp of
          None \<Rightarrow> Some (ERR_MEM, pcb, t)
        | Some tcp \<Rightarrow>
            if al_task al = NULL then do {
              (pcb, t) \<leftarrow> tcp_session_unref tcp pcb t;
              Some (ERR_MEM, pcb, t)
            } else do {
              t \<leftarrow> session_start conf al (TcpSession tcp pcb) t;
              Some (ERR_OK, pcb, t)
            }
      })"

text \<open>lwIP's side of the call (third-part/lwip/src/core/tcp_in.c): it aborts a connection that was not
  accepted, unless the callback says that it has done so. Aborting a freed one is undefined.\<close>

definition tcp_accept_event :: "config \<Rightarrow> session_alloc \<Rightarrow> tcp_pcb \<Rightarrow> tunnel \<Rightarrow> (tcp_pcb \<times> tunnel) option" where
  "tcp_accept_event conf al pcb t = do {
     (err, pcb, t) \<leftarrow> tcp_accept_handler conf al pcb ERR_OK t;
     if err = ERR_OK \<or> err = ERR_ABRT then Some (pcb, t)
     else do {
       check (\<not> pcb_gone pcb);
       Some (pcb\<lparr>pcb_aborted := True, pcb_gone := True\<rparr>, t)
     }
   }"

subsection \<open>Datagrams\<close>

record datagram_in =
  di_src :: ip_addr
  di_sport :: u16
  di_dst :: ip_addr
  di_dport :: u16
  di_ptr :: ptr
  di_buf :: pbuf

text \<open>What the allocators have ready for one turn of \<open>udp_input\<close>: whether there is a control block, the
  address and the task of the session, what \<open>hev_malloc\<close> will return for its frames, and the buffer for
  a reply of the mapped DNS.\<close>

record udp_alloc = session_alloc +
  al_pcb :: bool
  al_frames :: "(ptr \<times> bytes) list"
  al_reply :: "bytes option"

text \<open>lwIP's comparison of addresses: the family and the bytes the family has.\<close>

definition ip_addr_eq :: "ip_addr \<Rightarrow> ip_addr \<Rightarrow> bool" where
  "ip_addr_eq a b \<longleftrightarrow> ip_type a = ip_type b \<and>
     (if ip_type a = IPADDR_TYPE_V6 then ip_bytes a = ip_bytes b else take 4 (ip_bytes a) = take 4 (ip_bytes b))"

definition conn_is :: "ip_addr \<Rightarrow> u16 \<Rightarrow> udp_conn \<Rightarrow> bool" where
  "conn_is ip port c \<longleftrightarrow> uc_port c = port \<and> ip_addr_eq (uc_ip c) ip"

definition udp_remove :: "ip_addr \<Rightarrow> u16 \<Rightarrow> tunnel \<Rightarrow> tunnel" where
  "udp_remove ip port t = t\<lparr>tn_conns := filter (\<lambda>c. \<not> conn_is ip port c) (tn_conns t)\<rparr>"

text \<open>\<open>udp_recv\<close> on the newest block, the first of the list.\<close>

definition set_recv :: "udp_recv \<Rightarrow> tunnel \<Rightarrow> tunnel" where
  "set_recv r t = t\<lparr>tn_conns := (case tn_conns t of [] \<Rightarrow> [] | c # cs \<Rightarrow> c\<lparr>uc_recv := r\<rparr> # cs)\<rparr>"

definition dns_recv_handler :: "udp_alloc \<Rightarrow> datagram_in \<Rightarrow> tunnel \<Rightarrow> tunnel option" where
  "dns_recv_handler al dg t = do {
     t \<leftarrow> (case al_reply al of
         None \<Rightarrow> Some t
       | Some b \<Rightarrow> do {
           dns \<leftarrow> tn_dns t;
           check (di_buf dg \<noteq> []);
           (res, _, b, dns) \<leftarrow> hev_mapped_dns_handle dns (hd (di_buf dg)) (length (hd (di_buf dg))) b (length b);
           let t = t\<lparr>tn_dns := Some dns\<rparr>;
           Some (if res < 0 then t
             else t\<lparr>tn_dns_out := tn_dns_out t @ [\<lparr>dr_to = (di_src dg, di_sport dg), dr_from = (di_dst dg, di_dport dg),
               dr_data = take (nat res) b\<rparr>]\<rparr>)
         });
     Some (udp_remove (di_src dg) (di_sport dg) t)
   }"

definition udp_pcb_new :: "ip_addr \<Rightarrow> udp_pcb" where
  "udp_pcb_new src = \<lparr>upcb_local_ip = ip_addr_zero, upcb_local_port = 0, upcb_remote_type = ip_type src, upcb_recv = False,
     upcb_removed = False, upcb_pbufs = \<lambda>_. None, upcb_rx = [], upcb_sent = [], upcb_allocq = [], upcb_errq = []\<rparr>"

definition for_mapped_dns :: "config \<Rightarrow> datagram_in \<Rightarrow> tunnel \<Rightarrow> bool" where
  "for_mapped_dns conf dg t \<longleftrightarrow> tn_dns t \<noteq> None \<and> ip_type (di_dst dg) = IPADDR_TYPE_V4 \<and>
     cf_mapdns_port conf = uint (di_dport dg) \<and> cf_mapdns_address conf = load32 (take 4 (ip_bytes (di_dst dg)))"

text \<open>The callback of the listening block: \<open>pcb\<close> is the new block for the source, \<open>addr\<close> and \<open>port\<close> are
  the destination.\<close>

definition tunnel_udp_recv_handler :: "config \<Rightarrow> udp_alloc \<Rightarrow> datagram_in \<Rightarrow> tunnel \<Rightarrow> tunnel option" where
  "tunnel_udp_recv_handler conf al dg t =
     (if \<not> tn_run t then Some (udp_remove (di_src dg) (di_sport dg) t)
      else if for_mapped_dns conf dg t then Some (set_recv RecvDns t)
      else do {
        (udp, pcb, w) \<leftarrow> hev_socks5_session_udp_new (cf_srv conf) (al_frames al) (udp_pcb_new (di_src dg)) (tn_net t);
        let t = t\<lparr>tn_net := w\<rparr>;
        case udp of
          None \<Rightarrow> Some (udp_remove (di_src dg) (di_sport dg) t)
        | Some udp \<Rightarrow>
            if al_task al = NULL then udp_session_unref udp pcb (conn_is (di_src dg) (di_sport dg)) t
            else session_start conf (session_alloc.truncate al) (UdpSession udp pcb) (set_recv (RecvSession (al_node al)) t)
      })"

text \<open>A datagram for a session goes to its callback.\<close>

definition session_datagram :: "ptr \<Rightarrow> datagram_in \<Rightarrow> tunnel \<Rightarrow> tunnel option" where
  "session_datagram node dg t = do {
     obj \<leftarrow> tn_objs t node;
     (case obj of TcpSession _ _ \<Rightarrow> None
      | UdpSession udp pcb \<Rightarrow> do {
          (udp, pcb, dns) \<leftarrow> udp_deliver (EvDatagram (di_dst dg) (di_dport dg) (di_ptr dg) (di_buf dg)) (udp, pcb, tn_dns t);
          Some (t\<lparr>tn_objs := (tn_objs t)(node \<mapsto> UdpSession udp pcb), tn_dns := dns\<rparr>)
        })
   }"

text \<open>\<open>udp_input\<close> (third-part/lwip/src/core/udp.c), as this fork dispatches a datagram that is not for the
  address of the interface itself: the block of the source gets it; if there is none a block is made,
  shown to the listening one, and the search starts again. \<open>al i\<close> is for the turn \<open>i\<close>.\<close>

partial_function (option) udp_input :: "config \<Rightarrow> (nat \<Rightarrow> udp_alloc) \<Rightarrow> nat \<Rightarrow> datagram_in \<Rightarrow> tunnel \<Rightarrow> tunnel option" where
  "udp_input conf al i dg t =
     (case find (conn_is (di_src dg) (di_sport dg)) (tn_conns t) of
        Some c \<Rightarrow> (case uc_recv c of
            RecvNone \<Rightarrow> Some t
          | RecvDns \<Rightarrow> dns_recv_handler (al i) dg t
          | RecvSession node \<Rightarrow> session_datagram node dg t)
      | None \<Rightarrow>
          if \<not> al_pcb (al i) then Some t
          else do {
            t \<leftarrow> tunnel_udp_recv_handler conf (al i) dg
              (t\<lparr>tn_conns := \<lparr>uc_ip = di_src dg, uc_port = di_sport dg, uc_recv = RecvNone\<rparr> # tn_conns t\<rparr>);
            udp_input conf al (Suc i) dg t
          })"

subsection \<open>The task of a session\<close>

text \<open>The end of \<open>hev_socks5_session_task_entry\<close>, after the session has run.\<close>

definition session_task_exit :: "ptr \<Rightarrow> tunnel \<Rightarrow> tunnel option" where
  "session_task_exit node t = do {
     obj \<leftarrow> tn_objs t node;
     t \<leftarrow> hev_socks5_tunnel_delete_session node t;
     t \<leftarrow> (case obj of
         TcpSession tcp pcb \<Rightarrow> map_option snd (tcp_session_unref tcp pcb t)
       | UdpSession udp pcb \<Rightarrow> udp_session_unref udp pcb (\<lambda>c. uc_recv c = RecvSession node) t);
     Some (t\<lparr>tn_objs := (tn_objs t)(node := None)\<rparr>)
   }"

subsection \<open>The task that reads from the interface\<close>

text \<open>The part of the loop of \<open>lwip_io_task_entry\<close> after a packet of \<open>len\<close> bytes was read; \<open>inp\<close> is what
  lwIP makes of it, one of the two events above.\<close>

definition lwip_io_turn :: "(tunnel \<Rightarrow> tunnel option) \<Rightarrow> nat \<Rightarrow> tunnel \<Rightarrow> tunnel option" where
  "lwip_io_turn inp len t = do {
     let t = t\<lparr>tn_tx_packets := tn_tx_packets t + 1, tn_tx_bytes := tn_tx_bytes t + of_nat len\<rparr>;
     t \<leftarrow> lwip_lock t;
     t \<leftarrow> inp t;
     Some (lwip_unlock t)
   }"

subsection \<open>The set of sessions as a sequence\<close>

text \<open>The sessions in the order of the set. The abstract machine appends a session, drops one, or
  moves one to the end; when an insertion brings their number to the limit, it ends the first.\<close>

type_synonym sessions = "(ptr \<times> session) list"

fun ended :: "session \<Rightarrow> session" where
  "ended (TcpSession s pcb) = TcpSession (s\<lparr>s5_timeout := 0\<rparr>) pcb"
| "ended (UdpSession s pcb) = UdpSession (s\<lparr>s5_timeout := 0\<rparr>) pcb"

definition end_first :: "sessions \<Rightarrow> sessions" where
  "end_first xs = (case xs of [] \<Rightarrow> [] | (n, s) # ys \<Rightarrow> (n, ended s) # ys)"

datatype set_op = Insert ptr session | Delete ptr | Update ptr

fun sessions_step :: "int \<Rightarrow> sessions \<Rightarrow> set_op \<Rightarrow> sessions option" where
  "sessions_step limit xs (Insert n s) =
     (if n = NULL \<or> n \<in> fst ` set xs \<or> session_task s = NULL then None
      else let ys = xs @ [(n, s)] in Some (if limit = 0 \<or> int (length ys) < limit then ys else end_first ys))"
| "sessions_step limit xs (Delete n) =
     (if n \<in> fst ` set xs then Some (filter (\<lambda>x. fst x \<noteq> n) xs) else None)"
| "sessions_step limit xs (Update n) =
     (case map_of xs n of None \<Rightarrow> None
      | Some s \<Rightarrow> Some (if limit = 0 then xs else filter (\<lambda>x. fst x \<noteq> n) xs @ [(n, s)]))"

fun tunnel_set_step :: "int \<Rightarrow> tunnel \<Rightarrow> set_op \<Rightarrow> tunnel option" where
  "tunnel_set_step limit t (Insert n s) = hev_socks5_tunnel_insert_session limit n (t\<lparr>tn_objs := (tn_objs t)(n \<mapsto> s)\<rparr>)"
| "tunnel_set_step limit t (Delete n) =
     map_option (\<lambda>t. t\<lparr>tn_objs := (tn_objs t)(n := None)\<rparr>) (hev_socks5_tunnel_delete_session n t)"
| "tunnel_set_step limit t (Update n) = hev_socks5_tunnel_update_session limit n t"

lemma filter_fst_notin: "n \<notin> fst ` set xs \<Longrightarrow> filter (\<lambda>x. fst x \<noteq> n) xs = xs"
  by (auto simp: filter_id_conv)

lemma remove1_map_fst: "distinct (map fst xs) \<Longrightarrow> remove1 n (map fst xs) = map fst (filter (\<lambda>x. fst x \<noteq> n) xs)"
  by (induction xs) (auto simp: filter_fst_notin)

lemma map_of_filter_fst: "map_of (filter (\<lambda>x. fst x \<noteq> n) xs) = (map_of xs)(n := None)"
  by (induction xs) auto

lemma length_filter_fst: "distinct (map fst xs) \<Longrightarrow> n \<in> fst ` set xs \<Longrightarrow> Suc (length (filter (\<lambda>x. fst x \<noteq> n) xs)) = length xs"
  by (induction xs) (auto simp: filter_fst_notin)

lemma map_of_snoc: "map_of xs n = None \<or> map_of xs n = Some s \<Longrightarrow> map_of (xs @ [(n, s)]) = (map_of xs)(n \<mapsto> s)"
proof (rule ext)
  fix x
  assume "map_of xs n = None \<or> map_of xs n = Some s"
  then show "map_of (xs @ [(n, s)]) x = ((map_of xs)(n \<mapsto> s)) x"
    by (cases "map_of xs x"; cases "x = n") (auto simp: map_add_def)
qed

definition sessions_rep :: "tunnel \<Rightarrow> sessions \<Rightarrow> bool" where
  "sessions_rep t xs \<longleftrightarrow> list_rep (tn_set t) (tn_links t) (map fst xs) \<and> tn_count t = int (length xs) \<and>
     tn_objs t = map_of xs \<and> (\<forall>(n, s) \<in> set xs. session_task s \<noteq> NULL)"

text \<open>What the operations on the set leave alone.\<close>

definition set_frame :: "tunnel \<Rightarrow> tunnel \<Rightarrow> bool" where
  "set_frame t t' \<longleftrightarrow> tn_run t' = tn_run t \<and> tn_conns t' = tn_conns t \<and> tn_dns t' = tn_dns t \<and> tn_dns_out t' = tn_dns_out t \<and>
     tn_net t' = tn_net t \<and> tn_timer t' = tn_timer t \<and> tn_mutex t' = tn_mutex t \<and>
     tn_tx_packets t' = tn_tx_packets t \<and> tn_tx_bytes t' = tn_tx_bytes t"

lemma ended_simps [simp]: "session_task (ended s) = session_task s" "session_timeout (ended s) = 0"
  by (cases s; simp)+

lemma session_terminate_ended: "session_task s \<noteq> NULL \<Longrightarrow> session_terminate s = Some (ended s)"
  by (cases s) (auto simp: hev_socks5_session_terminate_def session_udp_terminate_def hev_task_wakeup_def hev_socks5_set_timeout_def)

lemma sessions_rep_distinct: "sessions_rep t xs \<Longrightarrow> distinct (map fst xs)"
  unfolding sessions_rep_def using hl.rep_distinct by blast


lemma sessions_rep_get: "sessions_rep t xs \<Longrightarrow> (n, s) \<in> set xs \<Longrightarrow> tn_objs t n = Some s"
  using sessions_rep_distinct[of t xs] map_of_is_SomeI[of xs n s] by (simp add: sessions_rep_def)

lemma length_end_first [simp]: "length (end_first xs) = length xs"
  by (simp add: end_first_def split: list.splits)

lemma map_of_end_first: "xs = (n, s) # ys \<Longrightarrow> map_of (end_first xs) = (map_of xs)(n \<mapsto> ended s)"
  by (simp add: end_first_def)

lemma map_of_replace: "n \<notin> fst ` set ys \<Longrightarrow> map_of (ys @ (n, e) # zs) = (map_of (ys @ (n, s) # zs))(n \<mapsto> e)"
  by (induction ys) (auto simp: fun_upd_twist)

lemma sessions_rep_terminate:
  assumes r: "sessions_rep t (ys @ (n, s) # zs)"
  shows "terminate_node n t = Some (t\<lparr>tn_objs := (tn_objs t)(n \<mapsto> ended s)\<rparr>) \<and>
    sessions_rep (t\<lparr>tn_objs := (tn_objs t)(n \<mapsto> ended s)\<rparr>) (ys @ (n, ended s) # zs)"
proof -
  have "session_task s \<noteq> NULL" "tn_objs t n = Some s" using sessions_rep_get[OF r, of n s] r by (auto simp: sessions_rep_def)
  moreover have "n \<notin> fst ` set ys" using sessions_rep_distinct[OF r] by auto
  note map_of_replace[OF this, of "ended s" zs s]
  ultimately show ?thesis using r session_terminate_ended[of s] by (auto simp: terminate_node_def sessions_rep_def)
qed

lemma insert_rep:
  assumes r: "sessions_rep t xs" and n: "n \<noteq> NULL" "n \<notin> fst ` set xs" "session_task s \<noteq> NULL"
  shows "\<exists>t'. hev_socks5_tunnel_insert_session limit n (t\<lparr>tn_objs := (tn_objs t)(n \<mapsto> s)\<rparr>) = Some t' \<and> set_frame t t' \<and>
    sessions_rep t' (let ys = xs @ [(n, s)] in if limit = 0 \<or> int (length ys) < limit then ys else end_first ys)"
proof -
  have "n \<notin> set (map fst xs)" using n(2) by simp
  from hl.add_tail_rep[OF _ n(1) this] r obtain l lk where l: "hev_list_add_tail (tn_set t) (tn_links t) n = Some (l, lk)"
    "list_rep l lk (map fst xs @ [n])" unfolding sessions_rep_def by blast
  let ?t = "t\<lparr>tn_objs := (tn_objs t)(n \<mapsto> s), tn_set := l, tn_links := lk, tn_count := tn_count t + 1\<rparr>"
  have "map_of (xs @ [(n, s)]) = (map_of xs)(n \<mapsto> s)"
    using n(2) by (intro map_of_snoc) (simp add: map_of_eq_None_iff)
  with r l n have rep: "sessions_rep ?t (xs @ [(n, s)])" by (auto simp: sessions_rep_def)
  obtain m u ys where x: "xs @ [(n, s)] = (m, u) # ys" by (cases "xs @ [(n, s)]") auto
  have f: "hev_list_first l = m" using hl.first_rep[OF l(2)] x by (cases xs) auto
  have c: "tn_count t + 1 = int (length (xs @ [(n, s)]))" using r by (simp add: sessions_rep_def)
  show ?thesis
  proof (cases "limit = 0 \<or> int (length (xs @ [(n, s)])) < limit")
    case True
    then have "hev_socks5_tunnel_insert_session limit n (t\<lparr>tn_objs := (tn_objs t)(n \<mapsto> s)\<rparr>) = Some ?t"
      using l(1) c by (auto simp: hev_socks5_tunnel_insert_session_def Let_def)
    with True rep show ?thesis by (intro exI[of _ ?t]) (simp only: Let_def if_True, simp add: set_frame_def)
  next
    case False
    have t: "terminate_node m ?t = Some (?t\<lparr>tn_objs := (tn_objs ?t)(m \<mapsto> ended u)\<rparr>)"
      "sessions_rep (?t\<lparr>tn_objs := (tn_objs ?t)(m \<mapsto> ended u)\<rparr>) ((m, ended u) # ys)"
      using sessions_rep_terminate[of ?t "[]" m u ys] rep x by simp_all
    from False l c f t show ?thesis unfolding Let_def x
      by (intro exI[of _ "?t\<lparr>tn_objs := (tn_objs ?t)(m \<mapsto> ended u)\<rparr>"])
        (auto simp: hev_socks5_tunnel_insert_session_def Let_def end_first_def set_frame_def)
  qed
qed

lemma delete_rep:
  assumes r: "sessions_rep t xs" and n: "n \<in> fst ` set xs"
  shows "\<exists>l lk. hev_socks5_tunnel_delete_session n t = Some (t\<lparr>tn_set := l, tn_links := lk, tn_count := tn_count t - 1\<rparr>) \<and>
    sessions_rep (t\<lparr>tn_set := l, tn_links := lk, tn_count := tn_count t - 1, tn_objs := (tn_objs t)(n := None)\<rparr>)
      (filter (\<lambda>x. fst x \<noteq> n) xs)"
proof -
  note d = sessions_rep_distinct[OF r]
  have "n \<in> set (map fst xs)" using n by simp
  from hl.del_rep[OF _ this] r obtain l lk where l: "hev_list_del (tn_set t) (tn_links t) n = Some (l, lk)"
    "list_rep l lk (remove1 n (map fst xs))" unfolding sessions_rep_def by blast
  have "int (length xs) - 1 = int (length (filter (\<lambda>x. fst x \<noteq> n) xs))" using length_filter_fst[OF d n] by simp
  with r l d show ?thesis
    by (intro exI[of _ l] exI[of _ lk])
      (auto simp: hev_socks5_tunnel_delete_session_def sessions_rep_def remove1_map_fst map_of_filter_fst)
qed

lemma update_rep:
  assumes r: "sessions_rep t xs" and s: "map_of xs n = Some s"
  shows "\<exists>l lk. hev_socks5_tunnel_update_session limit n t = Some (t\<lparr>tn_set := l, tn_links := lk\<rparr>) \<and>
    sessions_rep (t\<lparr>tn_set := l, tn_links := lk\<rparr>) (if limit = 0 then xs else filter (\<lambda>x. fst x \<noteq> n) xs @ [(n, s)])"
proof (cases "limit = 0")
  case True
  with r show ?thesis by (intro exI[of _ "tn_set t"] exI[of _ "tn_links t"]) (simp add: hev_socks5_tunnel_update_session_def)
next
  case False
  note d = sessions_rep_distinct[OF r]
  have m: "(n, s) \<in> set xs" using s by (rule map_of_SomeD)
  then have n: "n \<in> set (map fst xs)" "n \<in> fst ` set xs" by force+
  from hl.move_to_tail[OF _ n(1)] r obtain l1 h1 l2 h2 where l: "hev_list_del (tn_set t) (tn_links t) n = Some (l1, h1)"
    "hev_list_add_tail l1 h1 n = Some (l2, h2)" "list_rep l2 h2 (remove1 n (map fst xs) @ [n])"
    unfolding sessions_rep_def by blast
  let ?ys = "filter (\<lambda>x. fst x \<noteq> n) xs"
  have "map_of (?ys @ [(n, s)]) = map_of xs"
    using s map_of_snoc[of ?ys n s] by (simp add: map_of_filter_fst fun_upd_idem)
  moreover have "Suc (length ?ys) = length xs" using length_filter_fst[OF d n(2)] .
  ultimately have "sessions_rep (t\<lparr>tn_set := l2, tn_links := h2\<rparr>) (?ys @ [(n, s)])"
    using r l(3) d m by (auto simp: sessions_rep_def remove1_map_fst)
  with l False show ?thesis by (auto simp: hev_socks5_tunnel_update_session_def)
qed

lemma tunnel_set_sim:
  assumes "sessions_rep t xs" "sessions_step limit xs op = Some ys"
  shows "\<exists>t'. tunnel_set_step limit t op = Some t' \<and> sessions_rep t' ys"
proof (cases op)
  case (Insert n s)
  with assms insert_rep[OF assms(1), of n s limit] show ?thesis by (auto simp: Let_def split: if_splits)
next
  case (Delete n)
  with assms delete_rep[OF assms(1), of n] show ?thesis by (auto split: if_splits)
next
  case (Update n)
  with assms update_rep[OF assms(1), of n _ limit] show ?thesis by (force split: option.splits)
qed

lemma tunnel_run_sim:
  assumes "sessions_rep t xs" "run_ops (sessions_step limit) xs ops = Some ys"
  shows "\<exists>t'. run_ops (tunnel_set_step limit) t ops = Some t' \<and> sessions_rep t' ys"
  by (rule run_ops_sim[where R = sessions_rep and astep = "sessions_step limit", OF tunnel_set_sim assms])



subsection \<open>Properties of the set\<close>

text \<open>C9: the set of sessions implements a sequence ordered by activity: every run of insertions,
  removals and updates is defined, keeps the list, the counter and the objects in step, and at the
  limit ends exactly the least recently active session.\<close>

theorem tunnel_sessions_implement_sequence:
  assumes "sessions_rep t xs" "run_ops (sessions_step limit) xs ops = Some ys"
  shows "\<exists>t'. run_ops (tunnel_set_step limit) t ops = Some t' \<and> sessions_rep t' ys"
  by (rule tunnel_run_sim[OF assms])

definition tunnel_example :: tunnel where
  "tunnel_example = \<lparr>tn_run = True, tn_set = hev_list_empty, tn_count = 0, tn_links = \<lparr>lnext = \<lambda>_. NULL, lprev = \<lambda>_. NULL\<rparr>,
     tn_objs = (\<lambda>_. None), tn_conns = [], tn_dns = None, tn_dns_out = [],
     tn_net = net_example, tn_timer = 9, tn_mutex = False, tn_tx_packets = 0, tn_tx_bytes = 0\<rparr>"

definition tcp_session_example :: session where
  "tcp_session_example = TcpSession (session_tcp_zero\<lparr>ts_task := 7, s5_timeout := 100\<rparr>) pcb_example"

lemma tunnel_example_rep: "sessions_rep tunnel_example []"
  by (simp add: sessions_rep_def tunnel_example_def hev_list_empty_def list_rep_def)

theorem tunnel_sessions_implement_sequence_witness:
  "\<exists>t'. run_ops (tunnel_set_step 3) tunnel_example [Insert 64 tcp_session_example, Insert 128 tcp_session_example, Update 64,
      Insert 192 tcp_session_example, Delete 128] = Some t' \<and>
    sessions_rep t' [(64, tcp_session_example), (192, tcp_session_example)]"
proof -
  have "session_task tcp_session_example = 7" by (simp add: tcp_session_example_def)
  then show ?thesis
    by (intro tunnel_sessions_implement_sequence[OF tunnel_example_rep])
      (simp add: Let_def end_first_def)
qed

lemma run_inserts:
  assumes "xs \<noteq> []" "\<forall>(n, s) \<in> set zs. n \<noteq> NULL \<and> session_task s \<noteq> NULL" "distinct (map fst (xs @ zs))"
    "limit \<noteq> 0" "limit \<le> int (length xs)"
  shows "run_ops (sessions_step limit) xs (map (\<lambda>(n, s). Insert n s) zs) =
    Some (if zs = [] then xs else end_first (xs @ zs))"
  using assms
proof (induction zs arbitrary: xs)
  case (Cons z zs)
  obtain n s where z: "z = (n, s)" by (cases z)
  obtain m u ys where x: "xs = (m, u) # ys" using Cons.prems(1) by (cases xs) auto
  have "ended (ended u) = ended u" by (cases u) auto
  then have e: "end_first (end_first (xs @ [(n, s)]) @ zs) = end_first (xs @ z # zs)" by (simp add: x z end_first_def)
  have st: "sessions_step limit xs (Insert n s) = Some (end_first (xs @ [(n, s)]))"
    using Cons.prems z by (auto simp: Let_def)
  have "run_ops (sessions_step limit) (end_first (xs @ [(n, s)])) (map (\<lambda>(n, s). Insert n s) zs) =
      Some (if zs = [] then end_first (xs @ [(n, s)]) else end_first (end_first (xs @ [(n, s)]) @ zs))"
    using Cons.prems z by (intro Cons.IH) (auto simp: x end_first_def)
  with st z e show ?case by (cases "zs = []") auto
qed simp

text \<open>C30: \<open>max-session-count\<close> does not bound the sessions: only the first of the set is ended by an
  insertion, also when it has been ended before and its task has not come to run, so that all sessions
  but one of a burst of connections stay alive.\<close>

theorem tunnel_burst_exceeds_limit:
  assumes "sessions_rep t xs" "xs \<noteq> []" "zs \<noteq> []" "limit \<noteq> 0" "limit \<le> int (length xs)"
    and "\<forall>(n, s) \<in> set zs. n \<noteq> NULL \<and> session_task s \<noteq> NULL" "distinct (map fst (xs @ zs))"
  shows "\<exists>t'. run_ops (tunnel_set_step limit) t (map (\<lambda>(n, s). Insert n s) zs) = Some t' \<and>
    sessions_rep t' (end_first (xs @ zs)) \<and> tn_count t' = int (length xs + length zs)"
proof -
  from run_inserts[OF assms(2,6,7,4,5)] assms(3)
  have "run_ops (sessions_step limit) xs (map (\<lambda>(n, s). Insert n s) zs) = Some (end_first (xs @ zs))" by simp
  from tunnel_run_sim[OF assms(1) this] obtain t' where
    "run_ops (tunnel_set_step limit) t (map (\<lambda>(n, s). Insert n s) zs) = Some t'" "sessions_rep t' (end_first (xs @ zs))" by blast
  moreover from this(2) have "tn_count t' = int (length xs + length zs)"
    by (simp add: sessions_rep_def)
  ultimately show ?thesis by blast
qed


theorem tunnel_burst_exceeds_limit_witness:
  "\<exists>t t'. tunnel_set_step 1 tunnel_example (Insert 64 tcp_session_example) = Some t \<and>
    run_ops (tunnel_set_step 1) t [Insert 128 tcp_session_example, Insert 192 tcp_session_example] = Some t' \<and>
    sessions_rep t' [(64, ended tcp_session_example), (128, tcp_session_example), (192, tcp_session_example)] \<and> tn_count t' = 3"
proof -
  let ?s = tcp_session_example
  have k: "session_task ?s = 7" by (simp add: tcp_session_example_def)
  have "sessions_step 1 [] (Insert 64 ?s) = Some [(64, ended ?s)]" using k by (simp add: end_first_def)
  from tunnel_set_sim[OF tunnel_example_rep this] obtain t where
    t: "tunnel_set_step 1 tunnel_example (Insert 64 ?s) = Some t" "sessions_rep t [(64, ended ?s)]" by blast
  have "ended (ended ?s) = ended ?s" by (simp add: tcp_session_example_def)
  with tunnel_burst_exceeds_limit[OF t(2), of "[(128, ?s), (192, ?s)]" 1] k t(1) show ?thesis
    by (simp add: end_first_def)
qed


end
