(* ===== verification/TunnelRun.thy ===== *)
theory TunnelRun
  imports Tunnel
begin

text \<open>
  The behaviour of the tunnel: accepting connections, dispatching datagrams to sessions and to the
  mapped DNS, running out of memory, and an invariant of every state it reaches.
\<close>

subsection \<open>Accepting a connection\<close>

text \<open>\<open>a\<close> is what a session for \<open>ip\<close> and \<open>port\<close> asks the proxy for: the address itself, or a name the
  mapped DNS has given it to.\<close>

definition destination_of :: "bool \<Rightarrow> socks_addr \<Rightarrow> ip_addr \<Rightarrow> u16 \<Rightarrow> bool" where
  "destination_of has_dns a ip port \<longleftrightarrow>
     lwip_addr ip port = Some a \<or> has_dns \<and> ip_type ip = IPADDR_TYPE_V4 \<and> (\<exists>n. a = SA_Name n port)"



definition inserted :: "int \<Rightarrow> sessions \<Rightarrow> sessions" where
  "inserted limit ys = (if limit = 0 \<or> int (length ys) < limit then ys else end_first ys)"



lemma sessions_rep_cong:
  "sessions_rep t xs \<Longrightarrow> tn_set t' = tn_set t \<Longrightarrow> tn_links t' = tn_links t \<Longrightarrow> tn_count t' = tn_count t \<Longrightarrow> tn_objs t' = tn_objs t \<Longrightarrow>
    sessions_rep t' xs"
  by (simp add: sessions_rep_def)




subsection \<open>Dispatching datagrams\<close>



lemma sessions_rep_replace:
  assumes r: "sessions_rep t (ys @ (n, s) # zs)" and s: "session_task s' \<noteq> NULL"
  shows "sessions_rep (t\<lparr>tn_objs := (tn_objs t)(n \<mapsto> s')\<rparr>) (ys @ (n, s') # zs)"
proof -
  have "n \<notin> fst ` set ys" using sessions_rep_distinct[OF r] by auto
  note map_of_replace[OF this, of s' zs s]
  with r s show ?thesis by (auto simp: sessions_rep_def)
qed

lemma session_datagram_rep:
  assumes r: "sessions_rep t (ys @ (n, UdpSession udp pcb) # zs)" and ok: "session_ok udp pcb (tn_dns t) qs"
    and d: "deliverable pcb (di_dst dg) (di_ptr dg) (di_buf dg)"
  shows "\<exists>udp' pcb' dns' new. session_datagram n dg t = Some (t\<lparr>tn_objs := (tn_objs t)(n \<mapsto> UdpSession udp' pcb'), tn_dns := dns'\<rparr>) \<and>
    sessions_rep (t\<lparr>tn_objs := (tn_objs t)(n \<mapsto> UdpSession udp' pcb'), tn_dns := dns'\<rparr>) (ys @ (n, UdpSession udp' pcb') # zs) \<and>
    session_ok udp' pcb' dns' (qs @ new) \<and> us_pcb udp' = us_pcb udp \<and> us_task udp' = us_task udp \<and> (dns' = None \<longleftrightarrow> tn_dns t = None) \<and>
    (if int (length qs) \<le> UDP_POOL_SIZE \<and> fst (frame_malloc udp) \<noteq> NULL
     then \<exists>a. new = [(a, hd (di_buf dg))] \<and> destination_of (tn_dns t \<noteq> None) a (di_dst dg) (di_dport dg) else new = [])"
proof -
  from udp_deliver_datagram[OF ok d, of "di_dport dg"] obtain udp' pcb' dns' new where
    u: "udp_deliver (EvDatagram (di_dst dg) (di_dport dg) (di_ptr dg) (di_buf dg)) (udp, pcb, tn_dns t) = Some (udp', pcb', dns')"
      "session_ok udp' pcb' dns' (qs @ new)" "event_step (udp, pcb, tn_dns t) (udp', pcb', dns') [(di_dst dg, di_dport dg, di_buf dg)]"
      "if int (length qs) \<le> UDP_POOL_SIZE \<and> fst (frame_malloc udp) \<noteq> NULL
       then \<exists>q. new = [q] \<and> message_of (tn_dns t \<noteq> None) q (di_dst dg, di_dport dg, di_buf dg)
       else new = [] \<and> upcb_pbufs pcb' = upcb_pbufs pcb" by blast
  have o: "tn_objs t n = Some (UdpSession udp pcb)" using sessions_rep_get[OF r] by simp
  have "session_task (UdpSession udp' pcb') \<noteq> NULL" using u(2) by (simp add: session_ok_def)
  from sessions_rep_replace[OF r this]
  have "sessions_rep (t\<lparr>tn_objs := (tn_objs t)(n \<mapsto> UdpSession udp' pcb'), tn_dns := dns'\<rparr>) (ys @ (n, UdpSession udp' pcb') # zs)"
    by (rule sessions_rep_cong) simp_all
  moreover have "session_datagram n dg t = Some (t\<lparr>tn_objs := (tn_objs t)(n \<mapsto> UdpSession udp' pcb'), tn_dns := dns'\<rparr>)"
    using o u(1) by (simp add: session_datagram_def del: udp_deliver.simps)
  moreover have "if int (length qs) \<le> UDP_POOL_SIZE \<and> fst (frame_malloc udp) \<noteq> NULL
     then \<exists>a. new = [(a, hd (di_buf dg))] \<and> destination_of (tn_dns t \<noteq> None) a (di_dst dg) (di_dport dg) else new = []"
    using u(4) by (auto simp: message_of_def destination_of_def split: if_splits)
  moreover have "us_pcb udp' = us_pcb udp" "us_task udp' = us_task udp" "dns' = None \<longleftrightarrow> tn_dns t = None" using u(3) by (simp_all add: event_step_def)
  ultimately show ?thesis using u(2)
    by (intro exI[of _ udp'] exI[of _ pcb'] exI[of _ dns'] exI[of _ new] conjI) assumption+
qed

lemma ip_addr_eq_refl [simp]: "ip_addr_eq a a"
  by (simp add: ip_addr_eq_def)

lemma find_None_filter: "find P xs = None \<Longrightarrow> filter (\<lambda>x. \<not> P x) xs = xs"
  by (simp add: find_None_iff filter_id_conv)


text \<open>The block \<open>udp_input\<close> makes for a source.\<close>

abbreviation (input) new_conn :: "datagram_in \<Rightarrow> udp_recv \<Rightarrow> udp_conn" where
  "new_conn dg r \<equiv> \<lparr>uc_ip = di_src dg, uc_port = di_sport dg, uc_recv = r\<rparr>"

lemma udp_input_known:
  assumes "find (conn_is (di_src dg) (di_sport dg)) (tn_conns t) = Some c"
  shows "udp_input conf al i dg t = (case uc_recv c of RecvNone \<Rightarrow> Some t
    | RecvDns \<Rightarrow> dns_recv_handler (al i) dg t | RecvSession node \<Rightarrow> session_datagram node dg t)"
  by (subst udp_input.simps) (simp add: assms)

lemma udp_input_new:
  assumes "find (conn_is (di_src dg) (di_sport dg)) (tn_conns t) = None" "al_pcb (al i)"
  shows "udp_input conf al i dg t = tunnel_udp_recv_handler conf (al i) dg (t\<lparr>tn_conns := new_conn dg RecvNone # tn_conns t\<rparr>) \<bind>
    udp_input conf al (Suc i) dg"
  by (subst udp_input.simps) (simp add: assms)


text \<open>A datagram of a source that has a session goes to that session, which queues it behind the
  earlier ones (or drops it when its queue or the memory is exhausted); no other session changes.\<close>

theorem tunnel_datagram_reaches_its_session:
  assumes "sessions_rep t (ys @ (n, UdpSession udp pcb) # zs)" "session_ok udp pcb (tn_dns t) qs"
    and "find (conn_is (di_src dg) (di_sport dg)) (tn_conns t) = Some c" "uc_recv c = RecvSession n"
    and "deliverable pcb (di_dst dg) (di_ptr dg) (di_buf dg)"
  shows "\<exists>t' udp' pcb' new. udp_input conf al i dg t = Some t' \<and> tn_conns t' = tn_conns t \<and>
    sessions_rep t' (ys @ (n, UdpSession udp' pcb') # zs) \<and> session_ok udp' pcb' (tn_dns t') (qs @ new) \<and>
    (if int (length qs) \<le> UDP_POOL_SIZE \<and> fst (frame_malloc udp) \<noteq> NULL
     then \<exists>a. new = [(a, hd (di_buf dg))] \<and> destination_of (tn_dns t \<noteq> None) a (di_dst dg) (di_dport dg) else new = [])"
proof -
  from session_datagram_rep[OF assms(1,2,5)] obtain udp' pcb' dns' new where
    d: "session_datagram n dg t = Some (t\<lparr>tn_objs := (tn_objs t)(n \<mapsto> UdpSession udp' pcb'), tn_dns := dns'\<rparr>)"
    "sessions_rep (t\<lparr>tn_objs := (tn_objs t)(n \<mapsto> UdpSession udp' pcb'), tn_dns := dns'\<rparr>) (ys @ (n, UdpSession udp' pcb') # zs)"
    "session_ok udp' pcb' dns' (qs @ new)"
    "if int (length qs) \<le> UDP_POOL_SIZE \<and> fst (frame_malloc udp) \<noteq> NULL
     then \<exists>a. new = [(a, hd (di_buf dg))] \<and> destination_of (tn_dns t \<noteq> None) a (di_dst dg) (di_dport dg) else new = []"
    by (elim exE conjE) (rule that, assumption+)
  moreover have "udp_input conf al i dg t = session_datagram n dg t" using udp_input_known[OF assms(3)] assms(4) by simp
  ultimately show ?thesis
    by (intro exI[of _ "t\<lparr>tn_objs := (tn_objs t)(n \<mapsto> UdpSession udp' pcb'), tn_dns := dns'\<rparr>"] exI[of _ udp'] exI[of _ pcb']
        exI[of _ new] conjI) simp_all
qed



text \<open>C19: a query of a new source to the address and port of the mapped DNS gets exactly one reply, the
  answer of the mapped DNS, from that address to the source; no session is created and the block of the
  source is gone afterwards.\<close>

theorem tunnel_answers_dns_query:
  assumes "tn_run t" "find (conn_is (di_src dg) (di_sport dg)) (tn_conns t) = None" "al_pcb (al i)"
    and "for_mapped_dns conf dg t" "tn_dns t = Some d" "al_reply (al (Suc i)) = Some b"
    and "\<forall>q \<in> set qs. question_ok q" "length qs \<le> 32" "length counts = 6" "resolve 12 qs d = Some (as, d')"
    and "di_buf dg = dns_query qid fl counts qs rest # bs" "length (dns_query qid fl counts qs rest) \<le> length b"
    and "12 + length (concat (map enc_q qs)) + 16 * length as \<le> length b"
  shows "\<exists>d'. udp_input conf al i dg t = Some (t\<lparr>tn_dns := Some d', tn_dns_out := tn_dns_out t @
    [\<lparr>dr_to = (di_src dg, di_sport dg), dr_from = (di_dst dg, di_dport dg), dr_data = dns_response qid fl qs as\<rparr>]\<rparr>)"
proof -
  let ?t = "t\<lparr>tn_conns := new_conn dg RecvDns # tn_conns t\<rparr>"
  from dns_handle_correct[OF assms(7-10) refl refl assms(12,13)] obtain req' res' where
    r: "hev_mapped_dns_handle d (dns_query qid fl counts qs rest) (length (dns_query qid fl counts qs rest)) b (length b) =
      Some (int (length (dns_response qid fl qs as)), req', res', d')" "take (length (dns_response qid fl qs as)) res' = dns_response qid fl qs as"
    by blast
  have "for_mapped_dns conf dg (t\<lparr>tn_conns := new_conn dg RecvNone # tn_conns t\<rparr>)" using assms(4) by (simp add: for_mapped_dns_def)
  then have "udp_input conf al i dg t = udp_input conf al (Suc i) dg ?t"
    using udp_input_new[where al = al and i = i, OF assms(2,3), of conf] assms(1) by (simp add: tunnel_udp_recv_handler_def set_recv_def)
  also have "\<dots> = dns_recv_handler (al (Suc i)) dg ?t"
    by (subst udp_input_known[where c = "new_conn dg RecvDns"]) (simp_all add: conn_is_def)
  finally show ?thesis
    using r assms(5,6,11) find_None_filter[OF assms(2)]
    by (intro exI[of _ d']) (simp add: dns_recv_handler_def Let_def udp_remove_def conn_is_def)
qed


text \<open>When the allocation of a session fails, \<open>udp_input\<close> removes the block it has made and searches
  again with the same datagram, so it makes another one at once: it drops the datagram only when there
  is no memory for a block, and spins while there is memory for blocks but not for sessions.\<close>

theorem tunnel_spins_without_memory:
  assumes "tn_run t" "find (conn_is (di_src dg) (di_sport dg)) (tn_conns t) = None" "\<not> for_mapped_dns conf dg t"
    and "\<forall>j. al_pcb (al j)" "mallocq (tn_net t) = replicate n False @ q"
  shows "udp_input conf al i dg t = udp_input conf al (i + n) dg (t\<lparr>tn_net := (tn_net t)\<lparr>mallocq := q\<rparr>\<rparr>)"
  using assms(1-3,5)
proof (induction n arbitrary: i t)
  case 0
  then have "t\<lparr>tn_net := (tn_net t)\<lparr>mallocq := q\<rparr>\<rparr> = t" by simp
  then show ?case by simp
next
  case (Suc n)
  let ?w = "(tn_net t)\<lparr>mallocq := replicate n False @ q\<rparr>"
  have n: "\<not> for_mapped_dns conf dg (t\<lparr>tn_conns := new_conn dg RecvNone # tn_conns t\<rparr>)" "\<not> for_mapped_dns conf dg (t\<lparr>tn_net := ?w\<rparr>)"
    using Suc.prems(3) by (simp_all add: for_mapped_dns_def)
  have "hev_socks5_session_udp_new (cf_srv conf) (al_frames (al i)) (udp_pcb_new (di_src dg)) (tn_net t) = Some (None, udp_pcb_new (di_src dg), ?w)"
    using Suc.prems(4) by (simp add: hev_socks5_session_udp_new_def sys_malloc_def)
  with n(1) Suc.prems(1) have "tunnel_udp_recv_handler conf (al i) dg (t\<lparr>tn_conns := new_conn dg RecvNone # tn_conns t\<rparr>) = Some (t\<lparr>tn_net := ?w\<rparr>)"
    using find_None_filter[OF Suc.prems(2)]
    by (simp add: tunnel_udp_recv_handler_def udp_remove_def conn_is_def Let_def)
  with udp_input_new[where al = al and i = i, OF Suc.prems(2), of conf] assms(4)
  have "udp_input conf al i dg t = udp_input conf al (Suc i) dg (t\<lparr>tn_net := ?w\<rparr>)" by simp
  also have "\<dots> = udp_input conf al (Suc i + n) dg (t\<lparr>tn_net := ?w, tn_net := ?w\<lparr>mallocq := q\<rparr>\<rparr>)"
    using Suc.IH[of "t\<lparr>tn_net := ?w\<rparr>" "Suc i"] Suc.prems n(2) by simp
  finally show ?case by simp
qed

text \<open>After the stop the callback removes every new block, so a datagram of a new source is dispatched for
  ever: the call does not return.\<close>

lemma udp_input_hangs_when_stopped:
  assumes "\<not> tn_run t" "find (conn_is (di_src dg) (di_sport dg)) (tn_conns t) = None" "\<forall>j. al_pcb (al j)"
  shows "udp_input conf al i dg t = None"
proof -
  have False if "udp_input conf al i dg t = Some t'" for t'
    using that assms
  proof (induction conf al i dg t t' rule: udp_input.raw_induct[rotated, consumes 1, case_names step])
    case (step f conf al i dg t t')
    from step.prems(2) have h: "tunnel_udp_recv_handler conf (al i) dg (t\<lparr>tn_conns := new_conn dg RecvNone # tn_conns t\<rparr>) = Some t"
      using find_None_filter[OF step.prems(2)] step.prems(1) by (simp add: tunnel_udp_recv_handler_def udp_remove_def conn_is_def)
    have "f conf al (Suc i) dg t = Some t'" using step.hyps(1) step.prems(2,3) h by simp
    from step.IH[OF this step.prems] show False .
  qed
  then show ?thesis by (cases "udp_input conf al i dg t") auto
qed
definition dgram_example :: datagram_in where
  "dgram_example = \<lparr>di_src = \<lparr>ip_bytes = [10, 0, 0, 1] @ replicate 12 0, ip_type = IPADDR_TYPE_V4\<rparr>, di_sport = 4000,
     di_dst = \<lparr>ip_bytes = [198, 18, 0, 2] @ replicate 12 0, ip_type = IPADDR_TYPE_V4\<rparr>, di_dport = 53, di_ptr = 640,
     di_buf = [dns_query 7 0x100 [0, 0, 0, 0, 0, 0] [([[0x61]], 1, 1)] []]\<rparr>"

definition udp_alloc_example :: udp_alloc where
  "udp_alloc_example = \<lparr>al_node = 64, al_task = 7, al_stack = replicate addr_size 7, al_pcb = True,
     al_frames = [(8, replicate addr_size 7)], al_reply = Some (replicate 1500 9)\<rparr>"

definition dns_config_example :: config where
  "dns_config_example = config_default\<lparr>cf_mapdns_address := load32 [198, 18, 0, 2], cf_mapdns_port := 53\<rparr>"

lemma dgram_example_ok:
  "deliverable ((udp_pcb_new (di_src dgram_example))\<lparr>upcb_recv := True\<rparr>) (di_dst dgram_example) (di_ptr dgram_example) (di_buf dgram_example)"
  by (simp add: deliverable_def udp_pcb_new_def dgram_example_def dns_query_def dots_def)


theorem tunnel_answers_dns_query_witness:
  "\<exists>d'. udp_input dns_config_example (\<lambda>_. udp_alloc_example) 0 dgram_example (tunnel_example\<lparr>tn_dns := Some sample_dns\<rparr>) =
    Some (tunnel_example\<lparr>tn_dns := Some d', tn_dns_out := [\<lparr>dr_to = (di_src dgram_example, 4000), dr_from = (di_dst dgram_example, 53),
      dr_data = dns_response 7 0x100 [([[0x61]], 1, 1)] [(12, 0xC6120000)]\<rparr>]\<rparr>)"
proof -
  from sample_resolve obtain s1 where r: "resolve 12 [([[0x61]], 1, 1)] sample_dns = Some ([(12, 0xC6120000)], s1)" by blast
  have l: "length (dns_query 7 0x100 [0, 0, 0, 0, 0, 0] [([[0x61]], 1, 1)] []) = 19" by (simp add: dns_query_def dots_def)
  have "for_mapped_dns dns_config_example dgram_example (tunnel_example\<lparr>tn_dns := Some sample_dns\<rparr>)"
    by (simp add: for_mapped_dns_def dns_config_example_def dgram_example_def load32_def)
  from tunnel_answers_dns_query[where al = "\<lambda>_. udp_alloc_example" and i = 0, OF _ _ _ this _ _ _ _ _ r, where counts = "[0, 0, 0, 0, 0, 0]"
      and qid = 7 and fl = "0x100" and rest = "[]" and bs = "[]" and b = "replicate 1500 9"] l
  show ?thesis by (simp add: tunnel_example_def udp_alloc_example_def dgram_example_def dots_def)
qed


theorem tunnel_spins_without_memory_witness:
  "udp_input config_default (\<lambda>_. udp_alloc_example) 0 dgram_example
      (tunnel_example\<lparr>tn_net := net_example\<lparr>mallocq := replicate 1000 False\<rparr>\<rparr>) =
    udp_input config_default (\<lambda>_. udp_alloc_example) 1000 dgram_example (tunnel_example\<lparr>tn_net := net_example\<lparr>mallocq := []\<rparr>\<rparr>)"
  using tunnel_spins_without_memory[of "tunnel_example\<lparr>tn_net := net_example\<lparr>mallocq := replicate 1000 False\<rparr>\<rparr>" dgram_example
      config_default "\<lambda>_. udp_alloc_example" 1000 "[]" 0]
  by (simp add: tunnel_example_def for_mapped_dns_def udp_alloc_example_def)

theorem tunnel_datagram_reaches_its_session_witness:
  "\<exists>t t' udp' pcb' a. tunnel_set_step 0 (tunnel_example\<lparr>tn_conns := [new_conn dgram_example (RecvSession 64)]\<rparr>)
      (Insert 64 (UdpSession (udp_session_example HEV_SOCKS5_TYPE_UDP_IN_TCP) udp_pcb_example)) = Some t \<and>
    udp_input config_default (\<lambda>_. udp_alloc_example) 0 dgram_example t = Some t' \<and>
    sessions_rep t' [(64, UdpSession udp' pcb')] \<and> session_ok udp' pcb' (tn_dns t') [(a, hd (di_buf dgram_example))] \<and>
    destination_of False a (di_dst dgram_example) 53"
proof -
  let ?s = "udp_session_example HEV_SOCKS5_TYPE_UDP_IN_TCP"
  let ?t = "tunnel_example\<lparr>tn_conns := [new_conn dgram_example (RecvSession 64)]\<rparr>"
  have r: "sessions_rep ?t []" using tunnel_example_rep by (rule sessions_rep_cong) simp_all
  have k: "session_task (UdpSession ?s udp_pcb_example) \<noteq> NULL" by (simp add: udp_session_example_def)
  from insert_rep[OF r _ _ k, of 64 0] obtain t where t: "tunnel_set_step 0 ?t (Insert 64 (UdpSession ?s udp_pcb_example)) = Some t"
    "set_frame ?t t" "sessions_rep t ([] @ (64, UdpSession ?s udp_pcb_example) # [])" by auto
  have f: "find (conn_is (di_src dgram_example) (di_sport dgram_example)) (tn_conns t) = Some (new_conn dgram_example (RecvSession 64))"
    using t(2) by (simp add: set_frame_def conn_is_def)
  have d: "tn_dns t = None" using t(2) by (simp add: set_frame_def tunnel_example_def)
  have "deliverable udp_pcb_example (di_dst dgram_example) (di_ptr dgram_example) (di_buf dgram_example)"
    using dgram_example_ok by (simp add: deliverable_def udp_pcb_example_def udp_pcb_new_def)
  moreover have "fst (frame_malloc ?s) \<noteq> NULL" by (simp add: frame_malloc_def udp_session_example_def session_udp_zero_def)
  moreover have "di_dport dgram_example = 53" by (simp add: dgram_example_def)
  ultimately show ?thesis
    using tunnel_datagram_reaches_its_session[OF t(3), of "[]", OF _ f, of config_default "\<lambda>_. udp_alloc_example" 0]
      udp_session_example_ok(1)[of HEV_SOCKS5_TYPE_UDP_IN_TCP] t(1) d by auto
qed

subsection \<open>Reachable states\<close>

text \<open>The invariant: the set represents the sessions, each has a task; the control blocks have different
  sources and different sessions, each a datagram session of the set, and every datagram session has
  one. Between two calls of \<open>udp_input\<close> there is no other block.\<close>

fun session_inv :: "mapped_dns option \<Rightarrow> session \<Rightarrow> bool" where
  "session_inv dns (TcpSession s pcb) \<longleftrightarrow> ts_task s \<noteq> NULL"
| "session_inv dns (UdpSession s pcb) \<longleftrightarrow> us_pcb s \<and> (\<exists>qs. session_ok s pcb dns qs)"

fun is_udp :: "session \<Rightarrow> bool" where
  "is_udp (TcpSession s pcb) = False"
| "is_udp (UdpSession s pcb) = True"

definition udp_nodes :: "sessions \<Rightarrow> ptr set" where
  "udp_nodes xs = {n. \<exists>s. (n, s) \<in> set xs \<and> is_udp s}"

definition conns_ok :: "sessions \<Rightarrow> udp_conn list \<Rightarrow> bool" where
  "conns_ok xs cs \<longleftrightarrow> sorted_wrt (\<lambda>c c'. \<not> conn_is (uc_ip c) (uc_port c) c') cs \<and> distinct (map uc_recv cs) \<and>
     set (map uc_recv cs) = RecvSession ` udp_nodes xs"

definition tunnel_at :: "tunnel \<Rightarrow> sessions \<Rightarrow> bool" where
  "tunnel_at t xs \<longleftrightarrow> tn_timer t \<noteq> NULL \<and> dns_ok (tn_dns t) \<and> sessions_rep t xs \<and> (\<forall>(n, s) \<in> set xs. session_inv (tn_dns t) s) \<and>
     conns_ok xs (tn_conns t)"

definition tunnel_ok :: "tunnel \<Rightarrow> bool" where
  "tunnel_ok t \<longleftrightarrow> (\<exists>xs. tunnel_at t xs)"


text \<open>One step: lwIP accepts a connection or delivers a datagram, a session does something of its own and
  moves itself to the end of the set, the task of a session ends, or the tunnel is stopped. What the
  allocators return for a new session is not in use. Queries to the mapped DNS are left to the theorem
  above: a query can put a name into the cache that is too long for an address.\<close>

inductive tunnel_step :: "config \<Rightarrow> tunnel \<Rightarrow> tunnel \<Rightarrow> bool" for conf where
  accept: "tunnel_step conf t t'"
    if "tn_objs t (al_node al) = None" "al_node al \<noteq> NULL" "length (al_stack al) = addr_size"
      "length (ip_bytes (pcb_local_ip pcb)) = 16" "ip_type (pcb_local_ip pcb) \<noteq> IPADDR_TYPE_ANY" "\<not> pcb_gone pcb"
      "lwip_io_turn (\<lambda>t. map_option snd (tcp_accept_event conf al pcb t)) len t = Some t'"
| datagram: "tunnel_step conf t t'"
    if "\<And>i. tn_objs t (al_node (al i)) = None" "\<And>i. al_node (al i) \<noteq> NULL" "\<not> for_mapped_dns conf dg t"
      "lwip_io_turn (udp_input conf al i dg) len t = Some t'"
| activity: "tunnel_step conf t t'"
    if "tn_objs t n = Some s" "is_udp s' = is_udp s" "session_inv (tn_dns t) s'"
      "hev_socks5_tunnel_update_session (cf_max_session_count conf) n (t\<lparr>tn_objs := (tn_objs t)(n \<mapsto> s'), tn_net := w\<rparr>) = Some t'"
| finish: "tunnel_step conf t t'" if "session_task_exit n t = Some t'"
| stop: "tunnel_step conf t t'" if "event_task_stop t = Some t'"

inductive_cases tunnel_stepE: "tunnel_step conf t t'"






lemma is_udp_simps [simp]: "is_udp (ended s) = is_udp s" "is_udp (hev_socks5_session_set_task s k) = is_udp s"
  by (cases s; simp)+

lemma udp_nodes_simps [simp]:
  "udp_nodes [] = {}" "udp_nodes ((n, s) # xs) = (if is_udp s then insert n (udp_nodes xs) else udp_nodes xs)"
  "udp_nodes (xs @ ys) = udp_nodes xs \<union> udp_nodes ys" "udp_nodes (map (\<lambda>(n, s). (n, ended s)) xs) = udp_nodes xs"
  by (auto simp: udp_nodes_def split: prod.splits)

lemma udp_nodes_end_first [simp]: "udp_nodes (end_first xs) = udp_nodes xs"
  by (auto simp: end_first_def split: list.splits)

lemma udp_nodes_inserted [simp]: "udp_nodes (inserted limit xs) = udp_nodes xs"
  by (simp add: inserted_def)











abbreviation (input) io_locked :: "64 word \<Rightarrow> 64 word \<Rightarrow> tunnel \<Rightarrow> tunnel" where
  "io_locked k b t \<equiv> t\<lparr>tn_tx_packets := k, tn_tx_bytes := b, tn_mutex := True\<rparr>"


lemma tunnel_at_locked [simp]: "tunnel_at (io_locked k b t) xs = tunnel_at t xs" "tunnel_ok (lwip_unlock t) = tunnel_ok t"
  "\<not> tn_mutex (lwip_unlock t)"
  by (simp_all add: tunnel_at_def tunnel_ok_def sessions_rep_def lwip_unlock_def)





end
