(* ===== verification/Engine.thy ===== *)
theory Engine
  imports Config MappedDNS
begin

text \<open>
  The life of the engine: the tunnel interface of Linux (src/hev-tunnel-linux.c), the initialisation,
  the run and the end of the tunnel (the rest of src/hev-socks5-tunnel.c), and the main function
  (src/hev-main.c), with every system call that can fail and every resource they own.
\<close>

section \<open>Starting and ending the engine (hev-socks5-tunnel.c, hev-main.c, hev-tunnel-linux.c)\<close>

text \<open>
  Numbers stand for descriptors, tasks and lwIP's control blocks; \<open>sy_next\<close> is the next one, 0 is NULL.
  \<open>sy_results\<close> has the results of the calls that can fail, in the order of the calls; when it is used
  up they succeed. \<open>sy_open\<close> has the open descriptors, \<open>sy_refs\<close> the reference counts of the tasks,
  \<open>lw_pcbs\<close> lwIP's blocks. The static variables start as in \<open>engine_start\<close>; those of the two loggers
  are \<open>en_log\<close> and \<open>en_slog\<close>.
\<close>

subsection \<open>State\<close>

datatype os_result = CallOk | CallExist | CallFail

record tun_interface =
  ti_name :: bytes
  ti_multi_queue :: bool
  ti_mtu :: u32
  ti_up :: bool
  ti_addr4 :: "bytes option"
  ti_mask4 :: "bytes option"
  ti_addr6 :: "(bytes \<times> nat) option"

datatype lw_kind = LwTcp | LwListen | LwUdp

record lw_pcb =
  lp_kind :: lw_kind
  lp_pretend :: bool

record engine =
  sy_results :: "os_result list"
  sy_open :: "int set"
  sy_next :: nat
  sy_tun :: "tun_interface option"
  sy_scripts :: "(bytes \<times> bool) list"
  sy_refs :: "nat \<Rightarrow> nat"
  sy_ready :: "nat list"
  sy_context :: bool
  lw_pcbs :: "(nat \<times> lw_pcb) list"
  lw_netif :: bool
  en_run :: bool
  en_tun_fd :: int
  en_tun_fd_local :: bool
  en_event_fds :: "int \<times> int"
  en_tcp :: nat
  en_udp :: nat
  en_task_event :: nat
  en_task_io :: nat
  en_task_timer :: nat
  en_dns :: "mapped_dns option"
  en_stats :: "64 word \<times> 64 word \<times> 64 word \<times> 64 word"
  en_settings :: socks5_conf
  en_log :: int
  en_slog :: int

definition os_call :: "engine \<Rightarrow> os_result \<times> engine" where
  "os_call e = (case pop CallOk (sy_results e) of (r, q) \<Rightarrow> (r, e\<lparr>sy_results := q\<rparr>))"

definition int_of :: "os_result \<Rightarrow> int" where
  "int_of r = (if r = CallOk then 0 else -1)"

text \<open>A call that returns a descriptor, \<open>close\<close>, and the two allocations.\<close>

definition os_open :: "engine \<Rightarrow> int \<times> engine" where
  "os_open e = (case os_call e of (r, e) \<Rightarrow>
     if r = CallOk then (int (sy_next e), e\<lparr>sy_open := insert (int (sy_next e)) (sy_open e), sy_next := Suc (sy_next e)\<rparr>)
     else (-1, e))"

definition os_close :: "int \<Rightarrow> engine \<Rightarrow> engine" where
  "os_close fd e = e\<lparr>sy_open := sy_open e - {fd}\<rparr>"

definition hev_task_new :: "engine \<Rightarrow> nat \<times> engine" where
  "hev_task_new e = (case os_call e of (r, e) \<Rightarrow>
     if r = CallOk then (sy_next e, e\<lparr>sy_refs := (sy_refs e)(sy_next e := 1), sy_next := Suc (sy_next e)\<rparr>) else (0, e))"

definition hev_task_ref :: "nat \<Rightarrow> engine \<Rightarrow> engine option" where
  "hev_task_ref k e = do {
     check (0 < sy_refs e k);
     Some (e\<lparr>sy_refs := (sy_refs e)(k := sy_refs e k + 1)\<rparr>)
   }"

definition hev_task_unref :: "nat \<Rightarrow> engine \<Rightarrow> engine option" where
  "hev_task_unref k e = do {
     check (0 < sy_refs e k);
     Some (e\<lparr>sy_refs := (sy_refs e)(k := sy_refs e k - 1)\<rparr>)
   }"

definition pcb_new :: "lw_kind \<Rightarrow> engine \<Rightarrow> nat \<times> engine" where
  "pcb_new k e = (case os_call e of (r, e) \<Rightarrow>
     if r = CallOk then (sy_next e, e\<lparr>lw_pcbs := (sy_next e, \<lparr>lp_kind = k, lp_pretend = False\<rparr>) # lw_pcbs e, sy_next := Suc (sy_next e)\<rparr>)
     else (0, e))"

definition pcb_free :: "nat \<Rightarrow> engine \<Rightarrow> engine" where
  "pcb_free p e = e\<lparr>lw_pcbs := filter (\<lambda>x. fst x \<noteq> p) (lw_pcbs e)\<rparr>"

subsection \<open>The interface (hev-tunnel-linux.c)\<close>

definition hev_tunnel_open :: "bytes \<Rightarrow> bool \<Rightarrow> engine \<Rightarrow> int \<times> engine" where
  "hev_tunnel_open name multi_queue e =
     (case os_open e of (fd, e) \<Rightarrow>
      if fd < 0 then (-1, e)
      else case os_call e of (r, e) \<Rightarrow>
        if r \<noteq> CallOk then (-1, os_close fd e)
        else (fd, e\<lparr>sy_tun := Some \<lparr>ti_name = take 15 name, ti_multi_queue = multi_queue, ti_mtu = 1500, ti_up = False,
               ti_addr4 = None, ti_mask4 = None, ti_addr6 = None\<rparr>\<rparr>))"

definition hev_tunnel_close :: "int \<Rightarrow> engine \<Rightarrow> engine" where
  "hev_tunnel_close fd e = (os_close fd e)\<lparr>sy_tun := None\<rparr>"

definition tun_update :: "(tun_interface \<Rightarrow> tun_interface) \<Rightarrow> engine \<Rightarrow> engine" where
  "tun_update f e = e\<lparr>sy_tun := map_option f (sy_tun e)\<rparr>"

text \<open>An ioctl that changes the interface.\<close>

definition tun_ioctl :: "(tun_interface \<Rightarrow> tun_interface) \<Rightarrow> engine \<Rightarrow> os_result \<times> engine" where
  "tun_ioctl f e = (case os_call e of (r, e) \<Rightarrow> (r, if r = CallOk then tun_update f e else e))"

definition hev_tunnel_set_mtu :: "u32 \<Rightarrow> engine \<Rightarrow> int \<times> engine" where
  "hev_tunnel_set_mtu mtu e =
     (case os_open e of (fd, e) \<Rightarrow>
      if fd < 0 then (-1, e)
      else case tun_ioctl (\<lambda>t. t\<lparr>ti_mtu := mtu\<rparr>) e of (r, e) \<Rightarrow> (int_of r, os_close fd e))"

definition hev_tunnel_set_state :: "bool \<Rightarrow> engine \<Rightarrow> int \<times> engine" where
  "hev_tunnel_set_state state e =
     (case os_open e of (fd, e) \<Rightarrow>
      if fd < 0 then (-1, e)
      else case os_call e of (r, e) \<Rightarrow>
        if r \<noteq> CallOk then (-1, os_close fd e)
        else case tun_ioctl (\<lambda>t. t\<lparr>ti_up := state\<rparr>) e of (r, e) \<Rightarrow> (int_of r, os_close fd e))"

text \<open>\<open>inet_pton\<close> returns 0 for a string that is no address, and this is what is returned then. A shift by
  32 is undefined.\<close>

definition prefix_mask :: "nat \<Rightarrow> bytes option" where
  "prefix_mask prefix = do {
     check (0 < prefix \<and> prefix \<le> 32);
     Some (be32 (push_bit (32 - prefix) (-1)))
   }"

definition hev_tunnel_set_ipv4 :: "resolver \<Rightarrow> bytes \<Rightarrow> nat \<Rightarrow> engine \<Rightarrow> (int \<times> engine) option" where
  "hev_tunnel_set_ipv4 Rs addr prefix e =
     (case os_open e of (fd, e) \<Rightarrow>
      if fd < 0 then Some (-1, e)
      else case res_pton4 Rs addr of
        None \<Rightarrow> Some (0, os_close fd e)
      | Some a \<Rightarrow>
          (case tun_ioctl (\<lambda>t. t\<lparr>ti_addr4 := Some a\<rparr>) e of (r, e) \<Rightarrow>
           if r \<noteq> CallOk then Some (-1, os_close fd e)
           else do {
             m \<leftarrow> prefix_mask prefix;
             case tun_ioctl (\<lambda>t. t\<lparr>ti_mask4 := Some m\<rparr>) e of (r, e) \<Rightarrow>
               Some (if r = CallExist then 0 else int_of r, os_close fd e)
           }))"

definition hev_tunnel_set_ipv6 :: "resolver \<Rightarrow> bytes \<Rightarrow> nat \<Rightarrow> engine \<Rightarrow> int \<times> engine" where
  "hev_tunnel_set_ipv6 Rs addr prefix e =
     (case os_open e of (fd, e) \<Rightarrow>
      if fd < 0 then (-1, e)
      else case os_call e of (r, e) \<Rightarrow>
        if r \<noteq> CallOk then (-1, os_close fd e)
        else case res_pton6 Rs addr of
          None \<Rightarrow> (0, os_close fd e)
        | Some a \<Rightarrow>
            (case tun_ioctl (\<lambda>t. t\<lparr>ti_addr6 := Some (a, prefix)\<rparr>) e of (r, e) \<Rightarrow>
             (if r = CallExist then 0 else int_of r, os_close fd e)))"

subsection \<open>Initialisation and its reverse\<close>

text \<open>The getters of the settings return NULL for an empty string. \<open>hev_exec_run\<close> starts a script.\<close>

definition run_script :: "bytes \<Rightarrow> bool \<Rightarrow> engine \<Rightarrow> engine" where
  "run_script path wait e = (if path = [] then e else e\<lparr>sy_scripts := sy_scripts e @ [(path, wait)]\<rparr>)"

definition tunnel_init :: "resolver \<Rightarrow> config \<Rightarrow> int \<Rightarrow> engine \<Rightarrow> (int \<times> engine) option" where
  "tunnel_init Rs conf extern_tun_fd e =
     (if 0 \<le> extern_tun_fd then
        (case os_call e of (r, e) \<Rightarrow>
         if r \<noteq> CallOk then Some (-1, e) else Some (0, e\<lparr>en_tun_fd := extern_tun_fd\<rparr>))
      else
        (case hev_tunnel_open (cf_tun_name conf) (cf_multi_queue conf) e of (fd, e) \<Rightarrow>
         let e = e\<lparr>en_tun_fd := fd\<rparr> in
         if fd < 0 then Some (-1, e)
         else case hev_tunnel_set_mtu (cf_tun_mtu conf) e of (res, e) \<Rightarrow>
         if res < 0 then Some (-1, e)
         else do {
           (res, e) \<leftarrow> (if cf_tun_ipv4_address conf = [] then Some (0, e) else hev_tunnel_set_ipv4 Rs (cf_tun_ipv4_address conf) 32 e);
           if res < 0 then Some (-1, e)
           else case (if cf_tun_ipv6_address conf = [] then (0, e) else hev_tunnel_set_ipv6 Rs (cf_tun_ipv6_address conf) 128 e) of (res, e) \<Rightarrow>
           if res < 0 then Some (-1, e)
           else case hev_tunnel_set_state True e of (res, e) \<Rightarrow>
           if res < 0 then Some (-1, e)
           else Some (0, (run_script (cf_tun_post_up_script conf) False e)\<lparr>en_tun_fd_local := True\<rparr>)
         }))"

definition tunnel_fini :: "config \<Rightarrow> engine \<Rightarrow> engine" where
  "tunnel_fini conf e =
     (if \<not> en_tun_fd_local e then e
      else (hev_tunnel_close (en_tun_fd e) (run_script (cf_tun_pre_down_script conf) True e))\<lparr>en_tun_fd_local := False, en_tun_fd := -1\<rparr>)"

text \<open>lwIP's side of \<open>gateway_init\<close>: \<open>tcp_bind_netif\<close> and \<open>udp_bind_netif\<close> write to the new block without a
  check. Binding makes the block the one for pretended addresses, unless another one of its protocol is.
  \<open>tcp_listen\<close> replaces the block by a smaller one, or leaves it alone and returns NULL.\<close>

definition pretend_bound :: "bool \<Rightarrow> engine \<Rightarrow> bool" where
  "pretend_bound udp e \<longleftrightarrow> (\<exists>x \<in> set (lw_pcbs e). lp_pretend (snd x) \<and> (lp_kind (snd x) = LwUdp \<longleftrightarrow> udp))"

definition pcb_bind :: "nat \<Rightarrow> bool \<Rightarrow> engine \<Rightarrow> engine" where
  "pcb_bind p udp e =
     (if pretend_bound udp e then e
      else e\<lparr>lw_pcbs := map (\<lambda>x. if fst x = p then (p, (snd x)\<lparr>lp_pretend := True\<rparr>) else x) (lw_pcbs e)\<rparr>)"

definition tcp_listen :: "nat \<Rightarrow> engine \<Rightarrow> nat \<times> engine" where
  "tcp_listen p e =
     (case os_call e of (r, e) \<Rightarrow>
      if r \<noteq> CallOk then (0, e)
      else case map_of (lw_pcbs e) p of
        None \<Rightarrow> (0, e)
      | Some c \<Rightarrow>
          (sy_next e, (pcb_free p e)\<lparr>lw_pcbs := (sy_next e, c\<lparr>lp_kind := LwListen\<rparr>) # lw_pcbs (pcb_free p e), sy_next := Suc (sy_next e)\<rparr>))"

definition gateway_init :: "engine \<Rightarrow> (int \<times> engine) option" where
  "gateway_init e = do {
     let e = e\<lparr>lw_netif := True\<rparr>;
     let (tcp, e) = pcb_new LwTcp e;
     check (tcp \<noteq> 0);
     let e = pcb_bind tcp False e;
     let (tcp, e) = tcp_listen tcp e;
     let e = e\<lparr>en_tcp := tcp\<rparr>;
     let (udp, e) = pcb_new LwUdp e;
     check (udp \<noteq> 0);
     let e = pcb_bind udp True e;
     Some (0, e\<lparr>en_udp := udp\<rparr>)
   }"

text \<open>\<open>udp_remove\<close> and \<open>tcp_close\<close> ignore NULL and free the block otherwise; a block that is not there has
  been freed before. \<open>gateway_fini\<close> leaves the two variables as they are.\<close>

definition pcb_remove :: "nat \<Rightarrow> engine \<Rightarrow> engine option" where
  "pcb_remove p e =
     (if p = 0 then Some e
      else do {
        check (p \<in> fst ` set (lw_pcbs e));
        Some (pcb_free p e)
      })"

definition gateway_fini :: "engine \<Rightarrow> engine option" where
  "gateway_fini e = do {
     e \<leftarrow> pcb_remove (en_udp e) e;
     e \<leftarrow> pcb_remove (en_tcp e) e;
     Some (e\<lparr>lw_netif := False\<rparr>)
   }"

definition event_task_init :: "engine \<Rightarrow> int \<times> engine" where
  "event_task_init e =
     (case os_call e of (r, e) \<Rightarrow>
      if r \<noteq> CallOk then (-1, e)
      else let a = int (sy_next e); b = int (Suc (sy_next e));
          e = e\<lparr>sy_open := insert b (insert a (sy_open e)), sy_next := Suc (Suc (sy_next e)), en_event_fds := (a, b)\<rparr> in
        case os_call e of (r, e) \<Rightarrow>
        if r \<noteq> CallOk then (-1, e)
        else case hev_task_new e of (k, e) \<Rightarrow> (if k = 0 then -1 else 0, e\<lparr>en_task_event := k\<rparr>))"

definition task_drop :: "nat \<Rightarrow> engine \<Rightarrow> engine option" where
  "task_drop k e = (if k = 0 then Some e else hev_task_unref k e)"

definition event_task_fini :: "engine \<Rightarrow> engine option" where
  "event_task_fini e = do {
     e \<leftarrow> task_drop (en_task_event e) e;
     let e = e\<lparr>en_task_event := 0\<rparr>;
     let (a, b) = en_event_fds e;
     let (a, e) = (if 0 \<le> a then (-1, os_close a e) else (a, e));
     let (b, e) = (if 0 \<le> b then (-1, os_close b e) else (b, e));
     Some (e\<lparr>en_event_fds := (a, b)\<rparr>)
   }"

definition lwip_io_task_init :: "engine \<Rightarrow> int \<times> engine" where
  "lwip_io_task_init e = (case hev_task_new e of (k, e) \<Rightarrow> (if k = 0 then -1 else 0, e\<lparr>en_task_io := k\<rparr>))"

definition lwip_io_task_fini :: "engine \<Rightarrow> engine option" where
  "lwip_io_task_fini e = map_option (\<lambda>e. e\<lparr>en_task_io := 0\<rparr>) (task_drop (en_task_io e) e)"

definition lwip_timer_task_init :: "engine \<Rightarrow> int \<times> engine" where
  "lwip_timer_task_init e = (case hev_task_new e of (k, e) \<Rightarrow> (if k = 0 then -1 else 0, e\<lparr>en_task_timer := k\<rparr>))"

definition lwip_timer_task_fini :: "engine \<Rightarrow> engine option" where
  "lwip_timer_task_fini e = map_option (\<lambda>e. e\<lparr>en_task_timer := 0\<rparr>) (task_drop (en_task_timer e) e)"

text \<open>\<open>cache0\<close> is the state of the allocator a new cache starts with.\<close>

definition mapped_dns_init :: "mapped_dns \<Rightarrow> config \<Rightarrow> engine \<Rightarrow> int \<times> engine" where
  "mapped_dns_init cache0 conf e =
     (if cf_mapdns_cache_size conf = 0 then (0, e)
      else case os_call e of (r, e) \<Rightarrow>
        case hev_mapped_dns_new (cf_mapdns_network conf) (cf_mapdns_netmask conf) (cf_mapdns_cache_size conf) (r = CallOk) cache0 of
          None \<Rightarrow> (-1, e)
        | Some dns \<Rightarrow> (0, e\<lparr>en_dns := Some dns\<rparr>))"

definition mapped_dns_fini :: "engine \<Rightarrow> engine option" where
  "mapped_dns_fini e =
     (case en_dns e of None \<Rightarrow> Some e
      | Some dns \<Rightarrow> do {
          _ \<leftarrow> hev_mapped_dns_destruct dns;
          Some (e\<lparr>en_dns := None\<rparr>)
        })"

definition hev_socks5_tunnel_fini :: "config \<Rightarrow> engine \<Rightarrow> engine option" where
  "hev_socks5_tunnel_fini conf e = do {
     e \<leftarrow> mapped_dns_fini e;
     e \<leftarrow> lwip_timer_task_fini e;
     e \<leftarrow> lwip_io_task_fini e;
     e \<leftarrow> event_task_fini e;
     e \<leftarrow> gateway_fini e;
     let e = tunnel_fini conf e;
     Some (e\<lparr>en_stats := (0, 0, 0, 0)\<rparr>)
   }"

definition hev_socks5_tunnel_init :: "resolver \<Rightarrow> mapped_dns \<Rightarrow> config \<Rightarrow> int \<Rightarrow> engine \<Rightarrow> (int \<times> engine) option" where
  "hev_socks5_tunnel_init Rs cache0 conf tun_fd e =
     (let exit = (\<lambda>e. map_option (\<lambda>e. (-1, e)) (hev_socks5_tunnel_fini conf e)) in do {
        (res, e) \<leftarrow> tunnel_init Rs conf tun_fd e;
        if res < 0 then exit e
        else do {
          (res, e) \<leftarrow> gateway_init e;
          if res < 0 then exit e
          else case event_task_init e of (res, e) \<Rightarrow>
          if res < 0 then exit e
          else case lwip_io_task_init e of (res, e) \<Rightarrow>
          if res < 0 then exit e
          else case lwip_timer_task_init e of (res, e) \<Rightarrow>
          if res < 0 then exit e
          else case mapped_dns_init cache0 conf e of (res, e) \<Rightarrow>
          if res < 0 then exit e else Some (0, e)
        }
      })"

subsection \<open>Run, stop and statistics\<close>

text \<open>\<open>hev_task_run\<close> of a new task. The task system returns when every task has ended, and drops its
  reference to each. What happens meanwhile is the subject of the other theories; here \<open>work\<close> is what
  the handlers have done to the cache, and the counters grow.\<close>

definition task_start :: "nat \<Rightarrow> engine \<Rightarrow> engine option" where
  "task_start k e = do {
     e \<leftarrow> hev_task_ref k e;
     Some (e\<lparr>sy_ready := sy_ready e @ [k]\<rparr>)
   }"

fun tasks_end :: "nat list \<Rightarrow> engine \<Rightarrow> engine option" where
  "tasks_end [] e = Some e"
| "tasks_end (k # ks) e = hev_task_unref k e \<bind> tasks_end ks"

definition hev_task_system_run ::
  "(mapped_dns \<Rightarrow> mapped_dns) \<Rightarrow> 64 word \<times> 64 word \<times> 64 word \<times> 64 word \<Rightarrow> engine \<Rightarrow> engine option" where
  "hev_task_system_run work stats e = do {
     e \<leftarrow> tasks_end (sy_ready e) e;
     Some (e\<lparr>sy_ready := [], en_run := False, en_dns := map_option work (en_dns e), en_stats := stats\<rparr>)
   }"

definition hev_socks5_tunnel_run ::
  "(mapped_dns \<Rightarrow> mapped_dns) \<Rightarrow> 64 word \<times> 64 word \<times> 64 word \<times> 64 word \<Rightarrow> engine \<Rightarrow> (int \<times> engine) option" where
  "hev_socks5_tunnel_run work stats e = do {
     e \<leftarrow> task_start (en_task_event e) e;
     e \<leftarrow> task_start (en_task_io e) e;
     e \<leftarrow> task_start (en_task_timer e) e;
     e \<leftarrow> hev_task_system_run work stats (e\<lparr>en_run := True\<rparr>);
     Some (0, e)
   }"

text \<open>Another thread stops the engine: \<open>polls i\<close> is the descriptor it sees at its \<open>i\<close>-th look. The value is
  the descriptor it writes to.\<close>

partial_function (option) hev_socks5_tunnel_stop :: "(nat \<Rightarrow> int) \<Rightarrow> nat \<Rightarrow> int option" where
  "hev_socks5_tunnel_stop polls i =
     (let fd = polls i in if 0 \<le> fd then Some fd else hev_socks5_tunnel_stop polls (Suc i))"

definition hev_socks5_tunnel_stats :: "engine \<Rightarrow> 64 word \<times> 64 word \<times> 64 word \<times> 64 word" where
  "hev_socks5_tunnel_stats e = en_stats e"

subsection \<open>The main function\<close>

definition hev_logger_init :: "engine \<Rightarrow> int \<times> engine" where
  "hev_logger_init e = (case os_open e of (fd, e) \<Rightarrow> (if fd < 0 then -1 else 0, e\<lparr>en_log := fd\<rparr>))"

definition hev_logger_fini :: "engine \<Rightarrow> engine" where
  "hev_logger_fini e = os_close (en_log e) e"

definition hev_socks5_logger_init :: "engine \<Rightarrow> int \<times> engine" where
  "hev_socks5_logger_init e = (case os_open e of (fd, e) \<Rightarrow> (if fd < 0 then -1 else 0, e\<lparr>en_slog := fd\<rparr>))"

definition hev_socks5_logger_fini :: "engine \<Rightarrow> engine" where
  "hev_socks5_logger_fini e = os_close (en_slog e) e"

text \<open>The context of the task system belongs to the thread; its parts (allocations and the reactor) are
  one call that can fail here, since a failure releases all of them.\<close>

definition hev_task_system_init :: "engine \<Rightarrow> int \<times> engine" where
  "hev_task_system_init e =
     (if sy_context e then (-1, e)
      else case os_call e of (r, e) \<Rightarrow> if r \<noteq> CallOk then (-1, e) else (0, e\<lparr>sy_context := True\<rparr>))"

definition hev_task_system_fini :: "engine \<Rightarrow> engine" where
  "hev_task_system_fini e = e\<lparr>sy_context := False\<rparr>"

definition hev_socks5_tunnel_main_inner ::
  "resolver \<Rightarrow> mapped_dns \<Rightarrow> (mapped_dns \<Rightarrow> mapped_dns) \<Rightarrow> 64 word \<times> 64 word \<times> 64 word \<times> 64 word \<Rightarrow> config \<Rightarrow> int \<Rightarrow>
     engine \<Rightarrow> (int \<times> engine) option" where
  "hev_socks5_tunnel_main_inner Rs cache0 work stats conf tun_fd e =
     (let e = e\<lparr>en_settings := main_settings conf (en_settings e)\<rparr> in
      case hev_logger_init e of (res, e) \<Rightarrow>
      if res < 0 then Some (-2, e)
      else case hev_socks5_logger_init e of (res, e) \<Rightarrow>
      if res < 0 then Some (-3, e)
      else case hev_task_system_init e of (res, e) \<Rightarrow>
      if res < 0 then Some (-4, e)
      else do {
        (res, e) \<leftarrow> hev_socks5_tunnel_init Rs cache0 conf tun_fd e;
        if res < 0 then Some (-5, e)
        else do {
          (_, e) \<leftarrow> hev_socks5_tunnel_run work stats e;
          e \<leftarrow> hev_socks5_tunnel_fini conf e;
          Some (0, hev_task_system_fini (hev_logger_fini (hev_socks5_logger_fini e)))
        }
      })"

definition engine_start :: engine where
  "engine_start = \<lparr>sy_results = [], sy_open = {}, sy_next = 3, sy_tun = None, sy_scripts = [], sy_refs = (\<lambda>_. 0), sy_ready = [],
     sy_context = False, lw_pcbs = [], lw_netif = False, en_run = False, en_tun_fd = -1, en_tun_fd_local = False,
     en_event_fds = (-1, -1), en_tcp = 0, en_udp = 0, en_task_event = 0, en_task_io = 0, en_task_timer = 0, en_dns = None,
     en_stats = (0, 0, 0, 0), en_settings = socks5_conf_default, en_log = -1, en_slog = -1\<rparr>"

end
