(* ===== verification/EngineRun.thy ===== *)
theory EngineRun
  imports Engine
begin

text \<open>
  What the life of the engine does to its resources: a started engine gives everything back, a failed
  start all but the interface it opened, and what goes wrong on a second start, on a stop and when the
  configuration has no valid address.
\<close>

section \<open>Resources of the engine\<close>

subsection \<open>Calls that leave the engine alone\<close>

text \<open>All that a call on the interface keeps.\<close>

definition statics :: "engine \<Rightarrow> (nat \<Rightarrow> nat) \<times> nat list \<times> (nat \<times> lw_pcb) list \<times> bool \<times> bool \<times> int \<times> bool \<times> (int \<times> int) \<times>
    nat \<times> nat \<times> nat \<times> nat \<times> nat \<times> mapped_dns option \<times> (64 word \<times> 64 word \<times> 64 word \<times> 64 word)" where
  "statics e = (sy_refs e, sy_ready e, lw_pcbs e, lw_netif e, sy_context e, en_tun_fd e, en_tun_fd_local e, en_event_fds e,
     en_tcp e, en_udp e, en_task_event e, en_task_io e, en_task_timer e, en_dns e, en_stats e)"

definition fds_fresh :: "engine \<Rightarrow> bool" where
  "fds_fresh e \<longleftrightarrow> (\<forall>f \<in> sy_open e. f < int (sy_next e))"

definition calls :: "engine \<Rightarrow> engine \<Rightarrow> bool" where
  "calls e e' \<longleftrightarrow> statics e' = statics e \<and> sy_next e \<le> sy_next e' \<and> sy_open e' = sy_open e"

lemma calls_refl [simp]: "calls e e"
  by (simp add: calls_def)

lemma calls_trans: "calls a b \<Longrightarrow> calls b c \<Longrightarrow> calls a c"
  by (auto simp: calls_def)

lemma calls_fresh: "calls e e' \<Longrightarrow> fds_fresh e \<Longrightarrow> fds_fresh e'"
  by (fastforce simp: calls_def fds_fresh_def)

lemma os_call_simps [simp]:
  "statics (snd (os_call e)) = statics e" "sy_next (snd (os_call e)) = sy_next e" "sy_open (snd (os_call e)) = sy_open e"
  by (simp_all add: os_call_def statics_def split_beta)

lemma os_close_simps [simp]:
  "statics (os_close fd e) = statics e" "sy_next (os_close fd e) = sy_next e" "sy_open (os_close fd e) = sy_open e - {fd}"
  by (simp_all add: os_close_def statics_def)

lemma os_open_simps [simp]:
  "statics (snd (os_open e)) = statics e" "sy_next e \<le> sy_next (snd (os_open e))"
  "sy_open (snd (os_open e)) = (if fst (os_open e) < 0 then sy_open e else insert (fst (os_open e)) (sy_open e))"
  by (simp_all add: os_open_def statics_def os_call_def split_beta)

lemma os_open_fresh: "fds_fresh e \<Longrightarrow> fst (os_open e) \<notin> sy_open e \<or> fst (os_open e) < 0"
  by (auto simp: os_open_def os_call_def fds_fresh_def split_beta)

lemma tun_ioctl_simps [simp]:
  "statics (snd (tun_ioctl f e)) = statics e" "sy_next (snd (tun_ioctl f e)) = sy_next e" "sy_open (snd (tun_ioctl f e)) = sy_open e"
  by (simp_all add: tun_ioctl_def tun_update_def os_call_def statics_def split_beta)

text \<open>The calls on the interface leave no descriptor open and nothing else changed.\<close>

lemma set_mtu_calls: "fds_fresh e \<Longrightarrow> calls e (snd (hev_tunnel_set_mtu mtu e))"
  using os_open_fresh[of e] by (auto simp: hev_tunnel_set_mtu_def calls_def split_beta)

lemma set_state_calls: "fds_fresh e \<Longrightarrow> calls e (snd (hev_tunnel_set_state b e))"
  using os_open_fresh[of e] by (auto simp: hev_tunnel_set_state_def calls_def split_beta)

lemma set_ipv6_calls: "fds_fresh e \<Longrightarrow> calls e (snd (hev_tunnel_set_ipv6 Rs a p e))"
  using os_open_fresh[of e] by (auto simp: hev_tunnel_set_ipv6_def calls_def split_beta split: option.splits)

lemma set_ipv4_calls:
  assumes "fds_fresh e" "0 < p" "p \<le> 32"
  shows "\<exists>r e'. hev_tunnel_set_ipv4 Rs a p e = Some (r, e') \<and> calls e e'"
  using os_open_fresh[OF assms(1)] assms(2,3)
  by (auto simp: hev_tunnel_set_ipv4_def calls_def split_beta prefix_mask_def split: option.splits)

lemma hev_tunnel_open_cases:
  assumes "fds_fresh e"
  obtains (fail) e' where "hev_tunnel_open n m e = (-1, e')" "calls e e'"
  | (opened) fd e' where "hev_tunnel_open n m e = (fd, e')" "0 \<le> fd" "fd \<notin> sy_open e" "fd < int (sy_next e')" "statics e' = statics e"
      "sy_next e \<le> sy_next e'" "sy_open e' = insert fd (sy_open e)"
proof -
  obtain r q where c: "os_call e = (r, e\<lparr>sy_results := q\<rparr>)" by (cases "pop CallOk (sy_results e)") (auto simp: os_call_def)
  show ?thesis
  proof (cases "r = CallOk")
    case False
    with c have "hev_tunnel_open n m e = (-1, e\<lparr>sy_results := q\<rparr>)" by (simp add: hev_tunnel_open_def os_open_def)
    then show ?thesis by (rule fail) (simp add: calls_def statics_def)
  next
    case True
    let ?e = "e\<lparr>sy_results := q, sy_open := insert (int (sy_next e)) (sy_open e), sy_next := Suc (sy_next e)\<rparr>"
    have o: "os_open e = (int (sy_next e), ?e)" using c True by (simp add: os_open_def)
    obtain r2 q2 where c2: "os_call ?e = (r2, ?e\<lparr>sy_results := q2\<rparr>)" by (cases "pop CallOk q") (auto simp: os_call_def)
    have n: "int (sy_next e) \<notin> sy_open e" using assms by (auto simp: fds_fresh_def)
    show ?thesis
    proof (cases "r2 = CallOk")
      case False
      with o c2 n show ?thesis by (intro fail) (auto simp: hev_tunnel_open_def calls_def statics_def os_close_def)
    next
      case True
      with o c2 have h: "hev_tunnel_open n m e = (int (sy_next e), ?e\<lparr>sy_results := q2, sy_tun := Some \<lparr>ti_name = take 15 n,
          ti_multi_queue = m, ti_mtu = 1500, ti_up = False, ti_addr4 = None, ti_mask4 = None, ti_addr6 = None\<rparr>\<rparr>)"
        by (simp add: hev_tunnel_open_def)
      show ?thesis by (rule opened[OF h]) (use n in \<open>simp_all add: statics_def\<close>)
    qed
  qed
qed

text \<open>\<open>tunnel_init\<close> changes its two variables and the descriptors only. If it fails after it has opened the
  interface, this descriptor stays open and is not recorded as its own.\<close>

definition opened_tun :: "engine \<Rightarrow> engine \<Rightarrow> bool" where
  "opened_tun e e' \<longleftrightarrow> sy_open e' = insert (en_tun_fd e') (sy_open e) \<and> 0 \<le> en_tun_fd e' \<and> en_tun_fd e' \<notin> sy_open e \<and>
     en_tun_fd e' < int (sy_next e')"

lemma tunnel_init_cases:
  assumes f: "fds_fresh e" and l: "\<not> en_tun_fd_local e"
  shows "\<exists>r e'. tunnel_init Rs conf ext e = Some (r, e') \<and>
    statics e' = statics (e\<lparr>en_tun_fd := en_tun_fd e', en_tun_fd_local := en_tun_fd_local e'\<rparr>) \<and> sy_next e \<le> sy_next e' \<and>
    (r = 0 \<and> 0 \<le> ext \<and> \<not> en_tun_fd_local e' \<and> sy_open e' = sy_open e \<or>
     r = 0 \<and> ext < 0 \<and> en_tun_fd_local e' \<and> opened_tun e e' \<or>
     r = -1 \<and> \<not> en_tun_fd_local e' \<and> (sy_open e' = sy_open e \<or> ext < 0 \<and> opened_tun e e'))"
proof (cases "0 \<le> ext")
  case True
  then show ?thesis using l by (auto simp: tunnel_init_def os_call_def statics_def split_beta)
next
  case ext: False
  from f show ?thesis
  proof (cases rule: hev_tunnel_open_cases[where n = "cf_tun_name conf" and m = "cf_multi_queue conf"])
    case (fail e')
    with ext l show ?thesis by (auto simp: tunnel_init_def calls_def statics_def Let_def)
  next
    case (opened fd e0)
    let ?e = "e0\<lparr>en_tun_fd := fd\<rparr>"
    have f0: "fds_fresh ?e" using f opened(4,6,7) by (fastforce simp: fds_fresh_def)
    have stop: "statics e' = statics (e\<lparr>en_tun_fd := en_tun_fd e', en_tun_fd_local := en_tun_fd_local e'\<rparr>) \<and> sy_next e \<le> sy_next e' \<and>
        \<not> en_tun_fd_local e' \<and> opened_tun e e'" if "calls ?e e'" for e'
      using that opened l by (auto simp: calls_def statics_def opened_tun_def)
    obtain r1 e1 where s1: "hev_tunnel_set_mtu (cf_tun_mtu conf) ?e = (r1, e1)" by fastforce
    have c1: "calls ?e e1" using set_mtu_calls[OF f0] s1 by (metis snd_conv)
    note f1 = calls_fresh[OF c1 f0]
    obtain r2 e2 where s2: "(if cf_tun_ipv4_address conf = [] then Some (0, e1) else hev_tunnel_set_ipv4 Rs (cf_tun_ipv4_address conf) 32 e1) = Some (r2, e2)"
      "calls e1 e2"
      using set_ipv4_calls[OF f1, of 32 Rs "cf_tun_ipv4_address conf"] by (cases "cf_tun_ipv4_address conf = []") auto
    have c2: "calls ?e e2" using calls_trans[OF c1 s2(2)] .
    note f2 = calls_fresh[OF c2 f0]
    obtain r3 e3 where s3: "(if cf_tun_ipv6_address conf = [] then (0, e2) else hev_tunnel_set_ipv6 Rs (cf_tun_ipv6_address conf) 128 e2) = (r3, e3)"
      by fastforce
    have "calls e2 e3" using set_ipv6_calls[OF f2, of Rs "cf_tun_ipv6_address conf" 128] s3 by (auto split: if_splits)
    then have c3: "calls ?e e3" using calls_trans[OF c2] by blast
    note f3 = calls_fresh[OF c3 f0]
    obtain r4 e4 where s4: "hev_tunnel_set_state True e3 = (r4, e4)" by fastforce
    have "calls e3 e4" using set_state_calls[OF f3, of True] s4 by (metis snd_conv)
    then have c4: "calls ?e e4" using calls_trans[OF c3] by blast
    let ?e5 = "(run_script (cf_tun_post_up_script conf) False e4)\<lparr>en_tun_fd_local := True\<rparr>"
    have run: "tunnel_init Rs conf ext e = Some (if r1 < 0 then (-1, e1) else if r2 < 0 then (-1, e2) else if r3 < 0 then (-1, e3)
        else if r4 < 0 then (-1, e4) else (0, ?e5))"
      using ext opened(1,2) s1 s2(1) s3 s4 unfolding tunnel_init_def by (simp add: Let_def)
    have "statics ?e5 = statics (e\<lparr>en_tun_fd := en_tun_fd ?e5, en_tun_fd_local := en_tun_fd_local ?e5\<rparr>) \<and> sy_next e \<le> sy_next ?e5 \<and>
        en_tun_fd_local ?e5 \<and> opened_tun e ?e5"
      using stop[OF c4] by (simp add: run_script_def statics_def opened_tun_def)
    with stop[OF c1] stop[OF c2] stop[OF c3] stop[OF c4] ext show ?thesis unfolding run
      by (cases "r1 < 0"; cases "r2 < 0"; cases "r3 < 0"; cases "r4 < 0"; simp)
  qed
qed

subsection \<open>What the engine owns\<close>

text \<open>\<open>engine_has B P e\<close>: apart from the descriptors \<open>B\<close> and the blocks \<open>P\<close>, what is open or allocated belongs
  to the variables of the engine, each resource to one of them.\<close>

definition own_fds :: "engine \<Rightarrow> int set" where
  "own_fds e = (if en_tun_fd_local e then {en_tun_fd e} else {}) \<union> {f \<in> {fst (en_event_fds e), snd (en_event_fds e)}. 0 \<le> f}"

definition own_tasks :: "engine \<Rightarrow> nat list" where
  "own_tasks e = filter (\<lambda>k. k \<noteq> 0) [en_task_timer e, en_task_io e, en_task_event e]"

definition own_pcbs :: "engine \<Rightarrow> nat list" where
  "own_pcbs e = filter (\<lambda>k. k \<noteq> 0) [en_udp e, en_tcp e]"

definition fd_part :: "int set \<Rightarrow> engine \<Rightarrow> bool" where
  "fd_part B e \<longleftrightarrow> fds_fresh e \<and> sy_open e = B \<union> own_fds e \<and> B \<inter> own_fds e = {} \<and>
     (\<forall>f \<in> {fst (en_event_fds e), snd (en_event_fds e)}. f = -1 \<or> 0 \<le> f)"

definition task_part :: "engine \<Rightarrow> bool" where
  "task_part e \<longleftrightarrow> 0 < sy_next e \<and> distinct (own_tasks e) \<and> (\<forall>k \<in> set (own_tasks e). k < sy_next e) \<and>
     sy_refs e = (\<lambda>k. if k \<in> set (own_tasks e) then 1 else 0) \<and> sy_ready e = []"

definition pcb_part :: "(nat \<times> lw_pcb) list \<Rightarrow> engine \<Rightarrow> bool" where
  "pcb_part P e \<longleftrightarrow> (\<forall>x \<in> set (lw_pcbs e). fst x < sy_next e) \<and> distinct (own_pcbs e) \<and>
     set (own_pcbs e) \<subseteq> fst ` set (lw_pcbs e) \<and> filter (\<lambda>x. fst x \<notin> set (own_pcbs e)) (lw_pcbs e) = P"

definition dns_part :: "engine \<Rightarrow> bool" where
  "dns_part e \<longleftrightarrow> (\<forall>d. en_dns e = Some d \<longrightarrow> hev_mapped_dns_destruct d \<noteq> None)"

definition engine_has :: "int set \<Rightarrow> (nat \<times> lw_pcb) list \<Rightarrow> engine \<Rightarrow> bool" where
  "engine_has B P e \<longleftrightarrow> fd_part B e \<and> task_part e \<and> pcb_part P e \<and> dns_part e"

lemmas has_defs = engine_has_def fd_part_def task_part_def pcb_part_def dns_part_def

text \<open>Nothing is initialised: the variables have their initial values, but for the two pointers to blocks
  that \<open>gateway_fini\<close> does not clear.\<close>

definition engine_idle :: "engine \<Rightarrow> bool" where
  "engine_idle e \<longleftrightarrow> \<not> lw_netif e \<and> \<not> en_tun_fd_local e \<and> en_event_fds e = (-1, -1) \<and> en_task_event e = 0 \<and> en_task_io e = 0 \<and>
     en_task_timer e = 0 \<and> en_dns e = None \<and> sy_refs e = (\<lambda>_. 0) \<and> sy_ready e = [] \<and> en_stats e = (0, 0, 0, 0)"

lemma own_idle: "engine_idle e \<Longrightarrow> own_fds e = {} \<and> own_tasks e = []"
  by (auto simp: engine_idle_def own_fds_def own_tasks_def)

definition sys_fresh :: "engine \<Rightarrow> bool" where
  "sys_fresh e \<longleftrightarrow> 0 < sy_next e \<and> fds_fresh e \<and> (\<forall>x \<in> set (lw_pcbs e). fst x < sy_next e)"

lemma idle_has:
  "engine_idle e \<Longrightarrow> sys_fresh e \<Longrightarrow> en_udp e = 0 \<Longrightarrow> en_tcp e = 0 \<Longrightarrow> engine_has (sy_open e) (lw_pcbs e) e"
  using own_idle[of e] by (auto simp: has_defs sys_fresh_def engine_idle_def own_pcbs_def)

text \<open>The reverse of the initialisation gives back all the engine owns, from every stage of it.\<close>

lemma task_drops:
  assumes "sy_refs e = (\<lambda>k. if k \<in> set ks then 1 else 0)" "distinct ks" "ks = filter (\<lambda>k. k \<noteq> 0) (k # xs)"
  shows "\<exists>e'. task_drop k e = Some e' \<and> e' = e\<lparr>sy_refs := \<lambda>j. if j \<in> set (filter (\<lambda>k. k \<noteq> 0) xs) then 1 else 0\<rparr>"
proof (cases "k = 0")
  case True
  with assms show ?thesis by (auto simp: task_drop_def)
next
  case False
  with assms show ?thesis by (auto simp: task_drop_def hev_task_unref_def intro!: ext arg_cong[where f = "\<lambda>r. e\<lparr>sy_refs := r\<rparr>"])
qed

lemma pcb_removes:
  assumes "set (own_pcbs e) \<subseteq> fst ` set (lw_pcbs e)" "distinct (own_pcbs e)"
  shows "pcb_remove (en_udp e) e \<bind> pcb_remove (en_tcp e) = Some (e\<lparr>lw_pcbs := filter (\<lambda>x. fst x \<notin> set (own_pcbs e)) (lw_pcbs e)\<rparr>)"
proof -
  have nz: "(\<lambda>x. fst x \<noteq> p \<and> fst x \<noteq> q) = (\<lambda>x. fst x \<noteq> q \<and> fst x \<noteq> p)" for p q :: nat by auto
  show ?thesis
    using assms by (auto simp: own_pcbs_def pcb_remove_def pcb_free_def nz image_iff split: if_splits intro!: arg_cong[where f = "\<lambda>r. e\<lparr>lw_pcbs := r\<rparr>"])
qed

lemma event_fini:
  assumes "sy_refs e = (\<lambda>k. if k \<in> set (filter (\<lambda>k. k \<noteq> 0) [en_task_event e]) then 1 else 0)"
    and "\<forall>f \<in> {fst (en_event_fds e), snd (en_event_fds e)}. f = -1 \<or> 0 \<le> f"
  shows "\<exists>e'. event_task_fini e = Some e' \<and> statics e' = statics (e\<lparr>sy_refs := \<lambda>_. 0, en_task_event := 0, en_event_fds := (-1, -1)\<rparr>) \<and>
    sy_open e' = sy_open e - {f \<in> {fst (en_event_fds e), snd (en_event_fds e)}. 0 \<le> f} \<and> sy_next e' = sy_next e"
proof -
  have "distinct (filter (\<lambda>k. k \<noteq> 0) [en_task_event e])" by simp
  from task_drops[OF assms(1) this refl] have "task_drop (en_task_event e) e = Some (e\<lparr>sy_refs := \<lambda>_. 0\<rparr>)" by simp
  then show ?thesis using assms(2)
    by (cases "en_event_fds e") (auto simp: event_task_fini_def os_close_def Let_def statics_def)
qed

lemma tunnel_fini_statics:
  "sy_open (tunnel_fini conf e) = (if en_tun_fd_local e then sy_open e - {en_tun_fd e} else sy_open e) \<and>
   sy_next (tunnel_fini conf e) = sy_next e \<and>
   statics (tunnel_fini conf e) = statics (e\<lparr>en_tun_fd := en_tun_fd (tunnel_fini conf e), en_tun_fd_local := False\<rparr>)"
  by (simp add: tunnel_fini_def hev_tunnel_close_def os_close_def run_script_def statics_def)

lemma fini_has:
  assumes "engine_has B P e"
  shows "\<exists>e'. hev_socks5_tunnel_fini conf e = Some e' \<and> engine_idle e' \<and> sy_open e' = B \<and> lw_pcbs e' = P \<and> en_udp e' = en_udp e \<and>
    en_tcp e' = en_tcp e \<and> sy_context e' = sy_context e \<and> sy_next e' = sy_next e"
proof -
  note h = assms[unfolded has_defs]
  let ?io = "filter (\<lambda>k. k \<noteq> 0) [en_task_io e, en_task_event e]" and ?ev = "filter (\<lambda>k. k \<noteq> 0) [en_task_event e]"
  let ?e1 = "e\<lparr>en_dns := None\<rparr>"
  let ?e2 = "?e1\<lparr>sy_refs := \<lambda>j. if j \<in> set ?io then 1 else 0, en_task_timer := 0\<rparr>"
  let ?e3 = "?e2\<lparr>sy_refs := \<lambda>j. if j \<in> set ?ev then 1 else 0, en_task_io := 0\<rparr>"
  have d: "mapped_dns_fini e = Some ?e1" using h by (cases "en_dns e") (auto simp: mapped_dns_fini_def)
  have "task_drop (en_task_timer e) ?e1 = Some (?e1\<lparr>sy_refs := \<lambda>j. if j \<in> set ?io then 1 else 0\<rparr>)"
    using task_drops[of ?e1 "own_tasks e" "en_task_timer e" "[en_task_io e, en_task_event e]"] h by (simp add: own_tasks_def)
  then have t: "lwip_timer_task_fini ?e1 = Some ?e2" by (simp add: lwip_timer_task_fini_def)
  have di: "distinct ?io" using h by (auto simp: own_tasks_def split: if_splits)
  then have "task_drop (en_task_io e) ?e2 = Some (?e2\<lparr>sy_refs := \<lambda>j. if j \<in> set ?ev then 1 else 0\<rparr>)"
    using task_drops[of ?e2 ?io "en_task_io e" "[en_task_event e]"] by simp
  then have i: "lwip_io_task_fini ?e2 = Some ?e3" by (simp add: lwip_io_task_fini_def)
  have "sy_refs ?e3 = (\<lambda>k. if k \<in> set (filter (\<lambda>k. k \<noteq> 0) [en_task_event ?e3]) then 1 else 0)" by simp
  from event_fini[OF this] h obtain e4 where v: "event_task_fini ?e3 = Some e4"
    "statics e4 = statics (?e3\<lparr>sy_refs := \<lambda>_. 0, en_task_event := 0, en_event_fds := (-1, -1)\<rparr>)"
    "sy_open e4 = sy_open e - {f \<in> {fst (en_event_fds e), snd (en_event_fds e)}. 0 \<le> f}" "sy_next e4 = sy_next e" by auto
  have o: "own_pcbs e4 = own_pcbs e" "lw_pcbs e4 = lw_pcbs e" using v(2) by (simp_all add: own_pcbs_def statics_def)
  let ?e5 = "e4\<lparr>lw_pcbs := P, lw_netif := False\<rparr>"
  have "pcb_remove (en_udp e4) e4 \<bind> pcb_remove (en_tcp e4) = Some (e4\<lparr>lw_pcbs := P\<rparr>)"
    using pcb_removes[of e4] h o by simp
  moreover have "en_tcp x = en_tcp e4" if "pcb_remove (en_udp e4) e4 = Some x" for x
    using that by (auto simp: pcb_remove_def pcb_free_def split: if_splits)
  ultimately have g: "gateway_fini e4 = Some ?e5" by (auto simp: gateway_fini_def Option.bind_eq_Some_conv)
  let ?e6 = "(tunnel_fini conf ?e5)\<lparr>en_stats := (0, 0, 0, 0)\<rparr>"
  have "hev_socks5_tunnel_fini conf e = Some ?e6" using d t i v(1) g by (simp add: hev_socks5_tunnel_fini_def Let_def)
  moreover have "sy_open ?e6 = B" using tunnel_fini_statics[of conf ?e5] h v(2,3) by (auto simp: own_fds_def statics_def split: if_splits)
  moreover have "engine_idle ?e6 \<and> lw_pcbs ?e6 = P \<and> en_udp ?e6 = en_udp e \<and> en_tcp ?e6 = en_tcp e \<and> sy_context ?e6 = sy_context e \<and>
      sy_next ?e6 = sy_next e"
    using tunnel_fini_statics[of conf ?e5] h v(2,4) by (simp add: statics_def engine_idle_def)
  ultimately show ?thesis by blast
qed

lemma fd_cong: "fd_part B e \<Longrightarrow> own_fds e' = own_fds e \<Longrightarrow> sy_open e' = sy_open e \<Longrightarrow> sy_next e \<le> sy_next e' \<Longrightarrow>
    en_event_fds e' = en_event_fds e \<Longrightarrow> fd_part B e'"
  unfolding fd_part_def fds_fresh_def by (metis (no_types, lifting) int_ops(1) less_le_trans of_nat_mono)

lemma task_cong: "task_part e \<Longrightarrow> own_tasks e' = own_tasks e \<Longrightarrow> sy_refs e' = sy_refs e \<Longrightarrow> sy_ready e' = sy_ready e \<Longrightarrow>
    sy_next e \<le> sy_next e' \<Longrightarrow> task_part e'"
  by (fastforce simp: task_part_def)

lemma pcb_cong: "pcb_part P e \<Longrightarrow> own_pcbs e' = own_pcbs e \<Longrightarrow> lw_pcbs e' = lw_pcbs e \<Longrightarrow> sy_next e \<le> sy_next e' \<Longrightarrow> pcb_part P e'"
  by (fastforce simp: pcb_part_def)

lemma dns_cong: "dns_part e \<Longrightarrow> en_dns e' = en_dns e \<Longrightarrow> dns_part e'"
  by (simp add: dns_part_def)

lemmas own_defs = own_fds_def own_tasks_def own_pcbs_def

lemma new_task_cases:
  obtains (ok) q where "hev_task_new e = (sy_next e, e\<lparr>sy_results := q, sy_refs := (sy_refs e)(sy_next e := 1), sy_next := Suc (sy_next e)\<rparr>)"
  | (fail) q where "hev_task_new e = (0, e\<lparr>sy_results := q\<rparr>)"
  by (cases "pop CallOk (sy_results e)"; cases "fst (pop CallOk (sy_results e)) = CallOk") (auto simp: hev_task_new_def os_call_def)

lemma has_cong:
  assumes "engine_has B P e" "task_part e'" "own_fds e' = own_fds e" "sy_open e' = sy_open e" "sy_next e \<le> sy_next e'"
    "en_event_fds e' = en_event_fds e" "own_pcbs e' = own_pcbs e" "lw_pcbs e' = lw_pcbs e" "en_dns e' = en_dns e"
  shows "engine_has B P e'"
  using assms fd_cong[of B e e'] pcb_cong[of P e e'] dns_cong[of e e'] by (simp add: engine_has_def)

text \<open>A new task in a variable that was NULL.\<close>

lemma new_task_part:
  assumes t: "task_part e" and n: "set (own_tasks e') = insert (sy_next e) (set (own_tasks e))" "distinct (own_tasks e')"
    and s: "sy_refs e' = (sy_refs e)(sy_next e := 1)" "sy_next e' = Suc (sy_next e)" "sy_ready e' = sy_ready e"
  shows "task_part e'"
proof -
  have "sy_refs e' = (\<lambda>k. if k \<in> set (own_tasks e') then 1 else 0)" using t n s by (auto simp: task_part_def)
  with t n s show ?thesis by (auto simp: task_part_def)
qed

lemma task_fresh: "task_part e \<Longrightarrow> k = sy_next e \<Longrightarrow> k \<noteq> 0 \<and> k \<noteq> en_task_timer e \<and> k \<noteq> en_task_io e \<and> k \<noteq> en_task_event e"
  by (auto simp: task_part_def own_tasks_def split: if_splits)

lemma io_init_has:
  assumes h: "engine_has B P e" and z: "en_task_io e = 0" and i: "lwip_io_task_init e = (r, e')"
  shows "engine_has B P e' \<and> en_task_timer e' = en_task_timer e \<and> en_dns e' = en_dns e \<and> en_task_event e' = en_task_event e \<and>
    (0 \<le> r \<longrightarrow> en_task_io e' \<noteq> 0) \<and> en_tcp e' = en_tcp e"
proof (cases e rule: new_task_cases)
  case (ok q)
  have t: "task_part e" using h by (simp add: engine_has_def)
  note f = task_fresh[OF t refl]
  have "task_part e'"
    by (rule new_task_part[OF t]) (use i ok z f t in \<open>auto simp: lwip_io_task_init_def own_tasks_def task_part_def\<close>)
  from has_cong[OF h this] i ok f show ?thesis by (auto simp: lwip_io_task_init_def own_fds_def own_pcbs_def)
next
  case (fail q)
  have "task_part e'" using h i fail z by (intro task_cong[of e e']) (auto simp: engine_has_def lwip_io_task_init_def own_tasks_def)
  from has_cong[OF h this] i fail show ?thesis by (auto simp: lwip_io_task_init_def own_fds_def own_pcbs_def)
qed

lemma timer_init_has:
  assumes h: "engine_has B P e" and z: "en_task_timer e = 0" and i: "lwip_timer_task_init e = (r, e')"
  shows "engine_has B P e' \<and> en_task_io e' = en_task_io e \<and> en_dns e' = en_dns e \<and> en_task_event e' = en_task_event e \<and>
    (0 \<le> r \<longrightarrow> en_task_timer e' \<noteq> 0) \<and> en_tcp e' = en_tcp e"
proof (cases e rule: new_task_cases)
  case (ok q)
  have t: "task_part e" using h by (simp add: engine_has_def)
  note f = task_fresh[OF t refl]
  have "task_part e'"
    by (rule new_task_part[OF t]) (use i ok z f t in \<open>auto simp: lwip_timer_task_init_def own_tasks_def task_part_def\<close>)
  from has_cong[OF h this] i ok f show ?thesis by (auto simp: lwip_timer_task_init_def own_fds_def own_pcbs_def)
next
  case (fail q)
  have "task_part e'" using h i fail z by (intro task_cong[of e e']) (auto simp: engine_has_def lwip_timer_task_init_def own_tasks_def)
  from has_cong[OF h this] i fail show ?thesis by (auto simp: lwip_timer_task_init_def own_fds_def own_pcbs_def)
qed

lemma event_init_has:
  assumes h: "engine_has B P e" and z: "en_task_event e = 0" "en_event_fds e = (-1, -1)" and i: "event_task_init e = (r, e')"
  shows "engine_has B P e' \<and> en_task_io e' = en_task_io e \<and> en_dns e' = en_dns e \<and> en_task_timer e' = en_task_timer e \<and>
    (0 \<le> r \<longrightarrow> en_task_event e' \<noteq> 0) \<and> en_tcp e' = en_tcp e"
proof -
  obtain r1 q1 where c1: "os_call e = (r1, e\<lparr>sy_results := q1\<rparr>)" by (cases "pop CallOk (sy_results e)") (auto simp: os_call_def)
  let ?a = "int (sy_next e)" and ?b = "int (Suc (sy_next e))"
  let ?e1 = "e\<lparr>sy_results := q1, sy_open := insert ?b (insert ?a (sy_open e)), sy_next := Suc (Suc (sy_next e)), en_event_fds := (?a, ?b)\<rparr>"
  obtain r2 q2 where c2: "os_call ?e1 = (r2, ?e1\<lparr>sy_results := q2\<rparr>)" by (cases "pop CallOk q1") (auto simp: os_call_def)
  let ?e2 = "?e1\<lparr>sy_results := q2\<rparr>"
  have t: "task_part e" using h by (simp add: engine_has_def)
  then have t2: "task_part ?e2" by (rule task_cong) (simp_all add: own_tasks_def)
  have "\<forall>f \<in> B. f < int (sy_next e)" using h by (auto simp: has_defs fds_fresh_def)
  then have nb: "?a \<notin> B" "?b \<notin> B" by fastforce+
  have o: "own_fds ?e2 = insert ?a (insert ?b (own_fds e))" using z(2) by (auto simp: own_fds_def)
  have fd: "fd_part B e" using h by (simp add: engine_has_def)
  then have "\<forall>f \<in> sy_open e. f < int (sy_next e)" by (simp add: fd_part_def fds_fresh_def)
  then have "\<forall>f \<in> sy_open e. f < int (Suc (Suc (sy_next e)))" by (meson less_SucI less_trans of_nat_less_iff lessI)
  then have "fds_fresh ?e2" by (simp add: fds_fresh_def)
  with fd nb have f2: "fd_part B ?e2" unfolding fd_part_def o by auto
  have h2: "engine_has B P ?e2"
    using h f2 t2 pcb_cong[of P e ?e2] dns_cong[of e ?e2] by (simp add: engine_has_def own_pcbs_def)
  have h1: "engine_has B P (e\<lparr>sy_results := q1\<rparr>)"
    by (rule has_cong[OF h task_cong[OF t]]) (simp_all add: own_defs)
  obtain k e3 where n: "hev_task_new ?e2 = (k, e3)" by fastforce
  have i': "e' = (if r1 \<noteq> CallOk then e\<lparr>sy_results := q1\<rparr> else if r2 \<noteq> CallOk then ?e2 else e3\<lparr>en_task_event := k\<rparr>)"
    "r = (if r1 \<noteq> CallOk \<or> r2 \<noteq> CallOk \<or> k = 0 then -1 else 0)"
    using i c1 c2 n by (auto simp: event_task_init_def Let_def split: if_splits)
  have "engine_has B P (e3\<lparr>en_task_event := k\<rparr>) \<and> en_task_io e3 = en_task_io e \<and> en_dns e3 = en_dns e \<and>
      en_task_timer e3 = en_task_timer e \<and> en_tcp e3 = en_tcp e"
  proof (cases ?e2 rule: new_task_cases)
    case (ok q)
    note f = task_fresh[OF t2 refl]
    have "task_part (e3\<lparr>en_task_event := k\<rparr>)"
      by (rule new_task_part[OF t2]) (use n ok z(1) f t2 in \<open>auto simp: own_tasks_def task_part_def\<close>)
    from has_cong[OF h2 this] n ok show ?thesis by (auto simp: own_fds_def own_pcbs_def)
  next
    case (fail q)
    have "task_part (e3\<lparr>en_task_event := k\<rparr>)" using n fail z(1) by (intro task_cong[OF t2]) (auto simp: own_tasks_def)
    from has_cong[OF h2 this] n fail show ?thesis by (auto simp: own_fds_def own_pcbs_def)
  qed
  with h1 h2 i' show ?thesis by (cases "r1 = CallOk"; cases "r2 = CallOk") auto
qed

text \<open>\<open>gateway_init\<close> makes two blocks; the first is the listener, or what is left when there is no memory for it.\<close>

lemma pcb_new_E:
  obtains (ok) q where "pcb_new k e = (sy_next e, e\<lparr>sy_results := q, lw_pcbs := (sy_next e, \<lparr>lp_kind = k, lp_pretend = False\<rparr>) # lw_pcbs e,
      sy_next := Suc (sy_next e)\<rparr>)"
  | (fail) q where "pcb_new k e = (0, e\<lparr>sy_results := q\<rparr>)"
  by (cases "pop CallOk (sy_results e)"; cases "fst (pop CallOk (sy_results e)) = CallOk") (auto simp: pcb_new_def os_call_def)

lemma pcb_bind_first:
  assumes "lw_pcbs e = (p, c) # P" "p \<notin> fst ` set P"
  obtains b where "pcb_bind p udp e = e\<lparr>lw_pcbs := (p, c\<lparr>lp_pretend := b\<rparr>) # P\<rparr>"
proof (cases "pretend_bound udp e")
  case True
  then have "pcb_bind p udp e = e\<lparr>lw_pcbs := (p, c\<lparr>lp_pretend := lp_pretend c\<rparr>) # P\<rparr>" using assms(1) by (simp add: pcb_bind_def)
  then show ?thesis by (rule that)
next
  case False
  have "map (\<lambda>x. if fst x = p then (p, (snd x)\<lparr>lp_pretend := True\<rparr>) else x) P = P"
    using assms(2) by (intro map_idI) (auto simp: rev_image_eqI)
  then have "pcb_bind p udp e = e\<lparr>lw_pcbs := (p, c\<lparr>lp_pretend := True\<rparr>) # P\<rparr>" using assms(1) False by (simp add: pcb_bind_def)
  then show ?thesis by (rule that)
qed

lemma gateway_cases:
  assumes "\<forall>x \<in> set (lw_pcbs e). fst x < sy_next e" "gateway_init e = Some (r, e')"
  shows "r = 0 \<and> (\<exists>p c u d. lw_pcbs e' = (u, d) # (p, c) # lw_pcbs e \<and> en_udp e' = u \<and> sy_next e \<le> p \<and> p < u \<and> sy_next e' = Suc u \<and>
    (en_tcp e' = p \<or> en_tcp e' = 0) \<and> own_fds e' = own_fds e \<and> own_tasks e' = own_tasks e \<and> sy_open e' = sy_open e \<and>
    en_event_fds e' = en_event_fds e \<and> en_dns e' = en_dns e \<and> sy_refs e' = sy_refs e \<and> sy_ready e' = sy_ready e \<and> lw_netif e' \<and>
    en_task_event e' = en_task_event e \<and> en_task_io e' = en_task_io e \<and> en_task_timer e' = en_task_timer e)"
proof -
  let ?P = "lw_pcbs e" and ?n = "sy_next e"
  from assms(2) obtain q where n0: "pcb_new LwTcp (e\<lparr>lw_netif := True\<rparr>) = (?n, e\<lparr>lw_netif := True, sy_results := q,
      lw_pcbs := (?n, \<lparr>lp_kind = LwTcp, lp_pretend = False\<rparr>) # ?P, sy_next := Suc ?n\<rparr>)"
    by (cases "e\<lparr>lw_netif := True\<rparr>" rule: pcb_new_E[where k = LwTcp]) (auto simp: gateway_init_def)
  have f: "?n \<notin> fst ` set ?P" using assms(1) by auto
  define e1 where "e1 = e\<lparr>lw_netif := True, sy_results := q, lw_pcbs := (?n, \<lparr>lp_kind = LwTcp, lp_pretend = False\<rparr>) # ?P, sy_next := Suc ?n\<rparr>"
  have n: "pcb_new LwTcp (e\<lparr>lw_netif := True\<rparr>) = (?n, e1)" using n0 by (simp add: e1_def)
  obtain b where b0: "pcb_bind ?n False e1 = e1\<lparr>lw_pcbs := (?n, \<lparr>lp_kind = LwTcp, lp_pretend = b\<rparr>) # ?P\<rparr>"
    by (rule pcb_bind_first[of e1 ?n "\<lparr>lp_kind = LwTcp, lp_pretend = False\<rparr>" ?P False]) (use f in \<open>auto simp: e1_def\<close>)
  define e2 where "e2 = e1\<lparr>lw_pcbs := (?n, \<lparr>lp_kind = LwTcp, lp_pretend = b\<rparr>) # ?P\<rparr>"
  have b: "pcb_bind ?n False e1 = e2" using b0 by (simp add: e2_def)
  have s2: "lw_pcbs e2 = (?n, \<lparr>lp_kind = LwTcp, lp_pretend = b\<rparr>) # ?P" "sy_next e2 = Suc ?n" "sy_open e2 = sy_open e"
    "statics (e2\<lparr>lw_pcbs := x\<rparr>) = statics (e\<lparr>lw_netif := True, lw_pcbs := x\<rparr>)" for x
    by (simp_all add: e2_def e1_def statics_def)
  obtain r2 q2 where c2: "os_call e2 = (r2, e2\<lparr>sy_results := q2\<rparr>)" by (cases "pop CallOk (sy_results e2)") (auto simp: os_call_def)
  have fl: "filter (\<lambda>x. fst x \<noteq> ?n) ?P = ?P" using f by (auto simp: filter_id_conv rev_image_eqI)
  have "\<exists>tcp p c e3. tcp_listen ?n e2 = (tcp, e3) \<and> lw_pcbs e3 = (p, c) # ?P \<and> (tcp = p \<or> tcp = 0) \<and> ?n \<le> p \<and> p < sy_next e3 \<and>
      statics e3 = statics (e\<lparr>lw_netif := True, lw_pcbs := (p, c) # ?P\<rparr>) \<and> sy_open e3 = sy_open e"
  proof (cases "r2 = CallOk")
    case True
    then have "tcp_listen ?n e2 = (Suc ?n, (e2\<lparr>sy_results := q2\<rparr>)\<lparr>lw_pcbs := (Suc ?n, \<lparr>lp_kind = LwListen, lp_pretend = b\<rparr>) # ?P, sy_next := Suc (Suc ?n)\<rparr>)"
      using c2 fl s2(1,2) by (simp add: tcp_listen_def pcb_free_def)
    with s2(3,4) show ?thesis by (auto simp: statics_def)
  next
    case False
    then have "tcp_listen ?n e2 = (0, e2\<lparr>sy_results := q2\<rparr>)" using c2 by (simp add: tcp_listen_def)
    moreover have "statics (e2\<lparr>sy_results := q2\<rparr>) = statics (e2\<lparr>lw_pcbs := lw_pcbs e2\<rparr>)" by (simp add: statics_def)
    ultimately show ?thesis using s2 by (intro exI[of _ 0] exI[of _ ?n] exI[of _ "\<lparr>lp_kind = LwTcp, lp_pretend = b\<rparr>"] exI[of _ "e2\<lparr>sy_results := q2\<rparr>"]) simp
  qed
  then obtain tcp p c e3 where l: "tcp_listen ?n e2 = (tcp, e3)" "lw_pcbs e3 = (p, c) # ?P" "tcp = p \<or> tcp = 0" "?n \<le> p" "p < sy_next e3"
    "statics e3 = statics (e\<lparr>lw_netif := True, lw_pcbs := (p, c) # ?P\<rparr>)" "sy_open e3 = sy_open e" by blast
  have g: "gateway_init e = (case pcb_new LwUdp (e3\<lparr>en_tcp := tcp\<rparr>) of (u, e) \<Rightarrow> do { check (u \<noteq> 0); Some (0, (pcb_bind u True e)\<lparr>en_udp := u\<rparr>) })"
    using assms(2) n b l(1) by (cases "?n = 0") (simp_all add: gateway_init_def Let_def)
  show ?thesis
  proof (cases "e3\<lparr>en_tcp := tcp\<rparr>" rule: pcb_new_E[where k = LwUdp])
    case (fail q3)
    with g assms(2) show ?thesis by simp
  next
    case (ok q3)
    let ?u = "sy_next e3"
    let ?e4 = "e3\<lparr>en_tcp := tcp, sy_results := q3, lw_pcbs := (?u, \<lparr>lp_kind = LwUdp, lp_pretend = False\<rparr>) # lw_pcbs e3, sy_next := Suc ?u\<rparr>"
    have "?u \<notin> fst ` set (lw_pcbs e3)" using l(2,4,5) assms(1) by auto
    then obtain d where d: "pcb_bind ?u True ?e4 = ?e4\<lparr>lw_pcbs := (?u, \<lparr>lp_kind = LwUdp, lp_pretend = d\<rparr>) # lw_pcbs e3\<rparr>"
      using pcb_bind_first[of ?e4 ?u "\<lparr>lp_kind = LwUdp, lp_pretend = False\<rparr>" "lw_pcbs e3" True] by auto
    have "e' = (?e4\<lparr>lw_pcbs := (?u, \<lparr>lp_kind = LwUdp, lp_pretend = d\<rparr>) # lw_pcbs e3\<rparr>)\<lparr>en_udp := ?u\<rparr>" "r = 0"
      using g assms(2) ok d by (auto split: if_splits)
    with l show ?thesis by (auto simp: own_fds_def own_tasks_def statics_def)
  qed
qed

lemma gateway_init_has:
  assumes h: "engine_has B P e" and z: "en_udp e = 0" "en_tcp e = 0" and i: "gateway_init e = Some (r, e')"
  shows "r = 0 \<and> (\<exists>P'. engine_has B P' e' \<and> (if en_tcp e' = 0 then \<exists>x. P' = x # P else P' = P)) \<and> en_udp e' \<noteq> 0 \<and>
    en_task_event e' = en_task_event e \<and> en_task_io e' = en_task_io e \<and> en_task_timer e' = en_task_timer e \<and>
    en_event_fds e' = en_event_fds e \<and> en_dns e' = en_dns e"
proof -
  have P: "lw_pcbs e = P" "\<forall>x \<in> set (lw_pcbs e). fst x < sy_next e" "0 < sy_next e"
    using h z by (simp_all add: has_defs own_pcbs_def)
  from gateway_cases[OF P(2) i] obtain p c u d where g: "r = 0" "lw_pcbs e' = (u, d) # (p, c) # P" "en_udp e' = u" "sy_next e \<le> p" "p < u"
    "sy_next e' = Suc u" "en_tcp e' = p \<or> en_tcp e' = 0" "own_fds e' = own_fds e" "own_tasks e' = own_tasks e" "sy_open e' = sy_open e"
    "en_event_fds e' = en_event_fds e" "en_dns e' = en_dns e" "sy_refs e' = sy_refs e" "sy_ready e' = sy_ready e"
    "en_task_event e' = en_task_event e" "en_task_io e' = en_task_io e" "en_task_timer e' = en_task_timer e" using P(1) by blast
  have lt: "\<forall>x \<in> set P. fst x < sy_next e" using P(1,2) by simp
  then have f: "\<forall>x \<in> set P. fst x \<noteq> p \<and> fst x \<noteq> u" using g(4,5) by auto
  have t: "task_part e'" using h g by (intro task_cong[of e e']) (simp_all add: engine_has_def)
  have fd: "fd_part B e'" using h g by (intro fd_cong[of B e e']) (simp_all add: engine_has_def)
  let ?P = "if en_tcp e' = 0 then (p, c) # P else P"
  have o: "own_pcbs e' = (if en_tcp e' = 0 then [u] else [u, p])" using g(3,5,7) P(3) g(4) by (auto simp: own_pcbs_def)
  have "filter (\<lambda>x. fst x \<notin> set (own_pcbs e')) P = P" using f unfolding o by (auto simp: filter_id_conv)
  then have "filter (\<lambda>x. fst x \<notin> set (own_pcbs e')) (lw_pcbs e') = ?P" unfolding g(2) o using g(5) by auto
  moreover have "\<forall>x \<in> set (lw_pcbs e'). fst x < sy_next e'" unfolding g(2,6) using lt g(4,5) by auto
  ultimately have "pcb_part ?P e'" unfolding pcb_part_def o g(2) using g(5) by auto
  with t fd h g have "engine_has B ?P e'" by (simp add: engine_has_def dns_part_def)
  with g P(3) show ?thesis by (intro conjI exI[of _ ?P]) auto
qed

text \<open>A network and a mask that belong together, and a cache that starts empty.\<close>

definition dns_config_ok :: "mapped_dns \<Rightarrow> config \<Rightarrow> bool" where
  "dns_config_ok cache0 conf \<longleftrightarrow> cf_mapdns_cache_size conf = 0 \<or> 0 < cf_mapdns_cache_size conf \<and> (\<forall>p. md_nodes cache0 p = None) \<and>
     dup_ok cache0 \<and> (\<exists>k<32. cf_mapdns_netmask conf = NOT (mask k) \<and> cf_mapdns_network conf AND mask k = 0)"

lemma dns_new_destruct:
  assumes "dns_config_ok cache0 conf" "cf_mapdns_cache_size conf \<noteq> 0" "uses S d d2"
    and "hev_mapped_dns_new (cf_mapdns_network conf) (cf_mapdns_netmask conf) (cf_mapdns_cache_size conf) b cache0 = Some d"
  shows "hev_mapped_dns_destruct d2 \<noteq> None"
proof -
  from assms(1,2) obtain k where k: "0 < cf_mapdns_cache_size conf" "\<And>p. md_nodes cache0 p = None" "dup_ok cache0" "k < 32"
    "cf_mapdns_netmask conf = NOT (mask k)" "cf_mapdns_network conf AND mask k = 0" by (auto simp: dns_config_ok_def)
  from mapped_dns_lifecycle[OF k(2,3,1) assms(4) k(4-6) assms(3)] show ?thesis by auto
qed

lemma dns_init_has:
  assumes h: "engine_has B P e" and z: "en_dns e = None" and c: "dns_config_ok cache0 conf" and i: "mapped_dns_init cache0 conf e = (r, e')"
  shows "engine_has B P e' \<and> (\<forall>d S d2. en_dns e' = Some d \<longrightarrow> uses S d d2 \<longrightarrow> hev_mapped_dns_destruct d2 \<noteq> None) \<and>
    en_task_event e' = en_task_event e \<and> en_task_io e' = en_task_io e \<and> en_task_timer e' = en_task_timer e \<and> en_tcp e' = en_tcp e \<and> (r = 0 \<or> r = -1)"
proof (cases "cf_mapdns_cache_size conf = 0")
  case True
  with h z i show ?thesis by (auto simp: mapped_dns_init_def)
next
  case False
  obtain r1 q where k: "os_call e = (r1, e\<lparr>sy_results := q\<rparr>)" by (cases "pop CallOk (sy_results e)") (auto simp: os_call_def)
  let ?n = "hev_mapped_dns_new (cf_mapdns_network conf) (cf_mapdns_netmask conf) (cf_mapdns_cache_size conf) (r1 = CallOk) cache0"
  have m: "mapped_dns_init cache0 conf e = (case ?n of None \<Rightarrow> (-1, e\<lparr>sy_results := q\<rparr>) | Some d \<Rightarrow> (0, e\<lparr>sy_results := q, en_dns := Some d\<rparr>))"
    unfolding mapped_dns_init_def if_not_P[OF False] k by simp
  show ?thesis
  proof (cases ?n)
    case None
    then have e': "e' = e\<lparr>sy_results := q\<rparr>" "r = -1" using m i by simp_all
    have "task_part e'" using h by (intro task_cong[of e e']) (simp_all add: e' engine_has_def own_tasks_def)
    from has_cong[OF h this] show ?thesis using z by (simp add: e' own_fds_def own_pcbs_def)
  next
    case (Some d)
    then have e': "e' = e\<lparr>sy_results := q, en_dns := Some d\<rparr>" "r = 0" using m i by simp_all
    have u: "hev_mapped_dns_destruct d2 \<noteq> None" if "uses S d d2" for S d2
      using dns_new_destruct[OF c False that Some] .
    have "dns_part e'" using u[OF uses_none] by (simp add: dns_part_def e')
    moreover have "fd_part B e'" "task_part e'" "pcb_part P e'"
      using h fd_cong[of B e e'] task_cong[of e e'] pcb_cong[of P e e'] by (simp_all add: engine_has_def own_defs e')
    ultimately have "engine_has B P e'" by (simp add: engine_has_def)
    then show ?thesis using u by (simp add: e')
  qed
qed

subsection \<open>Initialisation, run and end\<close>

lemma init_context [simp]:
  "sy_context (snd (os_call e)) = sy_context e" "sy_context (snd (hev_task_new e)) = sy_context e"
  "sy_context (snd (lwip_io_task_init e)) = sy_context e" "sy_context (snd (lwip_timer_task_init e)) = sy_context e"
  "sy_context (snd (event_task_init e)) = sy_context e" "sy_context (snd (mapped_dns_init cache0 conf e)) = sy_context e"
  "sy_context (snd (pcb_new k e)) = sy_context e" "sy_context (pcb_bind p u e) = sy_context e" "sy_context (snd (tcp_listen p e)) = sy_context e"
  by (simp_all add: os_call_def hev_task_new_def lwip_io_task_init_def lwip_timer_task_init_def event_task_init_def mapped_dns_init_def
      pcb_new_def pcb_bind_def tcp_listen_def pcb_free_def split_beta Let_def split: option.splits)

lemma init_udp:
  "en_udp (snd (lwip_io_task_init e)) = en_udp e" "en_udp (snd (lwip_timer_task_init e)) = en_udp e"
  "en_udp (snd (event_task_init e)) = en_udp e" "en_udp (snd (mapped_dns_init cache0 conf e)) = en_udp e"
  by (simp_all add: os_call_def hev_task_new_def lwip_io_task_init_def lwip_timer_task_init_def event_task_init_def mapped_dns_init_def
      split_beta Let_def split: option.splits)

lemma gateway_context: "gateway_init e = Some (r, e') \<Longrightarrow> sy_context e' = sy_context e"
  by (auto simp: gateway_init_def Let_def split_beta split: if_splits)

lemma fresh_le: "fds_fresh e \<Longrightarrow> sy_next e \<le> k \<Longrightarrow> \<forall>f \<in> sy_open e. f < int k"
  by (meson fds_fresh_def less_le_trans of_nat_mono)

lemma fini_failed:
  assumes "engine_has B P e" "map_option (\<lambda>e. (-1, e)) (hev_socks5_tunnel_fini conf e) = Some (r, e')"
  shows "r = -1 \<and> engine_idle e' \<and> sy_open e' = B \<and> sy_context e' = sy_context e"
  using fini_has[OF assms(1), of conf] assms(2) by auto

lemma init_has:
  assumes idle: "engine_idle e" and fr: "sys_fresh e" and z: "en_udp e = 0" "en_tcp e = 0" and c: "dns_config_ok cache0 conf"
    and i: "hev_socks5_tunnel_init Rs cache0 conf ext e = Some (r, e')"
  shows "sy_context e' = sy_context e \<and>
    (r = 0 \<and> (\<exists>P. engine_has (sy_open e) P e' \<and> (if en_tcp e' = 0 then \<exists>x. P = x # lw_pcbs e else P = lw_pcbs e)) \<and>
      en_task_event e' \<noteq> 0 \<and> en_task_io e' \<noteq> 0 \<and> en_task_timer e' \<noteq> 0 \<and> en_udp e' \<noteq> 0 \<and>
      (\<forall>d S d2. en_dns e' = Some d \<longrightarrow> uses S d d2 \<longrightarrow> hev_mapped_dns_destruct d2 \<noteq> None) \<or>
    r = -1 \<and> engine_idle e' \<and>
      (sy_open e' = sy_open e \<or> ext < 0 \<and> (\<exists>fd. fd \<notin> sy_open e \<and> sy_open e' = insert fd (sy_open e))))"
proof -
  let ?B = "sy_open e" and ?P = "lw_pcbs e"
  have f: "fds_fresh e" and l: "\<not> en_tun_fd_local e" using fr idle by (simp_all add: sys_fresh_def engine_idle_def)
  from tunnel_init_cases[OF f l, of Rs conf ext] obtain r1 e1 where t: "tunnel_init Rs conf ext e = Some (r1, e1)"
    "statics e1 = statics (e\<lparr>en_tun_fd := en_tun_fd e1, en_tun_fd_local := en_tun_fd_local e1\<rparr>)" "sy_next e \<le> sy_next e1"
    "r1 = 0 \<and> 0 \<le> ext \<and> \<not> en_tun_fd_local e1 \<and> sy_open e1 = sy_open e \<or>
     r1 = 0 \<and> ext < 0 \<and> en_tun_fd_local e1 \<and> opened_tun e e1 \<or>
     r1 = -1 \<and> \<not> en_tun_fd_local e1 \<and> (sy_open e1 = sy_open e \<or> ext < 0 \<and> opened_tun e e1)" by blast
  have s: "en_event_fds e1 = (-1, -1)" "en_task_event e1 = 0" "en_task_io e1 = 0" "en_task_timer e1 = 0" "en_dns e1 = None" "en_udp e1 = 0"
    "en_tcp e1 = 0" "lw_pcbs e1 = ?P" "sy_context e1 = sy_context e" "sy_refs e1 = (\<lambda>_. 0)" "sy_ready e1 = []"
    using t(2) idle z by (simp_all add: statics_def engine_idle_def)
  have base: "engine_has C ?P e1" if "fd_part C e1" for C
    using that s fr t(3) by (auto simp: engine_has_def task_part_def pcb_part_def dns_part_def own_tasks_def own_pcbs_def sys_fresh_def)
  have fr1: "sy_open e1 = ?B \<Longrightarrow> fds_fresh e1" "opened_tun e e1 \<Longrightarrow> fds_fresh e1"
    using fresh_le[OF f t(3)] by (auto simp: fds_fresh_def opened_tun_def)
  have ff: "fds_fresh e1" using t(4) fr1 by blast
  have o: "own_fds e1 = (if en_tun_fd_local e1 then {en_tun_fd e1} else {})" using s(1) by (auto simp: own_fds_def)
  show ?thesis
  proof (cases "r1 = 0")
    case False
    then have "\<not> en_tun_fd_local e1" using t(4) by auto
    then have "engine_has (sy_open e1) ?P e1" using ff s(1) o by (intro base) (simp add: fd_part_def)
    moreover have "map_option (\<lambda>e. (-1, e)) (hev_socks5_tunnel_fini conf e1) = Some (r, e')"
      using i t(1,4) False by (auto simp: hev_socks5_tunnel_init_def Let_def)
    ultimately have "r = -1 \<and> engine_idle e' \<and> sy_open e' = sy_open e1 \<and> sy_context e' = sy_context e1" by (rule fini_failed)
    with t(4) False s(9) show ?thesis by (auto simp: opened_tun_def)
  next
    case True
    have "fd_part ?B e1" using t(4) True ff s(1) unfolding fd_part_def o opened_tun_def by auto
    then have h1: "engine_has ?B ?P e1" by (rule base)
    let ?exit = "\<lambda>e. map_option (\<lambda>e. (-1, e)) (hev_socks5_tunnel_fini conf e) = Some (r, e')"
    from i t(1) True obtain r2 e2 where g: "gateway_init e1 = Some (r2, e2)"
      by (auto simp: hev_socks5_tunnel_init_def Let_def Option.bind_eq_Some_conv)
    from gateway_init_has[OF h1 s(6,7) g] s obtain P where h2: "r2 = 0" "engine_has ?B P e2"
      "if en_tcp e2 = 0 then \<exists>x. P = x # ?P else P = ?P" "en_udp e2 \<noteq> 0" "en_task_event e2 = 0" "en_task_io e2 = 0" "en_task_timer e2 = 0"
      "en_event_fds e2 = (-1, -1)" "en_dns e2 = None" by auto
    obtain r3 e3 where v: "event_task_init e2 = (r3, e3)" by fastforce
    from event_init_has[OF h2(2,5,8) v] h2 have h3: "engine_has ?B P e3" "en_task_io e3 = 0" "en_task_timer e3 = 0" "en_dns e3 = None"
      "0 \<le> r3 \<Longrightarrow> en_task_event e3 \<noteq> 0" "en_tcp e3 = en_tcp e2" by auto
    obtain r4 e4 where w: "lwip_io_task_init e3 = (r4, e4)" by fastforce
    from io_init_has[OF h3(1,2) w] h3 have h4: "engine_has ?B P e4" "en_task_timer e4 = 0" "en_dns e4 = None"
      "0 \<le> r4 \<Longrightarrow> en_task_io e4 \<noteq> 0" "en_task_event e4 = en_task_event e3" "en_tcp e4 = en_tcp e2" by auto
    obtain r5 e5 where x: "lwip_timer_task_init e4 = (r5, e5)" by fastforce
    from timer_init_has[OF h4(1,2) x] h4 have h5: "engine_has ?B P e5" "en_dns e5 = None" "0 \<le> r5 \<Longrightarrow> en_task_timer e5 \<noteq> 0"
      "en_task_io e5 = en_task_io e4" "en_task_event e5 = en_task_event e3" "en_tcp e5 = en_tcp e2" by auto
    obtain r6 e6 where y: "mapped_dns_init cache0 conf e5 = (r6, e6)" by fastforce
    from dns_init_has[OF h5(1,2) c y] h5 have h6: "engine_has ?B P e6" "en_task_timer e6 = en_task_timer e5" "en_task_io e6 = en_task_io e4"
      "en_task_event e6 = en_task_event e3" "en_tcp e6 = en_tcp e2" "r6 = 0 \<or> r6 = -1"
      "\<forall>d S d2. en_dns e6 = Some d \<longrightarrow> uses S d d2 \<longrightarrow> hev_mapped_dns_destruct d2 \<noteq> None" by auto
    have cx: "sy_context e2 = sy_context e" "sy_context e3 = sy_context e" "sy_context e4 = sy_context e" "sy_context e5 = sy_context e"
      "sy_context e6 = sy_context e"
      using gateway_context[OF g] s(9) init_context(3)[of e3] init_context(4)[of e4] init_context(5)[of e2] init_context(6)[of cache0 conf e5]
      v w x y by simp_all
    have run: "if r3 < 0 then ?exit e3 else if r4 < 0 then ?exit e4 else if r5 < 0 then ?exit e5 else if r6 < 0 then ?exit e6 else r = 0 \<and> e' = e6"
      using i t(1) True g h2(1) v w x y by (simp add: hev_socks5_tunnel_init_def Let_def split: if_splits)
    have ex: ?thesis if "?exit a" "engine_has ?B P a" "sy_context a = sy_context e" for a
      using fini_failed[OF that(2,1)] that(3) by auto
    show ?thesis
    proof (cases "r3 < 0 \<or> r4 < 0 \<or> r5 < 0 \<or> r6 < 0")
      case True
      with run ex[OF _ h3(1) cx(2)] ex[OF _ h4(1) cx(3)] ex[OF _ h5(1) cx(4)] ex[OF _ h6(1) cx(5)] show ?thesis by (auto split: if_splits)
    next
      case False
      then have "r = 0" "e' = e6" using run by auto
      moreover have "en_udp e6 = en_udp e2"
        using init_udp(1)[of e3] init_udp(2)[of e4] init_udp(3)[of e2] init_udp(4)[of cache0 conf e5] v w x y by simp
      ultimately show ?thesis using False h6 h2(3,4) h3(5) h4(4) h5(3) cx(5) by (auto simp: not_less)
    qed
  qed
qed

lemma run_has:
  assumes h: "engine_has B P e" and k: "en_task_event e \<noteq> 0" "en_task_io e \<noteq> 0" "en_task_timer e \<noteq> 0"
    and w: "\<forall>d. en_dns e = Some d \<longrightarrow> hev_mapped_dns_destruct (work d) \<noteq> None"
  shows "\<exists>e'. hev_socks5_tunnel_run work stats e = Some (0, e') \<and> engine_has B P e' \<and> en_udp e' = en_udp e \<and> en_tcp e' = en_tcp e \<and>
    sy_context e' = sy_context e \<and> en_stats e' = stats"
proof -
  have r: "sy_refs e = (\<lambda>k. if k \<in> set (own_tasks e) then 1 else 0)" "sy_ready e = []" "distinct (own_tasks e)"
    using h by (simp_all add: has_defs)
  have o: "own_tasks e = [en_task_timer e, en_task_io e, en_task_event e]" using k by (simp add: own_tasks_def)
  have d: "en_task_timer e \<noteq> en_task_io e" "en_task_timer e \<noteq> en_task_event e" "en_task_io e \<noteq> en_task_event e" using r(3) o by auto
  have bk: "(sy_refs e)(en_task_event e := 2, en_task_io e := 2, en_task_timer e := 2, en_task_event e := 1, en_task_io e := 1, en_task_timer e := 1)
      = sy_refs e" using r(1) o by auto
  have "\<exists>e'. hev_socks5_tunnel_run work stats e = Some (0, e') \<and> sy_refs e' = sy_refs e \<and> sy_ready e' = [] \<and> own_tasks e' = own_tasks e \<and>
      own_fds e' = own_fds e \<and> own_pcbs e' = own_pcbs e \<and> sy_open e' = sy_open e \<and> sy_next e' = sy_next e \<and> en_event_fds e' = en_event_fds e \<and>
      lw_pcbs e' = lw_pcbs e \<and> en_dns e' = map_option work (en_dns e) \<and> en_udp e' = en_udp e \<and> en_tcp e' = en_tcp e \<and>
      sy_context e' = sy_context e \<and> en_stats e' = stats"
    using d r(1,2) o bk k
    by (simp add: hev_socks5_tunnel_run_def task_start_def hev_task_ref_def hev_task_system_run_def hev_task_unref_def own_defs numeral_2_eq_2)
  then obtain e' where e: "hev_socks5_tunnel_run work stats e = Some (0, e')" "sy_refs e' = sy_refs e" "sy_ready e' = []" "own_tasks e' = own_tasks e"
    "own_fds e' = own_fds e" "own_pcbs e' = own_pcbs e" "sy_open e' = sy_open e" "sy_next e' = sy_next e" "en_event_fds e' = en_event_fds e"
    "lw_pcbs e' = lw_pcbs e" "en_dns e' = map_option work (en_dns e)" "en_udp e' = en_udp e" "en_tcp e' = en_tcp e"
    "sy_context e' = sy_context e" "en_stats e' = stats" by blast
  have "task_part e'" "fd_part B e'" "pcb_part P e'"
    using h e task_cong[of e e'] fd_cong[of B e e'] pcb_cong[of P e e'] by (simp_all add: engine_has_def task_part_def)
  moreover have "dns_part e'" using e(11) w by (auto simp: dns_part_def)
  ultimately show ?thesis using e by (auto simp: engine_has_def)
qed

text \<open>What the handlers do to the cache while the engine runs is a sequence of its operations.\<close>

definition work_ok :: "(mapped_dns \<Rightarrow> mapped_dns) \<Rightarrow> bool" where
  "work_ok work \<longleftrightarrow> (\<forall>d. \<exists>S. uses S d (work d))"

lemma engine_life:
  assumes "engine_idle e" "sys_fresh e" "en_udp e = 0" "en_tcp e = 0" "dns_config_ok cache0 conf" "work_ok work"
    and "hev_socks5_tunnel_init Rs cache0 conf ext e = Some (0, e1)"
  shows "\<exists>e2 e3. hev_socks5_tunnel_run work stats e1 = Some (0, e2) \<and> hev_socks5_tunnel_fini conf e2 = Some e3 \<and> engine_idle e3 \<and>
    sy_open e3 = sy_open e \<and> (if en_tcp e1 = 0 then \<exists>x. lw_pcbs e3 = x # lw_pcbs e else lw_pcbs e3 = lw_pcbs e) \<and>
    sy_context e3 = sy_context e \<and> en_udp e3 \<noteq> 0 \<and> en_udp e3 \<notin> fst ` set (lw_pcbs e3) \<and> fds_fresh e3"
proof -
  from init_has[OF assms(1-5,7)] obtain P where i: "engine_has (sy_open e) P e1" "if en_tcp e1 = 0 then \<exists>x. P = x # lw_pcbs e else P = lw_pcbs e"
    "en_task_event e1 \<noteq> 0" "en_task_io e1 \<noteq> 0" "en_task_timer e1 \<noteq> 0" "en_udp e1 \<noteq> 0" "sy_context e1 = sy_context e"
    "\<forall>d S d2. en_dns e1 = Some d \<longrightarrow> uses S d d2 \<longrightarrow> hev_mapped_dns_destruct d2 \<noteq> None" by auto
  have "\<forall>d. en_dns e1 = Some d \<longrightarrow> hev_mapped_dns_destruct (work d) \<noteq> None" using i(8) assms(6) unfolding work_ok_def by blast
  from run_has[OF i(1,3-5) this, of stats] obtain e2 where r: "hev_socks5_tunnel_run work stats e1 = Some (0, e2)" "engine_has (sy_open e) P e2"
    "en_udp e2 = en_udp e1" "sy_context e2 = sy_context e1" by blast
  from fini_has[OF r(2), of conf] obtain e3 where f: "hev_socks5_tunnel_fini conf e2 = Some e3" "engine_idle e3" "sy_open e3 = sy_open e"
    "lw_pcbs e3 = P" "en_udp e3 = en_udp e2" "sy_context e3 = sy_context e2" "sy_next e3 = sy_next e2" by blast
  have ff: "fds_fresh e3" using r(2) f(3,7) by (auto simp: has_defs fds_fresh_def)
  have "en_udp e2 \<notin> fst ` set P" using r(2,3) i(6) by (auto simp: has_defs own_pcbs_def)
  with i r(1,3,4) f ff show ?thesis by metis
qed



lemma default_dns_ok: "dns_config_ok cache0 config_default"
  by (simp add: dns_config_ok_def config_default_def)

lemma work_id: "work_ok (\<lambda>d. d)"
  using uses_none by (auto simp: work_ok_def)

text \<open>A resolver that knows no address.\<close>

definition no_resolver :: resolver where
  "no_resolver = \<lparr>res_pton4 = \<lambda>_. None, res_pton6 = \<lambda>_. None, res_getaddrinfo = \<lambda>_ _. None\<rparr>"

lemmas engine_eval = hev_socks5_tunnel_init_def tunnel_init_def hev_tunnel_open_def hev_tunnel_set_mtu_def hev_tunnel_set_state_def
  os_open_def os_call_def os_close_def tun_ioctl_def tun_update_def int_of_def gateway_init_def pcb_new_def pcb_bind_def pretend_bound_def
  tcp_listen_def pcb_free_def event_task_init_def lwip_io_task_init_def lwip_timer_task_init_def hev_task_new_def mapped_dns_init_def
  run_script_def config_default_def


text \<open>\<open>gateway_fini\<close> leaves the pointers to the freed blocks in its variables, and a failed initialisation
  calls it before \<open>gateway_init\<close> has run: if on a second start of the engine in one process the interface
  fails, both blocks are freed again.\<close>

theorem engine_failed_restart_frees_twice:
  assumes "engine_idle e" "sys_fresh e" "en_udp e = 0" "en_tcp e = 0" "dns_config_ok cache0 conf" "work_ok work"
    and "hev_socks5_tunnel_init Rs cache0 conf ext e = Some (0, e1)" "hev_socks5_tunnel_run work stats e1 = Some (0, e2)"
    and "hev_socks5_tunnel_fini conf e2 = Some e3" "tunnel_init Rs' conf' ext' e3 = Some (-1, e4)"
  shows "hev_socks5_tunnel_init Rs' cache' conf' ext' e3 = None"
proof -
  from engine_life[OF assms(1-7), of stats] assms(8,9) have l: "engine_idle e3" "en_udp e3 \<noteq> 0" "en_udp e3 \<notin> fst ` set (lw_pcbs e3)"
    and f: "fds_fresh e3" by auto
  from tunnel_init_cases[OF f, of Rs' conf' ext'] l(1) assms(10) have s: "statics e4 = statics (e3\<lparr>en_tun_fd := en_tun_fd e4, en_tun_fd_local := en_tun_fd_local e4\<rparr>)"
    by (auto simp: engine_idle_def)
  then have i4: "en_dns e4 = None" "en_task_timer e4 = 0" "en_task_io e4 = 0" "en_task_event e4 = 0" "en_event_fds e4 = (-1, -1)"
    "en_udp e4 = en_udp e3" "lw_pcbs e4 = lw_pcbs e3" using l(1) by (simp_all add: statics_def engine_idle_def)
  have "hev_socks5_tunnel_fini conf' e4 = None"
    using i4 l(2,3) by (simp add: hev_socks5_tunnel_fini_def mapped_dns_fini_def lwip_timer_task_fini_def lwip_io_task_fini_def
        event_task_fini_def task_drop_def gateway_fini_def pcb_remove_def Let_def)
  then show ?thesis using assms(10) by (simp add: hev_socks5_tunnel_init_def Let_def)
qed

lemma stop_hangs: "\<forall>i. polls i < 0 \<Longrightarrow> hev_socks5_tunnel_stop polls i = None"
proof -
  assume n: "\<forall>i. polls i < 0"
  have False if "hev_socks5_tunnel_stop polls i = Some fd" for fd
    using that n
  proof (induction polls i fd rule: hev_socks5_tunnel_stop.raw_induct[rotated, consumes 1, case_names step])
    case (step f polls i fd)
    have "polls i < 0" using step.prems by blast
    with step.hyps have "f polls (Suc i) = Some fd" by (simp add: Let_def)
    with step.IH step.prems show False by blast
  qed
  then show ?thesis by (cases "hev_socks5_tunnel_stop polls i") auto
qed

text \<open>\<open>hev_socks5_tunnel_stop\<close> waits for the descriptor of the event task; after an initialisation that has
  failed, or an engine that has ended, there is none any more, and the call does not return.\<close>

theorem engine_stop_after_failed_start_hangs:
  assumes "engine_idle e" "sys_fresh e" "en_udp e = 0" "en_tcp e = 0" "dns_config_ok cache0 conf"
    and "hev_socks5_tunnel_init Rs cache0 conf ext e = Some (r, e1)" "r < 0"
  shows "hev_socks5_tunnel_stop (\<lambda>_. snd (en_event_fds e1)) 0 = None"
proof -
  have "engine_idle e1" using init_has[OF assms(1-6)] assms(7) by auto
  then show ?thesis by (intro stop_hangs) (simp add: engine_idle_def)
qed

subsection \<open>The interface\<close>

lemma sy_tun_simps [simp]:
  "sy_tun (snd (os_call e)) = sy_tun e" "sy_tun (os_close fd e) = sy_tun e" "sy_tun (snd (os_open e)) = sy_tun e"
  "sy_tun (snd (tun_ioctl f e)) = (if fst (tun_ioctl f e) = CallOk then map_option f (sy_tun e) else sy_tun e)"
  by (simp_all add: os_call_def os_close_def os_open_def tun_ioctl_def tun_update_def split_beta)

lemma tun_set_ok:
  "hev_tunnel_set_mtu mtu e = (r, e') \<Longrightarrow> \<not> r < 0 \<Longrightarrow> sy_tun e' = map_option (\<lambda>t. t\<lparr>ti_mtu := mtu\<rparr>) (sy_tun e)"
  "hev_tunnel_set_state b e = (r, e') \<Longrightarrow> \<not> r < 0 \<Longrightarrow> sy_tun e' = map_option (\<lambda>t. t\<lparr>ti_up := b\<rparr>) (sy_tun e)"
  "hev_tunnel_set_ipv6 Rs a p e = (r, e') \<Longrightarrow> \<not> r < 0 \<Longrightarrow>
     sy_tun e' = sy_tun e \<or> res_pton6 Rs a \<noteq> None \<and> sy_tun e' = map_option (\<lambda>t. t\<lparr>ti_addr6 := Some (the (res_pton6 Rs a), p)\<rparr>) (sy_tun e)"
  by (auto simp: hev_tunnel_set_mtu_def hev_tunnel_set_state_def hev_tunnel_set_ipv6_def int_of_def split_beta split: if_splits option.splits)

lemma tun_set_ipv4_ok:
  assumes "hev_tunnel_set_ipv4 Rs a 32 e = Some (r, e')" "\<not> r < 0"
  shows "\<exists>m. sy_tun e' = (case res_pton4 Rs a of None \<Rightarrow> sy_tun e | Some b \<Rightarrow> map_option (\<lambda>t. t\<lparr>ti_addr4 := Some b, ti_mask4 := m t\<rparr>) (sy_tun e))"
proof (cases "res_pton4 Rs a")
  case None
  with assms show ?thesis by (auto simp: hev_tunnel_set_ipv4_def split_beta split: if_splits)
next
  case (Some b)
  let ?e = "snd (tun_ioctl (\<lambda>t. t\<lparr>ti_addr4 := Some b\<rparr>) (snd (os_open e)))"
  let ?r = "fst (tun_ioctl (\<lambda>t. t\<lparr>ti_mask4 := Some (be32 (-1))\<rparr>) ?e)"
  have "sy_tun e' = (if ?r = CallOk then map_option (\<lambda>t. t\<lparr>ti_mask4 := Some (be32 (-1))\<rparr>) else (\<lambda>t. t)) (map_option (\<lambda>t. t\<lparr>ti_addr4 := Some b\<rparr>) (sy_tun e))"
    using assms Some by (auto simp: hev_tunnel_set_ipv4_def prefix_mask_def split_beta split: if_splits)
  then show ?thesis using Some
    by (intro exI[of _ "\<lambda>t. if ?r = CallOk then Some (be32 (-1)) else ti_mask4 t"]) (cases "sy_tun e"; simp)
qed

lemma run_script_tun [simp]: "sy_tun (run_script p w e) = sy_tun e"
  by (simp add: run_script_def)

lemma tunnel_open_ok:
  "hev_tunnel_open name mq e = (fd, e') \<Longrightarrow> \<not> fd < 0 \<Longrightarrow> sy_tun e' = Some \<lparr>ti_name = take 15 name, ti_multi_queue = mq,
     ti_mtu = 1500, ti_up = False, ti_addr4 = None, ti_mask4 = None, ti_addr6 = None\<rparr>"
  by (auto simp: hev_tunnel_open_def split_beta split: if_splits)

definition addr6_conf :: "resolver \<Rightarrow> config \<Rightarrow> (bytes \<times> nat) option" where
  "addr6_conf Rs conf = (if cf_tun_ipv6_address conf = [] then None else map_option (\<lambda>a. (a, 128)) (res_pton6 Rs (cf_tun_ipv6_address conf)))"

text \<open>When \<open>tunnel_init\<close> reports success for an interface of its own, the interface is up, has the
  configured name and size, and each configured address that \<open>inet_pton\<close> can read (the second one may
  have been there already); an address it cannot read is skipped without an error.\<close>

theorem engine_interface_configured:
  assumes x: "ext < 0" and t: "tunnel_init Rs conf ext e = Some (0, e')"
  shows "\<exists>t. sy_tun e' = Some t \<and> ti_up t \<and> ti_mtu t = cf_tun_mtu conf \<and> ti_name t = take 15 (cf_tun_name conf) \<and>
    ti_multi_queue t = cf_multi_queue conf \<and>
    ti_addr4 t = (if cf_tun_ipv4_address conf = [] then None else res_pton4 Rs (cf_tun_ipv4_address conf)) \<and>
    (ti_addr6 t = None \<or> ti_addr6 t = addr6_conf Rs conf)"
proof -
  obtain fd e1 where o: "hev_tunnel_open (cf_tun_name conf) (cf_multi_queue conf) e = (fd, e1)" by fastforce
  let ?e1 = "e1\<lparr>en_tun_fd := fd\<rparr>"
  obtain r2 e2 where m: "hev_tunnel_set_mtu (cf_tun_mtu conf) ?e1 = (r2, e2)" by fastforce
  from x t o m have g: "\<not> fd < 0" "\<not> r2 < 0" by (auto simp: tunnel_init_def Let_def split: if_splits)
  let ?four = "if cf_tun_ipv4_address conf = [] then Some (0, e2) else hev_tunnel_set_ipv4 Rs (cf_tun_ipv4_address conf) 32 e2"
  from x t o m g obtain r3 e3 where f: "?four = Some (r3, e3)" by (cases ?four) (auto simp: tunnel_init_def Let_def)
  obtain r4 e4 where s: "(if cf_tun_ipv6_address conf = [] then (0, e3) else hev_tunnel_set_ipv6 Rs (cf_tun_ipv6_address conf) 128 e3) = (r4, e4)"
    by fastforce
  obtain r5 e5 where u: "hev_tunnel_set_state True e4 = (r5, e5)" by fastforce
  from x t o m g f s u have h: "\<not> r3 < 0" "\<not> r4 < 0" "\<not> r5 < 0" and e': "sy_tun e' = sy_tun e5"
    by (auto simp: tunnel_init_def Let_def split: if_splits)
  let ?t = "\<lparr>ti_name = take 15 (cf_tun_name conf), ti_multi_queue = cf_multi_queue conf, ti_mtu = cf_tun_mtu conf, ti_up = False,
    ti_addr4 = None, ti_mask4 = None, ti_addr6 = None\<rparr>"
  have a2: "sy_tun e2 = Some ?t" using tun_set_ok(1)[OF m g(2)] tunnel_open_ok[OF o g(1)] by simp
  obtain mk where a3: "sy_tun e3 = Some (?t\<lparr>ti_addr4 := if cf_tun_ipv4_address conf = [] then None else res_pton4 Rs (cf_tun_ipv4_address conf),
      ti_mask4 := mk\<rparr>)"
  proof (cases "cf_tun_ipv4_address conf = []")
    case True
    with f a2 that[of None] show ?thesis by simp
  next
    case False
    with f have "hev_tunnel_set_ipv4 Rs (cf_tun_ipv4_address conf) 32 e2 = Some (r3, e3)" by simp
    from tun_set_ipv4_ok[OF this h(1)] obtain mm where
      "sy_tun e3 = (case res_pton4 Rs (cf_tun_ipv4_address conf) of None \<Rightarrow> sy_tun e2
         | Some b \<Rightarrow> map_option (\<lambda>t. t\<lparr>ti_addr4 := Some b, ti_mask4 := mm t\<rparr>) (sy_tun e2))" by blast
    with a2 False that show ?thesis by (cases "res_pton4 Rs (cf_tun_ipv4_address conf)") auto
  qed
  have a4: "\<exists>x. (x = None \<or> x = addr6_conf Rs conf) \<and> sy_tun e4 = map_option (\<lambda>t. t\<lparr>ti_addr6 := x\<rparr>) (sy_tun e3)"
  proof (cases "cf_tun_ipv6_address conf = []")
    case True
    with s a3 show ?thesis by (intro exI[of _ None]) simp
  next
    case False
    with s have "hev_tunnel_set_ipv6 Rs (cf_tun_ipv6_address conf) 128 e3 = (r4, e4)" by simp
    from tun_set_ok(3)[OF this h(2)] False show ?thesis using a3 by (auto simp: addr6_conf_def)
  qed
  then show ?thesis using a3 tun_set_ok(2)[OF u h(3)] e' by auto
qed

theorem engine_interface_configured_witness:
  "\<exists>e' t. tunnel_init no_resolver (config_default\<lparr>cf_tun_ipv4_address := [49]\<rparr>) (-1) engine_start = Some (0, e') \<and>
     sy_tun e' = Some t \<and> ti_up t \<and> ti_mtu t = cf_tun_mtu config_default \<and> ti_addr4 t = None"
proof -
  let ?c = "config_default\<lparr>cf_tun_ipv4_address := [49]\<rparr>"
  have "\<exists>e'. tunnel_init no_resolver ?c (-1) engine_start = Some (0, e')"
    by (simp add: engine_eval hev_tunnel_set_ipv4_def no_resolver_def engine_start_def Let_def)
  then obtain e' where t: "tunnel_init no_resolver ?c (-1) engine_start = Some (0, e')" by blast
  from engine_interface_configured[OF _ t] t show ?thesis by (auto simp: no_resolver_def)
qed

subsection \<open>The main function\<close>

text \<open>The loggers' descriptors are theirs alone.\<close>

definition logs :: "engine \<Rightarrow> int \<times> int" where
  "logs e = (en_log e, en_slog e)"

lemma logs_steps [simp]:
  "logs (snd (os_call e)) = logs e" "logs (snd (os_open e)) = logs e" "logs (os_close fd e) = logs e" "logs (snd (tun_ioctl f e)) = logs e"
  "logs (snd (hev_task_new e)) = logs e" "logs (snd (pcb_new k e)) = logs e" "logs (pcb_bind p u e) = logs e" "logs (snd (tcp_listen p e)) = logs e"
  by (simp_all add: logs_def os_call_def os_open_def os_close_def tun_ioctl_def tun_update_def hev_task_new_def pcb_new_def pcb_bind_def
      tcp_listen_def pcb_free_def split_beta split: option.splits)

lemma logs_fields [simp]:
  "logs (e\<lparr>en_tun_fd := a\<rparr>) = logs e" "logs (e\<lparr>en_tun_fd_local := b\<rparr>) = logs e" "logs (e\<lparr>sy_tun := c\<rparr>) = logs e"
  "logs (e\<lparr>en_task_io := k\<rparr>) = logs e" "logs (e\<lparr>en_task_timer := k\<rparr>) = logs e" "logs (e\<lparr>en_task_event := k\<rparr>) = logs e"
  "logs (e\<lparr>en_event_fds := v\<rparr>) = logs e" "logs (e\<lparr>en_dns := d\<rparr>) = logs e" "logs (e\<lparr>en_stats := s\<rparr>) = logs e" "logs (e\<lparr>lw_netif := b\<rparr>) = logs e"
  "logs (e\<lparr>en_udp := k\<rparr>) = logs e" "logs (e\<lparr>en_tcp := k\<rparr>) = logs e" "logs (e\<lparr>lw_pcbs := p\<rparr>) = logs e" "logs (e\<lparr>sy_refs := rf\<rparr>) = logs e"
  "logs (e\<lparr>sy_ready := ys\<rparr>) = logs e" "logs (e\<lparr>en_run := b\<rparr>) = logs e" "logs (e\<lparr>sy_scripts := sc\<rparr>) = logs e"
  "logs (e\<lparr>sy_open := op\<rparr>) = logs e" "logs (e\<lparr>sy_next := n\<rparr>) = logs e"
  by (simp_all add: logs_def)

lemma logs_tunnel [simp]:
  "logs (snd (hev_tunnel_open name mq e)) = logs e" "logs (snd (hev_tunnel_set_mtu mtu e)) = logs e"
  "logs (snd (hev_tunnel_set_state b e)) = logs e" "logs (snd (hev_tunnel_set_ipv6 Rs a p e)) = logs e" "logs (run_script pa w e) = logs e"
  "logs (tunnel_fini conf e) = logs e"
  by (simp_all add: hev_tunnel_open_def hev_tunnel_set_mtu_def hev_tunnel_set_state_def hev_tunnel_set_ipv6_def run_script_def
      tunnel_fini_def hev_tunnel_close_def split_beta split: option.splits)



lemma logs_init_steps [simp]:
  "logs (snd (event_task_init e)) = logs e" "logs (snd (lwip_io_task_init e)) = logs e" "logs (snd (lwip_timer_task_init e)) = logs e"
  "logs (snd (mapped_dns_init cache0 conf e)) = logs e"
  by (simp_all add: event_task_init_def lwip_io_task_init_def lwip_timer_task_init_def mapped_dns_init_def split_beta Let_def split: option.splits)










lemma settings_idle [simp]:
  "engine_idle (e\<lparr>en_settings := s\<rparr>) = engine_idle e" "sys_fresh (e\<lparr>en_settings := s\<rparr>) = sys_fresh e"
  "engine_idle (e\<lparr>sy_context := c, sy_results := q\<rparr>) = engine_idle e" "sys_fresh (e\<lparr>sy_context := c, sy_results := q\<rparr>) = sys_fresh e"
  "engine_idle (e\<lparr>sy_results := q, sy_context := c\<rparr>) = engine_idle e" "sys_fresh (e\<lparr>sy_results := q, sy_context := c\<rparr>) = sys_fresh e"
  by (simp_all add: engine_idle_def sys_fresh_def fds_fresh_def)




theorem engine_stop_after_failed_start_hangs_witness:
  "\<exists>f. hev_socks5_tunnel_init no_resolver sample_dns config_default (-1) (engine_start\<lparr>sy_results := [CallFail]\<rparr>) = Some (-1, f) \<and>
     hev_socks5_tunnel_stop (\<lambda>_. snd (en_event_fds f)) 0 = None"
proof -
  let ?s = "engine_start\<lparr>sy_results := [CallFail]\<rparr>"
  have "\<exists>f. hev_socks5_tunnel_init no_resolver sample_dns config_default (-1) ?s = Some (-1, f)"
    by (simp add: engine_eval engine_start_def Let_def hev_socks5_tunnel_fini_def mapped_dns_fini_def lwip_timer_task_fini_def
        lwip_io_task_fini_def event_task_fini_def gateway_fini_def tunnel_fini_def task_drop_def pcb_remove_def)
  then obtain f where b: "hev_socks5_tunnel_init no_resolver sample_dns config_default (-1) ?s = Some (-1, f)" by blast
  have s: "engine_idle ?s" "sys_fresh ?s" "en_udp ?s = 0" "en_tcp ?s = 0"
    by (simp_all add: engine_start_def engine_idle_def sys_fresh_def fds_fresh_def)
  from engine_stop_after_failed_start_hangs[OF s default_dns_ok b] b show ?thesis by auto
qed

text \<open>A first start in which every call succeeds, and a second one in which \<open>open\<close> fails.\<close>

theorem engine_failed_restart_frees_twice_witness:
  "\<exists>e1 e2 e3. hev_socks5_tunnel_init no_resolver sample_dns config_default 0 (engine_start\<lparr>sy_results := replicate 9 CallOk @ [CallFail]\<rparr>) =
       Some (0, e1) \<and> hev_socks5_tunnel_run (\<lambda>d. d) (1, 60, 1, 60) e1 = Some (0, e2) \<and> hev_socks5_tunnel_fini config_default e2 = Some e3 \<and>
     hev_socks5_tunnel_init no_resolver sample_dns config_default (-1) e3 = None"
proof -
  note ev = engine_eval hev_socks5_tunnel_run_def task_start_def hev_task_ref_def hev_task_unref_def hev_task_system_run_def
    hev_socks5_tunnel_fini_def mapped_dns_fini_def lwip_timer_task_fini_def lwip_io_task_fini_def event_task_fini_def gateway_fini_def
    tunnel_fini_def task_drop_def pcb_remove_def
  let ?s = "engine_start\<lparr>sy_results := replicate 9 CallOk @ [CallFail]\<rparr>"
  have "\<exists>e1 e2 e3 e4. hev_socks5_tunnel_init no_resolver sample_dns config_default 0 ?s = Some (0, e1) \<and>
      hev_socks5_tunnel_run (\<lambda>d. d) (1, 60, 1, 60) e1 = Some (0, e2) \<and> hev_socks5_tunnel_fini config_default e2 = Some e3 \<and>
      tunnel_init no_resolver config_default (-1) e3 = Some (-1, e4)"
    by (simp add: ev engine_start_def Let_def eval_nat_numeral)
  then obtain e1 e2 e3 e4 where a: "hev_socks5_tunnel_init no_resolver sample_dns config_default 0 ?s = Some (0, e1)"
    "hev_socks5_tunnel_run (\<lambda>d. d) (1, 60, 1, 60) e1 = Some (0, e2)" "hev_socks5_tunnel_fini config_default e2 = Some e3"
    "tunnel_init no_resolver config_default (-1) e3 = Some (-1, e4)" by blast
  have s: "engine_idle ?s" "sys_fresh ?s" "en_udp ?s = 0" "en_tcp ?s = 0"
    by (simp_all add: engine_start_def engine_idle_def sys_fresh_def fds_fresh_def)
  from engine_failed_restart_frees_twice[OF s default_dns_ok work_id a] a show ?thesis by blast
qed

end
