(* ===== verification/Authenticator.thy ===== *)
theory Authenticator
  imports RBTree
begin

text \<open>
  The users a SOCKS5 server accepts (core hev-socks5-authenticator.c, hev-socks5-user.c): a red-black tree of
  reference-counted users, ordered by the length of their names and then bytewise. It is shown to be a
  finite map from names to users that gives up each of its references exactly once.
\<close>

section \<open>Authenticator and users (core hev-socks5-authenticator.c, hev-socks5-user.c)\<close>

subsection \<open>State\<close>

text \<open>
  A user is named by the address of its \<open>node\<close>. \<open>malloc (name_len)\<close> and \<open>memcpy\<close> make the names byte lists,
  of any bytes. \<open>au_users\<close> has the live users, whoever holds them; \<open>us_refs\<close> counts the references.
  \<open>au_refs\<close> are those to the authenticator itself. \<open>au_allocq\<close> and \<open>au_mallocq\<close> are the oracles of the allocator;
  \<open>calloc\<close> only returns fresh aligned blocks, or NULL.
\<close>

record auth_user_obj =
  us_name :: bytes
  us_pass :: bytes
  us_refs :: nat

record authenticator =
  au_tree :: rbtree
  au_users :: "ptr \<Rightarrow> auth_user_obj option"
  au_refs :: nat
  au_allocq :: "ptr list"
  au_mallocq :: "bool list"

subsection \<open>Users\<close>

definition au_calloc :: "authenticator \<Rightarrow> ptr \<times> authenticator" where
  "au_calloc self = (let (p, q) = pop NULL (au_allocq self)
     in (if p \<noteq> NULL \<and> aligned p \<and> au_users self p = None then p else NULL, self\<lparr>au_allocq := q\<rparr>))"

text \<open>The copy of \<open>len\<close> bytes into a new block; without a block there is nowhere to copy to.\<close>

definition au_memdup :: "bytes \<Rightarrow> nat \<Rightarrow> authenticator \<Rightarrow> (bytes \<times> authenticator) option" where
  "au_memdup src len self = do {
     let (ok, q) = pop True (au_mallocq self);
     bs \<leftarrow> rd src 0 len;
     check (ok \<or> len = 0);
     Some (bs, self\<lparr>au_mallocq := q\<rparr>)
   }"

definition hev_socks5_user_construct ::
  "ptr \<Rightarrow> bytes \<Rightarrow> nat \<Rightarrow> bytes \<Rightarrow> nat \<Rightarrow> authenticator \<Rightarrow> (int \<times> authenticator) option" where
  "hev_socks5_user_construct p name name_len pass pass_len self = do {
     (n, self) \<leftarrow> au_memdup name name_len self;
     (w, self) \<leftarrow> au_memdup pass pass_len self;
     Some (0, self\<lparr>au_users := (au_users self)(p \<mapsto> \<lparr>us_name = n, us_pass = w, us_refs = 1\<rparr>)\<rparr>)
   }"

definition hev_socks5_user_new ::
  "bytes \<Rightarrow> nat \<Rightarrow> bytes \<Rightarrow> nat \<Rightarrow> authenticator \<Rightarrow> (ptr \<times> authenticator) option" where
  "hev_socks5_user_new name name_len pass pass_len self =
     (case au_calloc self of (p, self) \<Rightarrow>
      if p = NULL then Some (NULL, self)
      else do {
        (res, self) \<leftarrow> hev_socks5_user_construct p name name_len pass pass_len self;
        Some (if res < 0 then NULL else p, self)
      })"

text \<open>\<open>memcmp\<close> on two blocks of one length.\<close>

fun memcmp :: "bytes \<Rightarrow> bytes \<Rightarrow> int" where
  "memcmp (x # xs) (y # ys) = (if x < y then -1 else if y < x then 1 else memcmp xs ys)"
| "memcmp _ _ = 0"

definition hev_socks5_user_checker :: "auth_user_obj \<Rightarrow> bytes \<Rightarrow> int" where
  "hev_socks5_user_checker self pass =
     (if length (us_pass self) \<noteq> length pass then -1
      else if memcmp (us_pass self) pass \<noteq> 0 then -1
      else 0)"

text \<open>The method of the class; no class overrides it.\<close>

definition hev_socks5_user_check :: "ptr \<Rightarrow> bytes \<Rightarrow> authenticator \<Rightarrow> int option" where
  "hev_socks5_user_check p pass self = do {
     u \<leftarrow> au_users self p;
     Some (hev_socks5_user_checker u pass)
   }"

text \<open>\<open>hev_object_ref\<close> and \<open>hev_object_unref\<close> of a user; the last reference frees it.\<close>

definition user_ref :: "ptr \<Rightarrow> authenticator \<Rightarrow> authenticator option" where
  "user_ref p self = do {
     u \<leftarrow> au_users self p;
     Some (self\<lparr>au_users := (au_users self)(p \<mapsto> u\<lparr>us_refs := us_refs u + 1\<rparr>)\<rparr>)
   }"

definition user_unref :: "ptr \<Rightarrow> authenticator \<Rightarrow> authenticator option" where
  "user_unref p self = do {
     u \<leftarrow> au_users self p;
     Some (self\<lparr>au_users := (au_users self)(p := if us_refs u \<le> 1 then None else Some (u\<lparr>us_refs := us_refs u - 1\<rparr>))\<rparr>)
   }"

subsection \<open>The tree of the users\<close>

definition user_cmp :: "bytes \<Rightarrow> bytes \<Rightarrow> int" where
  "user_cmp this name =
     (if length this < length name then -1
      else if length name < length this then 1
      else memcmp this name)"

definition au_cmp :: "authenticator \<Rightarrow> bytes \<Rightarrow> ptr \<Rightarrow> int option" where
  "au_cmp self name p = do {
     this \<leftarrow> au_users self p;
     Some (user_cmp (us_name this) name)
   }"

definition hev_socks5_authenticator_construct :: "authenticator \<Rightarrow> int \<times> authenticator" where
  "hev_socks5_authenticator_construct self = (0, self\<lparr>au_refs := 1\<rparr>)"

text \<open>\<open>ok\<close> is the outcome of \<open>calloc\<close>, which clears the root.\<close>

definition hev_socks5_authenticator_new :: "bool \<Rightarrow> authenticator \<Rightarrow> authenticator option" where
  "hev_socks5_authenticator_new ok self =
     (if \<not> ok then None
      else case hev_socks5_authenticator_construct (self\<lparr>au_tree := (au_tree self)\<lparr>rb_root := NULL\<rparr>\<rparr>) of
        (res, self) \<Rightarrow> if res < 0 then None else Some self)"

definition hev_socks5_authenticator_add :: "ptr \<Rightarrow> authenticator \<Rightarrow> (int \<times> authenticator) option" where
  "hev_socks5_authenticator_add user self = do {
     u \<leftarrow> au_users self user;
     r \<leftarrow> hev_rbtree_search (au_cmp self (us_name u)) (au_tree self);
     case r of
       Found _ \<Rightarrow> Some (-1, self)
     | Missing parent new \<Rightarrow> do {
         tree \<leftarrow> hev_rbtree_insert user parent new (au_tree self);
         Some (0, self\<lparr>au_tree := tree\<rparr>)
       }
   }"

definition hev_socks5_authenticator_del :: "bytes \<Rightarrow> authenticator \<Rightarrow> (int \<times> authenticator) option" where
  "hev_socks5_authenticator_del name self = do {
     r \<leftarrow> hev_rbtree_search (au_cmp self name) (au_tree self);
     case r of
       Found node \<Rightarrow> do {
         tree \<leftarrow> hev_rbtree_erase node (au_tree self);
         self \<leftarrow> user_unref node (self\<lparr>au_tree := tree\<rparr>);
         Some (0, self)
       }
     | Missing _ _ \<Rightarrow> Some (-1, self)
   }"

definition hev_socks5_authenticator_get :: "bytes \<Rightarrow> authenticator \<Rightarrow> ptr option" where
  "hev_socks5_authenticator_get name self = do {
     r \<leftarrow> hev_rbtree_search (au_cmp self name) (au_tree self);
     Some (case r of Found node \<Rightarrow> node | Missing _ _ \<Rightarrow> NULL)
   }"

partial_function (option) hev_socks5_authenticator_clear :: "authenticator \<Rightarrow> authenticator option" where
  "hev_socks5_authenticator_clear self = do {
     n \<leftarrow> hev_rbtree_first (au_tree self);
     if n = NULL then Some self
     else do {
       tree \<leftarrow> hev_rbtree_erase n (au_tree self);
       self \<leftarrow> user_unref n (self\<lparr>au_tree := tree\<rparr>);
       hev_socks5_authenticator_clear self
     }
   }"

definition hev_socks5_authenticator_destruct :: "authenticator \<Rightarrow> authenticator option" where
  "hev_socks5_authenticator_destruct self = hev_socks5_authenticator_clear self"

text \<open>References to the authenticator.\<close>

definition auth_ref :: "authenticator \<Rightarrow> authenticator option" where
  "auth_ref self = do {
     check (0 < au_refs self);
     Some (self\<lparr>au_refs := au_refs self + 1\<rparr>)
   }"

definition auth_unref :: "authenticator \<Rightarrow> authenticator option" where
  "auth_unref self = do {
     check (0 < au_refs self);
     let self = self\<lparr>au_refs := au_refs self - 1\<rparr>;
     if au_refs self = 0 then hev_socks5_authenticator_destruct self else Some self
   }"

subsection \<open>The order of the names\<close>

lemma memcmp_zero: "length a = length b \<Longrightarrow> memcmp a b = 0 \<longleftrightarrow> a = b"
  by (induction a b rule: memcmp.induct) auto

lemma memcmp_sym: "memcmp a b < 0 \<longleftrightarrow> 0 < memcmp b a"
  by (induction a b rule: memcmp.induct) (auto simp: not_less_iff_gr_or_eq)

lemma memcmp_trans:
  assumes "0 < memcmp a b" "0 < memcmp b c" "length a = length b" "length b = length c"
  shows "0 < memcmp a c"
  using assms
proof (induction a b arbitrary: c rule: memcmp.induct)
  case (1 x xs y ys)
  then show ?case by (cases c) (auto split: if_splits)
qed auto

lemma user_cmp_zero: "user_cmp a b = 0 \<longleftrightarrow> a = b"
  using memcmp_zero[of a b] by (auto simp: user_cmp_def)

lemma user_cmp_sym: "user_cmp a b < 0 \<longleftrightarrow> 0 < user_cmp b a"
  using memcmp_sym[of a b] by (auto simp: user_cmp_def)

lemma user_cmp_trans: "0 < user_cmp a b \<Longrightarrow> 0 < user_cmp b c \<Longrightarrow> 0 < user_cmp a c"
  using memcmp_trans[of a b c] by (auto simp: user_cmp_def split: if_splits)

interpretation users: keyed_index rb_list hev_rbtree_search hev_rbtree_insert hev_rbtree_erase user_cmp
  by unfold_locales (use user_cmp_zero user_cmp_sym user_cmp_trans in blast)+

lemma checker_iff: "hev_socks5_user_checker u pass = 0 \<longleftrightarrow> us_pass u = pass"
  using memcmp_zero[of "us_pass u" pass] by (auto simp: hev_socks5_user_checker_def)

lemma checker_cases: "hev_socks5_user_checker u pass = 0 \<or> hev_socks5_user_checker u pass = -1"
  by (simp add: hev_socks5_user_checker_def)


subsection \<open>A map from names to users\<close>

definition user_name :: "authenticator \<Rightarrow> ptr \<Rightarrow> bytes" where
  "user_name a p = us_name (the (au_users a p))"

text \<open>\<open>auth_rep a m\<close>: the tree holds exactly the users of the map \<open>m\<close>, all live, each under its name.\<close>

definition auth_rep :: "authenticator \<Rightarrow> (bytes \<Rightarrow> ptr option) \<Rightarrow> bool" where
  "auth_rep a m \<longleftrightarrow> keyed rb_list user_cmp (au_tree a) (user_name a) (ran m) \<and>
     (\<forall>k p. m k = Some p \<longrightarrow> (\<exists>u. au_users a p = Some u \<and> us_name u = k))"

text \<open>The users after one reference to each of \<open>D\<close> is given up.\<close>

definition drop_refs :: "ptr set \<Rightarrow> (ptr \<Rightarrow> auth_user_obj option) \<Rightarrow> ptr \<Rightarrow> auth_user_obj option" where
  "drop_refs D U p =
     (if p \<in> D then (case U p of None \<Rightarrow> None | Some u \<Rightarrow> if us_refs u \<le> 1 then None else Some (u\<lparr>us_refs := us_refs u - 1\<rparr>))
      else U p)"

lemma auth_user:
  assumes "auth_rep a m" "m k = Some p"
  shows "\<exists>u. au_users a p = Some u \<and> us_name u = k" "user_name a p = k"
proof -
  show "\<exists>u. au_users a p = Some u \<and> us_name u = k" using assms unfolding auth_rep_def by blast
  then show "user_name a p = k" by (auto simp: user_name_def)
qed

lemma auth_repD:
  assumes "auth_rep a m" "p \<in> ran m"
  shows "\<exists>u. au_users a p = Some u \<and> user_name a p = us_name u \<and> m (us_name u) = Some p"
proof -
  from assms(2) obtain k where k: "m k = Some p" by (auto simp: ran_def)
  from auth_user[OF assms(1) k] k show ?thesis by auto
qed

lemma au_cmp_key: "auth_rep a m \<Longrightarrow> p \<in> ran m \<Longrightarrow> au_cmp a name p = Some (user_cmp (user_name a p) name)"
  by (auto simp: au_cmp_def dest: auth_repD)

lemma name_in_map: "auth_rep a m \<Longrightarrow> name \<in> user_name a ` ran m \<longleftrightarrow> m name \<noteq> None"
  using auth_user(2)[of a m] by (auto simp: ran_def image_iff)

lemma search_user:
  assumes a: "auth_rep a m"
  shows "case m name of Some p \<Rightarrow> hev_rbtree_search (au_cmp a name) (au_tree a) = Some (Found p)
    | None \<Rightarrow> \<exists>p lk. hev_rbtree_search (au_cmp a name) (au_tree a) = Some (Missing p lk) \<and>
      (\<forall>n. n \<noteq> NULL \<longrightarrow> aligned n \<longrightarrow> n \<notin> ran m \<longrightarrow>
        (\<exists>t. hev_rbtree_insert n p lk (au_tree a) = Some t \<and> keyed rb_list user_cmp t ((user_name a)(n := name)) (insert n (ran m))))"
proof (cases "m name")
  case None
  then have "name \<notin> user_name a ` ran m" using name_in_map[OF a] by auto
  with users.keyed_insert[of "au_tree a" "user_name a" "ran m" name "au_cmp a name"] a au_cmp_key[OF a] None show ?thesis
    by (simp add: auth_rep_def)
next
  case (Some p)
  then have "p \<in> ran m" "user_name a p = name" using auth_user(2)[OF a] by (auto simp: ran_def)
  with users.keyed_found[of "au_tree a" "user_name a" "ran m" p "au_cmp a name"] a au_cmp_key[OF a] Some show ?thesis
    by (simp add: auth_rep_def)
qed

lemma get_user: "auth_rep a m \<Longrightarrow> hev_socks5_authenticator_get name a = Some (case m name of None \<Rightarrow> NULL | Some p \<Rightarrow> p)"
  using search_user[of a m name] by (auto simp: hev_socks5_authenticator_get_def split: option.splits)

lemma add_user:
  assumes a: "auth_rep a m" and u: "au_users a p = Some u" and p: "p \<noteq> NULL" "aligned p" "p \<notin> ran m"
  shows "case m (us_name u) of Some _ \<Rightarrow> hev_socks5_authenticator_add p a = Some (-1, a)
    | None \<Rightarrow> \<exists>a'. hev_socks5_authenticator_add p a = Some (0, a') \<and> auth_rep a' (m(us_name u \<mapsto> p)) \<and> au_users a' = au_users a"
proof (cases "m (us_name u)")
  case None
  with search_user[OF a, of "us_name u"] p obtain q lk t where s: "hev_rbtree_search (au_cmp a (us_name u)) (au_tree a) = Some (Missing q lk)"
    "hev_rbtree_insert p q lk (au_tree a) = Some t" "keyed rb_list user_cmp t ((user_name a)(p := us_name u)) (insert p (ran m))" by auto
  let ?a = "a\<lparr>au_tree := t\<rparr>"
  have "ran (m(us_name u \<mapsto> p)) = insert p (ran m)" using None by (rule ran_map_upd)
  moreover have "(user_name a)(p := us_name u) = user_name ?a" using u by (auto simp: user_name_def)
  ultimately have "auth_rep ?a (m(us_name u \<mapsto> p))" using s(3) a u by (auto simp: auth_rep_def)
  with None s(1,2) u show ?thesis by (simp add: hev_socks5_authenticator_add_def)
next
  case (Some q)
  with search_user[OF a, of "us_name u"] u show ?thesis by (simp add: hev_socks5_authenticator_add_def)
qed

lemma unref_users: "au_users a p = Some u \<Longrightarrow> user_unref p a = Some (a\<lparr>au_users := drop_refs {p} (au_users a)\<rparr>)"
proof -
  assume u: "au_users a p = Some u"
  have "(au_users a)(p := if us_refs u \<le> 1 then None else Some (u\<lparr>us_refs := us_refs u - 1\<rparr>)) = drop_refs {p} (au_users a)"
    using u by (auto simp: drop_refs_def fun_eq_iff)
  with u show ?thesis by (simp add: user_unref_def)
qed

lemma drop_refs_name: "drop_refs D U p = Some v \<Longrightarrow> \<exists>u. U p = Some u \<and> us_name v = us_name u \<and> us_pass v = us_pass u"
  by (auto simp: drop_refs_def split: if_splits option.splits)

lemma del_user:
  assumes a: "auth_rep a m"
  shows "case m name of None \<Rightarrow> hev_socks5_authenticator_del name a = Some (-1, a)
    | Some p \<Rightarrow> \<exists>a'. hev_socks5_authenticator_del name a = Some (0, a') \<and> auth_rep a' (m(name := None)) \<and>
        au_users a' = drop_refs {p} (au_users a)"
proof (cases "m name")
  case None
  with search_user[OF a, of name] show ?thesis by (auto simp: hev_socks5_authenticator_del_def)
next
  case (Some p)
  then have p: "p \<in> ran m" by (auto simp: ran_def)
  from auth_repD[OF a this] Some a obtain u where u: "au_users a p = Some u" by blast
  have "keyed rb_list user_cmp (au_tree a) (user_name a) (ran m)" using a by (simp add: auth_rep_def)
  from users.keyed_erase[OF this p] obtain t where t: "hev_rbtree_erase p (au_tree a) = Some t"
    "keyed rb_list user_cmp t (user_name a) (ran m - {p})" by blast
  let ?a = "a\<lparr>au_tree := t, au_users := drop_refs {p} (au_users a)\<rparr>"
  have k: "m k = Some p \<Longrightarrow> k = name" for k using auth_user(2)[OF a, of k p] auth_user(2)[OF a Some] by simp
  have r: "ran (m(name := None)) = ran m - {p}"
  proof (intro set_eqI iffI)
    fix x assume "x \<in> ran (m(name := None))"
    then obtain k' where "k' \<noteq> name" "m k' = Some x" by (auto simp: ran_def split: if_splits)
    with k[of k'] show "x \<in> ran m - {p}" by (auto simp: ran_def)
  next
    fix x assume "x \<in> ran m - {p}"
    then obtain k' where "m k' = Some x" "x \<noteq> p" by (auto simp: ran_def)
    with Some have "(m(name := None)) k' = Some x" by auto
    then show "x \<in> ran (m(name := None))" by (rule ranI)
  qed
  have n: "x \<in> ran m - {p} \<Longrightarrow> user_name ?a x = user_name a x" for x by (simp add: user_name_def drop_refs_def)
  have "keyed rb_list user_cmp t (user_name ?a) (ran m - {p})" by (rule keyed_cong[OF t(2) n])
  moreover have "(m(name := None)) k = Some q \<Longrightarrow> \<exists>v. au_users ?a q = Some v \<and> us_name v = k" for k q
    using auth_user(1)[OF a, of k q] k[of k] by (auto simp: drop_refs_def split: if_splits)
  ultimately have "auth_rep ?a (m(name := None))" by (simp add: auth_rep_def r)
  moreover have "hev_socks5_authenticator_del name a = Some (0, ?a)"
    using search_user[OF a, of name] Some t(1) unref_users[of "a\<lparr>au_tree := t\<rparr>" p u] u by (simp add: hev_socks5_authenticator_del_def)
  ultimately show ?thesis using Some by simp
qed

lemma clear_users:
  assumes "rb_list (au_tree a) xs" "\<forall>p \<in> set xs. au_users a p \<noteq> None"
  shows "\<exists>a'. hev_socks5_authenticator_clear a = Some a' \<and> rb_list (au_tree a') [] \<and> au_users a' = drop_refs (set xs) (au_users a)"
  using assms
proof (induction xs arbitrary: a)
  case Nil
  then show ?case using rb_list_first[of "au_tree a" "[]"]
    by (subst hev_socks5_authenticator_clear.simps) (auto simp: hd_or_null_def drop_refs_def)
next
  case (Cons p xs)
  from rb_list_erase[of "au_tree a" "[]" p xs] Cons.prems(1) obtain t where t: "hev_rbtree_erase p (au_tree a) = Some t" "rb_list t xs" by auto
  have p: "p \<noteq> NULL" "p \<notin> set xs" using rb_list_node[OF Cons.prems(1)] rb_list_distinct[OF Cons.prems(1)] by auto
  obtain u where u: "au_users a p = Some u" using Cons.prems(2) by auto
  let ?a = "a\<lparr>au_tree := t, au_users := drop_refs {p} (au_users a)\<rparr>"
  have "\<forall>x \<in> set xs. au_users ?a x \<noteq> None" using Cons.prems(2) p(2) by (auto simp: drop_refs_def)
  with Cons.IH[of ?a] t(2) obtain a' where i: "hev_socks5_authenticator_clear ?a = Some a'" "rb_list (au_tree a') []"
    "au_users a' = drop_refs (set xs) (drop_refs {p} (au_users a))" by auto
  have "drop_refs (set xs) (drop_refs {p} (au_users a)) = drop_refs (set (p # xs)) (au_users a)"
    using p(2) by (auto simp: drop_refs_def fun_eq_iff)
  moreover have "hev_socks5_authenticator_clear a = hev_socks5_authenticator_clear ?a"
    using rb_list_first[OF Cons.prems(1)] p(1) t(1) unref_users[of "a\<lparr>au_tree := t\<rparr>" p u] u
    by (subst hev_socks5_authenticator_clear.simps) (simp add: hd_or_null_def)
  ultimately show ?case using i by metis
qed

text \<open>C36: the authenticator is a finite map from names to users. A search returns the user of the name;
  adding a live user enters it, or is refused when the name is taken; deleting a name removes it and gives up
  the reference to its user; clearing gives up exactly one reference to every user.\<close>

theorem authenticator_implements_map:
  assumes a: "auth_rep a m"
  shows "hev_socks5_authenticator_get name a = Some (case m name of None \<Rightarrow> NULL | Some p \<Rightarrow> p) \<and>
    (au_users a p = Some u \<and> p \<noteq> NULL \<and> aligned p \<and> p \<notin> ran m \<longrightarrow>
      (case m (us_name u) of Some _ \<Rightarrow> hev_socks5_authenticator_add p a = Some (-1, a)
       | None \<Rightarrow> \<exists>a'. hev_socks5_authenticator_add p a = Some (0, a') \<and> auth_rep a' (m(us_name u \<mapsto> p)) \<and> au_users a' = au_users a)) \<and>
    (case m name of None \<Rightarrow> hev_socks5_authenticator_del name a = Some (-1, a)
     | Some q \<Rightarrow> \<exists>a'. hev_socks5_authenticator_del name a = Some (0, a') \<and> auth_rep a' (m(name := None)) \<and>
        au_users a' = drop_refs {q} (au_users a)) \<and>
    (\<exists>a'. hev_socks5_authenticator_clear a = Some a' \<and> auth_rep a' Map.empty \<and> au_users a' = drop_refs (ran m) (au_users a))"
proof -
  from a obtain xs where xs: "rb_list (au_tree a) xs" "set xs = ran m" by (auto simp: auth_rep_def keyed_def)
  then have "\<forall>p \<in> set xs. au_users a p \<noteq> None" using auth_repD[OF a] by auto
  from clear_users[OF xs(1) this] xs(2) obtain a' where c: "hev_socks5_authenticator_clear a = Some a'" "rb_list (au_tree a') []"
    "au_users a' = drop_refs (ran m) (au_users a)" by auto
  then have "auth_rep a' Map.empty" by (auto simp: auth_rep_def keyed_def)
  with c get_user[OF a] add_user[OF a, of p u] del_user[OF a, of name] show ?thesis by blast
qed

definition sample_users :: authenticator where
  "sample_users = \<lparr>au_tree = \<lparr>rb_root = NULL, rb_pcol = (\<lambda>_. 0), rb_child = (\<lambda>_ _. NULL)\<rparr>, au_users = Map.empty, au_refs = 0,
     au_allocq = [16, 48], au_mallocq = []\<rparr>"

lemma new_authenticator:
  assumes "hev_socks5_authenticator_new ok a = Some a'"
  shows "auth_rep a' Map.empty" "au_refs a' = 1" "au_users a' = au_users a"
proof -
  have t: "au_tree a' = (au_tree a)\<lparr>rb_root := NULL\<rparr>" "au_refs a' = 1" "au_users a' = au_users a"
    using assms by (auto simp: hev_socks5_authenticator_new_def hev_socks5_authenticator_construct_def split: if_splits)
  have "rb_list (au_tree a') []" unfolding t(1) rb_list_def rb_rep_def
    by (intro exI[of _ Leaf]) (simp add: rb_ok_def)
  then show "auth_rep a' Map.empty" "au_refs a' = 1" "au_users a' = au_users a"
    using t by (auto simp: auth_rep_def keyed_def)
qed

text \<open>A new user is live, holds one reference and has the name and the password that were given.\<close>

lemma new_user:
  assumes "hev_socks5_user_new name n pass w a = Some (p, a')" "p \<noteq> NULL" "auth_rep a m"
  shows "aligned p" "p \<notin> ran m" "au_users a p = None"
    "au_users a' = (au_users a)(p \<mapsto> \<lparr>us_name = take n name, us_pass = take w pass, us_refs = 1\<rparr>)" "auth_rep a' m"
proof -
  have p: "aligned p" "au_users a p = None"
    "au_users a' = (au_users a)(p \<mapsto> \<lparr>us_name = take n name, us_pass = take w pass, us_refs = 1\<rparr>)" "au_tree a' = au_tree a"
    using assms(1,2) by (auto simp: hev_socks5_user_new_def au_calloc_def hev_socks5_user_construct_def au_memdup_def rd_def split_beta Let_def
        Option.bind_eq_Some_conv split: if_splits)
  show "p \<notin> ran m" using auth_repD[OF assms(3), of p] p(2) by auto
  have "user_name a' x = user_name a x" if "x \<in> ran m" for x using that \<open>p \<notin> ran m\<close> p(3) by (auto simp: user_name_def)
  then have "keyed rb_list user_cmp (au_tree a) (user_name a') (ran m)" using assms(3) by (auto simp: auth_rep_def intro: keyed_cong)
  moreover have "m k = Some q \<Longrightarrow> \<exists>u. au_users a' q = Some u \<and> us_name u = k" for k q
    using auth_user(1)[OF assms(3), of k q] p(2,3) by auto
  ultimately show "auth_rep a' m" by (simp add: auth_rep_def p(4))
  show "aligned p" "au_users a p = None"
    "au_users a' = (au_users a)(p \<mapsto> \<lparr>us_name = take n name, us_pass = take w pass, us_refs = 1\<rparr>)" using p by simp_all
qed

text \<open>One user, \<open>u\<close> with the password \<open>pw\<close>, is entered, found, refused a second time, and removed.\<close>

theorem authenticator_implements_map_witness:
  "\<exists>a0 a1 a2 a3. hev_socks5_authenticator_new True sample_users = Some a0 \<and> hev_socks5_user_new [117] 1 [112, 119] 2 a0 = Some (16, a1) \<and>
     hev_socks5_authenticator_add 16 a1 = Some (0, a2) \<and> hev_socks5_authenticator_get [117] a2 = Some 16 \<and>
     hev_socks5_user_check 16 [112, 119] a2 = Some 0 \<and> hev_socks5_authenticator_del [117] a2 = Some (0, a3) \<and> au_users a3 16 = None"
proof -
  obtain a0 where a0: "hev_socks5_authenticator_new True sample_users = Some a0" "au_users a0 = Map.empty" "au_allocq a0 = [16, 48]"
    "au_mallocq a0 = []" by (simp add: hev_socks5_authenticator_new_def hev_socks5_authenticator_construct_def sample_users_def)
  from a0(2-4) obtain a1 where a1: "hev_socks5_user_new [117] 1 [112, 119] 2 a0 = Some (16, a1)"
    by (auto simp: hev_socks5_user_new_def au_calloc_def hev_socks5_user_construct_def au_memdup_def rd_def aligned_def Let_def)
  let ?u = "\<lparr>us_name = [117], us_pass = [112, 119], us_refs = 1\<rparr>"
  from new_user[OF a1 _ new_authenticator(1)[OF a0(1)]] have u: "aligned 16" "au_users a1 16 = Some ?u" "auth_rep a1 Map.empty" by simp_all
  from authenticator_implements_map[OF u(3), of _ 16 ?u] u(1,2) obtain a2 where a2: "hev_socks5_authenticator_add 16 a1 = Some (0, a2)"
    "auth_rep a2 [[117] \<mapsto> 16]" "au_users a2 = au_users a1" by auto
  from authenticator_implements_map[OF a2(2), of "[117]"] obtain a3 where "hev_socks5_authenticator_get [117] a2 = Some 16"
    "hev_socks5_authenticator_del [117] a2 = Some (0, a3)" "au_users a3 = drop_refs {16} (au_users a2)" by auto
  with a0(1) a1 a2 u(2) show ?thesis by (auto simp: hev_socks5_user_check_def checker_iff drop_refs_def)
qed

end
