(* ===== verification/Server.thy ===== *)
theory Server
  imports Socks5Client Authenticator
begin

text \<open>
  The SOCKS5 server of the library (core hev-socks5-server.c): the choice of the authentication method, the
  check of the credentials, the request, the connection or the sockets of a UDP association, and the reply.
  ServerRun shows what it does and that client and server understand each other.
\<close>

section \<open>SOCKS5 server (core hev-socks5-server.c)\<close>

subsection \<open>State\<close>

text \<open>
  The union at the end of \<open>HevSocks5Server\<close> holds a reference to the authenticator before the credentials are
  checked and one to the user after. \<open>srv_env\<close> is what a server uses besides the network: the authenticator
  with its users, and the results of \<open>getsockname\<close> (the name, None for an error), \<open>setsockopt (SO_REUSEADDR)\<close> and
  \<open>bind\<close>; \<open>se_bound\<close> records the sockets bound.
\<close>

datatype server_obj = NoObj | AuthObj | UserObj ptr

record hev_socks5_server = hev_socks5 +
  sv_fd0 :: int
  sv_fd1 :: int
  sv_obj :: server_obj

record srv_env =
  se_auth :: authenticator
  se_names :: "sockaddr6 option list"
  se_reuse :: "bool list"
  se_binds :: "bool list"
  se_bound :: "(int \<times> sockaddr6) list"

type_synonym server_state = "hev_socks5_server \<times> net \<times> srv_env"

abbreviation (input) HEV_SOCKS5_RES_REP_FAIL :: u8 where "HEV_SOCKS5_RES_REP_FAIL \<equiv> 1"
abbreviation (input) HEV_SOCKS5_RES_REP_HOST :: u8 where "HEV_SOCKS5_RES_REP_HOST \<equiv> 4"
abbreviation (input) HEV_SOCKS5_RES_REP_IMPL :: u8 where "HEV_SOCKS5_RES_REP_IMPL \<equiv> 7"
abbreviation (input) HEV_SOCKS5_RES_REP_ADDR :: u8 where "HEV_SOCKS5_RES_REP_ADDR \<equiv> 8"

definition upd_auth :: "(authenticator \<Rightarrow> authenticator option) \<Rightarrow> srv_env \<Rightarrow> srv_env option" where
  "upd_auth f x = map_option (\<lambda>a. x\<lparr>se_auth := a\<rparr>) (f (se_auth x))"

text \<open>\<open>hev_object_unref\<close> on what the union holds.\<close>

fun obj_unref :: "server_obj \<Rightarrow> srv_env \<Rightarrow> srv_env option" where
  "obj_unref NoObj x = Some x"
| "obj_unref AuthObj x = upd_auth auth_unref x"
| "obj_unref (UserObj p) x = upd_auth (user_unref p) x"

definition hev_socks5_server_set_auth :: "hev_socks5_server \<Rightarrow> srv_env \<Rightarrow> (hev_socks5_server \<times> srv_env) option" where
  "hev_socks5_server_set_auth self x = do {
     x \<leftarrow> obj_unref (sv_obj self) x;
     x \<leftarrow> upd_auth auth_ref x;
     Some (self\<lparr>sv_obj := AuthObj\<rparr>, x)
   }"

subsection \<open>Authentication\<close>

definition hev_socks5_server_read_auth_method :: "hev_socks5_server \<Rightarrow> net \<Rightarrow> (int \<times> net) option" where
  "hev_socks5_server_read_auth_method self w = do {
     (res, auth, w) \<leftarrow> net_recv (s5_timeout self) (s5_fd self) 2 True False w;
     if res \<noteq> 2 then Some (-1, w)
     else if auth ! 0 \<noteq> HEV_SOCKS5_VERSION_5 then Some (-1, w)
     else do {
       let method_len = unat (auth ! 1);
       (res, methods, w) \<leftarrow> net_recv (s5_timeout self) (s5_fd self) method_len True False w;
       if res \<noteq> int method_len then Some (-1, w)
       else let method = (if sv_obj self \<noteq> NoObj then HEV_SOCKS5_AUTH_METHOD_USER else HEV_SOCKS5_AUTH_METHOD_NONE) in
         Some (if method \<in> set methods then uint method else -1, w)
     }
   }"

definition hev_socks5_server_write_auth_method :: "hev_socks5_server \<Rightarrow> int \<Rightarrow> net \<Rightarrow> (int \<times> net) option" where
  "hev_socks5_server_write_auth_method self auth_method w = do {
     (res, w) \<leftarrow> net_send (s5_timeout self) (s5_fd self) [HEV_SOCKS5_VERSION_5, word_of_int auth_method] w;
     Some (if res \<le> 0 then -1 else 0, w)
   }"

definition hev_socks5_server_read_auth_user :: "hev_socks5_server \<Rightarrow> net \<Rightarrow> srv_env \<Rightarrow> (int \<times> server_state) option" where
  "hev_socks5_server_read_auth_user self w x = do {
     (res, head, w) \<leftarrow> net_recv (s5_timeout self) (s5_fd self) 2 True False w;
     if res \<noteq> 2 then Some (-1, self, w, x)
     else if head ! 0 \<noteq> 1 then Some (-1, self, w, x)
     else if head ! 1 = 0 then Some (-1, self, w, x)
     else do {
       let nlen = unat (head ! 1);
       (res, name, w) \<leftarrow> net_recv (s5_timeout self) (s5_fd self) (nlen + 1) True False w;
       if res \<noteq> int (nlen + 1) then Some (-1, self, w, x)
       else if name ! nlen = 0 then Some (-1, self, w, x)
       else do {
         let plen = unat (name ! nlen);
         (res, pass, w) \<leftarrow> net_recv (s5_timeout self) (s5_fd self) plen True False w;
         if res \<noteq> int plen then Some (-1, self, w, x)
         else do {
           check (sv_obj self = AuthObj);
           user \<leftarrow> hev_socks5_authenticator_get (take nlen name) (se_auth x);
           if user = NULL then Some (-1, self, w, x)
           else do {
             res \<leftarrow> hev_socks5_user_check user pass (se_auth x);
             if res < 0 then Some (-1, self, w, x)
             else do {
               x \<leftarrow> upd_auth (user_ref user) x;
               x \<leftarrow> obj_unref (sv_obj self) x;
               Some (0, self\<lparr>sv_obj := UserObj user\<rparr>, w, x)
             }
           }
         }
       }
     }
   }"

definition hev_socks5_server_write_auth_user :: "hev_socks5_server \<Rightarrow> int \<Rightarrow> net \<Rightarrow> (int \<times> net) option" where
  "hev_socks5_server_write_auth_user self auth_res w = do {
     (res, w) \<leftarrow> net_send (s5_timeout self) (s5_fd self) [1, word_of_int auth_res] w;
     Some (if res \<le> 0 then -1 else 0, w)
   }"

text \<open>\<open>res |= \<dots>\<close> of two results that are 0 or -1 is -1 unless both are 0.\<close>

definition hev_socks5_server_auth :: "hev_socks5_server \<Rightarrow> net \<Rightarrow> srv_env \<Rightarrow> (int \<times> server_state) option" where
  "hev_socks5_server_auth self w x = do {
     (method, w) \<leftarrow> hev_socks5_server_read_auth_method self w;
     (res, w) \<leftarrow> hev_socks5_server_write_auth_method self method w;
     if res < 0 then Some (-1, self, w, x)
     else if method = uint (HEV_SOCKS5_AUTH_METHOD_NONE :: u8) then Some (0, self, w, x)
     else if method = uint (HEV_SOCKS5_AUTH_METHOD_USER :: u8) then do {
       (res, self, w, x) \<leftarrow> hev_socks5_server_read_auth_user self w x;
       (res2, w) \<leftarrow> hev_socks5_server_write_auth_user self res w;
       Some (if res < 0 \<or> res2 < 0 then -1 else 0, self, w, x)
     } else Some (-1, self, w, x)
   }"

subsection \<open>Request and reply\<close>

text \<open>The result, the command, the reply code and the address; the last three keep their values where the
  code does not assign them. The second \<open>recv\<close> stores behind the two bytes of the address already read.\<close>

definition hev_socks5_server_read_request ::
  "resolver \<Rightarrow> u8 \<Rightarrow> u8 \<Rightarrow> sockaddr6 \<Rightarrow> hev_socks5_server \<Rightarrow> net \<Rightarrow>
    ((int \<times> u8 \<times> u8 \<times> sockaddr6) \<times> hev_socks5_server \<times> net) option" where
  "hev_socks5_server_read_request Rs cmd rep addr self w = do {
     (res, req, w) \<leftarrow> net_recv (s5_timeout self) (s5_fd self) 5 True False w;
     if res \<noteq> 5 then Some ((-1, cmd, rep, addr), self, w)
     else if req ! 0 \<noteq> HEV_SOCKS5_VERSION_5 then Some ((0, cmd, HEV_SOCKS5_RES_REP_FAIL, addr), self, w)
     else
       let atype = req ! 3;
           addrlen = (if atype = HEV_SOCKS5_ADDR_TYPE_IPV4 then Some 5
                      else if atype = HEV_SOCKS5_ADDR_TYPE_IPV6 then Some 17
                      else if atype = HEV_SOCKS5_ADDR_TYPE_NAME then Some (2 + unat (req ! 4))
                      else None)
       in case addrlen of
         None \<Rightarrow> Some ((0, cmd, HEV_SOCKS5_RES_REP_ADDR, addr), self, w)
       | Some addrlen \<Rightarrow> do {
           (res, rest, w) \<leftarrow> net_recv (s5_timeout self) (s5_fd self) addrlen True False w;
           if res \<noteq> int addrlen then Some ((0, cmd, HEV_SOCKS5_RES_REP_ADDR, addr), self, w)
           else do {
             (res, addr, family) \<leftarrow> hev_socks5_addr_into_sockaddr6 Rs (drop 3 req @ rest) addr (hev_socks5_get_addr_family self);
             if res < 0 then Some ((0, cmd, HEV_SOCKS5_RES_REP_ADDR, addr), self, w)
             else Some ((0, req ! 1, rep, addr), hev_socks5_set_addr_family family self, w)
           }
         }
   }"

text \<open>\<open>stack\<close> is what the local \<open>HevSocks5ReqRes\<close> holds.\<close>

definition hev_socks5_server_write_response ::
  "bytes \<Rightarrow> u8 \<Rightarrow> sockaddr6 \<Rightarrow> hev_socks5_server \<Rightarrow> net \<Rightarrow> (int \<times> net) option" where
  "hev_socks5_server_write_response stack rep addr self w = do {
     (ret, a) \<leftarrow> hev_socks5_addr_from_sockaddr6 stack addr;
     body \<leftarrow> rd a 0 (nat ret);
     (ret, w) \<leftarrow> net_send (s5_timeout self) (s5_fd self) ([HEV_SOCKS5_VERSION_5, rep, 0] @ body) w;
     Some (if ret \<le> 0 then -1 else 0, w)
   }"

subsection \<open>Connecting and binding\<close>

text \<open>The binder of the base class.\<close>

definition hev_socks5_server_connect ::
  "socks5_conf \<Rightarrow> sockaddr6 \<Rightarrow> hev_socks5_server \<Rightarrow> net \<Rightarrow> (int \<times> hev_socks5_server \<times> net) option" where
  "hev_socks5_server_connect conf addr self w = do {
     (fd, w) \<leftarrow> hev_socks5_socket conf SOCK_STREAM w;
     if fd < 0 then Some (-1, self, w)
     else if hev_socks5_bind self fd addr < 0 then do {
       w \<leftarrow> sys_close fd (hev_task_del_fd fd w);
       Some (-1, self, w)
     } else do {
       let self = hev_socks5_set_timeout (hev_socks5_get_connect_timeout conf) self;
       (res, w) \<leftarrow> net_connect (s5_timeout self) fd addr w;
       if res < 0 then do {
         w \<leftarrow> sys_close fd (hev_task_del_fd fd w);
         Some (-1, self, w)
       } else
         let self = hev_socks5_set_timeout (hev_socks5_get_tcp_timeout conf) self in
         Some (0, self\<lparr>sv_fd0 := fd\<rparr>, w)
     }
   }"

definition sys_getsockname :: "srv_env \<Rightarrow> sockaddr6 option \<times> srv_env" where
  "sys_getsockname x = (let (n, q) = pop (Some sockaddr6_zero) (se_names x) in (n, x\<lparr>se_names := q\<rparr>))"

definition hev_socks5_server_udp_bind ::
  "int \<Rightarrow> sockaddr6 \<Rightarrow> srv_env \<Rightarrow> int \<times> sockaddr6 \<times> srv_env" where
  "hev_socks5_server_udp_bind sock src x =
     (case sys_getsockname x of
        (None, x) \<Rightarrow> (-1, src, x)
      | (Some src, x) \<Rightarrow>
          let src = src\<lparr>sin6_port := 0\<rparr>; (ok, q) = pop True (se_binds x); x = x\<lparr>se_binds := q\<rparr> in
          if \<not> ok then (-1, src, x)
          else let x = x\<lparr>se_bound := se_bound x @ [(sock, src)]\<rparr> in
            (case sys_getsockname x of
               (None, x) \<Rightarrow> (-1, src, x)
             | (Some src, x) \<Rightarrow> (0, src, x)))"

text \<open>Without an address the association goes over the TCP connection and needs no second socket.\<close>

definition hev_socks5_server_bind ::
  "socks5_conf \<Rightarrow> sockaddr6 option \<Rightarrow> hev_socks5_server \<Rightarrow> net \<Rightarrow> srv_env \<Rightarrow>
    ((int \<times> sockaddr6 option) \<times> server_state) option" where
  "hev_socks5_server_bind conf addr self w x = do {
     (fd, w) \<leftarrow> hev_socks5_socket conf SOCK_DGRAM w;
     if fd < 0 then Some ((-1, addr), self, w, x)
     else let self = self\<lparr>sv_fd0 := fd\<rparr> in
       case addr of
         None \<Rightarrow> Some ((0, None), self, w, x)
       | Some src \<Rightarrow> do {
           (fd, w) \<leftarrow> hev_socks5_socket conf SOCK_DGRAM w;
           if fd < 0 then Some ((-1, Some src), self, w, x)
           else let (ok, q) = pop True (se_reuse x); x = x\<lparr>se_reuse := q\<rparr> in
             if \<not> ok then do {
               w \<leftarrow> sys_close fd (hev_task_del_fd fd w);
               Some ((-1, Some src), self, w, x)
             } else case hev_socks5_server_udp_bind fd src x of (res, src, x) \<Rightarrow>
               if res < 0 then do {
                 w \<leftarrow> sys_close fd (hev_task_del_fd fd w);
                 Some ((-1, Some src), self, w, x)
               } else Some ((0, Some src), self\<lparr>sv_fd1 := fd\<rparr>, w, x)
         }
   }"

subsection \<open>The handshake\<close>

text \<open>What the local variables hold before they are assigned: the address, the reply and the command.\<close>

record srv_stack =
  st_addr :: sockaddr6
  st_res :: bytes
  st_cmd :: u8

definition hev_socks5_server_dispatch ::
  "socks5_conf \<Rightarrow> u8 \<Rightarrow> sockaddr6 \<Rightarrow> hev_socks5_server \<Rightarrow> net \<Rightarrow> srv_env \<Rightarrow> ((u8 \<times> sockaddr6) \<times> server_state) option" where
  "hev_socks5_server_dispatch conf cmd addr self w x =
     (if cmd = HEV_SOCKS5_REQ_CMD_CONNECT then do {
        (res, self, w) \<leftarrow> hev_socks5_server_connect conf addr self w;
        Some ((if res < 0 then HEV_SOCKS5_RES_REP_HOST else HEV_SOCKS5_RES_REP_SUCC, addr),
          self\<lparr>s5_type := HEV_SOCKS5_TYPE_TCP\<rparr>, w, x)
      } else if cmd = HEV_SOCKS5_REQ_CMD_UDP_ASC then do {
        ((res, src), self, w, x) \<leftarrow> hev_socks5_server_bind conf (Some addr) self w x;
        addr \<leftarrow> src;
        Some ((if res < 0 then HEV_SOCKS5_RES_REP_FAIL else HEV_SOCKS5_RES_REP_SUCC, addr),
          self\<lparr>s5_type := HEV_SOCKS5_TYPE_UDP_IN_UDP\<rparr>, w, x)
      } else if cmd = HEV_SOCKS5_REQ_CMD_FWD_UDP then do {
        ((res, _), self, w, x) \<leftarrow> hev_socks5_server_bind conf None self w x;
        Some ((if res < 0 then HEV_SOCKS5_RES_REP_FAIL else HEV_SOCKS5_RES_REP_SUCC, addr),
          self\<lparr>s5_type := HEV_SOCKS5_TYPE_UDP_IN_TCP\<rparr>, w, x)
      } else Some ((HEV_SOCKS5_RES_REP_IMPL, addr), self, w, x))"

definition hev_socks5_server_handshake ::
  "resolver \<Rightarrow> socks5_conf \<Rightarrow> srv_stack \<Rightarrow> hev_socks5_server \<Rightarrow> net \<Rightarrow> srv_env \<Rightarrow> (int \<times> server_state) option" where
  "hev_socks5_server_handshake Rs conf st self w x = do {
     let self = hev_socks5_set_timeout (hev_socks5_get_tcp_timeout conf) self;
     (res, self, w, x) \<leftarrow> hev_socks5_server_auth self w x;
     if res < 0 then Some (-1, self, w, x)
     else do {
       ((res, cmd, rep, addr), self, w) \<leftarrow>
         hev_socks5_server_read_request Rs (st_cmd st) HEV_SOCKS5_RES_REP_SUCC (st_addr st) self w;
       if res < 0 then Some (-1, self, w, x)
       else do {
         ((rep, addr), self, w, x) \<leftarrow>
           (if rep = HEV_SOCKS5_RES_REP_SUCC then hev_socks5_server_dispatch conf cmd addr self w x
            else Some ((rep, addr), self, w, x));
         (res, w) \<leftarrow> hev_socks5_server_write_response (st_res st) rep addr self w;
         Some (if res < 0 \<or> rep \<noteq> HEV_SOCKS5_RES_REP_SUCC then -1 else 0, self, w, x)
       }
     }
   }"

subsection \<open>Life of the object\<close>

definition hev_socks5_server_get_fd :: "hev_socks5_server \<Rightarrow> int" where
  "hev_socks5_server_get_fd self =
     (case s5_type self of
        HEV_SOCKS5_TYPE_UDP_IN_TCP \<Rightarrow> s5_fd self
      | HEV_SOCKS5_TYPE_UDP_IN_UDP \<Rightarrow> sv_fd1 self
      | _ \<Rightarrow> -1)"

definition hev_socks5_server_construct :: "int \<Rightarrow> hev_socks5_server \<Rightarrow> int \<times> hev_socks5_server" where
  "hev_socks5_server_construct fd self =
     (case hev_socks5_construct HEV_SOCKS5_TYPE_NONE self of (res, self) \<Rightarrow>
      if res < 0 then (res, self)
      else (0, self\<lparr>s5_fd := fd, sv_fd0 := -1, sv_fd1 := -1\<rparr>))"

definition server_zero :: hev_socks5_server where
  "server_zero = \<lparr>s5_fd = 0, s5_timeout = 0, s5_udp_associated = False, s5_type = HEV_SOCKS5_TYPE_NONE,
     s5_family = AF_UNSPEC, sv_fd0 = 0, sv_fd1 = 0, sv_obj = NoObj\<rparr>"

definition hev_socks5_server_new :: "int \<Rightarrow> net \<Rightarrow> (hev_socks5_server option \<times> net) option" where
  "hev_socks5_server_new fd w = do {
     let (ok, w) = sys_malloc w;
     if \<not> ok then Some (None, w)
     else case hev_socks5_server_construct fd server_zero of (res, self) \<Rightarrow>
       if res < 0 then do {
         w \<leftarrow> hev_free w;
         Some (None, w)
       } else Some (Some self, w)
   }"

definition hev_socks5_server_destruct :: "hev_socks5_server \<Rightarrow> net \<Rightarrow> srv_env \<Rightarrow> (net \<times> srv_env) option" where
  "hev_socks5_server_destruct self w x = do {
     w \<leftarrow> (if 0 \<le> sv_fd0 self then sys_close (sv_fd0 self) (hev_task_del_fd (sv_fd0 self) w) else Some w);
     w \<leftarrow> (if 0 \<le> sv_fd1 self then sys_close (sv_fd1 self) (hev_task_del_fd (sv_fd1 self) w) else Some w);
     x \<leftarrow> obj_unref (sv_obj self) x;
     w \<leftarrow> hev_socks5_destruct self w;
     Some (w, x)
   }"

end
