(* ===== verification/ServerRun.thy ===== *)
theory ServerRun
  imports Server "HOL-Library.Multiset"
begin

text \<open>
  What the SOCKS5 server does: which bytes it reads and writes in a handshake, that it only lets users in who are known
  to its authenticator, that a client of the library and the server complete the handshake with each other, what it sends
  after a request it rejects, and that it gives back its sockets and references whatever happens.
\<close>

section \<open>Runs of the server\<close>

subsection \<open>The steps\<close>

abbreviation srv_in :: "hev_socks5_server \<Rightarrow> net \<Rightarrow> bytes" where
  "srv_in s w \<equiv> net_in (s5_timeout s) (s5_fd s) w"

abbreviation srv_step :: "hev_socks5_server \<Rightarrow> bytes \<Rightarrow> bytes \<Rightarrow> net \<Rightarrow> net \<Rightarrow> bool" where
  "srv_step s out inp w w' \<equiv> io_step (s5_timeout s) (s5_fd s) out inp w w'"

abbreviation srv_ready :: "hev_socks5_server \<Rightarrow> net \<Rightarrow> bool" where
  "srv_ready s w \<equiv> s5_fd s \<in> set (fds w) \<and> net_tx_fine (s5_timeout s) (s5_fd s) w"

lemma srv_ready_step: "srv_ready s w \<Longrightarrow> srv_step s out inp w w' \<Longrightarrow> srv_ready s w'"
  using io_stepD(3,4) by metis

text \<open>The method a server insists on.\<close>

definition srv_method :: "hev_socks5_server \<Rightarrow> u8" where
  "srv_method s = (if sv_obj s = NoObj then 0 else 2)"

lemma read_auth_method_run:
  assumes "s5_fd s \<in> set (fds w)" "srv_in s w = [5, n] @ ms @ rest" "length ms = unat n" "ms \<noteq> []"
  shows "\<exists>w'. hev_socks5_server_read_auth_method s w = Some (if srv_method s \<in> set ms then uint (srv_method s) else -1, w') \<and>
    srv_step s [] ([5, n] @ ms) w w'"
proof -
  from net_recv_step[OF assms(1,2), of 2] obtain w1 where a: "net_recv (s5_timeout s) (s5_fd s) 2 True False w = Some (2, [5, n], w1)"
    "srv_step s [] [5, n] w w1" "srv_in s w1 = ms @ rest" by auto
  have "s5_fd s \<in> set (fds w1)" using assms(1) io_stepD(4)[OF a(2)] by simp
  moreover have "0 < unat n" using assms(3,4) by (metis length_greater_0_conv)
  ultimately obtain w2 where
    b: "net_recv (s5_timeout s) (s5_fd s) (unat n) True False w1 = Some (int (unat n), ms, w2)" "srv_step s [] ms w1 w2"
    using net_recv_step[OF _ a(3) assms(3)] by blast
  from io_step_trans[OF a(2) b(2)] a(1) b(1) show ?thesis
    by (simp add: hev_socks5_server_read_auth_method_def srv_method_def)
qed

lemma write_two_run:
  assumes "srv_ready s w"
  shows "\<exists>w'. hev_socks5_server_write_auth_method s m w = Some (0, w') \<and> srv_step s [5, word_of_int m] [] w w'"
    "\<exists>w'. hev_socks5_server_write_auth_user s m w = Some (0, w') \<and> srv_step s [1, word_of_int m] [] w w'"
  using net_send_step[of "s5_fd s" w "s5_timeout s" "[5, word_of_int m]"] net_send_step[of "s5_fd s" w "s5_timeout s" "[1, word_of_int m]"] assms
  by (auto simp: hev_socks5_server_write_auth_method_def hev_socks5_server_write_auth_user_def)

text \<open>The credentials of RFC 1929 on the wire.\<close>

definition creds_bytes :: "bytes \<Rightarrow> bytes \<Rightarrow> bytes" where
  "creds_bytes u p = 1 # word_of_nat (length u) # u @ word_of_nat (length p) # p"

lemma len_byte_nonzero: "0 < length xs \<Longrightarrow> length xs < 256 \<Longrightarrow> (word_of_nat (length xs) :: u8) \<noteq> 0"
  using unat_len_byte[of "length xs"] by (metis less_not_refl unat_0)

text \<open>The reading part of \<open>read_auth_user\<close>, whatever the credentials.\<close>

definition check_creds :: "bytes \<Rightarrow> bytes \<Rightarrow> hev_socks5_server \<Rightarrow> net \<Rightarrow> srv_env \<Rightarrow> (int \<times> server_state) option" where
  "check_creds u p self w x = do {
     check (sv_obj self = AuthObj);
     user \<leftarrow> hev_socks5_authenticator_get u (se_auth x);
     if user = NULL then Some (-1, self, w, x)
     else do {
       res \<leftarrow> hev_socks5_user_check user p (se_auth x);
       if res < 0 then Some (-1, self, w, x)
       else do {
         x \<leftarrow> upd_auth (user_ref user) x;
         x \<leftarrow> obj_unref (sv_obj self) x;
         Some (0, self\<lparr>sv_obj := UserObj user\<rparr>, w, x)
       }
     }
   }"

lemma read_auth_user_run:
  assumes fd: "s5_fd s \<in> set (fds w)" and i: "srv_in s w = creds_bytes u p @ rest"
    and l: "0 < length u" "length u < 256" "0 < length p" "length p < 256"
  shows "\<exists>w'. hev_socks5_server_read_auth_user s w x = check_creds u p s w' x \<and> srv_step s [] (creds_bytes u p) w w'"
proof -
  let ?n = "word_of_nat (length u) :: u8" and ?k = "word_of_nat (length p) :: u8"
  have n: "unat ?n = length u" "unat ?k = length p" "?n \<noteq> 0" "?k \<noteq> 0"
    using unat_len_byte[OF l(2)] unat_len_byte[OF l(4)] len_byte_nonzero[OF l(1,2)] len_byte_nonzero[OF l(3,4)] by auto
  have "srv_in s w = [1, ?n] @ (u @ [?k]) @ p @ rest" using i by (simp add: creds_bytes_def)
  from net_recv_step[OF fd this, of 2] obtain w1 where a: "net_recv (s5_timeout s) (s5_fd s) 2 True False w = Some (2, [1, ?n], w1)"
    "srv_step s [] [1, ?n] w w1" "srv_in s w1 = (u @ [?k]) @ p @ rest" by auto
  have f1: "s5_fd s \<in> set (fds w1)" using fd io_stepD(4)[OF a(2)] by simp
  from net_recv_step[OF f1 a(3), of "length u + 1"] obtain w2 where
    b: "net_recv (s5_timeout s) (s5_fd s) (length u + 1) True False w1 = Some (int (length u + 1), u @ [?k], w2)"
    "srv_step s [] (u @ [?k]) w1 w2" "srv_in s w2 = p @ rest" by auto
  have f2: "s5_fd s \<in> set (fds w2)" using f1 io_stepD(4)[OF b(2)] by simp
  from net_recv_step[OF f2 b(3) refl l(3)] obtain w3 where
    c: "net_recv (s5_timeout s) (s5_fd s) (length p) True False w2 = Some (int (length p), p, w3)" "srv_step s [] p w2 w3" by auto
  have "srv_step s [] (creds_bytes u p) w w3"
    using io_step_trans[OF io_step_trans[OF a(2) b(2)] c(2)] by (simp add: creds_bytes_def)
  moreover have "hev_socks5_server_read_auth_user s w x = check_creds u p s w3 x"
    using a(1) b(1) c(1) n by (simp add: hev_socks5_server_read_auth_user_def check_creds_def nth_append)
  ultimately show ?thesis by blast
qed

text \<open>A server that knows a user \<open>u\<close> with the password \<open>p\<close>; the reference the server holds is one of
  those to the authenticator.\<close>

definition knows_user :: "srv_env \<Rightarrow> bytes \<Rightarrow> bytes \<Rightarrow> ptr \<Rightarrow> bool" where
  "knows_user x u p q \<longleftrightarrow> (\<exists>m v. auth_rep (se_auth x) m \<and> m u = Some q \<and> au_users (se_auth x) q = Some v \<and> us_pass v = p \<and>
     0 < us_refs v) \<and> 0 < au_refs (se_auth x)"

lemma user_ref_rep:
  assumes "auth_rep a m" "au_users a q = Some v"
  shows "auth_rep (a\<lparr>au_users := (au_users a)(q \<mapsto> v\<lparr>us_refs := k\<rparr>)\<rparr>) m"
proof -
  let ?a = "a\<lparr>au_users := (au_users a)(q \<mapsto> v\<lparr>us_refs := k\<rparr>)\<rparr>"
  have n: "user_name ?a = user_name a" using assms(2) by (auto simp: user_name_def fun_eq_iff)
  have "keyed rb_list user_cmp (au_tree ?a) (user_name ?a) (ran m)" using assms(1) by (simp add: auth_rep_def n)
  moreover have "m k' = Some y \<Longrightarrow> \<exists>u. au_users ?a y = Some u \<and> us_name u = k'" for k' y
    using auth_user(1)[OF assms(1), of k' y] assms(2) by auto
  ultimately show ?thesis by (simp add: auth_rep_def)
qed

lemma rep_refs [simp]: "auth_rep (a\<lparr>au_refs := r\<rparr>) m = auth_rep a m"
  by (simp add: auth_rep_def user_name_def[abs_def])

lemma auth_unref_rep:
  assumes a: "auth_rep a m" and r: "0 < au_refs a"
  shows "\<exists>a'. auth_unref a = Some a' \<and>
    (if au_refs a = 1 then au_users a' = drop_refs (ran m) (au_users a) else au_users a' = au_users a \<and> auth_rep a' m)"
proof (cases "au_refs a = 1")
  case True
  let ?a = "a\<lparr>au_refs := 0\<rparr>"
  have m: "auth_rep ?a m" using a by simp
  then obtain xs where xs: "rb_list (au_tree ?a) xs" "set xs = ran m" by (auto simp: auth_rep_def keyed_def)
  then have "\<forall>p \<in> set xs. au_users ?a p \<noteq> None" using auth_repD[OF m] by auto
  from clear_users[OF xs(1) this] xs(2) True show ?thesis
    by (auto simp: auth_unref_def hev_socks5_authenticator_destruct_def)
next
  case False
  with r a show ?thesis by (auto simp: auth_unref_def Let_def)
qed

lemma user_not_null: "auth_rep a m \<Longrightarrow> m u = Some q \<Longrightarrow> q \<noteq> NULL"
  using users.keyed_node[of "au_tree a" "user_name a" "ran m" q] by (auto simp: auth_rep_def ran_def)

lemma check_creds_accepts:
  assumes k: "knows_user x u p q" and s: "sv_obj s = AuthObj"
  shows "\<exists>x' v. check_creds u p s w x = Some (0, s\<lparr>sv_obj := UserObj q\<rparr>, w, x') \<and>
    au_users (se_auth x') q = Some v \<and> us_name v = u \<and> us_pass v = p \<and> 0 < us_refs v"
proof -
  from k obtain m v where m: "auth_rep (se_auth x) m" "m u = Some q" "au_users (se_auth x) q = Some v" "us_pass v = p" "0 < us_refs v"
    "0 < au_refs (se_auth x)" by (auto simp: knows_user_def)
  let ?v = "v\<lparr>us_refs := us_refs v + 1\<rparr>" and ?a = "(se_auth x)\<lparr>au_users := (au_users (se_auth x))(q \<mapsto> v\<lparr>us_refs := us_refs v + 1\<rparr>)\<rparr>"
  have a: "auth_rep ?a m" "0 < au_refs ?a" using user_ref_rep[OF m(1,3)] m(6) by simp_all
  from auth_unref_rep[OF a] obtain a' where u: "auth_unref ?a = Some a'"
    "if au_refs ?a = 1 then au_users a' = drop_refs (ran m) (au_users ?a) else au_users a' = au_users ?a" by (auto split: if_splits)
  have "au_users ?a q = Some ?v" by simp
  then have "\<exists>v'. au_users a' q = Some v' \<and> us_name v' = us_name v \<and> us_pass v' = us_pass v \<and> 0 < us_refs v'"
    using u(2) m(5) by (cases "au_refs ?a = 1") (auto simp: drop_refs_def)
  moreover have "us_name v = u" using auth_user(1)[OF m(1,2)] m(3) by simp
  moreover have "hev_socks5_user_check q p (se_auth x) = Some 0"
    using m(3,4) checker_iff[of v p] by (simp add: hev_socks5_user_check_def)
  ultimately show ?thesis using get_user[OF m(1), of u] m(2,3,4) user_not_null[OF m(1,2)] u(1) s
    by (auto simp: check_creds_def upd_auth_def user_ref_def)
qed

text \<open>In every case the check says who is known.\<close>

lemma check_creds_sound:
  assumes m: "auth_rep (se_auth x) m" and c: "check_creds u p s w x = Some (0, s', w', x')"
  shows "\<exists>q v. m u = Some q \<and> au_users (se_auth x) q = Some v \<and> us_pass v = p \<and> s' = s\<lparr>sv_obj := UserObj q\<rparr> \<and> w' = w"
proof -
  have o: "sv_obj s = AuthObj" using c by (simp add: check_creds_def split: if_splits)
  show ?thesis
  proof (cases "m u")
    case None
    with get_user[OF m, of u] c show ?thesis by (simp add: check_creds_def split: if_splits)
  next
    case (Some q)
  from auth_user(1)[OF m Some] obtain v where v: "au_users (se_auth x) q = Some v" by blast
  then have ck: "hev_socks5_user_check q p (se_auth x) = Some (hev_socks5_user_checker v p)" by (simp add: hev_socks5_user_check_def)
  have z: "hev_socks5_user_checker v p = 0"
    using get_user[OF m, of u] Some ck user_not_null[OF m Some] c checker_cases[of v p] o by (auto simp: check_creds_def)
  then have "us_pass v = p" by (simp add: checker_iff)
  with get_user[OF m, of u] Some v ck z user_not_null[OF m Some] c o show ?thesis
    by (auto simp: check_creds_def Option.bind_eq_Some_conv)
qed
qed


lemma auth_run:
  assumes r: "srv_ready s w"
    and i: "srv_in s w = ([5, word_of_nat (length ms)] @ ms) @ (if sv_obj s = NoObj then [] else creds_bytes u p) @ rest"
    and ms: "srv_method s \<in> set ms" "length ms < 256"
    and o: "sv_obj s = NoObj \<or> sv_obj s = AuthObj \<and> knows_user x u p q \<and> 0 < length u \<and> length u < 256 \<and> 0 < length p \<and> length p < 256"
  shows "\<exists>w' x' b. hev_socks5_server_auth s w x = Some (0, s\<lparr>sv_obj := b\<rparr>, w', x') \<and>
    srv_step s (auth_reply (srv_method s)) (([5, word_of_nat (length ms)] @ ms) @ (if sv_obj s = NoObj then [] else creds_bytes u p)) w w' \<and>
    (if sv_obj s = NoObj then b = NoObj \<and> x' = x
     else b = UserObj q \<and> (\<exists>v. au_users (se_auth x') q = Some v \<and> us_name v = u \<and> us_pass v = p \<and> 0 < us_refs v))"
proof -
  have l: "length ms = unat (word_of_nat (length ms) :: u8)" using unat_len_byte[OF ms(2)] by simp
  have "srv_in s w = [5, word_of_nat (length ms)] @ ms @ (if sv_obj s = NoObj then [] else creds_bytes u p) @ rest" using i by simp
  from read_auth_method_run[OF conjunct1[OF r] this l] ms(1) obtain w1 where
    a: "hev_socks5_server_read_auth_method s w = Some (uint (srv_method s), w1)"
    "srv_step s [] ([5, word_of_nat (length ms)] @ ms) w w1" by (cases ms) auto
  note r1 = srv_ready_step[OF r a(2)]
  from write_two_run(1)[OF r1, of "uint (srv_method s)"] obtain w2 where
    b: "hev_socks5_server_write_auth_method s (uint (srv_method s)) w1 = Some (0, w2)" "srv_step s [5, srv_method s] [] w1 w2" by auto
  note r2 = srv_ready_step[OF r1 b(2)]
  have i2: "srv_in s w2 = (if sv_obj s = NoObj then [] else creds_bytes u p) @ rest"
    using io_step_rest[OF b(2)] io_step_rest[OF a(2) i] by simp
  note t2 = io_step_trans[OF a(2) b(2)]
  show ?thesis
  proof (cases "sv_obj s = NoObj")
    case True
    then have "hev_socks5_server_auth s w x = Some (0, s, w2, x)" "srv_method s = 0"
      using a(1) b(1) by (simp_all add: hev_socks5_server_auth_def srv_method_def)
    with t2 True show ?thesis by (intro exI[of _ w2] exI[of _ x] exI[of _ NoObj]) (simp add: auth_reply_def)
  next
    case False
    with o have k: "knows_user x u p q" "sv_obj s = AuthObj" "0 < length u" "length u < 256" "0 < length p" "length p < 256" by auto
    have i3: "srv_in s w2 = creds_bytes u p @ rest" using i2 False by simp
    from read_auth_user_run[OF conjunct1[OF r2] i3 k(3-6), of x] obtain w3 where
      c: "hev_socks5_server_read_auth_user s w2 x = check_creds u p s w3 x" "srv_step s [] (creds_bytes u p) w2 w3" by blast
    from check_creds_accepts[OF k(1,2), of w3] obtain x' v where
      d: "check_creds u p s w3 x = Some (0, s\<lparr>sv_obj := UserObj q\<rparr>, w3, x')" "au_users (se_auth x') q = Some v" "us_name v = u"
      "us_pass v = p" "0 < us_refs v" by blast
    have r3: "srv_ready (s\<lparr>sv_obj := UserObj q\<rparr>) w3" using srv_ready_step[OF r2 c(2)] by simp
    from write_two_run(2)[OF r3, of 0] obtain w4 where
      e: "hev_socks5_server_write_auth_user (s\<lparr>sv_obj := UserObj q\<rparr>) 0 w3 = Some (0, w4)" "srv_step s [1, 0] [] w3 w4" by auto
    have m: "srv_method s = 2" using False by (simp add: srv_method_def)
    have "hev_socks5_server_auth s w x = Some (0, s\<lparr>sv_obj := UserObj q\<rparr>, w4, x')"
      using a(1) b(1) c(1) d(1) e(1) m by (simp add: hev_socks5_server_auth_def)
    moreover have "srv_step s (auth_reply (srv_method s)) (([5, word_of_nat (length ms)] @ ms) @ creds_bytes u p) w w4"
      using io_step_trans[OF io_step_trans[OF t2 c(2)] e(2)] m by (simp add: auth_reply_def)
    ultimately show ?thesis using False d(2-5)
      by (intro exI[of _ w4] exI[of _ x'] exI[of _ "UserObj q"]) simp
  qed
qed

lemma read_request_run:
  assumes fd: "s5_fd s \<in> set (fds w)" and i: "srv_in s w = request_msg cmd a @ rest" and a: "wf_addr a"
    and res: "hev_socks5_addr_into_sockaddr6 Rs (encode_addr a) addr (s5_family s) = Some (r, sa, f)"
  shows "\<exists>w'. hev_socks5_server_read_request Rs cmd0 rep addr s w =
      Some (if r < 0 then ((0, cmd0, 8, sa), s, w') else ((0, cmd, rep, sa), s\<lparr>s5_family := f\<rparr>, w')) \<and>
    srv_step s [] (request_msg cmd a) w w'"
proof -
  obtain t y body where enc: "encode_addr a = t # y # body"
    and n: "t = 1 \<and> length body = 5 \<or> t = 4 \<and> length body = 17 \<or> t = 3 \<and> length body = 2 + unat y"
  proof (cases a)
    case (SA_IPv4 ip q)
    with a obtain b ip' where "ip = b # ip'" "length ip' = 3" by (cases ip) auto
    with SA_IPv4 that[of 1 b "ip' @ be16 q"] show ?thesis by simp
  next
    case (SA_IPv6 ip q)
    with a obtain b ip' where "ip = b # ip'" "length ip' = 15" by (cases ip) auto
    with SA_IPv6 that[of 4 b "ip' @ be16 q"] show ?thesis by simp
  next
    case (SA_Name n q)
    with a have "length n < 256" by simp
    from SA_Name unat_len_byte[OF this] that[of 3 "word_of_nat (length n)" "n @ be16 q"] show ?thesis by simp
  qed
  have i1: "srv_in s w = [5, cmd, 0, t, y] @ body @ rest" using i by (simp add: request_msg_def enc)
  from net_recv_step[OF fd i1, of 5] obtain w1 where b: "net_recv (s5_timeout s) (s5_fd s) 5 True False w = Some (5, [5, cmd, 0, t, y], w1)"
    "srv_step s [] [5, cmd, 0, t, y] w w1" "srv_in s w1 = body @ rest" by auto
  have f1: "s5_fd s \<in> set (fds w1)" using fd io_stepD(4)[OF b(2)] by simp
  have "0 < length body" using n by auto
  from net_recv_step[OF f1 b(3) refl this] obtain w2 where
    c: "net_recv (s5_timeout s) (s5_fd s) (length body) True False w1 = Some (int (length body), body, w2)" "srv_step s [] body w1 w2" by auto
  have "srv_step s [] (request_msg cmd a) w w2" using io_step_trans[OF b(2) c(2)] by (simp add: request_msg_def enc)
  moreover have "hev_socks5_server_read_request Rs cmd0 rep addr s w =
      Some (if r < 0 then ((0, cmd0, 8, sa), s, w2) else ((0, cmd, rep, sa), s\<lparr>s5_family := f\<rparr>, w2))"
    using n
    by (elim disjE conjE)
      (use b(1) c(1) res[unfolded enc] in \<open>simp_all add: hev_socks5_server_read_request_def Let_def hev_socks5_get_addr_family_def
        hev_socks5_set_addr_family_def\<close>)
  ultimately show ?thesis by blast
qed

text \<open>The address of a reply.\<close>

definition addr_of :: "sockaddr6 \<Rightarrow> socks_addr" where
  "addr_of sa = (if in6_is_addr_v4mapped (sin6_addr sa) then SA_IPv4 (drop 12 (sin6_addr sa)) (htons (sin6_port sa))
     else SA_IPv6 (sin6_addr sa) (htons (sin6_port sa)))"


lemma from_sockaddr6_run:
  assumes "length stack = addr_size" "length (sin6_addr sa) = 16"
  shows "\<exists>r. hev_socks5_addr_from_sockaddr6 stack sa = Some (int (length (encode_addr (addr_of sa))), encode_addr (addr_of sa) @ r)"
  using assms store16_htons[of "htons (sin6_port sa)"]
  by (auto simp: hev_socks5_addr_from_sockaddr6_def addr_of_def wr_def rd_def splice_at_def)

lemma write_response_run:
  assumes "srv_ready s w" "length stack = addr_size" "length (sin6_addr sa) = 16"
  shows "\<exists>w'. hev_socks5_server_write_response stack rep sa s w = Some (0, w') \<and>
    srv_step s ([5, rep, 0] @ encode_addr (addr_of sa)) [] w w'"
proof -
  from from_sockaddr6_run[OF assms(2,3)] obtain r where f: "hev_socks5_addr_from_sockaddr6 stack sa =
    Some (int (length (encode_addr (addr_of sa))), encode_addr (addr_of sa) @ r)" by blast
  from net_send_step[of "s5_fd s" w "s5_timeout s" "[5, rep, 0] @ encode_addr (addr_of sa)"] assms(1) obtain w' where
    "net_send (s5_timeout s) (s5_fd s) ([5, rep, 0] @ encode_addr (addr_of sa)) w = Some (int (length ([5, rep, 0] @ encode_addr (addr_of sa))), w')"
    "srv_step s ([5, rep, 0] @ encode_addr (addr_of sa)) [] w w'" by auto
  with f show ?thesis by (simp add: hev_socks5_server_write_response_def rd_def)
qed

text \<open>All finite timeouts make the same environment fine.\<close>

lemma io_wait_eq: "0 \<le> t \<Longrightarrow> 0 \<le> t' \<Longrightarrow> io_wait t = io_wait t'"
  by (auto simp: fun_eq_iff)

definition same_but_fds :: "net \<Rightarrow> net \<Rightarrow> bool" where
  "same_but_fds w w' \<longleftrightarrow> fds w' = fds w \<and> polled w' = polled w \<and> sk w' = sk w \<and> conns w' = conns w \<and> blocks w' = blocks w"

lemma connect_run:
  assumes ok: "net_ok w" and t: "0 \<le> connect_timeout conf"
  shows "\<exists>r s' w'. hev_socks5_server_connect conf sa s w = Some (r, s', w') \<and>
    (r = -1 \<and> same_but_fds w w' \<and> (s' = s \<or> s' = s\<lparr>s5_timeout := connect_timeout conf\<rparr>) \<or>
     r = 0 \<and> (\<exists>fd. connected fd sa w w' \<and> blocks w' = blocks w \<and> s' = s\<lparr>s5_timeout := tcp_timeout conf, sv_fd0 := fd\<rparr>))"
proof (rule hev_socks5_socket_cases[OF ok, of conf SOCK_STREAM])
  fix w' assume "hev_socks5_socket conf SOCK_STREAM w = Some (-1, w')" "fds w' = fds w" "polled w' = polled w" "fd_frame w w'"
  then show ?thesis by (simp add: hev_socks5_server_connect_def same_but_fds_def fd_frame_def)
next
  fix fd w1
  assume o: "hev_socks5_socket conf SOCK_STREAM w = Some (fd, w1)" "0 \<le> fd" "fd \<notin> set (fds w)" "fds w1 = fd # fds w"
    "polled w1 = fd # polled w" "net_ok w1" "fd_frame w w1"
  have np: "fd \<notin> set (polled w)" using ok o(3) by (auto simp: net_ok_def)
  obtain r w2 where c: "net_connect (connect_timeout conf) fd sa w1 = Some (r, w2)" "r \<le> 0" by (rule net_connect_returns[OF t])
  note cc = net_connect_cases[OF c(1)]
  from close_opened[of w2 fd "fds w" "polled w"] cc o(4,5) np obtain u
    where u: "sys_close fd (hev_task_del_fd fd w2) = Some u" "fds u = fds w" "polled u = polled w" "fd_frame w2 u" by auto
  have b: "blocks w2 = blocks w1" using c(1) by (auto simp: net_connect_def Let_def split_beta Option.bind_eq_Some_conv)
  show ?thesis
  proof (cases "r < 0")
    case True
    with o c cc u b show ?thesis
      by (auto simp: hev_socks5_server_connect_def hev_socks5_bind_def hev_socks5_set_timeout_def hev_socks5_get_connect_timeout_def
          same_but_fds_def fd_frame_def)
  next
    case False
    then have "r = 0" using c(2) by simp
    moreover have "connected fd sa w w2" using o cc \<open>r = 0\<close> by (simp add: connected_def fd_frame_def net_ok_def)
    ultimately show ?thesis using o c b
      by (auto simp: hev_socks5_server_connect_def hev_socks5_bind_def hev_socks5_set_timeout_def hev_socks5_get_connect_timeout_def
          hev_socks5_get_tcp_timeout_def fd_frame_def)
  qed
qed

text \<open>A step read with another finite timeout.\<close>

lemma io_step_timeout: "0 \<le> t \<Longrightarrow> 0 \<le> t' \<Longrightarrow> io_step t fd out inp w w' = io_step t' fd out inp w w'"
  using io_wait_eq[of t t'] by (simp add: io_step_def)

text \<open>What a client sends up to and including a request, for a server that wants the method \<open>m\<close>.\<close>

definition auth_input :: "u8 \<Rightarrow> bytes \<Rightarrow> bytes \<Rightarrow> bytes \<Rightarrow> bytes" where
  "auth_input m ms u p = ([5, word_of_nat (length ms)] @ ms) @ (if m = 0 then [] else creds_bytes u p)"

text \<open>The server lets the client in.\<close>

definition admits :: "hev_socks5_server \<Rightarrow> srv_env \<Rightarrow> bytes \<Rightarrow> bytes \<Rightarrow> bytes \<Rightarrow> ptr \<Rightarrow> bool" where
  "admits s x ms u p q \<longleftrightarrow> srv_method s \<in> set ms \<and> length ms < 256 \<and>
     (sv_obj s = NoObj \<or> sv_obj s = AuthObj \<and> knows_user x u p q \<and> 0 < length u \<and> length u < 256 \<and> 0 < length p \<and> length p < 256)"

definition stack_ok :: "srv_stack \<Rightarrow> bool" where
  "stack_ok st \<longleftrightarrow> length (sin6_addr (st_addr st)) = 16 \<and> length (st_res st) = addr_size"

text \<open>The handshake up to the request.\<close>

lemma handshake_to_request:
  assumes ad: "admits s x ms u p q" and T: "s1 = s\<lparr>s5_timeout := tcp_timeout conf\<rparr>" and r: "srv_ready s1 w"
    and i: "srv_in s1 w = auth_input (srv_method s) ms u p @ request_msg cmd a @ rest" and a: "wf_addr a"
    and res: "hev_socks5_addr_into_sockaddr6 Rs (encode_addr a) (st_addr st) (s5_family s) = Some (k, sa, f)"
  shows "\<exists>w2 x2 b. io_step (tcp_timeout conf) (s5_fd s) (auth_reply (srv_method s)) (auth_input (srv_method s) ms u p @ request_msg cmd a) w w2 \<and>
    hev_socks5_server_handshake Rs conf st s w x =
      (if k < 0 then Some ((8, sa), s1\<lparr>sv_obj := b\<rparr>, w2, x2)
       else hev_socks5_server_dispatch conf cmd sa (s1\<lparr>sv_obj := b, s5_family := f\<rparr>) w2 x2) \<bind> (\<lambda>((rep, addr), self, w, x). do {
        (res, w) \<leftarrow> hev_socks5_server_write_response (st_res st) rep addr self w;
        Some (if res < 0 \<or> rep \<noteq> HEV_SOCKS5_RES_REP_SUCC then -1 else 0, self, w, x)
      }) \<and>
    (if sv_obj s = NoObj then b = NoObj \<and> x2 = x
     else b = UserObj q \<and> (\<exists>v. au_users (se_auth x2) q = Some v \<and> us_name v = u \<and> us_pass v = p \<and> 0 < us_refs v))"
proof -
  have m: "srv_method s1 = srv_method s" "sv_obj s1 = sv_obj s" "s5_timeout s1 = tcp_timeout conf" "s5_fd s1 = s5_fd s" "s5_family s1 = s5_family s"
    by (simp_all add: T srv_method_def)
  have ii: "srv_in s1 w = ([5, word_of_nat (length ms)] @ ms) @ (if sv_obj s1 = NoObj then [] else creds_bytes u p) @ request_msg cmd a @ rest"
    using i by (simp add: auth_input_def srv_method_def m)
  from auth_run[OF r ii, of x q] ad obtain w1 x1 b where h: "hev_socks5_server_auth s1 w x = Some (0, s1\<lparr>sv_obj := b\<rparr>, w1, x1)"
    "srv_step s1 (auth_reply (srv_method s)) (auth_input (srv_method s) ms u p) w w1"
    "if sv_obj s = NoObj then b = NoObj \<and> x1 = x
     else b = UserObj q \<and> (\<exists>v. au_users (se_auth x1) q = Some v \<and> us_name v = u \<and> us_pass v = p \<and> 0 < us_refs v)"
    by (auto simp: admits_def m auth_input_def srv_method_def)
  let ?s = "s1\<lparr>sv_obj := b\<rparr>"
  have r1: "s5_fd ?s \<in> set (fds w1)" using srv_ready_step[OF r h(2)] by simp
  have "srv_in s1 w1 = request_msg cmd a @ rest" by (rule io_step_rest[OF h(2) i])
  then have i1: "srv_in ?s w1 = request_msg cmd a @ rest" by simp
  have rs: "hev_socks5_addr_into_sockaddr6 Rs (encode_addr a) (st_addr st) (s5_family ?s) = Some (k, sa, f)" using res m by simp
  from read_request_run[OF r1 i1 a rs, of "st_cmd st" 0] obtain w2 where
    q: "hev_socks5_server_read_request Rs (st_cmd st) 0 (st_addr st) ?s w1 =
      Some (if k < 0 then ((0, st_cmd st, 8, sa), ?s, w2) else ((0, cmd, 0, sa), ?s\<lparr>s5_family := f\<rparr>, w2))"
    "srv_step ?s [] (request_msg cmd a) w1 w2" by blast
  have "io_step (tcp_timeout conf) (s5_fd s) (auth_reply (srv_method s)) (auth_input (srv_method s) ms u p @ request_msg cmd a) w w2"
    using io_step_trans[OF h(2), of "[]" "request_msg cmd a" w2] q(2) by (simp add: m)
  moreover have "hev_socks5_set_timeout (hev_socks5_get_tcp_timeout conf) s = s1"
    by (simp add: T hev_socks5_set_timeout_def hev_socks5_get_tcp_timeout_def)
  ultimately show ?thesis using h(1,3) q(1)
    by (intro exI[of _ w2] exI[of _ x1] exI[of _ b]) (cases "k < 0"; simp add: hev_socks5_server_handshake_def)
qed

lemma into_sockaddr6_length:
  assumes R: "resolver_ok Rs" and l: "length (sin6_addr a0) = 16" and i: "hev_socks5_addr_into_sockaddr6 Rs b a0 f = Some (k, sa, f')"
  shows "length (sin6_addr sa) = 16"
proof -
  have name: "length (sin6_addr sa') = 16" if "hev_socks5_name_into_sockaddr6 Rs n p a0 f = Some (k', sa', g)" for n p k' sa' g
    using name_into_sockaddr6_defined[OF R l, of n p f] that by auto
  from i show ?thesis using l
    by (auto simp: hev_socks5_addr_into_sockaddr6_def hev_socks5_ipv4_into_sockaddr6_def hev_socks5_ipv6_into_sockaddr6_def
        Option.bind_eq_Some_conv Let_def split: if_splits dest!: length_wr dest: name)
qed

text \<open>When the system refuses nothing, the connection stands.\<close>

definition quiet :: "net \<Rightarrow> bool" where
  "quiet w \<longleftrightarrow> socketq w = [] \<and> sockoptq w = [] \<and> connq w = []"

lemma connect_quiet:
  assumes "quiet w" "hev_socks5_server_connect conf sa s w = Some (r, s', w')"
  shows "r = 0"
  using assms lowest_free(2)[of "fds w"]
  by (auto simp: quiet_def hev_socks5_server_connect_def hev_socks5_socket_def hev_task_io_socket_socket_def sys_setsockopt_def
      hev_task_add_fd_def hev_socks5_bind_def net_connect_def Let_def split_beta Option.bind_eq_Some_conv split: if_splits)

text \<open>A server that admits the client answers the authentication with its method and its consent, reads exactly the
  request and connects one new socket to the address the destination resolves to. It reports success, and the address, only
  when the connection stands; otherwise it answers with the error and leaves no descriptor behind. What follows the
  request stays unread for the tunnelled stream.\<close>

lemma server_handshake_connect:
  assumes ad: "admits s x ms u p q" and ok: "net_ok w" and t: "0 \<le> connect_timeout conf" "0 \<le> tcp_timeout conf"
    and fd: "s5_fd s \<in> set (fds w)" "net_tx_fine (tcp_timeout conf) (s5_fd s) w"
    and i: "net_in (tcp_timeout conf) (s5_fd s) w = auth_input (srv_method s) ms u p @ request_msg HEV_SOCKS5_REQ_CMD_CONNECT a @ rest"
    and a: "wf_addr a" and R: "resolver_ok Rs" and st: "stack_ok st"
    and res: "hev_socks5_addr_into_sockaddr6 Rs (encode_addr a) (st_addr st) (s5_family s) = Some (0, sa, f)"
  shows "\<exists>r s' w' x'. hev_socks5_server_handshake Rs conf st s w x = Some (r, s', w', x') \<and> s5_fd s' = s5_fd s \<and>
    net_in (tcp_timeout conf) (s5_fd s) w' = rest \<and> s5_type s' = HEV_SOCKS5_TYPE_TCP \<and> (quiet w \<longrightarrow> r = 0) \<and>
    (r = 0 \<and> net_out (s5_fd s) w' = net_out (s5_fd s) w @ auth_reply (srv_method s) @ request_reply 0 (addr_of sa) \<and>
       sv_fd0 s' \<notin> set (fds w) \<and> fds w' = sv_fd0 s' # fds w \<and> conns w' = conns w @ [(sv_fd0 s', sa)] \<or>
     r = -1 \<and> net_out (s5_fd s) w' = net_out (s5_fd s) w @ auth_reply (srv_method s) @ [5, 4, 0] @ encode_addr (addr_of sa) \<and>
       fds w' = fds w \<and> conns w' = conns w \<and> sv_fd0 s' = sv_fd0 s)"
proof -
  let ?T = "tcp_timeout conf" and ?F = "s5_fd s" and ?s1 = "s\<lparr>s5_timeout := tcp_timeout conf\<rparr>" and ?m = "srv_method s"
  have r: "srv_ready ?s1 w" "srv_in ?s1 w = auth_input ?m ms u p @ request_msg 1 a @ rest" using fd i by simp_all
  from handshake_to_request[OF ad refl r a res] obtain w2 x2 b where
    h: "io_step ?T ?F (auth_reply ?m) (auth_input ?m ms u p @ request_msg 1 a) w w2"
    "hev_socks5_server_handshake Rs conf st s w x = hev_socks5_server_dispatch conf 1 sa (?s1\<lparr>sv_obj := b, s5_family := f\<rparr>) w2 x2 \<bind>
      (\<lambda>((rep, addr), self, w, x). do {
        (res, w) \<leftarrow> hev_socks5_server_write_response (st_res st) rep addr self w;
        Some (if res < 0 \<or> rep \<noteq> HEV_SOCKS5_RES_REP_SUCC then -1 else 0, self, w, x)
      })" by (auto simp: not_less)
  let ?s2 = "?s1\<lparr>sv_obj := b, s5_family := f\<rparr>"
  have n2: "net_ok w2" using ok io_stepD(4,5)[OF h(1)] by (simp add: net_ok_def)
  have f2: "?F \<in> set (fds w2)" "net_tx_fine ?T ?F w2" "net_in ?T ?F w2 = rest"
    using fd io_stepD(3,4)[OF h(1)] io_step_rest[OF h(1), of rest] i by simp_all
  have o2: "net_out ?F w2 = net_out ?F w @ auth_reply ?m" "fds w2 = fds w" "conns w2 = conns w" "polled w2 = polled w"
    using io_stepD[OF h(1)] by (auto simp: io_step_def)
  have l: "length (sin6_addr sa) = 16" using into_sockaddr6_length[OF R _ res] st by (simp add: stack_ok_def)
  have sl: "length (st_res st) = addr_size" using st by (simp add: stack_ok_def)
  from connect_run[OF n2 t(1), of sa ?s2] obtain k s3 w3 where c: "hev_socks5_server_connect conf sa ?s2 w2 = Some (k, s3, w3)"
    "k = -1 \<and> same_but_fds w2 w3 \<and> (s3 = ?s2 \<or> s3 = ?s2\<lparr>s5_timeout := connect_timeout conf\<rparr>) \<or>
     k = 0 \<and> (\<exists>fd. connected fd sa w2 w3 \<and> blocks w3 = blocks w2 \<and> s3 = ?s2\<lparr>s5_timeout := ?T, sv_fd0 := fd\<rparr>)" by blast
  let ?s4 = "s3\<lparr>s5_type := HEV_SOCKS5_TYPE_TCP\<rparr>"
  have s3: "s5_fd s3 = ?F" "0 \<le> s5_timeout s3" using c(2) t by auto
  have w3: "?F \<in> set (fds w3)" "sk w3 = sk w2" using c(2) f2(1) by (auto simp: same_but_fds_def connected_def)
  have tx: "io_wait (s5_timeout s3) = io_wait ?T" by (rule io_wait_eq[OF s3(2) t(2)])
  have r4: "srv_ready ?s4 w3" using w3 f2(2) s3(1) tx by simp
  let ?rep = "if k < 0 then 4 else 0 :: u8"
  from write_response_run[OF r4 sl l, of ?rep] obtain w4 where
    e: "hev_socks5_server_write_response (st_res st) ?rep sa ?s4 w3 = Some (0, w4)"
    "io_step (s5_timeout s3) ?F ([5, ?rep, 0] @ encode_addr (addr_of sa)) [] w3 w4" using s3(1) by auto
  have run: "hev_socks5_server_handshake Rs conf st s w x = Some (if k < 0 then -1 else 0, ?s4, w4, x2)"
    using h(2) c(1) e(1) by (cases "k < 0") (simp_all add: hev_socks5_server_dispatch_def)
  note e' = e(2)[unfolded io_step_timeout[OF s3(2) t(2)]]
  have w4: "net_out ?F w4 = net_out ?F w @ auth_reply ?m @ [5, ?rep, 0] @ encode_addr (addr_of sa)" "net_in ?T ?F w4 = rest"
    "fds w4 = fds w3" "conns w4 = conns w3"
    using io_stepD(1,2,4)[OF e'] o2(1) w3(2) f2(3) io_stepD(9)[OF e'] by auto
  have "quiet w2" if "quiet w" using that h(1) by (auto simp: quiet_def io_step_def)
  with connect_quiet[OF _ c(1)] have "quiet w \<longrightarrow> k = 0" by blast
  note qw = this
  show ?thesis
  proof (cases "k < 0")
    case True
    then have c': "same_but_fds w2 w3" "sv_fd0 s3 = sv_fd0 s" using c(2) by auto
    with True qw run w4 o2 s3(1) show ?thesis by (simp add: same_but_fds_def)
  next
    case False
    with c(2) obtain fd where c': "connected fd sa w2 w3" "sv_fd0 s3 = fd" by auto
    with False qw run w4 o2 s3(1) show ?thesis by (simp add: connected_def request_reply_def)
  qed
qed

subsection \<open>What a result proves about the client\<close>

lemma recv_nothing: "task_recv_loop y 0 True False [] k = Some (r, bs, k') \<Longrightarrow> bs = []"
proof (induction "length (rxq k)" arbitrary: k rule: less_induct)
  case less
  note d = less.prems[unfolded task_recv_loop.simps[of y 0 True False "[]" k]]
  obtain g k1 where g: "sys_recv 0 k = (g, k1)" by fastforce
  show ?case
  proof (cases g)
    case (SysOk b)
    then have "b = []" using g by (auto simp: sys_recv_def split: list.splits rx_ev.splits)
    with d g SysOk show ?thesis by simp
  next
    case (SysAgain n)
    show ?thesis
    proof (cases "y n \<or> rxq k = []")
      case True
      with d g SysAgain show ?thesis by (auto split: if_splits)
    next
      case False
      with d g SysAgain have "task_recv_loop y 0 True False [] k1 = Some (r, bs, k')" by (simp split: if_splits)
      with less.hyps[of k1] sys_recv_again_shrinks[of 0 k n k1] g SysAgain False show ?thesis by blast
    qed
  next
    case SysErr
    with d g show ?thesis by simp
  qed
qed

lemma srv_read_method_any:
  assumes "hev_socks5_server_read_auth_method s w = Some (r, w')" "0 \<le> r"
  shows "\<exists>ms. r = uint (srv_method s) \<and> srv_method s \<in> set ms \<and> length ms < 256 \<and>
    srv_in s w = ([5, word_of_nat (length ms)] @ ms) @ srv_in s w'"
proof -
  from assms(1) obtain k bs w1 where k: "net_recv (s5_timeout s) (s5_fd s) 2 True False w = Some (k, bs, w1)"
    by (auto simp: hev_socks5_server_read_auth_method_def Option.bind_eq_Some_conv)
  with assms have h: "k = int 2" "bs ! 0 = 5" by (auto simp: hev_socks5_server_read_auth_method_def split: if_splits)
  from net_recv_any(3)[OF k] h(1) have b: "length bs = 2" "srv_in s w = bs @ srv_in s w1" by auto
  from list_2[OF b(1)] h(2) obtain n where n: "bs = [5, n]" by auto
  from assms k h n obtain j ms w2 where j: "net_recv (s5_timeout s) (s5_fd s) (unat n) True False w1 = Some (j, ms, w2)"
    by (auto simp: hev_socks5_server_read_auth_method_def Option.bind_eq_Some_conv)
  with assms k h n have f: "j = int (unat n)" "srv_method s \<in> set ms" "r = uint (srv_method s)" "w' = w2"
    by (auto simp: hev_socks5_server_read_auth_method_def srv_method_def Let_def split: if_splits)
  have z: "0 < unat n"
  proof (rule ccontr)
    assume "\<not> ?thesis"
    then have "net_recv (s5_timeout s) (s5_fd s) 0 True False w1 = Some (j, ms, w2)" using j by simp
    then have "ms = []"
      by (auto simp: net_recv_def hev_task_io_socket_recv_def Option.bind_eq_Some_conv split: if_splits dest: recv_nothing)
    with f(2) show False by simp
  qed
  from net_recv_any(3)[OF j z f(1)] have m: "length ms = unat n" "srv_in s w1 = ms @ srv_in s w2" by auto
  have "word_of_nat (length ms) = n" "length ms < 256" using m(1) unat_u8_less[of n] by simp_all
  with f b(2) n m(2) show ?thesis by (intro exI[of _ ms]) simp
qed

lemma srv_write_any:
  "hev_socks5_server_write_auth_method s m w = Some (r, w') \<Longrightarrow> srv_in s w' = srv_in s w"
  "hev_socks5_server_write_auth_user s m w = Some (r, w') \<Longrightarrow> srv_in s w' = srv_in s w"
  by (auto simp: hev_socks5_server_write_auth_method_def hev_socks5_server_write_auth_user_def Option.bind_eq_Some_conv
      simp del: io_wait_iff dest!: net_send_any(2))

lemma srv_read_user_any:
  assumes "hev_socks5_server_read_auth_user s w x = Some (r, s', w', x')" "0 \<le> r"
  shows "\<exists>u p. length u < 256 \<and> length p < 256 \<and> 0 < length u \<and> 0 < length p \<and> check_creds u p s w' x = Some (r, s', w', x') \<and>
    srv_in s w = creds_bytes u p @ srv_in s w'"
proof -
  note run = assms(1)[unfolded hev_socks5_server_read_auth_user_def Let_def]
  from run obtain k bs w1 where k: "net_recv (s5_timeout s) (s5_fd s) 2 True False w = Some (k, bs, w1)"
    by (auto simp: Option.bind_eq_Some_conv)
  with run assms(2) have h: "k = int 2" "bs ! 0 = 1" "bs ! 1 \<noteq> 0" by (auto split: if_splits)
  from net_recv_any(3)[OF k] h(1) have b: "length bs = 2" "srv_in s w = bs @ srv_in s w1" by auto
  from list_2[OF b(1)] h(2,3) obtain n where n: "bs = [1, n]" "n \<noteq> 0" by auto
  from run k h n obtain j nm w2 where j: "net_recv (s5_timeout s) (s5_fd s) (unat n + 1) True False w1 = Some (j, nm, w2)"
    by (auto simp: Option.bind_eq_Some_conv)
  with run k h n assms(2) have f: "j = int (unat n + 1)" "nm ! unat n \<noteq> 0" by (auto split: if_splits)
  from net_recv_any(3)[OF j _ f(1)] have c: "length nm = unat n + 1" "srv_in s w1 = nm @ srv_in s w2" by auto
  let ?k = "nm ! unat n"
  have nm: "nm = take (unat n) nm @ [?k]" using c(1) by (metis id_take_nth_drop lessI Suc_eq_plus1 drop_all order_refl)
  from run k h n j f obtain l p w3 where l: "net_recv (s5_timeout s) (s5_fd s) (unat ?k) True False w2 = Some (l, p, w3)"
    by (auto simp: Option.bind_eq_Some_conv)
  with run k h n j f assms(2) have g: "l = int (unat ?k)" by (auto split: if_splits)
  have kz: "0 < unat ?k" "0 < unat n" using f(2) n(2) by (simp_all add: unat_gt_0)
  from net_recv_any(3)[OF l kz(1) g] have e: "length p = unat ?k" "srv_in s w2 = p @ srv_in s w3" by auto
  have ck: "check_creds (take (unat n) nm) p s w3 x = Some (r, s', w', x')"
    using run k h n j f l g by (simp add: check_creds_def)
  have w': "w' = w3" using ck by (auto simp: check_creds_def Option.bind_eq_Some_conv split: if_splits)
  have lu: "length (take (unat n) nm) = unat n" using c(1) by simp
  have "srv_in s w = creds_bytes (take (unat n) nm) p @ srv_in s w3"
    using b(2) n(1) c(2) nm e lu by (simp add: creds_bytes_def)
  with ck w' e(1) lu unat_u8_less[of n] unat_u8_less[of ?k] kz show ?thesis
    by (intro exI[of _ "take (unat n) nm"] exI[of _ p]) simp
qed

lemma connect_obj:
  "hev_socks5_server_connect conf sa s w = Some (r, s', w') \<Longrightarrow> sv_obj s' = sv_obj s"
  by (auto simp: hev_socks5_server_connect_def hev_socks5_set_timeout_def Option.bind_eq_Some_conv Let_def split: if_splits)

lemma bind_obj:
  assumes "hev_socks5_server_bind conf sa s w x = Some (r, s', w', x')"
  shows "sv_obj s' = sv_obj s"
proof (cases sa)
  case None
  with assms show ?thesis by (auto simp: hev_socks5_server_bind_def Option.bind_eq_Some_conv Let_def split: if_splits)
next
  case (Some src)
  note run = assms[unfolded hev_socks5_server_bind_def Some option.case Let_def]
  from run obtain fd w1 where a: "hev_socks5_socket conf SOCK_DGRAM w = Some (fd, w1)" by (auto simp: Option.bind_eq_Some_conv)
  show ?thesis
  proof (cases "fd < 0")
    case True
    with run a show ?thesis by simp
  next
    case False
    with run a obtain fd2 w2 where b: "hev_socks5_socket conf SOCK_DGRAM w1 = Some (fd2, w2)" by (auto simp: Option.bind_eq_Some_conv)
    obtain ok q where q: "pop True (se_reuse x) = (ok, q)" by fastforce
    obtain k src2 x2 where u: "hev_socks5_server_udp_bind fd2 src (x\<lparr>se_reuse := q\<rparr>) = (k, src2, x2)" by (metis prod_cases3)
    show ?thesis
    proof (cases "fd2 < 0 \<or> \<not> ok \<or> k < 0")
      case True
      with run a b q u False show ?thesis by (cases "fd2 < 0"; cases ok; cases "k < 0") (simp_all add: Option.bind_eq_Some_conv, auto)
    next
      case nz: False
      then have "s' = s\<lparr>sv_fd0 := fd, sv_fd1 := fd2\<rparr>" using run a b q u False by simp
      then show ?thesis by simp
    qed
  qed
qed

lemma dispatch_obj:
  assumes "hev_socks5_server_dispatch conf cmd sa s w x = Some (r, s', w', x')"
  shows "sv_obj s' = sv_obj s"
proof -
  consider "cmd = 1" | "cmd = 3" | "cmd = 5" | "cmd \<noteq> 1" "cmd \<noteq> 3" "cmd \<noteq> 5" by blast
  then show ?thesis
    using assms by cases (auto simp: hev_socks5_server_dispatch_def Option.bind_eq_Some_conv dest!: connect_obj bind_obj)
qed

lemma read_request_obj:
  "hev_socks5_server_read_request Rs cmd rep sa s w = Some (r, s', w') \<Longrightarrow> sv_obj s' = sv_obj s"
  by (auto simp: hev_socks5_server_read_request_def hev_socks5_set_addr_family_def Option.bind_eq_Some_conv Let_def
      split: if_splits option.splits)

text \<open>C6: with an authenticator, a handshake returns 0 only for a client that has offered the method and sent the name of a
  user together with that user's password, whatever the environment; the server then holds that user.\<close>

theorem server_admits_only_users:
  assumes h: "hev_socks5_server_handshake Rs conf st s w x = Some (0, s', w', x')" and o: "sv_obj s = AuthObj"
    and m: "auth_rep (se_auth x) m"
  shows "\<exists>ms u p q v rest. net_in (tcp_timeout conf) (s5_fd s) w = auth_input 2 ms u p @ rest \<and> 2 \<in> set ms \<and>
    m u = Some q \<and> au_users (se_auth x) q = Some v \<and> us_pass v = p \<and> sv_obj s' = UserObj q"
proof -
  let ?s = "s\<lparr>s5_timeout := tcp_timeout conf\<rparr>"
  have t: "hev_socks5_set_timeout (hev_socks5_get_tcp_timeout conf) s = ?s"
    by (simp add: hev_socks5_set_timeout_def hev_socks5_get_tcp_timeout_def)
  from h t obtain r1 s1 w1 x1 where a: "hev_socks5_server_auth ?s w x = Some (r1, s1, w1, x1)" "0 \<le> r1"
    by (auto simp: hev_socks5_server_handshake_def Option.bind_eq_Some_conv split: if_splits)
  have k: "sv_obj s' = sv_obj s1"
  proof -
    from h t a obtain r2 cmd rep sa s2 w2 where b: "hev_socks5_server_read_request Rs (st_cmd st) 0 (st_addr st) s1 w1 =
        Some ((r2, cmd, rep, sa), s2, w2)" "0 \<le> r2"
      by (auto simp: hev_socks5_server_handshake_def Option.bind_eq_Some_conv split: if_splits)
    with h t a obtain rep3 sa3 s3 w3 x3 where c: "(if rep = 0 then hev_socks5_server_dispatch conf cmd sa s2 w2 x1 else Some ((rep, sa), s2, w2, x1)) =
        Some ((rep3, sa3), s3, w3, x3)" "sv_obj s' = sv_obj s3"
      by (auto simp: hev_socks5_server_handshake_def Option.bind_eq_Some_conv)
    with read_request_obj[OF b(1)] show ?thesis by (auto dest: dispatch_obj split: if_splits)
  qed
  from a obtain r2 w2 where b: "hev_socks5_server_read_auth_method ?s w = Some (r2, w2)"
    by (auto simp: hev_socks5_server_auth_def Option.bind_eq_Some_conv)
  have m2: "srv_method ?s = 2" using o by (simp add: srv_method_def)
  from a b obtain r3 w3 where c: "hev_socks5_server_write_auth_method ?s r2 w2 = Some (r3, w3)" "0 \<le> r3"
    by (auto simp: hev_socks5_server_auth_def Option.bind_eq_Some_conv split: if_splits)
  have r2: "0 \<le> r2" using a b c by (auto simp: hev_socks5_server_auth_def split: if_splits)
  from srv_read_method_any[OF b r2] m2 obtain ms where d: "r2 = 2" "2 \<in> set ms" "length ms < 256"
    "srv_in ?s w = ([5, word_of_nat (length ms)] @ ms) @ srv_in ?s w2" by auto
  from a b c d(1) obtain r4 s4 w4 x4 where e: "hev_socks5_server_read_auth_user ?s w3 x = Some (r4, s4, w4, x4)" "0 \<le> r4" "s1 = s4"
    by (auto simp: hev_socks5_server_auth_def Option.bind_eq_Some_conv split: if_splits)
  from srv_read_user_any[OF e(1,2)] obtain u p where f: "check_creds u p ?s w4 x = Some (r4, s4, w4, x4)"
    "srv_in ?s w3 = creds_bytes u p @ srv_in ?s w4" by blast
  have "r4 = 0" using f(1) e(2) by (auto simp: check_creds_def Option.bind_eq_Some_conv split: if_splits)
  with check_creds_sound[OF m, of u p ?s w4 s4 w4 x4] f(1) obtain q v where g: "m u = Some q" "au_users (se_auth x) q = Some v" "us_pass v = p"
    "s4 = ?s\<lparr>sv_obj := UserObj q\<rparr>" by auto
  have "net_in (tcp_timeout conf) (s5_fd s) w = auth_input 2 ms u p @ srv_in ?s w4"
    using d(4) f(2) srv_write_any(1)[OF c(1)] by (simp add: auth_input_def)
  moreover have "sv_obj s' = UserObj q" using k e(3) g(4) by simp
  ultimately show ?thesis using d(2) g(1-3) by blast
qed

subsection \<open>Client and server\<close>





text \<open>C35: a request with an address type the server does not know is answered with 18 or 6 bytes that nothing has written: the
  reply encodes the local variable of the address, which only a successful request fills in.\<close>

theorem server_error_reply_leaks_stack:
  assumes ad: "admits s x ms u p q" and st: "stack_ok st"
    and fd: "s5_fd s \<in> set (fds w)" "net_tx_fine (tcp_timeout conf) (s5_fd s) w"
    and i: "net_in (tcp_timeout conf) (s5_fd s) w = auth_input (srv_method s) ms u p @ [5, cmd, z, t, y] @ rest"
    and t: "t \<noteq> 1" "t \<noteq> 3" "t \<noteq> 4"
  shows "\<exists>s' w' x'. hev_socks5_server_handshake Rs conf st s w x = Some (-1, s', w', x') \<and>
    net_out (s5_fd s) w' = net_out (s5_fd s) w @ auth_reply (srv_method s) @ [5, 8, 0] @ encode_addr (addr_of (st_addr st))"
proof -
  let ?s1 = "s\<lparr>s5_timeout := tcp_timeout conf\<rparr>" and ?m = "srv_method s"
  have r: "srv_ready ?s1 w" using fd by simp
  have ii: "srv_in ?s1 w = ([5, word_of_nat (length ms)] @ ms) @ (if sv_obj ?s1 = NoObj then [] else creds_bytes u p) @ [5, cmd, z, t, y] @ rest"
    using i by (simp add: auth_input_def srv_method_def)
  from auth_run[OF r ii, of x q] ad obtain w1 x1 b where h: "hev_socks5_server_auth ?s1 w x = Some (0, ?s1\<lparr>sv_obj := b\<rparr>, w1, x1)"
    "srv_step ?s1 (auth_reply ?m) (auth_input ?m ms u p) w w1" by (auto simp: admits_def auth_input_def srv_method_def)
  let ?s = "?s1\<lparr>sv_obj := b\<rparr>"
  have r1: "srv_ready ?s w1" using srv_ready_step[OF r h(2)] by simp
  have "srv_in ?s1 w1 = [5, cmd, z, t, y] @ rest" using io_step_rest[OF h(2)] i by simp
  then have "srv_in ?s w1 = [5, cmd, z, t, y] @ rest" by simp
  from net_recv_step[OF conjunct1[OF r1] this, of 5] obtain w2 where
    b: "net_recv (s5_timeout ?s) (s5_fd ?s) 5 True False w1 = Some (5, [5, cmd, z, t, y], w2)" "srv_step ?s [] [5, cmd, z, t, y] w1 w2" by auto
  have q: "hev_socks5_server_read_request Rs (st_cmd st) 0 (st_addr st) ?s w1 = Some ((0, st_cmd st, 8, st_addr st), ?s, w2)"
    using b(1) t by (simp add: hev_socks5_server_read_request_def)
  have r2: "srv_ready ?s w2" by (rule srv_ready_step[OF r1 b(2)])
  from write_response_run[OF r2, of "st_res st" "st_addr st" 8] st obtain w3 where
    e: "hev_socks5_server_write_response (st_res st) 8 (st_addr st) ?s w2 = Some (0, w3)"
    "srv_step ?s ([5, 8, 0] @ encode_addr (addr_of (st_addr st))) [] w2 w3" by (auto simp: stack_ok_def)
  have "hev_socks5_set_timeout (hev_socks5_get_tcp_timeout conf) s = ?s1"
    by (simp add: hev_socks5_set_timeout_def hev_socks5_get_tcp_timeout_def)
  then have "hev_socks5_server_handshake Rs conf st s w x = Some (-1, ?s, w3, x1)"
    using h(1) q e(1) by (simp add: hev_socks5_server_handshake_def)
  moreover have "net_out (s5_fd s) w3 = net_out (s5_fd s) w @ auth_reply ?m @ [5, 8, 0] @ encode_addr (addr_of (st_addr st))"
    using io_stepD(1)[OF e(2)] io_stepD(1)[OF b(2)] io_stepD(1)[OF h(2)] by simp
  ultimately show ?thesis by blast
qed

subsection \<open>What the server owns\<close>



























subsection \<open>Examples\<close>

text \<open>An environment whose authenticator has the user ``u'' with the password ``pw''.\<close>

lemma sample_knows:
  obtains x q m where "knows_user x [117] [112, 119] q" "auth_rep (se_auth x) m"
proof -
  obtain a0 where a0: "hev_socks5_authenticator_new True sample_users = Some a0" "au_users a0 = Map.empty" "au_allocq a0 = [16, 48]"
    "au_mallocq a0 = []" by (simp add: hev_socks5_authenticator_new_def hev_socks5_authenticator_construct_def sample_users_def)
  from a0(2-4) obtain a1 where a1: "hev_socks5_user_new [117] 1 [112, 119] 2 a0 = Some (16, a1)"
    by (auto simp: hev_socks5_user_new_def au_calloc_def hev_socks5_user_construct_def au_memdup_def rd_def aligned_def Let_def)
  from a1 have k: "au_refs a1 = au_refs a0"
    by (auto simp: hev_socks5_user_new_def au_calloc_def hev_socks5_user_construct_def au_memdup_def rd_def Let_def split_beta
        Option.bind_eq_Some_conv split: if_splits)
  let ?u = "\<lparr>us_name = [117], us_pass = [112, 119], us_refs = 1\<rparr>"
  from new_user[OF a1 _ new_authenticator(1)[OF a0(1)]] have u: "aligned 16" "au_users a1 16 = Some ?u" "auth_rep a1 Map.empty" by simp_all
  from add_user[OF u(3,2) _ u(1)] obtain a2 where a2: "hev_socks5_authenticator_add 16 a1 = Some (0, a2)"
    "auth_rep a2 [[117] \<mapsto> 16]" "au_users a2 = au_users a1" by auto
  obtain sr where "hev_rbtree_search (au_cmp a1 [117]) (au_tree a1) = Some sr" using a2(1) u(2)
    by (auto simp: hev_socks5_authenticator_add_def Option.bind_eq_Some_conv)
  with a2(1) k new_authenticator(2)[OF a0(1)] u(2) have r: "au_refs a2 = 1"
    by (cases sr) (auto simp: hev_socks5_authenticator_add_def Option.bind_eq_Some_conv)
  let ?x = "\<lparr>se_auth = a2, se_names = [], se_reuse = [], se_binds = [], se_bound = []\<rparr>"
  have "knows_user ?x [117] [112, 119] 16" using a2(2,3) u(2) r by (auto simp: knows_user_def intro!: exI[of _ "[[117] \<mapsto> 16]"])
  with a2(2) that[of ?x] show thesis by simp
qed

definition server_example :: hev_socks5_server where
  "server_example = server_zero\<lparr>s5_fd := 1, sv_fd0 := -1, sv_fd1 := -1\<rparr>"

definition stack_example :: srv_stack where
  "stack_example = \<lparr>st_addr = sockaddr6_zero, st_res = replicate addr_size 7, st_cmd = 0\<rparr>"

definition net_server_example :: "bytes \<Rightarrow> net" where
  "net_server_example bs = net_example\<lparr>blocks := 1, connq := [], sk := \<lambda>_. \<lparr>rxq = [RxData bs], txq = [], sent = [], errno = EOK\<rparr>\<rparr>"

lemma server_example_net:
  "net_ok (net_server_example bs)" "quiet (net_server_example bs)" "1 \<in> set (fds (net_server_example bs))"
  "net_tx_fine t d (net_server_example bs)" "bs \<noteq> [] \<Longrightarrow> net_in t d (net_server_example bs) = bs"
  "net_out d (net_server_example bs) = []" "5 \<in> set (fds (net_server_example bs))"
  by (auto simp: net_server_example_def net_example_def net_ok_def quiet_def)

lemma stack_example_ok: "stack_ok stack_example"
  by (simp add: stack_ok_def stack_example_def sockaddr6_zero_def)

definition env_example :: srv_env where
  "env_example = \<lparr>se_auth = sample_users, se_names = [], se_reuse = [], se_binds = [], se_bound = []\<rparr>"

lemma server_example_simps [simp]:
  "s5_fd server_example = 1" "sv_obj server_example = NoObj" "s5_family server_example = AF_UNSPEC"
  "srv_method server_example = 0"
  by (simp_all add: server_example_def server_zero_def srv_method_def)

theorem server_error_reply_leaks_stack_witness:
  "\<exists>s' w' x'. hev_socks5_server_handshake v4_literal_resolver socks5_conf_default stack_example server_example
      (net_server_example [5, 1, 0, 5, 1, 0, 9, 0]) env_example = Some (-1, s', w', x') \<and>
    net_out 1 w' = [5, 0] @ [5, 8, 0] @ encode_addr (addr_of sockaddr6_zero)"
proof -
  let ?i = "[5, 1, 0, 5, 1, 0, 9, 0] :: bytes"
  note n = server_example_net[where bs = ?i]
  have "admits server_example env_example [0] [] [] 0" by (simp add: admits_def)
  from server_error_reply_leaks_stack[OF this stack_example_ok, of "net_server_example ?i" socks5_conf_default 1 0 9 0 "[]" v4_literal_resolver]
  obtain s' w' x' where "hev_socks5_server_handshake v4_literal_resolver socks5_conf_default stack_example server_example
      (net_server_example ?i) env_example = Some (-1, s', w', x')"
    "net_out 1 w' = net_out 1 (net_server_example ?i) @ auth_reply 0 @ [5, 8, 0] @ encode_addr (addr_of (st_addr stack_example))"
    using n(3,4) n(5)[where t = "tcp_timeout socks5_conf_default"] by (auto simp: auth_input_def simp del: encode_addr.simps)
  then show ?thesis using n(6) by (auto simp: auth_reply_def stack_example_def simp del: encode_addr.simps)
qed

lemma server_example_request:
  "net_in t 1 (net_server_example (auth_input m ms u p @ request_msg c a)) = auth_input m ms u p @ request_msg c a"
  by (rule server_example_net(5)) (simp add: auth_input_def)

abbreviation (input) sample_dest :: socks_addr where "sample_dest \<equiv> SA_IPv4 [10, 0, 0, 1] 1080"

lemma sample_destination:
  "wf_addr sample_dest" "resolver_ok v4_literal_resolver"
  "hev_socks5_addr_into_sockaddr6 v4_literal_resolver (encode_addr sample_dest) (st_addr stack_example) f =
    Some (0, sockaddr6_of sample_dest, AF_INET)"
  using addr_into_sockaddr6_ipv4[of "[10, 0, 0, 1]" "st_addr stack_example" _ _ "[]"]
  by (simp_all add: resolver_ok_def v4_literal_resolver_def stack_example_def sockaddr6_zero_def)

lemma sample_run:
  assumes "admits s x ms u p q" "s5_fd s = 1"
  shows "\<exists>s' w' x'. hev_socks5_server_handshake v4_literal_resolver socks5_conf_default stack_example s
      (net_server_example (auth_input (srv_method s) ms u p @ request_msg 1 sample_dest)) x = Some (0, s', w', x') \<and>
    net_out 1 w' = auth_reply (srv_method s) @ request_reply 0 (addr_of (sockaddr6_of sample_dest))"
proof -
  let ?T = "tcp_timeout socks5_conf_default" and ?i = "auth_input (srv_method s) ms u p @ request_msg 1 sample_dest"
  let ?w = "net_server_example ?i"
  note n = server_example_net[where bs = ?i]
  have "?i \<noteq> []" by (simp add: auth_input_def)
  then have i: "net_in ?T (s5_fd s) ?w = auth_input (srv_method s) ms u p @ request_msg HEV_SOCKS5_REQ_CMD_CONNECT sample_dest @ []"
    using n(5)[where t = ?T] assms(2) by simp
  have f: "s5_fd s \<in> set (fds ?w)" "net_tx_fine ?T (s5_fd s) ?w" unfolding assms(2) by (fact n(3), fact n(4))
  have t: "0 \<le> connect_timeout socks5_conf_default" "0 \<le> ?T" by (simp_all add: socks5_conf_default_def)
  from server_handshake_connect[OF assms(1) n(1) t f i sample_destination(1,2) stack_example_ok sample_destination(3)] n(2,6) assms(2)
  show ?thesis by (elim exE conjE disjE) (simp_all del: encode_addr.simps sockaddr6_of.simps)
qed

theorem server_admits_only_users_witness:
  "\<exists>x s' w' x' q v. hev_socks5_server_handshake v4_literal_resolver socks5_conf_default stack_example (server_example\<lparr>sv_obj := AuthObj\<rparr>)
      (net_server_example (auth_input 2 [0, 2] [117] [112, 119] @ request_msg 1 sample_dest)) x = Some (0, s', w', x') \<and>
    au_users (se_auth x) q = Some v \<and> sv_obj s' = UserObj q"
proof -
  let ?s = "server_example\<lparr>sv_obj := AuthObj\<rparr>"
  obtain x q m where x: "knows_user x [117] [112, 119] q" "auth_rep (se_auth x) m" by (rule sample_knows)
  have m: "srv_method ?s = 2" by (simp add: srv_method_def)
  from x(1) have "admits ?s x [0, 2] [117] [112, 119] q" by (simp add: admits_def srv_method_def)
  from sample_run[OF this] obtain s' w' x' where h: "hev_socks5_server_handshake v4_literal_resolver socks5_conf_default stack_example ?s
      (net_server_example (auth_input 2 [0, 2] [117] [112, 119] @ request_msg 1 sample_dest)) x = Some (0, s', w', x')"
    unfolding m by auto
  have "sv_obj ?s = AuthObj" by simp
  from server_admits_only_users[OF h this x(2)] obtain q' v where "au_users (se_auth x) q' = Some v" "sv_obj s' = UserObj q'" by blast
  with h show ?thesis by blast
qed



end
