(* ===== verification/CircularBuffer.thy ===== *)
theory CircularBuffer
  imports RingBuffer Socks5
begin

section \<open>Circular buffer (hev-task-system, lib/io/buffer/hev-circular-buffer.c)\<close>

text \<open>
  The bounded byte queue between the two sockets of a splice. \<open>content\<close> abstracts a buffer to the bytes it holds; the
  geometry is that of a ring buffer without bytes in flight (\<open>ring_of\<close>), whose lemmas are used. The division by
  \<open>max_size\<close> makes a buffer of size 0 unusable: its operations are undefined.
\<close>

record circular_buffer =
  cb_rp :: nat
  cb_use_size :: nat
  cb_max_size :: nat
  cb_ref_count :: nat
  cb_data :: bytes

text \<open>\<open>garbage\<close> is what the new block holds.\<close>

definition hev_circular_buffer_new :: "(nat \<Rightarrow> u8) \<Rightarrow> nat \<Rightarrow> net \<Rightarrow> circular_buffer option \<times> net" where
  "hev_circular_buffer_new garbage n w =
     (let (ok, w) = sys_malloc w in
      (if ok then Some \<lparr>cb_rp = 0, cb_use_size = 0, cb_max_size = n, cb_ref_count = 1, cb_data = map garbage [0..<n]\<rparr> else None, w))"

definition hev_circular_buffer_ref :: "circular_buffer \<Rightarrow> circular_buffer" where
  "hev_circular_buffer_ref self = self\<lparr>cb_ref_count := cb_ref_count self + 1\<rparr>"

definition hev_circular_buffer_unref :: "circular_buffer \<Rightarrow> net \<Rightarrow> (circular_buffer option \<times> net) option" where
  "hev_circular_buffer_unref self w = do {
     check (cb_ref_count self \<noteq> 0);
     let self = self\<lparr>cb_ref_count := cb_ref_count self - 1\<rparr>;
     if cb_ref_count self \<noteq> 0 then Some (Some self, w)
     else do {
       w \<leftarrow> hev_free w;
       Some (None, w)
     }
   }"

definition hev_circular_buffer_get_max_size :: "circular_buffer \<Rightarrow> nat" where
  "hev_circular_buffer_get_max_size self = cb_max_size self"

definition hev_circular_buffer_get_use_size :: "circular_buffer \<Rightarrow> nat" where
  "hev_circular_buffer_get_use_size self = cb_use_size self"

definition hev_circular_buffer_reading :: "circular_buffer \<Rightarrow> iovec list" where
  "hev_circular_buffer_reading self =
     (let upper_size = sz_sub (cb_max_size self) (cb_rp self) in
      if 0 = cb_use_size self then []
      else if cb_use_size self \<le> upper_size then [\<lparr>iov_base = cb_rp self, iov_len = cb_use_size self\<rparr>]
      else [\<lparr>iov_base = cb_rp self, iov_len = upper_size\<rparr>, \<lparr>iov_base = 0, iov_len = sz_sub (cb_use_size self) upper_size\<rparr>])"

definition hev_circular_buffer_read_finish :: "circular_buffer \<Rightarrow> nat \<Rightarrow> circular_buffer option" where
  "hev_circular_buffer_read_finish self n = do {
     check (cb_max_size self \<noteq> 0);
     Some (self\<lparr>cb_rp := sz_add (cb_rp self) n mod cb_max_size self, cb_use_size := sz_sub (cb_use_size self) n\<rparr>)
   }"

definition hev_circular_buffer_writing :: "circular_buffer \<Rightarrow> iovec list option" where
  "hev_circular_buffer_writing self = do {
     check (cb_max_size self \<noteq> 0);
     let wp = sz_add (cb_rp self) (cb_use_size self) mod cb_max_size self;
     let upper_size = sz_sub (cb_max_size self) wp;
     let spc_size = sz_sub (cb_max_size self) (cb_use_size self);
     Some (if cb_use_size self = cb_max_size self then []
       else if spc_size \<le> upper_size then [\<lparr>iov_base = wp, iov_len = spc_size\<rparr>]
       else [\<lparr>iov_base = wp, iov_len = upper_size\<rparr>, \<lparr>iov_base = 0, iov_len = sz_sub spc_size upper_size\<rparr>])
   }"

definition hev_circular_buffer_write_finish :: "circular_buffer \<Rightarrow> nat \<Rightarrow> circular_buffer" where
  "hev_circular_buffer_write_finish self n = self\<lparr>cb_use_size := sz_add (cb_use_size self) n\<rparr>"

subsection \<open>The queue\<close>

definition circular_ok :: "circular_buffer \<Rightarrow> bool" where
  "circular_ok c \<longleftrightarrow> 0 < cb_max_size c \<and> cb_max_size c < 2 ^ 63 \<and> length (cb_data c) = cb_max_size c \<and>
     cb_rp c < cb_max_size c \<and> cb_use_size c \<le> cb_max_size c"

definition content :: "circular_buffer \<Rightarrow> bytes" where
  "content c = cells (cb_data c) (cb_rp c) (cb_use_size c)"

definition ring_of :: "circular_buffer \<Rightarrow> ring_buffer" where
  "ring_of c = \<lparr>rp = cb_rp c, wp = (cb_rp c + cb_use_size c) mod cb_max_size c, rda_size = cb_use_size c,
     use_size = cb_use_size c, max_size = cb_max_size c, rdata = cb_data c\<rparr>"

lemma ring_of_ok: "circular_ok c \<Longrightarrow> ring_ok (ring_of c)"
  by (auto simp: circular_ok_def ring_ok_def ring_of_def)

lemma ring_of_simps [simp]: "use_size (ring_of c) = cb_use_size c" "max_size (ring_of c) = cb_max_size c"
  "rdata (ring_of c) = cb_data c" "rda_size (ring_of c) = cb_use_size c" "unread (ring_of c) = content c"
  by (simp_all add: ring_of_def unread_def content_def)

lemma length_content [simp]: "length (content c) = cb_use_size c"
  by (simp add: content_def)

lemma ring_of_ptrs [simp]: "rp (ring_of c) = cb_rp c" "ring_buffer.wp (ring_of c) = (cb_rp c + cb_use_size c) mod cb_max_size c"
  by (simp_all add: ring_of_def)

lemma reading_ring: "hev_circular_buffer_reading c = hev_ring_buffer_reading (ring_of c)"
  by (simp add: hev_ring_buffer_reading_def hev_circular_buffer_reading_def Let_def)

lemma reading_content: "circular_ok c \<Longrightarrow> gather (cb_data c) (hev_circular_buffer_reading c) = content c"
  using hev_ring_buffer_reading_unread[OF ring_of_ok, of c] by (simp add: reading_ring)

lemma circular_reading_empty: "hev_circular_buffer_reading c = [] \<longleftrightarrow> content c = []"
  unfolding hev_circular_buffer_reading_def Let_def content_def by (simp add: cells_def)

lemma writing_ring:
  assumes "circular_ok c"
  shows "hev_circular_buffer_writing c = Some (hev_ring_buffer_writing (ring_of c))"
proof -
  have b: "cb_max_size c \<noteq> 0" "sz_add (cb_rp c) (cb_use_size c) = cb_rp c + cb_use_size c" using assms by (auto simp: circular_ok_def)
  show ?thesis unfolding hev_circular_buffer_writing_def hev_ring_buffer_writing_def ring_of_simps ring_of_ptrs b(2) Let_def using b(1) by simp
qed

lemma writing_total:
  assumes ok: "circular_ok c" and v: "hev_circular_buffer_writing c = Some v"
  shows "iov_total v = cb_max_size c - cb_use_size c \<and> (v = [] \<longleftrightarrow> cb_use_size c = cb_max_size c)"
proof -
  have v': "v = hev_ring_buffer_writing (ring_of c)" using v writing_ring[OF ok] by simp
  have "v = [] \<longleftrightarrow> cb_use_size c = cb_max_size c" unfolding v' writing_cases[OF ring_of_ok[OF ok]] by simp
  with hev_ring_buffer_writing_total[OF ring_of_ok[OF ok]] v' show ?thesis by simp
qed

lemma write_finish_content:
  assumes ok: "circular_ok c" and n: "length bs \<le> cb_max_size c - cb_use_size c" and v: "hev_circular_buffer_writing c = Some v"
  defines "c' \<equiv> hev_circular_buffer_write_finish (c\<lparr>cb_data := scatter (cb_data c) v bs\<rparr>) (length bs)"
  shows "circular_ok c'" "content c' = content c @ bs"
proof -
  have v': "v = hev_ring_buffer_writing (ring_of c)" using v writing_ring[OF ok] by simp
  have b: "0 < cb_max_size c" "cb_max_size c < 2 ^ 63" "cb_use_size c \<le> cb_max_size c" using ok by (auto simp: circular_ok_def)
  let ?r = "hev_ring_buffer_write_finish (ring_of c\<lparr>rdata := scatter (cb_data c) v bs\<rparr>) (length bs)"
  note w = hev_ring_buffer_write_finish_ok[OF ring_of_ok[OF ok], of bs, simplified, OF n, folded v']
  have c': "c' = c\<lparr>cb_data := scatter (cb_data c) v bs, cb_use_size := cb_use_size c + length bs\<rparr>"
    using b n by (simp add: c'_def hev_circular_buffer_write_finish_def)
  have r: "rdata ?r = cb_data c'" "rp ?r = cb_rp c'" "rda_size ?r = cb_use_size c'" "max_size ?r = cb_max_size c'" "use_size ?r = cb_use_size c'"
    using b n by (simp_all add: c' ring_of_def hev_ring_buffer_write_finish_def)
  have "unread ?r = content c'" by (simp only: unread_def content_def r)
  with w(2) show "content c' = content c @ bs" by simp
  show "circular_ok c'" using ring_okD[OF w(1)] ok unfolding r by (simp add: circular_ok_def)
qed

lemma read_finish_content:
  assumes ok: "circular_ok c" and n: "n \<le> cb_use_size c"
  obtains c' where "hev_circular_buffer_read_finish c n = Some c'" "circular_ok c'" "content c' = drop n (content c)" "cb_max_size c' = cb_max_size c"
proof -
  have b: "0 < cb_max_size c" "cb_max_size c < 2 ^ 63" "cb_use_size c \<le> cb_max_size c" "cb_rp c < cb_max_size c" "length (cb_data c) = cb_max_size c"
    using ok by (auto simp: circular_ok_def)
  let ?c = "c\<lparr>cb_rp := (cb_rp c + n) mod cb_max_size c, cb_use_size := cb_use_size c - n\<rparr>"
  have "hev_circular_buffer_read_finish c n = Some ?c" using b n by (simp add: hev_circular_buffer_read_finish_def)
  moreover have "circular_ok ?c" using b by (simp add: circular_ok_def)
  moreover have "content ?c = drop n (content c)"
    using cells_split[OF n, of "cb_data c" "cb_rp c"] cells_mod[of "cb_data c" "cb_rp c + n"] b by (simp add: content_def)
  ultimately show thesis using that by simp
qed

text \<open>The circular buffer is a bounded queue of bytes. The pieces offered for reading are exactly its content, in order; giving
  back a part of them removes it from the front; the pieces offered for writing have exactly the free room, and what is
  stored there is appended; nothing is undefined while the size is positive, and a new buffer is empty.\<close>

theorem circular_buffer_implements_queue:
  assumes ok: "circular_ok c" and n: "n \<le> length (content c)" and bs: "length (content c) + length bs \<le> cb_max_size c"
  shows "gather (cb_data c) (hev_circular_buffer_reading c) = content c \<and>
    (\<exists>c'. hev_circular_buffer_read_finish c n = Some c' \<and> circular_ok c' \<and> content c' = drop n (content c)) \<and>
    (\<exists>v. hev_circular_buffer_writing c = Some v \<and> iov_total v = cb_max_size c - length (content c) \<and>
       (let c' = hev_circular_buffer_write_finish (c\<lparr>cb_data := scatter (cb_data c) v bs\<rparr>) (length bs) in
        circular_ok c' \<and> content c' = content c @ bs))"
proof (intro conjI)
  show "gather (cb_data c) (hev_circular_buffer_reading c) = content c" by (rule reading_content[OF ok])
  have n': "n \<le> cb_use_size c" and bs': "length bs \<le> cb_max_size c - cb_use_size c" using n bs by simp_all
  show "\<exists>c'. hev_circular_buffer_read_finish c n = Some c' \<and> circular_ok c' \<and> content c' = drop n (content c)"
    by (rule read_finish_content[OF ok n']) blast
  from writing_ring[OF ok] obtain v where v: "hev_circular_buffer_writing c = Some v" by blast
  with writing_total[OF ok v] write_finish_content[OF ok bs' v]
  show "\<exists>v. hev_circular_buffer_writing c = Some v \<and> iov_total v = cb_max_size c - length (content c) \<and>
       (let c' = hev_circular_buffer_write_finish (c\<lparr>cb_data := scatter (cb_data c) v bs\<rparr>) (length bs) in
        circular_ok c' \<and> content c' = content c @ bs)" by simp
qed

text \<open>One byte near the end of a buffer of four is read, two more go around the end.\<close>

definition circular_example :: circular_buffer where
  "circular_example = \<lparr>cb_rp = 2, cb_use_size = 1, cb_max_size = 4, cb_ref_count = 1, cb_data = [0, 0, 7, 0]\<rparr>"

theorem circular_buffer_implements_queue_witness:
  "content circular_example = [7] \<and>
   (\<exists>c'. hev_circular_buffer_read_finish circular_example 1 = Some c' \<and> content c' = []) \<and>
   (\<exists>v. hev_circular_buffer_writing circular_example = Some v \<and>
      content (hev_circular_buffer_write_finish (circular_example\<lparr>cb_data := scatter (cb_data circular_example) v [8, 9]\<rparr>) 2) = [7, 8, 9])"
proof -
  have c: "content circular_example = [7]" "circular_ok circular_example" "cb_max_size circular_example = 4"
    by (simp_all add: circular_example_def content_def cells_def circular_ok_def)
  from circular_buffer_implements_queue[OF c(2), of 1 "[8, 9]"] c(1,3) show ?thesis by (auto simp: Let_def numeral_2_eq_2)
qed

lemma new_buffer:
  assumes "hev_circular_buffer_new g n w = (Some c, w')" "0 < n" "n < 2 ^ 63"
  shows "circular_ok c" "content c = []" "cb_max_size c = n" "cb_ref_count c = 1" "blocks w' = Suc (blocks w)"
  using assms by (auto simp: hev_circular_buffer_new_def circular_ok_def content_def sys_malloc_def Let_def split_beta split: if_splits)

end
