(* ===== verification/Splice.thy ===== *)
theory Splice
  imports SessionTCP CircularBuffer
begin

section \<open>Splicing two sockets (hev-task-system, lib/io/basic/hev-task-io.c; core hev-socks5-tcp.c)\<close>

text \<open>
  \<open>hev_task_io_splice\<close> copies the bytes of two sockets to each other until both directions end. Each direction has a
  splicer, which the build makes a pipe (\<open>splice (2)\<close>, on Linux) or a circular buffer. \<open>splicer_ops\<close> has the three
  functions of a variant, the loop is defined once over them. An environment is the network and the descriptors whose
  sending side has been shut down.
\<close>

type_synonym splice_env = "net \<times> int list"

definition sys_shutdown :: "int \<Rightarrow> splice_env \<Rightarrow> splice_env" where
  "sys_shutdown fd = (\<lambda>(w, sh). (w, fd # sh))"

subsection \<open>The splicer with a circular buffer\<close>

definition buf_splicer_init :: "(nat \<Rightarrow> u8) \<Rightarrow> nat \<Rightarrow> net \<Rightarrow> (circular_buffer option \<times> net) option" where
  "buf_splicer_init garbage buf_size w = Some (hev_circular_buffer_new garbage buf_size w)"

definition buf_splicer_fini :: "circular_buffer \<Rightarrow> net \<Rightarrow> net option" where
  "buf_splicer_fini self w = map_option snd (hev_circular_buffer_unref self w)"

definition buf_fill :: "circular_buffer \<Rightarrow> int \<Rightarrow> net \<Rightarrow> (int \<times> circular_buffer \<times> net) option" where
  "buf_fill self fd_in w = do {
     iov \<leftarrow> hev_circular_buffer_writing self;
     if iov = [] then Some (1, self, w)
     else case sys_readv fd_in iov w of
         (SysAgain _, w) \<Rightarrow> Some (0, self, w)
       | (SysErr, w) \<Rightarrow> Some (-1, self, w)
       | (SysOk bs, w) \<Rightarrow>
           if bs = [] then Some (-1, self, w)
           else Some (1, hev_circular_buffer_write_finish (self\<lparr>cb_data := scatter (cb_data self) iov bs\<rparr>) (length bs), w)
   }"

definition buf_splice :: "circular_buffer \<Rightarrow> int \<Rightarrow> int \<Rightarrow> splice_env \<Rightarrow> (int \<times> circular_buffer \<times> splice_env) option" where
  "buf_splice self fd_in fd_out = (\<lambda>(w, sh). do {
     (res, self, w) \<leftarrow> buf_fill self fd_in w;
     let iov = hev_circular_buffer_reading self;
     if iov \<noteq> [] then
       case sys_writev fd_out [gather (cb_data self) iov] w of
         (SysAgain _, w) \<Rightarrow> Some (0, self, w, sh)
       | (SysErr, w) \<Rightarrow> Some (-1, self, w, sh)
       | (SysOk s, w) \<Rightarrow>
           if s = 0 then Some (-1, self, w, sh)
           else do {
             self \<leftarrow> hev_circular_buffer_read_finish self s;
             Some (1, self, w, sh)
           }
     else if res < 0 then Some (res, self, sys_shutdown fd_out (w, sh))
     else Some (res, self, w, sh)
   })"

subsection \<open>The splicer with a pipe\<close>

text \<open>
  \<open>ps_pipe\<close> is what the pipe holds and \<open>ps_rooms\<close> how much it takes at each \<open>splice\<close>; an empty pipe takes at least one
  byte. \<open>socketq\<close> is the oracle of \<open>pipe2\<close>, too, and \<open>cap\<close> the result of \<open>F_GETPIPE_SZ\<close>.
\<close>

record pipe_splicer =
  ps_fd0 :: int
  ps_fd1 :: int
  ps_wlen :: nat
  ps_blen :: nat
  ps_pipe :: bytes
  ps_rooms :: "nat list"

definition sys_pipe2 :: "net \<Rightarrow> (int \<times> int) option \<times> net" where
  "sys_pipe2 w = (let (ok, q) = pop True (socketq w); a = lowest_free (fds w); b = lowest_free (a # fds w)
     in if ok then (Some (a, b), w\<lparr>socketq := q, fds := b # a # fds w\<rparr>) else (None, w\<lparr>socketq := q\<rparr>))"

text \<open>Closing the last descriptor of a file removes it from the poll set.\<close>

definition close_pipe :: "int \<Rightarrow> int \<Rightarrow> net \<Rightarrow> net option" where
  "close_pipe a b w = do {
     w \<leftarrow> sys_close a (hev_task_del_fd a w);
     sys_close b (hev_task_del_fd b w)
   }"

definition pipe_splicer_init :: "nat list \<Rightarrow> nat \<Rightarrow> nat \<Rightarrow> net \<Rightarrow> (pipe_splicer option \<times> net) option" where
  "pipe_splicer_init rooms cap buf_size w =
     (case sys_pipe2 w of
        (None, w) \<Rightarrow> Some (None, w)
      | (Some (a, b), w) \<Rightarrow>
          case hev_task_add_fd a w of (res, w) \<Rightarrow>
          if res < 0 then map_option (Pair None) (close_pipe a b w)
          else case hev_task_add_fd b w of (res, w) \<Rightarrow>
            if res < 0 then map_option (Pair None) (close_pipe a b w)
            else Some (Some \<lparr>ps_fd0 = a, ps_fd1 = b, ps_wlen = 0, ps_blen = cap, ps_pipe = [], ps_rooms = rooms\<rparr>, w))"

definition pipe_splicer_fini :: "pipe_splicer \<Rightarrow> net \<Rightarrow> net option" where
  "pipe_splicer_fini self w = close_pipe (ps_fd0 self) (ps_fd1 self) w"

text \<open>\<open>splice\<close> from a socket into the pipe, and from the pipe into a socket.\<close>

definition pipe_room :: "pipe_splicer \<Rightarrow> nat" where
  "pipe_room self = (let r = (case ps_rooms self of [] \<Rightarrow> ps_blen self | r # _ \<Rightarrow> r) in if ps_pipe self = [] then max 1 r else r)"

definition sys_splice_in :: "int \<Rightarrow> pipe_splicer \<Rightarrow> net \<Rightarrow> nat sys_ret \<times> pipe_splicer \<times> net" where
  "sys_splice_in fd_in self w =
     (let n = min (ps_blen self) (pipe_room self); self = self\<lparr>ps_rooms := drop 1 (ps_rooms self)\<rparr> in
      if n = 0 then (SysAgain 0, self, w)
      else if fd_in \<in> set (fds w)
      then case sys_recv n (sk w fd_in) of (r, s) \<Rightarrow>
        let w = w\<lparr>sk := (sk w)(fd_in := s)\<rparr> in
        (case r of SysOk bs \<Rightarrow> (SysOk (length bs), self\<lparr>ps_pipe := ps_pipe self @ bs\<rparr>, w)
         | SysAgain a \<Rightarrow> (SysAgain a, self, w)
         | SysErr \<Rightarrow> (SysErr, self, w))
      else (SysErr, self, w))"

definition sys_splice_out :: "int \<Rightarrow> pipe_splicer \<Rightarrow> net \<Rightarrow> nat sys_ret \<times> pipe_splicer \<times> net" where
  "sys_splice_out fd_out self w =
     (case sys_writev fd_out [take (ps_blen self) (ps_pipe self)] w of (r, w) \<Rightarrow>
        (r, case r of SysOk s \<Rightarrow> self\<lparr>ps_pipe := drop s (ps_pipe self)\<rparr> | _ \<Rightarrow> self, w))"

definition pipe_fill :: "pipe_splicer \<Rightarrow> int \<Rightarrow> net \<Rightarrow> int \<times> pipe_splicer \<times> net" where
  "pipe_fill self fd_in w = (case sys_splice_in fd_in self w of
     (SysAgain _, self, w) \<Rightarrow> (0, self, w)
   | (SysErr, self, w) \<Rightarrow> (-1, self, w)
   | (SysOk s, self, w) \<Rightarrow> if s = 0 then (-1, self, w) else (1, self\<lparr>ps_wlen := ps_wlen self + s\<rparr>, w))"

definition pipe_splice :: "pipe_splicer \<Rightarrow> int \<Rightarrow> int \<Rightarrow> splice_env \<Rightarrow> (int \<times> pipe_splicer \<times> splice_env) option" where
  "pipe_splice self fd_in fd_out = (\<lambda>(w, sh). case pipe_fill self fd_in w of (res, self, w) \<Rightarrow>
     if ps_wlen self \<noteq> 0 then
       (case sys_splice_out fd_out self w of
          (SysAgain _, self, w) \<Rightarrow> Some (0, self, w, sh)
        | (SysErr, self, w) \<Rightarrow> Some (-1, self, w, sh)
        | (SysOk s, self, w) \<Rightarrow>
            if s = 0 then Some (-1, self, w, sh) else Some (1, self\<lparr>ps_wlen := ps_wlen self - s\<rparr>, w, sh))
     else if res < 0 then Some (res, self, sys_shutdown fd_out (w, sh))
     else Some (res, self, w, sh))"

subsection \<open>The loop\<close>

record 'b splicer_ops =
  op_init :: "nat \<Rightarrow> net \<Rightarrow> ('b option \<times> net) option"
  op_splice :: "'b \<Rightarrow> int \<Rightarrow> int \<Rightarrow> splice_env \<Rightarrow> (int \<times> 'b \<times> splice_env) option"
  op_fini :: "'b \<Rightarrow> net \<Rightarrow> net option"

definition buf_ops :: "(nat \<Rightarrow> u8) \<Rightarrow> circular_buffer splicer_ops" where
  "buf_ops garbage = \<lparr>op_init = buf_splicer_init garbage, op_splice = buf_splice, op_fini = buf_splicer_fini\<rparr>"

definition pipe_ops :: "nat list \<Rightarrow> nat \<Rightarrow> pipe_splicer splicer_ops" where
  "pipe_ops rooms cap = \<lparr>op_init = pipe_splicer_init rooms cap, op_splice = pipe_splice, op_fini = pipe_splicer_fini\<rparr>"

text \<open>
  \<open>rounds\<close> are the results of \<open>hev_task_sleep\<close> at the suspensions; with none left the task is still suspended (the result
  is \<open>False\<close>). What happens to the sockets meanwhile is in their traces. Without a yielder the task just yields.
\<close>

type_synonym yielder = "yield_type \<Rightarrow> int \<Rightarrow> int"

definition op_step :: "'b splicer_ops \<Rightarrow> int \<Rightarrow> 'b \<Rightarrow> int \<Rightarrow> int \<Rightarrow> splice_env \<Rightarrow> (int \<times> 'b \<times> splice_env) option" where
  "op_step ops res self fd_in fd_out e = (if 0 \<le> res then op_splice ops self fd_in fd_out e else Some (res, self, e))"

fun io_splice_loop ::
  "'b splicer_ops \<Rightarrow> yielder option \<Rightarrow> int \<Rightarrow> int \<Rightarrow> int \<Rightarrow> int \<Rightarrow> int \<Rightarrow> int \<Rightarrow> int list \<Rightarrow> 'b \<times> 'b \<times> splice_env \<Rightarrow>
    (bool \<times> int \<times> int \<times> 'b \<times> 'b \<times> splice_env) option" where
  "io_splice_loop ops y a_i a_o b_i b_o res_f res_b rounds (f, b, e) = do {
     (res_f, f, e) \<leftarrow> op_step ops res_f f a_i b_o e;
     (res_b, b, e) \<leftarrow> op_step ops res_b b b_i a_o e;
     let go_on = (\<lambda>type. case rounds of
         [] \<Rightarrow> Some (False, res_f, res_b, f, b, e)
       | r # rs \<Rightarrow>
           if (case y of Some yielder \<Rightarrow> yielder type r \<noteq> 0 | None \<Rightarrow> False) then Some (True, res_f, res_b, f, b, e)
           else io_splice_loop ops y a_i a_o b_i b_o res_f res_b rs (f, b, e));
     if res_f > 0 \<or> res_b > 0 then go_on HEV_TASK_YIELD
     else if res_f AND res_b = 0 then go_on HEV_TASK_WAITIO
     else Some (True, res_f, res_b, f, b, e)
   }"

declare io_splice_loop.simps [simp del]

definition hev_task_io_splice ::
  "'b splicer_ops \<Rightarrow> int \<Rightarrow> int \<Rightarrow> int \<Rightarrow> int \<Rightarrow> nat \<Rightarrow> yielder option \<Rightarrow> int list \<Rightarrow> splice_env \<Rightarrow> (bool \<times> splice_env) option" where
  "hev_task_io_splice ops fd_a_i fd_a_o fd_b_i fd_b_o buf_size y rounds = (\<lambda>(w, sh). do {
     (f, w) \<leftarrow> op_init ops buf_size w;
     case f of None \<Rightarrow> Some (True, w, sh)
     | Some f \<Rightarrow> do {
         (b, w) \<leftarrow> op_init ops buf_size w;
         case b of None \<Rightarrow> do {
             w \<leftarrow> op_fini ops f w;
             Some (True, w, sh)
           }
         | Some b \<Rightarrow> do {
             (fin, _, _, f, b, w, sh) \<leftarrow> io_splice_loop ops y fd_a_i fd_a_o fd_b_i fd_b_o 1 1 rounds (f, b, w, sh);
             if \<not> fin then Some (False, w, sh)
             else do {
               w \<leftarrow> op_fini ops b w;
               w \<leftarrow> op_fini ops f w;
               Some (True, w, sh)
             }
           }
       }
   })"

subsection \<open>The splicer of a TCP association\<close>

definition hev_socks5_tcp_splicer ::
  "'b splicer_ops \<Rightarrow> 'a hev_socks5_scheme \<Rightarrow> int \<Rightarrow> int list \<Rightarrow> splice_env \<Rightarrow> (bool \<times> int \<times> splice_env) option" where
  "hev_socks5_tcp_splicer ops self fd rounds = (\<lambda>(w, sh).
     let cfd = s5_fd self in
     if cfd < 0 then Some (True, -1, w, sh)
     else do {
       let (res, w) = hev_task_add_fd fd w;
       (fin, e) \<leftarrow> hev_task_io_splice ops cfd cfd fd fd 8192 (Some (\<lambda>type. hev_socks5_task_io_yielder type (s5_timeout self))) rounds (w, sh);
       Some (fin, 0, e)
     })"

subsection \<open>Bytes in flight\<close>

text \<open>Everything a reader that goes on after errors gets before the end of the stream.\<close>

fun arrived :: "rx_ev list \<Rightarrow> bytes" where
  "arrived [] = []"
| "arrived (RxData bs # q) = bs @ arrived q"
| "arrived (RxEof # q) = []"
| "arrived (_ # q) = arrived q"

text \<open>A read that ends a direction, a write that does, traces without errors, and the work in a trace.\<close>

fun rx_over :: "rx_ev list \<Rightarrow> bool" where
  "rx_over (RxEof # q) = True"
| "rx_over (RxErr # q) = True"
| "rx_over (RxData bs # q) = (bs = [])"
| "rx_over _ = False"

fun tx_over :: "tx_ev list \<Rightarrow> bool" where
  "tx_over (TxErr # q) = True"
| "tx_over (TxRoom k # q) = (k = 0)"
| "tx_over _ = False"

definition rx_fair :: "rx_ev list \<Rightarrow> bool" where
  "rx_fair q \<longleftrightarrow> RxEof \<in> set q \<and> RxErr \<notin> set q \<and> RxData [] \<notin> set q"

definition tx_fair :: "tx_ev list \<Rightarrow> bool" where
  "tx_fair q \<longleftrightarrow> TxErr \<notin> set q \<and> TxRoom 0 \<notin> set q"

fun rx_work :: "rx_ev list \<Rightarrow> nat" where
  "rx_work [] = 0"
| "rx_work (RxData bs # q) = 1 + 2 * length bs + rx_work q"
| "rx_work (RxEof # q) = 0"
| "rx_work (_ # q) = 1 + rx_work q"

lemma sys_recv_moves:
  assumes "sys_recv n s = (r, s')" "0 < n"
  shows "sent s' = sent s \<and> txq s' = txq s \<and> (rx_fair (rxq s) \<longrightarrow> rx_fair (rxq s')) \<and>
    arrived (rxq s) = (case r of SysOk bs \<Rightarrow> bs | _ \<Rightarrow> []) @ arrived (rxq s') \<and>
    (case r of
       SysOk bs \<Rightarrow> length bs \<le> n \<and> (if bs = [] then rx_over (rxq s) else rx_work (rxq s') + 2 * length bs \<le> rx_work (rxq s))
     | SysAgain w \<Rightarrow> rxq s = [] \<and> rxq s' = [] \<or> rx_work (rxq s') < rx_work (rxq s)
     | SysErr \<Rightarrow> rx_over (rxq s)) \<and> rx_work (rxq s') \<le> rx_work (rxq s)"
  using assms by (auto simp: sys_recv_def rx_fair_def split: list.splits rx_ev.splits if_splits)

lemma sys_send_moves:
  assumes "sys_send bs s = (r, s')" "bs \<noteq> []"
  shows "rxq s' = rxq s \<and> (tx_fair (txq s) \<longrightarrow> tx_fair (txq s')) \<and> length (txq s') \<le> length (txq s) \<and>
    sent s' = sent s @ (case r of SysOk k \<Rightarrow> take k bs | _ \<Rightarrow> []) \<and>
    (case r of SysOk k \<Rightarrow> k \<le> length bs \<and> (k = 0 \<longrightarrow> tx_over (txq s))
     | SysAgain w \<Rightarrow> length (txq s') < length (txq s)
     | SysErr \<Rightarrow> tx_over (txq s))"
  using assms by (auto simp: sys_send_def tx_fair_def min_def split: list.splits tx_ev.splits)

text \<open>
  \<open>moved i t new out w w'\<close>: \<open>new\<close> has been read from \<open>i\<close> and \<open>out\<close> written to \<open>t\<close>, and nothing else has changed.
\<close>

definition moved :: "int \<Rightarrow> int \<Rightarrow> bytes \<Rightarrow> bytes \<Rightarrow> net \<Rightarrow> net \<Rightarrow> bool" where
  "moved i t new out w w' \<longleftrightarrow> (\<exists>g. w' = w\<lparr>sk := g\<rparr> \<and> (\<forall>d. d \<noteq> i \<longrightarrow> d \<noteq> t \<longrightarrow> g d = sk w d) \<and>
     arrived (rxq (sk w i)) = new @ arrived (rxq (g i)) \<and> (rx_fair (rxq (sk w i)) \<longrightarrow> rx_fair (rxq (g i))) \<and>
     sent (g t) = sent (sk w t) @ out \<and> (tx_fair (txq (sk w t)) \<longrightarrow> tx_fair (txq (g t))) \<and>
     rxq (g t) = rxq (sk w t) \<and> sent (g i) = sent (sk w i) \<and> txq (g i) = txq (sk w i))"

lemma moved_refl: "i \<noteq> t \<Longrightarrow> moved i t [] [] w w"
  unfolding moved_def by (rule exI[of _ "sk w"]) simp

lemma moved_trans:
  assumes "moved i t n1 o1 w w1" "moved i t n2 o2 w1 w2"
  shows "moved i t (n1 @ n2) (o1 @ o2) w w2"
proof -
  from assms(1) obtain g where g: "w1 = w\<lparr>sk := g\<rparr>" and a: "\<forall>d. d \<noteq> i \<longrightarrow> d \<noteq> t \<longrightarrow> g d = sk w d"
    "arrived (rxq (sk w i)) = n1 @ arrived (rxq (g i))" "rx_fair (rxq (sk w i)) \<longrightarrow> rx_fair (rxq (g i))"
    "sent (g t) = sent (sk w t) @ o1" "tx_fair (txq (sk w t)) \<longrightarrow> tx_fair (txq (g t))"
    "rxq (g t) = rxq (sk w t)" "sent (g i) = sent (sk w i)" "txq (g i) = txq (sk w i)" unfolding moved_def by blast
  from assms(2) obtain h where h: "w2 = w1\<lparr>sk := h\<rparr>" and b: "\<forall>d. d \<noteq> i \<longrightarrow> d \<noteq> t \<longrightarrow> h d = sk w1 d"
    "arrived (rxq (sk w1 i)) = n2 @ arrived (rxq (h i))" "rx_fair (rxq (sk w1 i)) \<longrightarrow> rx_fair (rxq (h i))"
    "sent (h t) = sent (sk w1 t) @ o2" "tx_fair (txq (sk w1 t)) \<longrightarrow> tx_fair (txq (h t))"
    "rxq (h t) = rxq (sk w1 t)" "sent (h i) = sent (sk w1 i)" "txq (h i) = txq (sk w1 i)" unfolding moved_def by blast
  have s1: "sk w1 = g" using g by simp
  show ?thesis unfolding moved_def
    by (rule exI[of _ h]) (use a b h g in \<open>simp add: s1\<close>)
qed

lemma moved_recv:
  assumes "sys_recv n (sk w i) = (r, s')" "0 < n" "i \<noteq> t"
  shows "moved i t (case r of SysOk bs \<Rightarrow> bs | _ \<Rightarrow> []) [] w (w\<lparr>sk := (sk w)(i := s')\<rparr>)"
  using sys_recv_moves[OF assms(1,2)] assms(3) unfolding moved_def by (intro exI[of _ "(sk w)(i := s')"]) simp

lemma moved_send:
  assumes "sys_send bs (sk w t) = (r, s')" "bs \<noteq> []" "i \<noteq> t"
  shows "moved i t [] (case r of SysOk k \<Rightarrow> take k bs | _ \<Rightarrow> []) w (w\<lparr>sk := (sk w)(t := s')\<rparr>)"
  using sys_send_moves[OF assms(1,2)] assms(3) unfolding moved_def by (intro exI[of _ "(sk w)(t := s')"]) simp

definition work :: "int \<Rightarrow> int \<Rightarrow> net \<Rightarrow> bytes \<Rightarrow> nat" where
  "work i t w bs = rx_work (rxq (sk w i)) + length (txq (sk w t)) + length bs"

text \<open>
  The result of one turn of a direction: nothing is lost or invented; it ends because the write failed, or with the sending
  side shut down when the input is over and everything is written; else there is less left to do, or nothing
  to do until the peer sends.
\<close>

definition relayed :: "int \<Rightarrow> int \<Rightarrow> net \<Rightarrow> int list \<Rightarrow> bytes \<Rightarrow> int \<Rightarrow> net \<Rightarrow> int list \<Rightarrow> bytes \<Rightarrow> bool" where
  "relayed i t w sh c r w' sh' c' \<longleftrightarrow> (\<exists>new out. moved i t new out w w' \<and> c @ new = out @ c') \<and>
     (r = -1 \<and> sh' = t # sh \<and> c' = [] \<and> rx_over (rxq (sk w i)) \<or>
      r = -1 \<and> sh' = sh \<and> tx_over (txq (sk w t)) \<or>
      (r = 0 \<or> r = 1) \<and> sh' = sh \<and> (work i t w' c' < work i t w c \<or> rxq (sk w i) = [] \<and> c = []))"

locale byte_relay =
  fixes step :: "'b \<Rightarrow> int \<Rightarrow> int \<Rightarrow> splice_env \<Rightarrow> (int \<times> 'b \<times> splice_env) option" and held :: "'b \<Rightarrow> bytes" and good :: "'b \<Rightarrow> bool"
    and own :: "'b \<Rightarrow> int list"
  assumes step_relays: "good b \<Longrightarrow> i \<noteq> t \<Longrightarrow> i \<in> set (fds w) \<Longrightarrow> t \<in> set (fds w) \<Longrightarrow>
    \<exists>r b' w' sh'. step b i t (w, sh) = Some (r, b', w', sh') \<and> good b' \<and> own b' = own b \<and>
      relayed i t w sh (held b) r w' sh' (held b')"
begin

end

subsection \<open>A turn is a read and a write\<close>

definition filled :: "int \<Rightarrow> int \<Rightarrow> net \<Rightarrow> bytes \<Rightarrow> int \<Rightarrow> net \<Rightarrow> bytes \<Rightarrow> bool" where
  "filled i t w c r w1 c1 \<longleftrightarrow> (\<exists>new. c1 = c @ new \<and> moved i t new [] w w1 \<and> sk w1 t = sk w t \<and>
     (r = 1 \<and> new = [] \<and> w1 = w \<and> c \<noteq> [] \<or>
      r = 1 \<and> new \<noteq> [] \<and> rx_work (rxq (sk w1 i)) + 2 * length new \<le> rx_work (rxq (sk w i)) \<or>
      r = 0 \<and> new = [] \<and> (rxq (sk w i) = [] \<and> rxq (sk w1 i) = [] \<or> rx_work (rxq (sk w1 i)) < rx_work (rxq (sk w i)) \<or> w1 = w \<and> c \<noteq> []) \<or>
      r = -1 \<and> new = [] \<and> rx_over (rxq (sk w i)) \<and> rx_work (rxq (sk w1 i)) \<le> rx_work (rxq (sk w i))))"

definition drained :: "int \<Rightarrow> int \<Rightarrow> net \<Rightarrow> bytes \<Rightarrow> int \<Rightarrow> net \<Rightarrow> bytes \<Rightarrow> bool" where
  "drained i t w c r w1 c1 \<longleftrightarrow> (\<exists>out. c = out @ c1 \<and> moved i t [] out w w1 \<and> sk w1 i = sk w i \<and>
     length (txq (sk w1 t)) \<le> length (txq (sk w t)) \<and>
     (r = -1 \<and> tx_over (txq (sk w t)) \<or> r = 0 \<and> out = [] \<and> length (txq (sk w1 t)) < length (txq (sk w t)) \<or> r = 1 \<and> out \<noteq> []))"

lemma relayed_idle: "filled i t w c r w1 [] \<Longrightarrow> 0 \<le> r \<Longrightarrow> relayed i t w sh c r w1 sh []"
  unfolding filled_def relayed_def work_def by auto

lemma relayed_over: "filled i t w c r w1 [] \<Longrightarrow> r < 0 \<Longrightarrow> relayed i t w sh c r w1 (t # sh) []"
  unfolding filled_def relayed_def by auto

lemma relayed_both:
  assumes f: "filled i t w c r w1 c1" and d: "drained i t w1 c1 r2 w2 c2" and n: "c1 \<noteq> []"
  shows "relayed i t w sh c r2 w2 sh c2"
proof -
  from f obtain new where a: "c1 = c @ new" "moved i t new [] w w1" "sk w1 t = sk w t"
    "r = 1 \<and> new = [] \<and> w1 = w \<and> c \<noteq> [] \<or>
      r = 1 \<and> new \<noteq> [] \<and> rx_work (rxq (sk w1 i)) + 2 * length new \<le> rx_work (rxq (sk w i)) \<or>
      r = 0 \<and> new = [] \<and> (rxq (sk w i) = [] \<and> rxq (sk w1 i) = [] \<or> rx_work (rxq (sk w1 i)) < rx_work (rxq (sk w i)) \<or> w1 = w \<and> c \<noteq> []) \<or>
      r = -1 \<and> new = [] \<and> rx_over (rxq (sk w i)) \<and> rx_work (rxq (sk w1 i)) \<le> rx_work (rxq (sk w i))"
    unfolding filled_def by blast
  from d obtain out where b: "c1 = out @ c2" "moved i t [] out w1 w2" "sk w2 i = sk w1 i" "length (txq (sk w2 t)) \<le> length (txq (sk w1 t))"
    "r2 = -1 \<and> tx_over (txq (sk w1 t)) \<or> r2 = 0 \<and> out = [] \<and> length (txq (sk w2 t)) < length (txq (sk w1 t)) \<or> r2 = 1 \<and> out \<noteq> []"
    unfolding drained_def by blast
  have m: "moved i t new out w w2" using moved_trans[OF a(2) b(2)] by simp
  have le: "rx_work (rxq (sk w1 i)) + length c1 \<le> rx_work (rxq (sk w i)) + length c" using a(1,4) by auto
  have lt: "work i t w2 c2 < work i t w c" if "r2 = 0 \<or> r2 = 1"
  proof -
    have "length (txq (sk w2 t)) + length c2 < length (txq (sk w t)) + length c1"
      using that b(1,4,5) a(3) by (auto simp: neq_Nil_conv)
    with le b(3) show ?thesis unfolding work_def by simp
  qed
  have "r2 = -1 \<and> tx_over (txq (sk w t)) \<or> (r2 = 0 \<or> r2 = 1) \<and> work i t w2 c2 < work i t w c" using b(5) a(3) lt by metis
  moreover have "c @ new = out @ c2" using a(1) b(1) by simp
  ultimately show ?thesis unfolding relayed_def using m by blast
qed

lemma writev_drains:
  assumes "sys_writev t [bs] w = (r, w')" "bs \<noteq> []" "i \<noteq> t" "t \<in> set (fds w)"
  shows "case r of SysOk k \<Rightarrow> k \<le> length bs \<and> drained i t w (bs @ c) (if k = 0 then -1 else 1) w' (drop k (bs @ c))
    | SysAgain _ \<Rightarrow> drained i t w (bs @ c) 0 w' (bs @ c) | SysErr \<Rightarrow> drained i t w (bs @ c) (-1) w' (bs @ c)"
proof -
  obtain s where s: "sys_send bs (sk w t) = (r, s)" "w' = w\<lparr>sk := (sk w)(t := s)\<rparr>"
    using assms(1,4) by (auto simp: sys_writev_def split: prod.splits)
  note m = moved_send[OF s(1) assms(2,3)] and v = sys_send_moves[OF s(1) assms(2)]
  have i: "sk w' i = sk w i" "sk w' t = s" using s(2) assms(3) by simp_all
  show ?thesis
  proof (cases r)
    case (SysOk k)
    then have k: "k \<le> length bs" "k = 0 \<longrightarrow> tx_over (txq (sk w t))" "length (txq s) \<le> length (txq (sk w t))" using v by auto
    moreover have "bs @ c = take k bs @ drop k (bs @ c)" using k(1) by (metis append_assoc append_take_drop_id drop_append diff_is_0_eq drop_0)
    moreover have "k \<noteq> 0 \<longrightarrow> take k bs \<noteq> []" using assms(2) by auto
    ultimately show ?thesis using SysOk m s(2) i unfolding drained_def by (auto intro!: exI[of _ "take k bs"])
  next
    case (SysAgain a)
    with m v s(2) i show ?thesis unfolding drained_def by auto
  next
    case SysErr
    with m v s(2) i show ?thesis unfolding drained_def by auto
  qed
qed

subsection \<open>Both variants relay\<close>

lemma buf_fill_run:
  assumes ok: "circular_ok c" and it: "i \<noteq> t" "i \<in> set (fds w)"
  obtains r c1 w1 where "buf_fill c i w = Some (r, c1, w1)" "circular_ok c1" "filled i t w (content c) r w1 (content c1)" "fds w1 = fds w"
proof -
  obtain v where v: "hev_circular_buffer_writing c = Some v" using writing_ring[OF ok] by blast
  note t = writing_total[OF ok v]
  show thesis
  proof (cases "v = []")
    case True
    have "content c \<noteq> []" using True t ok by (auto simp: circular_ok_def simp flip: length_0_conv)
    moreover have "buf_fill c i w = Some (1, c, w)" using True v by (simp add: buf_fill_def)
    ultimately show thesis using that ok moved_refl[OF it(1)] by (auto simp: filled_def)
  next
    case False
    have n: "0 < iov_total v" using False t ok by (auto simp: circular_ok_def)
    obtain r s where s: "sys_recv (iov_total v) (sk w i) = (r, s)" by fastforce
    let ?w = "w\<lparr>sk := (sk w)(i := s)\<rparr>"
    have rv: "sys_readv i v w = (r, ?w)" using s it(2) by (simp add: sys_readv_def)
    note m = moved_recv[OF s n it(1)] and k = sys_recv_moves[OF s n]
    show thesis
    proof (cases r)
      case (SysOk bs)
      show thesis
      proof (cases "bs = []")
        case True
        with SysOk v False rv have "buf_fill c i w = Some (-1, c, ?w)" by (simp add: buf_fill_def)
        with that ok m k SysOk True it(1) show thesis by (auto simp: filled_def)
      next
        case bs: False
        let ?c = "hev_circular_buffer_write_finish (c\<lparr>cb_data := scatter (cb_data c) v bs\<rparr>) (length bs)"
        have "length bs \<le> cb_max_size c - cb_use_size c" using k SysOk t by simp
        note wf = write_finish_content[OF ok this v]
        have "buf_fill c i w = Some (1, ?c, ?w)" using SysOk v False rv bs by (simp add: buf_fill_def)
        with that wf m k SysOk bs it(1) show thesis by (auto simp: filled_def)
      qed
    next
      case (SysAgain a)
      with v False rv have "buf_fill c i w = Some (0, c, ?w)" by (simp add: buf_fill_def)
      with that ok m k SysAgain it(1) show thesis by (auto simp: filled_def)
    next
      case SysErr
      with v False rv have "buf_fill c i w = Some (-1, c, ?w)" by (simp add: buf_fill_def)
      with that ok m k SysErr it(1) show thesis by (auto simp: filled_def)
    qed
  qed
qed

lemma writev_fds: "sys_writev t iov w = (r, w') \<Longrightarrow> fds w' = fds w"
  by (auto simp: sys_writev_def split: if_splits prod.splits)

lemma buf_splice_relays:
  assumes ok: "circular_ok c" and it: "i \<noteq> t" "i \<in> set (fds w)" "t \<in> set (fds w)"
  shows "\<exists>r c' w' sh'. buf_splice c i t (w, sh) = Some (r, c', w', sh') \<and> circular_ok c' \<and> relayed i t w sh (content c) r w' sh' (content c')"
proof (rule buf_fill_run[OF ok it(1,2)])
  fix r c1 w1 assume f: "buf_fill c i w = Some (r, c1, w1)" "circular_ok c1" "filled i t w (content c) r w1 (content c1)" "fds w1 = fds w"
  show ?thesis
  proof (cases "content c1 = []")
    case True
    then have e: "hev_circular_buffer_reading c1 = []" using circular_reading_empty by blast
    show ?thesis
    proof (cases "r < 0")
      case r: True
      with f(1) e have "buf_splice c i t (w, sh) = Some (r, c1, w1, t # sh)" by (simp add: buf_splice_def sys_shutdown_def)
      with f(2) relayed_over[OF f(3)[unfolded True] r] True show ?thesis by auto
    next
      case r: False
      with f(1) e have "buf_splice c i t (w, sh) = Some (r, c1, w1, sh)" by (simp add: buf_splice_def)
      with f(2) relayed_idle[OF f(3)[unfolded True]] r True show ?thesis by auto
    qed
  next
    case ne: False
    then have e: "hev_circular_buffer_reading c1 \<noteq> []" using circular_reading_empty by blast
    obtain q w2 where q: "sys_writev t [content c1] w1 = (q, w2)" by fastforce
    have g: "gather (cb_data c1) (hev_circular_buffer_reading c1) = content c1" by (rule reading_content[OF f(2)])
    have t1: "t \<in> set (fds w1)" using it f(4) by simp
    note d = writev_drains[OF q ne it(1) t1, of "[]", simplified]
    show ?thesis
    proof (cases q)
      case (SysOk k)
      with d have k: "k \<le> cb_use_size c1" "drained i t w1 (content c1) (if k = 0 then -1 else 1) w2 (drop k (content c1))" by simp_all
      show ?thesis
      proof (cases "k = 0")
        case True
        with f(1) e q g SysOk have "buf_splice c i t (w, sh) = Some (-1, c1, w2, sh)" by (simp add: buf_splice_def)
        with relayed_both[OF f(3) k(2) ne, of sh] f(2) True show ?thesis by simp
      next
        case False
        from read_finish_content[OF f(2) k(1)] obtain c2 where c2: "hev_circular_buffer_read_finish c1 k = Some c2" "circular_ok c2"
          "content c2 = drop k (content c1)" by blast
        with f(1) e q g SysOk False have "buf_splice c i t (w, sh) = Some (1, c2, w2, sh)" by (simp add: buf_splice_def)
        with relayed_both[OF f(3) k(2) ne, of sh] c2 False show ?thesis by simp
      qed
    next
      case (SysAgain a)
      with f(1) e q g have "buf_splice c i t (w, sh) = Some (0, c1, w2, sh)" by (simp add: buf_splice_def)
      moreover from d SysAgain have "drained i t w1 (content c1) 0 w2 (content c1)" by simp
      ultimately show ?thesis using relayed_both[OF f(3) _ ne] f(2) by blast
    next
      case SysErr
      with f(1) e q g have "buf_splice c i t (w, sh) = Some (-1, c1, w2, sh)" by (simp add: buf_splice_def)
      moreover from d SysErr have "drained i t w1 (content c1) (-1) w2 (content c1)" by simp
      ultimately show ?thesis using relayed_both[OF f(3) _ ne] f(2) by blast
    qed
  qed
qed

text \<open>The buffer of a splicer has one owner.\<close>

definition buf_ok :: "circular_buffer \<Rightarrow> bool" where
  "buf_ok c \<longleftrightarrow> circular_ok c \<and> cb_ref_count c = 1"

lemma buf_fill_ref: "buf_fill c i w = Some (r, c', w') \<Longrightarrow> cb_ref_count c' = cb_ref_count c"
  by (auto simp: buf_fill_def hev_circular_buffer_write_finish_def Option.bind_eq_Some_conv split: if_splits prod.splits sys_ret.splits)

lemma buf_splice_ref:
  assumes "buf_splice c i t (w, sh) = Some (r, c', e)"
  shows "cb_ref_count c' = cb_ref_count c"
proof -
  from assms obtain r1 c1 w1 where f: "buf_fill c i w = Some (r1, c1, w1)" by (auto simp: buf_splice_def Option.bind_eq_Some_conv)
  obtain q w2 where q: "sys_writev t [gather (cb_data c1) (hev_circular_buffer_reading c1)] w1 = (q, w2)" by fastforce
  have "cb_ref_count c' = cb_ref_count c1" using assms f q
    by (cases q) (auto simp: buf_splice_def hev_circular_buffer_read_finish_def Let_def Option.bind_eq_Some_conv split: if_splits)
  with buf_fill_ref[OF f] show ?thesis by simp
qed

interpretation buf: byte_relay buf_splice content buf_ok "\<lambda>_. []"
proof
  fix b i t sh and w :: net assume "buf_ok b" "i \<noteq> t" "i \<in> set (fds w)" "t \<in> set (fds w)"
  moreover from this(1) have "circular_ok b" by (simp add: buf_ok_def)
  ultimately obtain r b' w' sh' where "buf_splice b i t (w, sh) = Some (r, b', w', sh')" "circular_ok b'"
    "relayed i t w sh (content b) r w' sh' (content b')" using buf_splice_relays[of b i t w sh] by blast
  with buf_splice_ref[OF this(1)] \<open>buf_ok b\<close> show "\<exists>r b' w' sh'. buf_splice b i t (w, sh) = Some (r, b', w', sh') \<and> buf_ok b' \<and>
      ([] :: int list) = [] \<and> relayed i t w sh (content b) r w' sh' (content b')" by (auto simp: buf_ok_def)
qed

definition pipe_ok :: "pipe_splicer \<Rightarrow> bool" where
  "pipe_ok p \<longleftrightarrow> ps_wlen p = length (ps_pipe p) \<and> 0 < ps_blen p"

lemma pipe_fill_run:
  assumes ok: "pipe_ok p" and it: "i \<noteq> t" "i \<in> set (fds w)"
  obtains r p1 w1 where "pipe_fill p i w = (r, p1, w1)" "pipe_ok p1" "filled i t w (ps_pipe p) r w1 (ps_pipe p1)" "fds w1 = fds w"
    "ps_fd0 p1 = ps_fd0 p" "ps_fd1 p1 = ps_fd1 p"
proof -
  let ?n = "min (ps_blen p) (pipe_room p)" and ?p = "p\<lparr>ps_rooms := drop 1 (ps_rooms p)\<rparr>"
  have okp: "pipe_ok ?p" using ok by (simp add: pipe_ok_def)
  show thesis
  proof (cases "?n = 0")
    case True
    then have "ps_pipe p \<noteq> []" using ok by (auto simp: pipe_ok_def pipe_room_def Let_def)
    moreover have "pipe_fill p i w = (0, ?p, w)" using True by (simp add: pipe_fill_def sys_splice_in_def)
    ultimately show thesis using that[of 0 ?p w] okp moved_refl[OF it(1), of w] by (simp add: filled_def)
  next
    case False
    then have n: "0 < ?n" by simp
    note z = False
    obtain r s where s: "sys_recv ?n (sk w i) = (r, s)" by fastforce
    let ?w = "w\<lparr>sk := (sk w)(i := s)\<rparr>"
    note m = moved_recv[OF s n it(1)] and k = sys_recv_moves[OF s n]
    show thesis
    proof (cases r)
      case (SysOk bs)
      let ?q = "?p\<lparr>ps_pipe := ps_pipe p @ bs\<rparr>"
      have q: "sys_splice_in i p w = (SysOk (length bs), ?q, ?w)"
        using s it(2) SysOk by (simp add: z sys_splice_in_def Let_def)
      show thesis
      proof (cases "bs = []")
        case True
        with q have "pipe_fill p i w = (-1, ?q, ?w)" by (simp add: pipe_fill_def)
        with that[of "-1" ?q ?w] okp m k SysOk True it(1) show thesis by (auto simp: filled_def pipe_ok_def)
      next
        case bs: False
        let ?r = "?q\<lparr>ps_wlen := ps_wlen p + length bs\<rparr>"
        from q bs have "pipe_fill p i w = (1, ?r, ?w)" by (simp add: pipe_fill_def)
        with that[of 1 ?r ?w] okp m k SysOk bs it(1) show thesis by (auto simp: filled_def pipe_ok_def)
      qed
    next
      case (SysAgain a)
      with s it(2) have "pipe_fill p i w = (0, ?p, ?w)" by (simp add: z pipe_fill_def sys_splice_in_def Let_def)
      with that[of 0 ?p ?w] okp m k SysAgain it(1) show thesis by (auto simp: filled_def)
    next
      case SysErr
      with s it(2) have "pipe_fill p i w = (-1, ?p, ?w)" by (simp add: z pipe_fill_def sys_splice_in_def Let_def)
      with that[of "-1" ?p ?w] okp m k SysErr it(1) show thesis by (auto simp: filled_def)
    qed
  qed
qed

lemma pipe_splice_relays:
  assumes ok: "pipe_ok p" and it: "i \<noteq> t" "i \<in> set (fds w)" "t \<in> set (fds w)"
  shows "\<exists>r p' w' sh'. pipe_splice p i t (w, sh) = Some (r, p', w', sh') \<and> pipe_ok p' \<and> relayed i t w sh (ps_pipe p) r w' sh' (ps_pipe p')"
proof (rule pipe_fill_run[OF ok it(1,2)])
  fix r p1 w1 assume f: "pipe_fill p i w = (r, p1, w1)" "pipe_ok p1" "filled i t w (ps_pipe p) r w1 (ps_pipe p1)" "fds w1 = fds w"
  show ?thesis
  proof (cases "ps_pipe p1 = []")
    case True
    then have e: "ps_wlen p1 = 0" using f(2) by (simp add: pipe_ok_def)
    show ?thesis
    proof (cases "r < 0")
      case r: True
      with f(1) e have "pipe_splice p i t (w, sh) = Some (r, p1, w1, t # sh)" by (simp add: pipe_splice_def sys_shutdown_def)
      with f(2) relayed_over[OF f(3)[unfolded True] r] True show ?thesis by auto
    next
      case r: False
      with f(1) e have "pipe_splice p i t (w, sh) = Some (r, p1, w1, sh)" by (simp add: pipe_splice_def)
      with f(2) relayed_idle[OF f(3)[unfolded True]] r True show ?thesis by auto
    qed
  next
    case ne: False
    let ?a = "take (ps_blen p1) (ps_pipe p1)" and ?b = "drop (ps_blen p1) (ps_pipe p1)"
    have e: "ps_wlen p1 \<noteq> 0" "?a \<noteq> []" using ne f(2) by (auto simp: pipe_ok_def)
    obtain q w2 where q: "sys_writev t [?a] w1 = (q, w2)" by fastforce
    have t1: "t \<in> set (fds w1)" using it f(4) by simp
    note d = writev_drains[OF q e(2) it(1) t1, of ?b, unfolded append_take_drop_id]
    show ?thesis
    proof (cases q)
      case (SysOk k)
      let ?p2 = "p1\<lparr>ps_pipe := drop k (ps_pipe p1)\<rparr>"
      from d SysOk have k: "k \<le> length ?a" "drained i t w1 (ps_pipe p1) (if k = 0 then -1 else 1) w2 (drop k (ps_pipe p1))" by simp_all
      have so: "sys_splice_out t p1 w1 = (SysOk k, ?p2, w2)" using q SysOk by (simp add: sys_splice_out_def)
      show ?thesis
      proof (cases "k = 0")
        case True
        with f(1) e so have "pipe_splice p i t (w, sh) = Some (-1, ?p2, w2, sh)" by (simp add: pipe_splice_def)
        with relayed_both[OF f(3) k(2) ne, of sh] f(2) True show ?thesis by (simp add: pipe_ok_def)
      next
        case False
        with f(1) e so have "pipe_splice p i t (w, sh) = Some (1, ?p2\<lparr>ps_wlen := ps_wlen p1 - k\<rparr>, w2, sh)" by (simp add: pipe_splice_def)
        with relayed_both[OF f(3) k(2) ne, of sh] f(2) False show ?thesis by (simp add: pipe_ok_def)
      qed
    next
      case (SysAgain a)
      have "sys_splice_out t p1 w1 = (q, p1, w2)" using q SysAgain by (simp add: sys_splice_out_def)
      with f(1) e SysAgain have "pipe_splice p i t (w, sh) = Some (0, p1, w2, sh)" by (simp add: pipe_splice_def)
      moreover from d SysAgain have "drained i t w1 (ps_pipe p1) 0 w2 (ps_pipe p1)" by simp
      ultimately show ?thesis using relayed_both[OF f(3) _ ne] f(2) by blast
    next
      case SysErr
      have "sys_splice_out t p1 w1 = (q, p1, w2)" using q SysErr by (simp add: sys_splice_out_def)
      with f(1) e SysErr have "pipe_splice p i t (w, sh) = Some (-1, p1, w2, sh)" by (simp add: pipe_splice_def)
      moreover from d SysErr have "drained i t w1 (ps_pipe p1) (-1) w2 (ps_pipe p1)" by simp
      ultimately show ?thesis using relayed_both[OF f(3) _ ne] f(2) by blast
    qed
  qed
qed

text \<open>The descriptors of the pipe, the younger first.\<close>

definition pipe_own :: "pipe_splicer \<Rightarrow> int list" where
  "pipe_own p = [ps_fd1 p, ps_fd0 p]"

lemma pipe_splice_own: "pipe_splice p i t (w, sh) = Some (r, p', e) \<Longrightarrow> pipe_own p' = pipe_own p"
  by (auto simp: pipe_own_def pipe_splice_def pipe_fill_def sys_splice_in_def sys_splice_out_def Let_def split: if_splits prod.splits sys_ret.splits)

interpretation pipe: byte_relay pipe_splice ps_pipe pipe_ok pipe_own
proof
  fix b i t sh and w :: net assume "pipe_ok b" "i \<noteq> t" "i \<in> set (fds w)" "t \<in> set (fds w)"
  with pipe_splice_relays[of b i t w sh] show "\<exists>r b' w' sh'. pipe_splice b i t (w, sh) = Some (r, b', w', sh') \<and> pipe_ok b' \<and>
      pipe_own b' = pipe_own b \<and> relayed i t w sh (ps_pipe b) r w' sh' (ps_pipe b')" using pipe_splice_own by blast
qed

subsection \<open>Two directions\<close>

text \<open>What both directions have done: \<open>a\<close> to \<open>d\<close> has read \<open>nf\<close> and written \<open>outf\<close>, \<open>d\<close> to \<open>a\<close> has read \<open>nb\<close> and written \<open>outb\<close>.\<close>

definition exchanged :: "int \<Rightarrow> int \<Rightarrow> bytes \<Rightarrow> bytes \<Rightarrow> bytes \<Rightarrow> bytes \<Rightarrow> net \<Rightarrow> net \<Rightarrow> bool" where
  "exchanged a d nf outf nb outb w w' \<longleftrightarrow> (\<exists>g. w' = w\<lparr>sk := g\<rparr> \<and> (\<forall>e. e \<noteq> a \<longrightarrow> e \<noteq> d \<longrightarrow> g e = sk w e) \<and>
     arrived (rxq (sk w a)) = nf @ arrived (rxq (g a)) \<and> sent (g d) = sent (sk w d) @ outf \<and>
     arrived (rxq (sk w d)) = nb @ arrived (rxq (g d)) \<and> sent (g a) = sent (sk w a) @ outb)"

lemma exchanged_refl: "exchanged a d [] [] [] [] w w"
  unfolding exchanged_def by (rule exI[of _ "sk w"]) simp

lemma exchanged_trans:
  assumes "exchanged a d n1 o1 m1 p1 w w1" "exchanged a d n2 o2 m2 p2 w1 w2"
  shows "exchanged a d (n1 @ n2) (o1 @ o2) (m1 @ m2) (p1 @ p2) w w2"
proof -
  from assms(1) obtain g where g: "w1 = w\<lparr>sk := g\<rparr>" and a: "\<forall>e. e \<noteq> a \<longrightarrow> e \<noteq> d \<longrightarrow> g e = sk w e"
    "arrived (rxq (sk w a)) = n1 @ arrived (rxq (g a))" "sent (g d) = sent (sk w d) @ o1"
    "arrived (rxq (sk w d)) = m1 @ arrived (rxq (g d))" "sent (g a) = sent (sk w a) @ p1" unfolding exchanged_def by blast
  from assms(2) obtain h where h: "w2 = w1\<lparr>sk := h\<rparr>" and b: "\<forall>e. e \<noteq> a \<longrightarrow> e \<noteq> d \<longrightarrow> h e = sk w1 e"
    "arrived (rxq (sk w1 a)) = n2 @ arrived (rxq (h a))" "sent (h d) = sent (sk w1 d) @ o2"
    "arrived (rxq (sk w1 d)) = m2 @ arrived (rxq (h d))" "sent (h a) = sent (sk w1 a) @ p2" unfolding exchanged_def by blast
  have s1: "sk w1 = g" using g by simp
  show ?thesis unfolding exchanged_def
    by (rule exI[of _ h]) (use a b h g in \<open>simp add: s1\<close>)
qed

lemma moved_exchanged:
  assumes "moved i t new out w w'" "i \<noteq> t"
  shows "exchanged i t new out [] [] w w'" "exchanged t i [] [] new out w w'"
proof -
  from assms(1) obtain g where g: "w' = w\<lparr>sk := g\<rparr>" "\<forall>d. d \<noteq> i \<longrightarrow> d \<noteq> t \<longrightarrow> g d = sk w d"
    "arrived (rxq (sk w i)) = new @ arrived (rxq (g i))" "sent (g t) = sent (sk w t) @ out"
    "rxq (g t) = rxq (sk w t)" "sent (g i) = sent (sk w i)" unfolding moved_def by blast
  show "exchanged i t new out [] [] w w'" "exchanged t i [] [] new out w w'"
    unfolding exchanged_def by (rule exI[of _ g], use g in simp)+
qed

definition fair :: "int \<Rightarrow> int \<Rightarrow> net \<Rightarrow> bool" where
  "fair i t w \<longleftrightarrow> rx_fair (rxq (sk w i)) \<and> tx_fair (txq (sk w t))"

lemma moved_fair:
  assumes "moved i t new out w w'" "i \<noteq> t"
  shows "fair i t w \<Longrightarrow> fair i t w'" "fair t i w \<Longrightarrow> fair t i w'" "fds w' = fds w" "rxq (sk w' t) = rxq (sk w t)"
    "work t i w' c = work t i w c"
  using assms unfolding moved_def fair_def work_def by auto

lemma tx_fair_not_over: "tx_fair q \<Longrightarrow> \<not> tx_over q"
  by (cases q rule: tx_over.cases) (auto simp: tx_fair_def)

lemma rx_fair_over: "rx_fair q \<Longrightarrow> rx_over q \<Longrightarrow> arrived q = []"
  by (cases q rule: rx_over.cases) (auto simp: rx_fair_def)

text \<open>A direction that has ended orderly.\<close>

definition complete :: "int \<Rightarrow> int \<Rightarrow> int \<Rightarrow> bytes \<Rightarrow> net \<Rightarrow> int list \<Rightarrow> bool" where
  "complete i t res c w sh \<longleftrightarrow> (res < 0 \<longrightarrow> t \<in> set sh \<and> c = [] \<and> arrived (rxq (sk w i)) = [])"

definition left :: "int \<Rightarrow> int \<Rightarrow> int \<Rightarrow> net \<Rightarrow> bytes \<Rightarrow> nat" where
  "left i t res w c = (if 0 \<le> res then work i t w c else 0)"

text \<open>The sending side is shut down only at the orderly end.\<close>

definition shut_ok :: "int \<Rightarrow> int \<Rightarrow> bytes \<Rightarrow> int list \<Rightarrow> bool" where
  "shut_ok t res c sh \<longleftrightarrow> (t \<in> set sh \<longrightarrow> res < 0 \<and> c = [])"

context byte_relay begin

lemma op_step_relays:
  assumes ops: "op_splice ops = step" and ok: "good b" "i \<noteq> t" "i \<in> set (fds w)" "t \<in> set (fds w)" and s: "shut_ok t res (held b) sh"
  obtains r b' w' sh' new out where "op_step ops res b i t (w, sh) = Some (r, b', w', sh')" "good b'" "own b' = own b" "moved i t new out w w'"
    "held b @ new = out @ held b'" "shut_ok t r (held b') sh'" "sh' = sh \<or> sh' = t # sh" "res < 0 \<longrightarrow> r = res \<and> w' = w \<and> b' = b"
    "fair i t w \<and> complete i t res (held b) w sh \<longrightarrow> complete i t r (held b') w' sh' \<and> (0 \<le> r \<longrightarrow> left i t r w' (held b') < left i t res w (held b))"
proof (cases "0 \<le> res")
  case False
  with that[of res b w sh "[]" "[]"] ok s moved_refl[OF ok(2)] show thesis by (simp add: op_step_def)
next
  case True
  from step_relays[OF ok, of sh] obtain r b' w' sh' where r: "step b i t (w, sh) = Some (r, b', w', sh')" "good b'" "own b' = own b"
    "relayed i t w sh (held b) r w' sh' (held b')" by blast
  from r(4) obtain new out where m: "moved i t new out w w'" "held b @ new = out @ held b'"
    and c: "r = -1 \<and> sh' = t # sh \<and> held b' = [] \<and> rx_over (rxq (sk w i)) \<or>
      r = -1 \<and> sh' = sh \<and> tx_over (txq (sk w t)) \<or>
      (r = 0 \<or> r = 1) \<and> sh' = sh \<and> (work i t w' (held b') < work i t w (held b) \<or> rxq (sk w i) = [] \<and> held b = [])"
    unfolding relayed_def by blast
  have n: "t \<notin> set sh" using s True by (auto simp: shut_ok_def)
  have st: "op_step ops res b i t (w, sh) = Some (r, b', w', sh')" using True r(1) ops by (simp add: op_step_def)
  have arr: "arrived (rxq (sk w i)) = new @ arrived (rxq (sk w' i))" using m(1) ok(2) by (auto simp: moved_def)
  show thesis
  proof (rule that[OF st r(2,3) m])
    show "shut_ok t r (held b') sh'" using c n by (auto simp: shut_ok_def)
    show "sh' = sh \<or> sh' = t # sh" using c by blast
    show "res < 0 \<longrightarrow> r = res \<and> w' = w \<and> b' = b" using True by simp
    show "fair i t w \<and> complete i t res (held b) w sh \<longrightarrow>
      complete i t r (held b') w' sh' \<and> (0 \<le> r \<longrightarrow> left i t r w' (held b') < left i t res w (held b))"
    proof (rule impI, elim conjE)
    assume f: "fair i t w"
    then have e: "\<not> tx_over (txq (sk w t))" "rxq (sk w i) \<noteq> []" "rx_over (rxq (sk w i)) \<Longrightarrow> arrived (rxq (sk w i)) = []"
      using tx_fair_not_over rx_fair_over by (auto simp: fair_def rx_fair_def)
    show "complete i t r (held b') w' sh' \<and> (0 \<le> r \<longrightarrow> left i t r w' (held b') < left i t res w (held b))"
      using c e arr True by (auto simp: complete_def left_def)
    qed
  qed
qed

end

text \<open>The two halves of a turn, and what they keep.\<close>

definition both_ok :: "int \<Rightarrow> int \<Rightarrow> int \<Rightarrow> int \<Rightarrow> bytes \<Rightarrow> bytes \<Rightarrow> int list \<Rightarrow> bool" where
  "both_ok a d rf rb cf cb sh \<longleftrightarrow> shut_ok d rf cf sh \<and> shut_ok a rb cb sh"

definition both_fine :: "int \<Rightarrow> int \<Rightarrow> int \<Rightarrow> int \<Rightarrow> bytes \<Rightarrow> bytes \<Rightarrow> net \<Rightarrow> int list \<Rightarrow> bool" where
  "both_fine a d rf rb cf cb w sh \<longleftrightarrow> fair a d w \<and> fair d a w \<and> complete a d rf cf w sh \<and> complete d a rb cb w sh"

definition both_left :: "int \<Rightarrow> int \<Rightarrow> int \<Rightarrow> int \<Rightarrow> bytes \<Rightarrow> bytes \<Rightarrow> net \<Rightarrow> nat" where
  "both_left a d rf rb cf cb w = left a d rf w cf + left d a rb w cb"

lemma loop_over: "rf < 0 \<Longrightarrow> rb < 0 \<Longrightarrow> \<not> (rf > 0 \<or> rb > 0) \<and> rf AND rb \<noteq> (0::int)"
proof -
  assume "rf < 0" "rb < 0"
  then have "rf AND rb < 0" by simp
  with \<open>rf < 0\<close> \<open>rb < 0\<close> show ?thesis by linarith
qed

context byte_relay begin

lemma turn_relays:
  assumes ops: "op_splice ops = step" and ad: "a \<noteq> d" and ok: "good f" "good b" and fd: "a \<in> set (fds w)" "d \<in> set (fds w)"
    and s: "both_ok a d rf rb (held f) (held b) sh"
  obtains rf1 f1 w1 sh1 rb1 b1 w2 sh2 nf outf nb outb where
    "op_step ops rf f a d (w, sh) = Some (rf1, f1, w1, sh1)" "op_step ops rb b d a (w1, sh1) = Some (rb1, b1, w2, sh2)"
    "good f1" "good b1" "own f1 = own f \<and> own b1 = own b" "exchanged a d nf outf nb outb w w2" "held f @ nf = outf @ held f1" "held b @ nb = outb @ held b1"
    "both_ok a d rf1 rb1 (held f1) (held b1) sh2" "fds w2 = fds w"
    "both_fine a d rf rb (held f) (held b) w sh \<longrightarrow> both_fine a d rf1 rb1 (held f1) (held b1) w2 sh2 \<and>
      (0 \<le> rf1 \<or> 0 \<le> rb1 \<longrightarrow> both_left a d rf1 rb1 (held f1) (held b1) w2 < both_left a d rf rb (held f) (held b) w)"
proof -
  from s have s': "shut_ok d rf (held f) sh" "shut_ok a rb (held b) sh" by (simp_all add: both_ok_def)
  obtain rf1 f1 w1 sh1 nf outf where
    F: "op_step ops rf f a d (w, sh) = Some (rf1, f1, w1, sh1)" "good f1" "own f1 = own f" "moved a d nf outf w w1" "held f @ nf = outf @ held f1"
      "shut_ok d rf1 (held f1) sh1" "sh1 = sh \<or> sh1 = d # sh" "rf < 0 \<longrightarrow> rf1 = rf \<and> w1 = w \<and> f1 = f"
      "fair a d w \<and> complete a d rf (held f) w sh \<longrightarrow> complete a d rf1 (held f1) w1 sh1 \<and> (0 \<le> rf1 \<longrightarrow> left a d rf1 w1 (held f1) < left a d rf w (held f))"
    by (rule op_step_relays[OF ops ok(1) ad fd s'(1)])
  note mf = moved_fair[OF F(4) ad]
  have fd1: "d \<in> set (fds w1)" "a \<in> set (fds w1)" using fd mf(3) by simp_all
  have s1: "shut_ok a rb (held b) sh1" using s'(2) F(7) ad by (auto simp: shut_ok_def)
  obtain rb1 b1 w2 sh2 nb outb where
    B: "op_step ops rb b d a (w1, sh1) = Some (rb1, b1, w2, sh2)" "good b1" "own b1 = own b" "moved d a nb outb w1 w2" "held b @ nb = outb @ held b1"
      "shut_ok a rb1 (held b1) sh2" "sh2 = sh1 \<or> sh2 = a # sh1" "rb < 0 \<longrightarrow> rb1 = rb \<and> w2 = w1 \<and> b1 = b"
      "fair d a w1 \<and> complete d a rb (held b) w1 sh1 \<longrightarrow> complete d a rb1 (held b1) w2 sh2 \<and> (0 \<le> rb1 \<longrightarrow> left d a rb1 w2 (held b1) < left d a rb w1 (held b))"
    by (rule op_step_relays[OF ops ok(2) ad[symmetric] fd1 s1])
  note mb = moved_fair[OF B(4) ad[symmetric]]
  have ex: "exchanged a d nf outf nb outb w w2"
    using exchanged_trans[OF moved_exchanged(1)[OF F(4) ad] moved_exchanged(2)[OF B(4) ad[symmetric]]] by simp
  show thesis
  proof (rule that[OF F(1) B(1) F(2) B(2) conjI[OF F(3) B(3)] ex F(5) B(5)])
    show "both_ok a d rf1 rb1 (held f1) (held b1) sh2" using F(6) B(6,7) ad by (auto simp: both_ok_def shut_ok_def)
    show "fds w2 = fds w" using mf(3) mb(3) by simp
    show "both_fine a d rf rb (held f) (held b) w sh \<longrightarrow> both_fine a d rf1 rb1 (held f1) (held b1) w2 sh2 \<and>
      (0 \<le> rf1 \<or> 0 \<le> rb1 \<longrightarrow> both_left a d rf1 rb1 (held f1) (held b1) w2 < both_left a d rf rb (held f) (held b) w)"
    proof
    assume fine: "both_fine a d rf rb (held f) (held b) w sh"
    then have c1: "fair a d w1" "fair d a w1" "complete a d rf1 (held f1) w1 sh1" "0 \<le> rf1 \<longrightarrow> left a d rf1 w1 (held f1) < left a d rf w (held f)"
      "complete d a rb (held b) w1 sh1"
      using F(7,9) mf(1,2,4) by (auto simp: both_fine_def complete_def)
    then have c2: "fair a d w2" "fair d a w2" "complete d a rb1 (held b1) w2 sh2" "0 \<le> rb1 \<longrightarrow> left d a rb1 w2 (held b1) < left d a rb w1 (held b)"
      "complete a d rf1 (held f1) w2 sh2"
      using B(7,9) mb(1,2,4) by (auto simp: complete_def)
    have l: "left d a rb w1 (held b) = left d a rb w (held b)" "left a d rf1 w2 (held f1) = left a d rf1 w1 (held f1)"
      using mf(5) mb(5) by (simp_all add: left_def)
    have z: "left d a rb1 w2 (held b1) \<le> left d a rb w (held b)" "left a d rf1 w1 (held f1) \<le> left a d rf w (held f)"
      using c1(4) c2(4) l(1) by (auto simp: left_def split: if_splits)
    show "both_fine a d rf1 rb1 (held f1) (held b1) w2 sh2 \<and>
      (0 \<le> rf1 \<or> 0 \<le> rb1 \<longrightarrow> both_left a d rf1 rb1 (held f1) (held b1) w2 < both_left a d rf rb (held f) (held b) w)"
      using c1 c2 l z by (auto simp: both_fine_def both_left_def)
    qed
  qed
qed

text \<open>
  The loop is defined whatever happens. It exchanges two streams of bytes, of which only those in the two
  buffers are under way, and a sending side that has been shut down has got everything. When both inputs end and no socket
  fails, and the yielder does not give up, it ends after as many turns as there is work, with everything exchanged.
\<close>

lemma loop_relays:
  assumes ops: "op_splice ops = step" and ad: "a \<noteq> d"
  shows "good f \<Longrightarrow> good b \<Longrightarrow> a \<in> set (fds w) \<Longrightarrow> d \<in> set (fds w) \<Longrightarrow> both_ok a d rf rb (held f) (held b) sh \<Longrightarrow>
    \<exists>fin rf' rb' f' b' w' sh' nf outf nb outb.
      io_splice_loop ops y a a d d rf rb rounds (f, b, w, sh) = Some (fin, rf', rb', f', b', w', sh') \<and> good f' \<and> good b' \<and> own f' = own f \<and> own b' = own b \<and>
      exchanged a d nf outf nb outb w w' \<and> held f @ nf = outf @ held f' \<and> held b @ nb = outb @ held b' \<and>
      both_ok a d rf' rb' (held f') (held b') sh' \<and> fds w' = fds w \<and>
      (both_fine a d rf rb (held f) (held b) w sh \<and> (\<forall>r \<in> set rounds. \<forall>s type. y = Some s \<longrightarrow> s type r = 0) \<and>
       both_left a d rf rb (held f) (held b) w \<le> length rounds \<longrightarrow>
         fin \<and> rf' < 0 \<and> rb' < 0 \<and> both_fine a d rf' rb' (held f') (held b') w' sh')"
proof (induction rounds arbitrary: f b w sh rf rb)
  case Nil
  obtain rf1 f1 w1 sh1 rb1 b1 w2 sh2 nf outf nb outb where
    T: "op_step ops rf f a d (w, sh) = Some (rf1, f1, w1, sh1)" "op_step ops rb b d a (w1, sh1) = Some (rb1, b1, w2, sh2)"
      "good f1" "good b1" "own f1 = own f \<and> own b1 = own b" "exchanged a d nf outf nb outb w w2" "held f @ nf = outf @ held f1" "held b @ nb = outb @ held b1"
      "both_ok a d rf1 rb1 (held f1) (held b1) sh2" "fds w2 = fds w"
      "both_fine a d rf rb (held f) (held b) w sh \<longrightarrow> both_fine a d rf1 rb1 (held f1) (held b1) w2 sh2 \<and>
        (0 \<le> rf1 \<or> 0 \<le> rb1 \<longrightarrow> both_left a d rf1 rb1 (held f1) (held b1) w2 < both_left a d rf rb (held f) (held b) w)"
    by (rule turn_relays[OF ops ad Nil])
  let ?fin = "\<not> (rf1 > 0 \<or> rb1 > 0) \<and> rf1 AND rb1 \<noteq> 0"
  have r: "io_splice_loop ops y a a d d rf rb [] (f, b, w, sh) = Some (?fin, rf1, rb1, f1, b1, w2, sh2)"
    using T(1,2) by (subst io_splice_loop.simps) simp
  have "both_fine a d rf rb (held f) (held b) w sh \<and> both_left a d rf rb (held f) (held b) w \<le> 0 \<longrightarrow>
      ?fin \<and> rf1 < 0 \<and> rb1 < 0 \<and> both_fine a d rf1 rb1 (held f1) (held b1) w2 sh2"
    using T(11) loop_over[of rf1 rb1] by auto
  with r T(3-10) show ?case by (simp only: list.size) blast
next
  case (Cons r rounds)
  obtain rf1 f1 w1 sh1 rb1 b1 w2 sh2 nf outf nb outb where
    T: "op_step ops rf f a d (w, sh) = Some (rf1, f1, w1, sh1)" "op_step ops rb b d a (w1, sh1) = Some (rb1, b1, w2, sh2)"
      "good f1" "good b1" "own f1 = own f \<and> own b1 = own b" "exchanged a d nf outf nb outb w w2" "held f @ nf = outf @ held f1" "held b @ nb = outb @ held b1"
      "both_ok a d rf1 rb1 (held f1) (held b1) sh2" "fds w2 = fds w"
      "both_fine a d rf rb (held f) (held b) w sh \<longrightarrow> both_fine a d rf1 rb1 (held f1) (held b1) w2 sh2 \<and>
        (0 \<le> rf1 \<or> 0 \<le> rb1 \<longrightarrow> both_left a d rf1 rb1 (held f1) (held b1) w2 < both_left a d rf rb (held f) (held b) w)"
    by (rule turn_relays[OF ops ad Cons.prems])
  let ?go = "rf1 > 0 \<or> rb1 > 0 \<or> rf1 AND rb1 = 0"
  let ?type = "if rf1 > 0 \<or> rb1 > 0 then HEV_TASK_YIELD else HEV_TASK_WAITIO"
  let ?stop = "case y of Some s \<Rightarrow> s ?type r \<noteq> 0 | None \<Rightarrow> False"
  have r: "io_splice_loop ops y a a d d rf rb (r # rounds) (f, b, w, sh) =
      (if ?go \<and> \<not> ?stop then io_splice_loop ops y a a d d rf1 rb1 rounds (f1, b1, w2, sh2)
       else Some (True, rf1, rb1, f1, b1, w2, sh2))"
    using T(1,2) by (subst io_splice_loop.simps) (auto split: option.splits)
  show ?case
  proof (cases "?go \<and> \<not> ?stop")
    case False
    have z: "\<not> ?go \<longrightarrow> rf1 < 0 \<and> rb1 < 0" by (cases "rf1 = 0"; cases "rb1 = 0"; auto)
    have "(\<forall>r \<in> set (r # rounds). \<forall>s type. y = Some s \<longrightarrow> s type r = 0) \<longrightarrow> \<not> ?stop" by (auto split: option.splits)
    with False z T(11) have "both_fine a d rf rb (held f) (held b) w sh \<and> (\<forall>r \<in> set (r # rounds). \<forall>s type. y = Some s \<longrightarrow> s type r = 0) \<longrightarrow>
        rf1 < 0 \<and> rb1 < 0 \<and> both_fine a d rf1 rb1 (held f1) (held b1) w2 sh2" by blast
    with r False T(3-10) show ?thesis by simp blast
  next
    case True
    have fd: "a \<in> set (fds w2)" "d \<in> set (fds w2)" using Cons.prems(3,4) T(10) by simp_all
    from Cons.IH[OF T(3,4) fd T(9)] obtain fin rf' rb' f' b' w' sh' nf2 outf2 nb2 outb2 where
      H: "io_splice_loop ops y a a d d rf1 rb1 rounds (f1, b1, w2, sh2) = Some (fin, rf', rb', f', b', w', sh')" "good f'" "good b'" "own f' = own f1 \<and> own b' = own b1"
      "exchanged a d nf2 outf2 nb2 outb2 w2 w'" "held f1 @ nf2 = outf2 @ held f'" "held b1 @ nb2 = outb2 @ held b'"
      "both_ok a d rf' rb' (held f') (held b') sh'" "fds w' = fds w2"
      "both_fine a d rf1 rb1 (held f1) (held b1) w2 sh2 \<and> (\<forall>r \<in> set rounds. \<forall>s type. y = Some s \<longrightarrow> s type r = 0) \<and>
       both_left a d rf1 rb1 (held f1) (held b1) w2 \<le> length rounds \<longrightarrow>
         fin \<and> rf' < 0 \<and> rb' < 0 \<and> both_fine a d rf' rb' (held f') (held b') w' sh'" by blast
    have e: "exchanged a d (nf @ nf2) (outf @ outf2) (nb @ nb2) (outb @ outb2) w w'" by (rule exchanged_trans[OF T(6) H(5)])
    have c: "held f @ nf @ nf2 = (outf @ outf2) @ held f'" "held b @ nb @ nb2 = (outb @ outb2) @ held b'"
      using T(7,8) H(6,7) by (metis append_assoc)+
    have l: "both_fine a d rf rb (held f) (held b) w sh \<and> (\<forall>r \<in> set (r # rounds). \<forall>s type. y = Some s \<longrightarrow> s type r = 0) \<and>
       both_left a d rf rb (held f) (held b) w \<le> length (r # rounds) \<longrightarrow>
         fin \<and> rf' < 0 \<and> rb' < 0 \<and> both_fine a d rf' rb' (held f') (held b') w' sh'"
    proof (intro impI, elim conjE)
      assume x: "both_fine a d rf rb (held f) (held b) w sh" "\<forall>r \<in> set (r # rounds). \<forall>s type. y = Some s \<longrightarrow> s type r = 0"
        "both_left a d rf rb (held f) (held b) w \<le> length (r # rounds)"
      have "\<not> (rf1 < 0 \<and> rb1 < 0)" using True loop_over[of rf1 rb1] by blast
      then have "0 \<le> rf1 \<or> 0 \<le> rb1" by linarith
      with T(11) x show "fin \<and> rf' < 0 \<and> rb' < 0 \<and> both_fine a d rf' rb' (held f') (held b') w' sh'" using H(10) by auto
    qed
    have "fds w' = fds w" using H(9) T(10) by simp
    with r True H(1,2,3,4,8) T(5) e c l show ?thesis by (simp only: if_True simp_thms) blast
  qed
qed

end

subsection \<open>The whole call\<close>

text \<open>What a splicer holds of the system: its descriptors, registered, and its blocks.\<close>

definition took :: "int list \<Rightarrow> nat \<Rightarrow> net \<Rightarrow> net \<Rightarrow> bool" where
  "took ds k w w1 \<longleftrightarrow> fds w1 = ds @ fds w \<and> polled w1 = ds @ polled w \<and> blocks w1 = k + blocks w \<and> sk w1 = sk w \<and> conns w1 = conns w \<and> net_ok w1"

definition gives_back :: "'b splicer_ops \<Rightarrow> 'b \<Rightarrow> int list \<Rightarrow> nat \<Rightarrow> net \<Rightarrow> bool" where
  "gives_back ops f ds k w \<longleftrightarrow> (\<forall>u ps m. fds w = ds @ u \<and> polled w = ds @ ps \<and> set ds \<inter> set ps = {} \<and> blocks w = k + m \<and> net_ok w \<longrightarrow>
     op_fini ops f w = Some (w\<lparr>fds := u, polled := ps, blocks := m\<rparr>))"

locale splicer = byte_relay step held good own
  for step :: "'b \<Rightarrow> int \<Rightarrow> int \<Rightarrow> splice_env \<Rightarrow> (int \<times> 'b \<times> splice_env) option" and held good own +
  fixes ops :: "'b splicer_ops" and n mem :: nat
  assumes ops_step: "op_splice ops = step"
    and init: "net_ok w \<Longrightarrow> \<exists>x w1. op_init ops n w = Some (x, w1) \<and>
      (case x of None \<Rightarrow> took [] 0 w w1 | Some f \<Rightarrow> good f \<and> held f = [] \<and> took (own f) mem w w1)"
    and fini: "good f \<Longrightarrow> gives_back ops f (own f) mem w"

text \<open>
  \<open>relay_result\<close>: of the bytes read, \<open>cf\<close> and \<open>cb\<close> have not been written; \<open>transferred\<close>: both streams have gone over.
\<close>

definition relay_result :: "int \<Rightarrow> int \<Rightarrow> bytes \<Rightarrow> bytes \<Rightarrow> bytes \<Rightarrow> bytes \<Rightarrow> net \<Rightarrow> net \<Rightarrow> bool" where
  "relay_result a d outf cf outb cb w w' \<longleftrightarrow>
     arrived (rxq (sk w a)) = outf @ cf @ arrived (rxq (sk w' a)) \<and> net_out d w' = net_out d w @ outf \<and>
     arrived (rxq (sk w d)) = outb @ cb @ arrived (rxq (sk w' d)) \<and> net_out a w' = net_out a w @ outb \<and>
     (\<forall>e. e \<noteq> a \<longrightarrow> e \<noteq> d \<longrightarrow> sk w' e = sk w e) \<and> conns w' = conns w"

definition same_resources :: "net \<Rightarrow> net \<Rightarrow> bool" where
  "same_resources w w' \<longleftrightarrow> fds w' = fds w \<and> polled w' = polled w \<and> blocks w' = blocks w \<and> net_ok w'"

definition transferred :: "int \<Rightarrow> int \<Rightarrow> net \<Rightarrow> net \<Rightarrow> int list \<Rightarrow> bool" where
  "transferred a d w w' sh \<longleftrightarrow> net_out d w' = net_out d w @ arrived (rxq (sk w a)) \<and> net_out a w' = net_out a w @ arrived (rxq (sk w d)) \<and>
     a \<in> set sh \<and> d \<in> set sh"

lemma tookD: "took ds k w w1 \<Longrightarrow> net_ok w \<Longrightarrow> set ds \<inter> set (polled w) = {}"
  unfolding took_def net_ok_def by (auto simp: disjoint_iff subset_iff)

lemma net_ok_sk: "net_ok (w\<lparr>sk := g\<rparr>) = net_ok w"
  by (simp add: net_ok_def)

context splicer begin

lemma io_splice_relays:
  assumes ok: "net_ok w" and ad: "a \<noteq> d" "a \<in> set (fds w)" "d \<in> set (fds w)" "a \<notin> set sh" "d \<notin> set sh"
  shows "\<exists>fin w' sh' outf cf outb cb. hev_task_io_splice ops a a d d n y rounds (w, sh) = Some (fin, w', sh') \<and>
    relay_result a d outf cf outb cb w w' \<and> (d \<in> set sh' \<longrightarrow> cf = []) \<and> (a \<in> set sh' \<longrightarrow> cb = []) \<and> (fin \<longrightarrow> same_resources w w') \<and>
    (fair a d w \<and> fair d a w \<and> (\<forall>r \<in> set rounds. \<forall>s type. y = Some s \<longrightarrow> s type r = 0) \<and>
       work a d w [] + work d a w [] \<le> length rounds \<longrightarrow>
     fin \<and> (transferred a d w w' sh' \<or> (\<exists>x w1. op_init ops n w = Some (x, w1) \<and> (x = None \<or> (\<exists>w2. op_init ops n w1 = Some (None, w2))))))"
proof -
  have same: "relay_result a d [] [] [] [] w w1" if "sk w1 = sk w" "conns w1 = conns w" for w1
    using that by (simp add: relay_result_def)
  from init[OF ok] obtain x w1 where i1: "op_init ops n w = Some (x, w1)"
    "case x of None \<Rightarrow> took [] 0 w w1 | Some f \<Rightarrow> good f \<and> held f = [] \<and> took (own f) mem w w1" by blast
  show ?thesis
  proof (cases x)
    case None
    with i1 have t: "took [] 0 w w1" by simp
    have "hev_task_io_splice ops a a d d n y rounds (w, sh) = Some (True, w1, sh)" using i1(1) None by (simp add: hev_task_io_splice_def)
    moreover have "relay_result a d [] [] [] [] w w1" "same_resources w w1" using t same by (auto simp: took_def same_resources_def)
    ultimately show ?thesis using None i1(1) by blast
  next
    case (Some f)
    with i1 have f: "good f" "held f = []" and t1: "took (own f) mem w w1" by simp_all
    have n1: "net_ok w1" using t1 by (simp add: took_def)
    from init[OF n1] obtain z w2 where i2: "op_init ops n w1 = Some (z, w2)"
      "case z of None \<Rightarrow> took [] 0 w1 w2 | Some b \<Rightarrow> good b \<and> held b = [] \<and> took (own b) mem w1 w2" by blast
    show ?thesis
    proof (cases z)
      case None
      with i2 have t2: "took [] 0 w1 w2" by simp
      let ?u = "w2\<lparr>fds := fds w, polled := polled w, blocks := blocks w\<rparr>"
      have "op_fini ops f w2 = Some ?u"
        using fini[OF f(1), of w2] t1 t2 tookD[OF t1 ok] by (auto simp: gives_back_def took_def)
      then have "hev_task_io_splice ops a a d d n y rounds (w, sh) = Some (True, ?u, sh)"
        using i1(1) i2(1) Some None by (simp add: hev_task_io_splice_def)
      moreover have "relay_result a d [] [] [] [] w ?u" "same_resources w ?u"
        using t1 t2 ok by (auto simp: took_def relay_result_def same_resources_def net_ok_def)
      ultimately show ?thesis using None Some i1(1) i2(1) by blast
    next
      case (Some b)
      with i2 have b: "good b" "held b = []" and t2: "took (own b) mem w1 w2" by simp_all
      have fd: "a \<in> set (fds w2)" "d \<in> set (fds w2)" using ad(2,3) t1 t2 by (simp_all add: took_def)
      have s2: "sk w2 = sk w" "conns w2 = conns w" using t1 t2 by (simp_all add: took_def)
      have bo: "both_ok a d 1 1 (held f) (held b) sh" using ad by (simp add: both_ok_def shut_ok_def)
      from loop_relays[OF ops_step ad(1) f(1) b(1) fd bo, of y rounds] obtain fin rf rb f' b' w3 sh' nf outf nb outb where
        L: "io_splice_loop ops y a a d d 1 1 rounds (f, b, w2, sh) = Some (fin, rf, rb, f', b', w3, sh')" "good f'" "good b'"
        "own f' = own f \<and> own b' = own b" "exchanged a d nf outf nb outb w2 w3" "held f @ nf = outf @ held f'" "held b @ nb = outb @ held b'"
        "both_ok a d rf rb (held f') (held b') sh'" "fds w3 = fds w2"
        "both_fine a d 1 1 (held f) (held b) w2 sh \<and> (\<forall>r \<in> set rounds. \<forall>s type. y = Some s \<longrightarrow> s type r = 0) \<and>
         both_left a d 1 1 (held f) (held b) w2 \<le> length rounds \<longrightarrow>
           fin \<and> rf < 0 \<and> rb < 0 \<and> both_fine a d rf rb (held f') (held b') w3 sh'" by blast
      from L(5) obtain g where g: "w3 = w2\<lparr>sk := g\<rparr>" and e: "\<forall>e. e \<noteq> a \<longrightarrow> e \<noteq> d \<longrightarrow> g e = sk w2 e"
        "arrived (rxq (sk w2 a)) = nf @ arrived (rxq (g a))" "sent (g d) = sent (sk w2 d) @ outf"
        "arrived (rxq (sk w2 d)) = nb @ arrived (rxq (g d))" "sent (g a) = sent (sk w2 a) @ outb" unfolding exchanged_def by blast
      have nb: "nf = outf @ held f'" "nb = outb @ held b'" using L(6,7) f(2) b(2) by simp_all
      have rr: "relay_result a d outf (held f') outb (held b') w u" if "sk u = sk w3" "conns u = conns w3" for u
        using that g e s2 nb by (auto simp: relay_result_def)
      have sh: "d \<in> set sh' \<longrightarrow> held f' = []" "a \<in> set sh' \<longrightarrow> held b' = []" using L(8) by (auto simp: both_ok_def shut_ok_def)
      have live: "fair a d w \<and> fair d a w \<and> (\<forall>r \<in> set rounds. \<forall>s type. y = Some s \<longrightarrow> s type r = 0) \<and>
          work a d w [] + work d a w [] \<le> length rounds \<longrightarrow> fin \<and> rf < 0 \<and> rb < 0 \<and> both_fine a d rf rb (held f') (held b') w3 sh'"
        using L(10) f(2) b(2) s2 by (simp add: both_fine_def both_left_def complete_def left_def fair_def work_def)
      show ?thesis
      proof (cases fin)
        case False
        with L(1) i1(1) i2(1) \<open>x = Some f\<close> Some have "hev_task_io_splice ops a a d d n y rounds (w, sh) = Some (False, w3, sh')"
          by (simp add: hev_task_io_splice_def)
        moreover have "relay_result a d outf (held f') outb (held b') w w3" by (rule rr) simp_all
        ultimately show ?thesis using sh live False by blast
      next
        case True
        let ?u = "w3\<lparr>fds := own f @ fds w, polled := own f @ polled w, blocks := mem + blocks w\<rparr>"
        let ?v = "w3\<lparr>fds := fds w, polled := polled w, blocks := blocks w\<rparr>"
        have n3: "net_ok w3" using t2 unfolding g net_ok_sk took_def by blast
        have "op_fini ops b' w3 = Some ?u"
          using fini[OF L(3), of w3] L(4) g t1 t2 n3 tookD[OF t2 n1] by (auto simp: gives_back_def took_def)
        moreover have nu: "net_ok ?u" using n1 t1 by (simp add: took_def net_ok_def)
        have "op_fini ops f' ?u = Some ?v"
          using fini[OF L(2), of ?u] L(4) nu tookD[OF t1 ok] by (auto simp: gives_back_def)
        ultimately have r: "hev_task_io_splice ops a a d d n y rounds (w, sh) = Some (True, ?v, sh')"
          using L(1) i1(1) i2(1) \<open>x = Some f\<close> Some True by (simp add: hev_task_io_splice_def)
        have rv: "relay_result a d outf (held f') outb (held b') w ?v" by (rule rr) simp_all
        have sr: "same_resources w ?v" using ok by (simp add: same_resources_def net_ok_def)
        have "transferred a d w ?v sh'" if "rf < 0 \<and> rb < 0 \<and> both_fine a d rf rb (held f') (held b') w3 sh'"
          using that rv by (auto simp: both_fine_def complete_def transferred_def relay_result_def)
        with r rv sr sh live True show ?thesis by blast
      qed
    qed
  qed
qed

end

subsection \<open>Both variants of the build\<close>

lemma pipe_init_run:
  assumes ok: "net_ok w"
  shows "\<exists>x w1. pipe_splicer_init rooms (Suc k) n w = Some (x, w1) \<and>
    (case x of None \<Rightarrow> took [] 0 w w1 | Some p \<Rightarrow> pipe_ok p \<and> ps_pipe p = [] \<and> took (pipe_own p) 0 w w1)"
proof -
  let ?a = "lowest_free (fds w)" let ?b = "lowest_free (?a # fds w)"
  have a: "?a \<notin> set (fds w)" "0 \<le> ?a" "?b \<notin> set (?a # fds w)" "0 \<le> ?b" by (rule lowest_free)+
  have np: "?a \<notin> set (polled w)" "?b \<notin> set (polled w)" using a ok by (auto simp: net_ok_def)
  obtain s q where s: "pop True (socketq w) = (s, q)" by fastforce
  show ?thesis
  proof (cases s)
    case False
    with s have "pipe_splicer_init rooms (Suc k) n w = Some (None, w\<lparr>socketq := q\<rparr>)" by (simp add: pipe_splicer_init_def sys_pipe2_def)
    then show ?thesis using ok by (auto simp: took_def net_ok_def)
  next
    case True
    let ?p = "\<lparr>ps_fd0 = ?a, ps_fd1 = ?b, ps_wlen = 0, ps_blen = Suc k, ps_pipe = [], ps_rooms = rooms\<rparr>"
    let ?w = "w\<lparr>socketq := q, fds := ?b # ?a # fds w, polled := ?b # ?a # polled w\<rparr>"
    have "pipe_splicer_init rooms (Suc k) n w = Some (Some ?p, ?w)"
      using s True np a(3) by (simp add: pipe_splicer_init_def sys_pipe2_def hev_task_add_fd_def Let_def)
    moreover have "took (pipe_own ?p) 0 w ?w" using ok a by (auto simp: took_def pipe_own_def net_ok_def)
    ultimately show ?thesis by (auto simp: pipe_ok_def)
  qed
qed

lemma pipe_fini_run: "gives_back (pipe_ops rooms cap) p (pipe_own p) 0 w"
proof -
  have "pipe_splicer_fini p w = Some (w\<lparr>fds := u, polled := ps, blocks := m\<rparr>)"
    if h: "fds w = pipe_own p @ u" "polled w = pipe_own p @ ps" "set (pipe_own p) \<inter> set ps = {}" "blocks w = 0 + m" "net_ok w" for u ps m
  proof -
    have d: "ps_fd1 p \<noteq> ps_fd0 p" "ps_fd0 p \<notin> set u" "ps_fd1 p \<notin> set u" "ps_fd0 p \<notin> set ps" "ps_fd1 p \<notin> set ps"
      using h by (auto simp: pipe_own_def net_ok_def)
    with h show ?thesis
      by (simp add: pipe_splicer_fini_def close_pipe_def sys_close_def hev_task_del_fd_def pipe_own_def removeAll_id)
  qed
  then show ?thesis by (auto simp: gives_back_def pipe_ops_def)
qed

lemma buf_init_run:
  assumes "net_ok w"
  shows "\<exists>x w1. buf_splicer_init g 8192 w = Some (x, w1) \<and>
    (case x of None \<Rightarrow> took [] 0 w w1 | Some c \<Rightarrow> buf_ok c \<and> content c = [] \<and> took [] 1 w w1)"
  using assms by (auto simp: buf_splicer_init_def hev_circular_buffer_new_def sys_malloc_def Let_def split_beta took_def net_ok_def
      buf_ok_def circular_ok_def content_def)

lemma buf_fini_run: "buf_ok c \<Longrightarrow> gives_back (buf_ops g) c [] 1 w"
  by (auto simp: gives_back_def buf_ops_def buf_splicer_fini_def hev_circular_buffer_unref_def buf_ok_def hev_free_def)

interpretation buf_splicer: splicer buf_splice content buf_ok "\<lambda>_. []" "buf_ops g" 8192 1 for g
  by unfold_locales (use buf_init_run buf_fini_run in \<open>auto simp: buf_ops_def\<close>)

interpretation pipe_splicer: splicer pipe_splice ps_pipe pipe_ok pipe_own "pipe_ops rooms (Suc k)" 8192 0 for rooms k
  by unfold_locales (use pipe_init_run pipe_fini_run in \<open>auto simp: pipe_ops_def\<close>)

subsection \<open>What a splice does\<close>

text \<open>
  \<open>cf\<close> and \<open>cb\<close> are the bytes that were read and never written; there are none in a direction whose end was passed on.
\<close>

definition splice_exact :: "int \<Rightarrow> int \<Rightarrow> net \<Rightarrow> bool \<Rightarrow> net \<Rightarrow> int list \<Rightarrow> bool" where
  "splice_exact a d w fin w' sh \<longleftrightarrow> (\<exists>outf cf outb cb. relay_result a d outf cf outb cb w w' \<and>
     (d \<in> set sh \<longrightarrow> cf = []) \<and> (a \<in> set sh \<longrightarrow> cb = [])) \<and> (fin \<longrightarrow> same_resources w w')"

text \<open>C37: in both variants of the build, and whatever the sockets, the timeouts and the allocations do, splicing two sockets is
  defined and exchanges two exact byte streams: what is written to each socket is a prefix of what was read from the other,
  in order; a sending side is shut down only when everything read for it has been written; and when the call returns,
  its buffers and pipes are given back and the other sockets are as before.\<close>

theorem io_splice_exchanges_streams:
  assumes "net_ok w" "a \<noteq> d" "a \<in> set (fds w)" "d \<in> set (fds w)" "a \<notin> set sh" "d \<notin> set sh"
  shows "(\<exists>fin w' sh'. hev_task_io_splice (buf_ops g) a a d d 8192 y rounds (w, sh) = Some (fin, w', sh') \<and> splice_exact a d w fin w' sh') \<and>
    (\<exists>fin w' sh'. hev_task_io_splice (pipe_ops rooms (Suc cap)) a a d d 8192 y rounds (w, sh) = Some (fin, w', sh') \<and> splice_exact a d w fin w' sh')"
  using buf_splicer.io_splice_relays[OF assms, of g y rounds] pipe_splicer.io_splice_relays[OF assms, of rooms cap y rounds]
  unfolding splice_exact_def by (intro conjI) blast+

lemma splicers_start:
  "mallocq w = [] \<Longrightarrow> op_init (buf_ops g) n w = Some (x, w1) \<Longrightarrow> x \<noteq> None \<and> mallocq w1 = []"
  "net_ok w \<Longrightarrow> socketq w = [] \<Longrightarrow> op_init (pipe_ops rooms (Suc cap)) n w = Some (z, w1) \<Longrightarrow> z \<noteq> None \<and> net_ok w1 \<and> socketq w1 = []"
proof -
  assume "mallocq w = []" "op_init (buf_ops g) n w = Some (x, w1)"
  then show "x \<noteq> None \<and> mallocq w1 = []"
    by (auto simp: buf_ops_def buf_splicer_init_def hev_circular_buffer_new_def sys_malloc_def)
next
  assume a: "net_ok w" "socketq w = []" "op_init (pipe_ops rooms (Suc cap)) n w = Some (z, w1)"
  then have i: "pipe_splicer_init rooms (Suc cap) n w = Some (z, w1)" by (simp add: pipe_ops_def)
  let ?a = "lowest_free (fds w)" let ?b = "lowest_free (?a # fds w)"
  have f: "?a \<notin> set (fds w)" "?b \<notin> set (?a # fds w)" by (rule lowest_free)+
  have np: "?a \<notin> set (polled w)" "?b \<notin> set (polled w)" using f a(1) by (auto simp: net_ok_def)
  have x: "z \<noteq> None" "socketq w1 = []"
    using i a(2) np f by (auto simp: pipe_splicer_init_def sys_pipe2_def hev_task_add_fd_def Let_def)
  moreover from pipe_init_run[OF a(1), of rooms cap n] i x(1) have "net_ok w1" by (auto simp: took_def)
  ultimately show "z \<noteq> None \<and> net_ok w1 \<and> socketq w1 = []" by simp
qed

text \<open>C38: when both peers end their streams and no socket and no allocation fails, a splice that is not given up returns after at
  most as many turns as there are events and bytes, with both streams completely transferred and both ends passed
  on.\<close>

theorem io_splice_completes:
  assumes "net_ok w" "a \<noteq> d" "a \<in> set (fds w)" "d \<in> set (fds w)" "a \<notin> set sh" "d \<notin> set sh"
    and "fair a d w" "fair d a w" "mallocq w = []" "socketq w = []"
    and "\<forall>r \<in> set rounds. \<forall>s type. y = Some s \<longrightarrow> s type r = 0" "work a d w [] + work d a w [] \<le> length rounds"
  shows "(\<exists>w' sh'. hev_task_io_splice (buf_ops g) a a d d 8192 y rounds (w, sh) = Some (True, w', sh') \<and>
      transferred a d w w' sh' \<and> same_resources w w') \<and>
    (\<exists>w' sh'. hev_task_io_splice (pipe_ops rooms (Suc cap)) a a d d 8192 y rounds (w, sh) = Some (True, w', sh') \<and>
      transferred a d w w' sh' \<and> same_resources w w')"
proof
  note base = assms(1-6)
  have b: "\<not> (\<exists>x w1. op_init (buf_ops g) 8192 w = Some (x, w1) \<and> (x = None \<or> (\<exists>w2. op_init (buf_ops g) 8192 w1 = Some (None, w2))))"
    using splicers_start(1) assms(9) by metis
  obtain fin w' sh' where "hev_task_io_splice (buf_ops g) a a d d 8192 y rounds (w, sh) = Some (fin, w', sh')"
    "fin" "fin \<longrightarrow> same_resources w w'" "transferred a d w w' sh'"
    using buf_splicer.io_splice_relays[OF base, of g y rounds] assms(7,8,11,12) b by blast
  then show "\<exists>w' sh'. hev_task_io_splice (buf_ops g) a a d d 8192 y rounds (w, sh) = Some (True, w', sh') \<and> transferred a d w w' sh' \<and> same_resources w w'"
    by auto
  have p: "\<not> (\<exists>x w1. op_init (pipe_ops rooms (Suc cap)) 8192 w = Some (x, w1) \<and> (x = None \<or> (\<exists>w2. op_init (pipe_ops rooms (Suc cap)) 8192 w1 = Some (None, w2))))"
    using splicers_start(2) assms(1,10) by metis
  obtain fin w' sh' where "hev_task_io_splice (pipe_ops rooms (Suc cap)) a a d d 8192 y rounds (w, sh) = Some (fin, w', sh')"
    "fin" "fin \<longrightarrow> same_resources w w'" "transferred a d w w' sh'"
    using pipe_splicer.io_splice_relays[OF base, of rooms cap y rounds] assms(7,8,11,12) p by blast
  then show "\<exists>w' sh'. hev_task_io_splice (pipe_ops rooms (Suc cap)) a a d d 8192 y rounds (w, sh) = Some (True, w', sh') \<and> transferred a d w w' sh' \<and> same_resources w w'"
    by auto
qed

text \<open>Two sockets whose peers send five and three bytes in pieces and then close, with some waiting on both sides.\<close>

definition splice_net :: net where
  "splice_net = net_example\<lparr>polled := [], blocks := 0, connq := [],
     sk := (\<lambda>_. sock_example)(1 := \<lparr>rxq = [RxData [1, 2], RxAgain 9, RxData [3, 4, 5], RxEof], txq = [TxAgain 3, TxRoom 2], sent = [], errno = EOK\<rparr>,
       5 := \<lparr>rxq = [RxAgain 4, RxData [6, 7, 8], RxEof], txq = [TxRoom 1, TxAgain 2], sent = [], errno = EOK\<rparr>)\<rparr>"

lemma splice_net_facts:
  "net_ok splice_net" "1 \<in> set (fds splice_net)" "5 \<in> set (fds splice_net)" "fair 1 5 splice_net" "fair 5 1 splice_net"
  "mallocq splice_net = []" "socketq splice_net = []" "work 1 5 splice_net [] + work 5 1 splice_net [] \<le> 30"
  "arrived (rxq (sk splice_net 1)) = [1, 2, 3, 4, 5]" "arrived (rxq (sk splice_net 5)) = [6, 7, 8]" "fds splice_net = [0, 1, 5]"
  "net_out 1 splice_net = []" "net_out 5 splice_net = []"
  by (auto simp: splice_net_def net_example_def net_ok_def fair_def rx_fair_def tx_fair_def work_def)

theorem io_splice_exchanges_streams_witness:
  "\<exists>fin w' sh'. hev_task_io_splice (buf_ops (\<lambda>_. 0)) 1 1 5 5 8192 None [9, 9] (splice_net, []) = Some (fin, w', sh') \<and> splice_exact 1 5 splice_net fin w' sh'"
  using io_splice_exchanges_streams[of splice_net 1 5 "[]"] splice_net_facts(1-3) by simp

theorem io_splice_completes_witness:
  "\<exists>w' sh'. hev_task_io_splice (pipe_ops [1, 0, 2] 65536) 1 1 5 5 8192 None (replicate 30 9) (splice_net, []) = Some (True, w', sh') \<and>
    net_out 5 w' = [1, 2, 3, 4, 5] \<and> net_out 1 w' = [6, 7, 8] \<and> fds w' = [0, 1, 5] \<and> {1, 5} \<subseteq> set sh'"
proof -
  have c: "Suc 65535 = (65536 :: nat)" by simp
  have "\<exists>w' sh'. hev_task_io_splice (pipe_ops [1, 0, 2] (Suc 65535)) 1 1 5 5 8192 None (replicate 30 9) (splice_net, []) = Some (True, w', sh') \<and>
      transferred 1 5 splice_net w' sh' \<and> same_resources splice_net w'"
    by (rule conjunct2[OF io_splice_completes]) (use splice_net_facts(1-8) in simp_all)
  then show ?thesis unfolding c transferred_def same_resources_def using splice_net_facts(9-13) by auto
qed

end
