(* ===== verification/ServerUDP.thy ===== *)
theory ServerUDP
  imports ServerRun Splice UdpTransport
begin

text \<open>
  The SOCKS5 server at work: the splicer of its UDP associations, service and run. The splicer is proved in a locale that states
  what it relies on of the client's side, interpreted on framed messages over TCP and on relay datagrams; the properties
  say that both directions are exact and complete, and show two kinds of datagram the code does not survive.
\<close>

section \<open>The server at work (core hev-socks5-udp.c, hev-socks5-server.c)\<close>

text \<open>
  The splicer of a UDP association of the server: the messages of the client, framed on its connection or as relay
  datagrams, become datagrams of a second socket \<open>fd_b\<close>, and what that socket receives goes back with its source;
  then \<open>service\<close> and \<open>run\<close>, which put the handshake and the splicers together. \<open>get_fd\<close> of the interface is
  the parameter \<open>fd_a\<close>.
\<close>

subsection \<open>Forwarding\<close>

text \<open>
  One turn of the loop: what the receive buffers, the array of addresses and the array of sources hold before they
  are written, the values other tasks left in \<open>errno\<close>, and the time left when the task goes on.
\<close>

record udp_turn =
  ut_bufs :: bytes
  ut_addr :: sockaddr6
  ut_saddr :: bytes
  ut_errno :: errno
  ut_sleep :: int

text \<open>The datagrams for the received messages; \<open>Some None\<close> is the early return -1.\<close>

fun udp_dests :: "resolver \<Rightarrow> addr_family \<Rightarrow> sockaddr6 \<Rightarrow> udp_msg list \<Rightarrow> (sockaddr6 \<times> bytes) list option option" where
  "udp_dests Rs family junk [] = Some (Some [])"
| "udp_dests Rs family junk (m # ms) =
     (if m_len m = 0 \<or> m_addr m = Null then Some None
      else do {
        a \<leftarrow> deref (m_addr m);
        (ret, addr, _) \<leftarrow> hev_socks5_addr_into_sockaddr6 Rs a junk family;
        if ret < 0 then Some None
        else do {
          d \<leftarrow> rd (m_buf m) 0 (m_len m);
          rest \<leftarrow> udp_dests Rs family junk ms;
          Some (map_option (\<lambda>ds. (addr, d) # ds) rest)
        }
      })"

text \<open>The second component is \<open>*bind\<close>.\<close>

definition hev_socks5_udp_fwd_f ::
  "resolver \<Rightarrow> nat \<Rightarrow> int \<Rightarrow> int \<Rightarrow> udp_turn \<Rightarrow> bool \<Rightarrow> 'a hev_socks5_scheme \<Rightarrow> net \<Rightarrow> (int \<times> bool \<times> 'a hev_socks5_scheme \<times> net) option" where
  "hev_socks5_udp_fwd_f Rs num fd_a fd t bnd self w = do {
     check (0 < num);
     let w0 = set_errno (ut_errno t) fd_a w;
     (res, svec, self, w) \<leftarrow> hev_socks5_udp_recvmmsg self fd_a True (udp_slots num (ut_bufs t)) w0;
     if res \<le> 0 then Some (if res = -1 \<and> recv_errno self fd_a w0 w = EAGAIN then 0 else -1, bnd, self, w)
     else do {
       dvec \<leftarrow> udp_dests Rs (hev_socks5_get_addr_family self) (ut_addr t) (take (nat res) svec);
       case dvec of
         None \<Rightarrow> Some (-1, bnd, self, w)
       | Some dvec \<Rightarrow>
           if \<not> bnd \<and> hev_socks5_bind self fd (fst (hd dvec)) < 0 then Some (-1, bnd, self, w)
           else do {
             (res, self, w) \<leftarrow> net_sendmmsg self fd (map (\<lambda>(addr, d). (Some addr, d)) dvec) w;
             Some (if res \<le> 0 then -1 else 1, True, self, w)
           }
     }
   }"

text \<open>The messages for the received datagrams.\<close>

fun udp_sources :: "bytes \<Rightarrow> (sockaddr6 \<times> bytes) list \<Rightarrow> udp_msg list option" where
  "udp_sources junk [] = Some []"
| "udp_sources junk ((src, d) # ds) = do {
     (_, a) \<leftarrow> hev_socks5_addr_from_sockaddr6 junk src;
     ms \<leftarrow> udp_sources junk ds;
     Some (\<lparr>m_addr = At a, m_buf = d, m_len = length d\<rparr> # ms)
   }"

text \<open>\<open>errno\<close> after a \<open>recvmmsg\<close> that did not wait and returned -1, and after sending to the client.\<close>

definition dgram_errno :: "int \<Rightarrow> net \<Rightarrow> errno" where
  "dgram_errno fd w = (if fd \<notin> set (fds w) then EOTHER
     else case dg_rxq (dsk w fd) of [] \<Rightarrow> EAGAIN | DgAgain _ # _ \<Rightarrow> EAGAIN | _ \<Rightarrow> EOTHER)"

definition send_errno :: "'a hev_socks5_scheme \<Rightarrow> int \<Rightarrow> net \<Rightarrow> errno" where
  "send_errno self fd w = (if fd \<in> set (fds w) \<and> s5_type self = HEV_SOCKS5_TYPE_UDP_IN_TCP then errno (sk w fd) else EOTHER)"

definition hev_socks5_udp_fwd_b ::
  "nat \<Rightarrow> int \<Rightarrow> int \<Rightarrow> udp_turn \<Rightarrow> 'a hev_socks5_scheme \<Rightarrow> net \<Rightarrow> (int \<times> 'a hev_socks5_scheme \<times> net) option" where
  "hev_socks5_udp_fwd_b num fd_a fd t self w = do {
     let e = dgram_errno fd w;
     (res, ds, self, w) \<leftarrow> net_recvmmsg self fd (replicate num UDP_BUF_SIZE) True w;
     if res \<le> 0 then Some (if res = -1 \<and> e = EAGAIN then 0 else -1, self, w)
     else do {
       dvec \<leftarrow> udp_sources (ut_saddr t) ds;
       (res, self, w) \<leftarrow> hev_socks5_udp_sendmmsg self fd_a dvec (set_errno (ut_errno t) fd_a w);
       if res \<le> 0 then Some (if res = -1 \<and> send_errno self fd_a w = EAGAIN then 0 else -1, self, w)
       else Some (1, self, w)
     }
   }"

subsection \<open>The splicer\<close>

definition udp_turn_yielder ::
  "yield_type \<Rightarrow> int \<Rightarrow> 'a hev_socks5_scheme \<Rightarrow> net \<Rightarrow> int \<times> 'a hev_socks5_scheme \<times> net" where
  "udp_turn_yielder type v self w =
     (case udp_task_io_yielder self type (min (s5_timeout self) v) (s5_timeout self, w) of
        (res, (t, w)) \<Rightarrow> (res, self\<lparr>s5_timeout := t\<rparr>, w))"

text \<open>With no turns left the task is still running: the result is \<open>False\<close>, else \<open>True\<close>.\<close>

fun udp_relay_loop ::
  "resolver \<Rightarrow> nat \<Rightarrow> int \<Rightarrow> int \<Rightarrow> int \<Rightarrow> int \<Rightarrow> bool \<Rightarrow> udp_turn list \<Rightarrow> 'a hev_socks5_scheme \<times> net \<Rightarrow>
    (bool \<times> 'a hev_socks5_scheme \<times> net) option" where
  "udp_relay_loop Rs num fd_a fd_b res_f res_b bnd [] (self, w) = Some (False, self, w)"
| "udp_relay_loop Rs num fd_a fd_b res_f res_b bnd (t # ts) (self, w) = do {
     (res_f, bnd, self, w) \<leftarrow>
       (if res_f \<ge> 0 then hev_socks5_udp_fwd_f Rs num fd_a fd_b t bnd self w else Some (res_f, bnd, self, w));
     (res_b, self, w) \<leftarrow> (if res_b \<ge> 0 then hev_socks5_udp_fwd_b num fd_a fd_b t self w else Some (res_b, self, w));
     let go_on = (\<lambda>type. case udp_turn_yielder type (ut_sleep t) self w of (res, self, w) \<Rightarrow>
         if res \<noteq> 0 then Some (True, self, w) else udp_relay_loop Rs num fd_a fd_b res_f res_b bnd ts (self, w));
     if res_f > 0 \<or> res_b > 0 then go_on HEV_TASK_YIELD
     else if res_f AND res_b = 0 then go_on HEV_TASK_WAITIO
     else Some (True, self, w)
   }"

declare udp_relay_loop.simps(2) [simp del]

text \<open>The block of the buffers is allocated first and freed at the end.\<close>

definition hev_socks5_udp_splicer ::
  "resolver \<Rightarrow> socks5_conf \<Rightarrow> int \<Rightarrow> int \<Rightarrow> udp_turn list \<Rightarrow> 'a hev_socks5_scheme \<Rightarrow> net \<Rightarrow>
    (bool \<times> int \<times> 'a hev_socks5_scheme \<times> net) option" where
  "hev_socks5_udp_splicer Rs conf fd_a fd_b uts self w = do {
     let num = nat (hev_socks5_get_udp_copy_buffer_nums conf);
     let (ok, w) = sys_malloc w;
     if \<not> ok then Some (True, -1, self, w)
     else do {
       let w = snd (hev_task_add_fd fd_b (snd (hev_task_add_fd fd_a w)));
       (fin, self, w) \<leftarrow> udp_relay_loop Rs num fd_a fd_b 1 1 False uts (self, w);
       if \<not> fin then Some (False, 0, self, w)
       else do {
         w \<leftarrow> hev_free w;
         Some (True, 0, self, w)
       }
     }
   }"

subsection \<open>Service and run\<close>

text \<open>\<open>ops\<close> is the build variant of the stream splicer, \<open>rounds\<close> and \<open>uts\<close> what its waits and those of the UDP
  splicer end with.\<close>

definition hev_socks5_server_service ::
  "resolver \<Rightarrow> socks5_conf \<Rightarrow> 'b splicer_ops \<Rightarrow> int list \<Rightarrow> udp_turn list \<Rightarrow> hev_socks5_server \<Rightarrow> splice_env \<Rightarrow>
    (bool \<times> int \<times> hev_socks5_server \<times> splice_env) option" where
  "hev_socks5_server_service Rs conf ops rounds uts self = (\<lambda>(w, sh).
     let udp = (\<lambda>_. do {
         let self = hev_socks5_set_timeout (hev_socks5_get_udp_timeout conf) self;
         (fin, _, self, w) \<leftarrow> hev_socks5_udp_splicer Rs conf (hev_socks5_server_get_fd self) (sv_fd0 self) uts self w;
         Some (fin, 0, self, w, sh)
       })
     in case s5_type self of
       HEV_SOCKS5_TYPE_TCP \<Rightarrow> do {
         (fin, _, e) \<leftarrow> hev_socks5_tcp_splicer ops self (sv_fd0 self) rounds (w, sh);
         Some (fin, 0, self, e)
       }
     | HEV_SOCKS5_TYPE_UDP_IN_UDP \<Rightarrow> udp ()
     | HEV_SOCKS5_TYPE_UDP_IN_TCP \<Rightarrow> udp ()
     | _ \<Rightarrow> Some (True, -1, self, w, sh))"

definition hev_socks5_server_run ::
  "resolver \<Rightarrow> socks5_conf \<Rightarrow> srv_stack \<Rightarrow> 'b splicer_ops \<Rightarrow> int list \<Rightarrow> udp_turn list \<Rightarrow> hev_socks5_server \<Rightarrow> splice_env \<Rightarrow> srv_env \<Rightarrow>
    (bool \<times> int \<times> hev_socks5_server \<times> splice_env \<times> srv_env) option" where
  "hev_socks5_server_run Rs conf st ops rounds uts self = (\<lambda>(w, sh) x. do {
     let w = snd (hev_task_add_fd (s5_fd self) w);
     (res, self, w, x) \<leftarrow> hev_socks5_server_handshake Rs conf st self w x;
     if res < 0 then Some (True, -1, self, (w, sh), x)
     else do {
       (fin, res, self, e) \<leftarrow> hev_socks5_server_service Rs conf ops rounds uts self (w, sh);
       Some (fin, if res < 0 then -1 else 0, self, e, x)
     }
   })"

subsection \<open>What the transports leave alone\<close>

text \<open>\<open>keeps fd w w'\<close>: the descriptors, the blocks and the datagram sockets other than \<open>fd\<close> are as before.\<close>

definition keeps :: "int \<Rightarrow> net \<Rightarrow> net \<Rightarrow> bool" where
  "keeps fd w w' \<longleftrightarrow> fds w' = fds w \<and> blocks w' = blocks w \<and> (\<forall>b. b \<noteq> fd \<longrightarrow> dsk w' b = dsk w b)"

lemma net_recv_only_sk: "net_recv t fd n wa dw w = Some (r, bs, w') \<Longrightarrow> \<exists>f. w' = w\<lparr>sk := f\<rparr>"
  by (auto simp: net_recv_def Option.bind_eq_Some_conv split: if_splits intro: exI[of _ "sk w"])

text \<open>A reflexive and transitive relation that holds between the states around every read holds around the loop.\<close>

lemma read_head_rel:
  assumes rel: "\<And>n wa dw w r bs w'. net_recv t fd n wa dw w = Some (r, bs, w') \<Longrightarrow> rel w w'" and tr: "transp rel"
    and h: "udp_read_head t fd nb w = Some (r, h, w')"
  shows "rel w w'"
proof -
  from h obtain r1 h1 w1 where r1: "net_recv t fd 5 False nb w = Some (r1, h1, w1)"
    and c: "w' = w1 \<or> (\<exists>n wa dw r2 b2. net_recv t fd n wa dw w1 = Some (r2, b2, w'))"
    unfolding udp_read_head_def by (fastforce simp: Option.bind_eq_Some_conv split: if_splits)
  from c rel[OF r1] show ?thesis using rel transpD[OF tr] by blast
qed

lemma recv_tcp_rel:
  assumes rel: "\<And>n wa dw w r bs w'. net_recv t fd n wa dw w = Some (r, bs, w') \<Longrightarrow> rel w w'" and tr: "transp rel" "reflp rel"
  shows "udp_recv_tcp_loop t fd nb n ms w = Some (r, ms', w') \<Longrightarrow>
    (ms = [] \<and> w' = w) \<or> (\<exists>r1 h w1. udp_read_head t fd nb w = Some (r1, h, w1) \<and> rel w1 w')"
proof (induction ms arbitrary: n w r ms')
  case (Cons m ms)
  from Cons.prems obtain res hd w1 where h: "udp_read_head t fd nb w = Some (res, hd, w1)"
    by (auto simp: Option.bind_eq_Some_conv)
  have r1: "rel w1 w1" using tr(2) by (simp add: reflpD)
  have l2: "net_recvmsg t fd iov w1 = Some (res', body, w2) \<Longrightarrow> rel w1 w2" for iov res' body w2
    unfolding net_recvmsg_eq by (rule rel)
  have hr: "rel a b" if "udp_read_head t fd nb a = Some (r', h', b)" for a b r' h'
    by (rule read_head_rel[OF _ tr(1) that]) (rule rel)
  have l3: "rel w1 w2 \<Longrightarrow> rel w1 w'" if "udp_recv_tcp_loop t fd nb n' ms w2 = Some (r', ms2, w')" for n' w2 r' ms2
    using Cons.IH[OF that] hr transpD[OF tr(1)] by blast
  have "rel w1 w'" using Cons.prems h r1
    by (auto simp: Option.bind_eq_Some_conv Let_def split: if_splits prod.splits dest!: l2 intro: l3)
  with h show ?case by blast
qed simp

lemma recv_tcp_rel_all:
  assumes rel: "\<And>n wa dw w r bs w'. net_recv t fd n wa dw w = Some (r, bs, w') \<Longrightarrow> rel w w'" and tr: "transp rel" "reflp rel"
    and "udp_recv_tcp_loop t fd nb n ms w = Some (r, ms', w')"
  shows "rel w w'"
proof -
  have hr: "rel a b" if "udp_read_head t fd nb a = Some (r', h', b)" for a b r' h'
    by (rule read_head_rel[OF _ tr(1) that]) (rule rel)
  have "(ms = [] \<and> w' = w) \<or> (\<exists>r1 h w1. udp_read_head t fd nb w = Some (r1, h, w1) \<and> rel w1 w')"
    by (rule recv_tcp_rel[OF _ tr assms(4)]) (rule rel)
  then show ?thesis using hr transpD[OF tr(1)] reflpD[OF tr(2)] by blast
qed

definition sk_only :: "net \<Rightarrow> net \<Rightarrow> bool" where
  "sk_only w w' \<longleftrightarrow> (\<exists>f. w' = w\<lparr>sk := f\<rparr>)"

lemma sk_only_trans: "transp sk_only" "reflp sk_only"
proof -
  have "w = w\<lparr>sk := sk w\<rparr>" for w :: net by simp
  then show "reflp sk_only" unfolding sk_only_def by (blast intro: reflpI)
  have "c = a\<lparr>sk := g\<rparr>" if "b = a\<lparr>sk := f\<rparr>" "c = b\<lparr>sk := g\<rparr>" for a b c :: net and f g using that by simp
  then show "transp sk_only" unfolding sk_only_def by (blast intro: transpI)
qed

lemma sk_only_keeps: "sk_only w w' \<Longrightarrow> keeps fd w w' \<and> dsk w' = dsk w"
  by (auto simp: sk_only_def keeps_def)

lemma recv_tcp_only_sk: "udp_recv_tcp_loop t fd nb n ms w = Some (r, ms', w') \<Longrightarrow> sk_only w w'"
  by (rule recv_tcp_rel_all[OF _ sk_only_trans, of t fd]) (auto simp: sk_only_def dest: net_recv_only_sk)

lemma net_sendmsg_only_sk: "net_sendmsg t fd iov w = Some (r, w') \<Longrightarrow> sk_only w w'"
  by (auto simp: sk_only_def net_sendmsg_def Option.bind_eq_Some_conv split: if_splits intro: exI[of _ "sk w"])

subsection \<open>Every call uses up what has arrived\<close>

definition rx_load :: "sock \<Rightarrow> nat" where
  "rx_load s = length (rxq s) + length (rx_bytes (rxq s))"

lemma sys_recv_load:
  assumes "sys_recv n s = (r, s')"
  shows "rx_load s' \<le> rx_load s" "rx_live (rxq s) \<Longrightarrow> rxq s \<noteq> [] \<Longrightarrow> 0 < n \<Longrightarrow> rx_load s' < rx_load s"
  using assms by (auto simp: sys_recv_def rx_load_def rx_live_def split: list.splits rx_ev.splits if_splits)

lemma recv_loop_load: "task_recv_loop y len wa dw got s = Some (r, bs, s') \<Longrightarrow> rx_load s' \<le> rx_load s"
proof (induction y len wa dw got s rule: task_recv_loop.induct)
  case (1 y len wa dw got s)
  obtain q s1 where q: "sys_recv (len - length got) s = (q, s1)" by fastforce
  note unf = task_recv_loop.simps[of y len wa dw got s]
  have l: "rx_load s1 \<le> rx_load s" using sys_recv_load[OF q] by blast
  show ?case
  proof (cases q)
    case (SysOk d)
    show ?thesis
    proof (cases "wa \<and> d \<noteq> [] \<and> length got + length d < len")
      case True
      with "1.prems"[unfolded unf] q SysOk have "task_recv_loop y len wa dw (got @ d) s1 = Some (r, bs, s')" by (simp add: Let_def)
      with "1.IH"(1)[OF refl refl q[symmetric] SysOk] True l show ?thesis by simp
    next
      case False
      with "1.prems"[unfolded unf] q SysOk l show ?thesis by (auto simp: Let_def split: if_splits)
    qed
  next
    case (SysAgain v)
    show ?thesis
    proof (cases "\<not> dw \<and> \<not> y v \<and> rxq s \<noteq> []")
      case True
      with "1.prems"[unfolded unf] q SysAgain have "task_recv_loop y len wa dw got s1 = Some (r, bs, s')" by (simp add: Let_def)
      with "1.IH"(2)[OF refl refl q[symmetric] SysAgain] True l show ?thesis by simp
    next
      case False
      with "1.prems"[unfolded unf] q SysAgain l show ?thesis by (auto simp: Let_def split: if_splits)
    qed
  next
    case SysErr
    with "1.prems"[unfolded unf] q l show ?thesis by (auto simp: Let_def split: if_splits)
  qed
qed

lemma net_recv_load:
  assumes "net_recv t fd n wa dw w = Some (r, bs, w')"
  shows "rx_load (sk w' fd) \<le> rx_load (sk w fd)"
  using assms by (auto simp: net_recv_def hev_task_io_socket_recv_def Option.bind_eq_Some_conv split: if_splits dest: recv_loop_load)

lemma net_recv_once_load:
  assumes "net_recv t fd n False True w = Some (r, bs, w')" "fd \<in> set (fds w)"
    "rx_live (rxq (sk w fd))" "rxq (sk w fd) \<noteq> []" "0 < n"
  shows "rx_load (sk w' fd) < rx_load (sk w fd)"
proof -
  obtain q s1 where q: "sys_recv n (sk w fd) = (q, s1)" by fastforce
  have "w' = w\<lparr>sk := (sk w)(fd := s1)\<rparr>" using assms(1,2) q
    by (cases q) (auto simp: net_recv_def hev_task_io_socket_recv_def task_recv_loop.simps Let_def)
  with sys_recv_load(2)[OF q assms(3-5)] show ?thesis by simp
qed

lemma load_trans: "transp (\<lambda>w w'. rx_load (sk w' fd) \<le> rx_load (sk w fd))" "reflp (\<lambda>w w'. rx_load (sk w' fd) \<le> rx_load (sk w fd))"
  by (auto intro!: transpI reflpI)

lemma read_head_load: "udp_read_head t fd nb w = Some (r, h, w') \<Longrightarrow> rx_load (sk w' fd) \<le> rx_load (sk w fd)"
  by (rule read_head_rel[of t fd "\<lambda>w w'. rx_load (sk w' fd) \<le> rx_load (sk w fd)", OF net_recv_load load_trans(1)])

lemma read_head_load_less:
  assumes "udp_read_head t fd True w = Some (r, h, w')" "fd \<in> set (fds w)" "rx_live (rxq (sk w fd))" "rxq (sk w fd) \<noteq> []"
  shows "rx_load (sk w' fd) < rx_load (sk w fd)"
proof -
  from assms(1) obtain r1 h1 w1 where r1: "net_recv t fd 5 False True w = Some (r1, h1, w1)"
    and c: "w' = w1 \<or> (\<exists>n wa dw r2 b2. net_recv t fd n wa dw w1 = Some (r2, b2, w'))"
    unfolding udp_read_head_def by (fastforce simp: Option.bind_eq_Some_conv split: if_splits)
  have "rx_load (sk w' fd) \<le> rx_load (sk w1 fd)" using c net_recv_load by blast
  with net_recv_once_load[OF r1 assms(2-4)] show ?thesis by simp
qed

lemma recv_tcp_load: "udp_recv_tcp_loop t fd nb n ms w = Some (r, ms', w') \<Longrightarrow> rx_load (sk w' fd) \<le> rx_load (sk w fd)"
  by (rule recv_tcp_rel_all[of t fd "\<lambda>w w'. rx_load (sk w' fd) \<le> rx_load (sk w fd)", OF net_recv_load load_trans])

lemma recv_tcp_load_less:
  assumes r: "udp_recv_tcp_loop t fd True n ms w = Some (r, ms', w')" "ms \<noteq> []"
    and w: "fd \<in> set (fds w)" "rx_live (rxq (sk w fd))" "rxq (sk w fd) \<noteq> []"
  shows "rx_load (sk w' fd) < rx_load (sk w fd)"
proof -
  have "(ms = [] \<and> w' = w) \<or> (\<exists>r1 h w1. udp_read_head t fd True w = Some (r1, h, w1) \<and> rx_load (sk w' fd) \<le> rx_load (sk w1 fd))"
    by (rule recv_tcp_rel[of t fd "\<lambda>w w'. rx_load (sk w' fd) \<le> rx_load (sk w fd)", OF net_recv_load load_trans r(1)])
  with r(2) read_head_load_less[of t fd w, OF _ w] show ?thesis by fastforce
qed

subsection \<open>The contract of the client's side\<close>

text \<open>
  What the splicer relies on, for either kind of association: \<open>good fd fs w\<close> says that the association on \<open>fd\<close>
  works and that the messages \<open>fs\<close> are still to arrive; \<open>out\<close> is what was sent, \<open>enc\<close> the encoding of a message and
  \<open>load\<close> bounds how many calls the arrived input can occupy. It extends what \<open>udp_transport\<close> says of a call by what
  the call leaves alone.
\<close>

locale association_side =
  fixes ok :: "'a hev_socks5_scheme \<Rightarrow> bool"
    and good :: "int \<Rightarrow> (socks_addr \<times> bytes) list \<Rightarrow> net \<Rightarrow> bool"
    and out :: "int \<Rightarrow> net \<Rightarrow> 'o list"
    and enc :: "socks_addr \<times> bytes \<Rightarrow> 'o list"
    and load :: "int \<Rightarrow> net \<Rightarrow> nat"
  assumes recv: "ok self \<Longrightarrow> good fd fs w \<Longrightarrow> 0 < num \<Longrightarrow>
        \<exists>k ms w'. hev_socks5_udp_recvmmsg self fd True (udp_slots num stack) w = Some (if k = 0 then -1 else int k, ms, self, w') \<and>
          k \<le> num \<and> k \<le> length fs \<and> list_all2 denotes (take k ms) (take k fs) \<and> good fd (drop k fs) w' \<and> out fd w' = out fd w \<and>
          (k = 0 \<longrightarrow> recv_errno self fd w w' = EAGAIN) \<and> keeps fd w w' \<and> load fd w' \<le> load fd w \<and> (fs = [] \<or> load fd w' < load fd w)"
    and send: "ok self \<Longrightarrow> good fd fs w \<Longrightarrow> list_all2 denotes ms qs \<Longrightarrow> \<forall>q \<in> set qs. wf_addr (fst q) \<Longrightarrow> qs \<noteq> [] \<Longrightarrow>
        \<exists>w'. hev_socks5_udp_sendmmsg self fd ms w = Some (int (length qs), self, w') \<and> good fd fs w' \<and>
          out fd w' = out fd w @ concat (map enc qs) \<and> keeps fd w w' \<and> load fd w' = load fd w"
    and poll: "ok self \<Longrightarrow> good fd fs w \<Longrightarrow> udp_task_io_yielder self ty v (s5_timeout self, w) = (r, t', w') \<Longrightarrow>
        good fd fs w' \<and> out fd w' = out fd w \<and> keeps fd w w' \<and> dsk w' fd = dsk w fd \<and> load fd w' = load fd w \<and>
        t' = s5_timeout self \<and> (0 < v \<longrightarrow> r = 0)"
    and touch: "good fd fs w \<Longrightarrow> good fd fs (set_errno e fd w) \<and> out fd (set_errno e fd w) = out fd w \<and> load fd (set_errno e fd w) = load fd w"
    and frame_other: "good fd fs w \<Longrightarrow> fds w' = fds w \<Longrightarrow> sk w' = sk w \<Longrightarrow> dsk w' fd = dsk w fd \<Longrightarrow>
        good fd fs w' \<and> out fd w' = out fd w \<and> load fd w' = load fd w"
    and wf: "good fd fs w \<Longrightarrow> \<forall>f \<in> set fs. wf_addr (fst f)"

subsection \<open>Both transports meet it\<close>

lemma tcp_side_recv:
  assumes "assoc_ok HEV_SOCKS5_TYPE_UDP_IN_TCP self" "tcp_good fd fs w" "0 < num"
    "hev_socks5_udp_recvmmsg self fd True (udp_slots num stack) w = Some (r, ms, self', w')"
  shows "keeps fd w w'" "rx_load (sk w' fd) \<le> rx_load (sk w fd)" "fs = [] \<or> rx_load (sk w' fd) < rx_load (sk w fd)"
proof -
  from assms(1,4) obtain r1 ms1 where u: "udp_recv_tcp_loop (s5_timeout self) fd True 0 (udp_slots num stack) w = Some (r1, ms1, w')"
    by (auto simp: assoc_ok_def hev_socks5_udp_recvmmsg_def hev_socks5_udp_recvmmsg_tcp_def Option.bind_eq_Some_conv)
  show "keeps fd w w'" using recv_tcp_only_sk[OF u] sk_only_keeps by blast
  show "rx_load (sk w' fd) \<le> rx_load (sk w fd)" by (rule recv_tcp_load[OF u])
  have ne: "udp_slots num stack \<noteq> []" using assms(3) slots_nth(1)[of num stack] by (metis list.size(3) less_irrefl)
  have g: "fd \<in> set (fds w)" "rx_live (rxq (sk w fd))" "sock_rest fd w = concat (map frame fs)" using assms(2) by (simp_all add: tcp_good_def)
  show "fs = [] \<or> rx_load (sk w' fd) < rx_load (sk w fd)"
  proof (cases fs)
    case (Cons f fs')
    then have "rxq (sk w fd) \<noteq> []" using g(3) by (auto simp: frame_def)
    then show ?thesis using recv_tcp_load_less[OF u ne g(1,2)] by blast
  qed simp
qed

interpretation tcp_side: association_side "assoc_ok HEV_SOCKS5_TYPE_UDP_IN_TCP" tcp_good net_out frame "\<lambda>fd w. rx_load (sk w fd)"
proof
  fix self :: "'a hev_socks5_scheme" and fd fs w and num :: nat and stack
  assume a: "assoc_ok HEV_SOCKS5_TYPE_UDP_IN_TCP self" "tcp_good fd fs w" "0 < num"
  from tcp_recv[OF a, of stack] obtain k ms w' where
    r: "hev_socks5_udp_recvmmsg self fd True (udp_slots num stack) w = Some (if k = 0 then -1 else int k, ms, self, w')"
      "k \<le> num" "k \<le> length fs" "list_all2 denotes (take k ms) (take k fs)" "tcp_good fd (drop k fs) w'" "net_out fd w' = net_out fd w"
      "k = 0 \<longrightarrow> recv_errno self fd w w' = EAGAIN" by blast
  from tcp_side_recv[OF a r(1)] r show "\<exists>k ms w'. hev_socks5_udp_recvmmsg self fd True (udp_slots num stack) w =
      Some (if k = 0 then -1 else int k, ms, self, w') \<and> k \<le> num \<and> k \<le> length fs \<and> list_all2 denotes (take k ms) (take k fs) \<and>
      tcp_good fd (drop k fs) w' \<and> net_out fd w' = net_out fd w \<and> (k = 0 \<longrightarrow> recv_errno self fd w w' = EAGAIN) \<and> keeps fd w w' \<and>
      rx_load (sk w' fd) \<le> rx_load (sk w fd) \<and> (fs = [] \<or> rx_load (sk w' fd) < rx_load (sk w fd))" by blast
next
  fix self :: "'a hev_socks5_scheme" and fd fs w ms qs
  assume a: "assoc_ok HEV_SOCKS5_TYPE_UDP_IN_TCP self" "tcp_good fd fs w" "list_all2 denotes ms qs" "\<forall>q \<in> set qs. wf_addr (fst q)" "qs \<noteq> []"
  from tcp_send[OF a] obtain w' where s: "hev_socks5_udp_sendmmsg self fd ms w = Some (int (length qs), self, w')" "tcp_good fd fs w'"
    "net_out fd w' = net_out fd w @ concat (map frame qs)" by blast
  from s(1) a(1) have "w' = w \<or> (\<exists>t iov r. net_sendmsg t fd iov w = Some (r, w'))"
    by (auto simp: assoc_ok_def hev_socks5_udp_sendmmsg_def hev_socks5_udp_sendmmsg_tcp_def Option.bind_eq_Some_conv split: option.splits if_splits)
  then have "keeps fd w w'" "rxq (sk w' fd) = rxq (sk w fd)"
    using net_sendmsg_only_sk[THEN sk_only_keeps] net_sendmsg_rxq by (fastforce simp: keeps_def)+
  with s show "\<exists>w'. hev_socks5_udp_sendmmsg self fd ms w = Some (int (length qs), self, w') \<and> tcp_good fd fs w' \<and>
    net_out fd w' = net_out fd w @ concat (map frame qs) \<and> keeps fd w w' \<and> rx_load (sk w' fd) = rx_load (sk w fd)"
    by (auto simp: rx_load_def)
next
  fix self :: "'a hev_socks5_scheme" and fd fs w ty v r t' w'
  assume "assoc_ok HEV_SOCKS5_TYPE_UDP_IN_TCP self" "tcp_good fd fs w" "udp_task_io_yielder self ty v (s5_timeout self, w) = (r, t', w')"
  then show "tcp_good fd fs w' \<and> net_out fd w' = net_out fd w \<and> keeps fd w w' \<and> dsk w' fd = dsk w fd \<and> rx_load (sk w' fd) = rx_load (sk w fd) \<and>
    t' = s5_timeout self \<and> (0 < v \<longrightarrow> r = 0)"
    by (auto simp: udp_task_io_yielder_def assoc_ok_def keeps_def hev_socks5_task_io_yielder_def)
qed (auto simp: tcp_good_def set_errno_def rx_load_def fits_def framable_def)

text \<open>Over UDP the yielder also looks at the control connection \<open>c\<close>, which must stay open.\<close>

definition control_ok :: "int \<Rightarrow> net \<Rightarrow> bool" where
  "control_ok c w \<longleftrightarrow> c \<in> set (fds w) \<and> rx_live (rxq (sk w c))"

lemma net_sendmmsg_rooms:
  assumes "fd \<in> set (fds w)" "\<forall>ev \<in> set (dg_txq (dsk w fd)). \<exists>k. ev = TxRoom (Suc k)" "ms \<noteq> []"
  shows "\<exists>s'. net_sendmmsg self fd ms w = Some (int (length ms), self, w\<lparr>dsk := (dsk w)(fd := s')\<rparr>) \<and>
    dg_sent s' = dg_sent (dsk w fd) @ ms \<and> dg_rxq s' = dg_rxq (dsk w fd) \<and> set (dg_txq s') \<subseteq> set (dg_txq (dsk w fd))"
  using sendmmsg_loop_rooms[OF assms(2), of 0 ms "udp_wait self" False "(s5_timeout self, w)"] assms(1,3)
  by (auto simp: net_sendmmsg_def hev_task_io_socket_sendmmsg_def)

lemma sendmmsg_udp_frame:
  assumes "list_all2 denotes ms fs" "\<forall>f \<in> set fs. wf_addr (fst f)" "fs \<noteq> []"
    "fd \<in> set (fds w)" "\<forall>ev \<in> set (dg_txq (dsk w fd)). \<exists>k. ev = TxRoom (Suc k)"
    "hev_socks5_udp_sendmmsg_udp self fd ms w = Some (r, self', w')"
  shows "\<exists>s'. w' = w\<lparr>dsk := (dsk w)(fd := s')\<rparr> \<and> dg_rxq s' = dg_rxq (dsk w fd)"
proof -
  from assms(6) obtain iov where "net_sendmmsg self fd (map (\<lambda>v. (None, concat v)) iov) w = Some (r, self', w')"
    and i: "udp_bufs (\<lambda>_ _. [0, 0, 0]) ms (map (\<lambda>f. length (encode_addr (fst f))) fs) = Some iov"
    unfolding hev_socks5_udp_sendmmsg_udp_def udp_addr_lens_ok[OF assms(1,2)] by (auto simp: Option.bind_eq_Some_conv)
  moreover have "iov \<noteq> []" using i udp_bufs_ok[OF assms(1)] assms(3) by auto
  ultimately show ?thesis using net_sendmmsg_rooms[OF assms(4,5), of "map (\<lambda>v. (None, concat v)) iov" self] by fastforce
qed

text \<open>A \<open>recvmmsg\<close> that does not wait is one call.\<close>

lemma net_recvmmsg_once:
  assumes "net_recvmmsg self fd lens True w = Some (r, ds, self', w')" "fd \<in> set (fds w)"
  shows "\<exists>q. w' = w\<lparr>dsk := (dsk w)(fd := dsk w fd\<lparr>dg_rxq := q\<rparr>)\<rparr> \<and> self' = self \<and> length q \<le> length (dg_rxq (dsk w fd)) \<and>
    (dg_rxq (dsk w fd) = [] \<or> lens = [] \<or> length q < length (dg_rxq (dsk w fd)))"
proof -
  obtain z s1 where z: "sys_recvmmsg lens (dsk w fd) = (z, s1)" by fastforce
  have "\<exists>q. s1 = dsk w fd\<lparr>dg_rxq := q\<rparr> \<and> length q \<le> length (dg_rxq (dsk w fd)) \<and>
    (dg_rxq (dsk w fd) = [] \<or> lens = [] \<or> length q < length (dg_rxq (dsk w fd)))"
  proof (cases "dg_rxq (dsk w fd)")
    case Nil
    then have "s1 = dsk w fd\<lparr>dg_rxq := []\<rparr>" using z by (simp add: sys_recvmmsg_def)
    with Nil show ?thesis by auto
  next
    case (Cons ev q)
    show ?thesis
    proof (cases "\<exists>src d. ev = DgData src d")
      case False
      then have "s1 = dsk w fd\<lparr>dg_rxq := q\<rparr>" using z Cons by (cases ev) (auto simp: sys_recvmmsg_def)
      with Cons show ?thesis by auto
    next
      case True
      obtain ds1 q1 where t: "take_dgs lens (dg_rxq (dsk w fd)) = (ds1, q1)" by fastforce
      have "s1 = dsk w fd\<lparr>dg_rxq := q1\<rparr>" using z Cons True t by (auto simp: sys_recvmmsg_def)
      moreover have "lens = [] \<or> ds1 \<noteq> []" using t Cons True by (cases lens) (auto split: prod.splits)
      ultimately show ?thesis using take_dgs_length[OF t] by (cases ds1) auto
    qed
  qed
  moreover have "w' = w\<lparr>dsk := (dsk w)(fd := s1)\<rparr> \<and> self' = self" using assms z
    by (cases z) (simp_all add: net_recvmmsg_def hev_task_io_socket_recvmmsg_def task_recvmmsg_loop.simps)
  ultimately show ?thesis by blast
qed

lemma udp_side_recv:
  assumes "assoc_ok HEV_SOCKS5_TYPE_UDP_IN_UDP self" "dg_good fd fs w" "0 < num"
    "hev_socks5_udp_recvmmsg self fd True (udp_slots num stack) w = Some (r, ms, self', w')"
  shows "\<exists>q. w' = w\<lparr>dsk := (dsk w)(fd := dsk w fd\<lparr>dg_rxq := q\<rparr>)\<rparr> \<and> length q \<le> length (dg_rxq (dsk w fd)) \<and>
    (fs = [] \<or> length q < length (dg_rxq (dsk w fd)))"
proof -
  let ?ms = "udp_slots num stack"
  have a: "s5_type self = HEV_SOCKS5_TYPE_UDP_IN_UDP" "s5_udp_associated self" using assms(1) by (simp_all add: assoc_ok_def)
  have g: "fd \<in> set (fds w)" "dg_live (dg_rxq (dsk w fd)) fs" using assms(2) by (simp_all add: dg_good_def)
  from assms(4) obtain r1 ds s1 w1 where u: "net_recvmmsg self fd (map m_len ?ms) True w = Some (r1, ds, s1, w1)"
    using a(1) by (cases "net_recvmmsg self fd (map m_len ?ms) True w") (auto simp: hev_socks5_udp_recvmmsg_def hev_socks5_udp_recvmmsg_udp_def)
  from net_recvmmsg_once[OF u g(1)] obtain q where q: "w1 = w\<lparr>dsk := (dsk w)(fd := dsk w fd\<lparr>dg_rxq := q\<rparr>)\<rparr>" "s1 = self"
    "length q \<le> length (dg_rxq (dsk w fd))"
    "dg_rxq (dsk w fd) = [] \<or> map m_len ?ms = [] \<or> length q < length (dg_rxq (dsk w fd))" by blast
  have rest: "w' = w1" using assms(4) u a unfolding q(2)
    by (auto simp: hev_socks5_udp_recvmmsg_def hev_socks5_udp_recvmmsg_udp_def Option.bind_eq_Some_conv case_prod_unfold split: if_splits)
  have "map m_len ?ms \<noteq> []" using assms(3) slots_nth(1)[of num stack] by auto
  moreover have "dg_rxq (dsk w fd) = [] \<Longrightarrow> fs = []" using g(2) by simp
  ultimately show ?thesis using q rest a(2) by auto
qed

interpretation udp_side: association_side "\<lambda>self. assoc_ok HEV_SOCKS5_TYPE_UDP_IN_UDP self \<and> s5_fd self = c"
  "\<lambda>fd fs w. dg_good fd fs w \<and> control_ok c w" dg_out "\<lambda>f. [(None, datagram f)]" "\<lambda>fd w. length (dg_rxq (dsk w fd))" for c
proof
  fix self :: "'a hev_socks5_scheme" and fd fs w and num :: nat and stack
  assume b: "assoc_ok HEV_SOCKS5_TYPE_UDP_IN_UDP self \<and> s5_fd self = c" "dg_good fd fs w \<and> control_ok c w" "0 < num"
  then have a: "assoc_ok HEV_SOCKS5_TYPE_UDP_IN_UDP self" "dg_good fd fs w" "0 < num" by auto
  from dg_recv[OF a, of stack] obtain k ms w' where
    r: "hev_socks5_udp_recvmmsg self fd True (udp_slots num stack) w = Some (if k = 0 then -1 else int k, ms, self, w')"
      "k \<le> num" "k \<le> length fs" "list_all2 denotes (take k ms) (take k fs)" "dg_good fd (drop k fs) w'" "dg_out fd w' = dg_out fd w"
      "k = 0 \<longrightarrow> recv_errno self fd w w' = EAGAIN" by blast
  from udp_side_recv[OF a r(1)] b(2) have "control_ok c w'" "keeps fd w w'" "length (dg_rxq (dsk w' fd)) \<le> length (dg_rxq (dsk w fd))"
    "fs = [] \<or> length (dg_rxq (dsk w' fd)) < length (dg_rxq (dsk w fd))"
    by (auto simp: keeps_def control_ok_def)
  with r show "\<exists>k ms w'. hev_socks5_udp_recvmmsg self fd True (udp_slots num stack) w =
      Some (if k = 0 then -1 else int k, ms, self, w') \<and> k \<le> num \<and> k \<le> length fs \<and> list_all2 denotes (take k ms) (take k fs) \<and>
      (dg_good fd (drop k fs) w' \<and> control_ok c w') \<and> dg_out fd w' = dg_out fd w \<and> (k = 0 \<longrightarrow> recv_errno self fd w w' = EAGAIN) \<and> keeps fd w w' \<and>
      length (dg_rxq (dsk w' fd)) \<le> length (dg_rxq (dsk w fd)) \<and> (fs = [] \<or> length (dg_rxq (dsk w' fd)) < length (dg_rxq (dsk w fd)))" by blast
next
  fix self :: "'a hev_socks5_scheme" and fd fs w ms qs
  assume b: "assoc_ok HEV_SOCKS5_TYPE_UDP_IN_UDP self \<and> s5_fd self = c" "dg_good fd fs w \<and> control_ok c w"
    and q: "list_all2 denotes ms qs" "\<forall>q \<in> set qs. wf_addr (fst q)" "qs \<noteq> []"
  then have a: "assoc_ok HEV_SOCKS5_TYPE_UDP_IN_UDP self" "dg_good fd fs w" by auto
  from dg_send[OF a q] obtain w' where s: "hev_socks5_udp_sendmmsg self fd ms w = Some (int (length qs), self, w')" "dg_good fd fs w'"
    "dg_out fd w' = dg_out fd w @ concat (map (\<lambda>f. [(None, datagram f)]) qs)" by blast
  have "hev_socks5_udp_sendmmsg_udp self fd ms w = Some (int (length qs), self, w')"
    using s(1) a(1) by (simp add: assoc_ok_def hev_socks5_udp_sendmmsg_def)
  from sendmmsg_udp_frame[OF q _ _ this] a(2) b(2) have "control_ok c w'" "keeps fd w w'" "dg_rxq (dsk w' fd) = dg_rxq (dsk w fd)"
    by (auto simp: dg_good_def control_ok_def keeps_def)
  with s show "\<exists>w'. hev_socks5_udp_sendmmsg self fd ms w = Some (int (length qs), self, w') \<and> (dg_good fd fs w' \<and> control_ok c w') \<and>
    dg_out fd w' = dg_out fd w @ concat (map (\<lambda>f. [(None, datagram f)]) qs) \<and> keeps fd w w' \<and>
    length (dg_rxq (dsk w' fd)) = length (dg_rxq (dsk w fd))" by simp
next
  fix self :: "'a hev_socks5_scheme" and fd fs w ty v r t' w'
  assume b: "assoc_ok HEV_SOCKS5_TYPE_UDP_IN_UDP self \<and> s5_fd self = c" "dg_good fd fs w \<and> control_ok c w"
    and y: "udp_task_io_yielder self ty v (s5_timeout self, w) = (r, t', w')"
  obtain z s1 where z: "sys_recv 1 (sk w c) = (z, s1)" by fastforce
  have live: "rx_live (rxq (sk w c))" "c \<in> set (fds w)" using b(2) by (simp_all add: control_ok_def)
  have "rx_live (rxq s1)" by (rule sys_recv_live[OF z live(1)])
  moreover have "z \<noteq> SysErr \<and> (\<forall>bs. z = SysOk bs \<longrightarrow> bs \<noteq> [])"
    using z live(1) by (auto simp: sys_recv_def rx_live_def split: list.splits rx_ev.splits)
  ultimately show "(dg_good fd fs w' \<and> control_ok c w') \<and> dg_out fd w' = dg_out fd w \<and> keeps fd w w' \<and> dsk w' fd = dsk w fd \<and>
    length (dg_rxq (dsk w' fd)) = length (dg_rxq (dsk w fd)) \<and> t' = s5_timeout self \<and> (0 < v \<longrightarrow> r = 0)"
    using y b z live by (cases z) (auto simp: udp_task_io_yielder_def assoc_ok_def keeps_def hev_socks5_task_io_yielder_def control_ok_def dg_good_def)
next
  fix fd fs w e
  assume "dg_good fd fs w \<and> control_ok c w"
  then show "(dg_good fd fs (set_errno e fd w) \<and> control_ok c (set_errno e fd w)) \<and> dg_out fd (set_errno e fd w) = dg_out fd w \<and>
    length (dg_rxq (dsk (set_errno e fd w) fd)) = length (dg_rxq (dsk w fd))"
    by (auto simp: dg_good_def set_errno_def control_ok_def)
next
  fix fd fs and w w' :: net
  assume "dg_good fd fs w \<and> control_ok c w" "fds w' = fds w" "sk w' = sk w" "dsk w' fd = dsk w fd"
  then show "(dg_good fd fs w' \<and> control_ok c w') \<and> dg_out fd w' = dg_out fd w \<and> length (dg_rxq (dsk w' fd)) = length (dg_rxq (dsk w fd))"
    by (simp add: dg_good_def control_ok_def)
next
  fix fd fs w
  assume "dg_good fd fs w \<and> control_ok c w"
  then show "\<forall>f \<in> set fs. wf_addr (fst f)" using dg_live_wf by (auto simp: dg_good_def)
qed

subsection \<open>Destinations\<close>

text \<open>Where a message for an address goes: its socket address, or none when a name does not resolve.\<close>

definition destination :: "resolver \<Rightarrow> addr_family \<Rightarrow> socks_addr \<Rightarrow> sockaddr6 option" where
  "destination Rs family a = (case hev_socks5_addr_into_sockaddr6 Rs (encode_addr a) sockaddr6_zero family of
     Some (r, sa, _) \<Rightarrow> if r < 0 then None else Some sa
   | None \<Rightarrow> None)"

text \<open>The result of a resolution does not depend on what the variable held.\<close>

lemma cstring_ends: "\<exists>s. cstring (n @ [0]) = Some s"
  by (induction n) auto

lemma name_into_any:
  assumes Rs: "resolver_ok Rs" and l: "length (sin6_addr s1) = 16" "length (sin6_addr s2) = 16"
    and i: "hev_socks5_name_into_sockaddr6 Rs n p s1 f = Some (r, sa, f')" "\<not> r < 0"
  shows "hev_socks5_name_into_sockaddr6 Rs n p s2 f = Some (r, sa, f')"
proof -
  have r: "\<And>a. res_pton4 Rs n = Some a \<Longrightarrow> length a = 4" "\<And>a. res_pton6 Rs n = Some a \<Longrightarrow> length a = 16"
    "\<And>g a. res_getaddrinfo Rs g n = Some (AI_INET a) \<Longrightarrow> length a = 4" "\<And>g a. res_getaddrinfo Rs g n = Some (AI_INET6 a) \<Longrightarrow> length a = 16"
    using Rs unfolding resolver_ok_def by blast+
  note unf = hev_socks5_name_into_sockaddr6_def hev_socks5_name_resolve_ipv4_def hev_socks5_name_resolve_ipv6_def
    hev_socks5_name_resolve_name_def wr_def splice_at_def rd_def Let_def
  show ?thesis
  proof (cases "res_pton4 Rs n")
    case (Some a)
    with r(1)[OF Some] l i show ?thesis by (cases s1; cases s2) (auto simp: unf)
  next
    case None
    note n4 = None
    show ?thesis
    proof (cases "res_pton6 Rs n")
      case (Some a)
      with r(2)[OF Some] n4 l i show ?thesis by (cases s1; cases s2) (auto simp: unf)
    next
      case None
      show ?thesis
      proof (cases "res_getaddrinfo Rs f n")
        case (Some ai)
        with r(3,4)[of f] None n4 l i show ?thesis by (cases s1; cases s2; cases ai) (auto simp: unf)
      qed (use None n4 l i in \<open>simp add: unf\<close>)
    qed
  qed
qed

lemma into_any:
  assumes "resolver_ok Rs" "wf_addr a" "length (sin6_addr s1) = 16" "destination Rs f a = Some sa"
  shows "\<exists>r f'. hev_socks5_addr_into_sockaddr6 Rs (encode_addr a @ x) s1 f = Some (r, sa, f') \<and> \<not> r < 0"
proof (cases a)
  case (SA_IPv4 ip p)
  with assms addr_into_sockaddr6_ipv4[of ip sockaddr6_zero Rs p "[]" f] addr_into_sockaddr6_ipv4[of ip s1 Rs p x f] show ?thesis
    by (simp add: destination_def sockaddr6_zero_def del: encode_addr.simps)
next
  case (SA_IPv6 ip p)
  with assms addr_into_sockaddr6_ipv6[of ip sockaddr6_zero Rs p "[]" f] addr_into_sockaddr6_ipv6[of ip s1 Rs p x f] show ?thesis
    by (simp add: destination_def sockaddr6_zero_def del: encode_addr.simps)
next
  case (SA_Name n p)
  obtain nm where nm: "cstring (n @ [0]) = Some nm" using cstring_ends by blast
  have l: "length n < 256" using assms(2) SA_Name by simp
  have run: "hev_socks5_addr_into_sockaddr6 Rs (encode_addr (SA_Name n p) @ y) s f = hev_socks5_name_into_sockaddr6 Rs nm (uint p) s f" for y s
  proof -
    let ?bs = "encode_addr (SA_Name n p) @ y"
    have "rd ?bs 2 (length n) = Some n" "rd ?bs (2 + length n) 2 = Some (be16 p)" by (simp_all add: rd_def)
    then show ?thesis using nm by (simp add: hev_socks5_addr_into_sockaddr6_def rd8_def unat_len_byte[OF l])
  qed
  from assms(4) run[of "[]" sockaddr6_zero] obtain r f' where
    n: "hev_socks5_name_into_sockaddr6 Rs nm (uint p) sockaddr6_zero f = Some (r, sa, f')" "\<not> r < 0"
    by (auto simp: destination_def SA_Name split: option.splits if_splits prod.splits simp del: encode_addr.simps)
  have "length (sin6_addr sockaddr6_zero) = 16" by (simp add: sockaddr6_zero_def)
  from name_into_any[OF assms(1) this assms(3) n] run[of x s1] n(2) show ?thesis unfolding SA_Name by simp
qed

subsection \<open>The second socket\<close>

fun dgrams :: "'a dg_ev list \<Rightarrow> ('a \<times> bytes) list" where
  "dgrams [] = []"
| "dgrams (DgData src d # q) = (src, d) # dgrams q"
| "dgrams (_ # q) = dgrams q"

definition plain_dgrams :: "sockaddr6 dg_ev list \<Rightarrow> bool" where
  "plain_dgrams q \<longleftrightarrow> (\<forall>ev \<in> set q. case ev of
     DgData src d \<Rightarrow> length (sin6_addr src) = 16 \<and> length d \<le> UDP_BUF_SIZE | DgAgain _ \<Rightarrow> True | DgErr \<Rightarrow> False)"

text \<open>The socket takes what it is given and the datagrams \<open>gs\<close> are still to arrive on it.\<close>

definition peer_ok :: "int \<Rightarrow> (sockaddr6 \<times> bytes) list \<Rightarrow> net \<Rightarrow> bool" where
  "peer_ok b gs w \<longleftrightarrow> b \<in> set (fds w) \<and> (\<forall>ev \<in> set (dg_txq (dsk w b)). \<exists>k. ev = TxRoom (Suc k)) \<and>
     plain_dgrams (dg_rxq (dsk w b)) \<and> dgrams (dg_rxq (dsk w b)) = gs"

text \<open>The datagram for a message and the message for a datagram.\<close>

definition outgoing :: "resolver \<Rightarrow> addr_family \<Rightarrow> socks_addr \<times> bytes \<Rightarrow> sockaddr6 option \<times> bytes" where
  "outgoing Rs family f = (destination Rs family (fst f), snd f)"

definition incoming :: "sockaddr6 \<times> bytes \<Rightarrow> socks_addr \<times> bytes" where
  "incoming g = (addr_of (fst g), snd g)"

definition resolvable :: "resolver \<Rightarrow> addr_family \<Rightarrow> (socks_addr \<times> bytes) list \<Rightarrow> bool" where
  "resolvable Rs family fs \<longleftrightarrow> (\<forall>f \<in> set fs. snd f \<noteq> [] \<and> destination Rs family (fst f) \<noteq> None)"

definition turn_ok :: "udp_turn \<Rightarrow> bool" where
  "turn_ok t \<longleftrightarrow> length (sin6_addr (ut_addr t)) = 16 \<and> length (ut_saddr t) = 19"

lemma take_dgs_plain:
  "take_dgs (replicate n UDP_BUF_SIZE) q = (ds, q') \<Longrightarrow> plain_dgrams q \<Longrightarrow>
    dgrams q = ds @ dgrams q' \<and> plain_dgrams q' \<and> length ds \<le> n \<and> (\<forall>(src, d) \<in> set ds. length (sin6_addr src) = 16 \<and> length d \<le> UDP_BUF_SIZE)"
proof (induction n arbitrary: q ds q')
  case (Suc n)
  show ?case
  proof (cases q)
    case (Cons ev q1)
    show ?thesis
    proof (cases "\<exists>src d. ev = DgData src d")
      case True
      then obtain src d where ev: "ev = DgData src d" by blast
      obtain ds1 q2 where t: "take_dgs (replicate n UDP_BUF_SIZE) q1 = (ds1, q2)" by fastforce
      have "plain_dgrams q1" "length d \<le> UDP_BUF_SIZE" "length (sin6_addr src) = 16" using Suc.prems(2) Cons ev by (simp_all add: plain_dgrams_def)
      with Suc.IH[OF t] Suc.prems(1) t Cons ev show ?thesis by auto
    qed (use Suc.prems Cons in \<open>cases ev; auto\<close>)
  qed (use Suc.prems in auto)
qed auto

lemma udp_dests_run:
  assumes "resolver_ok Rs" "length (sin6_addr junk) = 16"
  shows "list_all2 denotes ms fs \<Longrightarrow> \<forall>f \<in> set fs. wf_addr (fst f) \<Longrightarrow> resolvable Rs fam fs \<Longrightarrow>
    udp_dests Rs fam junk ms = Some (Some (map (\<lambda>f. (the (destination Rs fam (fst f)), snd f)) fs))"
proof (induction rule: list_all2_induct)
  case (Cons m ms f fs)
  then have d: "denotes m f" "snd f \<noteq> []" "wf_addr (fst f)" by (simp_all add: resolvable_def)
  obtain ar br where m: "m_addr m = At (encode_addr (fst f) @ ar)" "m_buf m = snd f @ br" "m_len m = length (snd f)"
    using d(1) unfolding denotes_def by blast
  obtain sa where sa: "destination Rs fam (fst f) = Some sa" using Cons.prems(2) by (auto simp: resolvable_def)
  obtain r f' where i: "hev_socks5_addr_into_sockaddr6 Rs (encode_addr (fst f) @ ar) junk fam = Some (r, sa, f')" "\<not> r < 0"
    using into_any[OF assms(1) d(3) assms(2) sa] by blast
  have "rd (m_buf m) 0 (m_len m) = Some (snd f)" using m by (simp add: rd_def)
  with Cons i m d(2) sa show ?case by (simp add: resolvable_def)
qed simp

lemma udp_sources_run:
  assumes "length junk = 19"
  shows "\<forall>(src, d) \<in> set ds. length (sin6_addr src) = 16 \<and> length d \<le> UDP_BUF_SIZE \<Longrightarrow>
    \<exists>ms. udp_sources junk ds = Some ms \<and> list_all2 denotes ms (map incoming ds)"
proof (induction ds)
  case (Cons g ds)
  obtain src d where g: "g = (src, d)" by (cases g)
  then have l: "length (sin6_addr src) = 16" using Cons.prems by simp
  have "\<exists>r. hev_socks5_addr_from_sockaddr6 junk src = Some (int (length (encode_addr (addr_of src))), encode_addr (addr_of src) @ r)"
    using assms l store16_htons[of "htons (sin6_port src)"]
    by (auto simp: hev_socks5_addr_from_sockaddr6_def addr_of_def wr_def rd_def splice_at_def)
  with Cons g show ?case by (force simp: incoming_def denotes_def)
qed simp

lemma addr_of_wf: "length (sin6_addr src) = 16 \<Longrightarrow> wf_addr (addr_of src)"
  by (simp add: addr_of_def)

subsection \<open>One step in each direction\<close>

text \<open>The first \<open>k\<close> of the messages \<open>fs\<close> and the first \<open>j\<close> of the datagrams \<open>gs\<close> have been passed on, exactly and in order.\<close>

definition forwarded ::
  "resolver \<Rightarrow> addr_family \<Rightarrow> int \<Rightarrow> (net \<Rightarrow> 'o list) \<Rightarrow> (socks_addr \<times> bytes \<Rightarrow> 'o list) \<Rightarrow> (socks_addr \<times> bytes) list \<Rightarrow>
    (sockaddr6 \<times> bytes) list \<Rightarrow> net \<Rightarrow> nat \<Rightarrow> nat \<Rightarrow> net \<Rightarrow> bool" where
  "forwarded Rs fam b out enc fs gs w k j w' \<longleftrightarrow> k \<le> length fs \<and> j \<le> length gs \<and> fds w' = fds w \<and>
     dg_out b w' = dg_out b w @ map (outgoing Rs fam) (take k fs) \<and>
     out w' = out w @ concat (map (enc \<circ> incoming) (take j gs))"

lemma forwarded_trans:
  assumes "forwarded Rs fam b out enc fs gs w k j w1" "forwarded Rs fam b out enc (drop k fs) (drop j gs) w1 k' j' w2"
  shows "forwarded Rs fam b out enc fs gs w (k + k') (j + j') w2"
  using assms by (auto simp: forwarded_def take_add)

context association_side begin

lemma fwd_f_step:
  assumes s: "ok self" "good a fs w" "peer_ok b gs w" "a \<noteq> b" "0 < num"
    and d: "resolver_ok Rs" "resolvable Rs (s5_family self) fs" "turn_ok t"
  shows "\<exists>k r bnd' w'. hev_socks5_udp_fwd_f Rs num a b t bnd self w = Some (r, bnd', self, w') \<and> 0 \<le> r \<and>
    forwarded Rs (s5_family self) b (out a) enc fs gs w k 0 w' \<and> good a (drop k fs) w' \<and> peer_ok b gs w' \<and> blocks w' = blocks w \<and>
    dg_rxq (dsk w' b) = dg_rxq (dsk w b) \<and> load a w' \<le> load a w \<and> (fs = [] \<or> load a w' < load a w)"
proof -
  let ?w0 = "set_errno (ut_errno t) a w" and ?fam = "s5_family self"
  have g0: "good a fs ?w0" "out a ?w0 = out a w" "load a ?w0 = load a w" using touch[OF s(2)] by auto
  have k0: "fds ?w0 = fds w" "dsk ?w0 = dsk w" "blocks ?w0 = blocks w" by (simp_all add: set_errno_def)
  from recv[OF s(1) g0(1) s(5), of "ut_bufs t"] obtain k ms w1 where
    r: "hev_socks5_udp_recvmmsg self a True (udp_slots num (ut_bufs t)) ?w0 = Some (if k = 0 then -1 else int k, ms, self, w1)"
      "k \<le> length fs" "list_all2 denotes (take k ms) (take k fs)" "good a (drop k fs) w1" "out a w1 = out a w"
      "k = 0 \<longrightarrow> recv_errno self a ?w0 w1 = EAGAIN" "keeps a ?w0 w1" "load a w1 \<le> load a w" "fs = [] \<or> load a w1 < load a w"
    using g0 by auto
  have k1: "fds w1 = fds w" "dsk w1 b = dsk w b" "blocks w1 = blocks w" using r(7) s(4) k0 by (auto simp: keeps_def)
  have p1: "peer_ok b gs w1" using s(3) k1 by (simp add: peer_ok_def)
  show ?thesis
  proof (cases "k = 0")
    case True
    with r k1 p1 s(5) show ?thesis
      by (intro exI[of _ 0] exI[of _ 0] exI[of _ bnd] exI[of _ w1]) (simp add: hev_socks5_udp_fwd_f_def forwarded_def check_def)
  next
    case False
    let ?out = "map (\<lambda>f. (the (destination Rs ?fam (fst f)), snd f)) (take k fs)"
    have ne: "take k fs \<noteq> []" using False r(2) by (cases fs) auto
    have del: "resolvable Rs ?fam (take k fs)" "\<forall>f \<in> set (take k fs). wf_addr (fst f)"
      using d(2) wf[OF s(2)] by (auto simp: resolvable_def dest: in_set_takeD)
    have "length (sin6_addr (ut_addr t)) = 16" using d(3) by (simp add: turn_ok_def)
    from udp_dests_run[OF d(1) this r(3) del(2,1)] have u: "udp_dests Rs ?fam (ut_addr t) (take k ms) = Some (Some ?out)" .
    have o: "map (\<lambda>(addr, d). (Some addr, d)) ?out = map (outgoing Rs ?fam) (take k fs)"
      using del(1) by (auto simp: outgoing_def resolvable_def)
    have rooms: "b \<in> set (fds w1)" "\<forall>ev \<in> set (dg_txq (dsk w1 b)). \<exists>k. ev = TxRoom (Suc k)" using p1 by (simp_all add: peer_ok_def)
    from net_sendmmsg_rooms[OF rooms, of "map (outgoing Rs ?fam) (take k fs)" self] ne obtain s' where
      n: "net_sendmmsg self b (map (outgoing Rs ?fam) (take k fs)) w1 = Some (int k, self, w1\<lparr>dsk := (dsk w1)(b := s')\<rparr>)"
        "dg_sent s' = dg_out b w1 @ map (outgoing Rs ?fam) (take k fs)" "dg_rxq s' = dg_rxq (dsk w1 b)" "set (dg_txq s') \<subseteq> set (dg_txq (dsk w1 b))"
      using r(2) by auto
    let ?w2 = "w1\<lparr>dsk := (dsk w1)(b := s')\<rparr>"
    have g2: "good a (drop k fs) ?w2" "out a ?w2 = out a w1" "load a ?w2 = load a w1" using frame_other[OF r(4), of ?w2] s(4) by auto
    have "hev_socks5_udp_fwd_f Rs num a b t bnd self w = Some (1, True, self, ?w2)"
      using r(1) False u n(1) s(5) o
      by (simp add: hev_socks5_udp_fwd_f_def check_def hev_socks5_bind_def hev_socks5_get_addr_family_def del: map_map)
    moreover have "peer_ok b gs ?w2" using p1 n by (auto simp: peer_ok_def)
    moreover have "forwarded Rs ?fam b (out a) enc fs gs w k 0 ?w2" using r(2,5) g2(2) k1 n(2) by (simp add: forwarded_def)
    ultimately show ?thesis using g2 r k1 n(3)
      by (intro exI[of _ k] exI[of _ 1] exI[of _ True] exI[of _ ?w2]) simp
  qed
qed

lemma fwd_b_step:
  assumes s: "ok self" "good a fs w" "peer_ok b gs w" "a \<noteq> b" "0 < num" "turn_ok t"
  shows "\<exists>j r w'. hev_socks5_udp_fwd_b num a b t self w = Some (r, self, w') \<and> 0 \<le> r \<and> r = (if j = 0 then 0 else 1) \<and>
    forwarded Rs fam b (out a) enc fs gs w 0 j w' \<and> good a fs w' \<and> peer_ok b (drop j gs) w' \<and> blocks w' = blocks w \<and>
    load a w' = load a w \<and> length (dg_rxq (dsk w' b)) \<le> length (dg_rxq (dsk w b)) \<and>
    (gs = [] \<or> length (dg_rxq (dsk w' b)) < length (dg_rxq (dsk w b)))"
proof -
  let ?s = "dsk w b" and ?lens = "replicate num UDP_BUF_SIZE"
  have p: "b \<in> set (fds w)" "\<forall>ev \<in> set (dg_txq ?s). \<exists>k. ev = TxRoom (Suc k)" "plain_dgrams (dg_rxq ?s)" "dgrams (dg_rxq ?s) = gs"
    using s(3) by (simp_all add: peer_ok_def)
  show ?thesis
  proof (cases "\<exists>src d q. dg_rxq ?s = DgData src d # q")
    case False
    then obtain q v where q: "sys_recvmmsg ?lens ?s = (SysAgain v, ?s\<lparr>dg_rxq := q\<rparr>)" "plain_dgrams q" "dgrams q = gs" "dgram_errno b w = EAGAIN"
      "length q \<le> length (dg_rxq ?s)" "gs = [] \<or> length q < length (dg_rxq ?s)"
    proof (cases "dg_rxq ?s")
      case Nil
      then have "?s\<lparr>dg_rxq := []\<rparr> = ?s" by simp
      with Nil that[of 0 "[]"] p show ?thesis by (simp add: sys_recvmmsg_def dgram_errno_def)
    next
      case (Cons ev q)
      with False that[of _ q] p show ?thesis by (cases ev) (auto simp: sys_recvmmsg_def plain_dgrams_def dgram_errno_def)
    qed
    let ?w = "w\<lparr>dsk := (dsk w)(b := ?s\<lparr>dg_rxq := q\<rparr>)\<rparr>"
    have "net_recvmmsg self b ?lens True w = Some (-1, [], self, ?w)"
      using p(1) q(1) by (simp add: net_recvmmsg_def hev_task_io_socket_recvmmsg_def task_recvmmsg_loop.simps)
    then have "hev_socks5_udp_fwd_b num a b t self w = Some (0, self, ?w)" using q(4) by (simp add: hev_socks5_udp_fwd_b_def Let_def)
    moreover have "good a fs ?w \<and> out a ?w = out a w \<and> load a ?w = load a w" using frame_other[OF s(2), of ?w] s(4) by simp
    ultimately show ?thesis using p q
      by (intro exI[of _ 0] exI[of _ 0] exI[of _ ?w]) (simp add: forwarded_def peer_ok_def)
  next
    case True
    then obtain src d q where hd: "dg_rxq ?s = DgData src d # q" by blast
    obtain ds q' where t: "take_dgs ?lens (dg_rxq ?s) = (ds, q')" by fastforce
    from take_dgs_plain[OF t p(3)] p(4) have ds: "gs = ds @ dgrams q'" "plain_dgrams q'"
      "\<forall>(src, d) \<in> set ds. length (sin6_addr src) = 16 \<and> length d \<le> UDP_BUF_SIZE" by auto
    have ne: "ds \<noteq> []" using t hd s(5) by (cases num) (auto split: prod.splits)
    let ?w1 = "w\<lparr>dsk := (dsk w)(b := ?s\<lparr>dg_rxq := q'\<rparr>)\<rparr>"
    have r: "net_recvmmsg self b ?lens True w = Some (int (length ds), ds, self, ?w1)"
      using p(1) t hd by (simp add: net_recvmmsg_def hev_task_io_socket_recvmmsg_def task_recvmmsg_loop.simps sys_recvmmsg_def)
    have l: "length (ut_saddr t) = 19" using s(6) by (simp add: turn_ok_def)
    from udp_sources_run[OF l ds(3)] obtain ms where ms: "udp_sources (ut_saddr t) ds = Some ms" "list_all2 denotes ms (map incoming ds)" by blast
    have wfs: "\<forall>q \<in> set (map incoming ds). wf_addr (fst q)" using ds(3) by (fastforce simp: incoming_def intro: addr_of_wf)
    let ?w2 = "set_errno (ut_errno t) a ?w1"
    have g1: "good a fs ?w1 \<and> out a ?w1 = out a w \<and> load a ?w1 = load a w" using frame_other[OF s(2), of ?w1] s(4) by simp
    then have g2: "good a fs ?w2" "out a ?w2 = out a w" "load a ?w2 = load a w" using touch[of a fs ?w1] by auto
    from send[OF s(1) g2(1) ms(2) wfs] ne obtain w3 where sd: "hev_socks5_udp_sendmmsg self a ms ?w2 = Some (int (length ds), self, w3)"
      "good a fs w3" "out a w3 = out a w @ concat (map enc (map incoming ds))" "keeps a ?w2 w3" "load a w3 = load a w"
      using g2 by auto
    have k3: "fds w3 = fds w" "dsk w3 b = ?s\<lparr>dg_rxq := q'\<rparr>" "blocks w3 = blocks w" using sd(4) s(4) by (auto simp: keeps_def set_errno_def)
    have "hev_socks5_udp_fwd_b num a b t self w = Some (1, self, w3)"
      using r ms(1) sd(1) ne by (simp add: hev_socks5_udp_fwd_b_def Let_def)
    moreover have "forwarded Rs fam b (out a) enc fs gs w 0 (length ds) w3" using ds(1) sd(3) k3 by (simp add: forwarded_def)
    moreover have "peer_ok b (drop (length ds) gs) w3" using p k3 ds by (simp add: peer_ok_def)
    moreover have "length q' < length (dg_rxq ?s)" using take_dgs_length[OF t] ne by (cases ds) auto
    ultimately show ?thesis using sd k3 ne
      by (intro exI[of _ "length ds"] exI[of _ 1] exI[of _ w3]) simp
  qed
qed

end

subsection \<open>The whole association\<close>

text \<open>Everything that is still to arrive has been passed on.\<close>

context association_side begin

lemma load_0: "ok self \<Longrightarrow> good a fs w \<Longrightarrow> load a w = 0 \<Longrightarrow> fs = []"
  using recv[of self a fs w 1 "[]"] by auto

lemma relay_loop_run:
  assumes "ok self" "good a fs w" "peer_ok b gs w" "a \<noteq> b" "0 < num" "resolver_ok Rs" "resolvable Rs (s5_family self) fs"
    "\<forall>t \<in> set uts. turn_ok t" "0 \<le> res_f" "0 \<le> res_b"
  shows "\<exists>fin w' k j. udp_relay_loop Rs num a b res_f res_b bnd uts (self, w) = Some (fin, self, w') \<and>
    forwarded Rs (s5_family self) b (out a) enc fs gs w k j w' \<and> good a (drop k fs) w' \<and> blocks w' = blocks w \<and>
    ((\<forall>t \<in> set uts. 0 < min (s5_timeout self) (ut_sleep t)) \<longrightarrow>
      \<not> fin \<and> (load a w + length (dg_rxq (dsk w b)) \<le> length uts \<longrightarrow> k = length fs \<and> j = length gs))"
  using assms
proof (induction uts arbitrary: fs gs w res_f res_b bnd)
  case Nil
  have "load a w = 0 \<Longrightarrow> fs = []" "dg_rxq (dsk w b) = [] \<Longrightarrow> gs = []" using load_0[OF Nil.prems(1,2)] Nil.prems(3) by (auto simp: peer_ok_def)
  then show ?case by (intro exI[of _ False] exI[of _ w] exI[of _ 0]) (use Nil.prems(2) in \<open>auto simp: forwarded_def\<close>)
next
  case (Cons t uts)
  let ?fam = "s5_family self"
  have t: "turn_ok t" "\<forall>t \<in> set uts. turn_ok t" using Cons.prems(8) by auto
  from fwd_f_step[OF Cons.prems(1-7) t(1), of bnd] obtain k r bnd' w1 where
    f: "hev_socks5_udp_fwd_f Rs num a b t bnd self w = Some (r, bnd', self, w1)" "0 \<le> r"
      "forwarded Rs ?fam b (out a) enc fs gs w k 0 w1" "good a (drop k fs) w1" "peer_ok b gs w1" "blocks w1 = blocks w"
      "dg_rxq (dsk w1 b) = dg_rxq (dsk w b)" "load a w1 \<le> load a w" "fs = [] \<or> load a w1 < load a w" by blast
  from fwd_b_step[OF Cons.prems(1) f(4,5) Cons.prems(4,5) t(1), of Rs ?fam] obtain j q w2 where
    b: "hev_socks5_udp_fwd_b num a b t self w1 = Some (q, self, w2)" "0 \<le> q"
      "forwarded Rs ?fam b (out a) enc (drop k fs) gs w1 0 j w2" "good a (drop k fs) w2" "peer_ok b (drop j gs) w2" "blocks w2 = blocks w1"
      "load a w2 = load a w1" "length (dg_rxq (dsk w2 b)) \<le> length (dg_rxq (dsk w1 b))"
      "gs = [] \<or> length (dg_rxq (dsk w2 b)) < length (dg_rxq (dsk w1 b))" by blast
  have fw: "forwarded Rs ?fam b (out a) enc fs gs w k j w2"
    using forwarded_trans[OF f(3), of 0 j w2] b(3) by simp
  let ?ty = "if 0 < r \<or> 0 < q then HEV_TASK_YIELD else HEV_TASK_WAITIO"
  obtain y t' w3 where y: "udp_task_io_yielder self ?ty (min (s5_timeout self) (ut_sleep t)) (s5_timeout self, w2) = (y, t', w3)"
    by (metis surj_pair)
  from poll[OF Cons.prems(1) b(4) y] Cons.prems(4) have p: "good a (drop k fs) w3" "out a w3 = out a w2" "fds w3 = fds w2" "blocks w3 = blocks w2"
    "dsk w3 b = dsk w2 b" "load a w3 = load a w2" "t' = s5_timeout self" "0 < min (s5_timeout self) (ut_sleep t) \<longrightarrow> y = 0"
    by (auto simp: keeps_def)
  have step: "udp_relay_loop Rs num a b res_f res_b bnd (t # uts) (self, w) =
      (if y \<noteq> 0 then Some (True, self, w3) else udp_relay_loop Rs num a b r q bnd' uts (self, w3))"
  proof (cases "0 < r \<or> 0 < q")
    case True
    then show ?thesis using f(1) b(1) y p(7) Cons.prems(9,10) by (simp add: udp_relay_loop.simps(2) udp_turn_yielder_def)
  next
    case False
    then have "r = 0" "q = 0" using f(2) b(2) by auto
    then show ?thesis using f(1) b(1) y p(7) Cons.prems(9,10) by (simp add: udp_relay_loop.simps(2) udp_turn_yielder_def)
  qed
  have fw3: "forwarded Rs ?fam b (out a) enc fs gs w k j w3" using fw p(2,3,5) by (simp add: forwarded_def)
  show ?case
  proof (cases "y = 0")
    case False
    with step fw3 p(1,4,8) b(6) f(6) show ?thesis
      by (intro exI[of _ True] exI[of _ w3] exI[of _ k] exI[of _ j]) auto
  next
    case True
    have p3: "peer_ok b (drop j gs) w3" using b(5) p(3,5) by (simp add: peer_ok_def)
    have d3: "resolvable Rs ?fam (drop k fs)" using Cons.prems(7) by (auto simp: resolvable_def dest: in_set_dropD)
    from Cons.IH[OF Cons.prems(1) p(1) p3 Cons.prems(4-6) d3 t(2) f(2) b(2), of bnd'] obtain fin w' k' j' where
      i: "udp_relay_loop Rs num a b r q bnd' uts (self, w3) = Some (fin, self, w')"
        "forwarded Rs ?fam b (out a) enc (drop k fs) (drop j gs) w3 k' j' w'" "blocks w' = blocks w3" "good a (drop k' (drop k fs)) w'"
        "(\<forall>t \<in> set uts. 0 < min (s5_timeout self) (ut_sleep t)) \<longrightarrow> \<not> fin \<and>
          (load a w3 + length (dg_rxq (dsk w3 b)) \<le> length uts \<longrightarrow> k' = length (drop k fs) \<and> j' = length (drop j gs))" by blast
    have tot: "forwarded Rs ?fam b (out a) enc fs gs w (k + k') (j + j') w'" by (rule forwarded_trans[OF fw3 i(2)])
    have le: "load a w3 + length (dg_rxq (dsk w3 b)) \<le> length uts \<or> (fs = [] \<and> gs = [])"
      if "load a w + length (dg_rxq (dsk w b)) \<le> length (t # uts)"
      using that f(7-9) b(7-9) p(5,6) by auto
    have kj: "k \<le> length fs" "j \<le> length gs" "k + k' \<le> length fs" "j + j' \<le> length gs" using fw3 tot by (auto simp: forwarded_def)
    have g: "good a (drop (k + k') fs) w'" using i(4) by (simp add: add.commute)
    have bl: "blocks w' = blocks w" using i(3) p(4) b(6) f(6) by simp
    have done_all: "\<not> fin \<and> (load a w + length (dg_rxq (dsk w b)) \<le> length (t # uts) \<longrightarrow> k + k' = length fs \<and> j + j' = length gs)"
      if "\<forall>t \<in> set (t # uts). 0 < min (s5_timeout self) (ut_sleep t)"
      using that i(5) le kj by auto
    have run: "udp_relay_loop Rs num a b res_f res_b bnd (t # uts) (self, w) = Some (fin, self, w')" using step True i(1) by simp
    from run tot g bl done_all show ?thesis by blast
  qed
qed

lemma udp_splicer_run:
  assumes "ok self" "good a fs w" "peer_ok b gs w" "a \<noteq> b" "0 < hev_socks5_get_udp_copy_buffer_nums conf"
    "resolver_ok Rs" "resolvable Rs (s5_family self) fs" "\<forall>t \<in> set uts. turn_ok t"
  shows "\<exists>fin res w' k j. hev_socks5_udp_splicer Rs conf a b uts self w = Some (fin, res, self, w') \<and>
    forwarded Rs (s5_family self) b (out a) enc fs gs w k j w' \<and> blocks w' = (if fin then blocks w else Suc (blocks w)) \<and>
    (mallocq w = [] \<and> (\<forall>t \<in> set uts. 0 < min (s5_timeout self) (ut_sleep t)) \<longrightarrow>
      \<not> fin \<and> (load a w + length (dg_rxq (dsk w b)) \<le> length uts \<longrightarrow> k = length fs \<and> j = length gs))"
proof -
  obtain m w1 where m: "sys_malloc w = (m, w1)" by fastforce
  then have w1: "fds w1 = fds w" "sk w1 = sk w" "dsk w1 = dsk w" "blocks w1 = (if m then Suc (blocks w) else blocks w)" "mallocq w = [] \<longrightarrow> m"
    by (auto simp: sys_malloc_def Let_def pop_def split: prod.splits list.splits)
  show ?thesis
  proof (cases m)
    case False
    have "out a w1 = out a w" using frame_other[OF assms(2), of w1] w1 by simp
    with m w1 False show ?thesis
      by (intro exI[of _ True] exI[of _ "-1"] exI[of _ w1] exI[of _ 0]) (simp add: hev_socks5_udp_splicer_def forwarded_def)
  next
    case True
    let ?w2 = "snd (hev_task_add_fd b (snd (hev_task_add_fd a w1)))"
    have w2: "fds ?w2 = fds w" "sk ?w2 = sk w" "dsk ?w2 = dsk w" "blocks ?w2 = Suc (blocks w)"
      using w1 True by (auto simp: hev_task_add_fd_def)
    have g: "good a fs ?w2" "out a ?w2 = out a w" "load a ?w2 = load a w" using frame_other[OF assms(2), of ?w2] w2 by auto
    have p: "peer_ok b gs ?w2" using assms(3) w2 by (simp add: peer_ok_def)
    have n: "0 < nat (hev_socks5_get_udp_copy_buffer_nums conf)" using assms(5) by simp
    from relay_loop_run[OF assms(1) g(1) p assms(4) n assms(6-8) zero_le_one zero_le_one, of False] obtain fin w' k j where
      l: "udp_relay_loop Rs (nat (hev_socks5_get_udp_copy_buffer_nums conf)) a b 1 1 False uts (self, ?w2) = Some (fin, self, w')"
        "forwarded Rs (s5_family self) b (out a) enc fs gs ?w2 k j w'" "good a (drop k fs) w'" "blocks w' = blocks ?w2"
        "(\<forall>t \<in> set uts. 0 < min (s5_timeout self) (ut_sleep t)) \<longrightarrow> \<not> fin \<and>
          (load a ?w2 + length (dg_rxq (dsk ?w2 b)) \<le> length uts \<longrightarrow> k = length fs \<and> j = length gs)" by blast
    have fw: "forwarded Rs (s5_family self) b (out a) enc fs gs w k j w'" using l(2) g(2) w2 by (simp add: forwarded_def)
    show ?thesis
    proof (cases fin)
      case False
      with m True l fw w2 g show ?thesis
        by (intro exI[of _ False] exI[of _ 0] exI[of _ w'] exI[of _ k] exI[of _ j]) (simp add: hev_socks5_udp_splicer_def)
    next
      case fin: True
      let ?w3 = "w'\<lparr>blocks := blocks w' - 1\<rparr>"
      have "out a ?w3 = out a w'" using frame_other[OF l(3), of ?w3] by simp
      with fw have "forwarded Rs (s5_family self) b (out a) enc fs gs w k j ?w3" by (simp add: forwarded_def)
      moreover have "hev_free w' = Some ?w3" using l(4) w2 by (simp add: hev_free_def)
      ultimately show ?thesis using m True l fin w2 g
        by (intro exI[of _ True] exI[of _ 0] exI[of _ ?w3] exI[of _ k] exI[of _ j]) (simp add: hev_socks5_udp_splicer_def)
    qed
  qed
qed

end

subsection \<open>An empty datagram\<close>

context association_side begin

lemma fwd_f_empty:
  assumes s: "ok self" "good a (f # fs) w" "peer_ok b gs w" "a \<noteq> b" "0 < num" "snd f = []"
  shows "\<exists>r bnd' w' fs'. hev_socks5_udp_fwd_f Rs num a b t bnd self w = Some (r, bnd', self, w') \<and> (r = 0 \<and> fs' = f # fs \<or> r = -1) \<and>
    good a fs' w' \<and> out a w' = out a w \<and> dsk w' b = dsk w b \<and> fds w' = fds w \<and> blocks w' = blocks w"
proof -
  let ?w0 = "set_errno (ut_errno t) a w"
  have g0: "good a (f # fs) ?w0" "out a ?w0 = out a w" using touch[OF s(2)] by auto
  from recv[OF s(1) g0(1) s(5), of "ut_bufs t"] obtain k ms w1 where
    r: "hev_socks5_udp_recvmmsg self a True (udp_slots num (ut_bufs t)) ?w0 = Some (if k = 0 then -1 else int k, ms, self, w1)"
      "k \<le> length (f # fs)" "list_all2 denotes (take k ms) (take k (f # fs))" "good a (drop k (f # fs)) w1" "out a w1 = out a w"
      "k = 0 \<longrightarrow> recv_errno self a ?w0 w1 = EAGAIN" "keeps a ?w0 w1" using g0(2) by auto
  have k1: "fds w1 = fds w" "dsk w1 b = dsk w b" "blocks w1 = blocks w" using r(7) s(4) by (auto simp: keeps_def set_errno_def)
  show ?thesis
  proof (cases "k = 0")
    case True
    with r k1 s(5) show ?thesis
      by (intro exI[of _ 0] exI[of _ bnd] exI[of _ w1] exI[of _ "f # fs"]) (simp add: hev_socks5_udp_fwd_f_def check_def)
  next
    case False
    then obtain m ms' where "take k ms = m # ms'" "denotes m f" using r(3) by (cases k) (auto simp: list_all2_Cons2)
    then have "udp_dests Rs (hev_socks5_get_addr_family self) (ut_addr t) (take k ms) = Some None" using s(6) by (auto simp: denotes_def)
    with r k1 s(5) False show ?thesis
      by (intro exI[of _ "-1"] exI[of _ bnd] exI[of _ w1] exI[of _ "drop k (f # fs)"]) (simp add: hev_socks5_udp_fwd_f_def check_def)
  qed
qed

lemma relay_loop_empty:
  assumes "ok self" "good a fs w" "peer_ok b gs w" "a \<noteq> b" "0 < num" "\<forall>t \<in> set uts. turn_ok t" "0 \<le> res_b"
    "res_f = -1 \<or> 0 \<le> res_f \<and> fs \<noteq> [] \<and> snd (hd fs) = []"
  shows "\<exists>fin w' j fs'. udp_relay_loop Rs num a b res_f res_b bnd uts (self, w) = Some (fin, self, w') \<and> j \<le> length gs \<and>
    dg_out b w' = dg_out b w \<and> out a w' = out a w @ concat (map (enc \<circ> incoming) (take j gs)) \<and> good a fs' w' \<and> blocks w' = blocks w \<and>
    ((\<forall>t \<in> set uts. 0 < min (s5_timeout self) (ut_sleep t)) \<longrightarrow> \<not> fin \<and> (length (dg_rxq (dsk w b)) \<le> length uts \<longrightarrow> j = length gs))"
  using assms
proof (induction uts arbitrary: fs gs w res_f res_b bnd)
  case Nil
  have "dg_rxq (dsk w b) = [] \<Longrightarrow> gs = []" using Nil.prems(3) by (auto simp: peer_ok_def)
  then show ?case using Nil.prems(2) by (intro exI[of _ False] exI[of _ w] exI[of _ 0] exI[of _ fs]) auto
next
  case (Cons t uts)
  have t: "turn_ok t" "\<forall>t \<in> set uts. turn_ok t" using Cons.prems(6) by auto
  obtain r bnd' w1 fs1 where
    f: "(if 0 \<le> res_f then hev_socks5_udp_fwd_f Rs num a b t bnd self w else Some (res_f, bnd, self, w)) = Some (r, bnd', self, w1)"
      "r = -1 \<or> r = 0 \<and> fs1 \<noteq> [] \<and> snd (hd fs1) = []" "good a fs1 w1" "out a w1 = out a w" "dsk w1 b = dsk w b" "fds w1 = fds w" "blocks w1 = blocks w"
  proof (cases "res_f = -1")
    case True
    then show ?thesis using that[of "-1" bnd w fs] Cons.prems(2) by simp
  next
    case False
    then obtain f fs0 where ff: "fs = f # fs0" "snd f = []" "0 \<le> res_f" using Cons.prems(8) by (cases fs) auto
    from fwd_f_empty[OF Cons.prems(1) Cons.prems(2)[unfolded ff(1)] Cons.prems(3-5) ff(2), of Rs t bnd] obtain r bnd' w' fs' where
      "hev_socks5_udp_fwd_f Rs num a b t bnd self w = Some (r, bnd', self, w')" "r = 0 \<and> fs' = f # fs0 \<or> r = -1"
      "good a fs' w'" "out a w' = out a w" "dsk w' b = dsk w b" "fds w' = fds w" "blocks w' = blocks w" by blast
    then show ?thesis using that[of r bnd' w' fs'] ff by auto
  qed
  have p1: "peer_ok b gs w1" using Cons.prems(3) f(5,6) by (simp add: peer_ok_def)
  from fwd_b_step[OF Cons.prems(1) f(3) p1 Cons.prems(4,5) t(1), of Rs AF_UNSPEC] obtain j q w2 where
    b: "hev_socks5_udp_fwd_b num a b t self w1 = Some (q, self, w2)" "0 \<le> q"
      "forwarded Rs AF_UNSPEC b (out a) enc fs1 gs w1 0 j w2" "good a fs1 w2" "peer_ok b (drop j gs) w2" "blocks w2 = blocks w1"
      "length (dg_rxq (dsk w2 b)) \<le> length (dg_rxq (dsk w1 b))"
      "gs = [] \<or> length (dg_rxq (dsk w2 b)) < length (dg_rxq (dsk w1 b))" by blast
  let ?ty = "if 0 < q then HEV_TASK_YIELD else HEV_TASK_WAITIO"
  obtain y t' w3 where y: "udp_task_io_yielder self ?ty (min (s5_timeout self) (ut_sleep t)) (s5_timeout self, w2) = (y, t', w3)"
    by (metis surj_pair)
  from poll[OF Cons.prems(1) b(4) y] Cons.prems(4) have p: "good a fs1 w3" "out a w3 = out a w2" "fds w3 = fds w2" "blocks w3 = blocks w2"
    "dsk w3 b = dsk w2 b" "t' = s5_timeout self" "0 < min (s5_timeout self) (ut_sleep t) \<longrightarrow> y = 0"
    by (auto simp: keeps_def)
  have step: "udp_relay_loop Rs num a b res_f res_b bnd (t # uts) (self, w) =
      (if y \<noteq> 0 then Some (True, self, w3) else udp_relay_loop Rs num a b r q bnd' uts (self, w3))"
  proof (cases "0 < q")
    case True
    then show ?thesis using f(1) b(1) y p(6) Cons.prems(7) by (simp add: udp_relay_loop.simps(2) udp_turn_yielder_def)
  next
    case False
    then have "q = 0" "\<not> 0 < r" using b(2) f(2) by auto
    then show ?thesis using f(1) b(1) y p(6) Cons.prems(7) by (simp add: udp_relay_loop.simps(2) udp_turn_yielder_def)
  qed
  have o3: "dg_out b w3 = dg_out b w" "out a w3 = out a w @ concat (map (enc \<circ> incoming) (take j gs))" "j \<le> length gs" "blocks w3 = blocks w"
    using b(3,6) f(4-7) p(2,4,5) by (simp_all add: forwarded_def)
  show ?case
  proof (cases "y = 0")
    case False
    with step p(1,7) o3 show ?thesis
      by (intro exI[of _ True] exI[of _ w3] exI[of _ j] exI[of _ fs1]) (auto simp: comp_def)
  next
    case True
    have p3: "peer_ok b (drop j gs) w3" using b(5) p(3,5) by (simp add: peer_ok_def)
    have m: "r = -1 \<or> 0 \<le> r \<and> fs1 \<noteq> [] \<and> snd (hd fs1) = []" using f(2) by auto
    from Cons.IH[OF Cons.prems(1) p(1) p3 Cons.prems(4,5) t(2) b(2) m, of bnd'] obtain fin w' j' fs' where
      i: "udp_relay_loop Rs num a b r q bnd' uts (self, w3) = Some (fin, self, w')" "j' \<le> length (drop j gs)" "dg_out b w' = dg_out b w3"
        "out a w' = out a w3 @ concat (map (enc \<circ> incoming) (take j' (drop j gs)))" "good a fs' w'" "blocks w' = blocks w3"
        "(\<forall>t \<in> set uts. 0 < min (s5_timeout self) (ut_sleep t)) \<longrightarrow> \<not> fin \<and>
          (length (dg_rxq (dsk w3 b)) \<le> length uts \<longrightarrow> j' = length (drop j gs))" by blast
    have "\<not> fin \<and> (length (dg_rxq (dsk w b)) \<le> length (t # uts) \<longrightarrow> j + j' = length gs)"
      if "\<forall>t \<in> set (t # uts). 0 < min (s5_timeout self) (ut_sleep t)"
      using that i(2,7) b(7,8) f(5) p(5) o3(3) by auto
    moreover have "out a w' = out a w @ concat (map (enc \<circ> incoming) (take (j + j') gs))" using i(4) o3(2) by (simp add: take_add)
    moreover have "udp_relay_loop Rs num a b res_f res_b bnd (t # uts) (self, w) = Some (fin, self, w')" using step True i(1) by simp
    moreover have "j + j' \<le> length gs" "dg_out b w' = dg_out b w" "blocks w' = blocks w" using i(2,3,6) o3 by auto
    ultimately show ?thesis using i(5) by blast
  qed
qed

end

context association_side begin

lemma udp_splicer_empty:
  assumes "ok self" "good a fs w" "peer_ok b gs w" "a \<noteq> b" "0 < hev_socks5_get_udp_copy_buffer_nums conf"
    "\<forall>t \<in> set uts. turn_ok t" "fs \<noteq> []" "snd (hd fs) = []"
  shows "\<exists>fin res w' j. hev_socks5_udp_splicer Rs conf a b uts self w = Some (fin, res, self, w') \<and> j \<le> length gs \<and>
    dg_out b w' = dg_out b w \<and> out a w' = out a w @ concat (map (enc \<circ> incoming) (take j gs)) \<and>
    (mallocq w = [] \<and> (\<forall>t \<in> set uts. 0 < min (s5_timeout self) (ut_sleep t)) \<longrightarrow>
      \<not> fin \<and> (length (dg_rxq (dsk w b)) \<le> length uts \<longrightarrow> j = length gs))"
proof -
  obtain m w1 where m: "sys_malloc w = (m, w1)" by fastforce
  then have w1: "fds w1 = fds w" "sk w1 = sk w" "dsk w1 = dsk w" "mallocq w = [] \<longrightarrow> m" "m \<longrightarrow> blocks w1 = Suc (blocks w)"
    by (auto simp: sys_malloc_def Let_def pop_def split: prod.splits list.splits)
  show ?thesis
  proof (cases m)
    case False
    have "out a w1 = out a w" using frame_other[OF assms(2), of w1] w1 by simp
    with m w1 False show ?thesis
      by (intro exI[of _ True] exI[of _ "-1"] exI[of _ w1] exI[of _ 0]) (simp add: hev_socks5_udp_splicer_def)
  next
    case True
    let ?w2 = "snd (hev_task_add_fd b (snd (hev_task_add_fd a w1)))" and ?num = "nat (hev_socks5_get_udp_copy_buffer_nums conf)"
    have w2: "fds ?w2 = fds w" "sk ?w2 = sk w" "dsk ?w2 = dsk w" "blocks ?w2 = Suc (blocks w)" using w1 True by (auto simp: hev_task_add_fd_def)
    have g: "good a fs ?w2" "out a ?w2 = out a w" using frame_other[OF assms(2), of ?w2] w2 by auto
    have p: "peer_ok b gs ?w2" using assms(3) w2 by (simp add: peer_ok_def)
    have n: "0 < ?num" using assms(5) by simp
    have e: "(1 :: int) = -1 \<or> 0 \<le> (1 :: int) \<and> fs \<noteq> [] \<and> snd (hd fs) = []" using assms(7,8) by simp
    from relay_loop_empty[OF assms(1) g(1) p assms(4) n assms(6) zero_le_one e, of Rs False] obtain fin w' j fs' where
      l: "udp_relay_loop Rs ?num a b 1 1 False uts (self, ?w2) = Some (fin, self, w')" "j \<le> length gs" "dg_out b w' = dg_out b ?w2"
        "out a w' = out a ?w2 @ concat (map (enc \<circ> incoming) (take j gs))" "good a fs' w'" "blocks w' = blocks ?w2"
        "(\<forall>t \<in> set uts. 0 < min (s5_timeout self) (ut_sleep t)) \<longrightarrow> \<not> fin \<and> (length (dg_rxq (dsk ?w2 b)) \<le> length uts \<longrightarrow> j = length gs)"
      by blast
    show ?thesis
    proof (cases fin)
      case False
      with m True l w2 g show ?thesis
        by (intro exI[of _ False] exI[of _ 0] exI[of _ w'] exI[of _ j]) (simp add: hev_socks5_udp_splicer_def)
    next
      case fin: True
      let ?w3 = "w'\<lparr>blocks := blocks w' - 1\<rparr>"
      have "out a ?w3 = out a w'" using frame_other[OF l(5), of ?w3] by simp
      moreover have "hev_free w' = Some ?w3" using l(6) w2 by (simp add: hev_free_def)
      ultimately show ?thesis using m True l fin w2 g
        by (intro exI[of _ True] exI[of _ 0] exI[of _ ?w3] exI[of _ j]) (simp add: hev_socks5_udp_splicer_def)
    qed
  qed
qed

end

subsection \<open>A datagram that does not fit\<close>

lemma large_frame_rejected:
  assumes c: "s5_type cl = HEV_SOCKS5_TYPE_UDP_IN_TCP" "fc \<in> set (fds wc)" "0 < n"
    and f: "wf_addr (fst f)" "length (encode_addr (fst f)) \<le> 19" "length (snd f) \<le> UDP_BUF_SIZE" "UDP_BUF_SIZE < length (encode_addr (fst f)) + length (snd f)"
    and q: "rxq (sk wc fc) = RxData (frame f @ rest) # q"
  shows "\<exists>ms wc'. hev_socks5_udp_recvmmsg cl fc True (udp_slots n stack) wc = Some (-1, ms, cl, wc') \<and>
    rxq (sk wc' fc) = RxData (drop 5 (frame f) @ rest) # q \<and> recv_errno cl fc wc wc' = errno (sk wc fc)"
proof -
  let ?al = "length (encode_addr (fst f))" and ?h = "take 5 (frame f)"
  obtain m ms where m: "udp_slots n stack = m # ms" "m_len m = UDP_BUF_SIZE"
    using c(3) slots_nth(1)[of n stack] slots_nth(2)[of _ n stack] by (cases "udp_slots n stack") auto
  have al: "4 \<le> ?al" by (rule encode_addr_pos[OF f(1)])
  have len: "5 < length (frame f)" using al f(4) by (simp add: frame_def)
  then have ne: "frame f @ rest \<noteq> []" by auto
  let ?w1 = "wc\<lparr>sk := (sk wc)(fc := (sk wc fc)\<lparr>rxq := RxData (drop 5 (frame f) @ rest) # q\<rparr>)\<rparr>"
  have "hev_task_io_socket_recv y 5 False True (sk wc fc) = Some (5, ?h, (sk wc fc)\<lparr>rxq := RxData (drop 5 (frame f) @ rest) # q\<rparr>)" for y
    using recv_once[OF q ne, of y 5 True] len by auto
  then have hd: "udp_read_head (s5_timeout cl) fc True wc = Some (5, ?h, ?w1)"
    using c(2) by (simp add: udp_read_head_def net_recv_def)
  obtain x y where e: "encode_addr (fst f) = x # y" by (cases "encode_addr (fst f)") auto
  have "?h ! 2 = word_of_nat (3 + ?al)" "take 2 ?h = be16 (word_of_nat (length (snd f)))"
    by (simp_all add: frame_def be16_def nth_append)
  moreover have "unat (word_of_nat (3 + ?al) :: u8) = 3 + ?al" using unat_hdrlen[of f] f(1-3) by (simp add: framable_def)
  moreover have "unat (word_of_nat (length (snd f)) :: u16) = length (snd f)" using f(3) by (intro unat_len_u16) simp
  ultimately have v: "\<not> ?h ! 2 < 5" "unat (?h ! 2) - 3 = ?al" "unat (ntohs (load16 (take 2 ?h))) = length (snd f)"
    using al by (simp_all add: word_less_nat_alt)
  have sz: "sz_sub UDP_BUF_SIZE ?al < length (snd f)" using f(2,4) sz_sub_exact[of ?al UDP_BUF_SIZE] by simp
  have "udp_recv_tcp_loop (s5_timeout cl) fc True 0 (m # ms) wc = Some (-1, m # ms, ?w1)"
    using hd v sz m(2) by (simp add: Let_def)
  then show ?thesis using c m
    by (intro exI[of _ "m # ms"] exI[of _ ?w1]) (simp add: hev_socks5_udp_recvmmsg_def hev_socks5_udp_recvmmsg_tcp_def recv_errno_def)
qed

subsection \<open>Properties\<close>


text \<open>The same over a UDP association whose client is known, while its control connection stays open.\<close>

lemma server_relays_datagrams_over_udp:
  assumes "s5_type self = HEV_SOCKS5_TYPE_UDP_IN_UDP" "s5_udp_associated self" "0 \<le> s5_timeout self"
    and "dg_good a fs w" "control_ok (s5_fd self) w" "peer_ok b gs w" "a \<noteq> b"
    and "0 < hev_socks5_get_udp_copy_buffer_nums conf" "resolver_ok Rs" "resolvable Rs (s5_family self) fs" "\<forall>t \<in> set uts. turn_ok t"
  shows "\<exists>fin res w' k j. hev_socks5_udp_splicer Rs conf a b uts self w = Some (fin, res, self, w') \<and>
    k \<le> length fs \<and> j \<le> length gs \<and> fds w' = fds w \<and> blocks w' = (if fin then blocks w else Suc (blocks w)) \<and>
    dg_out b w' = dg_out b w @ map (outgoing Rs (s5_family self)) (take k fs) \<and>
    dg_out a w' = dg_out a w @ map (\<lambda>g. (None, datagram (incoming g))) (take j gs) \<and>
    (mallocq w = [] \<and> (\<forall>t \<in> set uts. 0 < min (s5_timeout self) (ut_sleep t)) \<longrightarrow>
      \<not> fin \<and> (length (dg_rxq (dsk w a)) + length (dg_rxq (dsk w b)) \<le> length uts \<longrightarrow> k = length fs \<and> j = length gs))"
proof -
  have ok: "assoc_ok HEV_SOCKS5_TYPE_UDP_IN_UDP self \<and> s5_fd self = s5_fd self" "dg_good a fs w \<and> control_ok (s5_fd self) w"
    using assms(1-5) by (simp_all add: assoc_ok_def)
  have c: "concat (map ((\<lambda>f. [(None, datagram f)]) \<circ> incoming) xs) = map (\<lambda>g. (None :: sockaddr6 option, datagram (incoming g))) xs" for xs
    by (induction xs) auto
  show ?thesis using udp_side.udp_splicer_run[OF ok assms(6-11)] unfolding forwarded_def c by metis
qed

text \<open>C39: an empty datagram ends the forwarding. When the next message of the client has no data, which UDP allows, neither it
  nor any later message is ever passed on, however long the splicer runs; the other direction goes on as before,
  so the association does not end either.\<close>

theorem server_empty_datagram_ends_forwarding:
  assumes "s5_type self = HEV_SOCKS5_TYPE_UDP_IN_TCP" "0 \<le> s5_timeout self" "tcp_good a ((dest, []) # fs) w" "peer_ok b gs w" "a \<noteq> b"
    and "0 < hev_socks5_get_udp_copy_buffer_nums conf" "\<forall>t \<in> set uts. turn_ok t"
  shows "\<exists>fin res w' j. hev_socks5_udp_splicer Rs conf a b uts self w = Some (fin, res, self, w') \<and> j \<le> length gs \<and>
    dg_out b w' = dg_out b w \<and> net_out a w' = net_out a w @ concat (map (frame \<circ> incoming) (take j gs)) \<and>
    (mallocq w = [] \<and> (\<forall>t \<in> set uts. 0 < min (s5_timeout self) (ut_sleep t)) \<longrightarrow>
      \<not> fin \<and> (length (dg_rxq (dsk w b)) \<le> length uts \<longrightarrow> j = length gs))"
proof -
  have "assoc_ok HEV_SOCKS5_TYPE_UDP_IN_TCP self" using assms(1,2) by (simp add: assoc_ok_def)
  from tcp_side.udp_splicer_empty[OF this assms(3-7)] show ?thesis by simp
qed

text \<open>C40: a datagram that fills the server's buffer breaks the client. The server receives up to 1500 bytes and frames them with
  their source in front; a client of this library has 1500 bytes for both. When they do not fit, the client's read fails after
  the header and leaves the rest of the frame in the stream, where the next read takes it for a header; what \<open>errno\<close> says is
  what was there before.\<close>

theorem server_large_reply_breaks_client:
  assumes "s5_type self = HEV_SOCKS5_TYPE_UDP_IN_TCP" "0 \<le> s5_timeout self" "tcp_good a fs w" "peer_ok b [(src, d)] w" "a \<noteq> b" "0 < num"
    and "dg_rxq (dsk w b) = [DgData src d]" "turn_ok t" "UDP_BUF_SIZE < length (encode_addr (addr_of src)) + length d"
    and "s5_type cl = HEV_SOCKS5_TYPE_UDP_IN_TCP" "fc \<in> set (fds wc)" "0 < n" "net_out a w = []"
  shows "\<exists>w'. hev_socks5_udp_fwd_b num a b t self w = Some (1, self, w') \<and> net_out a w' = frame (addr_of src, d) \<and>
    (rxq (sk wc fc) = [RxData (net_out a w')] \<longrightarrow>
      (\<exists>ms wc'. hev_socks5_udp_recvmmsg cl fc True (udp_slots n stack) wc = Some (-1, ms, cl, wc') \<and>
        rxq (sk wc' fc) = [RxData (drop 5 (net_out a w'))] \<and> recv_errno cl fc wc wc' = errno (sk wc fc)))"
proof -
  let ?f = "(addr_of src, d)"
  have sd: "length (sin6_addr src) = 16" "length d \<le> UDP_BUF_SIZE" using assms(4,7) by (auto simp: peer_ok_def plain_dgrams_def)
  have f: "wf_addr (fst ?f)" "length (encode_addr (fst ?f)) \<le> 19" using sd(1) by (auto simp: addr_of_def)
  have "assoc_ok HEV_SOCKS5_TYPE_UDP_IN_TCP self" using assms(1,2) by (simp add: assoc_ok_def)
  from tcp_side.fwd_b_step[OF this assms(3-6,8)] obtain j r w' where
    r: "hev_socks5_udp_fwd_b num a b t self w = Some (r, self, w')" "r = (if j = 0 then 0 else 1)"
      "forwarded no_resolver AF_UNSPEC b (net_out a) frame fs [(src, d)] w 0 j w'" "peer_ok b (drop j [(src, d)]) w'"
      "length (dg_rxq (dsk w' b)) < length (dg_rxq (dsk w b))" by blast
  have "dg_rxq (dsk w' b) = []" using r(5) assms(7) by simp
  then have j: "j = 1" using r(3,4) by (cases j) (auto simp: peer_ok_def forwarded_def)
  then have o: "net_out a w' = frame ?f" using r(3) assms(13) by (simp add: forwarded_def incoming_def)
  have l: "length (snd ?f) \<le> UDP_BUF_SIZE" "UDP_BUF_SIZE < length (encode_addr (fst ?f)) + length (snd ?f)" using sd(2) assms(9) by simp_all
  have "\<exists>ms wc'. hev_socks5_udp_recvmmsg cl fc True (udp_slots n stack) wc = Some (-1, ms, cl, wc') \<and>
      rxq (sk wc' fc) = [RxData (drop 5 (frame ?f))] \<and> recv_errno cl fc wc wc' = errno (sk wc fc)"
    if "rxq (sk wc fc) = [RxData (frame ?f)]"
    using large_frame_rejected[OF assms(10-12) f l, of "[]" "[]" stack] that by simp
  with r(1,2) j o show ?thesis by auto
qed

definition relay_net :: "rx_ev list \<Rightarrow> sockaddr6 dg_ev list \<Rightarrow> net" where
  "relay_net rx dg = (udp_net rx dg)\<lparr>fds := [4, 6]\<rparr>"

definition turn_example :: udp_turn where
  "turn_example = \<lparr>ut_bufs = [], ut_addr = sockaddr6_zero, ut_saddr = replicate 19 0, ut_errno = EAGAIN, ut_sleep = 50\<rparr>"

abbreviation (input) relay_host :: socks_addr where "relay_host \<equiv> SA_IPv4 [10, 0, 0, 1] 53"
abbreviation (input) relay_sa :: sockaddr6 where "relay_sa \<equiv> sockaddr6_of (SA_IPv4 [10, 0, 0, 1] 53)"

lemma relay_host_facts:
  "destination no_resolver f relay_host = Some relay_sa" "addr_of relay_sa = relay_host" "resolver_ok no_resolver"
  "0 < hev_socks5_get_udp_copy_buffer_nums socks5_conf_default" "turn_ok turn_example"
  "s5_type (udp_example HEV_SOCKS5_TYPE_UDP_IN_TCP) = HEV_SOCKS5_TYPE_UDP_IN_TCP"
  "0 \<le> s5_timeout (udp_example HEV_SOCKS5_TYPE_UDP_IN_TCP)" "(4 :: int) \<noteq> 6"
  "\<forall>t \<in> set (replicate n turn_example). 0 < min (s5_timeout (udp_example HEV_SOCKS5_TYPE_UDP_IN_TCP)) (ut_sleep t)"
  "mallocq (relay_net rx dg) = []" "net_out 4 (relay_net rx dg) = []" "dg_out 6 (relay_net rx dg) = []"
  using addr_into_sockaddr6_ipv4[of "[10, 0, 0, 1]" sockaddr6_zero no_resolver 53 "[]" f]
  by (simp_all add: destination_def sockaddr6_zero_def addr_of_def in6_is_addr_v4mapped_def resolver_ok_def no_resolver_def numeral_eq_Suc
      hev_socks5_get_udp_copy_buffer_nums_def socks5_conf_default_def turn_ok_def turn_example_def udp_example_def relay_net_def udp_net_def
      del: encode_addr.simps)

lemma relay_world:
  "tcp_good 4 [(relay_host, [0x61])] (relay_net [RxData [0, 1, 10, 1, 10, 0], RxAgain 1, RxData [0, 1, 0, 53, 0x61]] dg)"
  "tcp_good 4 [(relay_host, []), (relay_host, [0x61])] (relay_net [RxData [0, 0, 10, 1, 10, 0, 0, 1, 0, 53, 0, 1, 10, 1, 10, 0, 0, 1, 0, 53, 0x61]] dg)"
  "tcp_good 4 [] (relay_net [] dg)"
  "length d \<le> UDP_BUF_SIZE \<Longrightarrow> peer_ok 6 [(relay_sa, d)] (relay_net rx [DgAgain 3, DgData relay_sa d])"
  "length d \<le> UDP_BUF_SIZE \<Longrightarrow> peer_ok 6 [(relay_sa, d)] (relay_net rx [DgData relay_sa d])"
  by (simp_all add: tcp_good_def relay_net_def udp_net_def rx_live_def frame_def be16_def fits_def framable_def peer_ok_def plain_dgrams_def)


theorem server_empty_datagram_ends_forwarding_witness:
  "\<exists>res w'. hev_socks5_udp_splicer no_resolver socks5_conf_default 4 6 (replicate 40 turn_example) (udp_example HEV_SOCKS5_TYPE_UDP_IN_TCP)
      (relay_net [RxData [0, 0, 10, 1, 10, 0, 0, 1, 0, 53, 0, 1, 10, 1, 10, 0, 0, 1, 0, 53, 0x61]] [DgAgain 3, DgData relay_sa [7, 8]]) =
        Some (False, res, udp_example HEV_SOCKS5_TYPE_UDP_IN_TCP, w') \<and>
    dg_out 6 w' = [] \<and> net_out 4 w' = [0, 2, 10, 1, 10, 0, 0, 1, 0, 53, 7, 8]"
proof -
  let ?w = "relay_net [RxData [0, 0, 10, 1, 10, 0, 0, 1, 0, 53, 0, 1, 10, 1, 10, 0, 0, 1, 0, 53, 0x61]] [DgAgain 3, DgData relay_sa [7, 8]]"
  let ?self = "udp_example HEV_SOCKS5_TYPE_UDP_IN_TCP" and ?gs = "[(relay_sa, [7, 8 :: u8])]"
  have p: "peer_ok 6 ?gs ?w" by (rule relay_world(4)) simp
  have t: "\<forall>t \<in> set (replicate 40 turn_example). turn_ok t" using relay_host_facts(5) by simp
  have n: "length (dg_rxq (dsk ?w 6)) \<le> length (replicate 40 turn_example)" by (simp add: relay_net_def udp_net_def)
  obtain fin res w' j where
    r: "hev_socks5_udp_splicer no_resolver socks5_conf_default 4 6 (replicate 40 turn_example) ?self ?w = Some (fin, res, ?self, w')"
      "dg_out 6 w' = dg_out 6 ?w" "net_out 4 w' = net_out 4 ?w @ concat (map (frame \<circ> incoming) (take j ?gs))" "\<not> fin" "j = length ?gs"
    using server_empty_datagram_ends_forwarding[OF relay_host_facts(6,7) relay_world(2) p relay_host_facts(8,4) t, of no_resolver]
      relay_host_facts(9,10) n by blast
  then show ?thesis
    by (simp add: relay_host_facts incoming_def frame_def be16_def del: sockaddr6_of.simps)
qed

theorem server_large_reply_breaks_client_witness:
  "\<exists>w'. hev_socks5_udp_fwd_b 10 4 6 turn_example (udp_example HEV_SOCKS5_TYPE_UDP_IN_TCP) (relay_net [] [DgData relay_sa (replicate 1500 7)]) =
      Some (1, udp_example HEV_SOCKS5_TYPE_UDP_IN_TCP, w') \<and> net_out 4 w' = frame (relay_host, replicate 1500 7) \<and>
    (\<exists>ms wc'. hev_socks5_udp_recvmmsg (udp_example HEV_SOCKS5_TYPE_UDP_IN_TCP) 4 True (udp_slots 10 []) (relay_net [RxData (net_out 4 w')] []) =
      Some (-1, ms, udp_example HEV_SOCKS5_TYPE_UDP_IN_TCP, wc'))"
proof -
  let ?d = "replicate 1500 (7 :: u8)" and ?self = "udp_example HEV_SOCKS5_TYPE_UDP_IN_TCP"
  let ?w = "relay_net [] [DgData relay_sa ?d]" and ?wc = "relay_net [RxData (frame (relay_host, ?d))] []"
  have p: "peer_ok 6 [(relay_sa, ?d)] ?w" by (rule relay_world(5)) simp
  have q: "dg_rxq (dsk ?w 6) = [DgData relay_sa ?d]" "4 \<in> set (fds ?wc)" "rxq (sk ?wc 4) = [RxData (frame (relay_host, ?d))]"
    by (simp_all add: relay_net_def udp_net_def del: sockaddr6_of.simps)
  have l: "UDP_BUF_SIZE < length (encode_addr (addr_of relay_sa)) + length ?d" unfolding relay_host_facts(2) by simp
  have ten: "0 < (10 :: nat)" by simp
  from server_large_reply_breaks_client[OF relay_host_facts(6,7) relay_world(3) p relay_host_facts(8) ten q(1) relay_host_facts(5) l
      relay_host_facts(6) q(2) ten relay_host_facts(11), of "[]"] q(3)
  show ?thesis unfolding relay_host_facts(2) by auto
qed

end
