(* ===== verification/Spec2Isabelle.thy ===== *)
theory Spec2Isabelle
  imports HevList RingBuffer TaskIO Socks5Addr Socks5Client UdpFrame DnsHandle HevUtils Config SessionTCP SessionUDPRun TaskMutex TunnelRun EngineRun ServerUDP
begin

text \<open>
  The tunnel engine of Psocks (app/src/main/jni/psocks-engine): a verified model.

  \<^bold>\<open>The program.\<close> Psocks is an Android VPN service. Its engine reads the IP packets of all applications
  from a tunnel interface, gives them to the TCP/IP stack lwIP, which is made to accept connections to
  any address, and carries every connection and every datagram through a SOCKS5 proxy. It runs in one
  thread, as cooperative tasks of the library hev-task-system: one reads packets from the interface, one
  drives the timers of lwIP, one waits for the order to stop, and each session has its own.

  \<^item> The \<^emph>\<open>tunnel\<close> (src/hev-socks5-tunnel.c) has the set of sessions, ordered by activity. lwIP calls its
    handlers for a new connection and for a datagram; they create a session, or hand the datagram to
    the mapped DNS.
  \<^item> A \<^emph>\<open>session\<close> (src/hev-socks5-session*.c) extends a SOCKS5 client. It connects to the proxy, shakes
    hands and moves data both ways until one side ends, an error occurs or the tunnel terminates it.
  \<^item> The \<^emph>\<open>SOCKS5 library\<close> (src/core) has the client, the server with its authenticator, the transports of
    datagrams, addresses and settings.
  \<^item> The \<^emph>\<open>mapped DNS\<close> (src/hev-mapped-dns.c) answers DNS queries with addresses of a reserved network
    and turns such an address back into the name (src/misc/hev-utils.c) when a connection to it comes.
  \<^item> \<^emph>\<open>Containers\<close>: an intrusive list, a ring buffer, an intrusive red-black tree.
  \<^item> The \<^emph>\<open>configuration\<close> (src/hev-config.c) comes from a YAML document; src/hev-main.c passes it on and
    starts and ends the engine.

  \<^bold>\<open>The theories\<close>, from the bottom up, with the code each models:

  \<^item> \<^theory_text>\<open>Prelude\<close>: words, memory as byte lists with checked accesses, C strings, byte order, oracle queues.
  \<^item> \<^theory_text>\<open>HevList\<close> (misc/hev-list.c): a heap of link fields, \<open>list_rep\<close>; the locale \<open>intrusive_list\<close>.
  \<^item> \<^theory_text>\<open>RingBuffer\<close> (misc/hev-ring-buffer.c): \<open>ring_ok\<close>, the queues \<open>inflight\<close> and \<open>unread\<close>; the locale
    \<open>byte_ring\<close>.
  \<^item> \<^theory_text>\<open>RBTree\<close> (core hev-rbtree.c): a heap of nodes whose word packs parent and colour, \<open>rb_list\<close>; the
    locales \<open>node_index\<close> and \<open>keyed_index\<close>, which the mapped DNS uses.
  \<^item> \<^theory_text>\<open>TaskIO\<close>, \<^theory_text>\<open>DatagramIO\<close> (hev-task-system, hev-task-io-socket.c): the retry loops around the socket
    calls, over every environment; \<^theory_text>\<open>TaskMutex\<close> (hev-task-mutex.c).
  \<^item> \<^theory_text>\<open>Socks5Addr\<close>, \<^theory_text>\<open>Socks5\<close> (core hev-socks5-proto.h, hev-socks5-misc.c, hev-socks5.c): the packed
    address, its conversions; descriptors, settings, the base object.
  \<^item> \<^theory_text>\<open>Socks5Client\<close> (core hev-socks5-client*.c): connect, both orders of the handshake, the classes for
    TCP and UDP; the locale \<open>upstream_class\<close>, interpreted on both.
  \<^item> \<^theory_text>\<open>UdpFrame\<close> (core hev-socks5-udp.c): datagrams as frames of a stream or as relay datagrams.
  \<^item> \<^theory_text>\<open>MappedDNS\<close>, \<^theory_text>\<open>DnsHandle\<close> (src/hev-mapped-dns.c): the cache and the message handler.
  \<^item> \<^theory_text>\<open>HevUtils\<close> (src/misc/hev-utils.c): addresses between lwIP and SOCKS5.
  \<^item> \<^theory_text>\<open>Config\<close> (src/hev-config.c): the parser over the nodes of a document.
  \<^item> \<^theory_text>\<open>SessionTCP\<close> (src/hev-socks5-session.c, -tcp.c); \<^theory_text>\<open>SessionUDP\<close>, \<^theory_text>\<open>UdpTransport\<close>, \<^theory_text>\<open>SessionUDPRun\<close>
    (-udp.c), with the locale \<open>udp_transport\<close>, interpreted on both transports.
  \<^item> \<^theory_text>\<open>Tunnel\<close>, \<^theory_text>\<open>TunnelRun\<close> (src/hev-socks5-tunnel.c, with lwIP's dispatch in udp.c and tcp_in.c): the set of
    sessions, the handlers, the end of sessions, reachable states.
  \<^item> \<^theory_text>\<open>Engine\<close>, \<^theory_text>\<open>EngineRun\<close> (src/hev-main.c, the rest of hev-socks5-tunnel.c, src/hev-tunnel-linux.c, the
    loggers): the life of the engine.
  \<^item> \<^theory_text>\<open>Authenticator\<close> (core hev-socks5-authenticator.c, hev-socks5-user.c), \<^theory_text>\<open>Server\<close>, \<^theory_text>\<open>ServerRun\<close>
    (core hev-socks5-server.c): the users and the handshake of the server, alone and with a client.
  \<^item> \<^theory_text>\<open>CircularBuffer\<close>, \<^theory_text>\<open>Splice\<close> (hev-task-system, hev-circular-buffer.c, hev-task-io.c; core hev-socks5-tcp.c):
    two sockets copied to each other; the locales \<open>byte_relay\<close> and \<open>splicer\<close>, interpreted on both splicers.
  \<^item> \<^theory_text>\<open>ServerUDP\<close> (core hev-socks5-udp.c from \<open>hev_socks5_udp_fwd_f\<close> on, service and run of hev-socks5-server.c): the
    UDP associations of the server; the locale \<open>association_side\<close>, interpreted on both transports.
\<close>

text \<open>
  \<^bold>\<open>How the model reads.\<close> Structures are records; a structure that embeds another one as its base is a
  record extension, and the class tables of the C objects are records of their methods. A computation
  has type \<^typ>\<open>'a option\<close>: \<^term>\<open>None\<close> stands for an execution without a result in C (an access through
  NULL or out of bounds, a block freed twice) or one that never returns. Every error the code handles is
  a value, with the number the code returns. So a theorem that says \<open>f x = Some y\<close> also says that the code
  neither faults nor hangs. The results of system calls and of allocations are oracle queues in the state:
  they are arbitrary, and an empty queue means success; so a statement about all states is one about
  all behaviours of the system. Streams are traces of what each \<open>recv\<close> and \<open>send\<close> finds, cut in any way.
  Loops are structural over these traces, or partial functions whose results the theorems establish; no
  fuel is used. Where tasks, lwIP and other threads interleave, the events between two steps of a task are
  an argument (any list of them), or the steps are an inductive relation over which an invariant is
  proved. Machine integers that can wrap are words of their width.

  \<^bold>\<open>What is shown.\<close> For the containers, that the pointer code implements sequences, queues and sorted
  maps, with every link, colour and offset. For I/O, that reads and writes deliver exactly the bytes of
  the stream however it is cut, and return in time. For addresses and messages, round trips and exact
  formats. For the handshake, which bytes are exchanged, that both orders are equivalent, and that a
  success means the proxy has accepted. For sessions, that in every interleaving both directions are exact
  streams (or sequences of datagrams), are closed only after their last byte, and end after an error. For
  the tunnel, an invariant of every reachable state, which session gets what, and that stopping ends all
  sessions. For the mapped DNS, that it is an LRU map whose answers lead back to the names. For the
  engine, that it gives back what it has taken. Where the code does not do what it means to, there is a
  theorem that shows it on every input of the kind, not an assumption that excludes it.

  \<^bold>\<open>What the theorems assume\<close> is in their statements: well-formed inputs of the component (a heap that
  represents a list, a valid configuration), addresses of 64 bits, a little-endian host, and the documented
  behaviour of \<open>inet_pton\<close>, \<open>getaddrinfo\<close> (parameters), of the C library's string functions, and of lwIP at the
  calls the code makes. Each theorem with hypotheses is followed by an instance at a concrete input.

  \<^bold>\<open>Not modelled.\<close> The rest of lwIP (IP, TCP, its timers and memory) and the YAML scanner are third-party
  libraries; the model has the calls and callbacks the engine uses. Of hev-task-system, the scheduler, timers, the reactor,
  channels and stacks are the meaning of "a task waits until": the model of a wait is that it ends
  with any remaining time. Context switches, memory pools and the contents of log messages have no
  modelled effect. \<open>lwip_timer_task_entry\<close> and \<open>netif_output_handler\<close> only call lwIP and \<open>writev\<close>. The interfaces
  of the other systems (hev-tunnel-freebsd.c, -netbsd.c, -macos.c, -windows.c) are not part of the Android
  build; JNI glue and the Java service are outside the engine. \<open>run_as_daemon\<close> and \<open>set_limit_nofile\<close> are
  sequences of system calls. The engine never starts a server; its
  model stands beside the engine's.
\<close>

end
